(* ===== verification/Clove_Prelude.thy ===== *)
theory Clove_Prelude
  imports Complex_Main "HOL-Library.Word" "HOL-Library.List_Lexorder" "HOL-Library.Char_ord"
begin

text \<open>
  Shared vocabulary of the development: Rust's byte strings, strings, fixed-width integers
  and \<open>Ordering\<close>, the \<open>Result\<close> type as a sum with its sequencing combinators, and the
  generic lemmas on them. Every library error is a value of \<open>cl_error\<close>, the model of
  \<^verbatim>\<open>src/units.rs\<close>.
\<close>

named_theorems res_simps \<open>inversion of successful \<open>Result\<close> computations\<close>
named_theorems width_simps \<open>byte and integer width facts\<close>

type_synonym u8 = "8 word"
type_synonym bytes = "u8 list"

section \<open>Library errors\<close>

text \<open>
  The errors of redb the sources name. Any other error of redb is carried by its text.
\<close>

datatype redb_error = TableDoesNotExist string | RepairAborted | TransactionInProgress | RedbOther string

text \<open>
  The enum \<open>ClError\<close>, variant by variant. The payload of a \<open>serde_json\<close> error is not kept.
\<close>

datatype (plugins only: size code) cl_error =
    IdFieldMismatch
  | NonUnique nat
  | InvalidCursor
  | UnsupportedSum
  | DecimalSumLimit
  | SumOverflow
  | UniqueViolation
  | DuplicateGroups nat
  | ConsumerExpired
  | ConsumerNeedsRebuild
  | IoError string
  | ValidationError string
  | SearchError string
  | PermissionDenied string
  | ExecutionError string
  | ImageNotFound string
  | InvalidCoordinates string
  | KeyNotFound string
  | DirectoryNotFound string
  | Database redb_error
  | DatabaseInUse string
  | BackupOpenFailed string string
  | OutOfMemory string nat
  | Serialization
  | CorruptMigrationIndex string string
  | NotFound string
  | Validation string
  | Cache string
  | Utf8Error string
  | OptionNone
  | MigrationError string
  | StreamExternal string
  | NotRestorable nat string string string
  | MigrationConflict string string string
  | DecoderNotFound string string string
  | LayoutMismatch string string nat
  | LegacyMigrationFormat string
  | TargetTableOccupied string string nat
  | ExternalMappingRequired string
  | IncompatibleOverwrite string string
  | TableMismatch "string list" "string list"
  | BackupNormalizeFailed string
  | NotCloveDatabase string
  | UpgradeIncomplete string
  | Closed string
  | EncryptedOpenFailed
  | DataTampered

type_synonym 'a res = "cl_error + 'a"

section \<open>Sequencing of fallible computations\<close>

text \<open>\<open>rbind m f\<close> is the \<open>?\<close> operator: the first error ends the computation.\<close>

definition rbind :: "'e + 'a \<Rightarrow> ('a \<Rightarrow> 'e + 'b) \<Rightarrow> 'e + 'b" where
  "rbind m f = (case m of Inl e \<Rightarrow> Inl e | Inr x \<Rightarrow> f x)"

lemma rbind_simps [simp]:
  "rbind (Inl e) f = Inl e"
  "rbind (Inr x) f = f x"
  by (simp_all add: rbind_def)

lemma rbind_eq_Inr [simp, res_simps]:
  "rbind m f = Inr y \<longleftrightarrow> (\<exists>x. m = Inr x \<and> f x = Inr y)"
  by (cases m) auto

lemma rbind_eq_Inl: "rbind m f = Inl e \<longleftrightarrow> m = Inl e \<or> (\<exists>x. m = Inr x \<and> f x = Inl e)"
  by (cases m) auto

lemma rbind_assoc: "rbind (rbind m f) g = rbind m (\<lambda>x. rbind (f x) g)"
  by (cases m) auto

lemma rbind_Inr_id [simp]: "rbind m Inr = m"
  by (cases m) auto

lemma rbind_cong [fundef_cong]:
  "m = m' \<Longrightarrow> (\<And>x. m' = Inr x \<Longrightarrow> f x = f' x) \<Longrightarrow> rbind m f = rbind m' f'"
  by (cases m') auto

text \<open>\<open>ok_or e o\<close> is \<open>Option::ok_or\<close>; \<open>guard_ok b e\<close> is an early return of \<open>e\<close> unless \<open>b\<close>.\<close>

definition ok_or :: "'e \<Rightarrow> 'a option \<Rightarrow> 'e + 'a" where
  "ok_or e x = (case x of None \<Rightarrow> Inl e | Some y \<Rightarrow> Inr y)"

lemma ok_or_simps [simp]: "ok_or e None = Inl e" "ok_or e (Some x) = Inr x"
  by (simp_all add: ok_or_def)

lemma ok_or_eq_Inr [simp, res_simps]: "ok_or e x = Inr y \<longleftrightarrow> x = Some y"
  by (cases x) auto

definition guard_ok :: "bool \<Rightarrow> 'e \<Rightarrow> 'e + unit" where
  "guard_ok b e = (if b then Inr () else Inl e)"

lemma guard_ok_simps [simp]: "guard_ok True e = Inr ()" "guard_ok False e = Inl e"
  by (simp_all add: guard_ok_def)

lemma guard_ok_eq_Inr [simp, res_simps]: "guard_ok b e = Inr u \<longleftrightarrow> b"
  by (cases b) auto

text \<open>\<open>mapM\<close> is \<open>map(..).collect::<Result<Vec<_>>>()\<close>, \<open>foldM\<close> a \<open>for\<close> loop whose body may return early.\<close>

fun mapM :: "('a \<Rightarrow> 'e + 'b) \<Rightarrow> 'a list \<Rightarrow> 'e + 'b list" where
  "mapM f [] = Inr []"
| "mapM f (x # xs) = rbind (f x) (\<lambda>y. rbind (mapM f xs) (\<lambda>ys. Inr (y # ys)))"

fun foldM :: "('s \<Rightarrow> 'a \<Rightarrow> 'e + 's) \<Rightarrow> 's \<Rightarrow> 'a list \<Rightarrow> 'e + 's" where
  "foldM f s [] = Inr s"
| "foldM f s (x # xs) = rbind (f s x) (\<lambda>s'. foldM f s' xs)"

lemma mapM_cong [fundef_cong]:
  "xs = ys \<Longrightarrow> (\<And>x. x \<in> set ys \<Longrightarrow> f x = g x) \<Longrightarrow> mapM f xs = mapM g ys"
  by (induction ys arbitrary: xs) (auto intro!: rbind_cong)

lemma mapM_Inr_map: "(\<And>x. x \<in> set xs \<Longrightarrow> f x = Inr (g x)) \<Longrightarrow> mapM f xs = Inr (map g xs)"
  by (induction xs) auto

lemma mapM_Inr_length: "mapM f xs = Inr ys \<Longrightarrow> length ys = length xs"
  by (induction xs arbitrary: ys) auto

lemma mapM_Inr_all2: "mapM f xs = Inr ys \<longleftrightarrow> list_all2 (\<lambda>x y. f x = Inr y) xs ys"
proof (induction xs arbitrary: ys)
  case (Cons x xs)
  then show ?case by (cases ys) auto
qed auto

lemma mapM_Inr_set: "mapM f xs = Inr ys \<Longrightarrow> y \<in> set ys \<Longrightarrow> \<exists>x \<in> set xs. f x = Inr y"
  by (induction xs arbitrary: ys) auto

lemma mapM_Inr_in: "mapM f xs = Inr ys \<Longrightarrow> a \<in> set xs \<Longrightarrow> \<exists>y \<in> set ys. f a = Inr y"
  by (induction xs arbitrary: ys) auto

lemma mapM_append:
  "mapM f (xs @ ys) = rbind (mapM f xs) (\<lambda>a. rbind (mapM f ys) (\<lambda>b. Inr (a @ b)))"
  by (induction xs) (simp_all add: rbind_assoc)

lemma foldM_append: "foldM f s (xs @ ys) = rbind (foldM f s xs) (\<lambda>s'. foldM f s' ys)"
  by (induction xs arbitrary: s) (simp_all add: rbind_assoc)

lemma foldM_cong [fundef_cong]:
  "s = s' \<Longrightarrow> xs = ys \<Longrightarrow> (\<And>x t. x \<in> set ys \<Longrightarrow> f t x = g t x) \<Longrightarrow> foldM f s xs = foldM g s' ys"
  by (induction ys arbitrary: xs s s') (auto intro!: rbind_cong)

text \<open>A property kept by every round of a loop is kept by the loop.\<close>

lemma foldM_invariant:
  assumes "foldM f s xs = Inr t" "P s"
    and "\<And>s x t. x \<in> set xs \<Longrightarrow> P s \<Longrightarrow> f s x = Inr t \<Longrightarrow> P t"
  shows "P t"
  using assms
proof (induction xs arbitrary: s)
  case (Cons x xs)
  then obtain s' where s': "f s x = Inr s'" "foldM f s' xs = Inr t" by auto
  then have "P s'" using Cons.prems by auto
  then show ?case using Cons.IH[OF s'(2)] Cons.prems(3) by auto
qed auto

section \<open>Machine integers\<close>

text \<open>
  \<open>u64\<close> values are natural numbers below \<open>2 ^ 64\<close> and \<open>i128\<close> values integers of that range;
  the checked and saturating operations of the sources are written out.
\<close>

definition u64_max :: nat where "u64_max = 2 ^ 64 - 1"

definition checked_add_u64 :: "nat \<Rightarrow> nat \<Rightarrow> nat option" where
  "checked_add_u64 a b = (if a + b \<le> u64_max then Some (a + b) else None)"

definition checked_sub_u64 :: "nat \<Rightarrow> nat \<Rightarrow> nat option" where
  "checked_sub_u64 a b = (if b \<le> a then Some (a - b) else None)"

definition saturating_add_u64 :: "nat \<Rightarrow> nat \<Rightarrow> nat" where
  "saturating_add_u64 a b = min (a + b) u64_max"

definition i128_ok :: "int \<Rightarrow> bool" where
  "i128_ok v \<longleftrightarrow> - (2 ^ 127) \<le> v \<and> v < 2 ^ 127"

definition checked_i128 :: "int \<Rightarrow> int option" where
  "checked_i128 v = (if i128_ok v then Some v else None)"

lemma checked_add_u64_Some [simp]:
  "checked_add_u64 a b = Some c \<longleftrightarrow> c = a + b \<and> a + b \<le> u64_max"
  by (auto simp: checked_add_u64_def)

lemma checked_sub_u64_Some [simp]: "checked_sub_u64 a b = Some c \<longleftrightarrow> b \<le> a \<and> c = a - b"
  by (auto simp: checked_sub_u64_def)

lemma checked_i128_Some [simp]: "checked_i128 v = Some w \<longleftrightarrow> w = v \<and> i128_ok v"
  by (auto simp: checked_i128_def)

section \<open>Big-endian byte strings\<close>

fun to_be :: "nat \<Rightarrow> nat \<Rightarrow> bytes" where
  "to_be 0 v = []"
| "to_be (Suc k) v = to_be k (v div 256) @ [of_nat v]"

definition from_be :: "bytes \<Rightarrow> nat" where
  "from_be bs = foldl (\<lambda>a b. a * 256 + unat b) 0 bs"

abbreviation u64_be :: "nat \<Rightarrow> bytes" where
  "u64_be v \<equiv> to_be 8 v"

lemma length_to_be [simp]: "length (to_be k v) = k"
  by (induction k v rule: to_be.induct) auto

lemma from_be_snoc: "from_be (bs @ [b]) = from_be bs * 256 + unat b"
  by (simp add: from_be_def)

lemma from_be_Nil [simp]: "from_be [] = 0"
  by (simp add: from_be_def)

lemma unat_of_nat_u8 [width_simps]: "unat (of_nat n :: u8) = n mod 256"
  by (simp add: unat_of_nat)

lemma unat_u8_less [width_simps]: "unat (b :: u8) < 256"
  using unsigned_less[of b] by simp

lemma from_be_to_be: "v < 256 ^ k \<Longrightarrow> from_be (to_be k v) = v"
proof (induction k v rule: to_be.induct)
  case (2 k v)
  then have "v div 256 < 256 ^ k" by (simp add: less_mult_imp_div_less mult.commute)
  with "2.IH" show ?case by (simp add: from_be_snoc unat_of_nat_u8)
qed simp

lemma to_be_from_be: "to_be (length bs) (from_be bs) = bs"
proof (induction bs rule: rev_induct)
  case (snoc b bs)
  have "(of_nat (from_be bs * 256 + unat b) :: u8) = b"
  proof -
    have "unat (of_nat (from_be bs * 256 + unat b) :: u8) = unat b"
      using unat_u8_less[of b] by (simp only: unat_of_nat_u8) simp
    then show ?thesis by (simp only: word_unat_eq_iff)
  qed
  moreover have "(from_be bs * 256 + unat b) div 256 = from_be bs"
    using unat_u8_less[of b] by simp
  ultimately show ?case using snoc by (simp add: from_be_snoc)
qed simp

lemma from_be_less: "from_be bs < 256 ^ length bs"
proof (induction bs rule: rev_induct)
  case (snoc b bs)
  then have "from_be bs + 1 \<le> 256 ^ length bs" by simp
  then have "(from_be bs + 1) * 256 \<le> 256 ^ length bs * 256" by (rule mult_le_mono1)
  then show ?case using unat_u8_less[of b] by (simp add: from_be_snoc)
qed simp

lemma u64_be_inverse [simp]: "v \<le> u64_max \<Longrightarrow> from_be (u64_be v) = v"
  by (rule from_be_to_be) (simp add: u64_max_def)

section \<open>Strings\<close>

text \<open>
  A Rust \<open>str\<close> is its UTF-8 encoding, one \<open>char\<close> per byte. \<open>utf8_valid\<close> is the check of
  \<open>String::from_utf8\<close>: the well-formed sequences of RFC 3629.
\<close>

definition as_bytes :: "string \<Rightarrow> bytes" where
  "as_bytes s = map of_char s"

definition chars_of :: "bytes \<Rightarrow> string" where
  "chars_of bs = map (\<lambda>b. char_of (unat b)) bs"

definition u8_in :: "nat \<Rightarrow> nat \<Rightarrow> u8 \<Rightarrow> bool" where
  "u8_in lo hi b \<longleftrightarrow> lo \<le> unat b \<and> unat b \<le> hi"

fun utf8_valid :: "bytes \<Rightarrow> bool" where
  "utf8_valid [] = True"
| "utf8_valid (a # bs) =
     (if u8_in 0 127 a then utf8_valid bs
      else case bs of
        [] \<Rightarrow> False
      | b # cs \<Rightarrow>
          if u8_in 194 223 a then u8_in 128 191 b \<and> utf8_valid cs
          else case cs of
            [] \<Rightarrow> False
          | c # ds \<Rightarrow>
              if u8_in 224 224 a then u8_in 160 191 b \<and> u8_in 128 191 c \<and> utf8_valid ds
              else if u8_in 237 237 a then u8_in 128 159 b \<and> u8_in 128 191 c \<and> utf8_valid ds
              else if u8_in 225 239 a then u8_in 128 191 b \<and> u8_in 128 191 c \<and> utf8_valid ds
              else case ds of
                [] \<Rightarrow> False
              | d # es \<Rightarrow>
                  if u8_in 240 240 a
                  then u8_in 144 191 b \<and> u8_in 128 191 c \<and> u8_in 128 191 d \<and> utf8_valid es
                  else if u8_in 241 243 a
                  then u8_in 128 191 b \<and> u8_in 128 191 c \<and> u8_in 128 191 d \<and> utf8_valid es
                  else if u8_in 244 244 a
                  then u8_in 128 143 b \<and> u8_in 128 191 c \<and> u8_in 128 191 d \<and> utf8_valid es
                  else False)"

definition is_str :: "string \<Rightarrow> bool" where
  "is_str s \<longleftrightarrow> utf8_valid (as_bytes s)"

definition from_utf8 :: "bytes \<Rightarrow> string option" where
  "from_utf8 bs = (if utf8_valid bs then Some (chars_of bs) else None)"

lemma unat_of_char [simp]: "unat (of_char c :: u8) = of_char c"
proof -
  have "unat (of_nat (of_char c) :: u8) = of_char c" by (simp add: unat_of_nat)
  then show ?thesis by (simp only: of_nat_of_char)
qed

lemma of_char_char_of_u8 [simp]: "(of_char (char_of (unat b)) :: u8) = b"
proof -
  have "(of_char (char_of (unat b)) :: nat) = unat b" using unat_u8_less[of b] by simp
  then have "unat (of_char (char_of (unat b)) :: u8) = unat b" by simp
  then show ?thesis by (simp only: word_unat_eq_iff)
qed

lemma chars_of_as_bytes [simp]: "chars_of (as_bytes s) = s"
  by (induction s) (simp_all add: chars_of_def as_bytes_def)

lemma as_bytes_chars_of [simp]: "as_bytes (chars_of bs) = bs"
  by (induction bs) (simp_all add: chars_of_def as_bytes_def)

lemma length_as_bytes [simp]: "length (as_bytes s) = length s"
  by (simp add: as_bytes_def)

lemma as_bytes_inj [simp]: "as_bytes s = as_bytes t \<longleftrightarrow> s = t"
  by (metis chars_of_as_bytes)

lemma from_utf8_as_bytes [simp]: "is_str s \<Longrightarrow> from_utf8 (as_bytes s) = Some s"
  by (simp add: from_utf8_def is_str_def)

lemma from_utf8_Some: "from_utf8 bs = Some s \<Longrightarrow> bs = as_bytes s \<and> is_str s"
  by (auto simp: from_utf8_def is_str_def split: if_splits)

text \<open>Decimal text of an unsigned integer, as \<open>to_string\<close> and \<open>format!\<close> print it.\<close>

fun show_nat :: "nat \<Rightarrow> string" where
  "show_nat n = (if n < 10 then [char_of (48 + n)] else show_nat (n div 10) @ [char_of (48 + n mod 10)])"

declare show_nat.simps [simp del]

end
