(* ===== verification/Fields_Value.thy ===== *)
theory Fields_Value
  imports Clove_Prelude
begin

text \<open>
  The data of typed fields (\<^verbatim>\<open>src/fields/mod.rs\<close>, \<^verbatim>\<open>src/fields/ast.rs\<close>): exact JSON values, paths,
  predicate trees, and the builders that a typed field offers. A \<open>BTreeMap\<close> is the list of its
  entries in key order; \<open>value_ok\<close> is what the Rust types guarantee of every value.
\<close>

section \<open>Values\<close>

datatype "value" =
    Missing
  | Null
  | Bool bool
  | Number string
  | Time int
  | String string
  | Array "value list"
  | Object "(string \<times> value) list"

text \<open>\<open>serde_json::Value\<close>; a number is kept as the text it prints.\<close>

datatype json = JNull | JBool bool | JNumber string | JString string
  | JArray "json list" | JObject "(string \<times> json) list"

fun from_json :: "json \<Rightarrow> value" where
  "from_json JNull = Null"
| "from_json (JBool v) = Bool v"
| "from_json (JNumber v) = Number v"
| "from_json (JString v) = String v"
| "from_json (JArray v) = Array (map from_json v)"
| "from_json (JObject v) = Object (map (\<lambda>(k, w). (k, from_json w)) v)"

definition is_null :: "value \<Rightarrow> bool" where "is_null v \<longleftrightarrow> v = Null"
definition is_missing :: "value \<Rightarrow> bool" where "is_missing v \<longleftrightarrow> v = Missing"
definition is_empty :: "value \<Rightarrow> bool" where "is_empty v \<longleftrightarrow> is_missing v \<or> is_null v"
definition exists_value :: "value \<Rightarrow> bool" where "exists_value v \<longleftrightarrow> \<not> is_missing v"

lemmas value_tests = is_null_def is_missing_def is_empty_def exists_value_def

lemma is_empty_simps [simp]:
  "is_empty Missing" "is_empty Null" "\<not> is_empty (Bool b)" "\<not> is_empty (Number t)"
  "\<not> is_empty (Time n)" "\<not> is_empty (String s)" "\<not> is_empty (Array vs)" "\<not> is_empty (Object os)"
  by (simp_all add: value_tests)

fun value_ok :: "value \<Rightarrow> bool" where
  "value_ok (Time n) = i128_ok n"
| "value_ok (Array vs) = list_all value_ok vs"
| "value_ok (Object os) = (sorted_wrt (<) (map fst os) \<and> list_all (\<lambda>(k, v). value_ok v) os)"
| "value_ok v = True"

section \<open>Paths and predicate trees\<close>

datatype value_kind = Auto | DateTime | Date | NaiveDateTime | EpochSeconds | EpochMillis

datatype step = SKey string | SIndex nat | SAny | SAll | SLength

datatype transform_kind = Trim | Lowercase | NormalizeArabic

record transform =
  t_kind :: transform_kind
  t_version :: nat

record path =
  p_steps :: "step list"
  p_kind :: value_kind
  p_transforms :: "transform list"

datatype compare = Eq | Ne | Gt | Ge | Lt | Le | Between | In | Prefix | Contains | Text | Fuzzy nat | Parts

datatype presence = Exists | PNull | PMissing | Empty

datatype expr =
    Compare path compare "value list"
  | Presence path presence
  | And expr expr
  | Or expr expr
  | Not expr
  | ElemMatch path expr
  | Never
  | Invalid string

definition is_quantifier :: "step \<Rightarrow> bool" where
  "is_quantifier s \<longleftrightarrow> s = SAny \<or> s = SAll"

section \<open>Typed fields\<close>

text \<open>The type parameters of \<open>Field<E, V>\<close> are phantom; the record keeps what is stored.\<close>

record field =
  f_first :: "string option"
  f_steps :: "step list"
  f_kind :: value_kind
  f_transforms :: "transform list"

definition field_new :: "string \<Rightarrow> value_kind \<Rightarrow> field" where
  "field_new first kind = \<lparr>f_first = Some first, f_steps = [], f_kind = kind, f_transforms = []\<rparr>"

definition field_flattened :: "value_kind \<Rightarrow> field" where
  "field_flattened kind = \<lparr>f_first = None, f_steps = [], f_kind = kind, f_transforms = []\<rparr>"

definition steps :: "field \<Rightarrow> step list" where
  "steps f = (case f_first f of None \<Rightarrow> [] | Some k \<Rightarrow> [SKey k]) @ f_steps f"

fun step_name :: "step \<Rightarrow> string option" where
  "step_name (SKey k) = Some k"
| "step_name (SIndex i) = Some (show_nat i)"
| "step_name _ = None"

definition json_path :: "field \<Rightarrow> string list" where
  "json_path f = List.map_filter step_name (steps f)"

definition field_then :: "field \<Rightarrow> field \<Rightarrow> field" where
  "field_then f child =
     \<lparr>f_first = None, f_steps = steps f @ steps child, f_kind = f_kind child,
      f_transforms = f_transforms child\<rparr>"

definition field_path :: "field \<Rightarrow> path" where
  "field_path f = \<lparr>p_steps = steps f, p_kind = f_kind f, p_transforms = f_transforms f\<rparr>"

definition navigate :: "field \<Rightarrow> step \<Rightarrow> field" where
  "navigate f step =
     \<lparr>f_first = None, f_steps = steps f @ [step],
      f_kind = (if step = SLength then Auto else f_kind f), f_transforms = []\<rparr>"

definition field_any :: "field \<Rightarrow> field" where "field_any f = navigate f SAny"
definition field_all :: "field \<Rightarrow> field" where "field_all f = navigate f SAll"
definition field_at :: "field \<Rightarrow> nat \<Rightarrow> field" where "field_at f i = navigate f (SIndex i)"
definition field_len :: "field \<Rightarrow> field" where "field_len f = navigate f SLength"
definition field_key :: "field \<Rightarrow> string \<Rightarrow> field" where "field_key f k = navigate f (SKey k)"

definition add_transform :: "field \<Rightarrow> transform_kind \<Rightarrow> field" where
  "add_transform f kind = f\<lparr>f_transforms := f_transforms f @ [\<lparr>t_kind = kind, t_version = 1\<rparr>]\<rparr>"

definition field_trim :: "field \<Rightarrow> field" where "field_trim f = add_transform f Trim"
definition field_lowercase :: "field \<Rightarrow> field" where "field_lowercase f = add_transform f Lowercase"
definition field_normalize_arabic :: "field \<Rightarrow> field" where
  "field_normalize_arabic f = add_transform f NormalizeArabic"

section \<open>Predicates\<close>

record predicate =
  expression :: expr
  printed :: "string list"

definition predicate_new :: "expr \<Rightarrow> predicate" where
  "predicate_new e = \<lparr>expression = e, printed = []\<rparr>"

definition with_printed :: "expr \<Rightarrow> string list \<Rightarrow> predicate" where
  "with_printed e ps = \<lparr>expression = e, printed = ps\<rparr>"

definition pred_and :: "predicate \<Rightarrow> predicate \<Rightarrow> predicate" where
  "pred_and p q = \<lparr>expression = And (expression p) (expression q), printed = printed p @ printed q\<rparr>"

definition pred_or :: "predicate \<Rightarrow> predicate \<Rightarrow> predicate" where
  "pred_or p q = \<lparr>expression = Or (expression p) (expression q), printed = printed p @ printed q\<rparr>"

definition pred_not :: "predicate \<Rightarrow> predicate" where
  "pred_not p = \<lparr>expression = Not (expression p), printed = printed p\<rparr>"

definition elem_match :: "field \<Rightarrow> predicate \<Rightarrow> predicate" where
  "elem_match f p = predicate_new (ElemMatch (field_path f) (expression p))"

definition field_presence :: "field \<Rightarrow> presence \<Rightarrow> predicate" where
  "field_presence f p = predicate_new (Presence (field_path f) p)"

text \<open>
  \<open>Field::compare\<close>. Each operand is the result of \<open>FieldInput::field_value\<close>; \<open>err_text\<close> is the
  \<open>Display\<close> text of an error.
\<close>

definition field_compare ::
    "(cl_error \<Rightarrow> string) \<Rightarrow> field \<Rightarrow> compare \<Rightarrow> value res list \<Rightarrow> predicate" where
  "field_compare err_text f cop inputs = predicate_new (case mapM id inputs of
      Inl e \<Rightarrow> Invalid (err_text e)
    | Inr values \<Rightarrow>
        let values = (if cop = In then filter (\<lambda>v. \<not> is_empty v) values else values) in
        if values = [] \<or> list_ex is_empty values then Never
        else Compare (field_path f) cop values)"

text \<open>\<open>Field::fuzzy\<close>; \<open>tokens\<close> is the tokenizer of \<^verbatim>\<open>src/query/eval.rs\<close>.\<close>

definition field_fuzzy ::
    "(cl_error \<Rightarrow> string) \<Rightarrow> (string \<Rightarrow> string list) \<Rightarrow> field \<Rightarrow> string \<Rightarrow> nat \<Rightarrow> predicate" where
  "field_fuzzy err_text tokens f term max_distance =
     (if max_distance > 2 \<or> length (tokens term) \<noteq> 1
      then predicate_new (Invalid ''fuzzy requires one token and distance <= 2'')
      else field_compare err_text f (Fuzzy max_distance) [Inr (String (hd (tokens term)))])"

text \<open>
  What a built predicate promises its evaluation: a comparison has an operand, no operand is
  missing or null, and a fuzzy distance is at most 2.
\<close>

fun expr_ok :: "expr \<Rightarrow> bool" where
  "expr_ok (Compare p cop vs) =
     (vs \<noteq> [] \<and> list_all (\<lambda>v. \<not> is_empty v) vs \<and> (case cop of Fuzzy d \<Rightarrow> d \<le> 2 | _ \<Rightarrow> True))"
| "expr_ok (And a b) = (expr_ok a \<and> expr_ok b)"
| "expr_ok (Or a b) = (expr_ok a \<and> expr_ok b)"
| "expr_ok (Not a) = expr_ok a"
| "expr_ok (ElemMatch p a) = expr_ok a"
| "expr_ok _ = True"

lemma steps_field_then [simp]: "steps (field_then f g) = steps f @ steps g"
  by (simp add: field_then_def steps_def)

lemma field_then_assoc: "field_then (field_then f g) h = field_then f (field_then g h)"
  by (simp add: field_then_def steps_def)

lemma field_compare_ok:
  assumes "case cop of Fuzzy d \<Rightarrow> d \<le> 2 | _ \<Rightarrow> True"
  shows "expr_ok (expression (field_compare err_text f cop inputs)) \<and>
    printed (field_compare err_text f cop inputs) = []"
proof (cases "mapM id inputs")
  case (Inl e)
  then show ?thesis by (simp add: field_compare_def predicate_new_def)
next
  case (Inr vs)
  define ws where "ws = (if cop = In then filter (\<lambda>v. \<not> is_empty v) vs else vs)"
  have "field_compare err_text f cop inputs =
      predicate_new (if ws = [] \<or> list_ex is_empty ws then Never else Compare (field_path f) cop ws)"
    by (simp add: field_compare_def Inr ws_def[symmetric])
  then show ?thesis using assms by (simp add: predicate_new_def list_ex_iff list_all_iff)
qed

lemma field_fuzzy_ok: "expr_ok (expression (field_fuzzy err_text tk f term d))"
  using field_compare_ok[of "Fuzzy d"] by (auto simp: field_fuzzy_def predicate_new_def)

end
