(* ===== verification/Ordered_Code.thy ===== *)
theory Ordered_Code
  imports Clove_Prelude
begin

text \<open>
  Rust's \<open>Ordering\<close>, the comparison of slices, and the interface of an order-preserving,
  self-delimiting byte code: comparing two codes, whatever follows them, compares the values
  first and what follows them only when the values are equal. The index keys and the sort
  keys of \<^verbatim>\<open>src/fields/codec.rs\<close> rest on this contract.
\<close>

unbundle bit_operations_syntax

datatype ordering = Less | Equal | Greater

fun then_with :: "ordering \<Rightarrow> ordering \<Rightarrow> ordering" where
  "then_with Equal o2 = o2"
| "then_with Less o2 = Less"
| "then_with Greater o2 = Greater"

fun reverse_ord :: "ordering \<Rightarrow> ordering" where
  "reverse_ord Less = Greater"
| "reverse_ord Equal = Equal"
| "reverse_ord Greater = Less"

lemma then_with_Equal [simp]: "then_with c Equal = c"
  by (cases c) auto

lemma then_with_assoc: "then_with (then_with a b) c = then_with a (then_with b c)"
  by (cases a) auto

lemma then_with_eq_Equal [simp]: "then_with a b = Equal \<longleftrightarrow> a = Equal \<and> b = Equal"
  by (cases a) auto

lemma reverse_ord_then [simp]:
  "reverse_ord (then_with a b) = then_with (reverse_ord a) (reverse_ord b)"
  by (cases a) auto

lemma reverse_ord_simps [simp]:
  "reverse_ord (reverse_ord c) = c" "reverse_ord c = Equal \<longleftrightarrow> c = Equal"
  "reverse_ord c = Less \<longleftrightarrow> c = Greater" "reverse_ord c = Greater \<longleftrightarrow> c = Less"
  by (cases c, auto)+

definition ord_cmp :: "'a::linorder \<Rightarrow> 'a \<Rightarrow> ordering" where
  "ord_cmp x y = (if x < y then Less else if y < x then Greater else Equal)"

lemma ord_cmp_iff [simp]:
  "ord_cmp x y = Less \<longleftrightarrow> x < y" "ord_cmp x y = Greater \<longleftrightarrow> y < x" "ord_cmp x y = Equal \<longleftrightarrow> x = y"
  by (auto simp: ord_cmp_def)

lemma ord_cmp_refl [simp]: "ord_cmp x x = Equal"
  by simp

lemma ord_cmp_eqI:
  "(x < y \<longleftrightarrow> x' < y') \<Longrightarrow> (y < x \<longleftrightarrow> y' < x') \<Longrightarrow> ord_cmp x y = ord_cmp x' y'"
  by (auto simp: ord_cmp_def)

text \<open>\<open>Ord for [T]\<close>: element by element, then by length.\<close>

fun bcmp :: "'a::linorder list \<Rightarrow> 'a list \<Rightarrow> ordering" where
  "bcmp [] [] = Equal"
| "bcmp [] (y # ys) = Less"
| "bcmp (x # xs) [] = Greater"
| "bcmp (x # xs) (y # ys) = then_with (ord_cmp x y) (bcmp xs ys)"

lemma bcmp_eq_ord_cmp: "bcmp xs ys = ord_cmp xs ys"
proof (induction xs ys rule: bcmp.induct)
  case (4 x xs y ys)
  then show ?case by (cases x y rule: linorder_cases) (auto simp: ord_cmp_def)
qed (auto simp: ord_cmp_def)

lemma bcmp_iff [simp]:
  "bcmp xs ys = Less \<longleftrightarrow> xs < ys" "bcmp xs ys = Greater \<longleftrightarrow> ys < xs" "bcmp xs ys = Equal \<longleftrightarrow> xs = ys"
  by (simp_all add: bcmp_eq_ord_cmp)

lemma bcmp_refl [simp]: "bcmp xs xs = Equal"
  by simp

lemma bcmp_append_prefix [simp]: "bcmp (p @ xs) (p @ ys) = bcmp xs ys"
  by (induction p) (simp_all del: bcmp_iff add: ord_cmp_def)

lemma bcmp_longer [simp]: "bcmp (xs @ y # ys) xs = Greater" "bcmp xs (xs @ y # ys) = Less"
  using bcmp_append_prefix[of xs "y # ys" "[]"] bcmp_append_prefix[of xs "[]" "y # ys"]
  by (simp_all del: bcmp_iff bcmp_append_prefix)

lemma bcmp_append_same_length:
  "length xs = length ys \<Longrightarrow> bcmp (xs @ s) (ys @ t) = then_with (bcmp xs ys) (bcmp s t)"
  by (induction xs ys rule: list_induct2) (simp_all add: then_with_assoc)

lemma bcmp_swap: "bcmp ys xs = reverse_ord (bcmp xs ys)"
  by (auto simp: bcmp_eq_ord_cmp ord_cmp_def)

lemma unat_NOT_u8 [width_simps]: "unat (NOT (x :: u8)) = 255 - unat x"
proof -
  have "NOT x = - 1 - x" by (simp add: not_eq_complement)
  moreover have "unat (- 1 - x) = unat (- 1 :: u8) - unat x" by (rule unat_sub) simp
  moreover have "unat (- 1 :: u8) = 255" by code_simp
  ultimately show ?thesis by simp
qed

lemma NOT_less_u8 [simp]: "NOT x < NOT y \<longleftrightarrow> y < x" for x y :: u8
  using unat_u8_less[of x] unat_u8_less[of y] by (auto simp: word_less_nat_alt unat_NOT_u8)

lemma ord_cmp_NOT: "ord_cmp (NOT x) (NOT y) = ord_cmp y x" for x y :: u8
  by (simp add: ord_cmp_def)

text \<open>
  Two byte strings whose comparison never depends on what follows them are equal or differ at
  a position inside both.
\<close>

lemma bcmp_law_split:
  fixes a b :: bytes
  assumes "\<And>s t. bcmp (a @ s) (b @ t) = then_with c (bcmp s t)"
  shows "a = b \<and> c = Equal \<or>
    (\<exists>p x y u v. a = p @ x # u \<and> b = p @ y # v \<and> x \<noteq> y \<and> c = ord_cmp x y)"
  using assms
proof (induction a b rule: bcmp.induct)
  case 1
  from "1"[of "[]" "[]"] show ?case by simp
next
  case (2 y ys)
  from "2"[of "[]" "[]"] have "c = Less" by simp
  moreover from "2"[of "y # ys @ [0]" "[]"] have "c \<noteq> Less"
    by (cases c) (simp_all del: bcmp_iff)
  ultimately show ?case by simp
next
  case (3 x xs)
  from "3"[of "[]" "[]"] have "c = Greater" by simp
  moreover from "3"[of "[]" "x # xs @ [0]"] have "c \<noteq> Greater"
    by (cases c) (simp_all del: bcmp_iff)
  ultimately show ?case by simp
next
  case (4 x xs y ys)
  show ?case
  proof (cases "x = y")
    case True
    have "xs = ys \<and> c = Equal \<or>
      (\<exists>p x' y' u v. xs = p @ x' # u \<and> ys = p @ y' # v \<and> x' \<noteq> y' \<and> c = ord_cmp x' y')"
      using "4.IH" "4.prems" True by simp
    then show ?thesis using True by (metis append_Cons)
  next
    case False
    from "4.prems"[of "[]" "[]"] have "c = ord_cmp x y"
      using False by (auto simp: ord_cmp_def)
    then show ?thesis using False by (metis append_Nil)
  qed
qed

lemma bcmp_to_be:
  "m < 256 ^ k \<Longrightarrow> n < 256 ^ k \<Longrightarrow> bcmp (to_be k m) (to_be k n) = ord_cmp m n"
proof (induction k arbitrary: m n)
  case (Suc k)
  have div: "m div 256 < 256 ^ k" "n div 256 < 256 ^ k"
    using Suc.prems by (simp_all add: less_mult_imp_div_less mult.commute)
  have last: "ord_cmp (of_nat m :: u8) (of_nat n) = ord_cmp (m mod 256) (n mod 256)"
    by (rule ord_cmp_eqI) (simp_all only: word_less_nat_alt unat_of_nat_u8)
  have split: "then_with (ord_cmp (m div 256) (n div 256)) (ord_cmp (m mod 256) (n mod 256)) = ord_cmp m n"
  proof (cases "m div 256" "n div 256" rule: linorder_cases)
    case less
    then have "m < n" by (metis div_le_mono leD leI)
    with less show ?thesis by (simp add: ord_cmp_def)
  next
    case equal
    then have "m < n \<longleftrightarrow> m mod 256 < n mod 256" "n < m \<longleftrightarrow> n mod 256 < m mod 256"
      by (metis add_less_cancel_left mult_div_mod_eq)+
    with equal show ?thesis by (simp add: ord_cmp_def)
  next
    case greater
    then have "n < m" by (metis div_le_mono leD leI)
    with greater show ?thesis by (simp add: ord_cmp_def)
  qed
  show ?case
    using Suc.IH[OF div] by (simp add: bcmp_append_same_length last split)
qed simp

text \<open>Element by element with any comparison, then by length.\<close>

fun list_cmp :: "('a \<Rightarrow> 'a \<Rightarrow> ordering) \<Rightarrow> 'a list \<Rightarrow> 'a list \<Rightarrow> ordering" where
  "list_cmp c [] [] = Equal"
| "list_cmp c [] (y # ys) = Less"
| "list_cmp c (x # xs) [] = Greater"
| "list_cmp c (x # xs) (y # ys) = then_with (c x y) (list_cmp c xs ys)"

lemma list_cmp_cong [fundef_cong]:
  "xs = xs' \<Longrightarrow> ys = ys' \<Longrightarrow> (\<And>x y. x \<in> set xs' \<Longrightarrow> y \<in> set ys' \<Longrightarrow> c x y = d x y) \<Longrightarrow>
    list_cmp c xs ys = list_cmp d xs' ys'"
proof (induction c xs ys arbitrary: xs' ys' rule: list_cmp.induct)
  case (4 c x xs y ys)
  then show ?case by (cases "c x y") auto
qed auto

text \<open>
  Codes of elements, one after the other, closed by a zero byte: when no code starts with zero,
  such lists compare element by element.
\<close>

lemma bcmp_terminated_list:
  fixes as bs :: "bytes list"
  assumes "list_all2 R vs as" "list_all2 R ws bs"
    and law: "\<And>v w a b s t. v \<in> set vs \<Longrightarrow> w \<in> set ws \<Longrightarrow> R v a \<Longrightarrow> R w b \<Longrightarrow>
      bcmp (a @ s) (b @ t) = then_with (c v w) (bcmp s t)"
    and head: "\<And>v a. R v a \<Longrightarrow> \<exists>h r. a = h # r \<and> 0 < h"
  shows "bcmp (concat as @ 0 # s) (concat bs @ 0 # t) = then_with (list_cmp c vs ws) (bcmp s t)"
  using assms(1,2) law
proof (induction c vs ws arbitrary: as bs rule: list_cmp.induct)
  case (1 c)
  then show ?case by simp
next
  case (2 c y ys)
  then obtain b bs' where "bs = b # bs'" "R y b" by (auto simp: list_all2_Cons1)
  moreover obtain h r where "b = h # r" "0 < h" using head[OF \<open>R y b\<close>] by blast
  ultimately show ?case using 2(1) by (simp add: ord_cmp_def)
next
  case (3 c x xs)
  then obtain a as' where "as = a # as'" "R x a" by (auto simp: list_all2_Cons1)
  moreover obtain h r where "a = h # r" "0 < h" using head[OF \<open>R x a\<close>] by blast
  ultimately show ?case using 3(2) by (simp add: ord_cmp_def)
next
  case (4 c x xs y ys)
  then obtain a as' b bs' where ab: "as = a # as'" "bs = b # bs'" "R x a" "R y b"
    "list_all2 R xs as'" "list_all2 R ys bs'" by (auto simp: list_all2_Cons1)
  have "bcmp (concat as' @ 0 # s) (concat bs' @ 0 # t) = then_with (list_cmp c xs ys) (bcmp s t)"
    by (rule "4.IH"[OF ab(5,6)]) (simp add: "4.prems"(3))
  moreover have "bcmp (a @ concat as' @ 0 # s) (b @ concat bs' @ 0 # t) =
      then_with (c x y) (bcmp (concat as' @ 0 # s) (concat bs' @ 0 # t))"
    using "4.prems"(3)[of x y a b] ab by simp
  ultimately show ?case using ab by (simp add: then_with_assoc)
qed

section \<open>Self-delimiting ordered codes\<close>

locale ordered_code =
  fixes ok :: "'a \<Rightarrow> bool"
    and enc :: "'a \<Rightarrow> bytes"
    and cmp :: "'a \<Rightarrow> 'a \<Rightarrow> ordering"
  assumes code_law:
    "ok x \<Longrightarrow> ok y \<Longrightarrow> bcmp (enc x @ s) (enc y @ t) = then_with (cmp x y) (bcmp s t)"
begin

lemma code_cmp: "ok x \<Longrightarrow> ok y \<Longrightarrow> bcmp (enc x) (enc y) = cmp x y"
  using code_law[of x y "[]" "[]"] by simp

lemma code_less_iff: "ok x \<Longrightarrow> ok y \<Longrightarrow> enc x < enc y \<longleftrightarrow> cmp x y = Less"
  by (simp flip: code_cmp)

lemma code_eq_iff: "ok x \<Longrightarrow> ok y \<Longrightarrow> enc x = enc y \<longleftrightarrow> cmp x y = Equal"
  by (simp flip: code_cmp)

lemma code_delimits:
  assumes "ok x" "ok y" "enc x @ s = enc y @ t"
  shows "enc x = enc y \<and> s = t"
proof -
  have "then_with (cmp x y) (bcmp s t) = Equal"
    using code_law[OF assms(1,2), of s t] assms(3) by simp
  then show ?thesis using code_eq_iff[OF assms(1,2)] by simp
qed

lemma cmp_refl: "ok x \<Longrightarrow> cmp x x = Equal"
  by (simp flip: code_cmp)

lemma cmp_swap: "ok x \<Longrightarrow> ok y \<Longrightarrow> cmp y x = reverse_ord (cmp x y)"
  by (simp flip: code_cmp add: bcmp_swap[of "enc y"])

lemma cmp_trans:
  assumes "ok x" "ok y" "ok z" "cmp x y = Less" "cmp y z = Less"
  shows "cmp x z = Less"
  using assms less_trans[of "enc x" "enc y" "enc z"] by (simp flip: code_cmp)

lemma code_split:
  assumes "ok x" "ok y"
  shows "enc x = enc y \<and> cmp x y = Equal \<or>
    (\<exists>p a b u v. enc x = p @ a # u \<and> enc y = p @ b # v \<and> a \<noteq> b \<and> cmp x y = ord_cmp a b)"
  using bcmp_law_split code_law[OF assms] by blast

text \<open>Complementing every byte of the code turns the order around.\<close>

lemma complement_law:
  assumes "ok x" "ok y"
  shows "bcmp (map NOT (enc x) @ s) (map NOT (enc y) @ t) =
    then_with (reverse_ord (cmp x y)) (bcmp s t)"
proof -
  consider "enc x = enc y" "cmp x y = Equal"
    | p a b u v where "enc x = p @ a # u" "enc y = p @ b # v" "a \<noteq> b" "cmp x y = ord_cmp a b"
    using code_split[OF assms] by blast
  then show ?thesis
  proof cases
    case 2
    then show ?thesis by (cases a b rule: linorder_cases) (auto simp: ord_cmp_def)
  qed simp
qed

end

end
