(* ===== verification/Fields_Decimal.thy ===== *)
theory Fields_Decimal
  imports Ordered_Code
begin

text \<open>
  Exact decimals (\<open>Decimal\<close> in \<^verbatim>\<open>src/fields/codec.rs\<close>): a JSON number token is split, scaled and
  trimmed without passing through floating point. \<open>rv\<close> stands for \<open>RawValue::from_string\<close> of
  \<open>serde_json\<close>: the text of the value it accepted, or nothing.

  The specification is the rational number a token denotes; the lemmas show that parsing keeps
  it, that the parsed form is unique, and that the canonical spelling is one for all equal values.
\<close>

section \<open>Digits and their value\<close>

definition is_digit :: "char \<Rightarrow> bool" where
  "is_digit c \<longleftrightarrow> 48 \<le> (of_char c :: nat) \<and> (of_char c :: nat) \<le> 57"

definition digit_val :: "char \<Rightarrow> nat" where
  "digit_val c = of_char c - 48"

definition all_digits :: "string \<Rightarrow> bool" where
  "all_digits s \<longleftrightarrow> list_all is_digit s"

definition nat_of_digits :: "string \<Rightarrow> nat" where
  "nat_of_digits s = foldl (\<lambda>a c. a * 10 + digit_val c) 0 s"

text \<open>\<open>str::parse::<i128>\<close>: an optional sign and at least one digit, in range.\<close>

definition parse_i128 :: "string \<Rightarrow> int option" where
  "parse_i128 s =
     (let neg = (s \<noteq> [] \<and> hd s = CHR ''-'');
          ds = (if s \<noteq> [] \<and> (hd s = CHR ''-'' \<or> hd s = CHR ''+'') then tl s else s)
      in if ds = [] \<or> \<not> all_digits ds then None
         else checked_i128 (if neg then - int (nat_of_digits ds) else int (nat_of_digits ds)))"

definition show_int :: "int \<Rightarrow> string" where
  "show_int v = (if v < 0 then CHR ''-'' # show_nat (nat (- v)) else show_nat (nat v))"

text \<open>\<open>split_once\<close>, \<open>trim_start_matches\<close> and \<open>trim_matches\<close> of \<open>str\<close>.\<close>

definition split_once :: "(char \<Rightarrow> bool) \<Rightarrow> string \<Rightarrow> (string \<times> string) option" where
  "split_once p s = (case dropWhile (\<lambda>c. \<not> p c) s of
     [] \<Rightarrow> None | _ # rest \<Rightarrow> Some (takeWhile (\<lambda>c. \<not> p c) s, rest))"

definition trim_start0 :: "string \<Rightarrow> string" where
  "trim_start0 s = dropWhile (\<lambda>c. c = CHR ''0'') s"

definition trim_end0 :: "string \<Rightarrow> string" where
  "trim_end0 s = rev (dropWhile (\<lambda>c. c = CHR ''0'') (rev s))"

definition trim_matches0 :: "string \<Rightarrow> string" where
  "trim_matches0 s = trim_end0 (trim_start0 s)"

section \<open>Decimal::parse, canonical, integer\<close>

record decimal =
  negative :: bool
  digits :: string
  exponent :: int

definition decimal_error :: "string \<Rightarrow> cl_error" where
  "decimal_error m = Validation m"

definition parse :: "(string \<Rightarrow> string option) \<Rightarrow> string \<Rightarrow> decimal res" where
  "parse rv token =
     rbind (ok_or Serialization (rv token)) (\<lambda>raw.
     rbind (guard_ok (raw \<noteq> [] \<and> (hd raw = CHR ''-'' \<or> is_digit (hd raw)))
              (decimal_error ''expected a finite JSON number'')) (\<lambda>_.
     let neg = (hd raw = CHR ''-'');
         tok = (if neg then tl raw else raw);
         (mantissa, ex) = (case split_once (\<lambda>c. c = CHR ''e'' \<or> c = CHR ''E'') tok of
            Some me \<Rightarrow> me | None \<Rightarrow> (tok, ''0''))
     in rbind (ok_or (decimal_error ''numeric exponent exceeds i128'') (parse_i128 ex)) (\<lambda>ex.
        let (integer, fraction) = (case split_once (\<lambda>c. c = CHR ''.'') mantissa of
               Some p \<Rightarrow> p | None \<Rightarrow> (mantissa, ''''));
            ds = integer @ fraction;
            leading = length ds - length (trim_start0 ds)
        in rbind (ok_or (decimal_error ''numeric exponent exceeds i128'')
             (Option.bind (checked_i128 (ex + int (length integer)))
                (\<lambda>v. checked_i128 (v - int leading)))) (\<lambda>expo.
           let ds = trim_matches0 ds
           in if ds = [] then Inr \<lparr>negative = False, digits = ds, exponent = 0\<rparr>
              else Inr \<lparr>negative = neg, digits = ds, exponent = expo\<rparr>))))"

definition canonical :: "decimal \<Rightarrow> string res" where
  "canonical d =
     (if digits d = [] then Inr ''0''
      else rbind (ok_or (decimal_error ''numeric exponent exceeds i128'')
             (checked_i128 (exponent d - int (length (digits d))))) (\<lambda>power.
        Inr ((if negative d then ''-'' else '''') @ digits d @ ''e'' @ show_int power)))"

definition canonical_number :: "(string \<Rightarrow> string option) \<Rightarrow> string \<Rightarrow> string res" where
  "canonical_number rv token = rbind (parse rv token) canonical"

text \<open>\<open>codec::integer\<close>; the text it parses again is the digits followed by \<open>power\<close> zeros.\<close>

definition codec_integer :: "(string \<Rightarrow> string option) \<Rightarrow> string \<Rightarrow> int res" where
  "codec_integer rv token =
     rbind (parse rv token) (\<lambda>d.
     if digits d = [] then Inr 0 else
     rbind (ok_or SumOverflow (checked_i128 (exponent d - int (length (digits d))))) (\<lambda>power.
     if power < 0 then Inl UnsupportedSum
     else if power > 38 then Inl SumOverflow
     else ok_or SumOverflow
            (parse_i128 ((if negative d then ''-'' else '''') @ digits d @ replicate (nat power) CHR ''0''))))"

text \<open>\<open>Decimal::integer_scaled\<close>: the value times \<open>10 ^ scale\<close> as an \<open>i128\<close>, for epoch timestamps.\<close>

definition integer_scaled :: "decimal \<Rightarrow> int \<Rightarrow> int res" where
  "integer_scaled d scale =
     (if digits d = [] then Inr 0 else
      rbind (ok_or (decimal_error ''timestamp outside supported range'')
        (Option.bind (checked_i128 (exponent d - int (length (digits d))))
           (\<lambda>v. checked_i128 (v + scale)))) (\<lambda>power.
      if power < 0 then Inl (decimal_error ''timestamp precision exceeds nanoseconds'')
      else rbind (guard_ok (power < 2 ^ 32) (decimal_error ''timestamp outside supported range'')) (\<lambda>_.
      rbind (ok_or (decimal_error ''timestamp outside supported range'') (parse_i128 (digits d))) (\<lambda>v.
      rbind (ok_or (decimal_error ''timestamp outside supported range'') (checked_i128 (10 ^ nat power))) (\<lambda>p.
      rbind (ok_or (decimal_error ''timestamp outside supported range'') (checked_i128 (v * p))) (\<lambda>v.
      Inr (if negative d then - v else v)))))))"

section \<open>The value of a token\<close>

fun dfrac :: "string \<Rightarrow> rat" where
  "dfrac [] = 0"
| "dfrac (c # cs) = (of_nat (digit_val c) + dfrac cs) / 10"

definition dec_val :: "decimal \<Rightarrow> rat" where
  "dec_val d = (if negative d then - 1 else 1) * dfrac (digits d) * 10 powi (exponent d)"

definition dec_norm :: "decimal \<Rightarrow> bool" where
  "dec_norm d \<longleftrightarrow> all_digits (digits d) \<and> i128_ok (exponent d) \<and>
     (if digits d = [] then \<not> negative d \<and> exponent d = 0
      else hd (digits d) \<noteq> CHR ''0'' \<and> last (digits d) \<noteq> CHR ''0'')"

text \<open>
  A JSON number: sign, integer digits, optional fraction, optional exponent. The text of RFC 8259,
  without its rule on leading zeros, which nothing here needs.
\<close>

definition num_text :: "bool \<Rightarrow> string \<Rightarrow> string option \<Rightarrow> (char \<times> string) option \<Rightarrow> string" where
  "num_text neg ip fp ex = (if neg then ''-'' else '''') @ ip @
     (case fp of None \<Rightarrow> '''' | Some f \<Rightarrow> CHR ''.'' # f) @
     (case ex of None \<Rightarrow> '''' | Some (c, t) \<Rightarrow> c # t)"

definition exp_text :: "string \<Rightarrow> bool" where
  "exp_text t \<longleftrightarrow> (let ds = (if t \<noteq> [] \<and> (hd t = CHR ''-'' \<or> hd t = CHR ''+'') then tl t else t)
     in ds \<noteq> [] \<and> all_digits ds)"

definition num_wf :: "string \<Rightarrow> string option \<Rightarrow> (char \<times> string) option \<Rightarrow> bool" where
  "num_wf ip fp ex \<longleftrightarrow> ip \<noteq> [] \<and> all_digits ip \<and>
     (case fp of None \<Rightarrow> True | Some f \<Rightarrow> all_digits f) \<and>
     (case ex of None \<Rightarrow> True | Some (c, t) \<Rightarrow> (c = CHR ''e'' \<or> c = CHR ''E'') \<and> exp_text t)"

definition exp_val :: "(char \<times> string) option \<Rightarrow> int" where
  "exp_val ex = (case ex of None \<Rightarrow> 0 | Some (c, t) \<Rightarrow>
     if t \<noteq> [] \<and> hd t = CHR ''-'' then - int (nat_of_digits (tl t))
     else if t \<noteq> [] \<and> hd t = CHR ''+'' then int (nat_of_digits (tl t))
     else int (nat_of_digits t))"

definition num_val :: "bool \<Rightarrow> string \<Rightarrow> string option \<Rightarrow> (char \<times> string) option \<Rightarrow> rat" where
  "num_val neg ip fp ex =
     (let f = (case fp of None \<Rightarrow> '''' | Some f \<Rightarrow> f)
      in (if neg then - 1 else 1) * of_nat (nat_of_digits (ip @ f)) * 10 powi (exp_val ex - int (length f)))"

text \<open>What the code relies on: an accepted text that starts like a number is a number.\<close>

definition raw_numbers :: "(string \<Rightarrow> string option) \<Rightarrow> bool" where
  "raw_numbers rv \<longleftrightarrow> (\<forall>t r. rv t = Some r \<longrightarrow> r \<noteq> [] \<longrightarrow> hd r = CHR ''-'' \<or> is_digit (hd r) \<longrightarrow>
     (\<exists>neg ip fp ex. r = num_text neg ip fp ex \<and> num_wf ip fp ex))"

section \<open>Values of digit strings\<close>

lemma all_digits_simps [simp]:
  "all_digits []" "all_digits (c # cs) \<longleftrightarrow> is_digit c \<and> all_digits cs"
  "all_digits (xs @ ys) \<longleftrightarrow> all_digits xs \<and> all_digits ys"
  by (simp_all add: all_digits_def)

lemma digit_val_le: "is_digit c \<Longrightarrow> digit_val c \<le> 9"
  by (auto simp: is_digit_def digit_val_def)

lemma digit_val_0: "is_digit c \<Longrightarrow> digit_val c = 0 \<longleftrightarrow> c = CHR ''0''"
proof -
  assume "is_digit c"
  then have "digit_val c = 0 \<longleftrightarrow> (of_char c :: nat) = of_char CHR ''0''"
    by (auto simp: is_digit_def digit_val_def)
  then show ?thesis by (metis char_of_char)
qed

lemma digit_less: "is_digit a \<Longrightarrow> is_digit b \<Longrightarrow> a < b \<longleftrightarrow> digit_val a < digit_val b"
  by (auto simp: is_digit_def digit_val_def less_char_def)

lemma frac_bounds: "all_digits ds \<Longrightarrow> 0 \<le> dfrac ds \<and> dfrac ds < 1"
proof (induction ds)
  case (Cons c cs)
  then have "(of_nat (digit_val c) :: rat) \<le> 9" using digit_val_le[of c] by simp
  with Cons show ?case by auto
qed simp

lemma frac_append_zero [simp]: "dfrac (ds @ [CHR ''0'']) = dfrac ds"
  by (induction ds) (simp_all add: digit_val_def)

lemma frac_trim_end0 [simp]: "dfrac (trim_end0 ds) = dfrac ds"
proof (induction ds rule: rev_induct)
  case (snoc c cs)
  then show ?case by (auto simp: trim_end0_def)
qed (simp add: trim_end0_def)

lemma frac_pos: "all_digits ds \<Longrightarrow> ds \<noteq> [] \<Longrightarrow> last ds \<noteq> CHR ''0'' \<Longrightarrow> 0 < dfrac ds"
proof (induction ds)
  case (Cons c cs)
  show ?case
  proof (cases "cs = []")
    case True
    with Cons.prems digit_val_0[of c] show ?thesis by auto
  next
    case False
    with Cons have "0 < dfrac cs" by auto
    then show ?thesis by (auto intro: add_nonneg_pos)
  qed
qed simp

lemma frac_ge: "all_digits ds \<Longrightarrow> ds \<noteq> [] \<Longrightarrow> hd ds \<noteq> CHR ''0'' \<Longrightarrow> 1 / 10 \<le> dfrac ds"
proof -
  assume a: "all_digits ds" "ds \<noteq> []" "hd ds \<noteq> CHR ''0''"
  then obtain c cs where ds: "ds = c # cs" by (cases ds) auto
  with a have "1 \<le> digit_val c" using digit_val_0[of c] by auto
  then have "(1 :: rat) \<le> of_nat (digit_val c)" by simp
  moreover have "0 \<le> dfrac cs" using a ds frac_bounds[of cs] by simp
  ultimately show ?thesis using ds by simp
qed

text \<open>Without trailing zeros, digit strings compare like the fractions they denote.\<close>

lemma frac_cmp:
  assumes "all_digits a" "all_digits b" "a \<noteq> [] \<Longrightarrow> last a \<noteq> CHR ''0''" "b \<noteq> [] \<Longrightarrow> last b \<noteq> CHR ''0''"
  shows "bcmp a b = ord_cmp (dfrac a) (dfrac b)"
  using assms
proof (induction a b rule: bcmp.induct)
  case (2 y ys)
  then show ?case using frac_pos[of "y # ys"] by (auto simp: ord_cmp_def simp del: dfrac.simps(2))
next
  case (3 x xs)
  then show ?case using frac_pos[of "x # xs"] by (auto simp: ord_cmp_def simp del: dfrac.simps(2))
next
  case (4 x xs y ys)
  have b: "0 \<le> dfrac xs" "dfrac xs < 1" "0 \<le> dfrac ys" "dfrac ys < 1"
    using 4(2,3) frac_bounds[of xs] frac_bounds[of ys] by auto
  have IH: "x = y \<Longrightarrow> bcmp xs ys = ord_cmp (dfrac xs) (dfrac ys)"
    using 4 by (auto split: if_splits)
  have lt: "digit_val x < digit_val y \<Longrightarrow> (of_nat (digit_val x) :: rat) + 1 \<le> of_nat (digit_val y)"
    and gt: "digit_val y < digit_val x \<Longrightarrow> (of_nat (digit_val y) :: rat) + 1 \<le> of_nat (digit_val x)"
    by (metis Suc_leI of_nat_Suc of_nat_le_iff add.commute)+
  show ?case
  proof (cases x y rule: linorder_cases)
    case less
    then have "(of_nat (digit_val x) :: rat) + 1 \<le> of_nat (digit_val y)"
      using lt digit_less[of x y] 4(2,3) by auto
    then have "dfrac (x # xs) < dfrac (y # ys)" using b by simp
    with less show ?thesis by (simp add: ord_cmp_def)
  next
    case equal
    with IH show ?thesis by (simp add: ord_cmp_def)
  next
    case greater
    then have "(of_nat (digit_val y) :: rat) + 1 \<le> of_nat (digit_val x)"
      using gt digit_less[of y x] 4(2,3) by auto
    then have "dfrac (y # ys) < dfrac (x # xs)" using b by simp
    with greater show ?thesis by (simp add: ord_cmp_def)
  qed
qed simp

lemma nat_of_digits_snoc: "nat_of_digits (ds @ [c]) = nat_of_digits ds * 10 + digit_val c"
  by (simp add: nat_of_digits_def)

lemma frac_snoc: "dfrac (ds @ [c]) = dfrac ds + of_nat (digit_val c) / 10 ^ Suc (length ds)"
  by (induction ds) (simp_all add: field_simps)

lemma nat_of_digits_frac: "of_nat (nat_of_digits ds) = dfrac ds * 10 ^ length ds"
proof (induction ds rule: rev_induct)
  case (snoc c cs)
  then show ?case by (simp add: nat_of_digits_snoc frac_snoc field_simps)
qed (simp add: nat_of_digits_def)

lemma trim_start0_split: "\<exists>k. ds = replicate k CHR ''0'' @ trim_start0 ds \<and> length ds - length (trim_start0 ds) = k"
proof -
  have "ds = takeWhile (\<lambda>c. c = CHR ''0'') ds @ trim_start0 ds" by (simp add: trim_start0_def)
  moreover have "takeWhile (\<lambda>c. c = CHR ''0'') ds = replicate (length (takeWhile (\<lambda>c. c = CHR ''0'') ds)) CHR ''0''"
    by (rule replicate_eqI) (auto dest: set_takeWhileD)
  ultimately show ?thesis by (metis add_diff_cancel_right' length_append)
qed

lemma frac_replicate_zero: "dfrac (replicate k CHR ''0'' @ ds) = dfrac ds / 10 ^ k"
  by (induction k) (simp_all add: digit_val_def)

lemma frac_trim_start0:
  "dfrac ds = dfrac (trim_start0 ds) * 10 powi (- int (length ds - length (trim_start0 ds)))"
proof -
  obtain k where k: "ds = replicate k CHR ''0'' @ trim_start0 ds" "length ds - length (trim_start0 ds) = k"
    using trim_start0_split by blast
  have "dfrac ds = dfrac (trim_start0 ds) / 10 ^ k" by (subst k(1)) (simp add: frac_replicate_zero)
  then show ?thesis by (simp add: k(2) power_int_minus divide_inverse)
qed

lemma trim_matches0_digits: "all_digits ds \<Longrightarrow> all_digits (trim_matches0 ds)"
  by (auto simp: trim_matches0_def trim_end0_def trim_start0_def all_digits_def list_all_iff
      dest!: set_dropWhileD)

lemma trim_end0_prefix: "\<exists>k. ds = trim_end0 ds @ replicate k CHR ''0''"
proof -
  obtain k where "rev ds = replicate k CHR ''0'' @ trim_start0 (rev ds)"
    using trim_start0_split[of "rev ds"] by blast
  then have "ds = rev (trim_start0 (rev ds)) @ replicate k CHR ''0''"
    by (metis rev_append rev_replicate rev_rev_ident)
  then show ?thesis by (auto simp: trim_end0_def trim_start0_def)
qed

lemma trim_matches0_ends:
  assumes "trim_matches0 ds \<noteq> []"
  shows "hd (trim_matches0 ds) \<noteq> CHR ''0''" "last (trim_matches0 ds) \<noteq> CHR ''0''"
proof -
  let ?s = "trim_start0 ds"
  have s: "?s \<noteq> []" using assms by (auto simp: trim_matches0_def trim_end0_def)
  have "hd ?s \<noteq> CHR ''0''" using s hd_dropWhile[of "\<lambda>c. c = CHR ''0''" ds] by (simp add: trim_start0_def)
  moreover obtain k where "?s = trim_matches0 ds @ replicate k CHR ''0''"
    using trim_end0_prefix[of ?s] by (auto simp: trim_matches0_def)
  ultimately show "hd (trim_matches0 ds) \<noteq> CHR ''0''" using assms by (metis hd_append2)
  have "dropWhile (\<lambda>c. c = CHR ''0'') (rev ?s) \<noteq> []"
    using assms by (auto simp: trim_matches0_def trim_end0_def)
  then show "last (trim_matches0 ds) \<noteq> CHR ''0''"
    using hd_dropWhile[of "\<lambda>c. c = CHR ''0''" "rev ?s"]
    by (simp add: trim_matches0_def trim_end0_def last_rev)
qed

lemma frac_trim_matches0:
  "dfrac ds = dfrac (trim_matches0 ds) * 10 powi (- int (length ds - length (trim_start0 ds)))"
  using frac_trim_start0[of ds] by (simp add: trim_matches0_def)

section \<open>Parsing keeps the value\<close>

lemma not_digit [simp]:
  "\<not> is_digit CHR ''e''" "\<not> is_digit CHR ''E''" "\<not> is_digit CHR ''.''" "\<not> is_digit CHR ''-''" "\<not> is_digit CHR ''+''"
  by (simp_all add: is_digit_def)

lemma split_once_none: "\<forall>c \<in> set s. \<not> p c \<Longrightarrow> split_once p s = None"
  by (simp add: split_once_def dropWhile_eq_Nil_conv[THEN iffD2])

lemma split_once_at:
  assumes "\<forall>c \<in> set s. \<not> p c" "p c"
  shows "split_once p (s @ c # t) = Some (s, t)"
  using assms by (auto simp: split_once_def dropWhile_append2 takeWhile_append2)

lemma all_digits_not: "all_digits s \<Longrightarrow> c \<in> set s \<Longrightarrow> is_digit c"
  by (simp add: all_digits_def list_all_iff)

definition frac_part :: "string option \<Rightarrow> string" where
  "frac_part fp = (case fp of None \<Rightarrow> '''' | Some f \<Rightarrow> f)"

definition mantissa_text :: "string \<Rightarrow> string option \<Rightarrow> string" where
  "mantissa_text ip fp = ip @ (case fp of None \<Rightarrow> '''' | Some f \<Rightarrow> CHR ''.'' # f)"

lemma split_exponent:
  assumes "num_wf ip fp ex"
  shows "(case split_once (\<lambda>c. c = CHR ''e'' \<or> c = CHR ''E'') (num_text False ip fp ex) of
      Some me \<Rightarrow> me | None \<Rightarrow> (num_text False ip fp ex, ''0'')) =
    (mantissa_text ip fp, case ex of None \<Rightarrow> ''0'' | Some (c, t) \<Rightarrow> t)"
proof -
  let ?p = "\<lambda>c. c = CHR ''e'' \<or> c = CHR ''E''"
  have no: "\<forall>c \<in> set (mantissa_text ip fp). \<not> ?p c"
    using assms
    by (auto simp: num_wf_def mantissa_text_def split: option.splits dest!: all_digits_not)
  show ?thesis
  proof (cases ex)
    case None
    then show ?thesis using split_once_none[OF no] by (simp add: num_text_def mantissa_text_def)
  next
    case (Some ct)
    obtain c t where ct: "ct = (c, t)" by (cases ct)
    then have "?p c" using assms Some by (simp add: num_wf_def)
    then show ?thesis using split_once_at[OF no] Some ct by (simp add: num_text_def mantissa_text_def)
  qed
qed

lemma split_point:
  assumes "num_wf ip fp ex"
  shows "(case split_once (\<lambda>c. c = CHR ''.'') (mantissa_text ip fp) of
      Some p \<Rightarrow> p | None \<Rightarrow> (mantissa_text ip fp, '''')) = (ip, frac_part fp)"
proof -
  have no: "\<forall>c \<in> set ip. \<not> c = CHR ''.''"
    using assms by (auto simp: num_wf_def dest!: all_digits_not)
  show ?thesis
  proof (cases fp)
    case None
    then show ?thesis using split_once_none[OF no] by (simp add: mantissa_text_def frac_part_def)
  next
    case (Some f)
    then show ?thesis using split_once_at[OF no] by (simp add: mantissa_text_def frac_part_def)
  qed
qed

lemma exp_text_parse:
  assumes "num_wf ip fp ex"
  shows "parse_i128 (case ex of None \<Rightarrow> ''0'' | Some (c, t) \<Rightarrow> t) = checked_i128 (exp_val ex)"
proof (cases ex)
  case None
  then show ?thesis by (simp add: parse_i128_def exp_val_def nat_of_digits_def is_digit_def digit_val_def)
next
  case (Some ct)
  obtain c t where ct: "ct = (c, t)" by (cases ct)
  then have "exp_text t" using assms Some by (simp add: num_wf_def)
  then show ?thesis using Some ct by (auto simp: exp_text_def parse_i128_def exp_val_def Let_def)
qed

text \<open>The exponent \<open>Decimal::parse\<close> computes, and when it is in range.\<close>

definition parse_exp :: "string \<Rightarrow> string option \<Rightarrow> (char \<times> string) option \<Rightarrow> int option" where
  "parse_exp ip fp ex = Option.bind (checked_i128 (exp_val ex)) (\<lambda>e.
     Option.bind (checked_i128 (e + int (length ip))) (\<lambda>v.
     checked_i128 (v - int (length (ip @ frac_part fp) - length (trim_start0 (ip @ frac_part fp))))))"

lemma parse_num_text:
  assumes "num_wf ip fp ex" "rv token = Some (num_text neg ip fp ex)"
  shows "parse rv token = (case parse_exp ip fp ex of
      None \<Rightarrow> Inl (Validation ''numeric exponent exceeds i128'')
    | Some e \<Rightarrow> Inr (let ds = trim_matches0 (ip @ frac_part fp) in
        if ds = [] then \<lparr>negative = False, digits = [], exponent = 0\<rparr>
        else \<lparr>negative = neg, digits = ds, exponent = e\<rparr>))"
proof -
  let ?raw = "num_text neg ip fp ex"
  obtain a as where ip: "ip = a # as" "is_digit a"
    using assms(1) by (cases ip) (auto simp: num_wf_def)
  have a: "a \<noteq> CHR ''-''" using ip(2) by auto
  have hd: "?raw \<noteq> []" "hd ?raw = CHR ''-'' \<or> is_digit (hd ?raw)" "(hd ?raw = CHR ''-'') = neg"
    using ip a by (auto simp: num_text_def)
  have tok: "(if neg then tl ?raw else ?raw) = num_text False ip fp ex"
    by (simp add: num_text_def)
  show ?thesis
    unfolding parse_def assms(2) ok_or_simps rbind_simps Let_def
    using hd by (simp only: tok guard_ok_simps rbind_simps split_exponent[OF assms(1)] prod.case
        split_point[OF assms(1)] exp_text_parse[OF assms(1)])
      (simp add: parse_exp_def decimal_error_def Let_def checked_i128_def)
qed

lemma parse_value:
  assumes "num_wf ip fp ex" "rv token = Some (num_text neg ip fp ex)" "parse rv token = Inr d"
  shows "dec_norm d \<and> dec_val d = num_val neg ip fp ex"
proof -
  let ?f = "frac_part fp" and ?ds = "ip @ frac_part fp"
  let ?t = "trim_matches0 (ip @ frac_part fp)"
  let ?lead = "length ?ds - length (trim_start0 ?ds)"
  obtain e where e: "parse_exp ip fp ex = Some e"
    and d: "d = (if ?t = [] then \<lparr>negative = False, digits = [], exponent = 0\<rparr>
        else \<lparr>negative = neg, digits = ?t, exponent = e\<rparr>)"
    using assms(3) parse_num_text[where rv = rv, OF assms(1,2)]
    by (auto simp: Let_def split: option.splits)
  have dig: "all_digits ?ds"
    using assms(1) by (auto simp: num_wf_def frac_part_def split: option.splits)
  have ev: "e = exp_val ex + int (length ip) - int ?lead" "i128_ok e"
    using e by (auto simp: parse_exp_def split: Option.bind_splits)
  have "of_nat (nat_of_digits ?ds) * 10 powi (exp_val ex - int (length ?f)) =
      dfrac ?ds * (10 powi int (length ?ds) * 10 powi (exp_val ex - int (length ?f)))"
    by (simp only: nat_of_digits_frac power_int_of_nat mult.assoc)
  also have "\<dots> = dfrac ?ds * 10 powi (exp_val ex + int (length ip))"
    by (simp flip: power_int_add add: algebra_simps)
  also have "\<dots> = dfrac ?t * (10 powi (- int ?lead) * 10 powi (exp_val ex + int (length ip)))"
    by (subst frac_trim_matches0) simp
  also have "\<dots> = dfrac ?t * 10 powi e"
    by (simp flip: power_int_add add: ev algebra_simps)
  finally have v: "of_nat (nat_of_digits ?ds) * 10 powi (exp_val ex - int (length ?f)) = dfrac ?t * 10 powi e" .
  have nv: "num_val neg ip fp ex = (if neg then - 1 else 1) * (dfrac ?t * 10 powi e)"
    unfolding num_val_def Let_def frac_part_def[symmetric] by (simp add: v[symmetric])
  show ?thesis
    using d nv ev(2) trim_matches0_ends[of ?ds] trim_matches0_digits[OF dig]
    by (auto simp: dec_norm_def dec_val_def i128_ok_def)
qed

lemma parse_norm: "raw_numbers rv \<Longrightarrow> parse rv token = Inr d \<Longrightarrow> dec_norm d"
proof -
  assume rv: "raw_numbers rv" and p: "parse rv token = Inr d"
  then obtain r where r: "rv token = Some r" "r \<noteq> []" "hd r = CHR ''-'' \<or> is_digit (hd r)"
    unfolding parse_def by (auto simp del: rbind_simps)
  then obtain neg ip fp ex where "r = num_text neg ip fp ex" "num_wf ip fp ex"
    using rv unfolding raw_numbers_def by blast
  with r(1) p show ?thesis using parse_value by blast
qed

section \<open>One spelling for equal values\<close>

lemma show_nat_digits: "all_digits (show_nat n) \<and> show_nat n \<noteq> [] \<and> nat_of_digits (show_nat n) = n"
proof (induction n rule: show_nat.induct)
  case (1 n)
  have d: "is_digit (char_of (48 + n mod 10))" "digit_val (char_of (48 + n mod 10)) = n mod 10" for n :: nat
    by (simp_all add: is_digit_def digit_val_def)
  show ?case
  proof (cases "n < 10")
    case True
    then show ?thesis using d[of n] by (subst (1 2 3) show_nat.simps) (simp add: nat_of_digits_def)
  next
    case False
    with 1 have "all_digits (show_nat (n div 10))" "nat_of_digits (show_nat (n div 10)) = n div 10" by auto
    then show ?thesis using False d[of n]
      by (subst (1 2 3) show_nat.simps) (simp add: nat_of_digits_snoc)
  qed
qed

lemma show_nat_inj: "show_nat a = show_nat b \<longleftrightarrow> a = b"
  by (metis show_nat_digits)

lemma show_nat_no_minus: "show_nat n \<noteq> CHR ''-'' # s"
  using show_nat_digits[of n] by (metis all_digits_simps(2) not_digit(4))

lemma show_int_inj: "show_int a = show_int b \<longleftrightarrow> a = b"
  using show_nat_no_minus show_nat_no_minus[symmetric] show_nat_inj
  by (auto simp: show_int_def eq_nat_nat_iff)

lemma digits_then_e_inj:
  "all_digits a \<Longrightarrow> all_digits b \<Longrightarrow> a @ CHR ''e'' # s = b @ CHR ''e'' # t \<longleftrightarrow> a = b \<and> s = t"
proof (induction a arbitrary: b)
  case Nil
  then show ?case by (cases b) auto
next
  case (Cons x xs)
  then show ?case by (cases b) auto
qed

lemma canonical_inj:
  assumes "dec_norm a" "dec_norm b" "canonical a = Inr s" "canonical b = Inr t"
  shows "s = t \<longleftrightarrow> a = b"
proof -
  have shape: "d = d' \<longleftrightarrow> negative d = negative d' \<and> digits d = digits d' \<and> exponent d = exponent d'"
    for d d' :: decimal by (cases d; cases d') auto
  have hd: "digits d \<noteq> [] \<Longrightarrow> dec_norm d \<Longrightarrow> \<exists>c cs. digits d = c # cs \<and> is_digit c" for d
    by (cases "digits d") (auto simp: dec_norm_def)
  show ?thesis
  proof (cases "digits a = []"; cases "digits b = []")
    assume "digits a = []" "digits b = []"
    then show ?thesis using assms by (simp add: canonical_def dec_norm_def shape)
  next
    assume e: "digits a = []" "digits b \<noteq> []"
    obtain c cs where "digits b = c # cs" "is_digit c" using hd[OF e(2) assms(2)] by blast
    then show ?thesis using assms e by (auto simp: canonical_def dec_norm_def shape)
  next
    assume e: "digits a \<noteq> []" "digits b = []"
    obtain c cs where "digits a = c # cs" "is_digit c" using hd[OF e(1) assms(1)] by blast
    then show ?thesis using assms e by (auto simp: canonical_def dec_norm_def shape)
  next
    assume e: "digits a \<noteq> []" "digits b \<noteq> []"
    obtain c cs c' cs' where h: "digits a = c # cs" "is_digit c" "digits b = c' # cs'" "is_digit c'"
      using hd e assms(1,2) by metis
    have st: "s = (if negative a then ''-'' else '''') @ digits a @ CHR ''e'' # show_int (exponent a - int (length (digits a)))"
      "t = (if negative b then ''-'' else '''') @ digits b @ CHR ''e'' # show_int (exponent b - int (length (digits b)))"
      using assms(3,4) e by (auto simp: canonical_def)
    have "c \<noteq> CHR ''-''" "c' \<noteq> CHR ''-''" using h(2,4) by auto
    then have "s = t \<longleftrightarrow> negative a = negative b \<and>
        digits a @ CHR ''e'' # show_int (exponent a - int (length (digits a))) =
        digits b @ CHR ''e'' # show_int (exponent b - int (length (digits b)))"
      using st h by auto
    then show ?thesis
      using assms(1,2) by (auto simp: digits_then_e_inj dec_norm_def show_int_inj shape)
  qed
qed

section \<open>A reader of number texts\<close>

text \<open>
  An instance of \<open>rv\<close> for evaluation: it accepts exactly the texts \<open>num_text\<close> of well-formed
  parts.
\<close>

definition strip_minus :: "string \<Rightarrow> string" where
  "strip_minus t = (if t \<noteq> [] \<and> hd t = CHR ''-'' then tl t else t)"

definition mantissa_ok :: "string \<Rightarrow> bool" where
  "mantissa_ok m = (case split_once (\<lambda>c. c = CHR ''.'') m of
     None \<Rightarrow> m \<noteq> [] \<and> all_digits m
   | Some (i, f) \<Rightarrow> i \<noteq> [] \<and> all_digits i \<and> all_digits f)"

definition number_ok :: "string \<Rightarrow> bool" where
  "number_ok u = (case split_once (\<lambda>c. c = CHR ''e'' \<or> c = CHR ''E'') u of
     None \<Rightarrow> mantissa_ok u
   | Some (m, e) \<Rightarrow> mantissa_ok m \<and> exp_text e)"

definition plain_decimal :: "string \<Rightarrow> string option" where
  "plain_decimal t = (if number_ok (strip_minus t) then Some t else None)"

lemma split_once_Some: "split_once p s = Some (a, b) \<Longrightarrow> \<exists>c. p c \<and> s = a @ c # b"
proof -
  assume a: "split_once p s = Some (a, b)"
  then obtain y where d: "dropWhile (\<lambda>c. \<not> p c) s = y # b" "a = takeWhile (\<lambda>c. \<not> p c) s"
    by (auto simp: split_once_def split: list.splits)
  then have "p y" using hd_dropWhile[of "\<lambda>c. \<not> p c" s] by simp
  with d show ?thesis using takeWhile_dropWhile_id[of "\<lambda>c. \<not> p c" s] by auto
qed

lemma mantissa_ok_text:
  assumes "mantissa_ok m"
  shows "\<exists>ip fp. m = mantissa_text ip fp \<and> num_wf ip fp None"
proof (cases "split_once (\<lambda>c. c = CHR ''.'') m")
  case None
  with assms show ?thesis
    by (intro exI[of _ m] exI[of _ None]) (simp add: mantissa_ok_def mantissa_text_def num_wf_def)
next
  case (Some q)
  obtain a f where q: "q = (a, f)" by (cases q)
  with Some have "m = a @ CHR ''.'' # f" using split_once_Some by blast
  with Some q assms show ?thesis
    by (intro exI[of _ a] exI[of _ "Some f"]) (simp add: mantissa_ok_def mantissa_text_def num_wf_def)
qed

lemma number_ok_text:
  assumes "number_ok u"
  shows "\<exists>ip fp ex. u = num_text False ip fp ex \<and> num_wf ip fp ex"
proof (cases "split_once (\<lambda>c. c = CHR ''e'' \<or> c = CHR ''E'') u")
  case None
  with assms obtain ip fp where "u = mantissa_text ip fp" "num_wf ip fp None"
    using mantissa_ok_text[of u] by (auto simp: number_ok_def)
  then show ?thesis
    by (intro exI[of _ ip] exI[of _ fp] exI[of _ None]) (simp add: num_text_def mantissa_text_def)
next
  case (Some q)
  obtain m e where q: "q = (m, e)" by (cases q)
  obtain c where c: "c = CHR ''e'' \<or> c = CHR ''E''" "u = m @ c # e"
    using split_once_Some[OF Some[unfolded q]] by blast
  obtain ip fp where m: "m = mantissa_text ip fp" "num_wf ip fp None"
    using assms Some q mantissa_ok_text[of m] by (auto simp: number_ok_def)
  have e: "exp_text e" using assms Some q by (simp add: number_ok_def)
  show ?thesis
    using c e m by (intro exI[of _ ip] exI[of _ fp] exI[of _ "Some (c, e)"])
      (simp add: num_text_def mantissa_text_def num_wf_def)
qed

lemma strip_minus_text: "\<exists>neg. t = (if neg then ''-'' else '''') @ strip_minus t"
  by (cases t) (auto simp: strip_minus_def intro: exI[of _ True] exI[of _ False])

lemma plain_decimal_text:
  assumes "plain_decimal t = Some r"
  shows "r = t \<and> (\<exists>neg ip fp ex. t = num_text neg ip fp ex \<and> num_wf ip fp ex)"
proof -
  obtain neg where t: "t = (if neg then ''-'' else '''') @ strip_minus t" using strip_minus_text by blast
  obtain ip fp ex where "strip_minus t = num_text False ip fp ex" "num_wf ip fp ex"
    using assms number_ok_text[of "strip_minus t"] by (auto simp: plain_decimal_def split: if_splits)
  moreover from this t have "t = num_text neg ip fp ex" by (simp add: num_text_def)
  ultimately show ?thesis using assms by (auto simp: plain_decimal_def split: if_splits)
qed

lemma raw_numbers_plain: "raw_numbers plain_decimal"
  unfolding raw_numbers_def using plain_decimal_text by metis

lemma mantissa_ok_mantissa_text: "num_wf ip fp ex \<Longrightarrow> mantissa_ok (mantissa_text ip fp)"
  using split_point[of ip fp ex]
  by (auto simp: mantissa_ok_def num_wf_def frac_part_def mantissa_text_def split: option.splits)

lemma plain_decimal_num_text:
  assumes "num_wf ip fp ex"
  shows "plain_decimal (num_text neg ip fp ex) = Some (num_text neg ip fp ex)"
proof -
  let ?E = "\<lambda>c. c = CHR ''e'' \<or> c = CHR ''E''"
  obtain a as where ip: "ip = a # as" "is_digit a" using assms by (cases ip) (auto simp: num_wf_def)
  then have "a \<noteq> CHR ''-''" by auto
  then have u: "strip_minus (num_text neg ip fp ex) = num_text False ip fp ex"
    using ip by (simp add: num_text_def strip_minus_def)
  have no: "\<forall>c \<in> set (mantissa_text ip fp). \<not> ?E c"
    using assms by (auto simp: num_wf_def mantissa_text_def split: option.splits dest!: all_digits_not)
  have "number_ok (num_text False ip fp ex)"
  proof (cases ex)
    case None
    then have "num_text False ip fp ex = mantissa_text ip fp" by (simp add: num_text_def mantissa_text_def)
    then show ?thesis using split_once_none[OF no] mantissa_ok_mantissa_text[OF assms] by (simp add: number_ok_def)
  next
    case (Some ct)
    obtain c t where ct: "ct = (c, t)" by (cases ct)
    then have "num_text False ip fp ex = mantissa_text ip fp @ c # t" "?E c" "exp_text t"
      using Some assms by (auto simp: num_text_def mantissa_text_def num_wf_def)
    then show ?thesis using split_once_at[OF no] mantissa_ok_mantissa_text[OF assms] by (simp add: number_ok_def)
  qed
  then show ?thesis by (simp add: plain_decimal_def u)
qed

text \<open>C22. Parsing a JSON number token keeps its exact value: whenever \<open>Decimal::parse\<close> succeeds on the text of
  a number, the result is in normal form (no leading or trailing zeros, zero without a sign) and
  denotes the same rational number as the token; it fails only because the exponent does not
  fit an \<open>i128\<close>.\<close>

theorem decimal_parse_exact:
  assumes "num_wf ip fp ex" "rv token = Some (num_text neg ip fp ex)"
  shows "case parse rv token of
      Inr d \<Rightarrow> dec_norm d \<and> dec_val d = num_val neg ip fp ex
    | Inl e \<Rightarrow> e = Validation ''numeric exponent exceeds i128'' \<and> parse_exp ip fp ex = None"
  using parse_value[where rv = rv, OF assms] parse_num_text[where rv = rv, OF assms]
  by (auto split: sum.splits option.splits)

theorem decimal_parse_exact_witness:
  "num_wf ''0012'' (Some ''50'') None \<and>
   plain_decimal ''-0012.50'' = Some (num_text True ''0012'' (Some ''50'') None) \<and>
   (case parse plain_decimal ''-0012.50'' of
      Inr d \<Rightarrow> dec_norm d \<and> dec_val d = num_val True ''0012'' (Some ''50'') None
    | Inl e \<Rightarrow> e = Validation ''numeric exponent exceeds i128'' \<and> parse_exp ''0012'' (Some ''50'') None = None)"
proof -
  have w: "num_wf ''0012'' (Some ''50'') None" by code_simp
  have r: "plain_decimal ''-0012.50'' = Some (num_text True ''0012'' (Some ''50'') None)" by code_simp
  show ?thesis using w r decimal_parse_exact[where rv = plain_decimal, OF w r] by simp
qed

end
