(* ===== verification/Fields_Codec.thy ===== *)
theory Fields_Codec
  imports Fields_Value Fields_Decimal
begin

text \<open>
  The ordered keys of \<^verbatim>\<open>src/fields/codec.rs\<close>: \<open>encode\<close>, \<open>encode_equality\<close>, \<open>encode_tuple\<close>. The
  specification is a comparison of values (\<open>vcmp\<close>): numbers by the rational they denote, strings
  by their bytes, arrays element by element, kinds in the documented order. The encoding is an
  \<open>ordered_code\<close> for it: keys sort, and are equal, exactly as the values do.
\<close>

unbundle bit_operations_syntax

definition VERSION :: u8 where "VERSION = 1"

definition signed :: "int \<Rightarrow> bytes" where
  "signed v = to_be 16 (unat ((word_of_int v :: 128 word) XOR push_bit 127 1))"

fun text_code :: "bytes \<Rightarrow> bytes" where
  "text_code [] = [0, 0]"
| "text_code (b # bs) = (if b = 0 then [0, 255] else [b]) @ text_code bs"

definition number_code :: "decimal \<Rightarrow> bytes" where
  "number_code n =
     (if digits n = [] then [1]
      else (if negative n then 0 else 2) #
        (let part = signed (exponent n) @ as_bytes (digits n) @ [0]
         in if negative n then map NOT part else part))"

fun append_value :: "(string \<Rightarrow> string option) \<Rightarrow> bool \<Rightarrow> value \<Rightarrow> bytes res" where
  "append_value rv objects Missing = Inr [1]"
| "append_value rv objects Null = Inr [2]"
| "append_value rv objects (Bool b) = Inr [if b then 4 else 3]"
| "append_value rv objects (Number token) = rbind (parse rv token) (\<lambda>n. Inr (5 # number_code n))"
| "append_value rv objects (Time n) = Inr (6 # signed n)"
| "append_value rv objects (String v) = Inr (7 # text_code (as_bytes v))"
| "append_value rv objects (Array v) =
     rbind (mapM (append_value rv objects) v) (\<lambda>bs. Inr (8 # concat bs @ [0]))"
| "append_value rv objects (Object v) =
     (if objects
      then rbind (mapM (\<lambda>kv. rbind (append_value rv True (snd kv))
             (\<lambda>b. Inr (7 # text_code (as_bytes (fst kv)) @ b))) v) (\<lambda>bs. Inr (9 # concat bs @ [0]))
      else Inl (Validation ''objects support canonical equality only, not ordering''))"

definition encode :: "(string \<Rightarrow> string option) \<Rightarrow> value \<Rightarrow> bytes res" where
  "encode rv v = append_value rv False v"

definition encode_equality :: "(string \<Rightarrow> string option) \<Rightarrow> value \<Rightarrow> bytes res" where
  "encode_equality rv v = append_value rv True v"

definition encode_tuple :: "(string \<Rightarrow> string option) \<Rightarrow> value list \<Rightarrow> bytes res" where
  "encode_tuple rv vs = encode rv (Array vs)"

section \<open>The order of values\<close>

definition num_of :: "(string \<Rightarrow> string option) \<Rightarrow> string \<Rightarrow> rat" where
  "num_of rv token = (case parse rv token of Inr d \<Rightarrow> dec_val d | Inl _ \<Rightarrow> 0)"

fun rank :: "value \<Rightarrow> nat" where
  "rank Missing = 1" | "rank Null = 2" | "rank (Bool b) = (if b then 4 else 3)"
| "rank (Number _) = 5" | "rank (Time _) = 6" | "rank (String _) = 7" | "rank (Array _) = 8"
| "rank (Object _) = 9"

fun vcmp :: "(string \<Rightarrow> string option) \<Rightarrow> value \<Rightarrow> value \<Rightarrow> ordering" where
  "vcmp rv (Number a) (Number b) = ord_cmp (num_of rv a) (num_of rv b)"
| "vcmp rv (Time a) (Time b) = ord_cmp a b"
| "vcmp rv (String a) (String b) = bcmp a b"
| "vcmp rv (Array a) (Array b) = list_cmp (vcmp rv) a b"
| "vcmp rv (Object a) (Object b) =
     list_cmp (\<lambda>x y. then_with (bcmp (fst x) (fst y)) (vcmp rv (snd x) (snd y))) a b"
| "vcmp rv v w = ord_cmp (rank v) (rank w)"

section \<open>The parts are ordered codes\<close>

lemma xor_clear_bit:
  fixes x :: "'a::len word" assumes "\<not> bit x k"
  shows "x XOR push_bit k 1 = x + push_bit k 1"
proof -
  have "x AND push_bit k 1 = 0"
    using assms by (intro bit_word_eqI) (auto simp: bit_simps)
  then show ?thesis by (simp add: disjunctive_add_eq_xor)
qed

lemma xor_top_bit:
  fixes x :: "'a::len word" assumes "LENGTH('a) = Suc k"
  shows "x XOR push_bit k 1 = x + push_bit k 1"
proof (cases "bit x k")
  case True
  let ?y = "x XOR push_bit k 1"
  have "\<not> bit ?y k" using True assms by (simp add: bit_simps)
  from xor_clear_bit[OF this] have x: "x = ?y + push_bit k 1" by (simp add: xor.assoc)
  have "push_bit k 1 + push_bit k 1 = (2 ^ LENGTH('a) :: 'a word)"
    by (simp add: push_bit_eq_mult assms)
  then have z: "push_bit k 1 + push_bit k 1 = (0 :: 'a word)" by simp
  have "x + push_bit k 1 = ?y + (push_bit k 1 + push_bit k 1)"
    using x by (metis add.assoc)
  with z show ?thesis by simp
qed (rule xor_clear_bit)

lemma signed_eq: assumes "i128_ok v" shows "signed v = to_be 16 (nat (v + 2 ^ 127))"
proof -
  have "(word_of_int v :: 128 word) XOR push_bit 127 1 = word_of_int v + push_bit 127 1"
    by (rule xor_top_bit) simp
  also have "\<dots> = word_of_int (v + 2 ^ 127)"
    by (simp add: push_bit_eq_mult)
  finally have "unat ((word_of_int v :: 128 word) XOR push_bit 127 1) =
      nat (uint (word_of_int (v + 2 ^ 127) :: 128 word))"
    by (simp only: unat_eq_nat_uint)
  moreover have "(v + 2 ^ 127) mod 2 ^ 128 = v + 2 ^ 127"
    using assms by (intro mod_pos_pos_trivial) (simp_all add: i128_ok_def)
  ultimately show ?thesis by (simp only: signed_def uint_word_of_int len_bit0 len_num1 len_of_numeral_defs) simp
qed

interpretation signed: ordered_code i128_ok signed ord_cmp
proof
  fix x y :: int and s t :: bytes
  assume x: "i128_ok x" and y: "i128_ok y"
  have r: "nat (x + 2 ^ 127) < 256 ^ 16" "nat (y + 2 ^ 127) < 256 ^ 16"
    using x y by (simp_all add: i128_ok_def nat_less_iff)
  have "ord_cmp (nat (x + 2 ^ 127)) (nat (y + 2 ^ 127)) = ord_cmp x y"
    using x y by (intro ord_cmp_eqI) (auto simp: i128_ok_def nat_less_eq_zless)
  with r show "bcmp (signed x @ s) (signed y @ t) = then_with (ord_cmp x y) (bcmp s t)"
    by (simp add: signed_eq x y bcmp_append_same_length bcmp_to_be)
qed

interpretation text_code: ordered_code "\<lambda>_. True" text_code bcmp
proof
  fix x y s t :: bytes
  show "bcmp (text_code x @ s) (text_code y @ t) = then_with (bcmp x y) (bcmp s t)"
  proof (induction x y rule: bcmp.induct)
    case (2 y ys)
    show ?case by (simp add: ord_cmp_def word_neq_0_conv)
  next
    case (3 x xs)
    show ?case by (simp add: ord_cmp_def word_neq_0_conv)
  next
    case (4 x xs y ys)
    then show ?case
      by (cases x y rule: linorder_cases) (auto simp: ord_cmp_def word_neq_0_conv)
  qed simp
qed

lemma bcmp_as_bytes: "bcmp (as_bytes a) (as_bytes b) = bcmp a b"
proof (induction a b rule: bcmp.induct)
  case (4 x xs y ys)
  have "ord_cmp (of_char x :: u8) (of_char y) = ord_cmp x y"
    by (intro ord_cmp_eqI) (simp_all add: word_less_nat_alt less_char_def)
  with 4 show ?case by (cases "ord_cmp x y") (simp_all add: as_bytes_def del: ord_cmp_iff)
qed (simp_all add: as_bytes_def)

text \<open>The exponent and the closed digit string: the code of a positive number after its sign.\<close>

definition part_ok :: "int \<times> string \<Rightarrow> bool" where
  "part_ok p \<longleftrightarrow> i128_ok (fst p) \<and> all_digits (snd p)"

definition part_code :: "int \<times> string \<Rightarrow> bytes" where
  "part_code p = signed (fst p) @ as_bytes (snd p) @ [0]"

definition part_cmp :: "int \<times> string \<Rightarrow> int \<times> string \<Rightarrow> ordering" where
  "part_cmp p q = then_with (ord_cmp (fst p) (fst q)) (bcmp (snd p) (snd q))"

lemma digit_byte_pos: "is_digit c \<Longrightarrow> (0 :: u8) < of_char c"
  by (simp add: word_less_nat_alt is_digit_def)

lemma bcmp_closed_digits:
  assumes "all_digits a" "all_digits b"
  shows "bcmp (as_bytes a @ 0 # s) (as_bytes b @ 0 # t) = then_with (bcmp a b) (bcmp s t)"
  using assms
proof (induction a b rule: bcmp.induct)
  case (4 x xs y ys)
  have "ord_cmp (of_char x :: u8) (of_char y) = ord_cmp x y"
    by (intro ord_cmp_eqI) (simp_all add: word_less_nat_alt less_char_def)
  with 4 show ?case by (cases "ord_cmp x y") (simp_all add: as_bytes_def del: ord_cmp_iff)
qed (auto simp: as_bytes_def ord_cmp_def digit_byte_pos dest: digit_byte_pos)

interpretation part: ordered_code part_ok part_code part_cmp
proof
  fix x y s t
  assume "part_ok x" "part_ok y"
  then show "bcmp (part_code x @ s) (part_code y @ t) = then_with (part_cmp x y) (bcmp s t)"
    by (simp add: part_ok_def part_code_def part_cmp_def signed.code_law bcmp_closed_digits then_with_assoc)
qed

section \<open>Numbers sort by value\<close>

definition mag :: "int \<times> string \<Rightarrow> rat" where
  "mag p = dfrac (snd p) * 10 powi (fst p)"

definition part_norm :: "int \<times> string \<Rightarrow> bool" where
  "part_norm p \<longleftrightarrow> part_ok p \<and> snd p \<noteq> [] \<and> hd (snd p) \<noteq> CHR ''0'' \<and> last (snd p) \<noteq> CHR ''0''"

lemma mag_pos: "part_norm p \<Longrightarrow> 0 < mag p"
  using frac_pos[of "snd p"] by (simp add: part_norm_def part_ok_def mag_def)

lemma mag_less_exponent:
  assumes "part_norm p" "part_norm q" "fst p < fst q"
  shows "mag p < mag q"
proof -
  have p: "dfrac (snd p) < 1" and q: "1 / 10 \<le> dfrac (snd q)"
    using assms frac_bounds[of "snd p"] frac_ge[of "snd q"] by (auto simp: part_norm_def part_ok_def)
  have "mag p < 10 powi (fst p)" using p by (simp add: mag_def)
  also have "\<dots> \<le> 10 powi (fst q - 1)" using assms(3) by (intro power_int_increasing) auto
  also have "\<dots> = 1 / 10 * 10 powi (fst q)" by (simp add: power_int_diff)
  also have "\<dots> \<le> mag q" using q unfolding mag_def by (intro mult_right_mono) auto
  finally show ?thesis .
qed

lemma part_cmp_mag:
  assumes "part_norm p" "part_norm q"
  shows "part_cmp p q = ord_cmp (mag p) (mag q)"
proof (cases "fst p" "fst q" rule: linorder_cases)
  case less
  then show ?thesis using mag_less_exponent[OF assms less] by (simp add: part_cmp_def ord_cmp_def)
next
  case equal
  have "bcmp (snd p) (snd q) = ord_cmp (dfrac (snd p)) (dfrac (snd q))"
    using assms by (intro frac_cmp) (auto simp: part_norm_def part_ok_def)
  also have "\<dots> = ord_cmp (mag p) (mag q)"
    by (rule ord_cmp_eqI) (simp_all add: mag_def equal)
  finally show ?thesis using equal by (simp add: part_cmp_def)
next
  case greater
  then show ?thesis using mag_less_exponent[OF assms(2,1) greater] by (simp add: part_cmp_def ord_cmp_def)
qed

text \<open>The three shapes of a normal decimal and of its code.\<close>

lemma dec_norm_cases:
  assumes "dec_norm d"
  obtains (zero) "digits d = []" "dec_val d = 0" "number_code d = [1]"
  | (pos) p where "part_norm p" "p = (exponent d, digits d)" "dec_val d = mag p" "number_code d = 2 # part_code p"
      "\<not> negative d"
  | (neg) p where "part_norm p" "p = (exponent d, digits d)" "dec_val d = - mag p"
      "number_code d = 0 # map NOT (part_code p)" "negative d"
proof (cases "digits d = []")
  case True
  then show ?thesis using zero by (simp add: dec_val_def number_code_def)
next
  case False
  let ?p = "(exponent d, digits d)"
  have n: "part_norm ?p" using assms False by (simp add: dec_norm_def part_norm_def part_ok_def)
  show ?thesis
  proof (cases "negative d")
    case True
    show ?thesis
      by (rule neg[OF n refl _ _ True]) (simp_all add: dec_val_def mag_def number_code_def part_code_def True False)
  next
    case False': False
    show ?thesis
      by (rule pos[OF n refl _ _ False']) (simp_all add: dec_val_def mag_def number_code_def part_code_def False False')
  qed
qed

lemma ord_cmp_minus: "ord_cmp (- x) (- y) = reverse_ord (ord_cmp x y)" for x y :: rat
  by (auto simp: ord_cmp_def)

interpretation number_code: ordered_code dec_norm number_code "\<lambda>a b. ord_cmp (dec_val a) (dec_val b)"
proof
  fix a b s t
  assume "dec_norm a" "dec_norm b"
  then show "bcmp (number_code a @ s) (number_code b @ t) =
      then_with (ord_cmp (dec_val a) (dec_val b)) (bcmp s t)"
  proof (cases a rule: dec_norm_cases)
    case zero
    from \<open>dec_norm b\<close> show ?thesis
      by (cases b rule: dec_norm_cases) (use zero in \<open>auto simp: ord_cmp_def dest!: mag_pos\<close>)
  next
    case (pos p)
    note P = pos mag_pos[OF pos(1)]
    from \<open>dec_norm b\<close> show ?thesis
    proof (cases b rule: dec_norm_cases)
      case (pos q)
      have "bcmp (part_code p @ s) (part_code q @ t) = then_with (part_cmp p q) (bcmp s t)"
        using P(1) pos(1) by (intro part.code_law) (simp_all add: part_norm_def)
      with P pos show ?thesis by (simp add: part_cmp_mag)
    next
      case (neg q)
      with P mag_pos[OF neg(1)] show ?thesis by (simp add: ord_cmp_def)
    qed (use P in \<open>auto simp: ord_cmp_def\<close>)
  next
    case (neg p)
    note P = neg mag_pos[OF neg(1)]
    from \<open>dec_norm b\<close> show ?thesis
    proof (cases b rule: dec_norm_cases)
      case (neg q)
      have "bcmp (map NOT (part_code p) @ s) (map NOT (part_code q) @ t) =
          then_with (reverse_ord (part_cmp p q)) (bcmp s t)"
        using P(1) neg(1) by (intro part.complement_law) (simp_all add: part_norm_def)
      with P neg show ?thesis by (simp add: part_cmp_mag ord_cmp_minus)
    next
      case (pos q)
      with P mag_pos[OF pos(1)] show ?thesis by (simp add: ord_cmp_def)
    qed (use P in \<open>auto simp: ord_cmp_def\<close>)
  qed
qed

section \<open>Values sort by value\<close>

lemma append_value_head: "append_value rv objects v = Inr a \<Longrightarrow> \<exists>h r. a = h # r \<and> 0 < h"
  by (cases v) (auto split: if_splits)

lemma append_value_rank:
  "append_value rv objects v = Inr a \<Longrightarrow> \<exists>r. a = of_nat (rank v) # r"
  by (cases v) (auto split: if_splits)

lemma rank_bounds: "rank v \<le> 9"
  by (cases v) auto

lemma append_value_rank_cmp:
  assumes "append_value rv objects v = Inr a" "append_value rv objects w = Inr b" "rank v \<noteq> rank w"
  shows "bcmp (a @ s) (b @ t) = then_with (ord_cmp (rank v) (rank w)) (bcmp s t)"
proof -
  obtain q r where ab: "a = of_nat (rank v) # q" "b = of_nat (rank w) # r"
    using append_value_rank assms(1,2) by blast
  have "ord_cmp (of_nat (rank v) :: u8) (of_nat (rank w)) = ord_cmp (rank v) (rank w)"
    using rank_bounds[of v] rank_bounds[of w]
    by (intro ord_cmp_eqI) (simp_all add: word_less_nat_alt unat_of_nat_u8)
  then show ?thesis using assms(3) ab
    by (cases "rank v" "rank w" rule: linorder_cases) (auto simp: ord_cmp_def)
qed

lemma vcmp_rank: "rank v \<noteq> rank w \<Longrightarrow> vcmp rv v w = ord_cmp (rank v) (rank w)"
  by (cases v; cases w) auto

lemma append_value_law:
  assumes rv: "raw_numbers rv"
  shows "value_ok v \<Longrightarrow> value_ok w \<Longrightarrow> append_value rv objects v = Inr a \<Longrightarrow>
    append_value rv objects w = Inr b \<Longrightarrow> bcmp (a @ s) (b @ t) = then_with (vcmp rv v w) (bcmp s t)"
proof (induction v arbitrary: w a b s t)
  case Missing
  then show ?case by (cases w) (auto simp: ord_cmp_def split: if_splits)
next
  case Null
  then show ?case by (cases w) (auto simp: ord_cmp_def split: if_splits)
next
  case (Bool x)
  then show ?case by (cases w) (auto simp: ord_cmp_def split: if_splits)
next
  case (Number x)
  show ?case
  proof (cases w)
    case w: (Number y)
    obtain m n where mn: "parse rv x = Inr m" "parse rv y = Inr n" "a = 5 # number_code m" "b = 5 # number_code n"
      using Number.prems w by auto
    then show ?thesis
      using number_code.code_law[OF parse_norm[OF rv mn(1)] parse_norm[OF rv mn(2)]] w
      by (simp add: num_of_def)
  qed (use append_value_rank_cmp[OF Number.prems(3,4)] vcmp_rank in auto)
next
  case (Time x)
  show ?case
  proof (cases w)
    case w: (Time y)
    then show ?thesis using Time.prems signed.code_law[of x y s t] by auto
  qed (use append_value_rank_cmp[OF Time.prems(3,4)] vcmp_rank in auto)
next
  case (String x)
  show ?case
  proof (cases w)
    case w: (String y)
    then show ?thesis using String.prems by (auto simp: bcmp_as_bytes text_code.code_law)
  qed (use append_value_rank_cmp[OF String.prems(3,4)] vcmp_rank in auto)
next
  case (Array x)
  show ?case
  proof (cases w)
    case w: (Array y)
    obtain as bs where c: "mapM (append_value rv objects) x = Inr as" "mapM (append_value rv objects) y = Inr bs"
      "a = 8 # concat as @ [0]" "b = 8 # concat bs @ [0]"
      using Array.prems w by auto
    have "bcmp (concat as @ 0 # s) (concat bs @ 0 # t) = then_with (list_cmp (vcmp rv) x y) (bcmp s t)"
    proof (rule bcmp_terminated_list)
      show "list_all2 (\<lambda>v a. append_value rv objects v = Inr a) x as"
        "list_all2 (\<lambda>v a. append_value rv objects v = Inr a) y bs"
        using c(1,2) by (simp_all add: mapM_Inr_all2)
    next
      fix v w' a' b' s' t'
      assume "v \<in> set x" "w' \<in> set y" "append_value rv objects v = Inr a'" "append_value rv objects w' = Inr b'"
      then show "bcmp (a' @ s') (b' @ t') = then_with (vcmp rv v w') (bcmp s' t')"
        using Array.prems(1,2) w by (intro Array.IH) (auto simp: list_all_iff)
    qed (rule append_value_head)
    then show ?thesis using c w by simp
  qed (use append_value_rank_cmp[OF Array.prems(3,4)] vcmp_rank in auto)
next
  case (Object x)
  then have o: objects by (auto split: if_splits)
  show ?case
  proof (cases w)
    case w: (Object y)
    let ?f = "\<lambda>kv. rbind (append_value rv True (snd kv)) (\<lambda>b. Inr (7 # text_code (as_bytes (fst kv)) @ b))"
    let ?c = "\<lambda>x y. then_with (bcmp (fst x) (fst y)) (vcmp rv (snd x) (snd y))"
    obtain as bs where c: "mapM ?f x = Inr as" "mapM ?f y = Inr bs"
      "a = 9 # concat as @ [0]" "b = 9 # concat bs @ [0]"
      using Object.prems w o by auto
    have "bcmp (concat as @ 0 # s) (concat bs @ 0 # t) = then_with (list_cmp ?c x y) (bcmp s t)"
    proof (rule bcmp_terminated_list)
      show "list_all2 (\<lambda>v a. ?f v = Inr a) x as" "list_all2 (\<lambda>v a. ?f v = Inr a) y bs"
        using c(1,2) by (simp_all add: mapM_Inr_all2)
    next
      fix v w' :: "string \<times> value" and a' b' s' t'
      assume m: "v \<in> set x" "w' \<in> set y" and f: "?f v = Inr a'" "?f w' = Inr b'"
      obtain p q where pq: "append_value rv True (snd v) = Inr p" "append_value rv True (snd w') = Inr q"
        "a' = 7 # text_code (as_bytes (fst v)) @ p" "b' = 7 # text_code (as_bytes (fst w')) @ q"
        using f by auto
      have ok: "value_ok (snd v)" "value_ok (snd w')"
        using Object.prems(1,2) w m by (auto simp: list_all_iff)
      have "bcmp (p @ s') (q @ t') = then_with (vcmp rv (snd v) (snd w')) (bcmp s' t')"
        by (rule Object.IH[OF m(1) _ ok]) (use pq o in \<open>auto simp: snds.simps\<close>)
      then show "bcmp (a' @ s') (b' @ t') = then_with (?c v w') (bcmp s' t')"
        using pq by (simp add: bcmp_as_bytes then_with_assoc text_code.code_law)
    qed auto
    then show ?thesis using c w by simp
  qed (use append_value_rank_cmp[OF Object.prems(3,4)] vcmp_rank in auto)
qed

section \<open>Statements about the codec\<close>

definition encodable :: "(string \<Rightarrow> string option) \<Rightarrow> bool \<Rightarrow> value \<Rightarrow> bool" where
  "encodable rv objects v \<longleftrightarrow> value_ok v \<and> (\<exists>a. append_value rv objects v = Inr a)"

definition code_of :: "(string \<Rightarrow> string option) \<Rightarrow> bool \<Rightarrow> value \<Rightarrow> bytes" where
  "code_of rv objects v = (case append_value rv objects v of Inr a \<Rightarrow> a | Inl _ \<Rightarrow> [])"

text \<open>The whole value encoding meets the contract of an ordered code.\<close>

lemma value_ordered_code:
  assumes "raw_numbers rv"
  shows "ordered_code (encodable rv objects) (code_of rv objects) (vcmp rv)"
proof
  fix v w s t
  assume "encodable rv objects v" "encodable rv objects w"
  then show "bcmp (code_of rv objects v @ s) (code_of rv objects w @ t) = then_with (vcmp rv v w) (bcmp s t)"
    using append_value_law[OF assms] by (auto simp: encodable_def code_of_def)
qed

lemma encode_cmp:
  assumes "raw_numbers rv" "value_ok v" "value_ok w"
    "append_value rv objects v = Inr a" "append_value rv objects w = Inr b"
  shows "bcmp a b = vcmp rv v w" and "a @ s = b @ t \<Longrightarrow> a = b \<and> s = t"
proof -
  show "bcmp a b = vcmp rv v w"
    using append_value_law[OF assms(1-5), of "[]" "[]"] by simp
  show "a @ s = b @ t \<Longrightarrow> a = b \<and> s = t"
    using append_value_law[OF assms(1-5), of s t] append_value_law[OF assms(1-5), of "[]" "[]"]
    by (metis bcmp_iff(3) then_with_eq_Equal append_Nil2)
qed

text \<open>C8. Ordered keys sort as the values do. For two values that \<open>encode\<close> accepts, comparing the encoded
  keys byte by byte gives the order of the values (kinds in the documented order, numbers by their
  exact value, strings by bytes, arrays element by element), the keys are equal exactly for equal
  values, and no key is a proper prefix of another: a key followed by anything splits in one way.\<close>

theorem encode_orders:
  assumes "raw_numbers rv" "value_ok v" "value_ok w" "encode rv v = Inr a" "encode rv w = Inr b"
  shows "(a < b \<longleftrightarrow> vcmp rv v w = Less) \<and> (a = b \<longleftrightarrow> vcmp rv v w = Equal) \<and>
    (\<forall>s t. a @ s = b @ t \<longrightarrow> a = b \<and> s = t)"
  using encode_cmp[OF assms(1-3) assms(4,5)[unfolded encode_def]] by (metis bcmp_iff(1,3))

theorem encode_orders_witness:
  "raw_numbers plain_decimal \<and> value_ok (Array [Number ''-1.50'', String ''a'']) \<and> value_ok (Array [Number ''-1.5'']) \<and>
   (\<exists>a b. encode plain_decimal (Array [Number ''-1.50'', String ''a'']) = Inr a \<and>
      encode plain_decimal (Array [Number ''-1.5'']) = Inr b \<and>
      (a < b \<longleftrightarrow> vcmp plain_decimal (Array [Number ''-1.50'', String ''a'']) (Array [Number ''-1.5'']) = Less))"
proof -
  let ?v = "Array [Number ''-1.50'', String ''a'']" and ?w = "Array [Number ''-1.5'']"
  have ok: "value_ok ?v" "value_ok ?w" by simp_all
  have "parse plain_decimal ''-1.50'' = Inr \<lparr>negative = True, digits = ''15'', exponent = 1\<rparr>"
    "parse plain_decimal ''-1.5'' = Inr \<lparr>negative = True, digits = ''15'', exponent = 1\<rparr>" by code_simp+
  then obtain a b where ab: "encode plain_decimal ?v = Inr a" "encode plain_decimal ?w = Inr b"
    by (simp add: encode_def)
  show ?thesis using raw_numbers_plain ok ab encode_orders[OF raw_numbers_plain ok ab] by blast
qed

text \<open>Equality keys (\<open>encode_equality\<close>, used for grouping, distinct values and equality tests) are equal
  exactly for equal values, objects included, and split in one way from what follows them.\<close>

theorem encode_equality_exact:
  assumes "raw_numbers rv" "value_ok v" "value_ok w"
    "encode_equality rv v = Inr a" "encode_equality rv w = Inr b"
  shows "(a = b \<longleftrightarrow> vcmp rv v w = Equal) \<and> (\<forall>s t. a @ s = b @ t \<longrightarrow> a = b \<and> s = t)"
  using encode_cmp[OF assms(1-3) assms(4,5)[unfolded encode_equality_def]] by (metis bcmp_iff(3))

theorem encode_equality_exact_witness:
  "raw_numbers plain_decimal \<and>
   (\<exists>a b. encode_equality plain_decimal (Object [(''k'', Number ''10'')]) = Inr a \<and>
      encode_equality plain_decimal (Object [(''k'', Number ''10.0'')]) = Inr b \<and>
      (a = b \<longleftrightarrow> vcmp plain_decimal (Object [(''k'', Number ''10'')]) (Object [(''k'', Number ''10.0'')]) = Equal))"
proof -
  let ?v = "Object [(''k'', Number ''10'')]" and ?w = "Object [(''k'', Number ''10.0'')]"
  have ok: "value_ok ?v" "value_ok ?w" by simp_all
  have "parse plain_decimal ''10'' = Inr \<lparr>negative = False, digits = ''1'', exponent = 2\<rparr>"
    "parse plain_decimal ''10.0'' = Inr \<lparr>negative = False, digits = ''1'', exponent = 2\<rparr>" by code_simp+
  then obtain a b where ab: "encode_equality plain_decimal ?v = Inr a" "encode_equality plain_decimal ?w = Inr b"
    by (simp add: encode_equality_def)
  show ?thesis using raw_numbers_plain ab encode_equality_exact[OF raw_numbers_plain ok ab] by blast
qed

lemma dec_norm_eq_iff: "dec_norm a \<Longrightarrow> dec_norm b \<Longrightarrow> dec_val a = dec_val b \<longleftrightarrow> a = b"
proof
  assume ab: "dec_norm a" "dec_norm b" and v: "dec_val a = dec_val b"
  have code: "number_code a = number_code b" using number_code.code_eq_iff[OF ab] v by simp
  have shape: "d = d' \<longleftrightarrow> negative d = negative d' \<and> digits d = digits d' \<and> exponent d = exponent d'"
    for d d' :: decimal by (cases d; cases d') auto
  have part: "part_code p = part_code q \<Longrightarrow> p = q" if "part_norm p" "part_norm q" for p q
    using part.code_eq_iff[of p q] that by (auto simp: part_norm_def part_cmp_def prod_eq_iff)
  have inj: "inj (NOT :: u8 \<Rightarrow> u8)" by (auto intro: injI)
  show "a = b"
    using ab(1)
  proof (cases a rule: dec_norm_cases)
    case zero
    from ab(2) show ?thesis
      by (cases b rule: dec_norm_cases) (use zero code ab in \<open>auto simp: dec_norm_def shape\<close>)
  next
    case (pos p)
    note P = pos
    from ab(2) show ?thesis
    proof (cases b rule: dec_norm_cases)
      case (pos q)
      then show ?thesis using code part[OF P(1) pos(1)] P by (auto simp: shape)
    qed (use pos code in auto)
  next
    case (neg p)
    note P = neg
    from ab(2) show ?thesis
    proof (cases b rule: dec_norm_cases)
      case (neg q)
      then show ?thesis using code part[OF P(1) neg(1)] P inj by (auto simp: shape inj_map_eq_map)
    qed (use neg code in auto)
  qed
qed simp

lemma canonical_number_same:
  assumes "raw_numbers rv" "canonical_number rv s = Inr a" "canonical_number rv t = Inr b"
  shows "a = b \<longleftrightarrow> num_of rv s = num_of rv t"
proof -
  obtain m n where mn: "parse rv s = Inr m" "parse rv t = Inr n" "canonical m = Inr a" "canonical n = Inr b"
    using assms(2,3) by (auto simp: canonical_number_def)
  have norm: "dec_norm m" "dec_norm n" using parse_norm[OF assms(1)] mn by auto
  show ?thesis using canonical_inj[OF norm mn(3,4)] dec_norm_eq_iff[OF norm] mn(1,2) by (simp add: num_of_def)
qed

text \<open>\<open>canonical_number\<close> gives one spelling to all spellings of a number and different spellings to
  different numbers: two accepted tokens have the same canonical text exactly when they denote
  the same value.\<close>

theorem canonical_number_unique:
  assumes "raw_numbers rv" "canonical_number rv s = Inr a" "canonical_number rv t = Inr b"
  shows "a = b \<longleftrightarrow> num_of rv s = num_of rv t"
  using assms by (rule canonical_number_same)

theorem canonical_number_unique_witness:
  "raw_numbers plain_decimal \<and> canonical_number plain_decimal ''-0.250'' = Inr ''-25e-2'' \<and>
   canonical_number plain_decimal ''-00.25'' = Inr ''-25e-2'' \<and>
   num_of plain_decimal ''-0.250'' = num_of plain_decimal ''-00.25''"
proof -
  have c: "canonical_number plain_decimal ''-0.250'' = Inr ''-25e-2''"
    "canonical_number plain_decimal ''-00.25'' = Inr ''-25e-2''" by code_simp+
  show ?thesis using c raw_numbers_plain canonical_number_unique[OF raw_numbers_plain c] by simp
qed

end
