(* ===== verification/Query_Sum.thy ===== *)
theory Query_Sum
  imports Fields_Codec
begin

text \<open>
  Exact decimal sums (\<^verbatim>\<open>src/query/sum.rs\<close>): an accumulator of base-ten digits, least significant
  first, with a sign and a power of ten. The specification is addition of the rational numbers
  the tokens denote.
\<close>

definition MAX_SUM_DIGITS :: nat where "MAX_SUM_DIGITS = 4096"
definition MAX_SUM_EXPONENT :: int where "MAX_SUM_EXPONENT = 4096"

datatype sum_result = SumInteger int | SumDecimal string

record accumulator =
  a_digits :: "nat list"
  a_negative :: bool
  a_power :: int
  a_fractional :: bool

definition acc_default :: accumulator where
  "acc_default = \<lparr>a_digits = [], a_negative = False, a_power = 0, a_fractional = False\<rparr>"

text \<open>The two digit loops; \<open>right\<close> is read as zero past its end.\<close>

fun add_loop :: "nat list \<Rightarrow> nat list \<Rightarrow> nat \<Rightarrow> nat list \<times> nat" where
  "add_loop [] right carry = ([], carry)"
| "add_loop (d # ds) right carry =
     (let n = d + (case right of [] \<Rightarrow> 0 | r # _ \<Rightarrow> r) + carry;
          (out, c) = add_loop ds (tl right) (n div 10)
      in (n mod 10 # out, c))"

fun sub_loop :: "nat list \<Rightarrow> nat list \<Rightarrow> int \<Rightarrow> nat list \<times> int" where
  "sub_loop [] right borrow = ([], borrow)"
| "sub_loop (d # ds) right borrow =
     (let n = int d - int (case right of [] \<Rightarrow> 0 | r # _ \<Rightarrow> r) - borrow;
          (out, b) = sub_loop ds (tl right) (if n < 0 then 1 else 0)
      in ((if n < 0 then nat (n + 10) else nat n) # out, b))"

definition resize :: "nat \<Rightarrow> nat list \<Rightarrow> nat list" where
  "resize n xs = take n xs @ replicate (n - length xs) 0"

text \<open>The body of the same-sign and of the opposite-sign branch.\<close>

definition add_magnitudes :: "nat list \<Rightarrow> nat list \<Rightarrow> nat list" where
  "add_magnitudes left right =
     (let (out, carry) = add_loop (resize (max (length left) (length right)) left) right 0
      in if carry > 0 then out @ [carry] else out)"

definition magnitude_order :: "nat list \<Rightarrow> nat list \<Rightarrow> ordering" where
  "magnitude_order left right =
     then_with (ord_cmp (length left) (length right)) (bcmp (rev left) (rev right))"

definition strip :: "nat list \<Rightarrow> int \<Rightarrow> nat list \<times> int" where
  "strip ds pw =
     (let ds = rev (dropWhile (\<lambda>d. d = 0) (rev ds));
          zeros = length (takeWhile (\<lambda>d. d = 0) ds)
      in (drop zeros ds, pw + int zeros))"

definition acc_add :: "(string \<Rightarrow> string option) \<Rightarrow> accumulator \<Rightarrow> string \<Rightarrow> accumulator res" where
  "acc_add rv acc token =
     rbind (parse rv token) (\<lambda>v.
     if digits v = [] then Inr acc else
     rbind (ok_or DecimalSumLimit (checked_i128 (exponent v - int (length (digits v))))) (\<lambda>power.
     if \<not> (- MAX_SUM_EXPONENT \<le> power \<and> power \<le> MAX_SUM_EXPONENT) \<or> length (digits v) > MAX_SUM_DIGITS
     then Inl DecimalSumLimit else
     let fractional = (a_fractional acc \<or> power < 0);
         right = map digit_val (rev (digits v))
     in if a_digits acc = []
        then Inr \<lparr>a_digits = right, a_negative = negative v, a_power = power, a_fractional = fractional\<rparr>
        else
     let common = min (a_power acc) power;
         left_padding = nat (a_power acc - common);
         right_padding = nat (power - common)
     in if max (length (a_digits acc) + left_padding) (length right + right_padding) > MAX_SUM_DIGITS
        then Inl DecimalSumLimit else
     let left = replicate left_padding 0 @ a_digits acc;
         right = replicate right_padding 0 @ right;
         (ds, neg) =
           (if a_negative acc = negative v then (add_magnitudes left right, a_negative acc)
            else if magnitude_order left right = Less
            then (fst (sub_loop right left 0), negative v)
            else (fst (sub_loop left right 0), a_negative acc));
         (ds, pw) = strip ds common
     in if length ds > MAX_SUM_DIGITS then Inl DecimalSumLimit
        else Inr \<lparr>a_digits = ds, a_negative = neg, a_power = pw, a_fractional = fractional\<rparr>))"

definition acc_token :: "accumulator \<Rightarrow> string" where
  "acc_token acc = (if a_negative acc then ''-'' else '''') @
     map (\<lambda>d. char_of (48 + d)) (rev (a_digits acc)) @ ''e'' @ show_int (a_power acc)"

definition acc_finish :: "(string \<Rightarrow> string option) \<Rightarrow> accumulator \<Rightarrow> sum_result res" where
  "acc_finish rv acc =
     (if a_digits acc = []
      then Inr (if a_fractional acc then SumDecimal ''0'' else SumInteger 0)
      else if \<not> (- MAX_SUM_EXPONENT \<le> a_power acc \<and> a_power acc \<le> MAX_SUM_EXPONENT) then Inl DecimalSumLimit
      else if a_fractional acc
      then rbind (canonical_number rv (acc_token acc)) (\<lambda>s. Inr (SumDecimal s))
      else rbind (codec_integer rv (acc_token acc)) (\<lambda>n. Inr (SumInteger n)))"

section \<open>The value of an accumulator\<close>

fun lval :: "nat list \<Rightarrow> nat" where
  "lval [] = 0"
| "lval (d # ds) = d + 10 * lval ds"

definition acc_val :: "accumulator \<Rightarrow> rat" where
  "acc_val acc = (if a_negative acc then - 1 else 1) * of_nat (lval (a_digits acc)) * 10 powi (a_power acc)"

definition acc_ok :: "accumulator \<Rightarrow> bool" where
  "acc_ok acc \<longleftrightarrow> list_all (\<lambda>d. d \<le> 9) (a_digits acc) \<and> (a_digits acc \<noteq> [] \<longrightarrow> last (a_digits acc) \<noteq> 0)"

lemma lval_append: "lval (xs @ ys) = lval xs + 10 ^ length xs * lval ys"
  by (induction xs) (simp_all add: algebra_simps)

lemma lval_zeros [simp]: "lval (replicate n 0) = 0"
  by (induction n) auto

lemma lval_less: "list_all (\<lambda>d. d \<le> 9) ds \<Longrightarrow> lval ds < 10 ^ length ds"
  by (induction ds) auto

lemma lval_ge: "ds \<noteq> [] \<Longrightarrow> last ds \<noteq> 0 \<Longrightarrow> 10 ^ (length ds - 1) \<le> lval ds"
proof (induction ds rule: rev_induct)
  case (snoc x xs)
  then have "(10 :: nat) ^ length xs \<le> 10 ^ length xs * x" by simp
  then show ?case by (simp add: lval_append trans_le_add2)
qed simp

lemma lval_split: "lval ds = (case ds of [] \<Rightarrow> 0 | d # _ \<Rightarrow> d) + 10 * lval (tl ds)"
  by (cases ds) auto

lemma add_loop_val:
  assumes "length right \<le> length ds" "add_loop ds right carry = (out, c)"
  shows "length out = length ds \<and> lval out + 10 ^ length ds * c = lval ds + lval right + carry"
  using assms
proof (induction ds right carry arbitrary: out c rule: add_loop.induct)
  case (2 d ds right carry)
  define n where "n = d + (case right of [] \<Rightarrow> 0 | r # _ \<Rightarrow> r) + carry"
  obtain out' where o: "add_loop ds (tl right) (n div 10) = (out', c)" "out = n mod 10 # out'"
    using "2.prems"(2) by (auto simp: n_def Let_def split: prod.splits)
  have tl: "length (tl right) \<le> length ds" using "2.prems"(1) by (cases right) auto
  have IH: "length out' = length ds" "lval out' + 10 ^ length ds * c = lval ds + lval (tl right) + n div 10"
    using "2.IH"[OF n_def tl o(1)] by blast+
  have "lval out + 10 ^ Suc (length ds) * c = n mod 10 + 10 * (lval out' + 10 ^ length ds * c)"
    by (simp add: o(2))
  also have "\<dots> = n + 10 * lval ds + 10 * lval (tl right)"
  proof -
    have "m + 10 * (a + b + q) = (m + 10 * q) + 10 * a + 10 * b" for m a b q :: nat by simp
    then show ?thesis unfolding IH(2) by (metis mod_mult_div_eq)
  qed
  finally show ?case using IH(1) o(2) lval_split[of right] by (simp add: n_def)
qed auto

lemma add_loop_digits: "add_loop ds right carry = (out, c) \<Longrightarrow> list_all (\<lambda>d. d \<le> 9) out"
proof (induction ds right carry arbitrary: out c rule: add_loop.induct)
  case (2 d ds right carry)
  then show ?case by (auto simp: Let_def split: prod.splits)
qed auto

lemma add_loop_carry:
  "list_all (\<lambda>d. d \<le> 9) ds \<Longrightarrow> list_all (\<lambda>d. d \<le> 9) right \<Longrightarrow> carry \<le> 1 \<Longrightarrow>
    add_loop ds right carry = (out, c) \<Longrightarrow> c \<le> 1"
proof (induction ds right carry arbitrary: out c rule: add_loop.induct)
  case (2 d ds right carry)
  define n where "n = d + (case right of [] \<Rightarrow> 0 | r # _ \<Rightarrow> r) + carry"
  have "n \<le> 19" using "2.prems"(1-3) by (cases right) (auto simp: n_def)
  then have "n div 10 \<le> 1" by simp
  moreover have "list_all (\<lambda>d. d \<le> 9) (tl right)" using "2.prems"(2) by (cases right) auto
  moreover obtain out' where "add_loop ds (tl right) (n div 10) = (out', c)"
    using "2.prems"(4) by (auto simp: n_def Let_def split: prod.splits)
  ultimately show ?case using "2.IH"[OF n_def] "2.prems"(1) by auto
qed auto

lemma resize_max: "resize (max (length xs) n) xs = xs @ replicate (n - length xs) 0"
  by (simp add: resize_def max_def)

lemma add_magnitudes_val: "lval (add_magnitudes left right) = lval left + lval right"
proof -
  obtain out c where oc: "add_loop (resize (max (length left) (length right)) left) right 0 = (out, c)"
    by fastforce
  have len: "length (resize (max (length left) (length right)) left) = max (length left) (length right)"
    by (simp add: resize_max)
  have "lval out + 10 ^ length out * c = lval left + lval right"
    using add_loop_val[OF _ oc] len by (auto simp: resize_max lval_append)
  then show ?thesis using oc by (cases "c = 0") (simp_all add: add_magnitudes_def lval_append)
qed

lemma add_magnitudes_digits:
  assumes "list_all (\<lambda>d. d \<le> 9) left" "list_all (\<lambda>d. d \<le> 9) right"
  shows "list_all (\<lambda>d. d \<le> 9) (add_magnitudes left right)"
proof -
  obtain out c where oc: "add_loop (resize (max (length left) (length right)) left) right 0 = (out, c)"
    by fastforce
  have "list_all (\<lambda>d. d \<le> 9) (resize (max (length left) (length right)) left)"
    using assms(1) by (auto simp: resize_max list_all_iff)
  then have "c \<le> 1" using add_loop_carry[OF _ assms(2) _ oc] by simp
  then show ?thesis using oc add_loop_digits[OF oc] by (simp add: add_magnitudes_def)
qed

lemma sub_loop_val:
  assumes "length right \<le> length ds" "list_all (\<lambda>d. d \<le> 9) ds" "list_all (\<lambda>d. d \<le> 9) right"
    "b = 0 \<or> b = 1" "sub_loop ds right b = (out, b')"
  shows "length out = length ds \<and> list_all (\<lambda>d. d \<le> 9) out \<and> (b' = 0 \<or> b' = 1) \<and>
    int (lval out) - 10 ^ length ds * b' = int (lval ds) - int (lval right) - b"
  using assms
proof (induction ds right b arbitrary: out b' rule: sub_loop.induct)
  case (2 d ds right b)
  define n where "n = int d - int (case right of [] \<Rightarrow> 0 | r # _ \<Rightarrow> r) - b"
  define m where "m = (if n < 0 then nat (n + 10) else nat n)"
  obtain out' where o: "sub_loop ds (tl right) (if n < 0 then 1 else 0) = (out', b')" "out = m # out'"
    using "2.prems"(5) by (auto simp: n_def m_def Let_def split: prod.splits)
  have n: "- 10 \<le> n" "n \<le> 9"
    using "2.prems"(2-4) by (cases right; auto simp: n_def)+
  have tl: "length (tl right) \<le> length ds" "list_all (\<lambda>d. d \<le> 9) (tl right)"
    using "2.prems"(1,3) by (cases right; auto)+
  have IH: "length out' = length ds" "list_all (\<lambda>d. d \<le> 9) out'" "b' = 0 \<or> b' = 1"
    "int (lval out') - 10 ^ length ds * b' = int (lval ds) - int (lval (tl right)) - (if n < 0 then 1 else 0)"
    using "2.IH"[OF n_def tl(1) _ tl(2) _ o(1)] "2.prems"(2) by auto
  have m: "int m = n + 10 * (if n < 0 then 1 else 0)" "m \<le> 9" using n by (auto simp: m_def)
  have "int (lval out) - 10 ^ Suc (length ds) * b' = int m + 10 * (int (lval out') - 10 ^ length ds * b')"
    by (simp add: o(2))
  also have "\<dots> = n + 10 * int (lval ds) - 10 * int (lval (tl right))"
    unfolding IH(4) m(1) by (simp add: algebra_simps)
  finally show ?case using IH(1-3) m(2) o(2) lval_split[of right] by (simp add: n_def)
qed auto

lemma bcmp_rev_lval:
  "length l = length r \<Longrightarrow> list_all (\<lambda>d. d \<le> 9) l \<Longrightarrow> list_all (\<lambda>d. d \<le> 9) r \<Longrightarrow>
    bcmp (rev l) (rev r) = ord_cmp (lval l) (lval r)"
proof (induction l r rule: list_induct2)
  case (Cons x xs y ys)
  have "ord_cmp (x + 10 * lval xs) (y + 10 * lval ys) = then_with (ord_cmp (lval xs) (lval ys)) (ord_cmp x y)"
    using Cons.prems by (cases "lval xs" "lval ys" rule: linorder_cases) (auto simp: ord_cmp_def)
  with Cons show ?case by (simp add: bcmp_append_same_length)
qed simp

lemma lval_shorter:
  assumes "length l < length r" "list_all (\<lambda>d. d \<le> 9) l" "last r \<noteq> 0"
  shows "lval l < lval r"
proof -
  have "lval l < 10 ^ length l" using lval_less[OF assms(2)] .
  also have "\<dots> \<le> 10 ^ (length r - 1)" using assms(1) by (intro power_increasing) auto
  also have "\<dots> \<le> lval r" using assms by (intro lval_ge) auto
  finally show ?thesis .
qed

lemma magnitude_order_val:
  assumes "list_all (\<lambda>d. d \<le> 9) l" "list_all (\<lambda>d. d \<le> 9) r" "l \<noteq> [] \<Longrightarrow> last l \<noteq> 0" "r \<noteq> [] \<Longrightarrow> last r \<noteq> 0"
  shows "magnitude_order l r = ord_cmp (lval l) (lval r)"
proof (cases "length l" "length r" rule: linorder_cases)
  case less
  then have "r \<noteq> []" by auto
  with less have "lval l < lval r" using assms by (intro lval_shorter) auto
  with less show ?thesis by (simp add: magnitude_order_def ord_cmp_def)
next
  case equal
  then show ?thesis using bcmp_rev_lval[OF equal assms(1,2)] by (simp add: magnitude_order_def)
next
  case greater
  then have "l \<noteq> []" by auto
  with greater have "lval r < lval l" using assms by (intro lval_shorter) auto
  with greater show ?thesis by (simp add: magnitude_order_def ord_cmp_def)
qed

lemma sub_loop_exact:
  assumes "length r \<le> length l" "list_all (\<lambda>d. d \<le> 9) l" "list_all (\<lambda>d. d \<le> 9) r" "lval r \<le> lval l"
  shows "list_all (\<lambda>d. d \<le> 9) (fst (sub_loop l r 0)) \<and> lval (fst (sub_loop l r 0)) = lval l - lval r"
proof -
  obtain out b where o: "sub_loop l r 0 = (out, b)" by fastforce
  have f: "length out = length l" "list_all (\<lambda>d. d \<le> 9) out" "b = 0 \<or> b = 1"
    "int (lval out) - 10 ^ length l * b = int (lval l) - int (lval r)"
    using sub_loop_val[OF assms(1-3) _ o] by auto
  have "b = 0"
  proof (rule ccontr)
    assume "b \<noteq> 0"
    with f(3,4) have "int (lval out) - 10 ^ length l = int (lval l) - int (lval r)" by simp
    moreover have "int (lval out) < 10 ^ length l" using lval_less[OF f(2)] f(1) by (simp flip: of_nat_power_less_of_nat_cancel_iff add: of_nat_less_iff[symmetric] del: of_nat_less_iff)
    ultimately show False using assms(4) by simp
  qed
  with f(2,4) o assms(4) show ?thesis by simp
qed

lemma dropWhile_zero_lval: "lval ds = 10 ^ length (takeWhile (\<lambda>d. d = 0) ds) * lval (dropWhile (\<lambda>d. d = 0) ds)"
  by (induction ds) auto

lemma lval_strip_end: "lval (rev (dropWhile (\<lambda>d. d = 0) (rev ds))) = lval ds"
  by (induction ds rule: rev_induct) (auto simp: lval_append)

lemma strip_exact:
  assumes "strip ds pw = (ds', pw')" "list_all (\<lambda>d. d \<le> 9) ds"
  shows "(of_nat (lval ds') :: rat) * 10 powi pw' = of_nat (lval ds) * 10 powi pw \<and>
    list_all (\<lambda>d. d \<le> 9) ds' \<and> (ds' \<noteq> [] \<longrightarrow> last ds' \<noteq> 0)"
proof -
  define es where "es = rev (dropWhile (\<lambda>d. d = 0) (rev ds))"
  define k where "k = length (takeWhile (\<lambda>d. d = 0) es)"
  have e: "ds' = drop k es" "pw' = pw + int k"
    using assms(1) by (auto simp: strip_def es_def k_def Let_def)
  have d: "ds' = dropWhile (\<lambda>d. d = 0) es" by (simp add: e(1) k_def dropWhile_eq_drop)
  have "lval ds = 10 ^ k * lval ds'"
    using dropWhile_zero_lval[of es] lval_strip_end[of ds] by (simp add: es_def k_def d)
  then have "(of_nat (lval ds') :: rat) * 10 powi pw' = of_nat (lval ds) * 10 powi pw"
    by (simp add: e(2) power_int_add)
  moreover have "list_all (\<lambda>d. d \<le> 9) ds'"
    using assms(2) by (auto simp: d es_def list_all_iff dest!: set_dropWhileD)
  moreover have "ds' \<noteq> [] \<longrightarrow> last ds' \<noteq> 0"
  proof
    assume n: "ds' \<noteq> []"
    then have "es \<noteq> []" by (auto simp: d)
    then have "dropWhile (\<lambda>d. d = 0) (rev ds) \<noteq> []" by (simp add: es_def)
    then have "last es \<noteq> 0" using hd_dropWhile[of "\<lambda>d. d = 0" "rev ds"] by (simp add: es_def last_rev)
    moreover have "last ds' = last es" using n by (simp add: e(1) last_drop)
    ultimately show "last ds' \<noteq> 0" by simp
  qed
  ultimately show ?thesis by blast
qed

lemma lval_digits: "lval (map digit_val (rev ds)) = nat_of_digits ds"
  by (induction ds rule: rev_induct) (simp_all add: nat_of_digits_def)

lemma powi_ten: "(10 :: rat) ^ n * 10 powi m = 10 powi (int n + m)"
  by (simp add: power_int_add)

lemma dec_val_lval:
  assumes "digits d \<noteq> []"
  shows "dec_val d = (if negative d then - 1 else 1) * of_nat (lval (map digit_val (rev (digits d)))) *
    10 powi (exponent d - int (length (digits d)))"
proof -
  have "of_nat (lval (map digit_val (rev (digits d)))) = dfrac (digits d) * 10 powi int (length (digits d))"
    by (simp only: lval_digits nat_of_digits_frac power_int_of_nat)
  then have "(of_nat (lval (map digit_val (rev (digits d)))) :: rat) * 10 powi (exponent d - int (length (digits d)))
      = dfrac (digits d) * (10 powi int (length (digits d)) * 10 powi (exponent d - int (length (digits d))))"
    by simp
  also have "\<dots> = dfrac (digits d) * 10 powi (exponent d)" by (simp add: powi_ten)
  finally show ?thesis by (simp add: dec_val_def)
qed

text \<open>Padding on the low side moves a number to a smaller power of ten.\<close>

lemma pad_low:
  assumes "c \<le> p"
  shows "(of_nat (lval (replicate (nat (p - c)) 0 @ ds)) :: rat) * 10 powi c = of_nat (lval ds) * 10 powi p"
proof -
  have "(of_nat (lval (replicate (nat (p - c)) 0 @ ds)) :: rat) * 10 powi c =
      of_nat (lval ds) * (10 ^ nat (p - c) * 10 powi c)"
    by (simp add: lval_append)
  also have "\<dots> = of_nat (lval ds) * 10 powi p" using assms by (simp add: powi_ten)
  finally show ?thesis .
qed

section \<open>Adding keeps the exact sum\<close>

abbreviation sgn_of :: "bool \<Rightarrow> rat" where
  "sgn_of neg \<equiv> (if neg then - 1 else 1)"

definition digits_ok :: "nat list \<Rightarrow> bool" where
  "digits_ok ds \<longleftrightarrow> list_all (\<lambda>d. d \<le> 9) ds \<and> (ds \<noteq> [] \<longrightarrow> last ds \<noteq> 0)"

lemma combine_exact:
  assumes "digits_ok l" "digits_ok r"
    and "(ds, neg) = (if nl = nr then (add_magnitudes l r, nl)
      else if magnitude_order l r = Less then (fst (sub_loop r l 0), nr) else (fst (sub_loop l r 0), nl))"
  shows "list_all (\<lambda>d. d \<le> 9) ds \<and>
    sgn_of neg * of_nat (lval ds) = sgn_of nl * of_nat (lval l) + sgn_of nr * of_nat (lval r)"
proof -
  have lr: "list_all (\<lambda>d. d \<le> 9) l" "list_all (\<lambda>d. d \<le> 9) r" using assms(1,2) by (simp_all add: digits_ok_def)
  have m: "magnitude_order l r = ord_cmp (lval l) (lval r)"
    using assms(1,2) by (intro magnitude_order_val) (auto simp: digits_ok_def)
  consider (same) "nl = nr" | (less) "nl \<noteq> nr" "lval l < lval r" | (ge) "nl \<noteq> nr" "lval r \<le> lval l" by force
  then show ?thesis
  proof cases
    case same
    then show ?thesis using assms(3) add_magnitudes_val[of l r] add_magnitudes_digits[OF lr]
      by (simp add: algebra_simps)
  next
    case less
    then have len: "length l \<le> length r"
      using m by (auto simp: magnitude_order_def ord_cmp_def split: if_splits)
    have "list_all (\<lambda>d. d \<le> 9) (fst (sub_loop r l 0))" "lval (fst (sub_loop r l 0)) = lval r - lval l"
      using sub_loop_exact[OF len lr(2,1)] less(2) by auto
    moreover have "ds = fst (sub_loop r l 0)" "neg = nr" using assms(3) less by (simp_all add: m)
    ultimately show ?thesis using less by (simp add: of_nat_diff)
  next
    case ge
    then have len: "length r \<le> length l"
      using m by (auto simp: magnitude_order_def ord_cmp_def split: if_splits)
    have "list_all (\<lambda>d. d \<le> 9) (fst (sub_loop l r 0))" "lval (fst (sub_loop l r 0)) = lval l - lval r"
      using sub_loop_exact[OF len lr(1,2)] ge(2) by auto
    moreover have "ds = fst (sub_loop l r 0)" "neg = nl" using assms(3) ge by (simp_all add: m)
    ultimately show ?thesis using ge by (simp add: of_nat_diff)
  qed
qed

lemma digits_ok_pad: "digits_ok ds \<Longrightarrow> ds \<noteq> [] \<Longrightarrow> digits_ok (replicate n 0 @ ds)"
  by (auto simp: digits_ok_def list_all_iff)

lemma decimal_digits_ok:
  assumes "dec_norm d" "digits d \<noteq> []"
  shows "digits_ok (map digit_val (rev (digits d)))"
proof -
  have a: "all_digits (digits d)" and h: "hd (digits d) \<noteq> CHR ''0''"
    using assms by (auto simp: dec_norm_def)
  have "is_digit (hd (digits d))" using a assms(2) by (cases "digits d") auto
  then have "digit_val (hd (digits d)) \<noteq> 0" using h digit_val_0 by blast
  moreover have "list_all (\<lambda>x. x \<le> 9) (map digit_val (rev (digits d)))"
    using a digit_val_le by (auto simp: all_digits_def list_all_iff)
  ultimately show ?thesis using assms(2) by (simp add: digits_ok_def last_map last_rev)
qed

text \<open>A normal decimal is an integer exactly when its power of ten is not negative.\<close>

lemma dec_integral:
  assumes "dec_norm d" "digits d \<noteq> []"
  shows "dec_val d \<in> \<int> \<longleftrightarrow> 0 \<le> exponent d - int (length (digits d))"
proof
  let ?n = "lval (map digit_val (rev (digits d)))" and ?p = "exponent d - int (length (digits d))"
  have v: "dec_val d = sgn_of (negative d) * of_nat ?n * 10 powi ?p" using dec_val_lval[OF assms(2)] .
  assume "0 \<le> ?p"
  then have "(10 :: rat) powi ?p = of_int (10 ^ nat ?p)" by (simp add: power_int_def)
  then have "dec_val d = of_int ((if negative d then - 1 else 1) * int ?n * 10 ^ nat ?p)" by (simp add: v)
  then show "dec_val d \<in> \<int>" by (metis Ints_of_int)
next
  let ?n = "lval (map digit_val (rev (digits d)))" and ?p = "exponent d - int (length (digits d))"
  have v: "dec_val d = sgn_of (negative d) * of_nat ?n * 10 powi ?p" using dec_val_lval[OF assms(2)] .
  assume "dec_val d \<in> \<int>"
  then obtain z where z: "dec_val d = of_int z" by (auto elim: Ints_cases)
  show "0 \<le> ?p"
  proof (rule ccontr)
    assume "\<not> 0 \<le> ?p"
    then obtain k where k: "?p = - int (Suc k)" by (metis int_ops(4) negD not_le)
    have "(10 :: rat) powi ?p = 1 / 10 ^ Suc k"
      by (simp only: k power_int_minus power_int_of_nat divide_inverse mult_1)
    then have "of_int z = sgn_of (negative d) * of_nat ?n / 10 ^ Suc k" using z v by simp
    then have "of_int z * (10 :: rat) ^ Suc k = sgn_of (negative d) * of_nat ?n"
      by (simp add: eq_divide_eq)
    then have "(of_int (z * 10 ^ Suc k) :: rat) = of_int ((if negative d then - 1 else 1) * int ?n)" by simp
    then have "z * 10 ^ Suc k = (if negative d then - 1 else 1) * int ?n" by (simp only: of_int_eq_iff)
    then have "int ?n = (if negative d then - z else z) * 10 ^ k * 10" by (auto split: if_splits)
    then have "10 dvd int ?n" by (metis dvd_triv_right)
    then have "10 dvd ?n" by (metis int_dvd_int_iff of_nat_numeral)
    moreover obtain b c where bc: "digits d = b @ [c]" using assms(2) by (metis rev_exhaust)
    ultimately have "10 dvd digit_val c + 10 * lval (map digit_val (rev b))" by simp
    then have "10 dvd digit_val c" by (simp add: dvd_add_left_iff)
    moreover have "is_digit c" "c \<noteq> CHR ''0''" using assms bc by (auto simp: dec_norm_def)
    ultimately show False using digit_val_0[of c] digit_val_le[of c] by auto
  qed
qed

lemma acc_ok_digits: "acc_ok acc \<longleftrightarrow> digits_ok (a_digits acc)"
  by (simp add: acc_ok_def digits_ok_def)

lemma acc_add_exact:
  assumes rv: "raw_numbers rv" and ok: "acc_ok acc" and add: "acc_add rv acc token = Inr acc'"
  shows "acc_ok acc' \<and> acc_val acc' = acc_val acc + num_of rv token \<and>
    (a_fractional acc' \<longleftrightarrow> a_fractional acc \<or> num_of rv token \<notin> \<int>)"
proof -
  obtain v where v: "parse rv token = Inr v" using add by (auto simp: acc_add_def)
  have norm: "dec_norm v" using parse_norm[OF rv v] .
  have num: "num_of rv token = dec_val v" using v by (simp add: num_of_def)
  show ?thesis
  proof (cases "digits v = []")
    case True
    then show ?thesis using add v ok num by (simp add: acc_add_def dec_val_def)
  next
    case False
    define pw where "pw = exponent v - int (length (digits v))"
    define right where "right = map digit_val (rev (digits v))"
    have val: "dec_val v = sgn_of (negative v) * of_nat (lval right) * 10 powi pw"
      using dec_val_lval[OF False] by (simp add: pw_def right_def)
    have rok: "digits_ok right" "right \<noteq> []"
      using decimal_digits_ok[OF norm False] False by (auto simp: right_def)
    have integral: "num_of rv token \<notin> \<int> \<longleftrightarrow> pw < 0"
      using dec_integral[OF norm False] by (auto simp: num pw_def)
    show ?thesis
    proof (cases "a_digits acc = []")
      case True
      have "acc' = \<lparr>a_digits = right, a_negative = negative v, a_power = pw,
          a_fractional = a_fractional acc \<or> pw < 0\<rparr>"
        using add v False True by (auto simp: acc_add_def pw_def right_def Let_def split: if_splits)
      then show ?thesis using True rok val num integral
        by (simp add: acc_ok_digits acc_val_def)
    next
      case acc: False
      define c where "c = min (a_power acc) pw"
      define L where "L = replicate (nat (a_power acc - c)) 0 @ a_digits acc"
      define R where "R = replicate (nat (pw - c)) 0 @ right"
      obtain ds neg where dn: "(ds, neg) = (if a_negative acc = negative v then (add_magnitudes L R, a_negative acc)
          else if magnitude_order L R = Less then (fst (sub_loop R L 0), negative v)
          else (fst (sub_loop L R 0), a_negative acc))" by (metis surj_pair)
      obtain ds' pw' where st: "strip ds c = (ds', pw')" by fastforce
      have acc': "acc' = \<lparr>a_digits = ds', a_negative = neg, a_power = pw',
          a_fractional = a_fractional acc \<or> pw < 0\<rparr>"
        using add v False acc st
        unfolding acc_add_def pw_def[symmetric] right_def[symmetric]
        by (auto simp: pw_def[symmetric] right_def[symmetric] c_def[symmetric] L_def[symmetric]
            R_def[symmetric] dn[symmetric] Let_def split: if_splits)
      have lr: "digits_ok L" "digits_ok R"
        using digits_ok_pad rok ok acc by (auto simp: L_def R_def acc_ok_digits)
      note comb = combine_exact[OF lr dn]
      note strip = strip_exact[OF st comb[THEN conjunct1]]
      have "acc_val acc' = sgn_of neg * (of_nat (lval ds') * 10 powi pw')"
        by (simp add: acc' acc_val_def)
      also have "\<dots> = (sgn_of neg * of_nat (lval ds)) * 10 powi c" using strip by simp
      also have "\<dots> = sgn_of (a_negative acc) * (of_nat (lval L) * 10 powi c) +
          sgn_of (negative v) * (of_nat (lval R) * 10 powi c)"
        unfolding comb[THEN conjunct2] by (simp add: algebra_simps)
      also have "of_nat (lval L) * 10 powi c = of_nat (lval (a_digits acc)) * (10 :: rat) powi (a_power acc)"
        unfolding L_def by (rule pad_low) (simp add: c_def)
      also have "of_nat (lval R) * 10 powi c = of_nat (lval right) * (10 :: rat) powi pw"
        unfolding R_def by (rule pad_low) (simp add: c_def)
      finally have "acc_val acc' = acc_val acc + num_of rv token"
        by (simp add: acc_val_def num val)
      moreover have "acc_ok acc'" using strip by (simp add: acc' acc_ok_def)
      ultimately show ?thesis using integral acc' by simp
    qed
  qed
qed

section \<open>Printing the sum\<close>

text \<open>
  What \<open>finish\<close> relies on beside \<open>raw_numbers\<close>: a number text in the strict form of JSON (no leading
  zero, no empty fraction) is accepted as it is.
\<close>

definition raw_accepts :: "(string \<Rightarrow> string option) \<Rightarrow> bool" where
  "raw_accepts rv \<longleftrightarrow> (\<forall>neg ip fp ex. num_wf ip fp ex \<longrightarrow> (ip = ''0'' \<or> hd ip \<noteq> CHR ''0'') \<longrightarrow> fp \<noteq> Some '''' \<longrightarrow>
     rv (num_text neg ip fp ex) = Some (num_text neg ip fp ex))"

lemma raw_accepts_plain: "raw_accepts plain_decimal"
  by (simp add: raw_accepts_def plain_decimal_num_text)

lemma show_int_exp: "exp_text (show_int p) \<and> exp_val (Some (c, show_int p)) = p"
proof (cases "p < 0")
  case True
  then show ?thesis using show_nat_digits[of "nat (- p)"] by (simp add: show_int_def exp_text_def exp_val_def)
next
  case False
  obtain d ds where d: "show_nat (nat p) = d # ds" "is_digit d"
    using show_nat_digits[of "nat p"] by (cases "show_nat (nat p)") auto
  then have "d \<noteq> CHR ''-''" "d \<noteq> CHR ''+''" by auto
  then show ?thesis using False d show_nat_digits[of "nat p"]
    by (auto simp: show_int_def exp_text_def exp_val_def Let_def)
qed

lemma parse_scientific:
  assumes "raw_accepts rv" "all_digits ds" "ds \<noteq> []" "hd ds \<noteq> CHR ''0''"
    and "i128_ok p" "i128_ok (p + int (length ds))"
  shows "parse rv ((if neg then ''-'' else '''') @ ds @ ''e'' @ show_int p) =
    Inr \<lparr>negative = neg, digits = trim_matches0 ds, exponent = p + int (length ds)\<rparr>"
proof -
  let ?ex = "Some (CHR ''e'', show_int p)"
  have wf: "num_wf ds None ?ex" using assms(2,3) show_int_exp by (auto simp: num_wf_def)
  have txt_eq: "(if neg then ''-'' else '''') @ ds @ ''e'' @ show_int p = num_text neg ds None ?ex"
    by (simp add: num_text_def)
  have r: "rv (num_text neg ds None ?ex) = Some (num_text neg ds None ?ex)"
    using assms(1,4) wf by (simp add: raw_accepts_def)
  have t: "trim_start0 ds = ds" using assms(3,4) by (cases ds) (auto simp: trim_start0_def)
  then have "parse_exp ds None ?ex = Some (p + int (length ds))"
    using assms(5,6) by (simp add: parse_exp_def frac_part_def show_int_exp checked_i128_def)
  moreover have "trim_matches0 ds \<noteq> []"
  proof
    assume "trim_matches0 ds = []"
    then have "\<forall>c \<in> set ds. c = CHR ''0''" using t by (simp add: trim_matches0_def trim_end0_def)
    with assms(3,4) show False by auto
  qed
  ultimately show ?thesis
    unfolding txt_eq using parse_num_text[where rv = rv, OF wf r] by (simp add: frac_part_def Let_def)
qed

lemma canonical_parse:
  assumes "raw_accepts rv" "dec_norm d" "digits d \<noteq> []" "canonical d = Inr s"
  shows "parse rv s = Inr d"
proof -
  let ?p = "exponent d - int (length (digits d))"
  have s: "s = (if negative d then ''-'' else '''') @ digits d @ ''e'' @ show_int ?p" "i128_ok ?p"
    using assms(3,4) by (auto simp: canonical_def)
  have n: "all_digits (digits d)" "hd (digits d) \<noteq> CHR ''0''" "last (digits d) \<noteq> CHR ''0''" "i128_ok (exponent d)"
    using assms(2,3) by (auto simp: dec_norm_def)
  have "hd (rev (digits d)) \<noteq> CHR ''0''" using n(3) by (simp add: hd_rev)
  then have "trim_end0 (digits d) = digits d"
    unfolding trim_end0_def by (subst dropWhile_eq_self_iff[THEN iffD2]) auto
  moreover have "trim_start0 (digits d) = digits d"
    unfolding trim_start0_def using n(2) by (subst dropWhile_eq_self_iff) auto
  ultimately have "trim_matches0 (digits d) = digits d" by (simp add: trim_matches0_def)
  then show ?thesis
    using parse_scientific[OF assms(1) n(1) assms(3) n(2) s(2)] n(4) s(1) by simp
qed

text \<open>The canonical spelling of a number parses back to the number it was printed from.\<close>

theorem canonical_roundtrip:
  assumes "raw_accepts rv" "dec_norm d" "digits d \<noteq> []" "canonical d = Inr s"
  shows "parse rv s = Inr d"
  using assms by (rule canonical_parse)

theorem canonical_roundtrip_witness:
  "raw_accepts plain_decimal \<and> dec_norm \<lparr>negative = True, digits = ''25'', exponent = 1\<rparr> \<and>
   canonical \<lparr>negative = True, digits = ''25'', exponent = 1\<rparr> = Inr ''-25e-1'' \<and>
   parse plain_decimal ''-25e-1'' = Inr \<lparr>negative = True, digits = ''25'', exponent = 1\<rparr>"
proof -
  let ?d = "\<lparr>negative = True, digits = ''25'', exponent = 1\<rparr> :: decimal"
  have n: "dec_norm ?d" by code_simp
  have c: "canonical ?d = Inr ''-25e-1''" by code_simp
  show ?thesis using n c raw_accepts_plain canonical_roundtrip[OF raw_accepts_plain n _ c] by simp
qed

lemma canonical_number_value:
  assumes "raw_numbers rv" "raw_accepts rv" "canonical_number rv t = Inr s" "num_of rv t \<noteq> 0"
  shows "num_of rv s = num_of rv t"
proof -
  obtain d where d: "parse rv t = Inr d" "canonical d = Inr s" using assms(3) by (auto simp: canonical_number_def)
  have "digits d \<noteq> []" using assms(4) d(1) by (auto simp: num_of_def dec_val_def)
  then show ?thesis
    using canonical_parse[OF assms(2) parse_norm[OF assms(1) d(1)] _ d(2)] d(1) by (simp add: num_of_def)
qed

lemma nat_of_digits_zeros: "nat_of_digits (ds @ replicate k CHR ''0'') = nat_of_digits ds * 10 ^ k"
proof (induction k)
  case (Suc k)
  have "ds @ replicate (Suc k) CHR ''0'' = (ds @ replicate k CHR ''0'') @ [CHR ''0'']"
    by (simp add: replicate_append_same)
  then have "nat_of_digits (ds @ replicate (Suc k) CHR ''0'') = nat_of_digits (ds @ replicate k CHR ''0'') * 10"
    by (simp only: nat_of_digits_snoc) (simp add: digit_val_def)
  with Suc show ?case by simp
qed simp

lemma parse_i128_signed:
  assumes "ds \<noteq> []" "all_digits ds"
  shows "parse_i128 ((if neg then ''-'' else '''') @ ds) = checked_i128 ((if neg then - 1 else 1) * int (nat_of_digits ds))"
proof -
  obtain c cs where c: "ds = c # cs" "is_digit c" using assms by (cases ds) auto
  then have "c \<noteq> CHR ''-''" "c \<noteq> CHR ''+''" by auto
  with c assms show ?thesis by (simp add: parse_i128_def Let_def)
qed

lemma codec_integer_value:
  assumes "raw_numbers rv" "codec_integer rv t = Inr v"
  shows "of_int v = num_of rv t"
proof -
  obtain d where d: "parse rv t = Inr d" using assms(2) by (auto simp: codec_integer_def)
  have norm: "dec_norm d" using parse_norm[OF assms(1) d] .
  show ?thesis
  proof (cases "digits d = []")
    case True
    then show ?thesis using assms(2) d by (simp add: codec_integer_def num_of_def dec_val_def)
  next
    case False
    define p where "p = exponent d - int (length (digits d))"
    have p: "0 \<le> p" and i: "parse_i128 ((if negative d then ''-'' else '''') @ (digits d @ replicate (nat p) CHR ''0'')) = Some v"
      using assms(2) d False by (auto simp: codec_integer_def p_def split: if_splits)
    have "all_digits (digits d @ replicate (nat p) CHR ''0'')"
      using norm by (auto simp: dec_norm_def all_digits_def list_all_iff is_digit_def)
    then have v: "v = (if negative d then - 1 else 1) * int (nat_of_digits (digits d) * 10 ^ nat p)"
      using i parse_i128_signed[of "digits d @ replicate (nat p) CHR ''0''"] False
      by (simp add: nat_of_digits_zeros)
    have pp: "(10 :: rat) powi p = 10 ^ nat p" using p by (simp add: power_int_def)
    have "num_of rv t = sgn_of (negative d) * of_nat (nat_of_digits (digits d)) * 10 powi p"
      using d dec_val_lval[OF False] by (simp add: num_of_def lval_digits p_def)
    then show ?thesis by (simp add: v pp)
  qed
qed

definition sum_val :: "(string \<Rightarrow> string option) \<Rightarrow> sum_result \<Rightarrow> rat" where
  "sum_val rv s = (case s of SumInteger n \<Rightarrow> of_int n | SumDecimal t \<Rightarrow> num_of rv t)"

lemma digit_text: "d \<le> 9 \<Longrightarrow> is_digit (char_of (48 + d)) \<and> digit_val (char_of (48 + d)) = d"
  by (simp add: is_digit_def digit_val_def)

lemma acc_token_value:
  assumes "raw_accepts rv" "acc_ok acc" "a_digits acc \<noteq> []" "i128_ok (a_power acc)"
    "i128_ok (a_power acc + int (length (a_digits acc)))"
  shows "num_of rv (acc_token acc) = acc_val acc"
proof -
  define ds where "ds = map (\<lambda>d. char_of (48 + d) :: char) (rev (a_digits acc))"
  have dig: "all_digits ds" "ds \<noteq> []" "length ds = length (a_digits acc)"
    using assms(2,3) digit_text by (auto simp: ds_def all_digits_def list_all_iff acc_ok_def)
  have rev: "map digit_val (rev ds) = a_digits acc"
    using assms(2) digit_text by (auto simp: ds_def rev_map acc_ok_def list_all_iff intro!: map_idI)
  have "last (a_digits acc) \<noteq> 0" "last (a_digits acc) \<le> 9"
    using assms(2,3) by (auto simp: acc_ok_def list_all_iff)
  moreover have "hd ds = char_of (48 + last (a_digits acc))" using assms(3) by (simp add: ds_def hd_map hd_rev)
  ultimately have hd: "hd ds \<noteq> CHR ''0''" by (metis digit_text digit_val_0)
  let ?d = "\<lparr>negative = a_negative acc, digits = trim_matches0 ds, exponent = a_power acc + int (length ds)\<rparr>"
  have p: "parse rv (acc_token acc) = Inr ?d"
    using parse_scientific[OF assms(1) dig(1,2) hd assms(4)] assms(5) dig(3)
    by (simp add: acc_token_def ds_def[symmetric])
  have "trim_start0 ds = ds" using hd dig(2) by (cases ds) (auto simp: trim_start0_def)
  then have "dfrac (trim_matches0 ds) = dfrac ds" by (simp add: trim_matches0_def)
  then have "dec_val ?d = sgn_of (a_negative acc) * (dfrac ds * 10 ^ length ds) * 10 powi (a_power acc)"
    by (simp add: dec_val_def powi_ten add.commute)
  also have "dfrac ds * 10 ^ length ds = of_nat (lval (a_digits acc))"
    using lval_digits[of ds] rev by (simp flip: nat_of_digits_frac)
  finally show ?thesis using p by (simp add: num_of_def acc_val_def)
qed

lemma i128_small: "\<bar>v\<bar> \<le> 10000 \<Longrightarrow> i128_ok v"
  by (auto simp: i128_ok_def)

lemma acc_finish_exact:
  assumes "raw_numbers rv" "raw_accepts rv" "acc_ok acc" "length (a_digits acc) \<le> MAX_SUM_DIGITS"
    "acc_finish rv acc = Inr s"
  shows "sum_val rv s = acc_val acc \<and> ((\<exists>n. s = SumInteger n) \<longleftrightarrow> \<not> a_fractional acc)"
proof (cases "a_digits acc = []")
  case True
  have "parse rv ''0'' = Inr \<lparr>negative = False, digits = [], exponent = 0\<rparr>"
  proof -
    have wf: "num_wf ''0'' None None" by code_simp
    have r: "rv (num_text False ''0'' None None) = Some (num_text False ''0'' None None)"
      using assms(2) wf by (simp add: raw_accepts_def)
    have "parse_exp ''0'' None None = Some 0" "trim_matches0 (''0'' @ frac_part None) = []" by code_simp+
    then show ?thesis using parse_num_text[where rv = rv, OF wf r] by (simp add: num_text_def Let_def)
  qed
  then have "num_of rv ''0'' = 0" by (simp add: num_of_def dec_val_def)
  then show ?thesis using True assms(5) by (auto simp: acc_finish_def sum_val_def acc_val_def)
next
  case False
  have b: "\<bar>a_power acc\<bar> \<le> 4096" using assms(5) False
    by (auto simp: acc_finish_def MAX_SUM_EXPONENT_def split: if_splits)
  have val: "num_of rv (acc_token acc) = acc_val acc"
    using b assms(4) by (intro acc_token_value[OF assms(2,3) False] i128_small) (auto simp: MAX_SUM_DIGITS_def)
  have nz: "acc_val acc \<noteq> 0"
  proof -
    have "10 ^ (length (a_digits acc) - 1) \<le> lval (a_digits acc)"
      using assms(3) False by (intro lval_ge) (auto simp: acc_ok_def)
    then have "0 < lval (a_digits acc)" by (metis gr0I not_le zero_less_numeral zero_less_power)
    then show ?thesis by (simp add: acc_val_def)
  qed
  show ?thesis
  proof (cases "a_fractional acc")
    case True
    then obtain t where "canonical_number rv (acc_token acc) = Inr t" "s = SumDecimal t"
      using assms(5) False by (auto simp: acc_finish_def split: if_splits)
    then show ?thesis using canonical_number_value[OF assms(1,2)] val nz True by (simp add: sum_val_def)
  next
    case f: False
    then obtain n where "codec_integer rv (acc_token acc) = Inr n" "s = SumInteger n"
      using assms(5) False by (auto simp: acc_finish_def split: if_splits)
    then show ?thesis using codec_integer_value[OF assms(1)] val f by (simp add: sum_val_def)
  qed
qed

lemma acc_add_length:
  assumes "acc_add rv acc token = Inr acc'" "length (a_digits acc) \<le> MAX_SUM_DIGITS"
  shows "length (a_digits acc') \<le> MAX_SUM_DIGITS"
  using assms by (auto simp: acc_add_def Let_def split: if_splits prod.splits)

lemma acc_fold_exact:
  assumes "raw_numbers rv" "foldM (acc_add rv) acc tokens = Inr acc'" "acc_ok acc"
    "length (a_digits acc) \<le> MAX_SUM_DIGITS"
  shows "acc_ok acc' \<and> length (a_digits acc') \<le> MAX_SUM_DIGITS \<and>
    acc_val acc' = acc_val acc + sum_list (map (num_of rv) tokens) \<and>
    (a_fractional acc' \<longleftrightarrow> a_fractional acc \<or> (\<exists>t \<in> set tokens. num_of rv t \<notin> \<int>))"
  using assms(2-4)
proof (induction tokens arbitrary: acc)
  case (Cons t ts)
  then obtain mid where m: "acc_add rv acc t = Inr mid" "foldM (acc_add rv) mid ts = Inr acc'" by auto
  note e = acc_add_exact[OF assms(1) Cons.prems(2) m(1)]
  have "length (a_digits mid) \<le> MAX_SUM_DIGITS" using acc_add_length[OF m(1)] Cons.prems(3) .
  from Cons.IH[OF m(2) e[THEN conjunct1] this] e show ?case by auto
qed auto

text \<open>C16. \<open>sum\<close> is exact. Adding any number tokens one by one and finishing gives, whenever no limit is hit,
  a result whose value is exactly the sum of the numbers the tokens denote; the result is an integer
  exactly when every token denotes an integer.\<close>

theorem sum_exact:
  assumes "raw_numbers rv" "raw_accepts rv" "foldM (acc_add rv) acc_default tokens = Inr acc"
    "acc_finish rv acc = Inr s"
  shows "sum_val rv s = sum_list (map (num_of rv) tokens) \<and>
    ((\<exists>n. s = SumInteger n) \<longleftrightarrow> (\<forall>t \<in> set tokens. num_of rv t \<in> \<int>))"
proof -
  have "acc_ok acc_default" "length (a_digits acc_default) \<le> MAX_SUM_DIGITS" "acc_val acc_default = 0"
    "\<not> a_fractional acc_default"
    by (simp_all add: acc_default_def acc_ok_def acc_val_def)
  then show ?thesis
    using acc_fold_exact[OF assms(1,3)] acc_finish_exact[OF assms(1,2) _ _ assms(4)] by auto
qed

theorem sum_exact_witness:
  "raw_numbers plain_decimal \<and> raw_accepts plain_decimal \<and>
   (\<exists>acc. foldM (acc_add plain_decimal) acc_default [''0.1'', ''-20'', ''0.2''] = Inr acc \<and>
     acc_finish plain_decimal acc = Inr (SumDecimal ''-197e-1'') \<and>
     sum_val plain_decimal (SumDecimal ''-197e-1'') = sum_list (map (num_of plain_decimal) [''0.1'', ''-20'', ''0.2'']))"
proof -
  let ?acc = "\<lparr>a_digits = [7, 9, 1], a_negative = True, a_power = - 1, a_fractional = True\<rparr>"
  have f: "foldM (acc_add plain_decimal) acc_default [''0.1'', ''-20'', ''0.2''] = Inr ?acc" by code_simp
  have g: "acc_finish plain_decimal ?acc = Inr (SumDecimal ''-197e-1'')" by code_simp
  show ?thesis using f g raw_numbers_plain raw_accepts_plain
      sum_exact[OF raw_numbers_plain raw_accepts_plain f g] by blast
qed

end
