(* ===== verification/Ordered_Map.thy ===== *)
theory Ordered_Map
  imports Clove_Prelude
begin

text \<open>
  Tables of the database file and ordered maps of Rust. A redb table, as a \<open>BTreeMap\<close>, is an
  ordered map; the model keeps it as the list of its rows in key order. The locale \<open>ordered_map\<close>
  states the laws the rest of the development uses; it is interpreted on that list.
\<close>

type_synonym ('k, 'v) table = "('k \<times> 'v) list"

fun tbl_get :: "('k::linorder, 'v) table \<Rightarrow> 'k \<Rightarrow> 'v option" where
  "tbl_get [] k = None"
| "tbl_get ((a, v) # t) k = (if k = a then Some v else if k < a then None else tbl_get t k)"

fun tbl_insert :: "('k::linorder, 'v) table \<Rightarrow> 'k \<Rightarrow> 'v \<Rightarrow> ('k, 'v) table" where
  "tbl_insert [] k v = [(k, v)]"
| "tbl_insert ((a, w) # t) k v =
     (if k < a then (k, v) # (a, w) # t
      else if k = a then (k, v) # t
      else (a, w) # tbl_insert t k v)"

fun tbl_remove :: "('k::linorder, 'v) table \<Rightarrow> 'k \<Rightarrow> ('k, 'v) table" where
  "tbl_remove [] k = []"
| "tbl_remove ((a, w) # t) k =
     (if k < a then (a, w) # t else if k = a then t else (a, w) # tbl_remove t k)"

definition tbl_ok :: "('k::linorder, 'v) table \<Rightarrow> bool" where
  "tbl_ok t \<longleftrightarrow> sorted_wrt (<) (map fst t)"

text \<open>The rows after a bound, and the rows a \<open>retain\<close> keeps.\<close>

definition tbl_after :: "('k::linorder, 'v) table \<Rightarrow> 'k \<Rightarrow> ('k, 'v) table" where
  "tbl_after t k = filter (\<lambda>(a, _). k < a) t"

definition tbl_insert_all :: "('k::linorder, 'v) table \<Rightarrow> ('k \<times> 'v) list \<Rightarrow> ('k, 'v) table" where
  "tbl_insert_all t kvs = foldl (\<lambda>t (k, v). tbl_insert t k v) t kvs"

section \<open>The laws\<close>

locale ordered_map =
  fixes ok :: "'t \<Rightarrow> bool"
    and empty :: 't
    and get :: "'t \<Rightarrow> 'k::linorder \<Rightarrow> 'v option"
    and ins :: "'t \<Rightarrow> 'k \<Rightarrow> 'v \<Rightarrow> 't"
    and del :: "'t \<Rightarrow> 'k \<Rightarrow> 't"
    and rows :: "'t \<Rightarrow> ('k \<times> 'v) list"
  assumes ok_empty: "ok empty"
    and ok_ins: "ok t \<Longrightarrow> ok (ins t k v)"
    and ok_del: "ok t \<Longrightarrow> ok (del t k)"
    and rows_empty: "rows empty = []"
    and get_ins: "ok t \<Longrightarrow> get (ins t k v) a = (if a = k then Some v else get t a)"
    and get_del: "ok t \<Longrightarrow> get (del t k) a = (if a = k then None else get t a)"
    and get_rows: "ok t \<Longrightarrow> get t k = Some v \<longleftrightarrow> (k, v) \<in> set (rows t)"
    and rows_sorted: "ok t \<Longrightarrow> sorted_wrt (<) (map fst (rows t))"
begin

lemma rows_distinct: "ok t \<Longrightarrow> distinct (map fst (rows t))"
  using rows_sorted strict_sorted_iff by blast

lemma get_None: "ok t \<Longrightarrow> get t k = None \<longleftrightarrow> k \<notin> fst ` set (rows t)"
  using get_rows[of t k] by (cases "get t k") force+

lemma rows_unique: "ok t \<Longrightarrow> (k, v) \<in> set (rows t) \<Longrightarrow> (k, w) \<in> set (rows t) \<Longrightarrow> v = w"
  by (metis get_rows option.inject)

lemma rows_ins: "ok t \<Longrightarrow> set (rows (ins t k v)) = insert (k, v) {r \<in> set (rows t). fst r \<noteq> k}"
  by (auto simp: get_rows[symmetric] ok_ins get_ins split: if_splits)

lemma rows_del: "ok t \<Longrightarrow> set (rows (del t k)) = {r \<in> set (rows t). fst r \<noteq> k}"
  by (auto simp: get_rows[symmetric] ok_del get_del split: if_splits)

text \<open>Two maps with the same lookups have the same rows, in the same order.\<close>

lemma rows_eqI:
  assumes "ok t" "ok u" "\<And>k. get t k = get u k"
  shows "rows t = rows u"
proof -
  have s: "set (rows t) = set (rows u)"
    using get_rows[OF assms(1)] get_rows[OF assms(2)] assms(3) by auto
  have "map fst (rows t) = map fst (rows u)"
    using rows_sorted[OF assms(1)] rows_sorted[OF assms(2)] s
    by (intro sorted_distinct_set_unique) (auto simp: strict_sorted_iff)
  then show ?thesis
    using s rows_distinct[OF assms(1)] rows_distinct[OF assms(2)]
    by (metis distinct_map inj_on_map_eq_map sup.idem)
qed

end

section \<open>The laws hold of sorted row lists\<close>

lemma tbl_ok_Cons: "tbl_ok ((a, v) # t) \<longleftrightarrow> tbl_ok t \<and> (\<forall>(b, _) \<in> set t. a < b)"
  by (auto simp: tbl_ok_def)

lemma tbl_ok_Nil [simp]: "tbl_ok []"
  by (simp add: tbl_ok_def)

lemma set_tbl_insert: "tbl_ok t \<Longrightarrow> set (tbl_insert t k v) = insert (k, v) {r \<in> set t. fst r \<noteq> k}"
  by (induction t k v rule: tbl_insert.induct) (auto simp: tbl_ok_Cons)

lemma set_tbl_remove: "tbl_ok t \<Longrightarrow> set (tbl_remove t k) = {r \<in> set t. fst r \<noteq> k}"
  by (induction t k rule: tbl_remove.induct) (auto simp: tbl_ok_Cons)

lemma tbl_ok_insert: "tbl_ok t \<Longrightarrow> tbl_ok (tbl_insert t k v)"
  by (induction t k v rule: tbl_insert.induct) (auto simp: tbl_ok_Cons set_tbl_insert)

lemma tbl_ok_remove: "tbl_ok t \<Longrightarrow> tbl_ok (tbl_remove t k)"
  by (induction t k rule: tbl_remove.induct) (auto simp: tbl_ok_Cons set_tbl_remove)

lemma tbl_get_iff: "tbl_ok t \<Longrightarrow> tbl_get t k = Some v \<longleftrightarrow> (k, v) \<in> set t"
  by (induction t k rule: tbl_get.induct) (auto simp: tbl_ok_Cons)

lemma tbl_get_insert: "tbl_ok t \<Longrightarrow> tbl_get (tbl_insert t k v) a = (if a = k then Some v else tbl_get t a)"
proof -
  assume t: "tbl_ok t"
  have "tbl_get (tbl_insert t k v) a = Some w \<longleftrightarrow> (if a = k then Some v else tbl_get t a) = Some w" for w
    using t by (auto simp: tbl_get_iff tbl_ok_insert set_tbl_insert)
  then show ?thesis by (metis option.exhaust)
qed

lemma tbl_get_remove: "tbl_ok t \<Longrightarrow> tbl_get (tbl_remove t k) a = (if a = k then None else tbl_get t a)"
proof -
  assume t: "tbl_ok t"
  have "tbl_get (tbl_remove t k) a = Some w \<longleftrightarrow> (if a = k then None else tbl_get t a) = Some w" for w
    using t by (auto simp: tbl_get_iff tbl_ok_remove set_tbl_remove)
  then show ?thesis by (metis option.exhaust)
qed

interpretation tbl: ordered_map tbl_ok "[]" tbl_get tbl_insert tbl_remove "\<lambda>t. t"
  by unfold_locales
    (auto simp: tbl_ok_insert tbl_ok_remove tbl_get_insert tbl_get_remove tbl_get_iff tbl_ok_def[symmetric])

lemmas tbl_laws [simp] = tbl.ok_ins tbl.ok_del tbl.get_ins tbl.get_del

lemma tbl_ok_insert_all: "tbl_ok t \<Longrightarrow> tbl_ok (tbl_insert_all t kvs)"
  by (induction kvs arbitrary: t) (auto simp: tbl_insert_all_def)

lemma tbl_get_insert_all:
  "tbl_ok t \<Longrightarrow> tbl_get (tbl_insert_all t kvs) k =
    (case map_of (rev kvs) k of Some v \<Rightarrow> Some v | None \<Rightarrow> tbl_get t k)"
proof (induction kvs rule: rev_induct)
  case (snoc kv kvs)
  obtain a v where "kv = (a, v)" by (cases kv)
  with snoc tbl_ok_insert_all[OF snoc.prems, of kvs] show ?case by (simp add: tbl_insert_all_def)
qed (simp add: tbl_insert_all_def)

lemma tbl_ok_filter: "tbl_ok t \<Longrightarrow> tbl_ok (filter P t)"
  by (induction t) (auto simp: tbl_ok_Cons)

lemma tbl_get_filter:
  assumes "tbl_ok t"
  shows "tbl_get (filter P t) k =
    (case tbl_get t k of Some v \<Rightarrow> if P (k, v) then Some v else None | None \<Rightarrow> None)"
proof -
  have f: "tbl_get (filter P t) k = Some w \<longleftrightarrow> tbl_get t k = Some w \<and> P (k, w)" for w
    using assms by (auto simp: tbl_get_iff tbl_ok_filter)
  show ?thesis
  proof (cases "tbl_get (filter P t) k")
    case None
    then have "\<And>w. \<not> (tbl_get t k = Some w \<and> P (k, w))" using f by simp
    with None show ?thesis by (simp split: option.split)
  next
    case (Some w)
    with f[of w] show ?thesis by simp
  qed
qed

lemma tbl_ok_append:
  "tbl_ok (t @ u) \<longleftrightarrow> tbl_ok t \<and> tbl_ok u \<and> (\<forall>r \<in> set t. \<forall>q \<in> set u. fst r < fst q)"
  by (auto simp: tbl_ok_def sorted_wrt_append)

lemma tbl_insert_last: "tbl_ok t \<Longrightarrow> \<forall>(a, _) \<in> set t. a < k \<Longrightarrow> tbl_insert t k v = t @ [(k, v)]"
  by (induction t k v rule: tbl_insert.induct) (auto simp: tbl_ok_Cons)

lemma map_of_tbl:
  assumes "tbl_ok t"
  shows "map_of t k = tbl_get t k"
proof -
  have "map_of t k = Some v \<longleftrightarrow> tbl_get t k = Some v" for v
    using assms tbl.rows_distinct[OF assms] by (simp add: tbl_get_iff map_of_eq_Some_iff)
  then show ?thesis by (metis option.exhaust)
qed

end
