(* ===== verification/Fields_Extract.thy ===== *)
theory Fields_Extract
  imports Fields_Codec Ordered_Map
begin

text \<open>
  Reading a field out of stored JSON (\<^verbatim>\<open>src/fields/extract.rs\<close>, \<^verbatim>\<open>src/fields/transforms.rs\<close>, the
  temporal readings of \<^verbatim>\<open>src/fields/codec.rs\<close>) and the fingerprint of a predicate
  (\<^verbatim>\<open>src/fields/ast.rs\<close>). JSON syntax belongs to \<open>serde_json\<close>, dates to \<open>chrono\<close> and the Unicode
  tables to the standard library: they are the fields of \<open>ext\<close>.
\<close>

section \<open>The outside\<close>

text \<open>
  A valid JSON text, as \<open>serde_json\<close> sees it without decoding: a string or a key whose escapes do
  not decode (a lone surrogate) is \<open>None\<close>, a number is its token.
\<close>

datatype raw = RNull | RBool bool | RNumber string | RString "string option"
  | RArray "raw list" | RObject "(string option \<times> raw) list"

record ext =
  from_slice :: "bytes \<Rightarrow> raw option"
  raw_token :: "string \<Rightarrow> string option"
  to_json :: "string \<Rightarrow> bytes"
  parse_from_rfc3339 :: "string \<Rightarrow> (int \<times> int) option"
  date_from_str :: "string \<Rightarrow> int option"
  datetime_from_str :: "string \<Rightarrow> string \<Rightarrow> (int \<times> int) option"
  to_lowercase :: "string \<Rightarrow> string"
  is_alphanumeric :: "nat \<Rightarrow> bool"
  levenshtein :: "string \<Rightarrow> string \<Rightarrow> nat"
  expr_json :: "expr \<Rightarrow> bytes"

section \<open>Selective traversal\<close>

definition btree_map :: "(string \<times> 'a) list \<Rightarrow> (string \<times> 'a) list" where
  "btree_map kvs = tbl_insert_all [] kvs"

definition raw_keys :: "(string option \<times> raw) list \<Rightarrow> (string \<times> raw) list res" where
  "raw_keys fs = mapM (\<lambda>kv. rbind (ok_or Serialization (fst kv)) (\<lambda>k. Inr (k, snd kv))) fs"

lemma set_btree_map: "set (btree_map kvs) \<subseteq> set kvs"
proof -
  have "(k, v) \<in> set kvs" if "(k, v) \<in> set (btree_map kvs)" for k v
  proof -
    have "tbl_get (btree_map kvs) k = Some v"
      using that by (simp add: btree_map_def tbl_get_iff tbl_ok_insert_all)
    then have "map_of (rev kvs) k = Some v"
      by (simp add: btree_map_def tbl_get_insert_all split: option.splits)
    then show ?thesis by (auto dest: map_of_SomeD)
  qed
  then show ?thesis by auto
qed

lemma raw_keys_Inr: "raw_keys fs = Inr kvs \<longleftrightarrow> fs = map (\<lambda>(k, v). (Some k, v)) kvs"
proof (induction fs arbitrary: kvs)
  case (Cons f fs)
  have "raw_keys (f # fs) = Inr kvs \<longleftrightarrow>
      (\<exists>k ys. fst f = Some k \<and> raw_keys fs = Inr ys \<and> kvs = (k, snd f) # ys)"
    by (auto simp: raw_keys_def)
  then show ?case using Cons by (cases f) auto
qed (auto simp: raw_keys_def)

function (sequential) materialize :: "raw \<Rightarrow> value res" where
  "materialize RNull = Inr Null"
| "materialize (RBool b) = Inr (Bool b)"
| "materialize (RNumber t) = Inr (Number t)"
| "materialize (RString s) = rbind (ok_or Serialization s) (\<lambda>s. Inr (String s))"
| "materialize (RArray rs) = rbind (mapM materialize rs) (\<lambda>vs. Inr (Array vs))"
| "materialize (RObject fs) = rbind (raw_keys fs) (\<lambda>kvs.
     rbind (mapM (\<lambda>kv. rbind (materialize (snd kv)) (\<lambda>v. Inr (fst kv, v))) (btree_map kvs))
       (\<lambda>os. Inr (Object os)))"
  by pat_completeness auto
termination
proof (relation "measure size")
  fix fs kvs kv
  assume "raw_keys fs = Inr kvs" "kv \<in> set (btree_map kvs)"
  then have "(Some (fst kv), snd kv) \<in> set fs"
    using set_btree_map[of kvs] by (force simp: raw_keys_Inr)
  then show "(snd kv, RObject fs) \<in> measure size"
    by (induction fs) auto
qed (auto simp: less_Suc_eq_le size_list_estimation')

text \<open>The visitors \<open>Key\<close> and \<open>Index\<close>: the last occurrence of a key, the element at an index.\<close>

definition key_visit :: "string \<Rightarrow> (string option \<times> raw) list \<Rightarrow> raw option res" where
  "key_visit k fs = foldM (\<lambda>found kv. rbind (ok_or Serialization (fst kv))
     (\<lambda>key. Inr (if key = k then Some (snd kv) else found))) None fs"

definition index_visit :: "nat \<Rightarrow> raw list \<Rightarrow> raw option" where
  "index_visit i rs = (if i < length rs then Some (rs ! i) else None)"

fun select :: "raw \<Rightarrow> step list \<Rightarrow> value res" where
  "select r [] = materialize r"
| "select r (first # rest) = (case (first, r) of
      (SKey k, RObject fs) \<Rightarrow> rbind (key_visit k fs)
        (\<lambda>found. case found of Some v \<Rightarrow> select v rest | None \<Rightarrow> Inr Missing)
    | (SIndex i, RArray rs) \<Rightarrow> (case index_visit i rs of Some v \<Rightarrow> select v rest | None \<Rightarrow> Inr Missing)
    | (SAny, RArray rs) \<Rightarrow> rbind (mapM (\<lambda>v. select v rest) rs) (\<lambda>vs. Inr (Array vs))
    | (SAll, RArray rs) \<Rightarrow> rbind (mapM (\<lambda>v. select v rest) rs) (\<lambda>vs. Inr (Array vs))
    | (SLength, RArray rs) \<Rightarrow> Inr (Number (show_nat (length rs)))
    | _ \<Rightarrow> Inr Missing)"

definition extract_value :: "ext \<Rightarrow> bytes \<Rightarrow> step list \<Rightarrow> value res" where
  "extract_value x bs path = rbind (ok_or Serialization (from_slice x bs)) (\<lambda>r. select r path)"

section \<open>Temporal readings\<close>

definition nanos :: "int \<times> int \<Rightarrow> int" where
  "nanos t = fst t * 1000000000 + snd t"

fun interpret_kind :: "ext \<Rightarrow> value_kind \<Rightarrow> value \<Rightarrow> value res" where
  "interpret_kind x kind Missing = Inr Missing"
| "interpret_kind x kind Null = Inr Null"
| "interpret_kind x kind (Time n) = Inr (Time n)"
| "interpret_kind x kind (Array vs) = (if kind = Auto then Inr (Array vs)
     else rbind (mapM (interpret_kind x kind) vs) (\<lambda>vs. Inr (Array vs)))"
| "interpret_kind x kind (Object os) = (if kind = Auto then Inr (Object os)
     else rbind (mapM (\<lambda>kv. rbind (interpret_kind x kind (snd kv)) (\<lambda>v. Inr (fst kv, v))) os)
       (\<lambda>os. Inr (Object os)))"
| "interpret_kind x kind v = (if kind = Auto then Inr v else
     rbind (case (kind, v) of
         (EpochSeconds, Number t) \<Rightarrow> rbind (parse (raw_token x) t) (\<lambda>d. integer_scaled d 9)
       | (EpochMillis, Number t) \<Rightarrow> rbind (parse (raw_token x) t) (\<lambda>d. integer_scaled d 6)
       | (DateTime, String s) \<Rightarrow>
           rbind (ok_or (Validation ''invalid RFC3339 datetime'') (parse_from_rfc3339 x s))
             (\<lambda>t. Inr (nanos t))
       | (Date, String s) \<Rightarrow>
           rbind (ok_or (Validation ''invalid date'') (date_from_str x s))
             (\<lambda>t. Inr (t * 1000000000))
       | (NaiveDateTime, String s) \<Rightarrow>
           rbind (ok_or (Validation ''invalid naive datetime'')
             (case datetime_from_str x ''%Y-%m-%dT%H:%M:%S%.f'' s of
               Some t \<Rightarrow> Some t
             | None \<Rightarrow> datetime_from_str x ''%Y-%m-%d %H:%M:%S%.f'' s))
             (\<lambda>t. Inr (nanos t))
       | _ \<Rightarrow> Inl (Validation ''value does not match declared temporal representation''))
       (\<lambda>t. Inr (Time t)))"

section \<open>Text transformations\<close>

text \<open>
  \<open>str::chars\<close> and the collection of \<open>char\<close>s into a \<open>String\<close>: the code points of a UTF-8 text.
\<close>

fun str_chars :: "string \<Rightarrow> nat list" where
  "str_chars [] = []"
| "str_chars (a # s) = (let x = of_char a; y = (\<lambda>c. of_char c mod 64) in
     if x < 128 then x # str_chars s
     else if x < 224 then (case s of b # t \<Rightarrow> ((x mod 32) * 64 + y b) # str_chars t | _ \<Rightarrow> [])
     else if x < 240 then
       (case s of b # c # t \<Rightarrow> ((x mod 16) * 4096 + y b * 64 + y c) # str_chars t | _ \<Rightarrow> [])
     else (case s of b # c # d # t \<Rightarrow>
         ((x mod 8) * 262144 + y b * 4096 + y c * 64 + y d) # str_chars t | _ \<Rightarrow> []))"

definition char_utf8 :: "nat \<Rightarrow> string" where
  "char_utf8 c = map char_of
     (if c < 128 then [c]
      else if c < 2048 then [192 + c div 64, 128 + c mod 64]
      else if c < 65536 then [224 + c div 4096, 128 + c div 64 mod 64, 128 + c mod 64]
      else [240 + c div 262144, 128 + c div 4096 mod 64, 128 + c div 64 mod 64, 128 + c mod 64])"

definition collect_chars :: "nat list \<Rightarrow> string" where
  "collect_chars cs = concat (map char_utf8 cs)"

definition is_whitespace :: "nat \<Rightarrow> bool" where
  "is_whitespace c \<longleftrightarrow> 9 \<le> c \<and> c \<le> 13 \<or> c \<in> {32, 133, 160, 5760} \<or> 8192 \<le> c \<and> c \<le> 8202
     \<or> c \<in> {8232, 8233, 8239, 8287, 12288}"

definition str_trim :: "string \<Rightarrow> string" where
  "str_trim s = collect_chars
     (rev (dropWhile is_whitespace (rev (dropWhile is_whitespace (str_chars s)))))"

definition normalize_arabic :: "nat \<Rightarrow> nat option" where
  "normalize_arabic c =
     (if c \<in> {0x623, 0x625, 0x622, 0x671} then Some 0x627
      else if c = 0x629 then Some 0x647
      else if c = 0x649 then Some 0x64A
      else if c = 0x624 then Some 0x648
      else if c = 0x626 then Some 0x64A
      else if 0x64B \<le> c \<and> c \<le> 0x652 \<or> c = 0x670 \<or> c = 0x640 then None
      else if 0x660 \<le> c \<and> c \<le> 0x669 then Some (0x30 + c - 0x660)
      else if 0x6F0 \<le> c \<and> c \<le> 0x6F9 then Some (0x30 + c - 0x6F0)
      else Some c)"

fun transform_text :: "ext \<Rightarrow> transform_kind \<Rightarrow> string \<Rightarrow> string" where
  "transform_text x Trim text = str_trim text"
| "transform_text x Lowercase text = to_lowercase x text"
| "transform_text x NormalizeArabic text =
     collect_chars (List.map_filter normalize_arabic (str_chars text))"

definition apply_one :: "ext \<Rightarrow> value \<Rightarrow> transform \<Rightarrow> value res" where
  "apply_one x v t =
     (if t_version t \<noteq> 1 then Inl (Validation ''unsupported text transformation version'')
      else case v of
        String s \<Rightarrow> Inr (String (transform_text x (t_kind t) s))
      | _ \<Rightarrow> Inl (Validation ''text transformation requires a string''))"

fun apply_transforms :: "ext \<Rightarrow> transform list \<Rightarrow> value \<Rightarrow> value res" where
  "apply_transforms x ts (Array vs) =
     (if ts = [] then Inr (Array vs)
      else rbind (mapM (apply_transforms x ts) vs) (\<lambda>vs. Inr (Array vs)))"
| "apply_transforms x ts v =
     (if ts = [] \<or> is_empty v then Inr v else foldM (apply_one x) v ts)"

definition path_value :: "ext \<Rightarrow> bytes \<Rightarrow> path \<Rightarrow> value res" where
  "path_value x bs p = rbind (extract_value x bs (p_steps p)) (\<lambda>v.
     rbind (interpret_kind x (p_kind p) v) (\<lambda>v. apply_transforms x (p_transforms p) v))"

definition field_extract :: "ext \<Rightarrow> field \<Rightarrow> bytes \<Rightarrow> value res" where
  "field_extract x f bs = rbind (extract_value x bs (steps f)) (\<lambda>v.
     rbind (interpret_kind x (f_kind f) v) (\<lambda>v. apply_transforms x (f_transforms f) v))"

section \<open>The fingerprint of a predicate\<close>

fun check_expr :: "expr \<Rightarrow> unit res" where
  "check_expr (Compare p cop vs) =
     (case cop of Fuzzy d \<Rightarrow> guard_ok (d \<le> 2) (Validation ''fuzzy distance exceeds 2'') | _ \<Rightarrow> Inr ())"
| "check_expr (Invalid v) = Inl (Validation v)"
| "check_expr (And a b) = rbind (check_expr a) (\<lambda>_. check_expr b)"
| "check_expr (Or a b) = rbind (check_expr a) (\<lambda>_. check_expr b)"
| "check_expr (Not a) = check_expr a"
| "check_expr (ElemMatch p a) = check_expr a"
| "check_expr _ = Inr ()"

fun canonical_value :: "ext \<Rightarrow> value \<Rightarrow> value res" where
  "canonical_value x (Number n) = rbind (canonical_number (raw_token x) n) (\<lambda>n. Inr (Number n))"
| "canonical_value x (Array a) = rbind (mapM (canonical_value x) a) (\<lambda>a. Inr (Array a))"
| "canonical_value x (Object os) =
     rbind (mapM (\<lambda>kv. rbind (canonical_value x (snd kv)) (\<lambda>v. Inr (fst kv, v))) os)
       (\<lambda>os. Inr (Object os))"
| "canonical_value x v = Inr v"

fun normalize_expr :: "ext \<Rightarrow> expr \<Rightarrow> expr res" where
  "normalize_expr x (Compare p cop vs) =
     rbind (mapM (\<lambda>v. rbind (interpret_kind x (p_kind p) v) (canonical_value x)) vs)
       (\<lambda>vs. Inr (Compare p cop vs))"
| "normalize_expr x (And a b) =
     rbind (normalize_expr x a) (\<lambda>a. rbind (normalize_expr x b) (\<lambda>b. Inr (And a b)))"
| "normalize_expr x (Or a b) =
     rbind (normalize_expr x a) (\<lambda>a. rbind (normalize_expr x b) (\<lambda>b. Inr (Or a b)))"
| "normalize_expr x (Not a) = rbind (normalize_expr x a) (\<lambda>a. Inr (Not a))"
| "normalize_expr x (ElemMatch p a) = rbind (normalize_expr x a) (\<lambda>a. Inr (ElemMatch p a))"
| "normalize_expr x e = Inr e"

definition fingerprint :: "ext \<Rightarrow> predicate \<Rightarrow> bytes res" where
  "fingerprint x p = rbind (check_expr (expression p)) (\<lambda>_.
     rbind (normalize_expr x (expression p)) (\<lambda>e. Inr ([1, VERSION] @ expr_json x e)))"

section \<open>Selection agrees with the value\<close>

text \<open>The meaning of a path on a whole value.\<close>

fun at_path :: "value \<Rightarrow> step list \<Rightarrow> value" where
  "at_path v [] = v"
| "at_path v (first # rest) = (case (first, v) of
      (SKey k, Object os) \<Rightarrow> (case map_of os k of Some w \<Rightarrow> at_path w rest | None \<Rightarrow> Missing)
    | (SIndex i, Array vs) \<Rightarrow> if i < length vs then at_path (vs ! i) rest else Missing
    | (SAny, Array vs) \<Rightarrow> Array (map (\<lambda>w. at_path w rest) vs)
    | (SAll, Array vs) \<Rightarrow> Array (map (\<lambda>w. at_path w rest) vs)
    | (SLength, Array vs) \<Rightarrow> Number (show_nat (length vs))
    | _ \<Rightarrow> Missing)"

lemma key_visit_last:
  "key_visit k (map (\<lambda>(k, v). (Some k, v)) kvs) = Inr (map_of (rev kvs) k)"
proof -
  have "foldM (\<lambda>found kv. rbind (ok_or Serialization (fst kv))
      (\<lambda>key. Inr (if key = k then Some (snd kv) else found))) found (map (\<lambda>(k, v). (Some k, v)) kvs) =
      (Inr (case map_of (rev kvs) k of None \<Rightarrow> found | Some v \<Rightarrow> Some v) :: raw option res)" for found
  proof (induction kvs arbitrary: found)
    case (Cons kv kvs)
    then show ?case by (cases kv) (auto simp: map_add_def split: option.splits)
  qed simp
  then show ?thesis unfolding key_visit_def by (simp add: option.case_eq_if)
qed

lemma tbl_ok_btree_map [simp]: "tbl_ok (btree_map kvs)"
  by (simp add: btree_map_def tbl_ok_insert_all)

lemma map_of_btree_map: "map_of (btree_map kvs) k = map_of (rev kvs) k"
  by (simp add: map_of_tbl) (simp add: btree_map_def tbl_get_insert_all option.case_eq_if)

lemma mapM_values:
  assumes "mapM (\<lambda>kv. rbind (f (snd kv)) (\<lambda>v. Inr (fst kv, v))) kvs = Inr os"
  shows "list_all2 (\<lambda>kv ov. fst kv = fst ov \<and> f (snd kv) = Inr (snd ov)) kvs os"
  using assms unfolding mapM_Inr_all2 by (elim list_all2_mono) auto

lemma map_of_all2:
  assumes "list_all2 (\<lambda>kv ov. fst kv = fst ov \<and> P (snd kv) (snd ov)) kvs os"
  shows "rel_option P (map_of kvs k) (map_of os k)"
  using assms by (induction rule: list_all2_induct) (auto split: prod.splits)

lemma select_materialize:
  "materialize r = Inr v \<Longrightarrow> select r path = Inr (at_path v path)"
proof (induction path arbitrary: r v)
  case (Cons first rest)
  show ?case
  proof (cases r)
    case (RArray rs)
    with Cons.prems obtain vs where vs: "list_all2 (\<lambda>x y. materialize x = Inr y) rs vs" "v = Array vs"
      by (auto simp: mapM_Inr_all2)
    have len: "length rs = length vs" using vs(1) by (rule list_all2_lengthD)
    have each: "mapM (\<lambda>v. select v rest) rs = Inr (map (\<lambda>w. at_path w rest) vs)"
      unfolding mapM_Inr_all2 list_all2_map2 using vs(1) by (rule list_all2_mono) (rule Cons.IH)
    have nth: "i < length vs \<Longrightarrow> select (rs ! i) rest = Inr (at_path (vs ! i) rest)" for i
      using Cons.IH list_all2_nthD2[OF vs(1)] by blast
    show ?thesis
      using RArray vs(2) len each nth by (cases first) (auto simp: index_visit_def)
  next
    case (RObject fs)
    with Cons.prems obtain kvs os where kvs: "raw_keys fs = Inr kvs"
      and os: "mapM (\<lambda>kv. rbind (materialize (snd kv)) (\<lambda>v. Inr (fst kv, v))) (btree_map kvs) = Inr os"
      and v: "v = Object os" by auto
    have visit: "key_visit k fs = Inr (map_of (rev kvs) k)" for k
      using kvs by (simp add: raw_keys_Inr key_visit_last)
    have rel: "rel_option (\<lambda>r v. materialize r = Inr v) (map_of (rev kvs) k) (map_of os k)" for k
      using map_of_all2[OF mapM_values[OF os], of k] by (simp add: map_of_btree_map)
    show ?thesis
    proof (cases first)
      case (SKey k)
      show ?thesis using rel[of k] Cons.IH RObject v SKey visit
        by (cases "map_of (rev kvs) k"; cases "map_of os k") auto
    qed (use RObject v in auto)
  qed (use Cons.prems in \<open>cases first; auto\<close>)+
qed simp

text \<open>C20. Selective extraction agrees with reading the whole document: when the stored JSON decodes to a
  value, extracting any path gives that value's part at the path, the last of duplicate keys
  included, and the traversal does not fail.\<close>

theorem extract_selects:
  assumes "from_slice x bs = Some r" "materialize r = Inr v"
  shows "extract_value x bs path = Inr (at_path v path)"
  using assms by (simp add: extract_value_def select_materialize)

text \<open>The materialized value is well formed: the keys of its objects are sorted.\<close>

lemma materialize_ok: "materialize r = Inr v \<Longrightarrow> value_ok v"
proof (induction r arbitrary: v rule: materialize.induct)
  case (5 rs)
  then obtain vs where vs: "mapM materialize rs = Inr vs" "v = Array vs" by auto
  then show ?case using "5.IH" mapM_Inr_set[OF vs(1)] by (fastforce simp: list_all_iff)
next
  case (6 fs)
  then obtain kvs os where kvs: "raw_keys fs = Inr kvs"
    and os: "mapM (\<lambda>kv. rbind (materialize (snd kv)) (\<lambda>v. Inr (fst kv, v))) (btree_map kvs) = Inr os"
    and v: "v = Object os" by auto
  note all2 = mapM_values[OF os]
  have keys: "map fst (btree_map kvs) = map fst os"
    using all2 by (induction rule: list_all2_induct) auto
  have "value_ok (snd ov)" if "ov \<in> set os" for ov
    using mapM_Inr_set[OF os that] "6.IH"[OF kvs] by auto
  then show ?case using v keys tbl_ok_btree_map[of kvs] by (auto simp: list_all_iff tbl_ok_def)
qed auto

section \<open>A concrete outside\<close>

text \<open>
  Functions for the fields of \<open>ext\<close>, for evaluation: the given parser, plain decimal numbers,
  ASCII case and letters, no dates.
\<close>

definition ascii_lower :: "char \<Rightarrow> char" where
  "ascii_lower c = (let n = of_char c in if 65 \<le> n \<and> n \<le> 90 then char_of (n + 32 :: nat) else c)"

definition ascii_alnum :: "nat \<Rightarrow> bool" where
  "ascii_alnum n \<longleftrightarrow> 48 \<le> n \<and> n \<le> 57 \<or> 65 \<le> n \<and> n \<le> 90 \<or> 97 \<le> n \<and> n \<le> 122"

definition operand_text :: "expr \<Rightarrow> bytes" where
  "operand_text e = (case e of Compare p cop vs \<Rightarrow>
     concat (map (\<lambda>v. case v of Number n \<Rightarrow> as_bytes n | String s \<Rightarrow> as_bytes s | _ \<Rightarrow> []) vs) | _ \<Rightarrow> [])"

definition plain_ext :: "(bytes \<Rightarrow> raw option) \<Rightarrow> ext" where
  "plain_ext f = \<lparr>from_slice = f, raw_token = plain_decimal,
     to_json = (\<lambda>s. 34 # as_bytes s @ [34]),
     parse_from_rfc3339 = (\<lambda>_. None), date_from_str = (\<lambda>_. None), datetime_from_str = (\<lambda>_ _. None),
     to_lowercase = map ascii_lower, is_alphanumeric = ascii_alnum,
     levenshtein = (\<lambda>s t. if s = t then 0 else max (length s) (length t)),
     expr_json = operand_text\<rparr>"

lemma plain_ext_simps [simp]:
  "from_slice (plain_ext f) = f" "raw_token (plain_ext f) = plain_decimal"
  "expr_json (plain_ext f) = operand_text"
  by (simp_all add: plain_ext_def)

theorem extract_selects_witness:
  "extract_value (plain_ext (\<lambda>_. Some (RObject [(Some ''a'', RNull), (Some ''a'',
      RArray [RNumber ''1.0'', RString (Some ''x'')])]))) [] [SKey ''a'', SIndex 1] = Inr (String ''x'')"
proof -
  have m: "materialize (RObject [(Some ''a'', RNull), (Some ''a'', RArray [RNumber ''1.0'', RString (Some ''x'')])])
      = Inr (Object [(''a'', Array [Number ''1.0'', String ''x''])])"
    by (simp add: raw_keys_def btree_map_def tbl_insert_all_def)
  show ?thesis
    by (subst extract_selects[OF _ m]) simp_all
qed

section \<open>The fingerprint identifies a predicate up to number spelling\<close>

fun same_value :: "(string \<Rightarrow> string option) \<Rightarrow> value \<Rightarrow> value \<Rightarrow> bool" where
  "same_value rv (Number s) (Number t) = (num_of rv s = num_of rv t)"
| "same_value rv (Array vs) (Array ws) = list_all2 (same_value rv) vs ws"
| "same_value rv (Object vs) (Object ws) =
     list_all2 (\<lambda>v w. fst v = fst w \<and> same_value rv (snd v) (snd w)) vs ws"
| "same_value rv v w = (v = w)"

fun same_expr :: "(string \<Rightarrow> string option) \<Rightarrow> expr \<Rightarrow> expr \<Rightarrow> bool" where
  "same_expr rv (Compare p c vs) (Compare q d ws) = (p = q \<and> c = d \<and> list_all2 (same_value rv) vs ws)"
| "same_expr rv (And a b) (And c d) = (same_expr rv a c \<and> same_expr rv b d)"
| "same_expr rv (Or a b) (Or c d) = (same_expr rv a c \<and> same_expr rv b d)"
| "same_expr rv (Not a) (Not c) = same_expr rv a c"
| "same_expr rv (ElemMatch p a) (ElemMatch q c) = (p = q \<and> same_expr rv a c)"
| "same_expr rv a b = (a = b)"

text \<open>Every operand is compared as it is, without a temporal reading.\<close>

fun auto_expr :: "expr \<Rightarrow> bool" where
  "auto_expr (Compare p c vs) = (p_kind p = Auto)"
| "auto_expr (And a b) = (auto_expr a \<and> auto_expr b)"
| "auto_expr (Or a b) = (auto_expr a \<and> auto_expr b)"
| "auto_expr (Not a) = auto_expr a"
| "auto_expr (ElemMatch p a) = auto_expr a"
| "auto_expr e = True"

lemma interpret_Auto [simp]: "interpret_kind x Auto v = Inr v"
  by (cases v) auto

lemma list_all2_iff_via:
  assumes "list_all2 (\<lambda>v a. f v = Inr a) vs as" "list_all2 (\<lambda>v a. f v = Inr a) ws bs"
    and "\<And>v w a b. v \<in> set vs \<Longrightarrow> f v = Inr a \<Longrightarrow> f w = Inr b \<Longrightarrow> a = b \<longleftrightarrow> P v w"
  shows "as = bs \<longleftrightarrow> list_all2 P vs ws"
  using assms
proof (induction vs as arbitrary: ws bs rule: list_all2_induct)
  case Nil
  then show ?case by (cases bs) auto
next
  case (Cons v vs a as)
  show ?case
  proof (cases bs)
    case Nil
    then show ?thesis using Cons.prems(1) by auto
  next
    case bs: (Cons b bs')
    then obtain w ws' where ws: "ws = w # ws'" "f w = Inr b" "list_all2 (\<lambda>v a. f v = Inr a) ws' bs'"
      using Cons.prems(1) by (auto simp: list_all2_Cons2)
    have "a = b \<longleftrightarrow> P v w" using Cons.hyps(1) ws(2) by (intro Cons.prems(2)) auto
    moreover have "as = bs' \<longleftrightarrow> list_all2 P vs ws'"
      using Cons.prems(2) by (intro Cons.IH[OF ws(3)]) auto
    ultimately show ?thesis using bs ws(1) by simp
  qed
qed

lemma canonical_value_same:
  "raw_numbers (raw_token x) \<Longrightarrow> canonical_value x v = Inr a \<Longrightarrow> canonical_value x w = Inr b \<Longrightarrow>
    a = b \<longleftrightarrow> same_value (raw_token x) v w"
proof (induction x v arbitrary: w a b rule: canonical_value.induct)
  case (1 x n)
  show ?case
    by (cases w) (use 1 canonical_number_same[OF 1(1), of n] in auto)
next
  case (2 x vs)
  show ?case
  proof (cases w)
    case (Array ws)
    obtain as bs where ab: "list_all2 (\<lambda>v a. canonical_value x v = Inr a) vs as"
      "list_all2 (\<lambda>v a. canonical_value x v = Inr a) ws bs" "a = Array as" "b = Array bs"
      using 2(3,4) Array by (auto simp: mapM_Inr_all2)
    have "as = bs \<longleftrightarrow> list_all2 (same_value (raw_token x)) vs ws"
      using ab(1,2) by (rule list_all2_iff_via) (use 2(1,2) in auto)
    then show ?thesis using ab Array by simp
  qed (use 2 in auto)
next
  case (3 x vs)
  show ?case
  proof (cases w)
    case (Object ws)
    let ?f = "\<lambda>kv. rbind (canonical_value x (snd kv)) (\<lambda>v. Inr (fst kv, v))"
    obtain as bs where ab: "list_all2 (\<lambda>v a. ?f v = Inr a) vs as" "list_all2 (\<lambda>v a. ?f v = Inr a) ws bs"
      "a = Object as" "b = Object bs"
      using 3(3,4) Object by (auto simp: mapM_Inr_all2)
    have "as = bs \<longleftrightarrow> list_all2 (\<lambda>v w. fst v = fst w \<and> same_value (raw_token x) (snd v) (snd w)) vs ws"
      using ab(1,2)
    proof (rule list_all2_iff_via)
      fix v w a b :: "string \<times> value"
      assume v: "v \<in> set vs" "?f v = Inr a" "?f w = Inr b"
      then obtain a' b' where "canonical_value x (snd v) = Inr a'" "canonical_value x (snd w) = Inr b'"
        "a = (fst v, a')" "b = (fst w, b')" by auto
      with v(1) 3(1)[of v a' "snd w" b'] 3(2)
      show "a = b \<longleftrightarrow> fst v = fst w \<and> same_value (raw_token x) (snd v) (snd w)" by simp
    qed
    then show ?thesis using ab Object by simp
  qed (use 3 in auto)
qed (case_tac w; auto)+

lemma normalize_expr_same:
  "raw_numbers (raw_token x) \<Longrightarrow> auto_expr e \<Longrightarrow> auto_expr f \<Longrightarrow>
    normalize_expr x e = Inr a \<Longrightarrow> normalize_expr x f = Inr b \<Longrightarrow>
    a = b \<longleftrightarrow> same_expr (raw_token x) e f"
proof (induction x e arbitrary: f a b rule: normalize_expr.induct)
  case (1 x p c vs)
  show ?case
  proof (cases f)
    case (Compare q d ws)
    obtain as bs where "list_all2 (\<lambda>v a. canonical_value x v = Inr a) vs as"
        "list_all2 (\<lambda>v a. canonical_value x v = Inr a) ws bs" "a = Compare p c as" "b = Compare q d bs"
      using 1 Compare by (auto simp: mapM_Inr_all2)
    then show ?thesis
      using list_all2_iff_via[of "canonical_value x" vs as ws bs "same_value (raw_token x)"]
        canonical_value_same[OF 1(1)] Compare by auto
  qed (use 1 in auto)
next
  case (2 x e1 e2)
  show ?case
  proof (cases f)
    case (And f1 f2)
    with 2 obtain a1 a2 b1 b2 where
      "normalize_expr x e1 = Inr a1" "normalize_expr x f1 = Inr b1"
      "normalize_expr x e2 = Inr a2" "normalize_expr x f2 = Inr b2" "a = And a1 a2" "b = And b1 b2" by auto
    with And 2(1)[of f1 a1 b1] 2(2)[of a1 f2 a2 b2] 2(3-5) show ?thesis by simp
  qed (use 2(6,7) in auto)
next
  case (3 x e1 e2)
  show ?case
  proof (cases f)
    case (Or f1 f2)
    with 3 obtain a1 a2 b1 b2 where
      "normalize_expr x e1 = Inr a1" "normalize_expr x f1 = Inr b1"
      "normalize_expr x e2 = Inr a2" "normalize_expr x f2 = Inr b2" "a = Or a1 a2" "b = Or b1 b2" by auto
    with Or 3(1)[of f1 a1 b1] 3(2)[of a1 f2 a2 b2] 3(3-5) show ?thesis by simp
  qed (use 3(6,7) in auto)
next
  case (4 x e1)
  show ?case
  proof (cases f)
    case (Not f1)
    with 4 obtain a1 b1 where "normalize_expr x e1 = Inr a1" "normalize_expr x f1 = Inr b1"
      "a = Not a1" "b = Not b1" by auto
    with Not 4(1)[of f1 a1 b1] 4(2-4) show ?thesis by simp
  qed (use 4(5,6) in auto)
next
  case (5 x p e1)
  show ?case
  proof (cases f)
    case (ElemMatch q f1)
    with 5 obtain a1 b1 where "normalize_expr x e1 = Inr a1" "normalize_expr x f1 = Inr b1"
      "a = ElemMatch p a1" "b = ElemMatch q b1" by auto
    with ElemMatch 5(1)[of f1 a1 b1] 5(2-4) show ?thesis by simp
  qed (use 5(5,6) in auto)
qed (case_tac f; auto)+


definition sample_predicate :: "string \<Rightarrow> predicate" where
  "sample_predicate t = predicate_new
     (Compare \<lparr>p_steps = [SKey ''n''], p_kind = Auto, p_transforms = []\<rparr> Ge [Number t])"


section \<open>Arabic normalization is stable\<close>

lemma str_chars_char_utf8:
  assumes "c < 2097152"
  shows "str_chars (char_utf8 c @ s) = c # str_chars s"
proof -
  have char: "of_char (char_of n :: char) = (n :: nat)" if "n < 256" for n using that by simp
  have head: "y < 32 \<Longrightarrow> (192 + y) mod 32 = y" "y < 16 \<Longrightarrow> (224 + y) mod 16 = y"
    "y < 8 \<Longrightarrow> (240 + y) mod 8 = y" for y :: nat
    using mod_mult_self2[of y 32 6] mod_mult_self2[of y 16 14] mod_mult_self2[of y 8 30]
    by (simp_all add: add.commute)
  have tail: "y < 64 \<Longrightarrow> (128 + y) mod 64 = y" for y :: nat
    using mod_mult_self2[of y 64 2] by (simp add: add.commute)
  define r where "r = (\<lambda>k. c div 64 ^ k mod 64)"
  have r: "r k < 64" "128 + r k < 256" for k by (simp_all add: r_def)
  have d: "c = c div 64 * 64 + r 0" "c div 64 = c div 4096 * 64 + r 1" "c div 4096 = c div 262144 * 64 + r 2"
    using div_mult_mod_eq[of c 64] div_mult_mod_eq[of "c div 64" 64] div_mult_mod_eq[of "c div 4096" 64]
    by (simp_all add: r_def div_mult2_eq[symmetric])
  have m: "c mod 64 = r 0" "c div 64 mod 64 = r 1" "c div 4096 mod 64 = r 2" by (simp_all add: r_def)
  consider "c < 128" | "128 \<le> c" "c < 2048" | "2048 \<le> c" "c < 65536" | "65536 \<le> c" by linarith
  then show ?thesis
  proof cases
    case 2
    define q where "q = c div 64"
    have q: "q < 32" using 2 by (simp add: q_def less_mult_imp_div_less)
    have e: "q * 64 + r 0 = c" using d unfolding q_def by linarith
    show ?thesis
      using 2 r q head(1)[OF q] tail
      by (simp add: char_utf8_def char Let_def m q_def[symmetric] e del: One_nat_def)
  next
    case 3
    define q where "q = c div 4096"
    have q: "q < 16" using 3 by (simp add: q_def less_mult_imp_div_less)
    have e: "q * 4096 + r 1 * 64 + r 0 = c" using d unfolding q_def by linarith
    show ?thesis
      using 3 r q head(2)[OF q] tail
      by (simp add: char_utf8_def char Let_def m q_def[symmetric] e del: One_nat_def)
  next
    case 4
    define q where "q = c div 262144"
    have q: "q < 8" using assms by (simp add: q_def less_mult_imp_div_less)
    have e: "q * 262144 + r 2 * 4096 + r 1 * 64 + r 0 = c" using d unfolding q_def by linarith
    show ?thesis
      using 4 r q head(3)[OF q] tail
      by (simp add: char_utf8_def char Let_def m q_def[symmetric] e del: One_nat_def)
  qed (simp add: char_utf8_def)
qed

lemma str_chars_collect: "list_all (\<lambda>c. c < 2097152) cs \<Longrightarrow> str_chars (collect_chars cs) = cs"
  by (induction cs) (simp_all add: collect_chars_def str_chars_char_utf8)

lemma str_chars_bound: "list_all (\<lambda>c. c < 2097152) (str_chars s)"
proof (induction s rule: str_chars.induct)
  case (2 a s)
  have y: "y mod 64 \<le> 63" for y :: nat by (simp add: less_Suc_eq_le[symmetric])
  have "x mod 32 * 64 + y mod 64 < 2097152" "x mod 16 * 4096 + y mod 64 * 64 + z mod 64 < 2097152"
    "x mod 8 * 262144 + y mod 64 * 4096 + z mod 64 * 64 + w mod 64 < 2097152" for x y z w :: nat
    using y[of y] y[of z] y[of w] mod_less_divisor[of 32 x] mod_less_divisor[of 16 x] mod_less_divisor[of 8 x]
    by linarith+
  then show ?case using 2 by (auto simp: Let_def split: list.split)
qed simp

lemma normalize_arabic_cases:
  assumes "normalize_arabic c = Some d"
  shows "d = c \<or> d \<in> {0x627, 0x647, 0x64A, 0x648} \<or> 0x30 \<le> d \<and> d \<le> 0x39"
  using assms unfolding normalize_arabic_def by (simp split: if_split_asm) linarith+

lemma normalize_arabic_stable:
  assumes "normalize_arabic c = Some d"
  shows "normalize_arabic d = Some d"
  using normalize_arabic_cases[OF assms]
proof (elim disjE)
  assume "0x30 \<le> d \<and> d \<le> 0x39"
  then show ?thesis by (simp add: normalize_arabic_def)
next
  assume "d \<in> {0x627, 0x647, 0x64A, 0x648}"
  then show ?thesis by (elim insertE emptyE) (simp_all add: normalize_arabic_def)
qed (use assms in simp)

lemma normalize_arabic_bound: "normalize_arabic c = Some d \<Longrightarrow> c < 2097152 \<Longrightarrow> d < 2097152"
  using normalize_arabic_cases[of c d] by auto

lemma map_filter_stable:
  "(\<And>c d. f c = Some d \<Longrightarrow> f d = Some d) \<Longrightarrow> List.map_filter f (List.map_filter f cs) = List.map_filter f cs"
  by (induction cs) (auto simp: List.map_filter_def)

lemma list_all_map_filter:
  "list_all P cs \<Longrightarrow> (\<And>c d. P c \<Longrightarrow> f c = Some d \<Longrightarrow> Q d) \<Longrightarrow> list_all Q (List.map_filter f cs)"
  by (induction cs) (auto simp: List.map_filter_def split: option.splits)

lemma dropWhile_all: "list_all P cs \<Longrightarrow> list_all P (dropWhile Q cs)"
  by (auto simp: list_all_iff dest: set_dropWhileD)

text \<open>The text transformations the library itself defines are stable: trimming, or normalizing Arabic
  letters, marks and digits, a second time changes nothing, so a stored normal form is compared
  as it is.\<close>

theorem transform_stable:
  "transform_text x Trim (transform_text x Trim s) = transform_text x Trim s \<and>
   transform_text x NormalizeArabic (transform_text x NormalizeArabic s) = transform_text x NormalizeArabic s"
proof
  let ?t = "\<lambda>cs. rev (dropWhile is_whitespace (rev (dropWhile is_whitespace cs)))"
  have "list_all (\<lambda>c. c < 2097152) (?t (str_chars s))"
    using str_chars_bound[of s] by (simp add: dropWhile_all)
  moreover have "?t (?t cs) = ?t cs" for cs
  proof -
    have "dropWhile is_whitespace (?t cs) = ?t cs"
    proof (cases "dropWhile is_whitespace cs")
      case (Cons h b)
      then have "\<not> is_whitespace h" by (metis dropWhile_eq_Cons_conv)
      then show ?thesis by (simp add: Cons dropWhile_append)
    next
      case Nil
      show ?thesis unfolding Nil by simp
    qed
    then show ?thesis by simp
  qed
  ultimately show "transform_text x Trim (transform_text x Trim s) = transform_text x Trim s"
    by (simp add: str_trim_def str_chars_collect)
next
  have "list_all (\<lambda>c. c < 2097152) (List.map_filter normalize_arabic (str_chars s))"
    using str_chars_bound[of s] by (rule list_all_map_filter) (simp add: normalize_arabic_bound)
  then show "transform_text x NormalizeArabic (transform_text x NormalizeArabic s) =
      transform_text x NormalizeArabic s"
    by (simp add: str_chars_collect map_filter_stable normalize_arabic_stable)
qed

end
