(* ===== verification/Query_Eval.thy ===== *)
theory Query_Eval
  imports Fields_Extract
begin

text \<open>
  Evaluation of a predicate on one stored row (\<^verbatim>\<open>src/query/eval.rs\<close>): the tokenizer, comparison of
  values, quantified paths, and \<open>RowEvaluation\<close> with its cache of path values.
\<close>

definition TOKENIZER_VERSION :: nat where "TOKENIZER_VERSION = 1"

text \<open>\<open>str::split\<close> on the characters a predicate accepts.\<close>

fun split_chars :: "(nat \<Rightarrow> bool) \<Rightarrow> nat list \<Rightarrow> nat list list" where
  "split_chars P [] = [[]]"
| "split_chars P (c # cs) = (if P c then [] # split_chars P cs
     else case split_chars P cs of [] \<Rightarrow> [[c]] | w # ws \<Rightarrow> (c # w) # ws)"

definition tokens :: "ext \<Rightarrow> string \<Rightarrow> string list" where
  "tokens x s = map (to_lowercase x) (filter (\<lambda>w. w \<noteq> [])
     (map collect_chars (split_chars (\<lambda>c. \<not> is_alphanumeric x c) (str_chars s))))"

text \<open>\<open>compare\<close>: values of one kind, by their equality keys. \<open>kind_tag\<close> is the enum discriminant.\<close>

fun kind_tag :: "value \<Rightarrow> nat" where
  "kind_tag Missing = 0" | "kind_tag Null = 1" | "kind_tag (Bool b) = 2" | "kind_tag (Number t) = 3"
| "kind_tag (Time n) = 4" | "kind_tag (String s) = 5" | "kind_tag (Array vs) = 6" | "kind_tag (Object os) = 7"

definition compare_values :: "ext \<Rightarrow> value \<Rightarrow> value \<Rightarrow> ordering option res" where
  "compare_values x a b =
     (if kind_tag a \<noteq> kind_tag b \<or> is_empty a \<or> is_empty b then Inr None
      else rbind (encode_equality (raw_token x) a) (\<lambda>ka.
        rbind (encode_equality (raw_token x) b) (\<lambda>kb. Inr (Some (bcmp ka kb)))))"

definition is_ordering_op :: "compare \<Rightarrow> bool" where
  "is_ordering_op c \<longleftrightarrow> c \<in> {Gt, Ge, Lt, Le, Between}"

fun contains_sub :: "string \<Rightarrow> string \<Rightarrow> bool" where
  "contains_sub [] b = (b = [])"
| "contains_sub (c # a) b = (take (length b) (c # a) = b \<or> contains_sub a b)"

definition starts_with :: "string \<Rightarrow> string \<Rightarrow> bool" where
  "starts_with a b \<longleftrightarrow> take (length b) a = b"

fun any_equal :: "ext \<Rightarrow> value \<Rightarrow> value list \<Rightarrow> bool res" where
  "any_equal x v [] = Inr False"
| "any_equal x v (b # bs) = rbind (compare_values x v b)
     (\<lambda>c. if c = Some Equal then Inr True else any_equal x v bs)"

definition string_op :: "ext \<Rightarrow> compare \<Rightarrow> value \<Rightarrow> value \<Rightarrow> bool" where
  "string_op x cop v first = (case (v, first) of
      (String a, String b) \<Rightarrow>
        (case cop of
          Prefix \<Rightarrow> starts_with a b
        | Contains \<Rightarrow> contains_sub a b
        | Fuzzy distance \<Rightarrow> list_ex (\<lambda>token. levenshtein x token b \<le> distance) (tokens x a)
        | _ \<Rightarrow> tokens x b \<noteq> [] \<and> list_all (\<lambda>w. w \<in> set (tokens x a)) (tokens x b))
    | _ \<Rightarrow> False)"

definition scalar :: "ext \<Rightarrow> compare \<Rightarrow> value list \<Rightarrow> value \<Rightarrow> bool res" where
  "scalar x cop values v = (case values of
      [] \<Rightarrow> Inr False
    | first # _ \<Rightarrow>
        rbind (compare_values x v first) (\<lambda>c.
        rbind (if c \<noteq> None \<and> is_ordering_op cop
               then rbind (encode (raw_token x) v)
                 (\<lambda>_. rbind (mapM (encode (raw_token x)) values) (\<lambda>_. Inr ()))
               else Inr ()) (\<lambda>_.
        case cop of
          Eq \<Rightarrow> Inr (c = Some Equal)
        | Ne \<Rightarrow> Inr (c \<noteq> None \<and> c \<noteq> Some Equal)
        | Gt \<Rightarrow> Inr (c = Some Greater)
        | Ge \<Rightarrow> Inr (c \<noteq> None \<and> c \<noteq> Some Less)
        | Lt \<Rightarrow> Inr (c = Some Less)
        | Le \<Rightarrow> Inr (c \<noteq> None \<and> c \<noteq> Some Greater)
        | Between \<Rightarrow>
            if c \<noteq> None \<and> c \<noteq> Some Less
            then (case values of
                _ # b # _ \<Rightarrow> rbind (compare_values x v b) (\<lambda>d. Inr (d = Some Less))
              | _ \<Rightarrow> Inr False)
            else Inr False
        | In \<Rightarrow> any_equal x v values
        | _ \<Rightarrow> Inr (string_op x cop v first))))"

text \<open>
  \<open>quantified\<close>: the first \<open>Any\<close> or \<open>All\<close> of the path ranges over the elements of the array before it;
  each element is addressed by its index, which leaves one quantifier less.
\<close>

definition quantifier_position :: "step list \<Rightarrow> nat option" where
  "quantifier_position ss =
     (let i = length (takeWhile (\<lambda>s. \<not> is_quantifier s) ss) in if i < length ss then Some i else None)"

text \<open>The loop of \<open>quantified\<close> over the element numbers: stop at the first that decides.\<close>

fun decide :: "bool \<Rightarrow> (nat \<Rightarrow> bool res) \<Rightarrow> nat list \<Rightarrow> bool res" where
  "decide all f [] = Inr all"
| "decide all f (n # ns) = rbind (f n) (\<lambda>yes. if yes \<noteq> all then Inr (\<not> all) else decide all f ns)"

lemma decide_cong [fundef_cong]:
  "a = b \<Longrightarrow> ns = ms \<Longrightarrow> (\<And>n. n \<in> set ms \<Longrightarrow> f n = g n) \<Longrightarrow> decide a f ns = decide b g ms"
  by (induction ms arbitrary: ns) (auto intro!: rbind_cong)

definition quantifiers :: "step list \<Rightarrow> nat" where
  "quantifiers ss = length (filter is_quantifier ss)"

lemma quantifier_position_Some:
  assumes "quantifier_position ss = Some i"
  shows "i < length ss" "is_quantifier (ss ! i)" "ss = take i ss @ ss ! i # drop (Suc i) ss"
proof -
  show "i < length ss" "is_quantifier (ss ! i)"
    using assms nth_length_takeWhile[of "\<lambda>s. \<not> is_quantifier s" ss]
    by (auto simp: quantifier_position_def Let_def split: if_splits)
  then show "ss = take i ss @ ss ! i # drop (Suc i) ss" by (simp add: id_take_nth_drop)
qed

lemma quantifiers_update:
  assumes "quantifier_position ss = Some i"
  shows "quantifiers (ss[i := SIndex n]) < quantifiers ss"
proof -
  note q = quantifier_position_Some[OF assms]
  have "quantifiers ss = quantifiers (take i ss) + Suc (quantifiers (drop (Suc i) ss))"
    by (subst q(3)) (use q(2) in \<open>simp add: quantifiers_def\<close>)
  moreover have "quantifiers (ss[i := SIndex n]) = quantifiers (take i ss) + quantifiers (drop (Suc i) ss)"
    using q(1) by (simp add: upd_conv_take_nth_drop quantifiers_def is_quantifier_def)
  ultimately show ?thesis by simp
qed

function quantified :: "ext \<Rightarrow> bytes \<Rightarrow> path \<Rightarrow> (value \<Rightarrow> bool res) \<Rightarrow> bool res" where
  "quantified x bs p leaf = (case quantifier_position (p_steps p) of
      Some i \<Rightarrow>
        rbind (extract_value x bs (take i (p_steps p))) (\<lambda>v. case v of
          Array items \<Rightarrow>
            decide (p_steps p ! i = SAll)
              (\<lambda>n. quantified x bs (p\<lparr>p_steps := (p_steps p)[i := SIndex n]\<rparr>) leaf) [0..<length items]
        | _ \<Rightarrow> Inr False)
    | None \<Rightarrow> rbind (path_value x bs p) leaf)"
  by pat_completeness auto
termination
  by (relation "measure (\<lambda>(x, bs, p, leaf). quantifiers (p_steps p))") (auto simp: quantifiers_update)

declare quantified.simps [simp del]

section \<open>Evaluation with a cache\<close>

record row_eval =
  re_bytes :: bytes
  re_paths :: "path list"
  re_values :: "value option list"
  re_scratch :: "value option"

definition row_new :: "bytes \<Rightarrow> path list \<Rightarrow> row_eval" where
  "row_new bs ps = \<lparr>re_bytes = bs, re_paths = ps, re_values = replicate (length ps) None, re_scratch = None\<rparr>"

definition path_position :: "path list \<Rightarrow> path \<Rightarrow> nat option" where
  "path_position ps p =
     (let i = length (takeWhile (\<lambda>q. q \<noteq> p) ps) in if i < length ps then Some i else None)"

definition row_value :: "ext \<Rightarrow> row_eval \<Rightarrow> path \<Rightarrow> (value \<times> row_eval) res" where
  "row_value x st p = (case path_position (re_paths st) p of
      Some i \<Rightarrow> (case re_values st ! i of
          Some v \<Rightarrow> Inr (v, st)
        | None \<Rightarrow> rbind (path_value x (re_bytes st) p)
            (\<lambda>v. Inr (v, st\<lparr>re_values := (re_values st)[i := Some v]\<rparr>)))
    | None \<Rightarrow> rbind (path_value x (re_bytes st) p) (\<lambda>v. Inr (v, st\<lparr>re_scratch := Some v\<rparr>)))"

fun presence_test :: "presence \<Rightarrow> value \<Rightarrow> bool" where
  "presence_test Exists v = exists_value v"
| "presence_test PNull v = is_null v"
| "presence_test PMissing v = is_missing v"
| "presence_test Empty v = is_empty v"

fun join_bytes :: "u8 \<Rightarrow> bytes list \<Rightarrow> bytes" where
  "join_bytes c [] = []"
| "join_bytes c [b] = b"
| "join_bytes c (b # bs) = b @ c # join_bytes c bs"

fun json_bytes :: "ext \<Rightarrow> value \<Rightarrow> bytes res" where
  "json_bytes x (Number n) = Inr (as_bytes n)"
| "json_bytes x Missing = Inr (as_bytes ''null'')"
| "json_bytes x Null = Inr (as_bytes ''null'')"
| "json_bytes x (Bool b) = Inr (as_bytes (if b then ''true'' else ''false''))"
| "json_bytes x (String s) = Inr (to_json x s)"
| "json_bytes x (Array a) = rbind (mapM (json_bytes x) a)
     (\<lambda>p. Inr (as_bytes ''['' @ join_bytes 44 p @ as_bytes '']''))"
| "json_bytes x (Object os) =
     rbind (mapM (\<lambda>kv. rbind (json_bytes x (snd kv)) (\<lambda>b. Inr (to_json x (fst kv) @ 58 # b))) os)
       (\<lambda>p. Inr (as_bytes ''{'' @ join_bytes 44 p @ as_bytes ''}''))"
| "json_bytes x (Time n) = Inl (Validation ''time value is not raw JSON'')"

fun any_item :: "('a \<Rightarrow> bool res) \<Rightarrow> 'a list \<Rightarrow> bool res" where
  "any_item f [] = Inr False"
| "any_item f (v # vs) = rbind (f v) (\<lambda>yes. if yes then Inr True else any_item f vs)"

lemma any_item_cong [fundef_cong]:
  "vs = ws \<Longrightarrow> (\<And>v. v \<in> set ws \<Longrightarrow> f v = g v) \<Longrightarrow> any_item f vs = any_item g ws"
  by (induction ws arbitrary: vs) (auto intro!: rbind_cong)

fun row_matches :: "ext \<Rightarrow> row_eval \<Rightarrow> expr \<Rightarrow> (bool \<times> row_eval) res" where
  "row_matches x st (Compare p cop vs) =
     rbind (mapM (interpret_kind x (p_kind p)) vs) (\<lambda>values.
       if list_ex is_quantifier (p_steps p)
       then rbind (quantified x (re_bytes st) p (scalar x cop values)) (\<lambda>b. Inr (b, st))
       else rbind (row_value x st p) (\<lambda>(v, st'). rbind (scalar x cop values v) (\<lambda>b. Inr (b, st'))))"
| "row_matches x st (Presence p test) =
     (if list_ex is_quantifier (p_steps p)
      then rbind (quantified x (re_bytes st) p (\<lambda>v. Inr (presence_test test v))) (\<lambda>b. Inr (b, st))
      else rbind (row_value x st p) (\<lambda>(v, st'). Inr (presence_test test v, st')))"
| "row_matches x st (And a b) =
     rbind (row_matches x st a) (\<lambda>(yes, st'). if yes then row_matches x st' b else Inr (False, st'))"
| "row_matches x st (Or a b) =
     rbind (row_matches x st a) (\<lambda>(yes, st'). if yes then Inr (True, st') else row_matches x st' b)"
| "row_matches x st (Not a) = rbind (row_matches x st a) (\<lambda>(yes, st'). Inr (\<not> yes, st'))"
| "row_matches x st (ElemMatch p inner) =
     rbind (row_value x st p) (\<lambda>(v, st'). case v of
         Array items \<Rightarrow> rbind (any_item (\<lambda>item. rbind (json_bytes x item) (\<lambda>bs.
             rbind (row_matches x (row_new bs []) inner) (\<lambda>(yes, _). Inr yes))) items)
             (\<lambda>yes. Inr (yes, st'))
       | _ \<Rightarrow> Inr (False, st'))"
| "row_matches x st Never = Inr (False, st)"
| "row_matches x st (Invalid e) = Inl (Validation ''invalid query expression'')"

definition matches :: "ext \<Rightarrow> bytes \<Rightarrow> expr \<Rightarrow> bool res" where
  "matches x bs e = rbind (row_matches x (row_new bs []) e) (\<lambda>(yes, _). Inr yes)"

section \<open>The cache does not change the answer\<close>

text \<open>Evaluation that reads every path from the row, without a state.\<close>

fun holds :: "ext \<Rightarrow> bytes \<Rightarrow> expr \<Rightarrow> bool res" where
  "holds x bs (Compare p cop vs) =
     rbind (mapM (interpret_kind x (p_kind p)) vs) (\<lambda>values. quantified x bs p (scalar x cop values))"
| "holds x bs (Presence p test) = quantified x bs p (\<lambda>v. Inr (presence_test test v))"
| "holds x bs (And a b) = rbind (holds x bs a) (\<lambda>yes. if yes then holds x bs b else Inr False)"
| "holds x bs (Or a b) = rbind (holds x bs a) (\<lambda>yes. if yes then Inr True else holds x bs b)"
| "holds x bs (Not a) = rbind (holds x bs a) (\<lambda>yes. Inr (\<not> yes))"
| "holds x bs (ElemMatch p inner) =
     rbind (path_value x bs p) (\<lambda>v. case v of
         Array items \<Rightarrow> any_item (\<lambda>item. rbind (json_bytes x item) (\<lambda>bs. holds x bs inner)) items
       | _ \<Rightarrow> Inr False)"
| "holds x bs Never = Inr False"
| "holds x bs (Invalid e) = Inl (Validation ''invalid query expression'')"

text \<open>A state is coherent when every cached value is the value of its path in the row.\<close>

definition coherent :: "ext \<Rightarrow> row_eval \<Rightarrow> bool" where
  "coherent x st \<longleftrightarrow> length (re_values st) = length (re_paths st) \<and>
     (\<forall>i < length (re_paths st). \<forall>v. re_values st ! i = Some v \<longrightarrow>
        path_value x (re_bytes st) (re_paths st ! i) = Inr v)"

definition runs_as :: "ext \<Rightarrow> row_eval \<Rightarrow> ('a \<times> row_eval) res \<Rightarrow> 'a res \<Rightarrow> bool" where
  "runs_as x st r s \<longleftrightarrow> (case r of
      Inl e \<Rightarrow> s = Inl e
    | Inr (a, st') \<Rightarrow> s = Inr a \<and> coherent x st' \<and> re_bytes st' = re_bytes st \<and> re_paths st' = re_paths st)"

lemma coherent_new [simp]: "coherent x (row_new bs ps)"
  by (simp add: coherent_def row_new_def)

lemma path_position_Some: "path_position ps p = Some i \<Longrightarrow> i < length ps \<and> ps ! i = p"
  using nth_length_takeWhile[of "\<lambda>q. q \<noteq> p" ps] by (auto simp: path_position_def Let_def split: if_splits)

lemma row_value_runs:
  assumes "coherent x st"
  shows "runs_as x st (row_value x st p) (path_value x (re_bytes st) p)"
proof (cases "path_position (re_paths st) p")
  case None
  then show ?thesis using assms
    by (cases "path_value x (re_bytes st) p") (auto simp: row_value_def runs_as_def coherent_def)
next
  case (Some i)
  note i = path_position_Some[OF Some]
  show ?thesis
  proof (cases "re_values st ! i")
    case None
    then show ?thesis using assms Some i
      by (cases "path_value x (re_bytes st) p")
        (auto simp: row_value_def runs_as_def coherent_def nth_list_update)
  next
    case (Some v)
    then show ?thesis using assms i \<open>path_position _ _ = Some i\<close>
      by (auto simp: row_value_def runs_as_def coherent_def)
  qed
qed

lemma runs_as_bind:
  assumes "runs_as x st m s"
    and "\<And>a st'. coherent x st' \<Longrightarrow> re_bytes st' = re_bytes st \<Longrightarrow> re_paths st' = re_paths st \<Longrightarrow>
      runs_as x st' (f (a, st')) (g a)"
  shows "runs_as x st (rbind m f) (rbind s g)"
proof (cases m)
  case (Inl e)
  then show ?thesis using assms(1) by (simp add: runs_as_def)
next
  case (Inr p)
  obtain a st' where p: "p = (a, st')" by (cases p)
  have st': "coherent x st'" "re_bytes st' = re_bytes st" "re_paths st' = re_paths st" "s = Inr a"
    using assms(1) Inr p by (auto simp: runs_as_def)
  show ?thesis using assms(2)[OF st'(1-3), of a] st' Inr p
    by (auto simp: runs_as_def split: sum.splits)
qed

lemma runs_as_pure: "coherent x st \<Longrightarrow> runs_as x st (rbind r (\<lambda>b. Inr (h b, st))) (rbind r (\<lambda>b. Inr (h b)))"
  by (cases r) (auto simp: runs_as_def)

lemma quantifier_position_None: "quantifier_position ss = None \<longleftrightarrow> \<not> list_ex is_quantifier ss"
proof -
  have "length (takeWhile (\<lambda>s. \<not> is_quantifier s) ss) < length ss \<longleftrightarrow> list_ex is_quantifier ss"
    by (induction ss) auto
  then show ?thesis by (simp add: quantifier_position_def Let_def)
qed

lemma quantified_plain:
  "\<not> list_ex is_quantifier (p_steps p) \<Longrightarrow> quantified x bs p leaf = rbind (path_value x bs p) leaf"
  by (subst quantified.simps) (simp add: quantifier_position_None[THEN iffD2])

lemma row_matches_runs: "coherent x st \<Longrightarrow> runs_as x st (row_matches x st e) (holds x (re_bytes st) e)"
proof (induction e arbitrary: st)
  case (Compare p cop vs)
  show ?case
  proof (cases "mapM (interpret_kind x (p_kind p)) vs")
    case (Inr ws)
    show ?thesis
    proof (cases "list_ex is_quantifier (p_steps p)")
      case True
      then show ?thesis using Inr runs_as_pure[OF Compare.prems, where h = "\<lambda>b :: bool. b"] by simp
    next
      case False
      have "runs_as x st (rbind (row_value x st p) (\<lambda>(v, st'). rbind (scalar x cop ws v) (\<lambda>b. Inr (b, st'))))
          (rbind (path_value x (re_bytes st) p) (scalar x cop ws))"
        using row_value_runs[OF Compare.prems]
        by (rule runs_as_bind) (use runs_as_pure[where h = "\<lambda>b :: bool. b"] in auto)
      then show ?thesis using Inr False by (simp add: quantified_plain)
    qed
  qed (simp add: runs_as_def)
next
  case (Presence p test)
  have "runs_as x st (rbind (row_value x st p) (\<lambda>(v, st'). Inr (presence_test test v, st')))
      (rbind (path_value x (re_bytes st) p) (\<lambda>v. Inr (presence_test test v)))"
    using row_value_runs[OF Presence] by (rule runs_as_bind) (simp add: runs_as_def)
  then show ?case
    using runs_as_pure[OF Presence, where h = "\<lambda>b :: bool. b"] by (simp add: quantified_plain)
next
  case (And a b)
  show ?case
    unfolding row_matches.simps holds.simps using And.IH(1)[OF And.prems]
  proof (rule runs_as_bind)
    fix yes st'
    assume st': "coherent x st'" "re_bytes st' = re_bytes st"
    then show "runs_as x st' (case (yes, st') of (yes, st') \<Rightarrow> if yes then row_matches x st' b else Inr (False, st'))
        (if yes then holds x (re_bytes st) b else Inr False)"
      using And.IH(2)[OF st'(1)] by (simp add: runs_as_def)
  qed
next
  case (Or a b)
  show ?case
    unfolding row_matches.simps holds.simps using Or.IH(1)[OF Or.prems]
  proof (rule runs_as_bind)
    fix yes st'
    assume st': "coherent x st'" "re_bytes st' = re_bytes st"
    then show "runs_as x st' (case (yes, st') of (yes, st') \<Rightarrow> if yes then Inr (True, st') else row_matches x st' b)
        (if yes then Inr True else holds x (re_bytes st) b)"
      using Or.IH(2)[OF st'(1)] by (simp add: runs_as_def)
  qed
next
  case (Not a)
  show ?case
    unfolding row_matches.simps holds.simps using Not.IH[OF Not.prems]
    by (rule runs_as_bind) (simp add: runs_as_def)
next
  case (ElemMatch p inner)
  have inner: "rbind (row_matches x (row_new bs []) inner) (\<lambda>(yes, _). Inr yes) = holds x bs inner" for bs
    using ElemMatch.IH[OF coherent_new, of bs "[]"]
    by (cases "row_matches x (row_new bs []) inner") (auto simp: runs_as_def row_new_def)
  show ?case
    unfolding row_matches.simps holds.simps inner using row_value_runs[OF ElemMatch.prems]
  proof (rule runs_as_bind)
    fix v st'
    assume "coherent x st'" "re_bytes st' = re_bytes st"
    then show "runs_as x st'
        (case (v, st') of (v, st') \<Rightarrow> (case v of
           Array items \<Rightarrow> rbind (any_item (\<lambda>item. rbind (json_bytes x item) (\<lambda>bs. holds x bs inner)) items)
             (\<lambda>yes. Inr (yes, st'))
         | _ \<Rightarrow> Inr (False, st')))
        (case v of
           Array items \<Rightarrow> any_item (\<lambda>item. rbind (json_bytes x item) (\<lambda>bs. holds x bs inner)) items
         | _ \<Rightarrow> Inr False)"
      using runs_as_pure[where h = "\<lambda>b :: bool. b"] by (cases v) (auto simp: runs_as_def)
  qed
qed (auto simp: runs_as_def)

text \<open>C17. The cache of path values never changes the answer of a predicate: evaluating it on a row with
  any list of shared paths, from any state reached by evaluating other predicates on that row,
  gives the answer, or the error, of reading every path from the row itself.\<close>

theorem row_cache_transparent:
  "rbind (row_matches x (row_new bs ps) a) (\<lambda>(_, st). rbind (row_matches x st b) (\<lambda>(yes, _). Inr yes)) =
   rbind (holds x bs a) (\<lambda>_. holds x bs b)"
proof (cases "row_matches x (row_new bs ps) a")
  case (Inl e)
  then show ?thesis using row_matches_runs[OF coherent_new, of x bs ps a] by (simp add: runs_as_def row_new_def)
next
  case (Inr r)
  obtain yes st where r: "r = (yes, st)" by (cases r)
  have st: "coherent x st" "re_bytes st = bs" "holds x bs a = Inr yes"
    using row_matches_runs[OF coherent_new, of x bs ps a] Inr r by (auto simp: runs_as_def row_new_def)
  then show ?thesis using row_matches_runs[OF st(1), of b] Inr r
    by (cases "row_matches x st b") (auto simp: runs_as_def)
qed

lemma matches_holds: "matches x bs e = holds x bs e"
  using row_matches_runs[OF coherent_new, of x bs "[]" e]
  by (cases "row_matches x (row_new bs []) e") (auto simp: matches_def runs_as_def row_new_def)

section \<open>Quantified paths\<close>

text \<open>
  The meaning of a quantified path on a whole value: each \<open>Any\<close> is an existential and each \<open>All\<close> a
  universal over the array it stands on, in its own scope; a quantifier on anything but an array
  fails.
\<close>

fun in_scope :: "value \<Rightarrow> step list \<Rightarrow> (value \<Rightarrow> bool) \<Rightarrow> bool" where
  "in_scope v [] P = P v"
| "in_scope v (s # ss) P =
     (if s = SAny then (case v of Array vs \<Rightarrow> \<exists>w \<in> set vs. in_scope w ss P | _ \<Rightarrow> False)
      else if s = SAll then (case v of Array vs \<Rightarrow> \<forall>w \<in> set vs. in_scope w ss P | _ \<Rightarrow> False)
      else if list_ex is_quantifier ss then in_scope (at_path v [s]) ss P
      else P (at_path v (s # ss)))"

lemma decide_total:
  "(\<And>n. n \<in> set ns \<Longrightarrow> f n = Inr (g n)) \<Longrightarrow>
    decide all f ns = Inr (if all then \<forall>n \<in> set ns. g n else \<exists>n \<in> set ns. g n)"
  by (induction ns) auto

lemma at_path_append:
  "\<not> list_ex is_quantifier a \<Longrightarrow> at_path v a = Array items \<Longrightarrow> at_path v (a @ b) = at_path (Array items) b"
  by (induction a arbitrary: v)
    (auto simp: is_quantifier_def split: step.splits "value.splits" option.splits if_splits)

lemma at_path_scalar [simp]: "at_path Missing a \<noteq> Array vs" "at_path (Number t) a \<noteq> Array vs"
  by (cases a; auto split: step.split)+

lemma at_path_step:
  "\<not> is_quantifier s \<Longrightarrow> at_path (at_path v [s]) a = at_path v (s # a) \<or>
    (\<forall>vs. at_path (at_path v [s]) a \<noteq> Array vs) \<and> (\<forall>vs. at_path v (s # a) \<noteq> Array vs)"
  by (cases s; cases v) (auto simp: is_quantifier_def split: option.split)

lemma in_scope_prefix:
  "\<not> list_ex is_quantifier a \<Longrightarrow> is_quantifier q \<Longrightarrow>
    in_scope v (a @ q # b) P = (case at_path v a of
        Array vs \<Rightarrow> (if q = SAll then \<forall>w \<in> set vs. in_scope w b P else \<exists>w \<in> set vs. in_scope w b P)
      | _ \<Rightarrow> False)"
proof (induction a arbitrary: v)
  case Nil
  then show ?case by (cases v) (auto simp: is_quantifier_def)
next
  case (Cons s a)
  have stop: "(case w of Array vs \<Rightarrow> g vs | _ \<Rightarrow> False) = False" if "\<And>vs. w \<noteq> Array vs" for w g
    using that by (cases w) auto
  have step: "in_scope v ((s # a) @ q # b) P = in_scope (at_path v [s]) (a @ q # b) P"
    using Cons.prems by (auto simp: is_quantifier_def)
  have ih: "in_scope (at_path v [s]) (a @ q # b) P = (case at_path (at_path v [s]) a of
        Array vs \<Rightarrow> (if q = SAll then \<forall>w \<in> set vs. in_scope w b P else \<exists>w \<in> set vs. in_scope w b P)
      | _ \<Rightarrow> False)"
    using Cons by simp
  have "\<not> is_quantifier s" using Cons.prems(1) by simp
  from at_path_step[OF this, of v a] show ?case
    unfolding step ih by (elim disjE conjE) (simp_all del: at_path.simps add: stop)
qed

lemma in_scope_plain: "\<not> list_ex is_quantifier ss \<Longrightarrow> in_scope v ss P = P (at_path v ss)"
  by (cases ss) (auto simp: is_quantifier_def)

lemma in_scope_array:
  "\<not> list_ex is_quantifier a \<Longrightarrow> at_path v a = Array items \<Longrightarrow>
    in_scope v (a @ c) P = in_scope (Array items) c P"
proof (induction a arbitrary: v)
  case (Cons s a)
  have s: "\<not> is_quantifier s" "\<not> list_ex is_quantifier a" using Cons.prems(1) by auto
  have w: "at_path (at_path v [s]) a = Array items"
    using at_path_step[OF s(1), of v a] Cons.prems(2) by metis
  show ?case
  proof (cases "list_ex is_quantifier c")
    case True
    then show ?thesis using Cons.IH[OF s(2) w] s(1) by (simp add: is_quantifier_def)
  next
    case False
    then show ?thesis
      using Cons.prems at_path_append[OF Cons.prems, of c] by (simp only: in_scope_plain list_ex_append simp_thms)
  qed
qed simp

lemma in_scope_index:
  assumes "n < length items"
  shows "in_scope (Array items) (SIndex n # b) P = in_scope (items ! n) b P"
  using assms in_scope_plain[of b "items ! n" P] by simp

lemma quantified_scopes_aux:
  assumes "from_slice x bs = Some r" "materialize r = Inr v"
    and "\<And>w. rbind (interpret_kind x k w) (\<lambda>u. rbind (apply_transforms x ts u) leaf) = Inr (P w)"
  shows "p_kind p = k \<Longrightarrow> p_transforms p = ts \<Longrightarrow>
    quantified x bs p leaf = Inr (in_scope v (p_steps p) P)"
proof (induction "quantifiers (p_steps p)" arbitrary: p rule: less_induct)
  case less
  have ext: "extract_value x bs ss = Inr (at_path v ss)" for ss
    using assms(1,2) by (simp add: extract_value_def select_materialize)
  show ?case
  proof (cases "quantifier_position (p_steps p)")
    case None
    then have n: "\<not> list_ex is_quantifier (p_steps p)" by (simp add: quantifier_position_None)
    have "in_scope v (p_steps p) P = P (at_path v (p_steps p))"
      using n by (cases "p_steps p") (auto simp: is_quantifier_def)
    then show ?thesis
      using n assms(3)[of "at_path v (p_steps p)"] less.prems
      by (simp add: quantified_plain path_value_def ext rbind_assoc)
  next
    case (Some i)
    note q = quantifier_position_Some[OF Some]
    define a b s where "a = take i (p_steps p)" and "b = drop (Suc i) (p_steps p)" and "s = p_steps p ! i"
    have p: "p_steps p = a @ s # b" "length a = i" using q a_def b_def s_def by auto
    have na: "\<not> list_ex is_quantifier a"
      using Some by (auto simp: a_def quantifier_position_def Let_def list_ex_iff takeWhile_eq_take[symmetric]
          split: if_splits dest: set_takeWhileD)
    have sub: "quantified x bs (p\<lparr>p_steps := (p_steps p)[i := SIndex n]\<rparr>) leaf = Inr (in_scope (items ! n) b P)"
      if "at_path v a = Array items" "n < length items" for items n
    proof -
      have "(p_steps p)[i := SIndex n] = a @ SIndex n # b" using p by (simp add: list_update_append)
      then show ?thesis
        using less.hyps[of "p\<lparr>p_steps := (p_steps p)[i := SIndex n]\<rparr>"] quantifiers_update[OF Some, of n]
          less.prems in_scope_array[OF na that(1)] in_scope_index[OF that(2)] by simp
    qed
    have u: "quantified x bs p leaf = (case at_path v a of
        Array items \<Rightarrow> decide (s = SAll)
          (\<lambda>n. quantified x bs (p\<lparr>p_steps := (p_steps p)[i := SIndex n]\<rparr>) leaf) [0..<length items]
      | _ \<Rightarrow> Inr False)"
      unfolding a_def s_def by (subst quantified.simps) (simp add: Some ext)
    have scope: "in_scope v (p_steps p) P = (case at_path v a of
        Array vs \<Rightarrow> (if s = SAll then \<forall>w \<in> set vs. in_scope w b P else \<exists>w \<in> set vs. in_scope w b P)
      | _ \<Rightarrow> False)"
      unfolding p(1) using na q(2) s_def by (intro in_scope_prefix) auto
    show ?thesis
    proof (cases "at_path v a")
      case (Array items)
      have "decide (s = SAll) (\<lambda>n. quantified x bs (p\<lparr>p_steps := (p_steps p)[i := SIndex n]\<rparr>) leaf)
          [0..<length items] =
          Inr (if s = SAll then \<forall>n \<in> set [0..<length items]. in_scope (items ! n) b P
               else \<exists>n \<in> set [0..<length items]. in_scope (items ! n) b P)"
        using sub[OF Array] by (intro decide_total) simp
      moreover have "(\<forall>n \<in> set [0..<length items]. in_scope (items ! n) b P) = (\<forall>w \<in> set items. in_scope w b P)"
          "(\<exists>n \<in> set [0..<length items]. in_scope (items ! n) b P) = (\<exists>w \<in> set items. in_scope w b P)"
        by (fastforce simp: in_set_conv_nth)+
      ultimately show ?thesis
        unfolding u scope Array "value.case" by (simp only:)
    qed (simp_all add: u scope)
  qed
qed

text \<open>C18. A quantified path means what it says: on a document that decodes, \<open>any\<close> and \<open>all\<close> steps are
  existential and universal over the array they stand on, nested ones each in its own scope (an
  empty array satisfies \<open>all\<close>), whenever the leaf test answers on every value.\<close>

theorem quantified_scopes:
  assumes "from_slice x bs = Some r" "materialize r = Inr v"
    and "\<And>w. rbind (interpret_kind x (p_kind p) w)
      (\<lambda>u. rbind (apply_transforms x (p_transforms p) u) leaf) = Inr (P w)"
  shows "quantified x bs p leaf = Inr (in_scope v (p_steps p) P)"
  using quantified_scopes_aux[OF assms] by simp

theorem quantified_scopes_witness:
  "quantified (plain_ext (\<lambda>_. Some (RArray [RArray [], RArray [RNull, RNumber ''1'']]))) []
     \<lparr>p_steps = [SAny, SAll], p_kind = Auto, p_transforms = []\<rparr> (\<lambda>v. Inr (presence_test Exists v)) =
   Inr (in_scope (Array [Array [], Array [Null, Number ''1'']]) [SAny, SAll] (presence_test Exists)) \<and>
   in_scope (Array [Array [], Array [Null, Number ''1'']]) [SAny, SAll] (presence_test Exists)"
proof -
  have m: "materialize (RArray [RArray [], RArray [RNull, RNumber ''1'']]) =
      Inr (Array [Array [], Array [Null, Number ''1'']])" by simp
  have leaf: "rbind (interpret_kind x Auto w) (\<lambda>u. rbind (apply_transforms x [] u)
      (\<lambda>v. Inr (presence_test Exists v))) = Inr (presence_test Exists w)" for x w
    by (cases w) auto
  have "quantified (plain_ext (\<lambda>_. Some (RArray [RArray [], RArray [RNull, RNumber ''1'']]))) []
      \<lparr>p_steps = [SAny, SAll], p_kind = Auto, p_transforms = []\<rparr> (\<lambda>v. Inr (presence_test Exists v)) =
      Inr (in_scope (Array [Array [], Array [Null, Number ''1'']])
        (p_steps \<lparr>p_steps = [SAny, SAll], p_kind = Auto, p_transforms = []\<rparr>) (presence_test Exists))"
    by (rule quantified_scopes[OF _ m]) (simp, simp only: path.select_convs leaf)
  then show ?thesis by simp
qed

section \<open>Comparison operators\<close>

lemma append_value_objects: "append_value rv False v = Inr a \<Longrightarrow> append_value rv True v = Inr a"
proof (induction rv False v arbitrary: a rule: append_value.induct)
  case (7 rv vs)
  then obtain bs where bs: "mapM (append_value rv False) vs = Inr bs" "a = 8 # concat bs @ [0]" by auto
  have "mapM (append_value rv True) vs = Inr bs"
    using bs(1) "7.hyps"
    by (auto simp: mapM_Inr_all2 list_all2_conv_all_nth)
  then show ?case using bs(2) by simp
qed auto

lemma compare_values_vcmp:
  assumes "raw_numbers (raw_token x)" "value_ok v" "value_ok w"
    and "encode (raw_token x) v = Inr a" "encode (raw_token x) w = Inr b"
    and "kind_tag v = kind_tag w" "\<not> is_empty v"
  shows "compare_values x v w = Inr (Some (vcmp (raw_token x) v w))"
proof -
  have k: "encode_equality (raw_token x) v = Inr a" "encode_equality (raw_token x) w = Inr b"
    using assms(4,5) by (simp_all add: encode_def encode_equality_def append_value_objects)
  have "\<not> is_empty w" using assms(6,7) by (cases v; cases w) auto
  then show ?thesis
    using assms(6,7) k encode_cmp(1)[OF assms(1-3) k[unfolded encode_equality_def]]
    by (simp add: compare_values_def)
qed

text \<open>C19. The comparison operators of a predicate follow the order of values: on two non-null values of one
  kind that have ordered keys, \<open>eq\<close>, \<open>ne\<close>, \<open>gt\<close>, \<open>ge\<close>, \<open>lt\<close>, \<open>le\<close> answer by the exact order, and
  \<open>between\<close> is half open, its lower bound included and its upper bound not.\<close>

theorem scalar_orders:
  assumes "raw_numbers (raw_token x)" "value_ok v" "value_ok w" "value_ok u"
    and "encode (raw_token x) v = Inr a" "encode (raw_token x) w = Inr b" "encode (raw_token x) u = Inr c"
    and "kind_tag v = kind_tag w" "kind_tag v = kind_tag u" "\<not> is_empty v"
  shows "scalar x Eq [w] v = Inr (vcmp (raw_token x) v w = Equal) \<and>
    scalar x Ne [w] v = Inr (vcmp (raw_token x) v w \<noteq> Equal) \<and>
    scalar x Gt [w] v = Inr (vcmp (raw_token x) v w = Greater) \<and>
    scalar x Ge [w] v = Inr (vcmp (raw_token x) v w \<noteq> Less) \<and>
    scalar x Lt [w] v = Inr (vcmp (raw_token x) v w = Less) \<and>
    scalar x Le [w] v = Inr (vcmp (raw_token x) v w \<noteq> Greater) \<and>
    scalar x Between [w, u] v =
      Inr (vcmp (raw_token x) v w \<noteq> Less \<and> vcmp (raw_token x) v u = Less)"
  using compare_values_vcmp[OF assms(1,2,3,5,6,8,10)] compare_values_vcmp[OF assms(1,2,4,5,7,9,10)] assms(5-7)
  by (simp add: scalar_def is_ordering_op_def)

theorem scalar_orders_witness:
  "scalar (plain_ext (\<lambda>_. None)) Between [Number ''1.5'', Number ''2''] (Number ''15e-1'') = Inr True"
proof -
  have p: "parse plain_decimal ''1.5'' = Inr \<lparr>negative = False, digits = ''15'', exponent = 1\<rparr>"
    "parse plain_decimal ''15e-1'' = Inr \<lparr>negative = False, digits = ''15'', exponent = 1\<rparr>"
    "parse plain_decimal ''2'' = Inr \<lparr>negative = False, digits = ''2'', exponent = 1\<rparr>" by code_simp+
  have d: "dec_val \<lparr>negative = False, digits = ''15'', exponent = 1\<rparr> <
      dec_val \<lparr>negative = False, digits = ''2'', exponent = 1\<rparr>" by code_simp
  obtain a b c where "encode plain_decimal (Number ''15e-1'') = Inr a"
      "encode plain_decimal (Number ''1.5'') = Inr b" "encode plain_decimal (Number ''2'') = Inr c"
    using p by (simp add: encode_def)
  then show ?thesis
    using scalar_orders[of "plain_ext (\<lambda>_. None)" "Number ''15e-1''" "Number ''1.5''" "Number ''2''" a b c]
      raw_numbers_plain p d by (simp add: num_of_def ord_cmp_def)
qed

end
