(* ===== verification/Clove_Memory.thy ===== *)
theory Clove_Memory
  imports Clove_Prelude
begin

text \<open>
  The guarded allocations of \<^verbatim>\<open>src/memory.rs\<close>. What the system answers to a request is the parameter
  \<open>heap\<close>: for a site and a number of items, \<open>None\<close> grants the request and \<open>Some b\<close> refuses it,
  \<open>b\<close> being its size in bytes.
\<close>

type_synonym heap = "string \<Rightarrow> nat \<Rightarrow> nat option"

definition PROBE_MIN :: nat where "PROBE_MIN = 2 ^ 20"

definition ALLOC_SITES :: "string list" where
  "ALLOC_SITES = [''write.change_rows'', ''write.single_row'', ''journal.encode_row'', ''journal.read_rows'',
     ''journal.table_entries'', ''repository.list_rows'', ''backup.encode_record'', ''index.row_terms'',
     ''query.collect_rows'', ''index.trigram_build'']"

definition refused :: "string \<Rightarrow> nat \<Rightarrow> cl_error" where
  "refused site bytes = OutOfMemory site bytes"

definition mem_reserve :: "heap \<Rightarrow> string \<Rightarrow> nat \<Rightarrow> unit res" where
  "mem_reserve h site n = (case h site n of None \<Rightarrow> Inr () | Some bytes \<Rightarrow> Inl (refused site bytes))"

definition vec_with_capacity :: "heap \<Rightarrow> string \<Rightarrow> nat \<Rightarrow> 'a list res" where
  "vec_with_capacity h site n = rbind (mem_reserve h site n) (\<lambda>_. Inr [])"

definition mem_push :: "heap \<Rightarrow> string \<Rightarrow> 'a list \<Rightarrow> 'a \<Rightarrow> 'a list res" where
  "mem_push h site v item = rbind (mem_reserve h site 1) (\<lambda>_. Inr (v @ [item]))"

definition copy_bytes :: "heap \<Rightarrow> string \<Rightarrow> bytes \<Rightarrow> bytes res" where
  "copy_bytes h site src = rbind (vec_with_capacity h site (length src)) (\<lambda>v. Inr (v @ src))"

definition copy_str :: "heap \<Rightarrow> string \<Rightarrow> string \<Rightarrow> string res" where
  "copy_str h site src = rbind (copy_bytes h site (as_bytes src)) (\<lambda>bs. Inr (chars_of bs))"

definition mem_probe :: "heap \<Rightarrow> string \<Rightarrow> nat \<Rightarrow> unit res" where
  "mem_probe h site n = (if n < PROBE_MIN then Inr () else mem_reserve h site n)"

text \<open>A system that never refuses.\<close>

definition roomy :: heap where "roomy = (\<lambda>_ _. None)"

lemma mem_reserve_Inr [simp]: "mem_reserve h site n = Inr u \<longleftrightarrow> h site n = None"
  by (auto simp: mem_reserve_def split: option.splits)

lemma vec_with_capacity_Inr [simp]: "vec_with_capacity h site n = Inr v \<longleftrightarrow> h site n = None \<and> v = []"
  by (auto simp: vec_with_capacity_def)

lemma mem_push_Inr [simp]: "mem_push h site v a = Inr w \<longleftrightarrow> h site 1 = None \<and> w = v @ [a]"
  by (auto simp: mem_push_def)

lemma copy_bytes_Inr [simp]: "copy_bytes h site src = Inr v \<longleftrightarrow> h site (length src) = None \<and> v = src"
  by (auto simp: copy_bytes_def)

lemma copy_str_Inr [simp]: "copy_str h site src = Inr v \<longleftrightarrow> h site (length src) = None \<and> v = src"
  by (auto simp: copy_str_def)

lemma roomy_simps [simp]: "roomy site n = None" "mem_reserve roomy site n = Inr ()"
  "mem_push roomy site v a = Inr (v @ [a])" "copy_bytes roomy site src = Inr src"
  by (simp_all add: roomy_def mem_push_def copy_bytes_def vec_with_capacity_def mem_reserve_def)

lemma mem_error: "mem_reserve h site n = Inl e \<longleftrightarrow> (\<exists>b. h site n = Some b \<and> e = OutOfMemory site b)"
  by (auto simp: mem_reserve_def refused_def split: option.splits)

end
