(* ===== verification/Journal_Codec.thy ===== *)
theory Journal_Codec
  imports Clove_Memory
begin

text \<open>
  The rows of the change log (\<^verbatim>\<open>src/journal.rs\<close>): \<open>ChangeKind\<close>, its byte form, and the rule for table
  names. A row is a version byte, a tag, three length-prefixed parts and a size.
\<close>

datatype change_kind =
    Upsert (ck_table: string) string bytes
  | Delete (ck_table: string) string
  | TableReset (ck_table: string) string
  | BlobPut (ck_table: string) string string nat
  | BlobDelete (ck_table: string) string string nat

record change =
  ch_seq :: nat
  ch_kind :: change_kind

fun change_parts :: "change_kind \<Rightarrow> u8 \<times> string \<times> string \<times> bytes \<times> nat" where
  "change_parts (Upsert table key val) = (0, table, key, val, 0)"
| "change_parts (Delete table key) = (1, table, key, [], 0)"
| "change_parts (TableReset table snapshot) = (2, table, [], as_bytes snapshot, 0)"
| "change_parts (BlobPut table key blob_id sz) = (3, table, key, as_bytes blob_id, sz)"
| "change_parts (BlobDelete table key blob_id sz) = (4, table, key, as_bytes blob_id, sz)"

definition put_part :: "bytes \<Rightarrow> bytes res" where
  "put_part part = rbind (guard_ok (length part \<le> u64_max) (Validation ''journal row too large''))
     (\<lambda>_. Inr (u64_be (length part) @ part))"

definition change_encode :: "heap \<Rightarrow> change_kind \<Rightarrow> bytes res" where
  "change_encode h c = (case change_parts c of (tag, table, key, payload, sz) \<Rightarrow>
     rbind (vec_with_capacity h ''journal.encode_row''
       (2 + 3 * 8 + length table + length key + length payload + 8)) (\<lambda>bytes.
     rbind (mapM put_part [as_bytes table, as_bytes key, payload]) (\<lambda>parts.
     Inr (bytes @ [1, tag] @ concat parts @ u64_be sz))))"

definition bad :: cl_error where
  "bad = Validation ''corrupt or unsupported journal row''"

text \<open>The reader's cursor is the rest of the bytes, returned with what was read.\<close>

definition take_n :: "bytes \<Rightarrow> nat \<Rightarrow> (bytes \<times> bytes) res" where
  "take_n bs n = (if length bs < n then Inl bad else Inr (take n bs, drop n bs))"

definition take_number :: "bytes \<Rightarrow> (nat \<times> bytes) res" where
  "take_number bs = rbind (take_n bs 8) (\<lambda>(a, b). Inr (from_be a, b))"

definition take_part :: "bytes \<Rightarrow> (bytes \<times> bytes) res" where
  "take_part bs = rbind (take_number bs) (\<lambda>(len, b). take_n b len)"

definition take_text :: "bytes \<Rightarrow> (string \<times> bytes) res" where
  "take_text bs = rbind (take_part bs) (\<lambda>(a, b). rbind (ok_or bad (from_utf8 a)) (\<lambda>s. Inr (s, b)))"

definition change_decode :: "heap \<Rightarrow> bytes \<Rightarrow> change_kind res" where
  "change_decode h bs =
     rbind (take_n bs 1) (\<lambda>(v, bs).
     if v \<noteq> [1] then Inl bad else
     rbind (take_n bs 1) (\<lambda>(tag, bs).
     rbind (take_text bs) (\<lambda>(table, bs).
     rbind (take_text bs) (\<lambda>(key, bs).
     rbind (take_part bs) (\<lambda>(part, bs).
     rbind (copy_bytes h ''journal.read_rows'' part) (\<lambda>payload.
     rbind (take_number bs) (\<lambda>(sz, bs).
     if bs \<noteq> [] then Inl bad else
     (if tag = [0] then Inr (Upsert table key payload)
      else if tag = [1] then Inr (Delete table key)
      else if tag = [2] then rbind (ok_or bad (from_utf8 payload)) (\<lambda>s. Inr (TableReset table s))
      else if tag = [3] then rbind (ok_or bad (from_utf8 payload)) (\<lambda>s. Inr (BlobPut table key s sz))
      else if tag = [4] then rbind (ok_or bad (from_utf8 payload)) (\<lambda>s. Inr (BlobDelete table key s sz))
      else Inl bad))))))))"

definition starts_with_reserved :: "string \<Rightarrow> bool" where
  "starts_with_reserved name \<longleftrightarrow> take 2 name = ''__''"

definition validate_table :: "string \<Rightarrow> unit res" where
  "validate_table name = guard_ok (\<not> starts_with_reserved name) (Validation ''table prefix __ is reserved'')"

section \<open>Round trip\<close>

text \<open>What the Rust types guarantee of a change: texts are UTF-8, lengths and sizes are 64-bit.\<close>

fun change_ok :: "change_kind \<Rightarrow> bool" where
  "change_ok (Upsert t k v) \<longleftrightarrow> is_str t \<and> is_str k"
| "change_ok (Delete t k) \<longleftrightarrow> is_str t \<and> is_str k"
| "change_ok (TableReset t s) \<longleftrightarrow> is_str t \<and> is_str s"
| "change_ok (BlobPut t k b n) \<longleftrightarrow> is_str t \<and> is_str k \<and> is_str b \<and> n \<le> u64_max"
| "change_ok (BlobDelete t k b n) \<longleftrightarrow> is_str t \<and> is_str k \<and> is_str b \<and> n \<le> u64_max"

lemma take_n_append [simp]: "take_n (a @ b) (length a) = Inr (a, b)"
  by (simp add: take_n_def)

lemma take_number_be [simp]: "n \<le> u64_max \<Longrightarrow> take_number (u64_be n @ b) = Inr (n, b)"
  using take_n_append[of "u64_be n" b] by (simp add: take_number_def)

lemma take_part_append [simp]:
  "length a \<le> u64_max \<Longrightarrow> take_part (u64_be (length a) @ a @ b) = Inr (a, b)"
  by (simp add: take_part_def)

lemma take_text_append [simp]:
  "length s \<le> u64_max \<Longrightarrow> is_str s \<Longrightarrow> take_text (u64_be (length s) @ as_bytes s @ b) = Inr (s, b)"
  using take_part_append[of "as_bytes s" b] by (simp add: take_text_def)

lemma put_part_Inr [simp]: "put_part p = Inr a \<longleftrightarrow> length p \<le> u64_max \<and> a = u64_be (length p) @ p"
  by (auto simp: put_part_def)

lemma change_encode_Inr:
  assumes "change_encode h c = Inr bs" "change_parts c = (tag, table, key, payload, sz)"
  shows "bs = [1, tag] @ u64_be (length table) @ as_bytes table @ u64_be (length key) @ as_bytes key @
      u64_be (length payload) @ payload @ u64_be sz \<and>
    length table \<le> u64_max \<and> length key \<le> u64_max \<and> length payload \<le> u64_max"
  using assms by (auto simp: change_encode_def)

lemma take_head [simp]: "take_n (a # bs) 1 = Inr ([a], bs)" "take_n (a # bs) (Suc 0) = Inr ([a], bs)"
  by (simp_all add: take_n_def)

lemma take_number_last [simp]: "n \<le> u64_max \<Longrightarrow> take_number (u64_be n) = Inr (n, [])"
  using take_number_be[of n "[]"] by simp

text \<open>Decoding an encoded row gives the change, or the system's refusal to copy its payload.\<close>

lemma change_decode_encode:
  assumes "change_ok c" "change_encode h c = Inr bs"
  shows "change_decode h' bs =
    rbind (mem_reserve h' ''journal.read_rows'' (length (fst (snd (snd (snd (change_parts c))))))) (\<lambda>_. Inr c)"
proof -
  obtain tag table key payload sz where p: "change_parts c = (tag, table, key, payload, sz)"
    by (metis prod_cases5)
  have ok: "is_str table" "is_str key" "sz \<le> u64_max"
    using assms(1) p by (cases c; auto simp: is_str_def as_bytes_def u64_max_def)+
  note e = change_encode_Inr[OF assms(2) p]
  have "change_decode h' bs =
     rbind (copy_bytes h' ''journal.read_rows'' payload) (\<lambda>payload.
       if tag = 0 then Inr (Upsert table key payload)
       else if tag = 1 then Inr (Delete table key)
       else if tag = 2 then rbind (ok_or bad (from_utf8 payload)) (\<lambda>s. Inr (TableReset table s))
       else if tag = 3 then rbind (ok_or bad (from_utf8 payload)) (\<lambda>s. Inr (BlobPut table key s sz))
       else if tag = 4 then rbind (ok_or bad (from_utf8 payload)) (\<lambda>s. Inr (BlobDelete table key s sz))
       else Inl bad)"
    using e ok by (simp add: change_decode_def cong: if_cong)
  then show ?thesis
    using assms(1) p by (cases c) (auto simp: copy_bytes_def vec_with_capacity_def rbind_assoc)
qed

text \<open>Reading is local: what follows the bytes read is handed on.\<close>

lemma take_n_extend: "take_n a k = Inr (p, r) \<Longrightarrow> take_n (a @ b) k = Inr (p, r @ b)"
  by (auto simp: take_n_def split: if_splits)

lemma take_number_extend:
  assumes "take_number a = Inr (n, r)"
  shows "take_number (a @ b) = Inr (n, r @ b)"
proof -
  obtain p where "take_n a 8 = Inr (p, r)" "n = from_be p" using assms by (auto simp: take_number_def)
  then show ?thesis using take_n_extend[of a 8 p r b] by (simp add: take_number_def)
qed

lemma take_part_extend:
  assumes "take_part a = Inr (p, r)"
  shows "take_part (a @ b) = Inr (p, r @ b)"
proof -
  obtain n c where "take_number a = Inr (n, c)" "take_n c n = Inr (p, r)"
    using assms by (auto simp: take_part_def)
  then show ?thesis
    using take_number_extend[of a n c b] take_n_extend[of c n p r b] by (simp add: take_part_def)
qed

lemma take_text_extend:
  assumes "take_text a = Inr (s, r)"
  shows "take_text (a @ b) = Inr (s, r @ b)"
proof -
  obtain p where "take_part a = Inr (p, r)" "from_utf8 p = Some s" using assms by (auto simp: take_text_def)
  then show ?thesis using take_part_extend[of a p r b] by (simp add: take_text_def)
qed

lemma change_decode_extend:
  assumes "change_decode h bs = Inr c" "ext \<noteq> []"
  shows "change_decode h (bs @ ext) = Inl bad"
proof -
  obtain b1 tag b2 table b3 key b4 part b5 sz where
    "take_n bs 1 = Inr ([1], b1)" "take_n b1 1 = Inr (tag, b2)" "take_text b2 = Inr (table, b3)"
    "take_text b3 = Inr (key, b4)" "take_part b4 = Inr (part, b5)"
    "h ''journal.read_rows'' (length part) = None" "take_number b5 = Inr (sz, [])"
    using assms(1) by (auto simp: change_decode_def split: if_splits)
  then show ?thesis
    using assms(2) take_n_extend[of bs 1 _ _ ext] take_n_extend[of b1 1 _ _ ext] take_text_extend[of b2 _ _ ext]
      take_text_extend[of b3 _ _ ext] take_part_extend[of b4 _ _ ext] take_number_extend[of b5 _ _ ext]
    by (simp add: change_decode_def copy_bytes_def vec_with_capacity_def mem_reserve_def)
qed

text \<open>C23. A change survives its stored form: the row \<open>encode\<close> writes decodes to the change itself, and every
  proper prefix of the row is rejected, so a row cut short is never taken for another change.\<close>

theorem change_roundtrip:
  assumes "change_ok c" "change_encode h c = Inr bs"
  shows "change_decode roomy bs = Inr c \<and>
    (\<forall>h' n. n < length bs \<longrightarrow> (\<exists>e. change_decode h' (take n bs) = Inl e))"
proof (intro conjI allI impI)
  show "change_decode roomy bs = Inr c" using change_decode_encode[OF assms] by simp
  fix h' n
  assume n: "n < length bs"
  show "\<exists>e. change_decode h' (take n bs) = Inl e"
  proof (cases "change_decode h' (take n bs)")
    case (Inr c')
    from change_decode_extend[OF this, of "drop n bs"] n have "change_decode h' bs = Inl bad" by simp
    then show ?thesis
      using change_decode_encode[OF assms, of h'] by (auto simp: rbind_eq_Inl mem_error bad_def)
  qed simp
qed

theorem change_roundtrip_witness:
  "change_encode roomy (BlobPut ''n'' ''k'' ''i'' 7) = Inr ([1, 3] @ u64_be 1 @ [110] @ u64_be 1 @ [107] @
      u64_be 1 @ [105] @ u64_be 7) \<and>
   change_decode roomy ([1, 3] @ u64_be 1 @ [110] @ u64_be 1 @ [107] @ u64_be 1 @ [105] @ u64_be 7) =
     Inr (BlobPut ''n'' ''k'' ''i'' 7)"
proof -
  have ok: "change_ok (BlobPut ''n'' ''k'' ''i'' 7)"
    by (simp add: is_str_def as_bytes_def u8_in_def u64_max_def)
  have enc: "change_encode roomy (BlobPut ''n'' ''k'' ''i'' 7) = Inr ([1, 3] @ u64_be 1 @ [110] @ u64_be 1 @
      [107] @ u64_be 1 @ [105] @ u64_be 7)"
    by (simp add: change_encode_def put_part_def u64_max_def vec_with_capacity_def as_bytes_def)
  show ?thesis using change_roundtrip[OF ok enc] enc by blast
qed

end
