(* ===== verification/Database.thy ===== *)
theory Database
  imports Journal_Codec Fields_Extract "HOL-Library.Product_Lexorder"
begin

text \<open>
  The state of one database file: the tables the library keeps beside the user's, as a record, with
  the primitive operations on them (\<^verbatim>\<open>src/journal.rs\<close>, \<^verbatim>\<open>src/lastwrite.rs\<close>, \<^verbatim>\<open>src/journal_blob.rs\<close>).
  A write transaction is a state that replaces the old one when it commits; an error keeps the old
  state, because nothing is committed. Rows the library serializes with derived \<open>serde\<close> code
  (consumers, references, constraint definitions, pairs of names) are kept as the values they
  stand for; the rows of the change log and the counters are kept as bytes.
\<close>

section \<open>The tables\<close>

record consumer =
  generation :: nat
  acked_seq :: nat
  registered_at :: int
  active :: bool
  internal :: bool
  needs_rebuild :: bool

record blob_ref =
  blob_id :: string
  blob_size :: nat

type_synonym unique_key = "string \<times> nat \<times> bytes"

record db =
  seq_table :: "(string, bytes) table"
  changes_table :: "(nat, bytes) table"
  consumers_table :: "(string, consumer) table"
  lastwrite_table :: "(string \<times> string, nat) table"
  id_defs :: "(string, path) table"
  unique_defs :: "(string, path list list) table"
  unique_keys :: "(unique_key, string) table"
  unique_rows :: "(string \<times> string, unique_key list) table"
  blob_refs :: "(string \<times> string, blob_ref) table"
  user_tables :: "(string, (string, bytes) table) table"
  reset_blobs :: "(string, (string \<times> string, blob_ref) table) table"

definition empty_db :: db where
  "empty_db = \<lparr>seq_table = [], changes_table = [], consumers_table = [], lastwrite_table = [], id_defs = [],
     unique_defs = [], unique_keys = [], unique_rows = [], blob_refs = [], user_tables = [], reset_blobs = []\<rparr>"

text \<open>
  Opening a table in a write transaction creates it when it is missing; in a read transaction a
  missing table is an error.
\<close>

definition rows_of :: "db \<Rightarrow> string \<Rightarrow> (string, bytes) table" where
  "rows_of d t = (case tbl_get (user_tables d) t of Some rows \<Rightarrow> rows | None \<Rightarrow> [])"

definition open_write :: "db \<Rightarrow> string \<Rightarrow> db" where
  "open_write d t = (case tbl_get (user_tables d) t of
     Some _ \<Rightarrow> d | None \<Rightarrow> d\<lparr>user_tables := tbl_insert (user_tables d) t []\<rparr>)"

definition open_read :: "db \<Rightarrow> string \<Rightarrow> (string, bytes) table res" where
  "open_read d t = ok_or (cl_error.Database (TableDoesNotExist t)) (tbl_get (user_tables d) t)"

definition set_rows :: "db \<Rightarrow> string \<Rightarrow> (string, bytes) table \<Rightarrow> db" where
  "set_rows d t rows = d\<lparr>user_tables := tbl_insert (user_tables d) t rows\<rparr>"

definition put_row :: "db \<Rightarrow> string \<Rightarrow> string \<Rightarrow> bytes \<Rightarrow> db" where
  "put_row d t k v = set_rows d t (tbl_insert (rows_of d t) k v)"

definition del_row :: "db \<Rightarrow> string \<Rightarrow> string \<Rightarrow> db" where
  "del_row d t k = set_rows d t (tbl_remove (rows_of d t) k)"

definition get_row :: "db \<Rightarrow> string \<Rightarrow> string \<Rightarrow> bytes option" where
  "get_row d t k = tbl_get (rows_of d t) k"

definition drop_table :: "db \<Rightarrow> string \<Rightarrow> db" where
  "drop_table d t = d\<lparr>user_tables := tbl_remove (user_tables d) t\<rparr>"

section \<open>Counters\<close>

definition number :: "db \<Rightarrow> string \<Rightarrow> nat res" where
  "number d key = rbind (ok_or (Validation ''missing journal metadata'') (tbl_get (seq_table d) key)) (\<lambda>v.
     rbind (guard_ok (length v = 8) (Validation ''corrupt journal metadata'')) (\<lambda>_. Inr (from_be v)))"

definition put_number :: "db \<Rightarrow> string \<Rightarrow> nat \<Rightarrow> db" where
  "put_number d key v = d\<lparr>seq_table := tbl_insert (seq_table d) key (u64_be v)\<rparr>"

definition db_uuid :: "db \<Rightarrow> bytes res" where
  "db_uuid d = ok_or (Validation ''missing database uuid'') (tbl_get (seq_table d) ''db_uuid'')"

definition ADOPTION_DUE :: string where "ADOPTION_DUE = ''blob_adopt_due''"

definition mark_adoption_due :: "db \<Rightarrow> db" where
  "mark_adoption_due d = (if tbl_get (seq_table d) ''head'' = None
     then d\<lparr>seq_table := tbl_insert (seq_table d) ADOPTION_DUE [1]\<rparr> else d)"

text \<open>\<open>initialize\<close>; the other tables it opens are fields of the record. \<open>uuid\<close> is the new identity.\<close>

definition initialize :: "bytes \<Rightarrow> db \<Rightarrow> db" where
  "initialize uuid d = (if tbl_get (seq_table d) ''head'' = None
     then d\<lparr>seq_table := tbl_insert (foldl (\<lambda>t (k, v). tbl_insert t k (u64_be v)) (seq_table d)
        [(''head'', 0), (''journal_bytes'', 0), (''floor'', 1), (''reset_generation'', 0),
         (''consumer_generation'', 0)]) ''db_uuid'' uuid\<rparr>
     else d)"

section \<open>Last writes\<close>

definition lastwrite_get :: "db \<Rightarrow> string \<Rightarrow> string \<Rightarrow> nat" where
  "lastwrite_get d t k = (case tbl_get (lastwrite_table d) (t, k) of Some s \<Rightarrow> s | None \<Rightarrow> 0)"

definition lastwrite_apply :: "db \<Rightarrow> change_kind \<Rightarrow> nat \<Rightarrow> db" where
  "lastwrite_apply d c s = (case c of
      Upsert t k v \<Rightarrow> d\<lparr>lastwrite_table := tbl_insert (lastwrite_table d) (t, k) s\<rparr>
    | Delete t k \<Rightarrow> d\<lparr>lastwrite_table := tbl_remove (lastwrite_table d) (t, k)\<rparr>
    | TableReset t snapshot \<Rightarrow>
        (let kept = filter (\<lambda>((name, _), _). name \<noteq> t) (lastwrite_table d);
             d = open_write d t
         in d\<lparr>lastwrite_table := foldl (\<lambda>l (k, _). tbl_insert l (t, k) s) kept (rows_of d t)\<rparr>)
    | _ \<Rightarrow> d)"

section \<open>References to attachments\<close>

definition blob_get :: "db \<Rightarrow> string \<Rightarrow> string \<Rightarrow> blob_ref option" where
  "blob_get d t k = tbl_get (blob_refs d) (t, k)"

definition blob_put :: "db \<Rightarrow> string \<Rightarrow> string \<Rightarrow> blob_ref \<Rightarrow> change_kind list \<Rightarrow> db \<times> change_kind list" where
  "blob_put d t k r changes =
     (d\<lparr>blob_refs := tbl_insert (blob_refs d) (t, k) r\<rparr>, changes @ [BlobPut t k (blob_id r) (blob_size r)])"

definition blob_remove :: "db \<Rightarrow> string \<Rightarrow> string \<Rightarrow> change_kind list \<Rightarrow> bool \<times> db \<times> change_kind list" where
  "blob_remove d t k changes = (case tbl_get (blob_refs d) (t, k) of
      Some old \<Rightarrow> (True, d\<lparr>blob_refs := tbl_remove (blob_refs d) (t, k)\<rparr>,
        changes @ [BlobDelete t k (blob_id old) (blob_size old)])
    | None \<Rightarrow> (False, d\<lparr>blob_refs := tbl_remove (blob_refs d) (t, k)\<rparr>, changes))"

section \<open>Laws of rows and counters\<close>

text \<open>Every table is an ordered map.\<close>

definition tables_ok :: "db \<Rightarrow> bool" where
  "tables_ok d \<longleftrightarrow> tbl_ok (seq_table d) \<and> tbl_ok (changes_table d) \<and> tbl_ok (consumers_table d) \<and>
     tbl_ok (lastwrite_table d) \<and> tbl_ok (id_defs d) \<and> tbl_ok (unique_defs d) \<and> tbl_ok (unique_keys d) \<and>
     tbl_ok (unique_rows d) \<and> tbl_ok (blob_refs d) \<and> tbl_ok (user_tables d) \<and>
     (\<forall>r \<in> set (user_tables d). tbl_ok (snd r)) \<and> tbl_ok (reset_blobs d)"

lemma tables_ok_rows [simp]: "tables_ok d \<Longrightarrow> tbl_ok (rows_of d t)"
  by (auto simp: tables_ok_def rows_of_def tbl_get_iff split: option.splits)

lemma tables_ok_set_rows: "tables_ok d \<Longrightarrow> tbl_ok rows \<Longrightarrow> tables_ok (set_rows d t rows)"
  by (auto simp: tables_ok_def set_rows_def set_tbl_insert)

lemma tables_ok_put_row [simp]: "tables_ok d \<Longrightarrow> tables_ok (put_row d t k v)"
  by (simp add: put_row_def tables_ok_set_rows)

lemma tables_ok_del_row [simp]: "tables_ok d \<Longrightarrow> tables_ok (del_row d t k)"
  by (simp add: del_row_def tables_ok_set_rows)

lemma tables_ok_drop [simp]: "tables_ok d \<Longrightarrow> tables_ok (drop_table d t)"
  by (auto simp: tables_ok_def drop_table_def set_tbl_remove)

lemma tables_ok_open [simp]: "tables_ok d \<Longrightarrow> tables_ok (open_write d t)"
  by (auto simp: tables_ok_def open_write_def set_tbl_insert split: option.splits)

lemma open_write_frame [simp]:
  "seq_table (open_write d t) = seq_table d"
  "changes_table (open_write d t) = changes_table d"
  "consumers_table (open_write d t) = consumers_table d"
  "lastwrite_table (open_write d t) = lastwrite_table d"
  "id_defs (open_write d t) = id_defs d"
  "unique_defs (open_write d t) = unique_defs d"
  "unique_keys (open_write d t) = unique_keys d"
  "unique_rows (open_write d t) = unique_rows d"
  "blob_refs (open_write d t) = blob_refs d"
  "reset_blobs (open_write d t) = reset_blobs d"
  by (simp_all add: open_write_def split: option.split)

lemma set_rows_frame [simp]:
  "seq_table (set_rows d t r) = seq_table d"
  "changes_table (set_rows d t r) = changes_table d"
  "consumers_table (set_rows d t r) = consumers_table d"
  "lastwrite_table (set_rows d t r) = lastwrite_table d"
  "id_defs (set_rows d t r) = id_defs d"
  "unique_defs (set_rows d t r) = unique_defs d"
  "unique_keys (set_rows d t r) = unique_keys d"
  "unique_rows (set_rows d t r) = unique_rows d"
  "blob_refs (set_rows d t r) = blob_refs d"
  "reset_blobs (set_rows d t r) = reset_blobs d"
  by (simp_all add: set_rows_def)

lemma drop_table_frame [simp]:
  "seq_table (drop_table d t) = seq_table d"
  "changes_table (drop_table d t) = changes_table d"
  "consumers_table (drop_table d t) = consumers_table d"
  "lastwrite_table (drop_table d t) = lastwrite_table d"
  "id_defs (drop_table d t) = id_defs d"
  "unique_defs (drop_table d t) = unique_defs d"
  "unique_keys (drop_table d t) = unique_keys d"
  "unique_rows (drop_table d t) = unique_rows d"
  "blob_refs (drop_table d t) = blob_refs d"
  "reset_blobs (drop_table d t) = reset_blobs d"
  by (simp_all add: drop_table_def)

lemmas row_defs = put_row_def del_row_def

lemma rows_of_set_rows: "tables_ok d \<Longrightarrow> rows_of (set_rows d t rows) u = (if u = t then rows else rows_of d u)"
  by (simp add: rows_of_def set_rows_def tables_ok_def)

lemma rows_of_open [simp]: "tables_ok d \<Longrightarrow> rows_of (open_write d t) u = rows_of d u"
  by (auto simp: rows_of_def open_write_def tables_ok_def split: option.split)

lemma get_put_row: "tables_ok d \<Longrightarrow>
    get_row (put_row d t k v) u j = (if u = t \<and> j = k then Some v else get_row d u j)"
  by (simp add: get_row_def put_row_def rows_of_set_rows)

lemma get_del_row: "tables_ok d \<Longrightarrow>
    get_row (del_row d t k) u j = (if u = t \<and> j = k then None else get_row d u j)"
  by (simp add: get_row_def del_row_def rows_of_set_rows)

lemma number_put_number: "tbl_ok (seq_table d) \<Longrightarrow> v \<le> u64_max \<Longrightarrow>
    number (put_number d k v) j = (if j = k then Inr v else number d j)"
  by (simp add: number_def put_number_def)

end
