(* ===== verification/Constraints.thy ===== *)
theory Constraints
  imports Database
begin

text \<open>
  The synchronous constraints of a write: the declared identity of a row (\<^verbatim>\<open>src/id_contract.rs\<close>) and
  unique keys (\<^verbatim>\<open>src/unique.rs\<close>). A unique definition is its list of paths; the stored key of a row is
  the table, the number of the definition and the encoded tuple of values.
\<close>

section \<open>Row identity\<close>

definition id_check :: "ext \<Rightarrow> path \<Rightarrow> string \<Rightarrow> bytes \<Rightarrow> unit res" where
  "id_check x p key bs = rbind (path_value x bs p) (\<lambda>v. guard_ok (v = String key) IdFieldMismatch)"

definition scalar_path :: "path \<Rightarrow> bool" where
  "scalar_path p \<longleftrightarrow> p_kind p = Auto \<and> p_transforms p = [] \<and>
     list_all (\<lambda>s. case s of SKey _ \<Rightarrow> True | SIndex _ \<Rightarrow> True | _ \<Rightarrow> False) (p_steps p)"

definition id_check_rows :: "ext \<Rightarrow> path \<Rightarrow> (string, bytes) table \<Rightarrow> unit res" where
  "id_check_rows x p rows = foldM (\<lambda>_ r. id_check x p (fst r) (snd r)) () rows"

definition id_configure_one :: "ext \<Rightarrow> db \<Rightarrow> string \<times> path \<Rightarrow> db res" where
  "id_configure_one x d tp = (case tp of (t, p) \<Rightarrow>
     if \<not> scalar_path p then Inl (Validation ''id_field requires an untransformed scalar path'')
     else if tbl_get (id_defs d) t = Some p then Inr d
     else let d = open_write d t in
       rbind (id_check_rows x p (rows_of d t)) (\<lambda>_. Inr (d\<lparr>id_defs := tbl_insert (id_defs d) t p\<rparr>)))"

definition id_configure :: "ext \<Rightarrow> db \<Rightarrow> (string \<times> path) list \<Rightarrow> db res" where
  "id_configure x d configured = rbind (foldM (id_configure_one x) d configured) (\<lambda>d.
     Inr (foldl (\<lambda>d t. if \<not> list_ex (\<lambda>(u, _). u = t) configured
         then d\<lparr>id_defs := tbl_remove (id_defs d) t\<rparr> else d) d (map fst (id_defs d))))"

definition id_validate_one :: "ext \<Rightarrow> db \<Rightarrow> change_kind \<Rightarrow> db res" where
  "id_validate_one x d e = (case e of
      Upsert t k v \<Rightarrow> (case tbl_get (id_defs d) t of
          None \<Rightarrow> Inr d | Some p \<Rightarrow> rbind (id_check x p k v) (\<lambda>_. Inr d))
    | TableReset t snapshot \<Rightarrow> (case tbl_get (id_defs d) t of
          None \<Rightarrow> Inr d
        | Some p \<Rightarrow> let d = open_write d snapshot in
            rbind (id_check_rows x p (rows_of d snapshot)) (\<lambda>_. Inr d))
    | _ \<Rightarrow> Inr d)"

definition id_validate :: "ext \<Rightarrow> db \<Rightarrow> change_kind list \<Rightarrow> db res" where
  "id_validate x d effects = (if id_defs d = [] then Inr d else foldM (id_validate_one x) d effects)"

definition id_enforced :: "db \<Rightarrow> string \<Rightarrow> path \<Rightarrow> bool" where
  "id_enforced d t p \<longleftrightarrow> tbl_get (id_defs d) t = Some p"

section \<open>Unique keys\<close>

text \<open>\<open>BTreeSet\<close>: the distinct elements in order.\<close>

definition btree_set :: "'a::linorder list \<Rightarrow> 'a list" where
  "btree_set xs = sort (remdups xs)"

definition unique_scalar :: "path \<Rightarrow> unit res" where
  "unique_scalar p = guard_ok (\<not> list_ex is_quantifier (p_steps p)) (Validation ''unique requires scalar paths'')"

fun key_values :: "ext \<Rightarrow> bytes \<Rightarrow> path list \<Rightarrow> value list \<Rightarrow> value list res" where
  "key_values x bs [] acc = Inr acc"
| "key_values x bs (p # ps) acc =
     rbind (unique_scalar p) (\<lambda>_. rbind (path_value x bs p) (\<lambda>v.
       if is_empty v then Inr [] else key_values x bs ps (acc @ [v])))"

definition unique_keys_of :: "ext \<Rightarrow> string \<Rightarrow> bytes \<Rightarrow> path list list \<Rightarrow> unique_key list res" where
  "unique_keys_of x t bs defs = rbind
     (mapM (\<lambda>(i, paths). rbind (key_values x bs paths []) (\<lambda>vs.
         if vs = [] then Inr [] else rbind (encode_tuple (raw_token x) vs) (\<lambda>e. Inr [(t, i, e)])))
       (List.enumerate 0 defs)) (\<lambda>kss. Inr (concat kss))"

definition uq_remove :: "db \<Rightarrow> string \<Rightarrow> string \<Rightarrow> db" where
  "uq_remove d t row = (case tbl_get (unique_rows d) (t, row) of
      None \<Rightarrow> d\<lparr>unique_rows := tbl_remove (unique_rows d) (t, row)\<rparr>
    | Some ks \<Rightarrow> d\<lparr>unique_rows := tbl_remove (unique_rows d) (t, row),
        unique_keys := foldl tbl_remove (unique_keys d) ks\<rparr>)"

definition claim_key :: "string \<Rightarrow> (unique_key, string) table \<Rightarrow> unique_key \<Rightarrow> (unique_key, string) table res" where
  "claim_key row t key = (case tbl_get t key of
      Some owner \<Rightarrow> if owner \<noteq> row then Inl UniqueViolation else Inr (tbl_insert t key row)
    | None \<Rightarrow> Inr (tbl_insert t key row))"

definition uq_insert :: "ext \<Rightarrow> db \<Rightarrow> string \<Rightarrow> string \<Rightarrow> bytes \<Rightarrow> path list list \<Rightarrow> db res" where
  "uq_insert x d t row bs defs =
     rbind (unique_keys_of x t bs defs) (\<lambda>ks.
     rbind (foldM (claim_key row) (unique_keys d) ks) (\<lambda>t'.
     let d = d\<lparr>unique_keys := t'\<rparr> in
     Inr (if ks \<noteq> [] then d\<lparr>unique_rows := tbl_insert (unique_rows d) (t, row) ks\<rparr> else d)))"

definition uq_clear :: "db \<Rightarrow> string \<Rightarrow> db" where
  "uq_clear d t = foldl (\<lambda>d (u, k). if u = t then uq_remove d t k else d) d (map fst (unique_rows d))"

definition duplicate_groups :: "unique_key list \<Rightarrow> nat" where
  "duplicate_groups ks = length (filter (\<lambda>k. count_list ks k > 1) (remdups ks))"

definition uq_configure_one ::
    "ext \<Rightarrow> (string, path list list) table \<Rightarrow> db \<Rightarrow> string \<times> path list list \<Rightarrow> db res" where
  "uq_configure_one x old d td = (case td of (t, defs) \<Rightarrow>
     rbind (mapM unique_scalar (concat defs)) (\<lambda>_.
     if list_ex (\<lambda>(u, e). u = t \<and> e = defs) old then Inr d else
     let d = open_write d t; rows = rows_of d t in
     rbind (mapM (\<lambda>r. unique_keys_of x t (snd r) defs) rows) (\<lambda>kss.
     if duplicate_groups (concat kss) > 0 then Inl (DuplicateGroups (duplicate_groups (concat kss))) else
     rbind (foldM (\<lambda>d r. uq_insert x d t (fst r) (snd r) defs) (uq_clear d t) rows) (\<lambda>d.
     Inr (d\<lparr>unique_defs := tbl_insert (unique_defs d) t defs\<rparr>)))))"

definition uq_configure :: "ext \<Rightarrow> db \<Rightarrow> (string \<times> path list list) list \<Rightarrow> db res" where
  "uq_configure x d configured =
     (let old = unique_defs d;
          d = foldl (\<lambda>d (t, _). if \<not> list_ex (\<lambda>(u, _). u = t) configured
            then (uq_clear d t)\<lparr>unique_defs := tbl_remove (unique_defs d) t\<rparr> else d) d old
      in foldM (uq_configure_one x old) d configured)"

fun uq_touched :: "db \<Rightarrow> change_kind \<Rightarrow> (string \<times> string) option" where
  "uq_touched d (Upsert t k v) = (if tbl_get (unique_defs d) t \<noteq> None then Some (t, k) else None)"
| "uq_touched d (Delete t k) = (if tbl_get (unique_defs d) t \<noteq> None then Some (t, k) else None)"
| "uq_touched d _ = None"

fun uq_reset :: "db \<Rightarrow> change_kind \<Rightarrow> string option" where
  "uq_reset d (TableReset t s) = (if tbl_get (unique_defs d) t \<noteq> None then Some t else None)"
| "uq_reset d _ = None"

definition uq_changed :: "db \<Rightarrow> change_kind list \<Rightarrow> (string \<times> string) list" where
  "uq_changed d effects = List.map_filter (uq_touched d) effects"

definition uq_resets :: "db \<Rightarrow> change_kind list \<Rightarrow> string list" where
  "uq_resets d effects = List.map_filter (uq_reset d) effects"

definition uq_reinsert :: "ext \<Rightarrow> db \<Rightarrow> string \<times> string \<Rightarrow> db res" where
  "uq_reinsert x d tk = (case tk of (t, k) \<Rightarrow>
     (case tbl_get (unique_defs d) t of
       None \<Rightarrow> Inr d
     | Some defs \<Rightarrow> let d = open_write d t in
         (case get_row d t k of None \<Rightarrow> Inr d | Some v \<Rightarrow> uq_insert x d t k v defs)))"

definition uq_validate :: "ext \<Rightarrow> db \<Rightarrow> change_kind list \<Rightarrow> db res" where
  "uq_validate x d effects =
     (if unique_defs d = [] then Inr d else
      let resets = btree_set (uq_resets d effects);
          d' = foldl (\<lambda>d t. open_write (uq_clear d t) t) d resets;
          changed = btree_set (uq_changed d effects @
            concat (map (\<lambda>t. map (\<lambda>(k, _). (t, k)) (rows_of d t)) resets));
          d' = foldl (\<lambda>d (t, k). uq_remove d t k) d' changed
      in foldM (uq_reinsert x) d' changed)"

section \<open>What the unique tables represent\<close>

text \<open>
  \<open>K\<close> gives the keys of each row. The two tables represent \<open>K\<close> when the reverse table is \<open>K\<close> and a key
  is claimed by exactly the row that has it: the second clause makes two rows with one key impossible.
\<close>

type_synonym row_keys = "string \<times> string \<Rightarrow> unique_key list option"

definition represents :: "db \<Rightarrow> row_keys \<Rightarrow> bool" where
  "represents d K \<longleftrightarrow> tbl_ok (unique_rows d) \<and> tbl_ok (unique_keys d) \<and>
     (\<forall>rk. tbl_get (unique_rows d) rk = K rk) \<and>
     (\<forall>key k. tbl_get (unique_keys d) key = Some k \<longleftrightarrow> (\<exists>ks. K (fst key, k) = Some ks \<and> key \<in> set ks)) \<and>
     (\<forall>t k ks. K (t, k) = Some ks \<longrightarrow> (\<forall>key \<in> set ks. fst key = t))"

definition row_spec :: "ext \<Rightarrow> db \<Rightarrow> row_keys" where
  "row_spec x d = (\<lambda>(t, k). case tbl_get (unique_defs d) t of None \<Rightarrow> None | Some defs \<Rightarrow>
     (case get_row d t k of None \<Rightarrow> None | Some v \<Rightarrow>
       (case unique_keys_of x t v defs of Inl _ \<Rightarrow> None | Inr ks \<Rightarrow> if ks = [] then None else Some ks)))"

definition keyed :: "ext \<Rightarrow> db \<Rightarrow> string \<times> string \<Rightarrow> bool" where
  "keyed x d rk \<longleftrightarrow> (\<forall>defs v. tbl_get (unique_defs d) (fst rk) = Some defs \<longrightarrow>
     get_row d (fst rk) (snd rk) = Some v \<longrightarrow> (\<exists>ks. unique_keys_of x (fst rk) v defs = Inr ks))"

definition unique_inv :: "ext \<Rightarrow> db \<Rightarrow> bool" where
  "unique_inv x d \<longleftrightarrow> represents d (row_spec x d) \<and> (\<forall>rk. keyed x d rk)"

lemma representsD:
  assumes "represents d K"
  shows "tbl_ok (unique_rows d)" "tbl_ok (unique_keys d)" "tbl_get (unique_rows d) rk = K rk"
    "tbl_get (unique_keys d) key = Some k \<longleftrightarrow> (\<exists>ks. K (fst key, k) = Some ks \<and> key \<in> set ks)"
    "K (t, k) = Some ks \<Longrightarrow> key \<in> set ks \<Longrightarrow> fst key = t"
  using assms unfolding represents_def by blast+

lemma representsI:
  assumes "tbl_ok (unique_rows d)" "tbl_ok (unique_keys d)" "\<And>rk. tbl_get (unique_rows d) rk = K rk"
    "\<And>key k. tbl_get (unique_keys d) key = Some k \<longleftrightarrow> (\<exists>ks. K (fst key, k) = Some ks \<and> key \<in> set ks)"
    "\<And>t k ks key. K (t, k) = Some ks \<Longrightarrow> key \<in> set ks \<Longrightarrow> fst key = t"
  shows "represents d K"
  using assms unfolding represents_def by blast

lemma unique_keys_of_table:
  assumes "unique_keys_of x t bs defs = Inr ks" "key \<in> set ks"
  shows "fst key = t"
proof -
  obtain kss ls where kss: "mapM (\<lambda>(i, paths). rbind (key_values x bs paths []) (\<lambda>vs.
      if vs = [] then Inr [] else rbind (encode_tuple (raw_token x) vs) (\<lambda>e. Inr [(t, i, e)])))
      (List.enumerate 0 defs) = Inr kss" "ls \<in> set kss" "key \<in> set ls"
    using assms by (auto simp: unique_keys_of_def)
  from mapM_Inr_set[OF this(1,2)] this(3) show ?thesis by (auto split: prod.splits if_splits)
qed

lemma tbl_get_removes:
  "tbl_ok t \<Longrightarrow> tbl_get (foldl tbl_remove t ks) k = (if k \<in> set ks then None else tbl_get t k)"
  by (induction ks arbitrary: t) auto

lemma tbl_ok_removes: "tbl_ok t \<Longrightarrow> tbl_ok (foldl tbl_remove t ks)"
  by (induction ks arbitrary: t) auto

lemma uq_remove_represents:
  assumes "represents d K"
  shows "represents (uq_remove d t k) (K((t, k) := None))"
proof (cases "K (t, k)")
  case None
  note r = representsD[OF assms]
  have d': "uq_remove d t k = d\<lparr>unique_rows := tbl_remove (unique_rows d) (t, k)\<rparr>"
    using r(3)[of "(t, k)"] None by (simp add: uq_remove_def)
  have K: "K((t, k) := None) = K" using None by auto
  show ?thesis
    unfolding K
  proof (rule representsI)
    show "tbl_get (unique_rows (uq_remove d t k)) rk = K rk" for rk
      using r(1) r(3)[of rk] None by (simp add: d')
    show "tbl_get (unique_keys (uq_remove d t k)) key = Some j \<longleftrightarrow>
        (\<exists>ks. K (fst key, j) = Some ks \<and> key \<in> set ks)" for key j
      using r(4)[of key j] by (simp add: d')
  qed (use r(1,2,5) in \<open>simp_all add: d'\<close>)
next
  case (Some ks)
  note r = representsD[OF assms]
  have owner: "j = k" if "K (fst key, j) = Some ls" "key \<in> set ls" "key \<in> set ks" for key j ls
  proof -
    have "fst key = t" using r(5)[OF Some that(3)] .
    then have "tbl_get (unique_keys d) key = Some k" "tbl_get (unique_keys d) key = Some j"
      using r(4)[of key] Some that by auto
    then show ?thesis by simp
  qed
  have d': "uq_remove d t k = d\<lparr>unique_rows := tbl_remove (unique_rows d) (t, k),
      unique_keys := foldl tbl_remove (unique_keys d) ks\<rparr>"
    using r(3)[of "(t, k)"] Some by (simp add: uq_remove_def)
  show ?thesis
  proof (rule representsI)
    fix key j
    show "tbl_get (unique_keys (uq_remove d t k)) key = Some j \<longleftrightarrow>
        (\<exists>ls. (K((t, k) := None)) (fst key, j) = Some ls \<and> key \<in> set ls)"
    proof (cases "key \<in> set ks")
      case True
      then have "tbl_get (unique_keys (uq_remove d t k)) key = None" using r(2) by (simp add: d' tbl_get_removes)
      then show ?thesis using owner[of key j] True r(5)[OF Some True] by auto
    next
      case False
      then have "tbl_get (unique_keys (uq_remove d t k)) key = tbl_get (unique_keys d) key"
        using r(2) by (simp add: d' tbl_get_removes)
      then show ?thesis using r(4)[of key j] False Some by auto
    qed
  next
    show "tbl_get (unique_rows (uq_remove d t k)) rk = (K((t, k) := None)) rk" for rk
      using r(1) r(3)[of rk] by (simp add: d')
    show "fst key = u" if "(K((t, k) := None)) (u, j) = Some ls" "key \<in> set ls" for u j ls key
      using that r(5)[of u j ls key] by (simp split: if_splits)
  qed (use r(1,2) in \<open>simp_all add: d' tbl_ok_removes\<close>)
qed

lemma uq_removes_represent:
  "represents d K \<Longrightarrow>
    represents (foldl (\<lambda>d (t, k). uq_remove d t k) d rks) (\<lambda>rk. if rk \<in> set rks then None else K rk)"
proof (induction rks arbitrary: d K)
  case (Cons rk rks)
  obtain t k where rk: "rk = (t, k)" by (cases rk)
  have "(\<lambda>r. if r \<in> set rks then None else (K((t, k) := None)) r) = (\<lambda>r. if r \<in> set (rk # rks) then None else K r)"
    using rk by auto
  then show ?case using Cons.IH[OF uq_remove_represents[OF Cons.prems, of t k]] rk by simp
qed simp

lemma uq_clear_removes:
  "uq_clear d t = foldl (\<lambda>d (u, k). uq_remove d u k) d (filter (\<lambda>(u, k). u = t) (map fst (unique_rows d)))"
proof -
  have "foldl (\<lambda>d (u, k). if u = t then uq_remove d t k else d) d rks =
      foldl (\<lambda>d (u, k). uq_remove d u k) d (filter (\<lambda>(u, k). u = t) rks)" for rks
    by (induction rks arbitrary: d) auto
  then show ?thesis by (simp add: uq_clear_def)
qed

lemma uq_clear_represents:
  assumes "represents d K"
  shows "represents (uq_clear d t) (\<lambda>rk. if fst rk = t then None else K rk)"
proof -
  have "(\<lambda>rk. if rk \<in> set (filter (\<lambda>(u, k). u = t) (map fst (unique_rows d))) then None else K rk) =
      (\<lambda>rk. if fst rk = t then None else K rk)"
  proof
    fix rk
    have "K rk = None" if "rk \<notin> fst ` set (unique_rows d)"
      using that tbl.get_None[of "unique_rows d" rk] representsD(1)[OF assms] representsD(3)[OF assms, of rk] by simp
    then show "(if rk \<in> set (filter (\<lambda>(u, k). u = t) (map fst (unique_rows d))) then None else K rk) =
        (if fst rk = t then None else K rk)"
      by (cases rk) auto
  qed
  then show ?thesis
    using uq_removes_represent[OF assms, of "filter (\<lambda>(u, k). u = t) (map fst (unique_rows d))"]
    unfolding uq_clear_removes by (simp only:)
qed

lemma claim_keys:
  assumes "foldM (claim_key row) t ks = Inr t'" "tbl_ok t"
  shows "tbl_ok t' \<and> (\<forall>key. tbl_get t' key = (if key \<in> set ks then Some row else tbl_get t key)) \<and>
    (\<forall>key \<in> set ks. tbl_get t key = None \<or> tbl_get t key = Some row)"
  using assms
proof (induction ks arbitrary: t)
  case (Cons key ks)
  then obtain t1 where t1: "claim_key row t key = Inr t1" "foldM (claim_key row) t1 ks = Inr t'" by auto
  have c: "t1 = tbl_insert t key row" "tbl_get t key = None \<or> tbl_get t key = Some row"
    using t1(1) by (auto simp: claim_key_def split: option.splits if_splits)
  have "tbl_ok t1" using c Cons.prems(2) by simp
  from Cons.IH[OF t1(2) this] c Cons.prems(2) show ?case by (auto split: if_splits)
qed simp

lemma uq_insert_Inr:
  assumes "uq_insert x d t k v defs = Inr d'"
  obtains ks u where "unique_keys_of x t v defs = Inr ks" "foldM (claim_key k) (unique_keys d) ks = Inr u"
    "d' = (if ks \<noteq> [] then d\<lparr>unique_keys := u, unique_rows := tbl_insert (unique_rows d) (t, k) ks\<rparr>
      else d\<lparr>unique_keys := u\<rparr>)"
proof -
  from assms obtain ks u where "unique_keys_of x t v defs = Inr ks" "foldM (claim_key k) (unique_keys d) ks = Inr u"
    "(let d = d\<lparr>unique_keys := u\<rparr> in
      if ks \<noteq> [] then d\<lparr>unique_rows := tbl_insert (unique_rows d) (t, k) ks\<rparr> else d) = d'"
    unfolding uq_insert_def by (auto simp only: rbind_eq_Inr Let_def sum.inject)
  then show thesis by (intro that[of ks u]) (auto simp: Let_def)
qed

lemma uq_insert_represents:
  assumes "represents d K" "K (t, k) = None" "uq_insert x d t k v defs = Inr d'"
  shows "\<exists>ks. unique_keys_of x t v defs = Inr ks \<and>
    represents d' (K((t, k) := if ks = [] then None else Some ks))"
proof -
  from assms(3) obtain ks u where
    ks: "unique_keys_of x t v defs = Inr ks" "foldM (claim_key k) (unique_keys d) ks = Inr u"
    and d': "d' = (if ks \<noteq> [] then d\<lparr>unique_keys := u, unique_rows := tbl_insert (unique_rows d) (t, k) ks\<rparr>
      else d\<lparr>unique_keys := u\<rparr>)"
    by (rule uq_insert_Inr)
  have ok: "tbl_ok (unique_rows d)" "tbl_ok (unique_keys d)" using assms(1) by (auto simp: represents_def)
  note u = claim_keys[OF ks(2) ok(2)]
  have table: "key \<in> set ks \<Longrightarrow> fst key = t" for key using unique_keys_of_table[OF ks(1)] by blast
  have fresh: "key \<in> set ks \<Longrightarrow> tbl_get (unique_keys d) key = None" for key
  proof -
    assume key: "key \<in> set ks"
    then have "tbl_get (unique_keys d) key \<noteq> Some k"
      using representsD(4)[OF assms(1), of key k] assms(2) table[OF key] by simp
    then show ?thesis using u key by blast
  qed
  have "represents d' (K((t, k) := if ks = [] then None else Some ks))"
  proof (cases "ks = []")
    case True
    have "K((t, k) := None) = K" using assms(2) by auto
    then show ?thesis using True assms(1) d' ks(2) by (simp add: represents_def)
  next
    case False
    note r = representsD[OF assms(1)]
    have d2: "unique_keys d' = u" "unique_rows d' = tbl_insert (unique_rows d) (t, k) ks"
      using False d' by auto
    have got: "tbl_get u key = (if key \<in> set ks then Some k else tbl_get (unique_keys d) key)" for key
      using u by blast
    show ?thesis
    proof (rule representsI)
      fix key j
      show "tbl_get (unique_keys d') key = Some j \<longleftrightarrow>
          (\<exists>ls. (K((t, k) := if ks = [] then None else Some ks)) (fst key, j) = Some ls \<and> key \<in> set ls)"
        using False d2(1) got[of key] fresh[of key] table[of key] r(4)[of key j] assms(2)
        by (auto split: if_splits)
    next
      show "tbl_ok (unique_rows d')" "tbl_ok (unique_keys d')" using d2 ok u by auto
    next
      show "tbl_get (unique_rows d') rk = (K((t, k) := if ks = [] then None else Some ks)) rk" for rk
        using d2(2) ok(1) r(3)[of rk] False by simp
    next
      show "fst key = u" if "(K((t, k) := if ks = [] then None else Some ks)) (u, j) = Some ls" "key \<in> set ls"
        for u j ls key
        using that r(5)[of u j ls key] table False by (auto split: if_splits)
    qed
  qed
  then show ?thesis using ks(1) by blast
qed

section \<open>Validation keeps the keys unique\<close>

text \<open>The operations on the unique tables leave the rest of the database as it is.\<close>

definition same_data :: "db \<Rightarrow> db \<Rightarrow> bool" where
  "same_data d d' \<longleftrightarrow> unique_defs d' = unique_defs d \<and> (\<forall>t k. get_row d' t k = get_row d t k) \<and>
     (tables_ok d \<longrightarrow> tables_ok d')"

lemma same_data_refl [simp]: "same_data d d"
  by (simp add: same_data_def)

lemma same_data_trans: "same_data a b \<Longrightarrow> same_data b c \<Longrightarrow> same_data a c"
  by (auto simp: same_data_def)

lemma same_data_row_spec:
  assumes "same_data d d'"
  shows "row_spec x d' = row_spec x d"
proof -
  have "unique_defs d' = unique_defs d" "get_row d' = get_row d" using assms by (auto simp: same_data_def)
  then show ?thesis unfolding row_spec_def by (simp only:)
qed

lemma same_data_uq_remove: "same_data d (uq_remove d t k)"
  by (auto simp: same_data_def uq_remove_def get_row_def rows_of_def tables_ok_def tbl_ok_removes split: option.split)

lemma same_data_open: "tables_ok d \<Longrightarrow> same_data d (open_write d t)"
  by (auto simp: same_data_def get_row_def open_write_def split: option.split)
    (auto simp: rows_of_def tables_ok_def set_tbl_insert)

lemma same_data_uq_insert:
  assumes "uq_insert x d t k v defs = Inr d'"
  shows "same_data d d'"
proof -
  from assms obtain ks u where u: "foldM (claim_key k) (unique_keys d) ks = Inr u"
    and d': "d' = (if ks \<noteq> [] then d\<lparr>unique_keys := u, unique_rows := tbl_insert (unique_rows d) (t, k) ks\<rparr>
      else d\<lparr>unique_keys := u\<rparr>)"
    by (rule uq_insert_Inr)
  have "tables_ok d \<Longrightarrow> tbl_ok u" using claim_keys[OF u] by (simp add: tables_ok_def)
  then show ?thesis by (simp add: d' same_data_def get_row_def rows_of_def tables_ok_def)
qed

lemma same_data_foldl:
  "(\<And>d a. tables_ok d \<Longrightarrow> same_data d (f d a)) \<Longrightarrow> tables_ok d \<Longrightarrow> same_data d (foldl f d as)"
proof (induction as arbitrary: d)
  case (Cons a as)
  have s: "same_data d (f d a)" using Cons.prems by blast
  then have "tables_ok (f d a)" using Cons.prems(2) by (simp add: same_data_def)
  then show ?case using same_data_trans[OF s] Cons.IH Cons.prems(1) by simp
qed simp

lemma same_data_uq_removes: "tables_ok d \<Longrightarrow> same_data d (foldl (\<lambda>d (t, k). uq_remove d t k) d rks)"
  by (rule same_data_foldl) (auto simp: same_data_uq_remove)

lemma same_data_uq_clear: "tables_ok d \<Longrightarrow> same_data d (uq_clear d t)"
  unfolding uq_clear_removes by (rule same_data_uq_removes)

lemma represents_open [simp]: "represents (open_write d t) K = represents d K"
  by (simp add: represents_def open_write_def split: option.split)

lemma uq_reinserts_represent:
  assumes "foldM (uq_reinsert x) d rks = Inr d'" "represents d K" "tables_ok d" "distinct rks"
    "\<forall>rk \<in> set rks. K rk = None"
  shows "represents d' (\<lambda>rk. if rk \<in> set rks then row_spec x d rk else K rk) \<and> same_data d d' \<and> (\<forall>rk \<in> set rks. keyed x d rk)"
  using assms
proof (induction rks arbitrary: d K)
  case (Cons rk rks)
  obtain t k where rk: "rk = (t, k)" by (cases rk)
  obtain d1 where d1: "uq_reinsert x d (t, k) = Inr d1" "foldM (uq_reinsert x) d1 rks = Inr d'"
    using Cons.prems(1) rk by auto
  have open1: "same_data d (open_write d t)" "tables_ok (open_write d t)"
    using same_data_open Cons.prems(3) by auto
  let ?s = "row_spec x d (t, k)"
  have step: "represents d1 (K((t, k) := ?s)) \<and> same_data d d1 \<and> keyed x d (t, k)"
  proof (cases "tbl_get (unique_defs d) t")
    case None
    then have "d1 = d" "?s = None" using d1(1) by (auto simp: uq_reinsert_def row_spec_def)
    moreover have "K((t, k) := None) = K" using Cons.prems(5) rk by auto
    ultimately show ?thesis using Cons.prems(2) None by (simp add: keyed_def)
  next
    case (Some defs)
    show ?thesis
    proof (cases "get_row d t k")
      case None
      then have "d1 = open_write d t" "?s = None"
        using d1(1) Some open1 by (auto simp: uq_reinsert_def row_spec_def same_data_def)
      moreover have "K((t, k) := None) = K" using Cons.prems(5) rk by auto
      ultimately show ?thesis using Cons.prems(2) None open1(1) by (simp add: keyed_def)
    next
      case (Some v)
      then have "uq_insert x (open_write d t) t k v defs = Inr d1"
        using d1(1) \<open>tbl_get (unique_defs d) t = Some defs\<close> open1 by (simp add: uq_reinsert_def same_data_def)
      from uq_insert_represents[OF _ _ this, of K] same_data_uq_insert[OF this] obtain ks where
        "unique_keys_of x t v defs = Inr ks" "represents d1 (K((t, k) := if ks = [] then None else Some ks))"
        "same_data (open_write d t) d1"
        using Cons.prems(2,5) rk by auto
      moreover from this have "?s = (if ks = [] then None else Some ks)"
        using Some \<open>tbl_get (unique_defs d) t = Some defs\<close> by (simp add: row_spec_def)
      ultimately show ?thesis
        using Some \<open>tbl_get (unique_defs d) t = Some defs\<close> same_data_trans[OF open1(1)]
        by (simp add: keyed_def)
    qed
  qed
  then have d1_ok: "tables_ok d1" "row_spec x d1 = row_spec x d" "unique_defs d1 = unique_defs d"
    "\<And>t k. get_row d1 t k = get_row d t k"
    using Cons.prems(3) same_data_row_spec by (auto simp: same_data_def)
  have K1: "\<forall>r \<in> set rks. (K((t, k) := ?s)) r = None" using Cons.prems(4,5) rk by auto
  have "(\<lambda>r. if r \<in> set rks then row_spec x d1 r else (K((t, k) := ?s)) r) =
      (\<lambda>r. if r \<in> set (rk # rks) then row_spec x d r else K r)"
    using rk d1_ok(2) Cons.prems(4) by auto
  moreover have "keyed x d1 = keyed x d" by (simp add: keyed_def fun_eq_iff d1_ok(3,4))
  ultimately have ih: "represents d' (\<lambda>r. if r \<in> set (rk # rks) then row_spec x d r else K r)"
    "same_data d1 d'" "\<forall>rk \<in> set rks. keyed x d rk"
    using Cons.IH[OF d1(2) conjunct1[OF step] d1_ok(1) _ K1] Cons.prems(4) by simp_all
  have "same_data d d'" using same_data_trans[OF _ ih(2)] step by blast
  then show ?case using ih(1,3) step rk by simp
qed simp

text \<open>
  The effects of a transaction cover its row changes when every row of a constrained table that
  differs from before is named by an effect, singly or by a reset of its table.
\<close>

definition covers :: "db \<Rightarrow> db \<Rightarrow> change_kind list \<Rightarrow> bool" where
  "covers d d' effects \<longleftrightarrow> (\<forall>t k. tbl_get (unique_defs d) t \<noteq> None \<longrightarrow> get_row d' t k \<noteq> get_row d t k \<longrightarrow>
     (\<exists>v. Upsert t k v \<in> set effects) \<or> Delete t k \<in> set effects \<or> (\<exists>s. TableReset t s \<in> set effects))"

lemma set_btree_set [simp]: "set (btree_set xs) = set xs" "distinct (btree_set xs)"
  by (simp_all add: btree_set_def)

lemma set_map_filter: "set (List.map_filter f xs) = {y. \<exists>x \<in> set xs. f x = Some y}"
  by (induction xs) (auto simp: List.map_filter_simps split: option.split)

lemma uq_touched_Some:
  "uq_touched d e = Some (t, k) \<longleftrightarrow> tbl_get (unique_defs d) t \<noteq> None \<and> ((\<exists>v. e = Upsert t k v) \<or> e = Delete t k)"
  by (cases e) auto

lemma uq_reset_Some: "uq_reset d e = Some t \<longleftrightarrow> tbl_get (unique_defs d) t \<noteq> None \<and> (\<exists>s. e = TableReset t s)"
  by (cases e) auto

lemma uq_changed_iff:
  "(t, k) \<in> set (uq_changed d effects) \<longleftrightarrow> tbl_get (unique_defs d) t \<noteq> None \<and>
    ((\<exists>v. Upsert t k v \<in> set effects) \<or> Delete t k \<in> set effects)"
  by (auto simp: uq_changed_def set_map_filter uq_touched_Some)

lemma uq_resets_iff:
  "t \<in> set (uq_resets d effects) \<longleftrightarrow> tbl_get (unique_defs d) t \<noteq> None \<and> (\<exists>s. TableReset t s \<in> set effects)"
  by (auto simp: uq_resets_def set_map_filter uq_reset_Some)

lemma uq_clears_represent:
  "represents d K \<Longrightarrow> tables_ok d \<Longrightarrow>
    represents (foldl (\<lambda>d t. open_write (uq_clear d t) t) d ts) (\<lambda>rk. if fst rk \<in> set ts then None else K rk)"
proof (induction ts arbitrary: d K)
  case (Cons t ts)
  have r: "represents (open_write (uq_clear d t) t) (\<lambda>rk. if fst rk = t then None else K rk)"
    using uq_clear_represents[OF Cons.prems(1)] by simp
  have "tables_ok (uq_clear d t)" using same_data_uq_clear[OF Cons.prems(2)] Cons.prems(2) by (simp add: same_data_def)
  moreover have "(\<lambda>rk. if fst rk \<in> set ts then None else if fst rk = t then None else K rk) =
      (\<lambda>rk. if fst rk \<in> set (t # ts) then None else K rk)" by auto
  ultimately show ?case using Cons.IH[OF r] by simp
qed simp

lemma same_data_uq_clears:
  assumes "tables_ok d"
  shows "same_data d (foldl (\<lambda>d t. open_write (uq_clear d t) t) d ts)"
  using assms
proof (rule same_data_foldl[rotated])
  fix d :: db and t
  assume d: "tables_ok d"
  have c: "same_data d (uq_clear d t)" using same_data_uq_clear[OF d] .
  then have "tables_ok (uq_clear d t)" using d by (simp add: same_data_def)
  then show "same_data d (open_write (uq_clear d t) t)" using same_data_trans[OF c] same_data_open by blast
qed

text \<open>
  What validation has to do: the rows \<open>changed\<close> are taken out of the tables and put back with their
  new keys, the others already have the keys of their rows.
\<close>

lemma uq_validate_work:
  assumes "represents d (row_spec x d0)" "\<forall>rk. keyed x d0 rk" "tables_ok d" "unique_defs d = unique_defs d0"
    "covers d0 d effects" "unique_defs d \<noteq> []"
  obtains d2 changed K where "uq_validate x d effects = foldM (uq_reinsert x) d2 changed"
    "represents d2 K" "same_data d d2" "distinct changed" "\<forall>rk \<in> set changed. K rk = None"
    "\<forall>rk. rk \<notin> set changed \<longrightarrow> K rk = row_spec x d rk \<and> keyed x d rk"
proof -
  define resets where "resets = btree_set (uq_resets d effects)"
  define changed where "changed = btree_set (uq_changed d effects @
    concat (map (\<lambda>t. map (\<lambda>(k, _). (t, k)) (rows_of d t)) resets))"
  define d1 where "d1 = foldl (\<lambda>d t. open_write (uq_clear d t) t) d resets"
  define d2 where "d2 = foldl (\<lambda>d (t, k). uq_remove d t k) d1 changed"
  define K where "K = (\<lambda>rk. if rk \<in> set changed then None else if fst rk \<in> set resets then None else row_spec x d0 rk)"
  have v: "uq_validate x d effects = foldM (uq_reinsert x) d2 changed"
    using assms(6) by (simp add: uq_validate_def Let_def resets_def changed_def d1_def d2_def)
  have s1: "same_data d d1" unfolding d1_def using same_data_uq_clears[OF assms(3)] .
  then have ok1: "tables_ok d1" using assms(3) by (simp add: same_data_def)
  have s12: "same_data d1 d2" unfolding d2_def using same_data_uq_removes[OF ok1] .
  have r2: "represents d2 K"
    unfolding d2_def K_def d1_def
    using uq_removes_represent[OF uq_clears_represent[OF assms(1,3), of resets], of changed] by simp
  have unchanged: "get_row d (fst rk) (snd rk) = get_row d0 (fst rk) (snd rk)"
    if "rk \<notin> set changed" "fst rk \<notin> set resets" "tbl_get (unique_defs d) (fst rk) \<noteq> None" for rk
  proof (rule ccontr)
    assume "get_row d (fst rk) (snd rk) \<noteq> get_row d0 (fst rk) (snd rk)"
    then have "rk \<in> set (uq_changed d effects) \<or> fst rk \<in> set (uq_resets d effects)"
      using assms(4,5) that(3) uq_changed_iff[of "fst rk" "snd rk"] by (auto simp: covers_def uq_resets_iff)
    then show False using that(1,2) by (auto simp: changed_def resets_def)
  qed
  have absent: "get_row d (fst rk) (snd rk) = None" if "rk \<notin> set changed" "fst rk \<in> set resets" for rk
  proof (rule ccontr)
    assume "get_row d (fst rk) (snd rk) \<noteq> None"
    then obtain w where "(snd rk, w) \<in> set (rows_of d (fst rk))"
      using assms(3) by (auto simp: get_row_def tbl_get_iff)
    then have "rk \<in> set changed" using that(2) by (cases rk) (force simp: changed_def)
    then show False using that(1) by blast
  qed
  have spec: "K rk = row_spec x d rk \<and> keyed x d rk" if "rk \<notin> set changed" for rk
    using that unchanged[of rk] absent[of rk] assms(2,4)
    by (cases rk; cases "fst rk \<in> set resets") (auto simp: K_def row_spec_def keyed_def split: option.split)
  show thesis
    by (rule that[OF v r2 same_data_trans[OF s1 s12]]) (use spec in \<open>auto simp: changed_def K_def\<close>)
qed

lemma uq_validate_inv:
  assumes "represents d (row_spec x d0)" "\<forall>rk. keyed x d0 rk" "tables_ok d" "unique_defs d = unique_defs d0"
    "covers d0 d effects" "uq_validate x d effects = Inr d'"
  shows "unique_inv x d' \<and> same_data d d'"
proof (cases "unique_defs d = []")
  case True
  then have "d' = d" "row_spec x d0 = (\<lambda>_. None)" "row_spec x d = (\<lambda>_. None)"
    using assms(4,6) by (auto simp: uq_validate_def row_spec_def fun_eq_iff)
  then show ?thesis using True assms(1) by (simp add: unique_inv_def keyed_def)
next
  case False
  from uq_validate_work[OF assms(1-5) False] obtain d2 changed K where
    w: "uq_validate x d effects = foldM (uq_reinsert x) d2 changed"
      "represents d2 K" "same_data d d2" "distinct changed" "\<forall>rk \<in> set changed. K rk = None"
      "\<forall>rk. rk \<notin> set changed \<longrightarrow> K rk = row_spec x d rk \<and> keyed x d rk" .
  have "tables_ok d2" using w(3) assms(3) by (simp add: same_data_def)
  moreover have "foldM (uq_reinsert x) d2 changed = Inr d'" using w(1) assms(6) by simp
  ultimately have d': "represents d' (\<lambda>rk. if rk \<in> set changed then row_spec x d2 rk else K rk)" "same_data d2 d'"
      "\<forall>rk \<in> set changed. keyed x d2 rk"
    using uq_reinserts_represent[OF _ w(2) _ w(4,5)] by blast+
  have s: "same_data d d'" using same_data_trans[OF w(3) d'(2)] .
  have keyed2: "keyed x d2 = keyed x d" "keyed x d' = keyed x d"
    using w(3) s by (simp_all add: keyed_def same_data_def fun_eq_iff)
  have "(\<lambda>rk. if rk \<in> set changed then row_spec x d2 rk else K rk) = row_spec x d'"
    unfolding same_data_row_spec[OF s] same_data_row_spec[OF w(3)] using w(6) by auto
  then show ?thesis using d' w(6) s keyed2 by (auto simp: unique_inv_def)
qed

text \<open>No two rows of a constrained table have a key in common.\<close>

definition no_duplicates :: "ext \<Rightarrow> db \<Rightarrow> bool" where
  "no_duplicates x d \<longleftrightarrow> (\<forall>t k1 k2 ks1 ks2. row_spec x d (t, k1) = Some ks1 \<longrightarrow> row_spec x d (t, k2) = Some ks2 \<longrightarrow>
     k1 \<noteq> k2 \<longrightarrow> set ks1 \<inter> set ks2 = {})"

lemma represents_disjoint:
  assumes "represents d K" "K (t, k1) = Some ks1" "K (t, k2) = Some ks2" "k1 \<noteq> k2"
  shows "set ks1 \<inter> set ks2 = {}"
proof (rule ccontr)
  assume "set ks1 \<inter> set ks2 \<noteq> {}"
  then obtain key where key: "key \<in> set ks1" "key \<in> set ks2" by blast
  note r = representsD[OF assms(1)]
  have "fst key = t" using r(5)[OF assms(2) key(1)] .
  then have "tbl_get (unique_keys d) key = Some k1" "tbl_get (unique_keys d) key = Some k2"
    using r(4)[of key] assms(2,3) key by auto
  then show False using assms(4) by simp
qed

lemma unique_inv_no_duplicates: "unique_inv x d \<Longrightarrow> no_duplicates x d"
  unfolding unique_inv_def no_duplicates_def using represents_disjoint by blast

lemma claim_keys_succeed:
  "tbl_ok t \<Longrightarrow> \<forall>key \<in> set ks. tbl_get t key = None \<or> tbl_get t key = Some row \<Longrightarrow>
    \<exists>t'. foldM (claim_key row) t ks = Inr t'"
proof (induction ks arbitrary: t)
  case (Cons key ks)
  then have "claim_key row t key = Inr (tbl_insert t key row)" by (auto simp: claim_key_def)
  with Cons show ?case by simp
qed simp

lemma uq_insert_succeeds:
  assumes "represents d K" "unique_keys_of x t v defs = Inr ks"
    "\<And>j ls. j \<noteq> k \<Longrightarrow> K (t, j) = Some ls \<Longrightarrow> set ks \<inter> set ls = {}"
  shows "\<exists>d'. uq_insert x d t k v defs = Inr d'"
proof -
  note r = representsD[OF assms(1)]
  have "tbl_get (unique_keys d) key = None \<or> tbl_get (unique_keys d) key = Some k" if key: "key \<in> set ks" for key
  proof (cases "tbl_get (unique_keys d) key")
    case (Some j)
    then obtain ls where "K (t, j) = Some ls" "key \<in> set ls"
      using r(4)[of key j] unique_keys_of_table[OF assms(2) key] by auto
    then show ?thesis using assms(3)[of j ls] key Some by auto
  qed simp
  then obtain u where "foldM (claim_key k) (unique_keys d) ks = Inr u" using claim_keys_succeed[OF r(2)] by blast
  then show ?thesis using assms(2) by (simp add: uq_insert_def Let_def)
qed

lemma uq_reinsert_Inr:
  "uq_reinsert x d rk = Inr d' \<Longrightarrow> tables_ok d \<Longrightarrow> represents d K \<Longrightarrow> K rk = None \<Longrightarrow>
    represents d' (K(rk := row_spec x d rk)) \<and> same_data d d'"
  using uq_reinserts_represent[of x d "[rk]" d' K] by (simp add: fun_upd_def if_distrib cong: if_cong)

lemma uq_reinserts_succeed:
  assumes "represents d K" "tables_ok d" "distinct rks" "\<forall>rk \<in> set rks. K rk = None \<and> keyed x d rk"
    "\<forall>rk. K rk = None \<or> K rk = row_spec x d rk" "no_duplicates x d"
  shows "\<exists>d'. foldM (uq_reinsert x) d rks = Inr d'"
  using assms
proof (induction rks arbitrary: d K)
  case (Cons rk rks)
  obtain t k where rk: "rk = (t, k)" by (cases rk)
  have opened: "same_data d (open_write d t)" using same_data_open[OF Cons.prems(2)] .
  obtain d1 where d1: "uq_reinsert x d rk = Inr d1"
  proof (cases "tbl_get (unique_defs d) t")
    case None
    then show ?thesis using that rk by (simp add: uq_reinsert_def)
  next
    case (Some defs)
    show ?thesis
    proof (cases "get_row d t k")
      case None
      then show ?thesis using that rk Some opened by (simp add: uq_reinsert_def same_data_def)
    next
      case v: (Some v)
      then obtain ks where ks: "unique_keys_of x t v defs = Inr ks"
        using Cons.prems(4) rk Some by (auto simp: keyed_def)
      have "set ks \<inter> set ls = {}" if "j \<noteq> k" "K (t, j) = Some ls" for j ls
      proof (cases "ks = []")
        case False
        then have "row_spec x d (t, k) = Some ks" using Some v ks by (simp add: row_spec_def)
        moreover have "row_spec x d (t, j) = Some ls"
          using Cons.prems(5) that(2) by (metis option.distinct(1))
        ultimately show ?thesis using Cons.prems(6) that(1) unfolding no_duplicates_def by blast
      qed simp
      then obtain d1 where "uq_insert x (open_write d t) t k v defs = Inr d1"
        using uq_insert_succeeds[OF _ ks, of "open_write d t" K k] Cons.prems(1) by auto
      then show ?thesis using that rk Some v opened by (simp add: uq_reinsert_def same_data_def)
    qed
  qed
  have K: "K rk = None" using Cons.prems(4) by simp
  from uq_reinsert_Inr[OF d1 Cons.prems(2,1) K]
  have d1': "represents d1 (K(rk := row_spec x d rk))" "same_data d d1" by auto
  have same: "row_spec x d1 = row_spec x d" "tables_ok d1" "keyed x d1 = keyed x d"
    using d1'(2) Cons.prems(2) same_data_row_spec by (auto simp: same_data_def keyed_def fun_eq_iff)
  have "\<exists>d'. foldM (uq_reinsert x) d1 rks = Inr d'"
  proof (rule Cons.IH[OF d1'(1) same(2)])
    show "distinct rks" using Cons.prems(3) by simp
    show "\<forall>r \<in> set rks. (K(rk := row_spec x d rk)) r = None \<and> keyed x d1 r"
      using Cons.prems(3,4) same(3) by auto
    show "\<forall>r. (K(rk := row_spec x d rk)) r = None \<or> (K(rk := row_spec x d rk)) r = row_spec x d1 r"
      using Cons.prems(5) same(1) by auto
    show "no_duplicates x d1" using Cons.prems(6) same(1) by (simp add: no_duplicates_def)
  qed
  then show ?case using d1 by simp
qed simp

text \<open>C9. A transaction whose effects cover its row changes keeps the declared keys unique, and is refused
  exactly for a duplicate: starting from tables in which the unique keys are those of the rows,
  validation succeeds if and only if no two rows of a constrained table have a key in common, and
  the tables it leaves are again those of the rows, so that no duplicate is ever stored.\<close>

theorem unique_validated:
  assumes "unique_inv x d0" "tables_ok d" "unique_rows d = unique_rows d0" "unique_keys d = unique_keys d0"
    "unique_defs d = unique_defs d0" "covers d0 d effects" "\<forall>rk. keyed x d rk"
  shows "((\<exists>d'. uq_validate x d effects = Inr d') \<longleftrightarrow> no_duplicates x d) \<and>
    (\<forall>d'. uq_validate x d effects = Inr d' \<longrightarrow> unique_inv x d' \<and> no_duplicates x d' \<and>
      (\<forall>t k. get_row d' t k = get_row d t k))"
proof -
  have rep: "represents d (row_spec x d0)" "\<forall>rk. keyed x d0 rk"
    using assms(1,3,4) by (auto simp: unique_inv_def represents_def)
  have after: "unique_inv x d' \<and> same_data d d'" if "uq_validate x d effects = Inr d'" for d'
    using uq_validate_inv[OF rep assms(2,5,6) that] .
  have "\<exists>d'. uq_validate x d effects = Inr d'" if dup: "no_duplicates x d"
  proof (cases "unique_defs d = []")
    case True
    then show ?thesis by (simp add: uq_validate_def)
  next
    case False
    from uq_validate_work[OF rep assms(2,5,6) False] obtain d2 changed K where
      w: "uq_validate x d effects = foldM (uq_reinsert x) d2 changed"
        "represents d2 K" "same_data d d2" "distinct changed" "\<forall>rk \<in> set changed. K rk = None"
        "\<forall>rk. rk \<notin> set changed \<longrightarrow> K rk = row_spec x d rk \<and> keyed x d rk" .
    have same: "row_spec x d2 = row_spec x d" "tables_ok d2" "keyed x d2 = keyed x d"
      using w(3) assms(2) same_data_row_spec by (auto simp: same_data_def keyed_def fun_eq_iff)
    have "\<exists>d'. foldM (uq_reinsert x) d2 changed = Inr d'"
      using w(2) same(2) w(4)
    proof (rule uq_reinserts_succeed)
      show "\<forall>rk. K rk = None \<or> K rk = row_spec x d2 rk" using w(5,6) same(1) by metis
      show "\<forall>rk \<in> set changed. K rk = None \<and> keyed x d2 rk" using w(5) assms(7) unfolding same(3) by blast
      show "no_duplicates x d2" using dup same(1) by (simp add: no_duplicates_def)
    qed
    then show ?thesis using w(1) by simp
  qed
  moreover have "no_duplicates x d'" "no_duplicates x d" if "uq_validate x d effects = Inr d'" for d'
  proof -
    show d': "no_duplicates x d'" using unique_inv_no_duplicates after[OF that] by blast
    have "row_spec x d' = row_spec x d" using same_data_row_spec after[OF that] by blast
    with d' show "no_duplicates x d" by (simp only: no_duplicates_def)
  qed
  ultimately show ?thesis using after by (auto simp: same_data_def)
qed

text \<open>A row whose declared field is the text \<open>a\<close>, in a table with one unique field.\<close>

definition sample_unique_db :: db where
  "sample_unique_db = empty_db\<lparr>unique_defs := [(''t'', [[\<lparr>p_steps = [], p_kind = Auto, p_transforms = []\<rparr>]])],
     user_tables := [(''t'', [])]\<rparr>"

theorem unique_validated_witness:
  "let x = plain_ext (\<lambda>bs. Some (RString (from_utf8 bs)));
       d = put_row sample_unique_db ''t'' ''k'' [97]
   in (\<exists>d'. uq_validate x d [Upsert ''t'' ''k'' [97]] = Inr d' \<and> unique_inv x d') \<and> no_duplicates x d"
proof -
  let ?x = "plain_ext (\<lambda>bs. Some (RString (from_utf8 bs)))"
  let ?p = "\<lparr>p_steps = [], p_kind = Auto, p_transforms = []\<rparr> :: path"
  let ?d = "put_row sample_unique_db ''t'' ''k'' [97]"
  note defs = sample_unique_db_def empty_db_def put_row_def set_rows_def rows_of_def
  have row: "get_row ?d t k = (if t = ''t'' \<and> k = ''k'' then Some [97] else None)"
      "get_row sample_unique_db t k = None" for t k
    by (auto simp: get_row_def defs)
  have keys: "\<exists>ks. unique_keys_of ?x t [97] [[?p]] = Inr ks \<and> ks \<noteq> []" for t
    by (simp add: unique_keys_of_def unique_scalar_def path_value_def extract_value_def from_utf8_def u8_in_def
        encode_tuple_def encode_def)
  have inv: "unique_inv ?x sample_unique_db"
    using row(2) by (auto simp: unique_inv_def represents_def row_spec_def keyed_def split: option.split)
      (simp_all add: defs)
  have dup: "no_duplicates ?x ?d"
    using row by (auto simp: no_duplicates_def row_spec_def split: option.splits if_splits)
  have cov: "covers sample_unique_db ?d [Upsert ''t'' ''k'' [97]]"
    using row by (auto simp: covers_def)
  have key: "keyed ?x ?d rk" for rk
    using row keys[of "fst rk"] by (auto simp: keyed_def defs split: if_splits)
  have ok: "tables_ok ?d" by (simp add: tables_ok_def defs tbl_ok_def)
  have "((\<exists>d'. uq_validate ?x ?d [Upsert ''t'' ''k'' [97]] = Inr d') \<longleftrightarrow> no_duplicates ?x ?d) \<and>
      (\<forall>d'. uq_validate ?x ?d [Upsert ''t'' ''k'' [97]] = Inr d' \<longrightarrow> unique_inv ?x d' \<and> no_duplicates ?x d' \<and>
        (\<forall>t k. get_row d' t k = get_row ?d t k))"
    using unique_validated[OF inv ok _ _ _ cov] key by (simp add: defs)
  then show ?thesis using dup by (auto simp: Let_def)
qed

lemma id_check_Inr: "id_check x p k v = Inr u \<longleftrightarrow> path_value x v p = Inr (String k)"
  by (cases "path_value x v p") (auto simp: id_check_def)

lemma id_check_rows_Inr: "id_check_rows x p rows = Inr u \<longleftrightarrow> (\<forall>(k, v) \<in> set rows. path_value x v p = Inr (String k))"
  by (induction rows) (auto simp: id_check_rows_def id_check_Inr)

lemma id_validate_frame:
  assumes "id_validate_one x d e = Inr d'" "tables_ok d"
  shows "id_defs d' = id_defs d \<and> tables_ok d' \<and> rows_of d' = rows_of d"
  using assms by (cases e) (auto simp: id_validate_one_def Let_def fun_eq_iff split: option.splits)

fun id_holds :: "ext \<Rightarrow> db \<Rightarrow> change_kind \<Rightarrow> bool" where
  "id_holds x d (Upsert t k v) = (\<forall>p. tbl_get (id_defs d) t = Some p \<longrightarrow> path_value x v p = Inr (String k))"
| "id_holds x d (TableReset t s) = (\<forall>p. tbl_get (id_defs d) t = Some p \<longrightarrow>
     (\<forall>(k, v) \<in> set (rows_of d s). path_value x v p = Inr (String k)))"
| "id_holds x d _ = True"

lemma id_validate_one_holds:
  assumes "id_validate_one x d e = Inr d'" "tables_ok d"
  shows "id_holds x d e"
  using assms by (cases e) (auto simp: id_validate_one_def Let_def id_check_Inr id_check_rows_Inr split: option.splits)

lemma id_holds_cong: "id_defs d' = id_defs d \<Longrightarrow> rows_of d' = rows_of d \<Longrightarrow> id_holds x d' e = id_holds x d e"
  by (cases e) auto

lemma id_validate_fold:
  "foldM (id_validate_one x) d effects = Inr d' \<Longrightarrow> tables_ok d \<Longrightarrow>
    (\<forall>e \<in> set effects. id_holds x d e) \<and> id_defs d' = id_defs d \<and> tables_ok d' \<and> rows_of d' = rows_of d"
proof (induction effects arbitrary: d)
  case (Cons e es)
  then obtain d1 where d1: "id_validate_one x d e = Inr d1" "foldM (id_validate_one x) d1 es = Inr d'" by auto
  note f = id_validate_frame[OF d1(1) Cons.prems(2)]
  have "id_holds x d e" using id_validate_one_holds[OF d1(1) Cons.prems(2)] .
  moreover have "id_holds x d1 e' = id_holds x d e'" for e' using f by (intro id_holds_cong) auto
  ultimately show ?case using Cons.IH[OF d1(2)] f by simp
qed simp

text \<open>C24. A declared identity holds of every row the transaction writes: when validation accepts a list of
  effects, each written row of a table with a declared identity field has its own key there, rows of
  reset images included.\<close>

theorem id_validated:
  assumes "id_validate x d effects = Inr d'" "tables_ok d"
  shows "(\<forall>e \<in> set effects. id_holds x d e) \<and> rows_of d' = rows_of d"
proof (cases "id_defs d = []")
  case True
  have "id_holds x d e" for e using True by (cases e) auto
  then show ?thesis using assms True by (simp add: id_validate_def)
next
  case False
  then show ?thesis using id_validate_fold assms by (simp add: id_validate_def)
qed

theorem id_validated_witness:
  "let x = plain_ext (\<lambda>bs. Some (RString (from_utf8 bs)));
       d = empty_db\<lparr>id_defs := [(''t'', \<lparr>p_steps = [], p_kind = Auto, p_transforms = []\<rparr>)]\<rparr>
   in id_validate x d [Upsert ''t'' ''a'' [97]] = Inr d \<and> id_holds x d (Upsert ''t'' ''a'' [97]) \<and>
      id_validate x d [Upsert ''t'' ''b'' [97]] = Inl IdFieldMismatch"
proof -
  let ?x = "plain_ext (\<lambda>bs. Some (RString (from_utf8 bs)))"
  let ?d = "empty_db\<lparr>id_defs := [(''t'', \<lparr>p_steps = [], p_kind = Auto, p_transforms = []\<rparr>)]\<rparr>"
  note eval = id_validate_def id_validate_one_def id_check_def path_value_def extract_value_def from_utf8_def
    u8_in_def chars_of_def char_of_def bit_0
  have v: "id_validate ?x ?d [Upsert ''t'' ''a'' [97]] = Inr ?d"
    "id_validate ?x ?d [Upsert ''t'' ''b'' [97]] = Inl IdFieldMismatch"
    by (simp_all add: eval)
  have "tables_ok ?d" by (simp add: tables_ok_def empty_db_def tbl_ok_def)
  from id_validated[OF v(1) this] v show ?thesis by (simp add: Let_def)
qed

end
