(* ===== verification/Journal.thy ===== *)
theory Journal
  imports Constraints
begin

text \<open>
  The change log of a database (\<^verbatim>\<open>src/journal.rs\<close>): writing a transaction with its effects, pruning
  what every consumer acknowledged, the retention limit, and the consumer interface. The retention
  loop may not return on a damaged log (see \<open>enforce\<close>), so a write is an option: \<open>None\<close> is a call that
  never returns, \<open>Some (Inl e)\<close> an error with the old state kept, \<open>Some (Inr _)\<close> a commit.
\<close>

datatype library_event = EvConsumerExpired string nat | EvIndexRebuildRequired string nat

definition DEFAULT_JOURNAL_MAX_BYTES :: nat where "DEFAULT_JOURNAL_MAX_BYTES = 256 * 1024 * 1024"

datatype retention = Unlimited | Default | Limit nat

fun retention_max :: "retention \<Rightarrow> nat option" where
  "retention_max Unlimited = None"
| "retention_max Default = Some DEFAULT_JOURNAL_MAX_BYTES"
| "retention_max (Limit max_bytes) = Some max_bytes"

section \<open>Writing\<close>

text \<open>One round of \<open>append_effects\<close>: the state is the head, the byte count and the rows.\<close>

definition append_effect ::
    "heap \<Rightarrow> nat \<times> nat \<times> (nat, bytes) table \<Rightarrow> change_kind \<Rightarrow> (nat \<times> nat \<times> (nat, bytes) table) res" where
  "append_effect h s e = (case s of (head, bytes, rows) \<Rightarrow>
     rbind (ok_or (Validation ''journal sequence exhausted'') (checked_add_u64 head 1)) (\<lambda>head.
     rbind (change_encode h e) (\<lambda>row.
     rbind (ok_or (Validation ''journal size overflow'') (checked_add_u64 bytes (8 + length row))) (\<lambda>bytes.
     Inr (head, bytes, tbl_insert rows head row)))))"

definition append_effects ::
    "heap \<Rightarrow> change_kind list \<Rightarrow> nat \<Rightarrow> nat \<Rightarrow> (nat, bytes) table \<Rightarrow> (nat \<times> nat \<times> (nat, bytes) table) res" where
  "append_effects h effects head bytes rows = foldM (append_effect h) (head, bytes, rows) effects"

definition lastwrite_step :: "nat \<Rightarrow> db \<Rightarrow> nat \<times> change_kind \<Rightarrow> db res" where
  "lastwrite_step head d ie = rbind (ok_or (Validation ''sequence exhausted'') (checked_add_u64 head (fst ie + 1)))
     (\<lambda>s. Inr (lastwrite_apply d (snd ie) s))"

definition first_or :: "(nat, bytes) table \<Rightarrow> nat \<Rightarrow> nat" where
  "first_or rows head = (case rows of [] \<Rightarrow> saturating_add_u64 head 1 | (k, _) # _ \<Rightarrow> k)"

definition record_effects :: "heap \<Rightarrow> ext \<Rightarrow> db \<Rightarrow> change_kind list \<Rightarrow> db res" where
  "record_effects h x d effects =
     rbind (id_validate x d effects) (\<lambda>d.
     rbind (uq_validate x d effects) (\<lambda>d.
     rbind (number d ''head'') (\<lambda>head.
     rbind (number d ''journal_bytes'') (\<lambda>bytes.
     rbind (foldM (lastwrite_step head) d (List.enumerate 0 effects)) (\<lambda>d.
     rbind (append_effects h effects head bytes (changes_table d)) (\<lambda>(head, bytes, rows).
     let d = d\<lparr>changes_table := rows\<rparr>;
         d = put_number d ''floor'' (first_or rows head);
         d = put_number d ''head'' head
     in Inr (put_number d ''journal_bytes'' bytes)))))))"

section \<open>Pruning\<close>

definition row_snapshot :: "heap \<Rightarrow> bytes \<Rightarrow> string option res" where
  "row_snapshot h row =
     (if row = [] \<or> hd row \<noteq> 1 then Inl (Validation ''unsupported journal row'')
      else if length row > 1 \<and> row ! 1 = 2
      then rbind (change_decode h row) (\<lambda>c. case c of TableReset t s \<Rightarrow> Inr (Some s) | _ \<Rightarrow> Inr None)
      else Inr None)"

definition drop_snapshot :: "db \<Rightarrow> string \<Rightarrow> db" where
  "drop_snapshot d s = (drop_table d s)\<lparr>reset_blobs := tbl_remove (reset_blobs d) (s @ ''_blobs'')\<rparr>"

fun prune_rows :: "heap \<Rightarrow> nat \<Rightarrow> db \<Rightarrow> nat \<Rightarrow> (nat, bytes) table \<Rightarrow> (db \<times> nat \<times> (nat, bytes) table) res" where
  "prune_rows h through d bytes [] = Inr (d, bytes, [])"
| "prune_rows h through d bytes ((k, row) # rows) =
     (if k \<le> through then
        rbind (row_snapshot h row) (\<lambda>snapshot.
        let d = (case snapshot of Some s \<Rightarrow> drop_snapshot d s | None \<Rightarrow> d) in
        rbind (ok_or (Validation ''invalid journal byte accounting'') (checked_sub_u64 bytes (8 + length row)))
          (\<lambda>bytes. prune_rows h through d bytes rows))
      else Inr (d, bytes, (k, row) # rows))"

definition prune :: "heap \<Rightarrow> db \<Rightarrow> nat \<Rightarrow> db res" where
  "prune h d through =
     rbind (number d ''journal_bytes'') (\<lambda>bytes.
     rbind (prune_rows h through d bytes (changes_table d)) (\<lambda>(d, bytes, rows).
     let d = put_number (d\<lparr>changes_table := rows\<rparr>) ''journal_bytes'' bytes in
     rbind (number d ''head'') (\<lambda>head. Inr (put_number d ''floor'' (first_or rows head)))))"

definition active_acks :: "db \<Rightarrow> nat list" where
  "active_acks d = map (\<lambda>(_, c). acked_seq c) (filter (\<lambda>(_, c). active c) (consumers_table d))"

definition ack_limit :: "db \<Rightarrow> nat \<Rightarrow> nat" where
  "ack_limit d head = (case active_acks d of [] \<Rightarrow> head | a # as \<Rightarrow> Min (set (a # as)))"

definition prune_acked :: "heap \<Rightarrow> db \<Rightarrow> db res" where
  "prune_acked h d = rbind (number d ''head'') (\<lambda>head. prune h d (ack_limit d head))"

section \<open>Retention\<close>

text \<open>
  \<open>min_by_key\<close> on the generation: the first of the least. The round of the loop returns the state, its
  events, and whether the loop breaks.
\<close>

fun min_generation :: "(string \<times> consumer) list \<Rightarrow> (string \<times> consumer) option" where
  "min_generation [] = None"
| "min_generation (c # cs) = (case min_generation cs of
     None \<Rightarrow> Some c | Some m \<Rightarrow> if generation (snd m) < generation (snd c) then Some m else Some c)"

definition oldest :: "db \<Rightarrow> nat \<Rightarrow> (string \<times> consumer) option" where
  "oldest d low = min_generation (filter (\<lambda>(_, c). active c \<and> acked_seq c = low) (consumers_table d))"

definition expire_oldest :: "db \<Rightarrow> nat \<Rightarrow> string \<Rightarrow> consumer \<Rightarrow> db \<times> library_event" where
  "expire_oldest d head name c =
     (if internal c
      then (d\<lparr>consumers_table := tbl_insert (consumers_table d) name (c\<lparr>needs_rebuild := True, acked_seq := head\<rparr>)\<rparr>,
            EvIndexRebuildRequired name (acked_seq c))
      else (d\<lparr>consumers_table := tbl_insert (consumers_table d) name (c\<lparr>active := False\<rparr>)\<rparr>,
            EvConsumerExpired name (acked_seq c)))"

definition enforce_round :: "heap \<Rightarrow> nat \<Rightarrow> db \<Rightarrow> library_event list \<Rightarrow> (db \<times> library_event list \<times> bool) res" where
  "enforce_round h cap d events =
     rbind (prune_acked h d) (\<lambda>d.
     rbind (number d ''journal_bytes'') (\<lambda>bytes.
     if bytes \<le> cap then Inr (d, events, True) else
     rbind (number d ''head'') (\<lambda>head.
     case oldest d (ack_limit d head) of
       None \<Rightarrow> Inl (Validation ''journal cannot be pruned'')
     | Some (name, c) \<Rightarrow> (case expire_oldest d head name c of (d, e) \<Rightarrow> Inr (d, events @ [e], False)))))"

text \<open>
  The loop. On a log whose byte count is wrong, with an internal consumer, it never returns.
\<close>

partial_function (option) enforce_loop ::
    "heap \<Rightarrow> nat \<Rightarrow> db \<Rightarrow> library_event list \<Rightarrow> (db \<times> library_event list) res option" where
  "enforce_loop h cap d events = (case number d ''journal_bytes'' of
      Inl e \<Rightarrow> Some (Inl e)
    | Inr bytes \<Rightarrow>
        if bytes \<le> cap then Some (Inr (d, events))
        else (case enforce_round h cap d events of
            Inl e \<Rightarrow> Some (Inl e)
          | Inr (d', events', stop) \<Rightarrow>
              if stop then Some (Inr (d', events')) else enforce_loop h cap d' events'))"

definition enforce :: "heap \<Rightarrow> retention \<Rightarrow> db \<Rightarrow> (db \<times> library_event list) res option" where
  "enforce h r d = (case retention_max r of
     None \<Rightarrow> Some (Inr (d, [])) | Some cap \<Rightarrow> enforce_loop h cap d [])"

text \<open>A transaction body: the state after it, its output and its effects.\<close>

type_synonym 'a tx_body = "db \<Rightarrow> ('a \<times> db \<times> change_kind list) res"

definition write_with_sink ::
    "heap \<Rightarrow> ext \<Rightarrow> retention \<Rightarrow> 'a tx_body \<Rightarrow> db \<Rightarrow> ('a \<times> db \<times> library_event list) res option" where
  "write_with_sink h x r f d = (case f d of
      Inl e \<Rightarrow> Some (Inl e)
    | Inr (out, d, effects) \<Rightarrow>
        (case rbind (record_effects h x d effects) (prune_acked h) of
          Inl e \<Rightarrow> Some (Inl e)
        | Inr d \<Rightarrow> (case enforce h r d of
            None \<Rightarrow> None
          | Some (Inl e) \<Rightarrow> Some (Inl e)
          | Some (Inr (d, events)) \<Rightarrow> Some (Inr (out, d, events)))))"

section \<open>Consumers\<close>

record consumer_token =
  tok_uuid :: bytes
  tok_name :: string
  tok_generation :: nat

definition check_token :: "consumer_token \<Rightarrow> bytes \<Rightarrow> consumer option \<Rightarrow> consumer res" where
  "check_token token uuid consumer = rbind (ok_or ConsumerExpired consumer) (\<lambda>c.
     if tok_uuid token \<noteq> uuid \<or> tok_generation token \<noteq> generation c \<or> \<not> active c then Inl ConsumerExpired
     else if needs_rebuild c then Inl ConsumerNeedsRebuild
     else Inr c)"

definition managed_error :: cl_error where
  "managed_error = Validation ''internal consumer is managed by the library''"

definition managed :: "db \<Rightarrow> string \<Rightarrow> bool" where
  "managed d name \<longleftrightarrow> (case tbl_get (consumers_table d) name of Some c \<Rightarrow> internal c | None \<Rightarrow> False)"

definition register_body :: "int \<Rightarrow> string \<Rightarrow> bool \<Rightarrow> consumer_token tx_body" where
  "register_body now name intern d =
     (if \<not> intern \<and> managed d name then Inl managed_error else
      rbind (number d ''consumer_generation'') (\<lambda>g.
      rbind (ok_or (Validation ''consumer generation exhausted'') (checked_add_u64 g 1)) (\<lambda>g.
      let d = put_number d ''consumer_generation'' g in
      rbind (number d ''head'') (\<lambda>head.
      rbind (db_uuid d) (\<lambda>uuid.
      let c = \<lparr>generation = g, acked_seq = head, registered_at = now, active = True, internal = intern,
               needs_rebuild = False\<rparr>
      in Inr (\<lparr>tok_uuid = uuid, tok_name = name, tok_generation = g\<rparr>,
           d\<lparr>consumers_table := tbl_insert (consumers_table d) name c\<rparr>, []))))))"

definition register_journal_consumer ::
    "heap \<Rightarrow> ext \<Rightarrow> retention \<Rightarrow> int \<Rightarrow> string \<Rightarrow> bool \<Rightarrow> db \<Rightarrow>
      (consumer_token \<times> db \<times> library_event list) res option" where
  "register_journal_consumer h x r now name intern d =
     (if name = [] then Some (Inl (Validation ''empty consumer name''))
      else write_with_sink h x r (register_body now name intern) d)"

definition register_consumer ::
    "heap \<Rightarrow> ext \<Rightarrow> retention \<Rightarrow> int \<Rightarrow> string \<Rightarrow> db \<Rightarrow> (consumer_token \<times> db \<times> library_event list) res option" where
  "register_consumer h x r now name d = register_journal_consumer h x r now name False d"

definition journal_read :: "db \<Rightarrow> consumer_token \<Rightarrow> consumer res" where
  "journal_read d token = rbind (db_uuid d) (\<lambda>uuid.
     check_token token uuid (tbl_get (consumers_table d) (tok_name token)))"

definition read_row :: "heap \<Rightarrow> change list \<Rightarrow> nat \<times> bytes \<Rightarrow> change list res" where
  "read_row h out r = rbind (change_decode h (snd r)) (\<lambda>c.
     mem_push h ''journal.read_rows'' out \<lparr>ch_seq = fst r, ch_kind = c\<rparr>)"

definition read_changes :: "heap \<Rightarrow> db \<Rightarrow> consumer_token \<Rightarrow> nat \<Rightarrow> nat \<Rightarrow> change list res" where
  "read_changes h d token after limit =
     rbind (journal_read d token) (\<lambda>_.
     rbind (number d ''floor'') (\<lambda>floor.
     if after < floor - 1 then Inl ConsumerExpired else
     rbind (number d ''head'') (\<lambda>head.
     if after > head then Inl (Validation ''sequence is ahead of journal'') else
     foldM (read_row h) [] (take limit (tbl_after (changes_table d) after)))))"

definition reset_snapshot :: "heap \<Rightarrow> db \<Rightarrow> consumer_token \<Rightarrow> nat \<Rightarrow> string res" where
  "reset_snapshot h d token s =
     rbind (journal_read d token) (\<lambda>_.
     rbind (case tbl_get (changes_table d) s of
         None \<Rightarrow> Inl ConsumerExpired | Some row \<Rightarrow> change_decode h row) (\<lambda>c.
     case c of TableReset t snapshot \<Rightarrow> Inr snapshot | _ \<Rightarrow> Inl (Validation ''not a table reset'')))"

definition read_reset :: "heap \<Rightarrow> db \<Rightarrow> consumer_token \<Rightarrow> nat \<Rightarrow> (string \<times> bytes) list res" where
  "read_reset h d token s = rbind (reset_snapshot h d token s) (open_read d)"

definition read_reset_blobs :: "heap \<Rightarrow> db \<Rightarrow> consumer_token \<Rightarrow> nat \<Rightarrow> (string \<times> string \<times> nat) list res" where
  "read_reset_blobs h d token s = rbind (reset_snapshot h d token s) (\<lambda>snapshot.
     rbind (ok_or (cl_error.Database (TableDoesNotExist (snapshot @ ''_blobs'')))
       (tbl_get (reset_blobs d) (snapshot @ ''_blobs''))) (\<lambda>rows.
     Inr (map (\<lambda>((_, k), r). (k, blob_id r, blob_size r)) rows)))"

definition ack_body :: "heap \<Rightarrow> consumer_token \<Rightarrow> nat \<Rightarrow> unit tx_body" where
  "ack_body h token s d =
     rbind (db_uuid d) (\<lambda>uuid.
     rbind (check_token token uuid (tbl_get (consumers_table d) (tok_name token))) (\<lambda>c.
     rbind (if s < acked_seq c then Inl (Validation ''invalid acknowledgement'') else
       rbind (number d ''head'') (\<lambda>head. guard_ok (s \<le> head) (Validation ''invalid acknowledgement''))) (\<lambda>_.
     rbind (prune_acked h (d\<lparr>consumers_table :=
         tbl_insert (consumers_table d) (tok_name token) (c\<lparr>acked_seq := s\<rparr>)\<rparr>)) (\<lambda>d.
     Inr ((), d, [])))))"

definition ack :: "heap \<Rightarrow> ext \<Rightarrow> retention \<Rightarrow> consumer_token \<Rightarrow> nat \<Rightarrow> db \<Rightarrow> (unit \<times> db \<times> library_event list) res option" where
  "ack h x r token s d = write_with_sink h x r (ack_body h token s) d"

definition unregister_body :: "heap \<Rightarrow> string \<Rightarrow> unit tx_body" where
  "unregister_body h name d =
     (if managed d name then Inl managed_error else
      rbind (prune_acked h (d\<lparr>consumers_table := tbl_remove (consumers_table d) name\<rparr>)) (\<lambda>d. Inr ((), d, [])))"

definition unregister_consumer ::
    "heap \<Rightarrow> ext \<Rightarrow> retention \<Rightarrow> string \<Rightarrow> db \<Rightarrow> (unit \<times> db \<times> library_event list) res option" where
  "unregister_consumer h x r name d = write_with_sink h x r (unregister_body h name) d"

definition set_journal_retention ::
    "heap \<Rightarrow> ext \<Rightarrow> retention \<Rightarrow> db \<Rightarrow> (unit \<times> db \<times> library_event list) res option" where
  "set_journal_retention h x r d = write_with_sink h x r (\<lambda>d. Inr ((), d, [])) d"

definition disable_body :: "unit tx_body" where
  "disable_body d = Inr ((), case tbl_get (consumers_table d) ''__indexer'' of
      Some c \<Rightarrow> if internal c
        then d\<lparr>consumers_table := tbl_insert (consumers_table d) ''__indexer'' (c\<lparr>active := False\<rparr>)\<rparr> else d
    | None \<Rightarrow> d, [])"

definition disable_index_consumer ::
    "heap \<Rightarrow> ext \<Rightarrow> retention \<Rightarrow> db \<Rightarrow> (unit \<times> db \<times> library_event list) res option" where
  "disable_index_consumer h x r d = write_with_sink h x r disable_body d"

record read_view =
  rv_head :: nat
  rv_uuid :: bytes
  rv_db :: db

definition read_view_at_head :: "db \<Rightarrow> read_view res" where
  "read_view_at_head d = rbind (number d ''head'') (\<lambda>head. rbind (db_uuid d) (\<lambda>uuid.
     Inr \<lparr>rv_head = head, rv_uuid = uuid, rv_db = d\<rparr>))"

definition view_get_raw :: "read_view \<Rightarrow> string \<Rightarrow> string \<Rightarrow> bytes option res" where
  "view_get_raw v t k = rbind (open_read (rv_db v) t) (\<lambda>rows. Inr (tbl_get rows k))"

definition view_blob_reference :: "read_view \<Rightarrow> string \<Rightarrow> string \<Rightarrow> (string \<times> nat) option" where
  "view_blob_reference v t k = map_option (\<lambda>r. (blob_id r, blob_size r)) (blob_get (rv_db v) t k)"

definition view_table_entries :: "heap \<Rightarrow> read_view \<Rightarrow> string \<Rightarrow> (string \<times> bytes) list res" where
  "view_table_entries h v t = rbind (open_read (rv_db v) t) (\<lambda>rows.
     rbind (vec_with_capacity h ''journal.table_entries'' (length rows)) (\<lambda>out.
     foldM (\<lambda>out r. rbind (copy_bytes h ''journal.table_entries'' (snd r))
       (\<lambda>value. mem_push h ''journal.table_entries'' out (fst r, value))) out rows))"

record journal_stats =
  st_head :: nat
  st_floor :: nat
  st_bytes :: nat
  st_uuid :: bytes

definition get_journal_stats :: "db \<Rightarrow> journal_stats res" where
  "get_journal_stats d = rbind (db_uuid d) (\<lambda>uuid. rbind (number d ''head'') (\<lambda>head.
     rbind (number d ''floor'') (\<lambda>floor. rbind (number d ''journal_bytes'') (\<lambda>bytes.
     Inr \<lparr>st_head = head, st_floor = floor, st_bytes = bytes, st_uuid = uuid\<rparr>))))"

definition journal_head :: "db \<Rightarrow> nat res" where
  "journal_head d = rbind (get_journal_stats d) (\<lambda>s. Inr (st_head s))"

definition resume_index_consumer ::
    "heap \<Rightarrow> ext \<Rightarrow> retention \<Rightarrow> int \<Rightarrow> db \<Rightarrow>
      ((consumer_token \<times> bool) \<times> db \<times> library_event list) res option" where
  "resume_index_consumer h x r now d = (case read_view_at_head d of
      Inl e \<Rightarrow> Some (Inl e)
    | Inr view \<Rightarrow>
        (let fresh = map_option (map_sum id (\<lambda>(t, d, ev). ((t, True), d, ev)))
               (register_journal_consumer h x r now ''__indexer'' True d)
         in case tbl_get (consumers_table d) ''__indexer'' of
           Some c \<Rightarrow> if internal c \<and> active c \<and> \<not> needs_rebuild c
             then Some (Inr ((\<lparr>tok_uuid = rv_uuid view, tok_name = ''__indexer'',
               tok_generation = generation c\<rparr>, False), d, []))
             else fresh
         | None \<Rightarrow> fresh))"

end
