(* ===== verification/Journal_Inv.thy ===== *)
theory Journal_Inv
  imports Journal
begin

text \<open>
  The invariant of the change log and that every operation keeps it. The log holds a contiguous run
  of sequence numbers that ends at the head, its rows decode, the byte count is exact, and the run
  reaches back to every active consumer: nothing an active consumer has not acknowledged is lost.
\<close>

named_theorems log_simps \<open>how the log fields change\<close>

section \<open>The invariant\<close>

text \<open>Effects of the library: well-formed changes whose table images have reserved names.\<close>

definition effect_ok :: "change_kind \<Rightarrow> bool" where
  "effect_ok c \<longleftrightarrow> change_ok c \<and> (case c of TableReset t s \<Rightarrow> starts_with_reserved s | _ \<Rightarrow> True)"

definition row_ok :: "bytes \<Rightarrow> bool" where
  "row_ok row \<longleftrightarrow> (\<exists>h c. effect_ok c \<and> change_encode h c = Inr row)"

definition log_bytes :: "(nat, bytes) table \<Rightarrow> nat" where
  "log_bytes rows = sum_list (map (\<lambda>r. 8 + length (snd r)) rows)"

definition log_ok :: "(nat, bytes) table \<Rightarrow> nat \<Rightarrow> bool" where
  "log_ok rows hi \<longleftrightarrow> length rows \<le> hi \<and> map fst rows = [Suc hi - length rows..<Suc hi] \<and>
     (\<forall>r \<in> set rows. row_ok (snd r))"

definition consumers_ok :: "(string, consumer) table \<Rightarrow> (nat, bytes) table \<Rightarrow> nat \<Rightarrow> nat \<Rightarrow> bool" where
  "consumers_ok cs rows hi gen \<longleftrightarrow> (\<forall>(_, c) \<in> set cs. acked_seq c \<le> hi \<and> generation c \<le> gen \<and>
     (active c \<longrightarrow> hi \<le> acked_seq c + length rows))"

definition counters :: "db \<Rightarrow> nat \<Rightarrow> nat \<Rightarrow> nat \<Rightarrow> nat \<Rightarrow> bool" where
  "counters d hi fl bytes gen \<longleftrightarrow> number d ''head'' = Inr hi \<and> number d ''floor'' = Inr fl \<and>
     number d ''journal_bytes'' = Inr bytes \<and> number d ''consumer_generation'' = Inr gen \<and>
     (\<exists>r. number d ''reset_generation'' = Inr r) \<and> (\<exists>u. db_uuid d = Inr u)"

definition journal_at :: "db \<Rightarrow> nat \<Rightarrow> nat \<Rightarrow> bool" where
  "journal_at d hi gen \<longleftrightarrow> tables_ok d \<and> hi \<le> u64_max \<and>
     counters d hi (first_or (changes_table d) hi) (log_bytes (changes_table d)) gen \<and>
     log_ok (changes_table d) hi \<and> consumers_ok (consumers_table d) (changes_table d) hi gen"

definition journal_inv :: "db \<Rightarrow> bool" where
  "journal_inv d \<longleftrightarrow> (\<exists>hi gen. journal_at d hi gen)"

lemma log_bytes_simps [simp]:
  "log_bytes [] = 0" "log_bytes (r # rows) = 8 + length (snd r) + log_bytes rows"
  "log_bytes (a @ b) = log_bytes a + log_bytes b"
  by (simp_all add: log_bytes_def)

section \<open>Counters\<close>

lemma number_frame [log_simps]:
  "number (d\<lparr>changes_table := a\<rparr>) k = number d k" "number (d\<lparr>consumers_table := b\<rparr>) k = number d k"
  "db_uuid (d\<lparr>changes_table := a\<rparr>) = db_uuid d" "db_uuid (d\<lparr>consumers_table := b\<rparr>) = db_uuid d"
  by (simp_all add: number_def db_uuid_def)

lemma number_cong: "seq_table d' = seq_table d \<Longrightarrow> number d' k = number d k"
  by (simp add: number_def)

lemma db_uuid_cong: "seq_table d' = seq_table d \<Longrightarrow> db_uuid d' = db_uuid d"
  by (simp add: db_uuid_def)

lemma put_number_frame [simp]:
  "changes_table (put_number d k v) = changes_table d" "consumers_table (put_number d k v) = consumers_table d"
  "user_tables (put_number d k v) = user_tables d" "tables_ok d \<Longrightarrow> tables_ok (put_number d k v)"
  "unique_defs (put_number d k v) = unique_defs d" "unique_keys (put_number d k v) = unique_keys d"
  "unique_rows (put_number d k v) = unique_rows d" "blob_refs (put_number d k v) = blob_refs d"
  "lastwrite_table (put_number d k v) = lastwrite_table d" "id_defs (put_number d k v) = id_defs d"
  "reset_blobs (put_number d k v) = reset_blobs d"
  by (simp_all add: put_number_def tables_ok_def)

lemma db_uuid_put_number [simp]: "tables_ok d \<Longrightarrow> k \<noteq> ''db_uuid'' \<Longrightarrow> db_uuid (put_number d k v) = db_uuid d"
  by (simp add: db_uuid_def put_number_def tables_ok_def)

lemma number_put [simp]: "tables_ok d \<Longrightarrow> v \<le> u64_max \<Longrightarrow>
    number (put_number d k v) j = (if j = k then Inr v else number d j)"
  by (simp add: number_put_number tables_ok_def)

lemma number_bound: "number d k = Inr v \<Longrightarrow> v \<le> u64_max"
proof -
  assume "number d k = Inr v"
  then obtain bs where "length bs = 8" "v = from_be bs" by (auto simp: number_def)
  then show ?thesis using from_be_less[of bs] by (simp add: u64_max_def)
qed

lemma first_or_bound: "log_ok rows hi \<Longrightarrow> hi \<le> u64_max \<Longrightarrow> first_or rows hi \<le> u64_max"
proof (cases rows)
  case (Cons r rs)
  assume "log_ok rows hi" "hi \<le> u64_max"
  moreover have "fst r \<in> set (map fst rows)" using Cons by simp
  ultimately have "fst r \<le> u64_max" unfolding log_ok_def by (metis (no_types) atLeastLessThan_iff less_Suc_eq_le order_trans set_upt)
  then show ?thesis using Cons by (simp add: first_or_def split_beta)
qed (simp add: first_or_def saturating_add_u64_def)

section \<open>Operations that do not touch the log\<close>

definition same_log :: "db \<Rightarrow> db \<Rightarrow> bool" where
  "same_log d d' \<longleftrightarrow> seq_table d' = seq_table d \<and> changes_table d' = changes_table d \<and>
     consumers_table d' = consumers_table d \<and> (tables_ok d \<longrightarrow> tables_ok d')"

lemma same_log_refl [simp]: "same_log d d"
  by (simp add: same_log_def)

lemma same_log_trans: "same_log a b \<Longrightarrow> same_log b c \<Longrightarrow> same_log a c"
  by (simp add: same_log_def)

lemma same_log_at: "same_log d d' \<Longrightarrow> journal_at d hi gen \<Longrightarrow> journal_at d' hi gen"
  by (simp add: same_log_def journal_at_def counters_def number_def db_uuid_def)

lemma same_log_inv: "same_log d d' \<Longrightarrow> journal_inv d \<Longrightarrow> journal_inv d'"
  by (auto simp: journal_inv_def intro: same_log_at)

lemma same_log_rows [simp]: "same_log d (put_row d t k v)" "same_log d (del_row d t k)" "same_log d (drop_table d t)"
  by (simp_all add: same_log_def row_defs tables_ok_set_rows)

text \<open>\<open>quiet\<close> steps leave the log and every row alone: they only open tables or keep books.\<close>

definition quiet :: "db \<Rightarrow> db \<Rightarrow> bool" where
  "quiet d d' \<longleftrightarrow> same_log d d' \<and> (tables_ok d \<longrightarrow> get_row d' = get_row d) \<and> blob_refs d' = blob_refs d \<and>
     reset_blobs d' = reset_blobs d"

lemma quiet_refl [simp]: "quiet d d"
  by (simp add: quiet_def)

lemma quiet_trans: "quiet a b \<Longrightarrow> quiet b c \<Longrightarrow> quiet a c"
  by (auto simp: quiet_def same_log_def)

lemma quiet_log: "quiet d d' \<Longrightarrow> same_log d d'"
  by (simp add: quiet_def)

lemma get_row_cong: "user_tables d' = user_tables d \<Longrightarrow> get_row d' = get_row d"
  by (intro ext) (simp add: get_row_def rows_of_def)

lemma get_row_open: "tables_ok d \<Longrightarrow> get_row (open_write d t) = get_row d"
  by (rule ext)+ (simp add: get_row_def)

lemma quietI:
  assumes "seq_table d' = seq_table d" "changes_table d' = changes_table d" "consumers_table d' = consumers_table d"
    "user_tables d' = user_tables d" "blob_refs d' = blob_refs d" "reset_blobs d' = reset_blobs d"
    "tables_ok d \<Longrightarrow> tables_ok d'"
  shows "quiet d d'"
  unfolding quiet_def same_log_def using assms get_row_cong[OF assms(4)] by blast

lemma quiet_foldl: "(\<And>d a. quiet d (f d a)) \<Longrightarrow> quiet d (foldl f d as)"
  by (induction as arbitrary: d) (auto intro: quiet_trans)

lemma quiet_foldM: "foldM f d as = Inr d' \<Longrightarrow> (\<And>d a d'. f d a = Inr d' \<Longrightarrow> quiet d d') \<Longrightarrow> quiet d d'"
proof (induction as arbitrary: d)
  case (Cons a as)
  then obtain d1 where "f d a = Inr d1" "foldM f d1 as = Inr d'" by auto
  then show ?case using Cons quiet_trans by blast
qed simp

lemma quiet_open [simp]: "quiet d (open_write d t)"
  by (simp add: quiet_def same_log_def get_row_open)

lemma quiet_uq_remove [simp]: "quiet d (uq_remove d t k)"
  by (rule quietI) (auto simp: uq_remove_def tables_ok_def tbl_ok_removes split: option.split)

lemma quiet_uq_clear [simp]: "quiet d (uq_clear d t)"
  unfolding uq_clear_def by (rule quiet_foldl) auto

lemma quiet_uq_insert:
  assumes "uq_insert x d t k v defs = Inr d'"
  shows "quiet d d'"
proof -
  from assms obtain ks u where u: "foldM (claim_key k) (unique_keys d) ks = Inr u"
    and d': "d' = (if ks \<noteq> [] then d\<lparr>unique_keys := u, unique_rows := tbl_insert (unique_rows d) (t, k) ks\<rparr>
      else d\<lparr>unique_keys := u\<rparr>)"
    by (rule uq_insert_Inr)
  have "tables_ok d \<Longrightarrow> tbl_ok u" using claim_keys[OF u] by (simp add: tables_ok_def)
  then show ?thesis by (intro quietI) (simp_all add: d' tables_ok_def)
qed

lemma quiet_uq_reinsert:
  assumes "uq_reinsert x d rk = Inr d'"
  shows "quiet d d'"
proof -
  obtain t k where rk: "rk = (t, k)" by (cases rk)
  show ?thesis
  proof (cases "tbl_get (unique_defs d) t")
    case None
    then show ?thesis using assms by (simp add: rk uq_reinsert_def)
  next
    case (Some defs)
    then have ins: "(case get_row (open_write d t) t k of None \<Rightarrow> Inr (open_write d t)
        | Some v \<Rightarrow> uq_insert x (open_write d t) t k v defs) = Inr d'"
      using assms by (simp add: rk uq_reinsert_def Let_def)
    show ?thesis
    proof (cases "get_row (open_write d t) t k")
      case None
      then have "d' = open_write d t" using ins by simp
      then show ?thesis by simp
    next
      case (Some b)
      then have "uq_insert x (open_write d t) t k b defs = Inr d'" using ins by simp
      then show ?thesis by (rule quiet_trans[OF quiet_open quiet_uq_insert])
    qed
  qed
qed

lemma quiet_uq_validate: "uq_validate x d effects = Inr d' \<Longrightarrow> quiet d d'"
proof (cases "unique_defs d = []")
  case False
  assume v: "uq_validate x d effects = Inr d'"
  let ?resets = "btree_set (uq_resets d effects)"
  let ?changed = "btree_set (uq_changed d effects @
      concat (map (\<lambda>t. map (\<lambda>(k, _). (t, k)) (rows_of d t)) ?resets))"
  let ?d1 = "foldl (\<lambda>d t. open_write (uq_clear d t) t) d ?resets"
  let ?d2 = "foldl (\<lambda>d (t, k). uq_remove d t k) ?d1 ?changed"
  have "quiet d ?d1" by (rule quiet_foldl) (rule quiet_trans[OF quiet_uq_clear quiet_open])
  moreover have "quiet ?d1 ?d2" by (rule quiet_foldl) auto
  moreover have "foldM (uq_reinsert x) ?d2 ?changed = Inr d'"
    using v False unfolding uq_validate_def Let_def by simp
  then have "quiet ?d2 d'" by (rule quiet_foldM) (rule quiet_uq_reinsert)
  ultimately show ?thesis by (blast intro: quiet_trans)
qed (simp add: uq_validate_def)

lemma quiet_id_validate: "id_validate x d effects = Inr d' \<Longrightarrow> quiet d d'"
proof (cases "id_defs d = []")
  case False
  assume "id_validate x d effects = Inr d'"
  then have "foldM (id_validate_one x) d effects = Inr d'" using False by (simp add: id_validate_def)
  then show ?thesis
    by (rule quiet_foldM) (auto simp: id_validate_one_def Let_def split: change_kind.splits option.splits)
qed (simp add: id_validate_def)

lemma tbl_ok_foldl_insert: "tbl_ok l \<Longrightarrow> tbl_ok (foldl (\<lambda>l (k, _). tbl_insert l (t, k) s) l rows)"
  by (induction rows arbitrary: l) auto

lemma quiet_lastwrite [simp]: "quiet d (lastwrite_apply d c s)"
proof (cases c)
  case (TableReset t snap)
  have "tbl_ok (foldl (\<lambda>l (k, _). tbl_insert l (t, k) s) (filter (\<lambda>((name, _), _). name \<noteq> t) (lastwrite_table d))
      (rows_of (open_write d t) t))" if "tables_ok d"
    by (rule tbl_ok_foldl_insert) (use that in \<open>simp add: tables_ok_def tbl_ok_filter\<close>)
  moreover have "quiet d ((open_write d t)\<lparr>lastwrite_table := l\<rparr>)" if "tables_ok d \<Longrightarrow> tbl_ok l" for l
  proof -
    have "tables_ok d \<Longrightarrow> tables_ok ((open_write d t)\<lparr>lastwrite_table := l\<rparr>)"
      using that tables_ok_open[of d t] by (simp add: tables_ok_def)
    moreover have "get_row ((open_write d t)\<lparr>lastwrite_table := l\<rparr>) = get_row (open_write d t)"
      by (rule get_row_cong) simp
    ultimately show ?thesis by (simp add: quiet_def same_log_def get_row_open)
  qed
  ultimately show ?thesis unfolding TableReset lastwrite_apply_def Let_def by simp
qed (rule quietI; auto simp: lastwrite_apply_def tables_ok_def)+

lemma quiet_lastwrites: "foldM (lastwrite_step head) d ies = Inr d' \<Longrightarrow> quiet d d'"
  by (rule quiet_foldM) (auto simp: lastwrite_step_def)

section \<open>Pruning\<close>

text \<open>Nothing is added: table images may only go.\<close>

definition shrinks :: "db \<Rightarrow> db \<Rightarrow> bool" where
  "shrinks d d' \<longleftrightarrow> (\<forall>t k v. get_row d' t k = Some v \<longrightarrow> get_row d t k = Some v) \<and>
     (\<forall>n r. tbl_get (reset_blobs d') n = Some r \<longrightarrow> tbl_get (reset_blobs d) n = Some r) \<and>
     number d' ''reset_generation'' = number d ''reset_generation''"

lemma shrinks_refl [simp]: "shrinks d d"
  by (simp add: shrinks_def)

lemma shrinks_trans: "shrinks a b \<Longrightarrow> shrinks b c \<Longrightarrow> shrinks a c"
  by (simp add: shrinks_def)

lemma shrinks_fields [simp]:
  "shrinks a (d\<lparr>changes_table := c\<rparr>) \<longleftrightarrow> shrinks a d"
  "shrinks a (d\<lparr>consumers_table := cs\<rparr>) \<longleftrightarrow> shrinks a d"
  by (simp_all add: shrinks_def log_simps get_row_def rows_of_def)

lemma shrinks_put_number [simp]: "tables_ok d \<Longrightarrow> v \<le> u64_max \<Longrightarrow> k \<noteq> ''reset_generation'' \<Longrightarrow>
    shrinks a (put_number d k v) \<longleftrightarrow> shrinks a d"
  by (simp add: shrinks_def get_row_def rows_of_def)

lemma shrinks_drop_snapshot [simp]: "tables_ok d \<Longrightarrow> shrinks d (drop_snapshot d s)"
  by (auto simp: shrinks_def drop_snapshot_def drop_table_def tables_ok_def number_def get_row_def rows_of_def
      split: option.splits if_splits)

text \<open>The public data: everything a pruned log must leave alone.\<close>

definition same_user :: "db \<Rightarrow> db \<Rightarrow> bool" where
  "same_user d d' \<longleftrightarrow>
     (\<forall>t. \<not> starts_with_reserved t \<longrightarrow> tbl_get (user_tables d') t = tbl_get (user_tables d) t) \<and>
     blob_refs d' = blob_refs d \<and> lastwrite_table d' = lastwrite_table d \<and> id_defs d' = id_defs d \<and>
     unique_defs d' = unique_defs d \<and> unique_keys d' = unique_keys d \<and> unique_rows d' = unique_rows d \<and> shrinks d d'"

lemma same_user_refl [simp]: "same_user d d"
  by (simp add: same_user_def)

lemma same_user_trans: "same_user a b \<Longrightarrow> same_user b c \<Longrightarrow> same_user a c"
  by (simp add: same_user_def shrinks_trans[of a b c])

lemma same_user_fields [simp]:
  "same_user a (d\<lparr>changes_table := c\<rparr>) \<longleftrightarrow> same_user a d"
  "same_user a (d\<lparr>consumers_table := cs\<rparr>) \<longleftrightarrow> same_user a d"
  by (simp_all add: same_user_def)

lemma same_user_put_number [simp]: "tables_ok d \<Longrightarrow> v \<le> u64_max \<Longrightarrow> k \<noteq> ''reset_generation'' \<Longrightarrow>
    same_user a (put_number d k v) \<longleftrightarrow> same_user a d"
  by (simp add: same_user_def)

lemma same_log_drop_snapshot [simp]: "same_log d (drop_snapshot d s)"
  by (auto simp: same_log_def drop_snapshot_def drop_table_def tables_ok_def set_tbl_remove)

lemma same_user_drop_snapshot [simp]: "tables_ok d \<Longrightarrow> starts_with_reserved s \<Longrightarrow> same_user d (drop_snapshot d s)"
  using shrinks_drop_snapshot[of d s] by (auto simp: same_user_def drop_snapshot_def drop_table_def tables_ok_def)

lemma decode_encoded:
  assumes "change_ok c" "change_encode h' c = Inr row" "change_decode h row = Inr c'"
  shows "c = c'"
  using assms(3) unfolding change_decode_encode[OF assms(1,2)] by simp

lemma row_ok_snapshot:
  assumes "row_ok row" "row_snapshot h row = Inr (Some s)"
  shows "starts_with_reserved s"
proof -
  obtain h' c where c: "effect_ok c" "change_encode h' c = Inr row" using assms(1) by (auto simp: row_ok_def)
  have "change_decode h row = Inr (TableReset t s) \<Longrightarrow> c = TableReset t s" for t
    using decode_encoded[OF _ c(2)] c(1) by (simp add: effect_ok_def)
  then show ?thesis
    using assms(2) c(1) by (auto simp: row_snapshot_def effect_ok_def split: if_splits change_kind.splits)
qed

lemma prune_rows_Inr:
  assumes "prune_rows h thr d bytes rows = Inr (d', bytes', rows')" "\<forall>r \<in> set rows. row_ok (snd r)" "tables_ok d"
  shows "same_log d d' \<and> same_user d d' \<and> rows' = dropWhile (\<lambda>r. fst r \<le> thr) rows \<and>
    bytes = bytes' + log_bytes (takeWhile (\<lambda>r. fst r \<le> thr) rows)"
  using assms
proof (induction h thr d bytes rows rule: prune_rows.induct)
  case (2 h thr d bytes k row rows)
  show ?case
  proof (cases "k \<le> thr")
    case True
    then obtain sn where sn: "row_snapshot h row = Inr sn" and b: "8 + length row \<le> bytes"
      and rest: "prune_rows h thr (case sn of Some s \<Rightarrow> drop_snapshot d s | None \<Rightarrow> d) (bytes - (8 + length row)) rows =
        Inr (d', bytes', rows')"
      using "2.prems"(1) by (auto simp: Let_def)
    let ?d = "case sn of Some s \<Rightarrow> drop_snapshot d s | None \<Rightarrow> d"
    have d: "same_log d ?d" "same_user d ?d"
      using row_ok_snapshot[of row h] sn "2.prems"(2,3) by (auto split: option.split)
    have "tables_ok ?d" using d(1) "2.prems"(3) by (simp add: same_log_def)
    from "2.IH"[OF True sn refl _ rest _ this] b "2.prems"(2)
    have "same_log ?d d' \<and> same_user ?d d' \<and> rows' = dropWhile (\<lambda>r. fst r \<le> thr) rows \<and>
        bytes - (8 + length row) = bytes' + log_bytes (takeWhile (\<lambda>r. fst r \<le> thr) rows)"
      by simp
    then show ?thesis using d b True by (auto intro: same_log_trans same_user_trans)
  qed (use "2.prems" in auto)
qed simp

lemma log_ok_Cons: "log_ok (r # rows) hi \<longleftrightarrow>
    length rows < hi \<and> fst r = hi - length rows \<and> row_ok (snd r) \<and> log_ok rows hi"
proof (cases "length rows < hi")
  case True
  then have "[Suc hi - length (r # rows)..<Suc hi] = (hi - length rows) # [Suc hi - length rows..<Suc hi]"
    using upt_conv_Cons[of "hi - length rows" "Suc hi"] by (simp add: Suc_diff_le)
  then show ?thesis using True by (auto simp: log_ok_def)
qed (simp add: log_ok_def)

lemma log_ok_Nil [simp]: "log_ok [] hi"
  by (simp add: log_ok_def)

lemma log_ok_rows: "log_ok rows hi \<Longrightarrow> \<forall>r \<in> set rows. row_ok (snd r)"
  by (simp add: log_ok_def)

lemma log_ok_drop: "log_ok rows hi \<Longrightarrow> log_ok (dropWhile (\<lambda>r. fst r \<le> thr) rows) hi \<and>
    length (dropWhile (\<lambda>r. fst r \<le> thr) rows) = min (length rows) (hi - thr)"
  by (induction rows) (auto simp: log_ok_Cons)

lemma log_bytes_split: "log_bytes rows = log_bytes (takeWhile P rows) + log_bytes (dropWhile P rows)"
  by (metis log_bytes_simps(3) takeWhile_dropWhile_id)

lemma journal_atD:
  assumes "journal_at d hi gen"
  shows "tables_ok d" "hi \<le> u64_max" "number d ''head'' = Inr hi" "number d ''floor'' = Inr (first_or (changes_table d) hi)"
    "number d ''journal_bytes'' = Inr (log_bytes (changes_table d))" "number d ''consumer_generation'' = Inr gen"
    "log_ok (changes_table d) hi" "consumers_ok (consumers_table d) (changes_table d) hi gen"
    "log_bytes (changes_table d) \<le> u64_max"
  using assms number_bound[of d "''journal_bytes''"] by (simp_all add: journal_at_def counters_def)

definition within_acks :: "(string, consumer) table \<Rightarrow> nat \<Rightarrow> bool" where
  "within_acks cs thr \<longleftrightarrow> (\<forall>(_, c) \<in> set cs. active c \<longrightarrow> thr \<le> acked_seq c)"

lemma consumers_ok_drop: "consumers_ok cs rows hi gen \<Longrightarrow> within_acks cs thr \<Longrightarrow> log_ok rows hi \<Longrightarrow>
    consumers_ok cs (dropWhile (\<lambda>r. fst r \<le> thr) rows) hi gen"
  using log_ok_drop[of rows hi thr] by (fastforce simp: consumers_ok_def within_acks_def)

lemma prune_at:
  assumes at: "journal_at d hi gen" and p: "prune h d thr = Inr d'" and acks: "within_acks (consumers_table d) thr"
  shows "journal_at d' hi gen \<and> same_user d d' \<and> db_uuid d' = db_uuid d \<and> consumers_table d' = consumers_table d \<and>
    changes_table d' = dropWhile (\<lambda>r. fst r \<le> thr) (changes_table d)"
proof -
  note a = journal_atD[OF at]
  let ?rows = "dropWhile (\<lambda>r. fst r \<le> thr) (changes_table d)"
  obtain d1 bytes rows where pr: "prune_rows h thr d (log_bytes (changes_table d)) (changes_table d) = Inr (d1, bytes, rows)"
    and rest: "rbind (number (put_number (d1\<lparr>changes_table := rows\<rparr>) ''journal_bytes'' bytes) ''head'') (\<lambda>hd.
      Inr (put_number (put_number (d1\<lparr>changes_table := rows\<rparr>) ''journal_bytes'' bytes) ''floor'' (first_or rows hd))) = Inr d'"
    using p a(5) by (auto simp: prune_def Let_def)
  have r: "same_log d d1" "same_user d d1" "rows = ?rows"
    "log_bytes (changes_table d) = bytes + log_bytes (takeWhile (\<lambda>r. fst r \<le> thr) (changes_table d))"
    using prune_rows_Inr[OF pr log_ok_rows[OF a(7)] a(1)] by auto
  have bytes: "bytes = log_bytes ?rows"
    using r(4) log_bytes_split[of "changes_table d" "\<lambda>r. fst r \<le> thr"] by simp
  have lo: "log_ok ?rows hi" using log_ok_drop[OF a(7)] by simp
  let ?d2 = "d1\<lparr>changes_table := rows\<rparr>"
  have "tbl_ok rows" using r(3) a(1) tbl_ok_append[of "takeWhile (\<lambda>r. fst r \<le> thr) (changes_table d)" ?rows]
    by (simp add: tables_ok_def)
  then have t2: "tables_ok ?d2" using r(1) a(1) by (simp add: same_log_def tables_ok_def)
  have b: "bytes \<le> u64_max" "first_or rows hi \<le> u64_max"
    using a(9) r(4) first_or_bound[OF lo a(2)] r(3) by auto
  have n2: "number ?d2 k = number d k" "db_uuid ?d2 = db_uuid d" for k
    using r(1) by (simp_all add: same_log_def log_simps number_cong[of d1 d] db_uuid_cong[of d1 d])
  have d': "d' = put_number (put_number ?d2 ''journal_bytes'' bytes) ''floor'' (first_or rows hi)"
    using rest t2 b a(3) by (simp add: n2)
  show ?thesis
    using t2 b a(2) at r(1,2) consumers_ok_drop[OF a(8) acks a(7), folded r(3)] lo[folded r(3)] bytes[folded r(3)]
    by (simp add: d' journal_at_def counters_def n2 same_log_def r(3)[symmetric])
qed

section \<open>Pruning what is acknowledged\<close>

lemma active_acks_iff: "a \<in> set (active_acks d) \<longleftrightarrow> (\<exists>n c. (n, c) \<in> set (consumers_table d) \<and> active c \<and> acked_seq c = a)"
  by (force simp: active_acks_def)

lemma ack_limit_cases:
  obtains "active_acks d = []" "ack_limit d hi = hi"
  | "ack_limit d hi \<in> set (active_acks d)" "\<forall>a \<in> set (active_acks d). ack_limit d hi \<le> a"
proof (cases "active_acks d")
  case (Cons a as)
  then have l: "ack_limit d hi = Min (set (active_acks d))" by (simp add: ack_limit_def)
  have "Min (set (active_acks d)) \<in> set (active_acks d)" using Cons by (intro Min_in) auto
  moreover have "\<forall>a \<in> set (active_acks d). Min (set (active_acks d)) \<le> a" by simp
  ultimately show thesis using that(2) by (simp only: l)
qed (use that(1) in \<open>simp add: ack_limit_def\<close>)

lemma within_ack_limit: "within_acks (consumers_table d) (ack_limit d hi)"
  by (rule ack_limit_cases[of d hi]) (auto simp: within_acks_def active_acks_iff, auto simp: active_acks_def filter_empty_conv)

lemma prune_acked_at:
  assumes "journal_at d hi gen" "prune_acked h d = Inr d'"
  shows "journal_at d' hi gen \<and> same_user d d' \<and> db_uuid d' = db_uuid d \<and> consumers_table d' = consumers_table d \<and>
    changes_table d' = dropWhile (\<lambda>r. fst r \<le> ack_limit d hi) (changes_table d)"
  using assms journal_atD(3)[OF assms(1)] prune_at[OF assms(1) _ within_ack_limit] by (simp add: prune_acked_def)

section \<open>The retention loop\<close>

lemma min_generation_None [simp]: "min_generation cs = None \<longleftrightarrow> cs = []"
  by (cases cs) (auto split: option.splits if_splits)

lemma min_generation_in: "min_generation cs = Some m \<Longrightarrow> m \<in> set cs \<and> (\<forall>c \<in> set cs. generation (snd m) \<le> generation (snd c))"
proof (induction cs arbitrary: m)
  case (Cons c cs)
  show ?case
  proof (cases "min_generation cs")
    case None
    then have "cs = []" by simp
    then show ?thesis using Cons.prems by simp
  next
    case (Some a)
    from Cons.IH[OF Some] Some Cons.prems show ?thesis by (auto split: if_splits)
  qed
qed simp

definition lagging :: "db \<Rightarrow> nat \<Rightarrow> nat" where
  "lagging d hi = length (filter (\<lambda>(_, c). active c \<and> acked_seq c < hi) (consumers_table d))"

lemma lagging_insert:
  assumes "tbl_ok cs" "(n, c) \<in> set cs" "active c" "acked_seq c < hi" "\<not> (active c' \<and> acked_seq c' < hi)"
  shows "length (filter (\<lambda>(_, c). active c \<and> acked_seq c < hi) (tbl_insert cs n c')) <
    length (filter (\<lambda>(_, c). active c \<and> acked_seq c < hi) cs)"
  using assms by (induction cs n c' rule: tbl_insert.induct) (auto simp: tbl_ok_Cons)

lemma expire_at:
  assumes "journal_at d hi gen" "(n, c) \<in> set (consumers_table d)" "active c" "acked_seq c < hi"
    "expire_oldest d hi n c = (d', e)"
  shows "journal_at d' hi gen \<and> same_user d d' \<and> lagging d' hi < lagging d hi \<and>
    (\<forall>m. m \<noteq> n \<longrightarrow> tbl_get (consumers_table d') m = tbl_get (consumers_table d) m) \<and>
    changes_table d' = changes_table d \<and> db_uuid d' = db_uuid d \<and>
    (\<forall>m. map_option generation (tbl_get (consumers_table d') m) = map_option generation (tbl_get (consumers_table d) m)) \<and>
    (e = EvIndexRebuildRequired n (acked_seq c) \<or> e = EvConsumerExpired n (acked_seq c))"
proof -
  note a = journal_atD[OF assms(1)]
  define c' where "c' = (if internal c then c\<lparr>needs_rebuild := True, acked_seq := hi\<rparr> else c\<lparr>active := False\<rparr>)"
  have d': "d' = d\<lparr>consumers_table := tbl_insert (consumers_table d) n c'\<rparr>"
    and e: "e = EvIndexRebuildRequired n (acked_seq c) \<or> e = EvConsumerExpired n (acked_seq c)"
    using assms(5) by (auto simp: expire_oldest_def c'_def split: if_splits)
  have tc: "tbl_ok (consumers_table d)" using a(1) by (simp add: tables_ok_def)
  have t: "tables_ok d'" using a(1) by (simp add: d' tables_ok_def)
  have co: "acked_seq c \<le> hi \<and> generation c \<le> gen" using a(8) assms(2) by (auto simp: consumers_ok_def)
  have "acked_seq c' \<le> hi \<and> generation c' \<le> gen \<and> (active c' \<longrightarrow> acked_seq c' = hi)"
    using co by (simp add: c'_def)
  then have "consumers_ok (consumers_table d') (changes_table d) hi gen"
    using a(8) tc by (auto simp: d' consumers_ok_def set_tbl_insert)
  moreover have "lagging d' hi < lagging d hi"
    unfolding lagging_def d' using lagging_insert[OF tc assms(2-4), of c'] by (simp add: c'_def)
  moreover have "tbl_get (consumers_table d) n = Some c" using tc assms(2) by (simp add: tbl_get_iff)
  then have "map_option generation (tbl_get (consumers_table d') m) = map_option generation (tbl_get (consumers_table d) m)" for m
    using tc by (simp add: d' c'_def)
  ultimately show ?thesis using assms(1) t e tc by (simp add: d' journal_at_def counters_def log_simps)
qed

fun event_name :: "library_event \<Rightarrow> string" where
  "event_name (EvConsumerExpired n _) = n"
| "event_name (EvIndexRebuildRequired n _) = n"

text \<open>What a round, and the loop, promise: public data stay, a consumer changes only when an event names
  it, and every other active consumer still finds all it has not acknowledged.\<close>

definition enforced :: "db \<Rightarrow> db \<Rightarrow> library_event list \<Rightarrow> bool" where
  "enforced d d' events \<longleftrightarrow> same_user d d' \<and> db_uuid d' = db_uuid d \<and>
     (\<forall>m. map_option generation (tbl_get (consumers_table d') m) = map_option generation (tbl_get (consumers_table d) m)) \<and> (\<forall>m. m \<notin> event_name ` set events \<longrightarrow>
     tbl_get (consumers_table d') m = tbl_get (consumers_table d) m \<and>
     (\<forall>c a. tbl_get (consumers_table d) m = Some c \<longrightarrow> active c \<longrightarrow> acked_seq c \<le> a \<longrightarrow>
       tbl_after (changes_table d') a = tbl_after (changes_table d) a))"

lemma enforced_refl [simp]: "enforced d d []"
  by (simp add: enforced_def)

lemma enforced_trans: "enforced a b ev \<Longrightarrow> enforced b c ev' \<Longrightarrow> enforced a c (ev @ ev')"
  unfolding enforced_def by (simp add: same_user_trans[of a b c] image_Un) metis

lemma tbl_after_drop: "thr \<le> a \<Longrightarrow> tbl_after (dropWhile (\<lambda>r. fst r \<le> thr) rows) a = tbl_after rows a"
  by (induction rows) (auto simp: tbl_after_def)

lemma prune_acked_enforced:
  assumes "journal_at d hi gen" "prune_acked h d = Inr d'"
  shows "enforced d d' []"
proof -
  note p = prune_acked_at[OF assms]
  have "tbl_after (changes_table d') a = tbl_after (changes_table d) a"
    if "tbl_get (consumers_table d) m = Some c" "active c" "acked_seq c \<le> a" for m c a
  proof -
    have "(m, c) \<in> set (consumers_table d)"
      using that(1) journal_atD(1)[OF assms(1)] by (simp add: tables_ok_def tbl_get_iff)
    then have "ack_limit d hi \<le> a" using within_ack_limit[of d hi] that by (fastforce simp: within_acks_def)
    then show ?thesis using p by (simp add: tbl_after_drop)
  qed
  then show ?thesis using p by (auto simp: enforced_def)
qed

lemma round_at:
  assumes "journal_at d hi gen" "enforce_round h cap d events = r"
  obtains e where "r = Inl e" "prune_acked h d = Inl e"
  | d' where "r = Inr (d', events, True)" "journal_at d' hi gen" "enforced d d' []" "log_bytes (changes_table d') \<le> cap"
  | d' e where "r = Inr (d', events @ [e], False)" "journal_at d' hi gen" "enforced d d' [e]" "lagging d' hi < lagging d hi"
proof (cases "prune_acked h d")
  case (Inl e)
  then have "r = Inl e" using assms(2) by (auto simp: enforce_round_def)
  then show thesis using that(1) Inl by simp
next
  case (Inr d1)
  note p = prune_acked_at[OF assms(1) Inr]
  then have at1: "journal_at d1 hi gen" by simp
  note a = journal_atD[OF at1]
  show thesis
  proof (cases "log_bytes (changes_table d1) \<le> cap")
    case True
    then have "r = Inr (d1, events, True)" using assms(2) Inr a(5) by (auto simp: enforce_round_def)
    moreover have "enforced d d1 []" by (rule prune_acked_enforced[OF assms(1) Inr])
    ultimately show thesis using that(2) True at1 by blast
  next
    case False
    have lim: "ack_limit d1 hi = ack_limit d hi" using p by (simp add: ack_limit_def active_acks_def)
    have "length (changes_table d1) \<noteq> 0" using False by auto
    moreover have "length (changes_table d1) = min (length (changes_table d)) (hi - ack_limit d hi)"
      using p log_ok_drop[OF journal_atD(7)[OF assms(1)]] by simp
    ultimately have less: "ack_limit d1 hi < hi" using lim by simp
    then have "ack_limit d1 hi \<in> set (active_acks d1)" by (rule_tac ack_limit_cases[of d1 hi]) auto
    then have "filter (\<lambda>(_, c). active c \<and> acked_seq c = ack_limit d1 hi) (consumers_table d1) \<noteq> []"
      by (auto simp: active_acks_iff filter_empty_conv)
    then obtain n c where o: "oldest d1 (ack_limit d1 hi) = Some (n, c)"
      unfolding oldest_def by (metis min_generation_None not_Some_eq surj_pair)
    then have c: "(n, c) \<in> set (consumers_table d1)" "active c" "acked_seq c < hi"
      using min_generation_in[OF o[unfolded oldest_def]] less by auto
    obtain d2 e where ex: "expire_oldest d1 hi n c = (d2, e)" by (cases "expire_oldest d1 hi n c")
    note x = expire_at[OF at1 c ex]
    have "r = Inr (d2, events @ [e], False)" using assms(2) Inr a(3,5) False o ex by (auto simp: enforce_round_def)
    moreover have "lagging d1 hi = lagging d hi" using p by (simp add: lagging_def)
    moreover have "enforced d1 d2 [e]" unfolding enforced_def using x by auto
    then have "enforced d d2 [e]" using enforced_trans[OF prune_acked_enforced[OF assms(1) Inr]] by fastforce
    ultimately show thesis using that(3) x by simp
  qed
qed

lemma enforce_loop_at:
  assumes "journal_at d hi gen"
  shows "(\<exists>e. enforce_loop h cap d events = Some (Inl e) \<and> (\<exists>d'. prune_acked h d' = Inl e \<and> journal_inv d')) \<or>
    (\<exists>d' new. enforce_loop h cap d events = Some (Inr (d', events @ new)) \<and> journal_at d' hi gen \<and>
       enforced d d' new \<and> log_bytes (changes_table d') \<le> cap)"
  using assms
proof (induction "lagging d hi" arbitrary: d events rule: less_induct)
  case less
  note b = journal_atD(5)[OF less.prems]
  note unfold = enforce_loop.simps[of h cap d events]
  show ?case
  proof (cases "log_bytes (changes_table d) \<le> cap")
    case True
    then have "enforce_loop h cap d events = Some (Inr (d, events))" using unfold b by simp
    then show ?thesis using True less.prems by auto
  next
    case False
    show ?thesis
    proof (rule round_at[OF less.prems refl, of h cap events])
      fix e assume "enforce_round h cap d events = Inl e" "prune_acked h d = Inl e"
      then show ?thesis using unfold b False less.prems by (auto simp: journal_inv_def)
    next
      fix d' assume "enforce_round h cap d events = Inr (d', events, True)" "journal_at d' hi gen" "enforced d d' []"
        "log_bytes (changes_table d') \<le> cap"
      then show ?thesis using unfold b False by auto
    next
      fix d' e assume r: "enforce_round h cap d events = Inr (d', events @ [e], False)" "journal_at d' hi gen"
        "enforced d d' [e]" "lagging d' hi < lagging d hi"
      have l: "enforce_loop h cap d events = enforce_loop h cap d' (events @ [e])" using unfold b False r(1) by simp
      from less.hyps[OF r(4,2), of "events @ [e]"] show ?thesis
        unfolding l using enforced_trans[OF r(3)] by fastforce
    qed
  qed
qed

section \<open>Recording effects\<close>

text \<open>\<open>logged\<close> says that rows are the encoded effects with consecutive sequence numbers after \<open>hi\<close>.\<close>

definition logged :: "change_kind list \<Rightarrow> nat \<Rightarrow> (nat, bytes) table \<Rightarrow> bool" where
  "logged effects hi new \<longleftrightarrow> map fst new = [Suc hi..<Suc (hi + length effects)] \<and>
     list_all2 (\<lambda>e r. \<exists>h. change_encode h e = Inr (snd r)) effects new"

lemma logged_length: "logged effects hi new \<Longrightarrow> length new = length effects"
  by (auto simp: logged_def dest: list_all2_lengthD)

lemma append_effects_at:
  assumes "append_effects h effects hi bytes rows = Inr (hi', bytes', rows')" "tbl_ok rows" "\<forall>r \<in> set rows. fst r \<le> hi"
    "hi \<le> u64_max"
  shows "\<exists>new. rows' = rows @ new \<and> logged effects hi new \<and> hi' = hi + length effects \<and> hi' \<le> u64_max \<and>
    bytes' = bytes + log_bytes new \<and> (bytes \<le> u64_max \<longrightarrow> bytes' \<le> u64_max)"
  using assms
proof (induction effects arbitrary: hi bytes rows)
  case Nil
  then show ?case by (auto simp: append_effects_def logged_def)
next
  case (Cons e effects)
  from Cons.prems(1) obtain row where h: "Suc hi \<le> u64_max" and enc: "change_encode h e = Inr row"
    and b: "bytes + (8 + length row) \<le> u64_max"
    and rest: "append_effects h effects (Suc hi) (bytes + (8 + length row)) (tbl_insert rows (Suc hi) row) =
      Inr (hi', bytes', rows')"
    by (auto simp: append_effects_def append_effect_def)
  have "\<forall>(a, _) \<in> set rows. a < Suc hi" using Cons.prems(3) by auto
  then have ins: "tbl_insert rows (Suc hi) row = rows @ [(Suc hi, row)]" by (rule tbl_insert_last[OF Cons.prems(2)])
  have "tbl_ok (tbl_insert rows (Suc hi) row)" using Cons.prems(2) by simp
  moreover have "\<forall>r \<in> set (tbl_insert rows (Suc hi) row). fst r \<le> Suc hi" using Cons.prems(3) by (auto simp: ins)
  ultimately obtain new where n: "rows' = tbl_insert rows (Suc hi) row @ new" "logged effects (Suc hi) new"
    "hi' = Suc hi + length effects" "hi' \<le> u64_max" "bytes' = bytes + (8 + length row) + log_bytes new"
    "bytes' \<le> u64_max"
    using Cons.IH[OF rest _ _ h] b by auto
  have "logged (e # effects) hi ((Suc hi, row) # new)"
    using n(2) enc upt_conv_Cons[of "Suc hi" "Suc (Suc (hi + length effects))"] by (auto simp: logged_def)
  then show ?case using n ins by (intro exI[of _ "(Suc hi, row) # new"]) auto
qed

lemma log_ok_append:
  assumes "log_ok rows hi" "logged effects hi new" "\<forall>e \<in> set effects. effect_ok e"
  shows "log_ok (rows @ new) (hi + length effects)"
proof -
  have l: "length new = length effects" using assms(2) by (rule logged_length)
  have "row_ok (snd r)" if "r \<in> set new" for r
  proof -
    obtain i where i: "i < length new" "r = new ! i" using \<open>r \<in> set new\<close> by (auto simp: in_set_conv_nth)
    have "list_all2 (\<lambda>e r. \<exists>h. change_encode h e = Inr (snd r)) effects new" using assms(2) by (simp add: logged_def)
    from list_all2_nthD2[OF this i(1)] i l obtain h where "change_encode h (effects ! i) = Inr (snd r)" by auto
    moreover have "effects ! i \<in> set effects" using i(1) l by simp
    ultimately show ?thesis using assms(3) by (auto simp: row_ok_def)
  qed
  moreover have "[Suc (hi + length effects) - length (rows @ new)..<Suc (hi + length effects)] =
      [Suc hi - length rows..<Suc hi] @ [Suc hi..<Suc (hi + length effects)]"
    using upt_add_eq_append[of "Suc hi - length rows" "Suc hi" "length effects"] l by simp
  ultimately show ?thesis using assms l by (auto simp: log_ok_def logged_def)
qed

lemma record_effects_at:
  assumes at: "journal_at d hi gen" and r: "record_effects h x d effects = Inr d'" and ok: "\<forall>e \<in> set effects. effect_ok e"
  shows "journal_at d' (hi + length effects) gen \<and> consumers_table d' = consumers_table d \<and>
    get_row d' = get_row d \<and> blob_refs d' = blob_refs d \<and> reset_blobs d' = reset_blobs d \<and> db_uuid d' = db_uuid d \<and>
    number d' ''reset_generation'' = number d ''reset_generation'' \<and>
    (\<exists>new. changes_table d' = changes_table d @ new \<and> logged effects hi new)"
proof -
  obtain d1 d2 h1 b1 d3 hi' bytes' rows' where v: "id_validate x d effects = Inr d1" "uq_validate x d1 effects = Inr d2"
    "number d2 ''head'' = Inr h1" "number d2 ''journal_bytes'' = Inr b1"
    "foldM (lastwrite_step h1) d2 (List.enumerate 0 effects) = Inr d3"
    and a: "append_effects h effects h1 b1 (changes_table d3) = Inr (hi', bytes', rows')"
    and d': "d' = put_number (put_number (put_number (d3\<lparr>changes_table := rows'\<rparr>) ''floor'' (first_or rows' hi'))
      ''head'' hi') ''journal_bytes'' bytes'"
    using r by (auto simp: record_effects_def Let_def split_beta)
  have q2: "quiet d d2" using quiet_id_validate[OF v(1)] quiet_uq_validate[OF v(2)] by (rule quiet_trans)
  then have q3: "quiet d d3" using quiet_lastwrites[OF v(5)] by (rule quiet_trans)
  note s2 = quiet_log[OF q2] and s3 = quiet_log[OF q3]
  note f = journal_atD[OF same_log_at[OF s2 at]] and f3 = journal_atD[OF same_log_at[OF s3 at]]
  have h1: "h1 = hi" "b1 = log_bytes (changes_table d)" using f v s2 by (auto simp: same_log_def)
  have c3: "changes_table d3 = changes_table d" "consumers_table d3 = consumers_table d" using s3 by (auto simp: same_log_def)
  have "\<forall>r \<in> set (changes_table d). fst r \<le> hi"
    using f3(7) unfolding log_ok_def c3 by (metis (no_types) atLeastLessThan_iff image_eqI less_Suc_eq_le list.set_map set_upt)
  then obtain new where n: "rows' = changes_table d @ new" "logged effects hi new" "hi' = hi + length effects"
    "hi' \<le> u64_max" "bytes' = log_bytes (changes_table d) + log_bytes new" "bytes' \<le> u64_max"
    using append_effects_at[OF a] f3 by (auto simp: h1 c3 tables_ok_def)
  have lo: "log_ok rows' hi'" using log_ok_append[OF _ n(2) ok] f3(7) by (simp add: n c3)
  have fo: "first_or rows' hi' \<le> u64_max" by (rule first_or_bound[OF lo n(4)])
  have co: "consumers_ok (consumers_table d) rows' hi' gen"
    using f3(8) logged_length[OF n(2)] by (fastforce simp: consumers_ok_def n c3)
  have "sorted_wrt (<) (map fst rows')" using lo unfolding log_ok_def by (simp only: sorted_wrt_upt)
  then have t: "tables_ok (d3\<lparr>changes_table := rows'\<rparr>)" using f3(1) by (simp add: tables_ok_def tbl_ok_def)
  have "get_row d' = get_row d3" by (rule get_row_cong) (simp add: d')
  moreover have "db_uuid d' = db_uuid d3" using t by (simp add: d' log_simps)
  ultimately have g: "get_row d' = get_row d \<and> blob_refs d' = blob_refs d \<and> reset_blobs d' = reset_blobs d \<and>
      db_uuid d' = db_uuid d"
    using q3 at db_uuid_cong[of d3 d] by (simp add: quiet_def same_log_def d' journal_at_def)
  moreover have "number d' ''reset_generation'' = number d ''reset_generation''"
    using t fo n(4,6) number_cong[of d3 d] s3 by (simp add: d' log_simps same_log_def)
  moreover have "journal_at d' (hi + length effects) gen"
    using t fo n(4,6) lo co same_log_at[OF s3 at]
    by (simp add: d' journal_at_def counters_def log_simps c3 n(1,3,5))
  moreover have "consumers_table d' = consumers_table d" "changes_table d' = changes_table d @ new"
    by (simp_all add: d' c3 n(1))
  ultimately show ?thesis using n(2) by blast
qed

end
