(* ===== verification/Journal_Safety.thy ===== *)
theory Journal_Safety
  imports Journal_Inv
begin

text \<open>
  What the change log promises: a write always returns and keeps the log within its limit, an active
  consumer loses nothing, a stale token is refused, and every operation keeps the invariant, so it holds
  in every state a database can reach.
\<close>

section \<open>Writes\<close>

lemma same_user_get_row: "same_user d d' \<Longrightarrow> \<not> starts_with_reserved t \<Longrightarrow> get_row d' t k = get_row d t k"
  by (simp add: same_user_def get_row_def rows_of_def)

lemma tbl_after_append: "tbl_after (a @ b) k = tbl_after a k @ tbl_after b k"
  by (simp add: tbl_after_def)

lemma tbl_after_logged:
  assumes "logged effects hi new" "a \<le> hi"
  shows "tbl_after new a = new"
proof -
  have "a < fst r" if "r \<in> set new" for r
  proof -
    have "fst r \<in> set (map fst new)" using that by simp
    then have "fst r \<in> set [Suc hi..<Suc (hi + length effects)]" using assms(1) by (simp only: logged_def)
    then show ?thesis using assms(2) by auto
  qed
  then show ?thesis unfolding tbl_after_def by (auto intro: filter_True)
qed

text \<open>What a body may do to the log's own tables: nothing but number a table image.\<close>

definition log_kept :: "db \<Rightarrow> db \<Rightarrow> bool" where
  "log_kept d d1 \<longleftrightarrow> changes_table d1 = changes_table d \<and> consumers_table d1 = consumers_table d \<and>
     (\<forall>k. k \<noteq> ''reset_generation'' \<longrightarrow> tbl_get (seq_table d1) k = tbl_get (seq_table d) k) \<and>
     (\<exists>r. number d1 ''reset_generation'' = Inr r) \<and> tables_ok d1"

lemma log_kept_number: "log_kept d d1 \<Longrightarrow> k \<noteq> ''reset_generation'' \<Longrightarrow> number d1 k = number d k"
  by (simp add: log_kept_def number_def)

lemma log_kept_uuid: "log_kept d d1 \<Longrightarrow> db_uuid d1 = db_uuid d"
  by (simp add: log_kept_def db_uuid_def)

lemma log_kept_at: "log_kept d d1 \<Longrightarrow> journal_at d hi gen \<Longrightarrow> journal_at d1 hi gen"
  using log_kept_number[of d d1] log_kept_uuid[of d d1]
  by (simp add: journal_at_def counters_def) (simp add: log_kept_def)

lemma log_kept_inv: "log_kept d d1 \<Longrightarrow> journal_inv d \<Longrightarrow> journal_inv d1"
  by (auto simp: journal_inv_def intro: log_kept_at)

lemma same_log_kept: "same_log d d1 \<Longrightarrow> journal_inv d \<Longrightarrow> log_kept d d1"
  using number_cong[of d1 d] by (auto simp: log_kept_def same_log_def journal_inv_def journal_at_def counters_def)

lemma log_kept_refl: "journal_inv d \<Longrightarrow> log_kept d d"
  by (simp add: same_log_kept)

lemma log_kept_trans: "log_kept a b \<Longrightarrow> log_kept b c \<Longrightarrow> log_kept a c"
  by (simp add: log_kept_def)

text \<open>The outcome of a write whose body committed: the log it leaves and what consumers still find in it.\<close>

definition committed :: "retention \<Rightarrow> db \<Rightarrow> change_kind list \<Rightarrow> db \<Rightarrow> library_event list \<Rightarrow> bool" where
  "committed r d effects d' events \<longleftrightarrow> journal_inv d' \<and>
     (\<forall>cap. retention_max r = Some cap \<longrightarrow> log_bytes (changes_table d') \<le> cap) \<and>
     (\<forall>t k. \<not> starts_with_reserved t \<longrightarrow> get_row d' t k = get_row d t k) \<and> blob_refs d' = blob_refs d \<and>
     shrinks d d' \<and> db_uuid d' = db_uuid d \<and>
     (\<forall>m. map_option generation (tbl_get (consumers_table d') m) = map_option generation (tbl_get (consumers_table d) m)) \<and>
     (\<exists>hi new. number d ''head'' = Inr hi \<and> number d' ''head'' = Inr (hi + length effects) \<and> logged effects hi new \<and>
       (\<forall>m c a. m \<notin> event_name ` set events \<longrightarrow> tbl_get (consumers_table d) m = Some c \<longrightarrow>
         tbl_get (consumers_table d') m = Some c \<and>
         (active c \<longrightarrow> acked_seq c \<le> a \<longrightarrow> a \<le> hi \<longrightarrow>
           tbl_after (changes_table d') a = tbl_after (changes_table d) a @ new)))"

lemma enforce_at:
  assumes "journal_at d hi gen"
  shows "(\<exists>e. enforce h r d = Some (Inl e)) \<or>
    (\<exists>d' events. enforce h r d = Some (Inr (d', events)) \<and> journal_at d' hi gen \<and> enforced d d' events \<and>
      (\<forall>cap. retention_max r = Some cap \<longrightarrow> log_bytes (changes_table d') \<le> cap))"
proof (cases "retention_max r")
  case None
  then show ?thesis using assms by (simp add: enforce_def)
next
  case (Some cap)
  then show ?thesis using enforce_loop_at[OF assms, of h cap "[]"] by (auto simp: enforce_def)
qed

lemma write_at:
  assumes inv: "journal_inv d" and body: "f d = Inr (out, d1, effects)"
    and ok: "journal_inv d1" "\<forall>e \<in> set effects. effect_ok e"
  shows "(\<exists>e. write_with_sink h x r f d = Some (Inl e)) \<or>
    (\<exists>d' events. write_with_sink h x r f d = Some (Inr (out, d', events)) \<and> committed r d1 effects d' events)"
proof (cases "record_effects h x d1 effects")
  case (Inl e)
  then show ?thesis using body by (simp add: write_with_sink_def)
next
  case (Inr d2)
  obtain hi gen where at1: "journal_at d1 hi gen" using ok(1) by (auto simp: journal_inv_def)
  obtain new where r: "journal_at d2 (hi + length effects) gen" "consumers_table d2 = consumers_table d1"
    "get_row d2 = get_row d1" "blob_refs d2 = blob_refs d1"
    "db_uuid d2 = db_uuid d1" "reset_blobs d2 = reset_blobs d1"
    "number d2 ''reset_generation'' = number d1 ''reset_generation''" "changes_table d2 = changes_table d1 @ new" "logged effects hi new"
    using record_effects_at[OF at1 Inr ok(2)] by blast
  show ?thesis
  proof (cases "prune_acked h d2")
    case (Inl e)
    then show ?thesis using body Inr by (simp add: write_with_sink_def)
  next
    case p: (Inr d3)
    have at3: "journal_at d3 (hi + length effects) gen" "enforced d2 d3 []"
      using prune_acked_at[OF r(1) p] prune_acked_enforced[OF r(1) p] by auto
    from enforce_at[OF at3(1), of h r] show ?thesis
    proof (elim disjE exE conjE)
      fix e assume "enforce h r d3 = Some (Inl e)"
      then show ?thesis using body Inr p by (simp add: write_with_sink_def)
    next
      fix d' events
      assume e: "enforce h r d3 = Some (Inr (d', events))" "journal_at d' (hi + length effects) gen" "enforced d3 d' events"
        and cap: "\<forall>cap. retention_max r = Some cap \<longrightarrow> log_bytes (changes_table d') \<le> cap"
      have w: "write_with_sink h x r f d = Some (Inr (out, d', events))"
        using body Inr p e(1) by (simp add: write_with_sink_def)
      have en: "enforced d2 d' events" using enforced_trans[OF at3(2) e(3)] by simp
      have "shrinks d1 d2" using r(3,6,7) by (simp add: shrinks_def)
      then have sh: "shrinks d1 d'" using en shrinks_trans[of d1 d2 d'] by (simp add: enforced_def same_user_def)
      have "tbl_after (changes_table d2) a = tbl_after (changes_table d1) a @ new" if "a \<le> hi" for a
        using tbl_after_logged[OF r(9) that] by (simp add: r(8) tbl_after_append)
      then have "committed r d1 effects d' events"
        unfolding committed_def
        using e(2) cap en sh journal_atD(3)[OF at1] journal_atD(3)[OF e(2)] r(9) same_user_get_row[of d2 d']
        by (intro conjI exI[of _ hi] exI[of _ new])
          (auto simp: journal_inv_def enforced_def r(2-5) same_user_def)
      then show ?thesis using w by blast
    qed
  qed
qed

section \<open>The transactions of the consumer interface\<close>

text \<open>Replacing or dropping a consumer keeps the invariant when the new entry is within the log.\<close>

lemma consumers_update:
  assumes "journal_at d hi gen" "acked_seq c \<le> hi" "generation c \<le> gen"
    "active c \<longrightarrow> hi \<le> acked_seq c + length (changes_table d)"
  shows "journal_at (d\<lparr>consumers_table := tbl_insert (consumers_table d) n c\<rparr>) hi gen"
proof -
  note a = journal_atD[OF assms(1)]
  have "tbl_ok (consumers_table d)" using a(1) by (simp add: tables_ok_def)
  then have "consumers_ok (tbl_insert (consumers_table d) n c) (changes_table d) hi gen"
    using a(8) assms(2-4) by (auto simp: consumers_ok_def set_tbl_insert)
  then show ?thesis using assms(1) by (simp add: journal_at_def counters_def log_simps tables_ok_def)
qed

lemma consumers_drop:
  assumes "journal_at d hi gen"
  shows "journal_at (d\<lparr>consumers_table := tbl_remove (consumers_table d) n\<rparr>) hi gen"
proof -
  note a = journal_atD[OF assms]
  have "tbl_ok (consumers_table d)" using a(1) by (simp add: tables_ok_def)
  then have "consumers_ok (tbl_remove (consumers_table d) n) (changes_table d) hi gen"
    using a(8) by (auto simp: consumers_ok_def set_tbl_remove)
  then show ?thesis using assms by (simp add: journal_at_def counters_def log_simps tables_ok_def)
qed

lemma consumer_facts:
  assumes "journal_at d hi gen" "tbl_get (consumers_table d) n = Some c"
  shows "acked_seq c \<le> hi" "generation c \<le> gen" "active c \<longrightarrow> hi \<le> acked_seq c + length (changes_table d)"
proof -
  have "(n, c) \<in> set (consumers_table d)"
    using assms journal_atD(1)[OF assms(1)] by (simp add: tables_ok_def tbl_get_iff)
  then show "acked_seq c \<le> hi" "generation c \<le> gen" "active c \<longrightarrow> hi \<le> acked_seq c + length (changes_table d)"
    using journal_atD(8)[OF assms(1)] by (auto simp: consumers_ok_def)
qed

lemma next_generation:
  assumes "journal_at d hi gen" "Suc gen \<le> u64_max"
  shows "journal_at (put_number d ''consumer_generation'' (Suc gen)) hi (Suc gen)"
  using assms by (auto simp: journal_at_def counters_def consumers_ok_def)

lemma register_body_at:
  assumes "journal_at d hi gen" "register_body now name intern d = Inr (tok, d', effects)"
  shows "journal_at d' hi (Suc gen) \<and> effects = [] \<and> tok_generation tok = Suc gen \<and> tok_name tok = name \<and>
    db_uuid d' = Inr (tok_uuid tok) \<and> (intern \<or> \<not> managed d name) \<and>
    tbl_get (consumers_table d') name = Some \<lparr>generation = Suc gen, acked_seq = hi, registered_at = now,
      active = True, internal = intern, needs_rebuild = False\<rparr>"
proof -
  note a = journal_atD[OF assms(1)]
  let ?c = "\<lparr>generation = Suc gen, acked_seq = hi, registered_at = now, active = True, internal = intern,
      needs_rebuild = False\<rparr>"
  let ?d = "put_number d ''consumer_generation'' (Suc gen)"
  from assms(2) a(6) obtain uuid where g: "Suc gen \<le> u64_max" and m: "intern \<or> \<not> managed d name"
    and u: "db_uuid ?d = Inr uuid" and o: "tok = \<lparr>tok_uuid = uuid, tok_name = name, tok_generation = Suc gen\<rparr>"
      "effects = []" "d' = ?d\<lparr>consumers_table := tbl_insert (consumers_table ?d) name ?c\<rparr>"
    using a(1,3) by (auto simp: register_body_def Let_def split: if_splits)
  have at: "journal_at ?d hi (Suc gen)" by (rule next_generation[OF assms(1) g])
  have "journal_at d' hi (Suc gen)" unfolding o by (rule consumers_update[OF at]) simp_all
  moreover have "tbl_get (consumers_table d') name = Some ?c" using a(1) by (simp add: o tables_ok_def)
  ultimately show ?thesis using u m by (simp add: o log_simps)
qed

lemma ack_body_at:
  assumes "journal_at d hi gen" "ack_body h token s d = Inr (u, d', effects)"
  shows "journal_at d' hi gen \<and> effects = [] \<and> (\<exists>c. journal_read d token = Inr c \<and> acked_seq c \<le> s \<and> s \<le> hi \<and>
    tbl_get (consumers_table d') (tok_name token) = Some (c\<lparr>acked_seq := s\<rparr>))"
proof -
  note a = journal_atD[OF assms(1)]
  from assms(2) obtain uuid c where u: "db_uuid d = Inr uuid"
    and c: "check_token token uuid (tbl_get (consumers_table d) (tok_name token)) = Inr c"
    and s: "acked_seq c \<le> s" "s \<le> hi"
    and p: "prune_acked h (d\<lparr>consumers_table := tbl_insert (consumers_table d) (tok_name token) (c\<lparr>acked_seq := s\<rparr>)\<rparr>) = Inr d'"
    and e: "effects = []"
    using a(3) by (auto simp: ack_body_def guard_ok_def split: if_splits)
  have g: "tbl_get (consumers_table d) (tok_name token) = Some c"
    using c by (auto simp: check_token_def split: if_splits)
  have at: "journal_at (d\<lparr>consumers_table := tbl_insert (consumers_table d) (tok_name token) (c\<lparr>acked_seq := s\<rparr>)\<rparr>) hi gen"
    using consumer_facts[OF assms(1) g] s by (intro consumers_update[OF assms(1)]) auto
  from prune_acked_at[OF at p] show ?thesis
    using u c s e a(1) by (auto simp: journal_read_def tables_ok_def)
qed

lemma unregister_body_at:
  assumes "journal_at d hi gen" "unregister_body h name d = Inr (u, d', effects)"
  shows "journal_at d' hi gen \<and> effects = [] \<and> \<not> managed d name \<and> tbl_get (consumers_table d') name = None"
proof -
  note a = journal_atD[OF assms(1)]
  from assms(2) have p: "prune_acked h (d\<lparr>consumers_table := tbl_remove (consumers_table d) name\<rparr>) = Inr d'"
    and e: "effects = []" "\<not> managed d name"
    by (auto simp: unregister_body_def split: if_splits)
  from prune_acked_at[OF consumers_drop[OF assms(1)] p] show ?thesis using e a(1) by (simp add: tables_ok_def)
qed

lemma disable_body_at:
  assumes "journal_at d hi gen" "disable_body d = Inr (u, d', effects)"
  shows "journal_at d' hi gen \<and> effects = []"
proof (cases "tbl_get (consumers_table d) ''__indexer''")
  case None
  then show ?thesis using assms by (simp add: disable_body_def)
next
  case (Some c)
  then show ?thesis
    using assms consumers_update[OF assms(1), of "c\<lparr>active := False\<rparr>"] consumer_facts[OF assms(1) Some]
    by (auto simp: disable_body_def split: if_splits)
qed

section \<open>Reachable logs\<close>

text \<open>
  The steps of a database's log: a committed write of the library, whose body leaves the log's own
  tables alone but for the number of a table image, and the operations on consumers. A call that fails commits nothing. What a body returns plays no part, so
  bodies return the unit here.
\<close>

inductive journal_step :: "db \<Rightarrow> db \<Rightarrow> bool" where
  commit: "f d = Inr ((), d1, effects) \<Longrightarrow> log_kept d d1 \<Longrightarrow> \<forall>e \<in> set effects. effect_ok e \<Longrightarrow>
    write_with_sink h x r f d = Some (Inr ((), d', events)) \<Longrightarrow> journal_step d d'"
| register: "register_journal_consumer h x r now name intern d = Some (Inr (tok, d', events)) \<Longrightarrow> journal_step d d'"
| resume: "resume_index_consumer h x r now d = Some (Inr (out, d', events)) \<Longrightarrow> journal_step d d'"
| acknowledge: "ack h x r token s d = Some (Inr (u, d', events)) \<Longrightarrow> journal_step d d'"
| unregister: "unregister_consumer h x r name d = Some (Inr (u, d', events)) \<Longrightarrow> journal_step d d'"
| retain: "set_journal_retention h x r d = Some (Inr (u, d', events)) \<Longrightarrow> journal_step d d'"
| disable: "disable_index_consumer h x r d = Some (Inr (u, d', events)) \<Longrightarrow> journal_step d d'"

inductive journal_reachable :: "db \<Rightarrow> bool" where
  opened: "journal_reachable (initialize uuid (mark_adoption_due empty_db))"
| stepped: "journal_reachable d \<Longrightarrow> journal_step d d' \<Longrightarrow> journal_reachable d'"

lemma write_commits:
  assumes "journal_inv d" "write_with_sink h x r f d = Some (Inr (out, d', events))"
    "\<And>d1 effects. f d = Inr (out, d1, effects) \<Longrightarrow> journal_inv d1 \<and> (\<forall>e \<in> set effects. effect_ok e)"
  obtains d1 effects where "f d = Inr (out, d1, effects)" "committed r d1 effects d' events"
proof (cases "f d")
  case (Inl e)
  then show thesis using assms(2) by (simp add: write_with_sink_def)
next
  case (Inr z)
  then obtain out1 d1 effects where f: "f d = Inr (out1, d1, effects)" by (cases z) auto
  have "out1 = out" using assms(2) f by (auto simp: write_with_sink_def split: sum.splits option.splits)
  then have f: "f d = Inr (out, d1, effects)" using f by simp
  show thesis using that[OF f] write_at[where f = f, OF assms(1) f, of h x r] assms(2) assms(3)[OF f] by auto
qed

lemma write_inv:
  assumes "journal_inv d" "write_with_sink h x r f d = Some (Inr (out, d', events))"
    "\<And>hi gen d1 effects. journal_at d hi gen \<Longrightarrow> f d = Inr (out, d1, effects) \<Longrightarrow>
      (\<exists>gen'. journal_at d1 hi gen') \<and> (\<forall>e \<in> set effects. effect_ok e)"
  shows "journal_inv d'"
proof -
  obtain hi gen where at: "journal_at d hi gen" using assms(1) by (auto simp: journal_inv_def)
  show ?thesis
  proof (rule write_commits[OF assms(1,2)])
    show "journal_inv d1 \<and> (\<forall>e \<in> set effects. effect_ok e)" if "f d = Inr (out, d1, effects)" for d1 effects
      using assms(3)[OF at that] by (auto simp: journal_inv_def)
    show ?thesis if "committed r d1 effects d' events" for d1 effects using that by (simp add: committed_def)
  qed
qed

lemma register_inv:
  assumes "journal_inv d" "register_journal_consumer h x r now name intern d = Some (Inr (tok, d', events))"
  shows "journal_inv d'"
proof (rule write_inv[OF assms(1)])
  show "write_with_sink h x r (register_body now name intern) d = Some (Inr (tok, d', events))"
    using assms(2) by (simp add: register_journal_consumer_def split: if_splits)
qed (use register_body_at in fastforce)

lemma map_sum_eq_Inr: "map_sum f g z = Inr w \<longleftrightarrow> (\<exists>y. z = Inr y \<and> g y = w)"
  by (cases z) auto

lemma journal_step_inv:
  assumes "journal_step d d'" "journal_inv d"
  shows "journal_inv d'"
  using assms
proof cases
  case (commit f d1 effects h x r events)
  have "(\<exists>gen'. journal_at d2 hi gen') \<and> (\<forall>e \<in> set es. effect_ok e)"
    if "journal_at d hi gen" "f d = Inr ((), d2, es)" for hi gen d2 es
    using that commit(1,3) log_kept_at[OF commit(2)] by auto
  then show ?thesis by (rule write_inv[OF assms(2) commit(4)])
next
  case (register h x r now name intern tok events)
  then show ?thesis using register_inv assms(2) by blast
next
  case (resume h x r now out events)
  then show ?thesis using register_inv[OF assms(2), of h x r now "''__indexer''" True] assms(2)
    by (auto simp: resume_index_consumer_def Let_def map_sum_eq_Inr split: sum.splits option.splits if_splits)
next
  case (acknowledge h x r token s u events)
  show ?thesis by (rule write_inv[OF assms(2) acknowledge[unfolded ack_def]]) (use ack_body_at in fastforce)
next
  case (unregister h x r name u events)
  show ?thesis by (rule write_inv[OF assms(2) unregister[unfolded unregister_consumer_def]])
    (use unregister_body_at in fastforce)
next
  case (retain h x r u events)
  show ?thesis by (rule write_inv[OF assms(2) retain[unfolded set_journal_retention_def]]) auto
next
  case (disable h x r u events)
  show ?thesis by (rule write_inv[OF assms(2) disable[unfolded disable_index_consumer_def]])
    (use disable_body_at in fastforce)
qed

lemma initialize_at: "journal_at (initialize uuid (mark_adoption_due empty_db)) 0 0"
proof -
  let ?d = "initialize uuid (mark_adoption_due empty_db)"
  have "number ?d ''head'' = Inr 0" "number ?d ''floor'' = Inr 1" "number ?d ''journal_bytes'' = Inr 0"
    "number ?d ''consumer_generation'' = Inr 0" "number ?d ''reset_generation'' = Inr 0" "db_uuid ?d = Inr uuid"
    by (simp_all add: number_def db_uuid_def initialize_def mark_adoption_due_def empty_db_def ADOPTION_DUE_def u64_max_def)
  moreover have "changes_table ?d = []" "consumers_table ?d = []"
    by (simp_all add: initialize_def mark_adoption_due_def empty_db_def)
  moreover have "tables_ok ?d"
    by (simp add: tables_ok_def initialize_def mark_adoption_due_def empty_db_def ADOPTION_DUE_def tbl_ok_Cons)
  ultimately show ?thesis
    by (simp add: journal_at_def counters_def consumers_ok_def first_or_def saturating_add_u64_def u64_max_def)
qed

lemma reachable_inv: "journal_reachable d \<Longrightarrow> journal_inv d"
  by (induction rule: journal_reachable.induct) (use initialize_at journal_step_inv journal_inv_def in blast)+

section \<open>Reading\<close>

definition grants :: "heap \<Rightarrow> bool" where
  "grants h \<longleftrightarrow> (\<forall>n. h ''journal.read_rows'' n = None)"

definition row_change :: "nat \<times> bytes \<Rightarrow> change" where
  "row_change r = \<lparr>ch_seq = fst r, ch_kind = projr (change_decode roomy (snd r))\<rparr>"

lemma row_ok_decode:
  assumes "row_ok row" "grants h"
  shows "change_decode h row = change_decode roomy row \<and> (\<exists>c. change_decode roomy row = Inr c)"
proof -
  obtain h' c where "effect_ok c" "change_encode h' c = Inr row" using assms(1) by (auto simp: row_ok_def)
  then show ?thesis
    using assms(2) change_decode_encode[of c h' row h] change_decode_encode[of c h' row roomy]
    by (simp add: effect_ok_def grants_def mem_reserve_def)
qed

lemma read_rows_ok:
  assumes "grants h" "\<forall>r \<in> set rows. row_ok (snd r)"
  shows "foldM (read_row h) acc rows = Inr (acc @ map row_change rows)"
  using assms(2)
proof (induction rows arbitrary: acc)
  case (Cons r rows)
  obtain c where "change_decode h (snd r) = Inr c" "change_decode roomy (snd r) = Inr c"
    using row_ok_decode[OF _ assms(1), of "snd r"] Cons.prems by auto
  then have "read_row h acc r = Inr (acc @ [row_change r])"
    using assms(1) by (simp add: read_row_def row_change_def grants_def)
  then show ?case using Cons by simp
qed simp

lemma tbl_after_dropWhile: "tbl_ok rows \<Longrightarrow> tbl_after rows a = dropWhile (\<lambda>r. fst r \<le> a) rows"
proof (induction rows)
  case (Cons r rows)
  have "filter (\<lambda>(k, _). a < k) rows = rows" if "a < fst r"
    using Cons.prems that by (cases r) (force simp: tbl_ok_Cons filter_id_conv)
  then show ?case using Cons by (cases r) (auto simp: tbl_after_def tbl_ok_Cons)
qed (simp add: tbl_after_def)

lemma log_ok_after:
  assumes "log_ok rows hi" "tbl_ok rows" "hi \<le> after + length rows"
  shows "map fst (tbl_after rows after) = [Suc after..<Suc hi]"
proof -
  note d = log_ok_drop[OF assms(1), of after, folded tbl_after_dropWhile[OF assms(2)]]
  then have "length (tbl_after rows after) = hi - after" using assms(3) by simp
  moreover have "map fst (tbl_after rows after) = [Suc hi - length (tbl_after rows after)..<Suc hi]"
    using d by (simp only: log_ok_def)
  moreover have "Suc hi - (hi - after) = Suc after \<or> hi \<le> after" by linarith
  ultimately show ?thesis by auto
qed

lemma read_changes_at:
  assumes "journal_at d hi gen" "journal_read d token = Inr c" "grants h" "acked_seq c \<le> after" "after \<le> hi"
  shows "read_changes h d token after limit = Inr (map row_change (take limit (tbl_after (changes_table d) after))) \<and>
    map fst (tbl_after (changes_table d) after) = [Suc after..<Suc hi]"
proof -
  note a = journal_atD[OF assms(1)]
  have c: "tbl_get (consumers_table d) (tok_name token) = Some c" "active c"
    using assms(2) by (auto simp: journal_read_def check_token_def split: if_splits)
  have reach: "hi \<le> acked_seq c + length (changes_table d)" using consumer_facts(3)[OF assms(1) c(1)] c(2) by simp
  have "first_or (changes_table d) hi - 1 \<le> acked_seq c"
    using a(7) reach by (cases "changes_table d") (auto simp: first_or_def saturating_add_u64_def log_ok_Cons)
  then have "read_changes h d token after limit = foldM (read_row h) [] (take limit (tbl_after (changes_table d) after))"
    using a(3,4) assms(2,4,5) by (simp add: read_changes_def)
  moreover have "\<forall>r \<in> set (take limit (tbl_after (changes_table d) after)). row_ok (snd r)"
    using log_ok_rows[OF a(7)] by (fastforce simp: tbl_after_def dest: in_set_takeD)
  ultimately have "read_changes h d token after limit = Inr (map row_change (take limit (tbl_after (changes_table d) after)))"
    using read_rows_ok[OF assms(3)] by simp
  moreover have "tbl_ok (changes_table d)" using a(1) by (simp add: tables_ok_def)
  ultimately show ?thesis using log_ok_after[OF a(7)] reach assms(4) by simp
qed

lemma read_changes_ahead:
  assumes "journal_at d hi gen" "journal_read d token = Inr c" "acked_seq c \<le> after" "hi < after"
  shows "read_changes h d token after limit = Inl (Validation ''sequence is ahead of journal'')"
proof -
  note a = journal_atD[OF assms(1)]
  have "first_or (changes_table d) hi - 1 \<le> hi"
    using a(7) by (cases "changes_table d") (auto simp: first_or_def saturating_add_u64_def log_ok_Cons)
  then show ?thesis using a(3,4) assms(2,4) by (simp add: read_changes_def)
qed

lemma row_change_seq [simp]: "ch_seq (row_change r) = fst r"
  by (simp add: row_change_def)

lemma logged_changes:
  assumes "logged effects hi new" "\<forall>e \<in> set effects. effect_ok e"
  shows "map row_change new = map (\<lambda>(s, e). \<lparr>ch_seq = s, ch_kind = e\<rparr>) (List.enumerate (Suc hi) effects)"
proof (rule nth_equalityI)
  have l: "length new = length effects" by (rule logged_length[OF assms(1)])
  then show "length (map row_change new) = length (map (\<lambda>(s, e). \<lparr>ch_seq = s, ch_kind = e\<rparr>) (List.enumerate (Suc hi) effects))"
    by simp
  fix i assume "i < length (map row_change new)"
  then have i: "i < length new" "i < length effects" using l by simp_all
  have "map fst new ! i = [Suc hi..<Suc (hi + length effects)] ! i" using assms(1) by (simp only: logged_def)
  then have s: "fst (new ! i) = Suc hi + i" using i by (simp add: nth_upt del: upt_Suc)
  obtain h where "change_encode h (effects ! i) = Inr (snd (new ! i))"
    using assms(1) i list_all2_nthD2[of _ effects new i] by (auto simp: logged_def)
  then have "change_decode roomy (snd (new ! i)) = Inr (effects ! i)"
    using change_decode_encode[of "effects ! i" h _ roomy] assms(2) i(2) by (simp add: effect_ok_def)
  then show "map row_change new ! i = map (\<lambda>(s, e). \<lparr>ch_seq = s, ch_kind = e\<rparr>) (List.enumerate (Suc hi) effects) ! i"
    using i s by (simp add: row_change_def nth_enumerate_eq)
qed

section \<open>Operations that cannot fail\<close>

text \<open>On a sound log, with memory for its rows, pruning and the retention loop have no error to return.\<close>

lemma row_snapshot_total:
  assumes "row_ok row" "grants h"
  shows "\<exists>s. row_snapshot h row = Inr s"
proof -
  obtain h' c where c: "effect_ok c" "change_encode h' c = Inr row" using assms(1) by (auto simp: row_ok_def)
  obtain tag table key payload sz where p: "change_parts c = (tag, table, key, payload, sz)" by (metis prod_cases5)
  have "row \<noteq> [] \<and> hd row = 1" using change_encode_Inr[OF c(2) p] by simp
  moreover obtain k where "change_decode h row = Inr k" using row_ok_decode[OF assms] by auto
  ultimately show ?thesis by (cases k) (simp_all add: row_snapshot_def)
qed

lemma prune_rows_total:
  assumes "grants h" "\<forall>r \<in> set rows. row_ok (snd r)" "log_bytes rows \<le> bytes"
  shows "\<exists>z. prune_rows h thr d bytes rows = Inr z"
  using assms
proof (induction h thr d bytes rows rule: prune_rows.induct)
  case (2 h thr d bytes k row rows)
  obtain s where s: "row_snapshot h row = Inr s" using row_snapshot_total[of row h] "2.prems" by auto
  have b: "checked_sub_u64 bytes (8 + length row) = Some (bytes - (8 + length row))" using "2.prems"(3) by simp
  show ?case using "2.IH"[OF _ s refl, of "bytes - (8 + length row)"] "2.prems" s b by simp
qed simp

lemma prune_total:
  assumes "journal_at d hi gen" "grants h"
  shows "\<exists>d'. prune h d thr = Inr d'"
proof -
  note a = journal_atD[OF assms(1)]
  obtain d1 bytes rows where p: "prune_rows h thr d (log_bytes (changes_table d)) (changes_table d) = Inr (d1, bytes, rows)"
    using prune_rows_total[OF assms(2) log_ok_rows[OF a(7)] order_refl, of thr d] by auto
  have r: "same_log d d1" "log_bytes (changes_table d) = bytes + log_bytes (takeWhile (\<lambda>r. fst r \<le> thr) (changes_table d))"
    using prune_rows_Inr[OF p log_ok_rows[OF a(7)] a(1)] by auto
  then have "tables_ok d1" "bytes \<le> u64_max" using a(1,9) by (auto simp: same_log_def)
  moreover have "number d1 ''head'' = Inr hi" using r(1) a(3) number_cong[of d1 d] by (simp add: same_log_def)
  ultimately have "number (put_number (d1\<lparr>changes_table := rows\<rparr>) ''journal_bytes'' bytes) ''head'' = Inr hi"
    by (simp add: number_put_number log_simps tables_ok_def)
  then show ?thesis using a(5) p by (auto simp: prune_def Let_def)
qed

lemma prune_acked_total: "journal_at d hi gen \<Longrightarrow> grants h \<Longrightarrow> \<exists>d'. prune_acked h d = Inr d'"
  using prune_total[of d hi gen h] journal_atD(3)[of d hi gen] by (auto simp: prune_acked_def)

lemma enforce_total:
  assumes "journal_at d hi gen" "grants h"
  shows "enforce h r d \<noteq> Some (Inl e)"
proof (cases "retention_max r")
  case (Some cap)
  have "prune_acked h d' \<noteq> Inl e" if "journal_inv d'" for d'
    using that prune_acked_total[OF _ assms(2), of d'] by (fastforce simp: journal_inv_def)
  then show ?thesis using Some enforce_loop_at[OF assms(1), of h cap "[]"] by (auto simp: enforce_def)
qed (simp add: enforce_def)

lemma record_nil: "journal_at d hi gen \<Longrightarrow> \<exists>d'. record_effects h x d [] = Inr d'"
  using journal_atD(3,5)[of d hi gen]
  by (simp add: record_effects_def id_validate_def uq_validate_def uq_resets_def uq_changed_def btree_set_def
      append_effects_def Let_def map_filter_def)

lemma write_nil:
  assumes "journal_inv d" "f d = Inr (out, d1, [])" "journal_inv d1" "grants h"
  shows "\<exists>d' events. write_with_sink h x r f d = Some (Inr (out, d', events)) \<and> committed r d1 [] d' events"
proof -
  obtain hi gen where at1: "journal_at d1 hi gen" using assms(3) by (auto simp: journal_inv_def)
  obtain d2 where d2: "record_effects h x d1 [] = Inr d2" using record_nil[OF at1] by blast
  then have at2: "journal_at d2 hi gen" using record_effects_at[OF at1 d2] by simp
  obtain d3 where d3: "prune_acked h d2 = Inr d3" using prune_acked_total[OF at2 assms(4)] by blast
  then have at3: "journal_at d3 hi gen" using prune_acked_at[OF at2 d3] by simp
  have "write_with_sink h x r f d \<noteq> Some (Inl e)" for e
    using enforce_total[OF at3 assms(4), of r e] assms(2) d2 d3
    by (auto simp: write_with_sink_def split: option.splits sum.splits)
  then show ?thesis using write_at[where f = f, OF assms(1-3), of h x r] by auto
qed

text \<open>What a consumer that is not expired finds after a commit.\<close>

lemma delivered:
  assumes inv: "journal_inv d" and body: "log_kept d d1" "\<forall>e \<in> set effects. effect_ok e"
    and com: "committed r d1 effects d' events"
    and c: "journal_read d token = Inr c" "tok_name token \<notin> event_name ` set events"
    and read: "grants h'" "number d ''head'' = Inr head" "acked_seq c \<le> after" "after \<le> head" "head + length effects \<le> limit"
  shows "\<exists>cs. read_changes h' d token after limit = Inr cs \<and>
    read_changes h' d' token after limit =
      Inr (cs @ map (\<lambda>(s, e). \<lparr>ch_seq = s, ch_kind = e\<rparr>) (List.enumerate (Suc head) effects))"
proof -
  obtain gen where at: "journal_at d head gen" using inv read(2) journal_atD(3) by (fastforce simp: journal_inv_def)
  then have at1: "journal_at d1 head gen" by (rule log_kept_at[OF body(1)])
  have s1: "changes_table d1 = changes_table d" "consumers_table d1 = consumers_table d" "db_uuid d1 = db_uuid d"
    using body(1) log_kept_uuid[OF body(1)] by (auto simp: log_kept_def)
  have con: "tbl_get (consumers_table d) (tok_name token) = Some c" "active c"
    using c(1) by (auto simp: journal_read_def check_token_def split: if_splits)
  obtain new where n: "logged effects head new" "number d' ''head'' = Inr (head + length effects)"
    "tbl_get (consumers_table d') (tok_name token) = Some c"
    "tbl_after (changes_table d') after = tbl_after (changes_table d) after @ new"
    using com journal_atD(3)[OF at1] con c(2) read(3,4) unfolding committed_def s1 by auto
  have "journal_inv d'" "db_uuid d' = db_uuid d" using com by (auto simp: committed_def s1)
  then obtain gen' where at': "journal_at d' (head + length effects) gen'"
    using n(2) journal_atD(3) by (fastforce simp: journal_inv_def)
  have c': "journal_read d' token = Inr c" using c(1) n(3) con(1) \<open>db_uuid d' = db_uuid d\<close> by (simp add: journal_read_def)
  have "after \<le> head + length effects" using read(4) by simp
  note r = read_changes_at[OF at c(1) read(1,3,4), of limit] and r' = read_changes_at[OF at' c' read(1,3) this, of limit]
  have "length (tbl_after (changes_table d) after) = head - after"
    using r by (metis length_map length_upt diff_Suc_Suc)
  then have "length (tbl_after (changes_table d) after @ new) \<le> limit" "length (tbl_after (changes_table d) after) \<le> limit"
    using read(5) logged_length[OF n(1)] by simp_all
  then show ?thesis using r r' logged_changes[OF n(1) body(2)] by (simp add: n(4))
qed

section \<open>A sample log\<close>

text \<open>A new database with one consumer and one recorded change, for the concrete instances below.\<close>

definition sample_ext :: ext where
  "sample_ext = plain_ext (\<lambda>bs. Some (RString (from_utf8 bs)))"

definition sample_token :: consumer_token where
  "sample_token = \<lparr>tok_uuid = [7], tok_name = ''c'', tok_generation = 1\<rparr>"

definition sample_consumer :: consumer where
  "sample_consumer = \<lparr>generation = 1, acked_seq = 0, registered_at = 5, active = True, internal = False,
     needs_rebuild = False\<rparr>"

definition sample_open :: db where
  "sample_open = initialize [7] (mark_adoption_due empty_db)"

definition sample_registered :: db where
  "sample_registered = (put_number sample_open ''consumer_generation'' 1)\<lparr>consumers_table := [(''c'', sample_consumer)]\<rparr>"

definition sample_journal :: db where
  "sample_journal = projr (record_effects roomy sample_ext sample_registered [Delete ''t'' ''k''])"

lemma sample_open_at: "journal_at sample_open 0 0"
  unfolding sample_open_def by (rule initialize_at)

lemmas sample_defs = sample_registered_def sample_token_def sample_consumer_def sample_open_def initialize_def
  mark_adoption_due_def empty_db_def db_uuid_def put_number_def ADOPTION_DUE_def number_def

lemma sample_registered: "register_body 5 ''c'' False sample_open = Inr (sample_token, sample_registered, [])"
  by (simp add: register_body_def managed_def u64_max_def sample_defs)

lemma sample_recorded: "record_effects roomy sample_ext sample_registered [Delete ''t'' ''k''] = Inr sample_journal"
proof -
  have "\<exists>d. record_effects roomy sample_ext sample_registered [Delete ''t'' ''k''] = Inr d"
    by (simp add: record_effects_def id_validate_def uq_validate_def lastwrite_step_def append_effects_def
        append_effect_def change_encode_def put_part_def vec_with_capacity_def lastwrite_apply_def sample_defs
        u64_max_def Let_def split_beta)
  then show ?thesis by (auto simp: sample_journal_def)
qed

lemma sample_effect: "effect_ok (Delete ''t'' ''k'')"
  by (simp add: effect_ok_def is_str_def as_bytes_def u8_in_def)

lemma sample_at: "journal_at sample_journal 1 1"
  using record_effects_at[OF _ sample_recorded] register_body_at[OF sample_open_at sample_registered] sample_effect
  by fastforce

lemma sample_read: "journal_read sample_journal sample_token = Inr sample_consumer"
proof -
  have "consumers_table sample_journal = consumers_table sample_registered" "db_uuid sample_journal = db_uuid sample_registered"
    using record_effects_at[OF _ sample_recorded] register_body_at[OF sample_open_at sample_registered] sample_effect
    by fastforce+
  then show ?thesis by (simp add: journal_read_def check_token_def sample_defs)
qed

section \<open>Properties\<close>

text \<open>C25. A consumer with a valid token is never told that it expired while it reads from its last
  acknowledgement or later: it gets the next changes, with no gap and no repetition, up to the head of
  the log, and asking beyond the head is an error of its own.\<close>

theorem consumer_reads_all:
  assumes "journal_inv d" "journal_read d token = Inr c" "grants h" "acked_seq c \<le> after"
  shows "\<exists>head. number d ''head'' = Inr head \<and>
    (if after \<le> head
     then \<exists>cs. read_changes h d token after limit = Inr cs \<and> map ch_seq cs = take limit [Suc after..<Suc head]
     else read_changes h d token after limit = Inl (Validation ''sequence is ahead of journal''))"
proof -
  obtain hi gen where at: "journal_at d hi gen" using assms(1) by (auto simp: journal_inv_def)
  have "map ch_seq (map row_change (take limit (tbl_after (changes_table d) after))) = take limit [Suc after..<Suc hi]"
    if "after \<le> hi"
    using read_changes_at[OF at assms(2-4) that, of limit] by (simp add: comp_def flip: take_map)
  then show ?thesis
    using journal_atD(3)[OF at] read_changes_at[OF at assms(2-4)] read_changes_ahead[OF at assms(2,4)] by auto
qed

theorem consumer_reads_all_witness:
  "journal_read sample_journal sample_token = Inr sample_consumer \<and>
   (\<exists>cs. read_changes roomy sample_journal sample_token 0 10 = Inr cs \<and> map ch_seq cs = [1])"
proof -
  have "grants roomy" by (simp add: grants_def)
  from consumer_reads_all[OF _ sample_read this, of 0 10] sample_at journal_atD(3)[OF sample_at]
  have "\<exists>cs. read_changes roomy sample_journal sample_token 0 10 = Inr cs \<and> map ch_seq cs = take 10 [Suc 0..<Suc 1]"
    by (auto simp: journal_inv_def sample_consumer_def)
  then show ?thesis using sample_read by simp
qed

text \<open>C15. In every state the log of a database can reach, through writes and through the operations on
  consumers, the log is one run of consecutive sequence numbers that ends at the head, the stored byte
  count is exact, and the run reaches back to the last acknowledgement of every active consumer.\<close>

theorem journal_always_sound:
  assumes "journal_reachable d"
  shows "\<exists>head. number d ''head'' = Inr head \<and>
    map fst (changes_table d) = [Suc head - length (changes_table d)..<Suc head] \<and>
    number d ''journal_bytes'' = Inr (sum_list (map (\<lambda>r. 8 + length (snd r)) (changes_table d))) \<and>
    (\<forall>(n, c) \<in> set (consumers_table d). acked_seq c \<le> head \<and>
      (active c \<longrightarrow> head \<le> acked_seq c + length (changes_table d)))"
proof -
  obtain hi gen where at: "journal_at d hi gen" using reachable_inv[OF assms] by (auto simp: journal_inv_def)
  from journal_atD(3,5,7,8)[OF at] show ?thesis
    by (intro exI[of _ hi]) (auto simp: log_ok_def consumers_ok_def log_bytes_def)
qed

theorem journal_always_sound_witness:
  "\<exists>d events head. register_journal_consumer roomy sample_ext Unlimited 5 ''c'' False sample_open =
      Some (Inr (sample_token, d, events)) \<and> number d ''head'' = Inr head \<and>
    map fst (changes_table d) = [Suc head - length (changes_table d)..<Suc head]"
proof -
  have "grants roomy" by (simp add: grants_def)
  moreover have "journal_inv sample_open" "journal_inv sample_registered"
    using register_body_at[OF sample_open_at sample_registered] sample_open_at by (auto simp: journal_inv_def)
  ultimately obtain d' events where
    "write_with_sink roomy sample_ext Unlimited (register_body 5 ''c'' False) sample_open = Some (Inr (sample_token, d', events))"
    using write_nil[where f = "register_body 5 ''c'' False", OF _ sample_registered] by blast
  then have r: "register_journal_consumer roomy sample_ext Unlimited 5 ''c'' False sample_open =
      Some (Inr (sample_token, d', events))"
    by (simp add: register_journal_consumer_def)
  have "journal_reachable sample_open" unfolding sample_open_def by (rule journal_reachable.opened)
  then have "journal_reachable d'" by (rule journal_reachable.stepped) (rule journal_step.register[OF r])
  from journal_always_sound[OF this] r show ?thesis by blast
qed

text \<open>C14. A write always returns: the retention loop ends on every sound log. When the write commits, the log
  is sound and within its limit, and the rows the transaction wrote are the rows that are stored.\<close>

theorem write_returns:
  assumes "journal_inv d" "f d = Inr (out, d1, effects)" "log_kept d d1" "\<forall>e \<in> set effects. effect_ok e"
  shows "(\<exists>e. write_with_sink h x r f d = Some (Inl e)) \<or>
    (\<exists>d' events. write_with_sink h x r f d = Some (Inr (out, d', events)) \<and> journal_inv d' \<and>
      (\<forall>cap. retention_max r = Some cap \<longrightarrow> (\<exists>b. number d' ''journal_bytes'' = Inr b \<and> b \<le> cap)) \<and>
      (\<forall>t k. \<not> starts_with_reserved t \<longrightarrow> get_row d' t k = get_row d1 t k))"
proof -
  have "journal_inv d1" using log_kept_inv assms(1,3) by blast
  from write_at[where f = f, OF assms(1,2) this assms(4), of h x r] show ?thesis
  proof (elim disjE exE conjE)
    fix d' events assume w: "write_with_sink h x r f d = Some (Inr (out, d', events))" "committed r d1 effects d' events"
    then obtain hi gen where "journal_at d' hi gen" by (auto simp: committed_def journal_inv_def)
    from journal_atD(5)[OF this] w show ?thesis by (auto simp: committed_def)
  qed blast
qed

theorem write_returns_witness:
  "(\<exists>e. write_with_sink roomy sample_ext (Limit 0) (\<lambda>d. Inr (True, d, [Delete ''t'' ''k''])) sample_journal = Some (Inl e)) \<or>
   (\<exists>d' events. write_with_sink roomy sample_ext (Limit 0) (\<lambda>d. Inr (True, d, [Delete ''t'' ''k''])) sample_journal =
      Some (Inr (True, d', events)) \<and> journal_inv d' \<and> number d' ''journal_bytes'' = Inr 0)"
proof -
  have "journal_inv sample_journal" using sample_at by (auto simp: journal_inv_def)
  from write_returns[where f = "\<lambda>d. Inr (True, d, [Delete ''t'' ''k''])" and d = sample_journal and r = "Limit 0", OF this refl,
      of roomy sample_ext] log_kept_refl[OF this] sample_effect
  show ?thesis by fastforce
qed

text \<open>C4. A committed transaction is delivered: a consumer that is not expired by it reads what it would have
  read before, followed by exactly the effects of the transaction, in order and with the next sequence
  numbers. Pruning and retention never drop or reorder what such a consumer still has to read.\<close>

theorem committed_delivered:
  assumes inv: "journal_inv d" and body: "f d = Inr (out, d1, effects)" "log_kept d d1" "\<forall>e \<in> set effects. effect_ok e"
    and w: "write_with_sink h x r f d = Some (Inr (out, d', events))"
    and c: "journal_read d token = Inr c" "tok_name token \<notin> event_name ` set events"
    and read: "grants h'" "number d ''head'' = Inr head" "acked_seq c \<le> after" "after \<le> head" "head + length effects \<le> limit"
  shows "\<exists>cs. read_changes h' d token after limit = Inr cs \<and>
    read_changes h' d' token after limit =
      Inr (cs @ map (\<lambda>(s, e). \<lparr>ch_seq = s, ch_kind = e\<rparr>) (List.enumerate (Suc head) effects))"
proof -
  have "journal_inv d1" by (rule log_kept_inv[OF body(2) inv])
  then have "committed r d1 effects d' events"
    using write_at[where f = f, OF inv body(1) _ body(3), of h x r] w by auto
  from delivered[OF inv body(2,3) this c read] show ?thesis .
qed

theorem committed_delivered_witness:
  "\<exists>d'. write_with_sink roomy sample_ext Unlimited (\<lambda>d. Inr (True, d, [])) sample_journal = Some (Inr (True, d', [])) \<and>
    (\<exists>cs. read_changes roomy d' sample_token 0 5 = Inr cs)"
proof -
  let ?f = "\<lambda>d :: db. Inr (True, d, [] :: change_kind list) :: (bool \<times> db \<times> change_kind list) res"
  have inv: "journal_inv sample_journal" using sample_at by (auto simp: journal_inv_def)
  have g: "grants roomy" by (simp add: grants_def)
  obtain d' events where w: "write_with_sink roomy sample_ext Unlimited ?f sample_journal = Some (Inr (True, d', events))"
    using write_nil[where f = ?f, OF inv refl inv g] by blast
  have "events = []" using w by (auto simp: write_with_sink_def enforce_def split: sum.splits)
  with committed_delivered[where f = ?f, OF inv refl log_kept_refl[OF inv] _ w sample_read _ g, of 1 0 5] w journal_atD(3)[OF sample_at]
  show ?thesis by (auto simp: sample_consumer_def)
qed

text \<open>An acknowledgement is accepted exactly when it is not behind the last one and not beyond the head;
  then it is recorded, the log stays sound, and otherwise nothing is committed.\<close>

theorem ack_accepted:
  assumes "journal_inv d" "journal_read d token = Inr c" "grants h" "number d ''head'' = Inr head"
  shows "if acked_seq c \<le> s \<and> s \<le> head
    then \<exists>d' events. ack h x r token s d = Some (Inr ((), d', events)) \<and> journal_inv d' \<and>
      (tok_name token \<notin> event_name ` set events \<longrightarrow>
        tbl_get (consumers_table d') (tok_name token) = Some (c\<lparr>acked_seq := s\<rparr>))
    else ack h x r token s d = Some (Inl (Validation ''invalid acknowledgement''))"
proof -
  obtain gen where at: "journal_at d head gen" using assms(1,4) journal_atD(3) by (fastforce simp: journal_inv_def)
  obtain uuid where u: "db_uuid d = Inr uuid"
    and ct: "check_token token uuid (tbl_get (consumers_table d) (tok_name token)) = Inr c"
    using assms(2) by (auto simp: journal_read_def)
  have g: "tbl_get (consumers_table d) (tok_name token) = Some c" using ct by (auto simp: check_token_def split: if_splits)
  show ?thesis
  proof (cases "acked_seq c \<le> s \<and> s \<le> head")
    case True
    let ?d = "d\<lparr>consumers_table := tbl_insert (consumers_table d) (tok_name token) (c\<lparr>acked_seq := s\<rparr>)\<rparr>"
    have "journal_at ?d head gen" using consumer_facts[OF at g] True by (intro consumers_update[OF at]) auto
    then obtain d1 where "prune_acked h ?d = Inr d1" using prune_acked_total[OF _ assms(3)] by blast
    then have b: "ack_body h token s d = Inr ((), d1, [])" using u ct True assms(4) by (simp add: ack_body_def)
    have "journal_inv d1" and c1: "tbl_get (consumers_table d1) (tok_name token) = Some (c\<lparr>acked_seq := s\<rparr>)"
      using ack_body_at[OF at b] assms(2) by (auto simp: journal_inv_def)
    then obtain d' events where "ack h x r token s d = Some (Inr ((), d', events))" "committed r d1 [] d' events"
      using write_nil[where f = "ack_body h token s", OF assms(1) b _ assms(3), of x r] by (auto simp: ack_def)
    moreover have "tok_name token \<notin> event_name ` set events \<longrightarrow>
        tbl_get (consumers_table d') (tok_name token) = Some (c\<lparr>acked_seq := s\<rparr>)"
      using \<open>committed r d1 [] d' events\<close> c1 unfolding committed_def by metis
    ultimately show ?thesis using True by (auto simp: committed_def)
  next
    case False
    then have "ack_body h token s d = Inl (Validation ''invalid acknowledgement'')"
      using u ct assms(4) by (auto simp: ack_body_def)
    then show ?thesis using False by (simp add: ack_def write_with_sink_def)
  qed
qed

theorem ack_accepted_witness:
  "(\<exists>d' events. ack roomy sample_ext Unlimited sample_token 1 sample_journal = Some (Inr ((), d', events)) \<and> journal_inv d') \<and>
   ack roomy sample_ext Unlimited sample_token 2 sample_journal = Some (Inl (Validation ''invalid acknowledgement''))"
proof -
  have g: "grants roomy" and inv: "journal_inv sample_journal"
    using sample_at by (auto simp: grants_def journal_inv_def)
  note a = ack_accepted[OF inv sample_read g journal_atD(3)[OF sample_at], of _ sample_ext Unlimited]
  from a[of 1] a[of 2] show ?thesis by (auto simp: sample_consumer_def)
qed

text \<open>Registering a name again makes every earlier token of that name useless: a token of an earlier
  generation is refused as expired, whatever the retention did meanwhile, and the token just issued starts
  at the current head.\<close>

theorem stale_token_refused:
  assumes "journal_inv d" "register_consumer h x r now name d = Some (Inr (tok, d', events))"
    "number d ''consumer_generation'' = Inr g" "tok_name old = name" "tok_generation old \<le> g"
  shows "journal_read d' old = Inl ConsumerExpired \<and> tok_generation tok = Suc g \<and>
    (name \<notin> event_name ` set events \<longrightarrow>
      (\<exists>c. journal_read d' tok = Inr c \<and> number d ''head'' = Inr (acked_seq c)))"
proof -
  obtain hi gen where at: "journal_at d hi gen" using assms(1) by (auto simp: journal_inv_def)
  have gen: "gen = g" using journal_atD(6)[OF at] assms(3) by simp
  have w: "write_with_sink h x r (register_body now name False) d = Some (Inr (tok, d', events))"
    using assms(2) by (simp add: register_consumer_def register_journal_consumer_def split: if_splits)
  have ok: "journal_inv d1 \<and> (\<forall>e \<in> set effects. effect_ok e)" if "register_body now name False d = Inr (tok, d1, effects)"
    for d1 effects using register_body_at[OF at that] by (auto simp: journal_inv_def)
  obtain d1 effects where b: "register_body now name False d = Inr (tok, d1, effects)" and com: "committed r d1 effects d' events"
    by (rule write_commits[OF assms(1) w ok])
  note rb = register_body_at[OF at b]
  have uuid: "db_uuid d' = Inr (tok_uuid tok)" using com rb by (simp add: committed_def)
  have "map_option generation (tbl_get (consumers_table d') name) = Some (Suc g)"
    using com rb gen unfolding committed_def by simp
  then obtain c where c: "tbl_get (consumers_table d') name = Some c" "generation c = Suc g" by auto
  then have "journal_read d' old = Inl ConsumerExpired"
    using uuid assms(4,5) by (simp add: journal_read_def check_token_def)
  moreover have "\<exists>c. journal_read d' tok = Inr c \<and> number d ''head'' = Inr (acked_seq c)"
    if "name \<notin> event_name ` set events"
  proof -
    have "tbl_get (consumers_table d') name = tbl_get (consumers_table d1) name"
      using com rb that unfolding committed_def by metis
    then show ?thesis using rb uuid gen journal_atD(3)[OF at] by (simp add: journal_read_def check_token_def)
  qed
  ultimately show ?thesis using rb gen by auto
qed

theorem stale_token_refused_witness:
  "\<exists>d' events tok. register_consumer roomy sample_ext Unlimited 9 ''c'' sample_journal = Some (Inr (tok, d', events)) \<and>
    journal_read sample_journal sample_token = Inr sample_consumer \<and> journal_read d' sample_token = Inl ConsumerExpired"
proof -
  have g: "grants roomy" and inv: "journal_inv sample_journal"
    using sample_at by (auto simp: grants_def journal_inv_def)
  have "tbl_get (consumers_table sample_journal) ''c'' = Some sample_consumer"
    using sample_read by (auto simp: journal_read_def check_token_def sample_token_def split: if_splits)
  then have "\<not> managed sample_journal ''c''" by (simp add: managed_def sample_consumer_def)
  moreover have "db_uuid (put_number sample_journal ''consumer_generation'' 2) = db_uuid sample_journal"
    using journal_atD(1)[OF sample_at] by simp
  ultimately obtain tok d1 where b: "register_body 9 ''c'' False sample_journal = Inr (tok, d1, [])"
    using journal_atD[OF sample_at] sample_read by (auto simp: register_body_def journal_read_def u64_max_def Let_def)
  have "journal_inv d1" using register_body_at[OF sample_at b] by (auto simp: journal_inv_def)
  then obtain d' events where "write_with_sink roomy sample_ext Unlimited (register_body 9 ''c'' False) sample_journal =
      Some (Inr (tok, d', events))"
    using write_nil[where f = "register_body 9 ''c'' False", OF inv b _ g] by blast
  then have r: "register_consumer roomy sample_ext Unlimited 9 ''c'' sample_journal = Some (Inr (tok, d', events))"
    by (simp add: register_consumer_def register_journal_consumer_def)
  from stale_token_refused[OF inv r journal_atD(6)[OF sample_at], of sample_token] show ?thesis
    using r sample_read by (auto simp: sample_token_def)
qed

end
