(* ===== verification/Backup_Codec.thy ===== *)
theory Backup_Codec
  imports Clove_Memory Fields_Decimal
begin

text \<open>
  The stored form of backup records (\<^verbatim>\<open>src/backup/codec.rs\<close>, \<^verbatim>\<open>src/backup.rs\<close>): the record itself, the
  base64 text of payloads that are not JSON, the versioned envelope and the raw rows older versions
  wrote. Parsing and printing JSON is the parameter \<open>wire\<close>.
\<close>

unbundle bit_operations_syntax

section \<open>Records\<close>

datatype backup_operation = SetOp | DeleteOp | RestoreOp | RestoreBulkOp

record metadata =
  md_version :: nat
  md_timestamp :: int
  md_date :: string
  md_operation :: backup_operation
  md_table :: string
  md_key :: string
  md_bulk_id :: "string option"
  md_restored_version :: "nat option"
  md_date_from_migration :: bool

record backup_record = metadata +
  br_data :: "bytes option"

definition invalid :: "string \<Rightarrow> cl_error" where
  "invalid reason = BackupNormalizeFailed reason"

section \<open>Base64\<close>

definition ALPHABET :: bytes where
  "ALPHABET = as_bytes ''ABCDEFGHIJKLMNOPQRSTUVWXYZabcdefghijklmnopqrstuvwxyz0123456789+/''"

definition symbol :: "u8 \<Rightarrow> u8" where
  "symbol v = ALPHABET ! unat v"

abbreviation pad :: u8 where "pad \<equiv> 61"

fun encode_chunks :: "bytes \<Rightarrow> bytes" where
  "encode_chunks [] = []"
| "encode_chunks [a] = [symbol (drop_bit 2 a), symbol (push_bit 4 (a AND 3)), pad, pad]"
| "encode_chunks [a, b] =
     [symbol (drop_bit 2 a), symbol (push_bit 4 (a AND 3) OR drop_bit 4 b), symbol (push_bit 2 (b AND 15)), pad]"
| "encode_chunks (a # b # c # rest) =
     [symbol (drop_bit 2 a), symbol (push_bit 4 (a AND 3) OR drop_bit 4 b),
      symbol (push_bit 2 (b AND 15) OR drop_bit 6 c), symbol (c AND 63)] @ encode_chunks rest"

definition encode_base64 :: "heap \<Rightarrow> bytes \<Rightarrow> bytes res" where
  "encode_base64 h bs = (let capacity = (length bs + 2) div 3 * 4 in
     case mem_probe h ''backup.encode_record'' capacity of
       Inl _ \<Rightarrow> Inl (OutOfMemory ''backup.encode_record'' capacity)
     | Inr _ \<Rightarrow> if h ''backup.encode_record'' capacity \<noteq> None
         then Inl (OutOfMemory ''backup.encode_record'' capacity) else Inr (encode_chunks bs))"

fun position :: "u8 \<Rightarrow> bytes \<Rightarrow> nat option" where
  "position b [] = None"
| "position b (v # vs) = (if v = b then Some 0 else map_option Suc (position b vs))"

definition digit :: "u8 \<Rightarrow> u8 res" where
  "digit b = ok_or (invalid ''invalid base64 digit'') (map_option of_nat (position b ALPHABET))"

fun decode_chunks :: "bytes \<Rightarrow> bytes res" where
  "decode_chunks (c0 # c1 # c2 # c3 # rest) =
     rbind (digit c0) (\<lambda>a.
     rbind (digit c1) (\<lambda>b.
     if c2 = pad then
       (if rest \<noteq> [] \<or> c3 \<noteq> pad \<or> b AND 15 \<noteq> 0 then Inl (invalid ''invalid base64 padding'')
        else rbind (decode_chunks rest) (\<lambda>out. Inr ((push_bit 2 a OR drop_bit 4 b) # out)))
     else rbind (digit c2) (\<lambda>d.
       if c3 = pad then
         (if rest \<noteq> [] \<or> d AND 3 \<noteq> 0 then Inl (invalid ''invalid base64 padding'')
          else rbind (decode_chunks rest) (\<lambda>out.
            Inr ((push_bit 2 a OR drop_bit 4 b) # (push_bit 4 b OR drop_bit 2 d) # out)))
       else rbind (digit c3) (\<lambda>e. rbind (decode_chunks rest) (\<lambda>out.
         Inr ((push_bit 2 a OR drop_bit 4 b) # (push_bit 4 b OR drop_bit 2 d) # (push_bit 6 d OR e) # out))))))"
| "decode_chunks _ = Inr []"

definition decode_base64 :: "bytes \<Rightarrow> bytes res" where
  "decode_base64 text = (if length text mod 4 \<noteq> 0 then Inl (invalid ''invalid base64 length'') else decode_chunks text)"

section \<open>Base64 is exact\<close>

lemma alphabet_length [simp]: "length ALPHABET = 64"
  by (simp add: ALPHABET_def)

lemma alphabet_distinct: "distinct ALPHABET"
  by (simp add: ALPHABET_def as_bytes_def)

lemma alphabet_pad: "pad \<notin> set ALPHABET"
  by (simp add: ALPHABET_def as_bytes_def)

lemma position_Some: "distinct vs \<Longrightarrow> position b vs = Some i \<longleftrightarrow> i < length vs \<and> vs ! i = b"
proof (induction vs arbitrary: i)
  case (Cons v vs)
  show ?case
  proof (cases i)
    case (Suc j)
    have "v \<noteq> b" if "j < length vs" "vs ! j = b" using that Cons.prems nth_mem by fastforce
    then show ?thesis using Suc Cons by auto
  qed auto
qed simp

lemma digit_Inr: "digit b = Inr v \<longleftrightarrow> v < 64 \<and> b = symbol v"
proof -
  have "digit b = Inr v \<longleftrightarrow> (\<exists>i < 64. ALPHABET ! i = b \<and> v = of_nat i)"
    by (auto simp: digit_def position_Some[OF alphabet_distinct])
  also have "\<dots> \<longleftrightarrow> v < 64 \<and> b = symbol v"
  proof safe
    fix i :: nat assume i: "i < 64"
    then have u: "unat (of_nat i :: u8) = i" by (simp add: unat_of_nat)
    then show "(of_nat i :: u8) < 64" using i by (simp add: word_less_nat_alt)
    show "ALPHABET ! i = symbol (of_nat i)" using u by (simp add: symbol_def)
  next
    assume "v < 64"
    then have "unat v < 64" by (simp add: word_less_nat_alt)
    then show "\<exists>i < 64. ALPHABET ! i = symbol v \<and> v = of_nat i" by (intro exI[of _ "unat v"]) (simp add: symbol_def)
  qed
  finally show ?thesis .
qed

lemma digit_symbol [simp]: "v < 64 \<Longrightarrow> digit (symbol v) = Inr v"
  by (simp add: digit_Inr)

lemma symbol_pad [simp]: "v < 64 \<Longrightarrow> symbol v \<noteq> pad"
proof -
  assume "v < 64"
  then have "unat v < 64" by (simp add: word_less_nat_alt)
  then have "ALPHABET ! unat v \<in> set ALPHABET" by (intro nth_mem) simp
  then show ?thesis using alphabet_pad unfolding symbol_def by metis
qed


text \<open>Six-bit groups and bytes determine each other, bit by bit.\<close>

lemma less8: "n < 8 \<longleftrightarrow> n \<in> {0, 1, 2, 3, 4, 5, 6, 7 :: nat}"
  by auto

lemma byte_eq_iff: "(x :: u8) = y \<longleftrightarrow> bit x 0 = bit y 0 \<and> bit x 1 = bit y 1 \<and> bit x 2 = bit y 2 \<and> bit x 3 = bit y 3 \<and>
    bit x 4 = bit y 4 \<and> bit x 5 = bit y 5 \<and> bit x 6 = bit y 6 \<and> bit x 7 = bit y 7"
proof -
  have "x = y \<longleftrightarrow> (\<forall>n < 8. bit x n = bit y n)" using bit_word_eqI[of x y] by auto
  also have "\<dots> \<longleftrightarrow> (\<forall>n \<in> {0, 1, 2, 3, 4, 5, 6, 7}. bit x n = bit y n)" unfolding less8 by blast
  finally show ?thesis by simp
qed

lemma high_bits: "8 \<le> n \<Longrightarrow> \<not> bit (v :: u8) n"
  using bit_imp_le_length[of v n] by auto

lemma small_iff: "(v :: u8) < 64 \<longleftrightarrow> \<not> bit v 6 \<and> \<not> bit v 7"
proof -
  have "v < 64 \<longleftrightarrow> unat v mod 64 = unat v" by (simp add: word_less_nat_alt mod_eq_self_iff_div_eq_0 div_eq_0_iff)
  also have "\<dots> \<longleftrightarrow> take_bit 6 v = v" by (simp add: take_bit_eq_mod word_unat_eq_iff unat_mod)
  also have "\<dots> \<longleftrightarrow> \<not> bit v 6 \<and> \<not> bit v 7" by (simp add: byte_eq_iff bit_take_bit_iff)
  finally show ?thesis .
qed

lemma and_masks: "(a :: u8) AND 3 = take_bit 2 a" "a AND 15 = take_bit 4 a" "a AND 63 = take_bit 6 a"
  by (simp_all add: take_bit_eq_mask mask_eq_exp_minus_1)

lemmas byte_bits = and_masks byte_eq_iff small_iff bit_simps high_bits

lemma group_small [simp]:
  fixes a b c :: u8
  shows "drop_bit 2 a < 64" "push_bit 4 (a AND 3) < 64" "push_bit 4 (a AND 3) OR drop_bit 4 b < 64"
    "push_bit 2 (b AND 15) < 64" "push_bit 2 (b AND 15) OR drop_bit 6 c < 64" "c AND 63 < 64"
  by (simp_all add: byte_bits)

text \<open>Bytes to groups and back; the conditions of padding hold of encoded groups.\<close>

lemma regroup [simp]:
  fixes a b c :: u8
  shows "push_bit 2 (drop_bit 2 a) OR drop_bit 4 (push_bit 4 (a AND 3) OR drop_bit 4 b) = a"
    "push_bit 2 (drop_bit 2 a) OR drop_bit 4 (push_bit 4 (a AND 3)) = a"
    "push_bit 4 (push_bit 4 (a AND 3) OR drop_bit 4 b) OR drop_bit 2 (push_bit 2 (b AND 15) OR drop_bit 6 c) = b"
    "push_bit 4 (push_bit 4 (a AND 3) OR drop_bit 4 b) OR drop_bit 2 (push_bit 2 (b AND 15)) = b"
    "push_bit 6 (push_bit 2 (b AND 15) OR drop_bit 6 c) OR (c AND 63) = c"
    "push_bit 4 (a AND 3) AND 15 = 0" "push_bit 2 (b AND 15) AND 3 = 0"
  by (simp_all add: byte_bits)

text \<open>Groups to bytes and back.\<close>

lemma ungroup [simp]:
  fixes a b d e :: u8
  assumes "a < 64" "b < 64" "d < 64" "e < 64"
  shows "drop_bit 2 (push_bit 2 a OR drop_bit 4 b) = a"
    "push_bit 4 ((push_bit 2 a OR drop_bit 4 b) AND 3) OR drop_bit 4 (push_bit 4 b OR drop_bit 2 d) = b"
    "b AND 15 = 0 \<Longrightarrow> push_bit 4 ((push_bit 2 a OR drop_bit 4 b) AND 3) = b"
    "push_bit 2 ((push_bit 4 b OR drop_bit 2 d) AND 15) OR drop_bit 6 (push_bit 6 d OR e) = d"
    "d AND 3 = 0 \<Longrightarrow> push_bit 2 ((push_bit 4 b OR drop_bit 2 d) AND 15) = d"
    "(push_bit 6 d OR e) AND 63 = e"
  using assms by (simp_all add: byte_bits)

text \<open>From here on groups stay as they are: shifts are not distributed.\<close>

declare push_bit_and [simp del] push_bit_or [simp del] drop_bit_and [simp del] drop_bit_or [simp del]
  push_bit_push_bit [simp del] drop_bit_drop_bit [simp del]

lemma decode_encode: "decode_chunks (encode_chunks bs) = Inr bs"
  by (induction bs rule: encode_chunks.induct) simp_all

lemma encode_length: "length (encode_chunks bs) mod 4 = 0"
  by (induction bs rule: encode_chunks.induct) simp_all

lemma encode_decode: "decode_chunks t = Inr bs \<Longrightarrow> length t mod 4 = 0 \<Longrightarrow> encode_chunks bs = t"
proof (induction t arbitrary: bs rule: decode_chunks.induct)
  case (1 c0 c1 c2 c3 rest)
  then obtain a b where ab: "a < 64" "c0 = symbol a" "b < 64" "c1 = symbol b" by (auto simp: digit_Inr)
  have l: "length rest mod 4 = 0" using "1.prems"(2) by simp
  show ?case
  proof (cases "c2 = pad")
    case True
    then show ?thesis using "1.prems"(1) ab by (auto split: if_splits)
  next
    case False
    then obtain d where d: "d < 64" "c2 = symbol d" using "1.prems"(1) ab by (auto simp: digit_Inr)
    show ?thesis
    proof (cases "c3 = pad")
      case True
      then show ?thesis using "1.prems"(1) ab d by (auto split: if_splits)
    next
      case 3: False
      then obtain e out where e: "e < 64" "c3 = symbol e" and out: "decode_chunks rest = Inr out"
        "bs = (push_bit 2 a OR drop_bit 4 b) # (push_bit 4 b OR drop_bit 2 d) # (push_bit 6 d OR e) # out"
        using "1.prems"(1) ab d False by (auto simp: digit_Inr)
      have "encode_chunks out = rest"
        using "1.IH"(3)[of a b d e] ab d e False 3 out(1) l by (auto simp: digit_Inr)
      then show ?thesis using ab d e out(2) by simp
    qed
  qed
qed auto

text \<open>Base64 text and bytes correspond one to one: decoding accepts exactly the texts that encoding produces,
  padding included, and gives back the bytes they stand for; every other text is refused.\<close>

theorem base64_exact: "decode_base64 t = Inr bs \<longleftrightarrow> encode_base64 roomy bs = Inr t"
proof -
  have "encode_base64 roomy bs = Inr (encode_chunks bs)"
    by (simp add: encode_base64_def Let_def mem_probe_def)
  moreover have "decode_base64 t = Inr bs \<longleftrightarrow> t = encode_chunks bs"
    using decode_encode[of bs] encode_length[of bs] encode_decode[of t bs] by (auto simp: decode_base64_def)
  ultimately show ?thesis by auto
qed

section \<open>The envelope\<close>

text \<open>
  \<open>wire\<close> is what the codec asks of \<open>serde_json\<close>: the entries of an object with the place of each raw value,
  the metadata, a list of bytes, a string, whether a text is JSON, and the printed forms.
\<close>

record wire =
  de_object :: "bytes \<Rightarrow> (string \<times> nat \<times> nat) list option"
  de_metadata :: "bytes \<Rightarrow> metadata option"
  de_bytes :: "bytes \<Rightarrow> bytes option option"
  de_string :: "bytes \<Rightarrow> bytes option"
  is_json :: "bytes \<Rightarrow> bool"
  ser_metadata :: "metadata \<Rightarrow> bytes"
  ser_string :: "bytes \<Rightarrow> bytes"

definition field_get :: "(string \<times> 'a) list \<Rightarrow> string \<Rightarrow> 'a option" where
  "field_get es name = map_of (rev es) name"

fun duplicates :: "(string \<times> 'a) list \<Rightarrow> string list \<Rightarrow> string list" where
  "duplicates [] seen = []"
| "duplicates ((n, _) # es) seen = (if n \<in> set seen then n # duplicates es seen else duplicates es (n # seen))"

definition contains :: "(string \<times> 'a) list \<Rightarrow> string \<Rightarrow> bool" where
  "contains es name \<longleftrightarrow> field_get es name \<noteq> None"

definition envelope :: "(string \<times> 'a) list \<Rightarrow> bool" where
  "envelope es \<longleftrightarrow> \<not> contains es ''id'' \<and>
     4 \<le> length (filter (contains es) [''version'', ''timestamp'', ''date'', ''operation'', ''table'', ''key''])"

definition from_record :: "backup_record \<Rightarrow> metadata" where
  "from_record r = metadata.truncate r"

definition meta_record :: "metadata \<Rightarrow> bytes option \<Rightarrow> backup_record" where
  "meta_record m data = metadata.extend m (backup_record.fields data)"

definition dated :: "int \<times> string \<Rightarrow> metadata \<Rightarrow> metadata" where
  "dated now m = (if md_date_from_migration m \<and> md_date m = []
     then m\<lparr>md_timestamp := fst now, md_date := snd now\<rparr> else m)"

definition encode_record :: "wire \<Rightarrow> heap \<Rightarrow> int \<times> string \<Rightarrow> backup_record \<Rightarrow> bytes res" where
  "encode_record w h now r =
     (if md_operation r = SetOp \<and> br_data r = None then Inl (invalid ''set record has no payload'') else
      let encoded = ser_metadata w (dated now (from_record r)) in
      case br_data r of
        None \<Rightarrow> Inr encoded
      | Some data \<Rightarrow>
          (if md_operation r = DeleteOp then Inl (invalid ''delete record contains a payload'') else
           rbind (mem_reserve h ''backup.encode_record''
             (saturating_add_u64 (saturating_add_u64 (length data) (length data div 3 * 2)) 64)) (\<lambda>_.
           rbind (if is_json w data then Inr (as_bytes '',\"doc\":'' @ data)
             else rbind (encode_base64 h data) (\<lambda>t. Inr (as_bytes '',\"data_b64\":'' @ ser_string w t))) (\<lambda>payload.
           Inr (butlast encoded @ payload @ as_bytes ''}''))))) "

definition json_space :: "u8 \<Rightarrow> bool" where
  "json_space b \<longleftrightarrow> b = 32 \<or> b = 10 \<or> b = 13 \<or> b = 9"

fun widen_start :: "bytes \<Rightarrow> nat \<Rightarrow> nat" where
  "widen_start bs 0 = 0"
| "widen_start bs (Suc n) = (if json_space (bs ! n) then widen_start bs n else Suc n)"

function widen_end :: "bytes \<Rightarrow> nat \<Rightarrow> nat" where
  "widen_end bs n = (if n < length bs \<and> json_space (bs ! n) then widen_end bs (Suc n) else n)"
  by auto
termination by (relation "measure (\<lambda>(bs, n). length bs - n)") auto

declare widen_end.simps [simp del]

definition slice :: "bytes \<Rightarrow> nat \<times> nat \<Rightarrow> bytes" where
  "slice bs r = drop (fst r) (take (snd r) bs)"

text \<open>Rust's \<open>rsplit_once(':')\<close> and \<open>parse::<u64>\<close>: an optional plus sign, then digits, within 64 bits.\<close>

definition rsplit_colon :: "string \<Rightarrow> (string \<times> string) option" where
  "rsplit_colon s = (if CHR '':'' \<in> set s
     then Some (rev (tl (dropWhile (\<lambda>c. c \<noteq> CHR '':'') (rev s))), rev (takeWhile (\<lambda>c. c \<noteq> CHR '':'') (rev s)))
     else None)"

definition parse_u64 :: "string \<Rightarrow> nat option" where
  "parse_u64 s = (let ds = (case s of c # cs \<Rightarrow> if c = CHR ''+'' then cs else s | [] \<Rightarrow> []);
       n = nat_of_digits ds
     in if ds \<noteq> [] \<and> all_digits ds \<and> n \<le> u64_max then Some n else None)"

definition raw_record :: "string \<Rightarrow> string \<Rightarrow> bytes \<Rightarrow> backup_record res" where
  "raw_record table key bs =
     rbind (ok_or (invalid ''backup key is not versioned'') (rsplit_colon key)) (\<lambda>(k, suffix).
     rbind (ok_or (invalid ''invalid backup version suffix'') (parse_u64 suffix)) (\<lambda>version.
     Inr \<lparr>md_version = version, md_timestamp = 0, md_date = [],
       md_operation = (if bs = [] then DeleteOp else SetOp), md_table = table, md_key = k, md_bulk_id = None,
       md_restored_version = None, md_date_from_migration = True, br_data = (if bs = [] then None else Some bs)\<rparr>))"

definition envelope_data :: "wire \<Rightarrow> (string \<times> nat \<times> nat) list \<Rightarrow> bytes \<Rightarrow> bytes option res" where
  "envelope_data w es bs =
     (case field_get es ''data'' of
       Some r \<Rightarrow> ok_or Serialization (de_bytes w (slice bs r))
     | None \<Rightarrow> (case field_get es ''doc'' of
         Some r \<Rightarrow> Inr (Some (slice bs (widen_start bs (fst r), widen_end bs (snd r))))
       | None \<Rightarrow> (case field_get es ''data_b64'' of
           Some r \<Rightarrow> rbind (ok_or Serialization (de_string w (slice bs r))) (\<lambda>t.
             rbind (decode_base64 t) (\<lambda>d. Inr (Some d)))
         | None \<Rightarrow> Inr None)))"

definition decode_record :: "wire \<Rightarrow> string \<Rightarrow> string \<Rightarrow> bytes \<Rightarrow> backup_record res" where
  "decode_record w table key bs = (case de_object w bs of
      Some es \<Rightarrow>
        (if \<not> envelope es then raw_record table key bs
         else if duplicates es [] \<noteq> [] then Inl (invalid ''duplicate backup envelope field'')
         else rbind (ok_or Serialization (de_metadata w bs)) (\<lambda>meta.
           if 1 < length (filter (contains es) [''data'', ''doc'', ''data_b64''])
           then Inl (invalid ''ambiguous backup payload fields'')
           else rbind (envelope_data w es bs) (\<lambda>data.
             if md_operation meta = SetOp \<and> data = None then Inl (invalid ''set record has no payload'')
             else if md_operation meta = DeleteOp \<and> data \<noteq> None then Inl (invalid ''delete record contains a payload'')
             else Inr (meta_record meta data))))
    | None \<Rightarrow> raw_record table key bs)"

definition is_v2 :: "wire \<Rightarrow> bytes \<Rightarrow> bool res" where
  "is_v2 w bs = (case de_object w bs of
      None \<Rightarrow> Inr False
    | Some es \<Rightarrow> if \<not> envelope es then Inr False
        else rbind (decode_record w [] [] bs) (\<lambda>r.
          Inr (\<not> (contains es ''data'' \<or> md_date_from_migration r \<and> md_date r = []))))"

section \<open>Records read back\<close>

lemma duplicates_Nil: "duplicates es seen = [] \<longleftrightarrow> distinct (map fst es) \<and> fst ` set es \<inter> set seen = {}"
  by (induction es seen rule: duplicates.induct) auto

lemma field_get_distinct: "distinct (map fst es) \<Longrightarrow> field_get es n = Some v \<longleftrightarrow> (n, v) \<in> set es"
  by (simp add: field_get_def map_of_eq_Some_iff rev_map[symmetric])

lemma field_get_None: "field_get es n = None \<longleftrightarrow> n \<notin> fst ` set es"
  by (simp add: field_get_def map_of_eq_None_iff)

lemma widen_start_at:
  assumes "p \<le> s" "\<forall>i. p \<le> i \<longrightarrow> i < s \<longrightarrow> json_space (bs ! i)" "p = 0 \<or> \<not> json_space (bs ! (p - 1))"
  shows "widen_start bs s = p"
  using assms by (induction bs s rule: widen_start.induct) (auto simp: le_Suc_eq)

lemma widen_end_at:
  assumes "n \<le> e" "\<forall>i. n \<le> i \<longrightarrow> i < e \<longrightarrow> json_space (bs ! i)" "e < length bs" "\<not> json_space (bs ! e)"
  shows "widen_end bs n = e"
  using assms
proof (induction bs n rule: widen_end.induct)
  case (1 bs n)
  show ?case
  proof (cases "n = e")
    case True
    then show ?thesis using "1.prems" by (subst widen_end.simps) simp
  next
    case False
    then have "widen_end bs (Suc n) = e" using "1.IH" "1.prems" by auto
    then show ?thesis using "1.prems" False by (subst widen_end.simps) auto
  qed
qed

text \<open>The place of a value inside its surrounding spaces, as \<open>RawValue\<close> reports it.\<close>

definition trimmed :: "nat \<Rightarrow> bytes \<Rightarrow> nat \<times> nat" where
  "trimmed p data = (p + length (takeWhile json_space data), p + length data - length (takeWhile json_space (rev data)))"

lemma takeWhile_len_rev:
  assumes "b \<in> set data" "\<not> json_space b"
  shows "length (takeWhile json_space data) < length data"
  using assms takeWhile_eq_all_conv[of json_space data] length_takeWhile_le[of json_space data]
  by (metis le_neq_implies_less takeWhile_eq_take take_all_iff order_refl)

lemma doc_slice:
  fixes pre data post :: bytes
  defines "bs \<equiv> pre @ data @ post"
  assumes "pre \<noteq> []" "\<not> json_space (last pre)" "post \<noteq> []" "\<not> json_space (hd post)" "b \<in> set data" "\<not> json_space b"
  shows "slice bs (widen_start bs (fst (trimmed (length pre) data)), widen_end bs (snd (trimmed (length pre) data))) = data"
proof -
  let ?l = "length (takeWhile json_space data)" and ?r = "length (takeWhile json_space (rev data))"
  have r: "?r < length data" using takeWhile_len_rev[of b "rev data"] assms by simp
  have "json_space (bs ! i)" if "length pre \<le> i" "i < length pre + ?l" for i
  proof -
    have j: "i - length pre < ?l" using that by simp
    then have "bs ! i = takeWhile json_space data ! (i - length pre)"
      using that length_takeWhile_le[of json_space data] by (simp add: bs_def nth_append takeWhile_nth)
    then show ?thesis using nth_mem[OF j] set_takeWhileD[of _ json_space data] by simp
  qed
  moreover have "bs ! (length pre - 1) = last pre" using assms(2) by (simp add: bs_def nth_append last_conv_nth)
  ultimately have s: "widen_start bs (length pre + ?l) = length pre"
    using assms(2,3) by (intro widen_start_at) auto
  have "json_space (bs ! i)" if "length pre + length data - ?r \<le> i" "i < length pre + length data" for i
  proof -
    let ?k = "length data - Suc (i - length pre)"
    have k: "?k < ?r" "i - length pre < length data" using that r by auto
    have "bs ! i = data ! (i - length pre)" using that r by (auto simp: bs_def nth_append)
    also have "\<dots> = rev data ! ?k" using k by (simp add: rev_nth)
    also have "\<dots> = takeWhile json_space (rev data) ! ?k" using k(1) by (simp add: takeWhile_nth)
    finally show ?thesis using nth_mem[OF k(1)] set_takeWhileD[of _ json_space "rev data"] by simp
  qed
  moreover have "bs ! (length pre + length data) = hd post" "length pre + length data < length bs"
    using assms(4) by (simp_all add: bs_def nth_append hd_conv_nth)
  ultimately have e: "widen_end bs (length pre + length data - ?r) = length pre + length data"
    using assms(5) by (intro widen_end_at) auto
  show ?thesis by (simp add: trimmed_def s e slice_def) (simp add: bs_def)
qed

text \<open>
  What the parser reports of a record that was written: its metadata, distinct field names with the
  group that marks an envelope, and the payload where the writer put it.
\<close>

definition reads_back :: "wire \<Rightarrow> backup_record \<Rightarrow> metadata \<Rightarrow> bytes \<Rightarrow> (string \<times> nat \<times> nat) list \<Rightarrow> bool" where
  "reads_back w r m bs es \<longleftrightarrow> de_metadata w bs = Some m \<and> de_object w bs = Some es \<and> distinct (map fst es) \<and>
     envelope es \<and> ''data'' \<notin> fst ` set es \<and>
     (case br_data r of
        None \<Rightarrow> ''doc'' \<notin> fst ` set es \<and> ''data_b64'' \<notin> fst ` set es
      | Some data \<Rightarrow>
          if is_json w data
          then ''data_b64'' \<notin> fst ` set es \<and> (\<exists>b \<in> set data. \<not> json_space b) \<and>
            (''doc'', trimmed (length (butlast (ser_metadata w m) @ as_bytes '',\"doc\":'')) data) \<in> set es
          else ''doc'' \<notin> fst ` set es \<and>
            (\<exists>rg. (''data_b64'', rg) \<in> set es \<and> de_string w (slice bs rg) = Some (encode_chunks data)))"

lemma encode_base64_Inr: "encode_base64 h bs = Inr t \<Longrightarrow> t = encode_chunks bs"
  by (auto simp: encode_base64_def Let_def split: sum.splits if_splits)

lemma envelope_data_back:
  assumes enc: "encode_record w h now r = Inr bs" and rb: "reads_back w r (dated now (from_record r)) bs es"
  shows "envelope_data w es bs = Inr (br_data r)"
proof -
  let ?m = "dated now (from_record r)"
  have d: "distinct (map fst es)" "''data'' \<notin> fst ` set es" using rb by (auto simp: reads_back_def)
  show ?thesis
  proof (cases "br_data r")
    case None
    then show ?thesis using rb by (simp add: reads_back_def envelope_data_def field_get_None[THEN iffD2])
  next
    case data: (Some data)
    show ?thesis
    proof (cases "is_json w data")
      case True
      let ?pre = "butlast (ser_metadata w ?m) @ as_bytes '',\"doc\":''"
      have bs: "bs = ?pre @ data @ as_bytes ''}''"
        using enc data True by (auto simp: encode_record_def Let_def split: if_splits)
      obtain b where b: "b \<in> set data" "\<not> json_space b" and doc: "(''doc'', trimmed (length ?pre) data) \<in> set es"
        using rb data True by (auto simp: reads_back_def)
      have "slice bs (widen_start bs (fst (trimmed (length ?pre) data)), widen_end bs (snd (trimmed (length ?pre) data))) = data"
        unfolding bs by (rule doc_slice[OF _ _ _ _ b]) (simp_all add: as_bytes_def json_space_def)
      moreover have "field_get es ''doc'' = Some (trimmed (length ?pre) data)"
        using doc by (simp only: field_get_distinct[OF d(1)])
      ultimately show ?thesis using d(2) data by (simp add: envelope_data_def field_get_None[THEN iffD2])
    next
      case False
      then obtain rg where "(''data_b64'', rg) \<in> set es" "de_string w (slice bs rg) = Some (encode_chunks data)"
        "''doc'' \<notin> fst ` set es"
        using rb data by (auto simp: reads_back_def)
      then show ?thesis
        using d data decode_encode[of data] encode_length[of data]
        by (simp add: envelope_data_def field_get_None[THEN iffD2] field_get_distinct[THEN iffD2] decode_base64_def)
    qed
  qed
qed

lemma record_back:
  assumes "encode_record w h now r = Inr bs" "reads_back w r (dated now (from_record r)) bs es"
  shows "decode_record w table key bs = Inr (meta_record (dated now (from_record r)) (br_data r)) \<and>
    (md_date r \<noteq> [] \<longrightarrow> decode_record w table key bs = Inr r)"
proof -
  let ?m = "dated now (from_record r)"
  have rb: "de_object w bs = Some es" "de_metadata w bs = Some ?m" "distinct (map fst es)" "envelope es"
    "''data'' \<notin> fst ` set es"
    using assms(2) by (auto simp: reads_back_def)
  have one: "length (filter (contains es) [''data'', ''doc'', ''data_b64'']) \<le> 1"
    using assms(2) by (auto simp: reads_back_def contains_def field_get_None split: option.splits if_splits)
  have op: "md_operation ?m = md_operation r" by (simp add: dated_def from_record_def metadata.defs)
  have ok: "\<not> (md_operation r = SetOp \<and> br_data r = None)" "\<not> (md_operation r = DeleteOp \<and> br_data r \<noteq> None)"
    using assms(1) by (cases "br_data r"; auto simp: encode_record_def Let_def split: if_splits)+
  have "decode_record w table key bs = Inr (meta_record ?m (br_data r))"
    using rb one op ok envelope_data_back[OF assms] duplicates_Nil[of es "[]"] by (simp add: decode_record_def)
  moreover have "meta_record ?m (br_data r) = r" if "md_date r \<noteq> []"
    using that by (simp add: dated_def from_record_def meta_record_def metadata.defs backup_record.defs)
  ultimately show ?thesis by simp
qed

text \<open>C26. A backup record survives its stored form: the payload comes back byte for byte, with the spaces
  around it, whether it was stored as JSON or as base64, and so does every other field, the date being
  filled in only when the record came without one.\<close>

theorem record_roundtrip:
  assumes "encode_record w h now r = Inr bs" "reads_back w r (dated now (from_record r)) bs es"
  shows "decode_record w table key bs = Inr (meta_record (dated now (from_record r)) (br_data r)) \<and>
    (md_date r \<noteq> [] \<longrightarrow> decode_record w table key bs = Inr r)"
  using record_back[OF assms] .

text \<open>A parser that answers for one record, with a JSON payload in spaces.\<close>

definition sample_record :: backup_record where
  "sample_record = \<lparr>md_version = 1, md_timestamp = 5, md_date = ''d'', md_operation = SetOp, md_table = ''t'', md_key = ''k'',
     md_bulk_id = None, md_restored_version = None, md_date_from_migration = False, br_data = Some [32, 123, 125, 10]\<rparr>"

definition sample_fields :: "(string \<times> nat \<times> nat) list" where
  "sample_fields = [(''version'', 0, 0), (''timestamp'', 0, 0), (''date'', 0, 0), (''operation'', 0, 0), (''table'', 0, 0),
     (''key'', 0, 0), (''doc'', 9, 11)]"

definition sample_wire :: wire where
  "sample_wire = \<lparr>de_object = (\<lambda>_. Some sample_fields), de_metadata = (\<lambda>_. Some (from_record sample_record)),
     de_bytes = (\<lambda>_. None), de_string = (\<lambda>_. None), is_json = (\<lambda>_. True), ser_metadata = (\<lambda>_. [123, 125]),
     ser_string = (\<lambda>s. s)\<rparr>"

theorem record_roundtrip_witness:
  "\<exists>bs. encode_record sample_wire roomy (7, ''now'') sample_record = Inr bs \<and>
    decode_record sample_wire ''t'' ''k:1'' bs = Inr sample_record"
proof -
  obtain bs where bs: "encode_record sample_wire roomy (7, ''now'') sample_record = Inr bs"
    by (simp add: encode_record_def Let_def sample_wire_def sample_record_def)
  have "dated (7, ''now'') (from_record sample_record) = from_record sample_record"
    by (simp add: dated_def from_record_def sample_record_def metadata.defs)
  then have "reads_back sample_wire sample_record (dated (7, ''now'') (from_record sample_record)) bs sample_fields"
    by (simp add: reads_back_def sample_wire_def sample_fields_def sample_record_def envelope_def contains_def field_get_def
        trimmed_def json_space_def)
  from record_roundtrip[OF bs this, of "''t''" "''k:1''"] bs show ?thesis by (auto simp: sample_record_def)
qed

end
