(* ===== verification/Backup.thy ===== *)
theory Backup
  imports Backup_Codec Ordered_Map
begin

text \<open>
  The backup file of a database (\<^verbatim>\<open>src/backup.rs\<close>): versioned history records, the version counter of every
  key, bulk lists, restoring from them and renaming a table. The tables of records, of counters and of
  bulk lists are separate fields, found by the names the code forms. A table definition and a table name
  are separate arguments where the code takes both. The clock is an argument, milliseconds and date; the
  text of an error inside a message is the argument \<open>display\<close>.
\<close>

type_synonym clock = "int \<times> string"

record bulk_entry =
  be_key :: string
  be_version :: nat

record bulk_record =
  bl_id :: string
  bl_timestamp :: int
  bl_date :: string
  bl_table :: string
  bl_entries :: "bulk_entry list"

record backup =
  bk_data :: "(string, (string, bytes) table) table"
  bk_versions :: "(string, (string, nat) table) table"
  bk_bulks :: "(string, (string, bulk_record) table) table"
  bk_open :: bool
  bk_path :: string

definition version_table_name :: "string \<Rightarrow> string" where
  "version_table_name t = t @ ''_version''"

definition bulk_table_name :: "string \<Rightarrow> string" where
  "bulk_table_name t = t @ ''_bulk''"

definition backup_key :: "string \<Rightarrow> nat \<Rightarrow> string" where
  "backup_key key version = key @ '':'' @ show_nat version"

definition named_rows :: "(string, ('k, 'v) table) table \<Rightarrow> string \<Rightarrow> ('k, 'v) table" where
  "named_rows ts n = (case tbl_get ts n of Some rows \<Rightarrow> rows | None \<Rightarrow> [])"

definition open_named :: "(string, ('k, 'v) table) table \<Rightarrow> string \<Rightarrow> ('k, 'v) table res" where
  "open_named ts n = ok_or (cl_error.Database (TableDoesNotExist n)) (tbl_get ts n)"

definition create_named :: "(string, ('k, 'v) table) table \<Rightarrow> string \<Rightarrow> (string, ('k, 'v) table) table" where
  "create_named ts n = (if tbl_get ts n = None then tbl_insert ts n [] else ts)"

definition bk_guard :: "backup \<Rightarrow> unit res" where
  "bk_guard b = guard_ok (bk_open b) (Closed (bk_path b))"

section \<open>Writing history\<close>

definition init_table :: "string \<Rightarrow> backup \<Rightarrow> backup res" where
  "init_table t b = rbind (bk_guard b) (\<lambda>_. Inr (b\<lparr>bk_data := create_named (bk_data b) t,
     bk_versions := create_named (bk_versions b) (version_table_name t),
     bk_bulks := create_named (bk_bulks b) (bulk_table_name t)\<rparr>))"

definition current_version :: "string \<Rightarrow> string \<Rightarrow> backup \<Rightarrow> nat res" where
  "current_version t key b = rbind (bk_guard b) (\<lambda>_. rbind (open_named (bk_versions b) (version_table_name t)) (\<lambda>rows.
     Inr (case tbl_get rows key of Some v \<Rightarrow> v | None \<Rightarrow> 0)))"

definition last_version :: "backup \<Rightarrow> string \<Rightarrow> string \<Rightarrow> nat" where
  "last_version b t key = (case tbl_get (named_rows (bk_versions b) (version_table_name t)) key of Some v \<Rightarrow> v | None \<Rightarrow> 0)"

definition next_version :: "string \<Rightarrow> string \<Rightarrow> backup \<Rightarrow> (nat \<times> backup) res" where
  "next_version t key b = rbind (ok_or (Validation ''backup version exhausted'') (checked_add_u64 (last_version b t key) 1))
     (\<lambda>n. Inr (n, b\<lparr>bk_versions := tbl_insert (bk_versions b) (version_table_name t)
       (tbl_insert (named_rows (bk_versions b) (version_table_name t)) key n)\<rparr>))"

definition backup_write :: "wire \<Rightarrow> heap \<Rightarrow> clock \<Rightarrow> string \<Rightarrow> string \<Rightarrow> backup_record \<Rightarrow> backup \<Rightarrow> backup res" where
  "backup_write w h now def key r b =
     rbind (bk_guard b) (\<lambda>_.
     rbind (next_version (md_table r) key b) (\<lambda>(version, b).
     rbind (encode_record w h now (r\<lparr>md_version := version\<rparr>)) (\<lambda>data.
     let rows = named_rows (bk_data b) def; bkey = backup_key key version in
     if tbl_get rows bkey \<noteq> None then Inl (Validation (''backup version collision: '' @ bkey))
     else Inr (b\<lparr>bk_data := tbl_insert (bk_data b) def (tbl_insert rows bkey data)\<rparr>))))"

definition new_record :: "clock \<Rightarrow> backup_operation \<Rightarrow> string \<Rightarrow> string \<Rightarrow> bytes option \<Rightarrow> nat option \<Rightarrow> string option \<Rightarrow> backup_record" where
  "new_record now oper t key data restored bulk = \<lparr>md_version = 0, md_timestamp = fst now, md_date = snd now,
     md_operation = oper, md_table = t, md_key = key, md_bulk_id = bulk, md_restored_version = restored,
     md_date_from_migration = False, br_data = data\<rparr>"

definition record_set :: "wire \<Rightarrow> heap \<Rightarrow> clock \<Rightarrow> string \<Rightarrow> string \<Rightarrow> string \<Rightarrow> bytes \<Rightarrow> backup \<Rightarrow> backup res" where
  "record_set w h now def t key data b = backup_write w h now def key (new_record now SetOp t key (Some data) None None) b"

definition record_delete :: "wire \<Rightarrow> heap \<Rightarrow> clock \<Rightarrow> string \<Rightarrow> string \<Rightarrow> string \<Rightarrow> backup \<Rightarrow> backup res" where
  "record_delete w h now def t key b = backup_write w h now def key (new_record now DeleteOp t key None None None) b"

definition record_restore ::
    "wire \<Rightarrow> heap \<Rightarrow> clock \<Rightarrow> string \<Rightarrow> string \<Rightarrow> string \<Rightarrow> nat \<Rightarrow> bytes option \<Rightarrow> string option \<Rightarrow> backup \<Rightarrow> backup res" where
  "record_restore w h now def t key version data bulk b =
     backup_write w h now def key (new_record now RestoreOp t key data (Some version) bulk) b"

section \<open>Reading history\<close>

definition record_at :: "wire \<Rightarrow> string \<Rightarrow> string \<Rightarrow> string \<Rightarrow> backup \<Rightarrow> backup_record option res" where
  "record_at w def t bkey b = rbind (bk_guard b) (\<lambda>_. rbind (open_named (bk_data b) def) (\<lambda>rows.
     case tbl_get rows bkey of None \<Rightarrow> Inr None | Some v \<Rightarrow> rbind (decode_record w t bkey v) (\<lambda>r. Inr (Some r))))"

definition live_data :: "backup_record \<Rightarrow> bytes option" where
  "live_data r = (case md_operation r of SetOp \<Rightarrow> br_data r | RestoreOp \<Rightarrow> br_data r | RestoreBulkOp \<Rightarrow> br_data r
     | DeleteOp \<Rightarrow> None)"

definition starts_with :: "string \<Rightarrow> string \<Rightarrow> bool" where
  "starts_with s p \<longleftrightarrow> take (length p) s = p"

fun sum_lefts :: "('e + 'a) list \<Rightarrow> 'e list" where
  "sum_lefts [] = []"
| "sum_lefts (Inl e # xs) = e # sum_lefts xs"
| "sum_lefts (Inr _ # xs) = sum_lefts xs"

fun sum_rights :: "('e + 'a) list \<Rightarrow> 'a list" where
  "sum_rights [] = []"
| "sum_rights (Inl _ # xs) = sum_rights xs"
| "sum_rights (Inr a # xs) = a # sum_rights xs"

fun join :: "string \<Rightarrow> string list \<Rightarrow> string" where
  "join sep [] = []"
| "join sep [s] = s"
| "join sep (s # t # ss) = s @ sep @ join sep (t # ss)"

definition history :: "(cl_error \<Rightarrow> string) \<Rightarrow> wire \<Rightarrow> string \<Rightarrow> string \<Rightarrow> backup \<Rightarrow> backup_record list res" where
  "history display w def key b = rbind (bk_guard b) (\<lambda>_. rbind (open_named (bk_data b) def) (\<lambda>rows.
     let found = filter (\<lambda>(k, _). starts_with k (key @ '':'')) rows;
         decoded = map (\<lambda>(k, v). case decode_record w def k v of
           Inr r \<Rightarrow> Inr r | Inl e \<Rightarrow> Inl (k @ '': '' @ display e)) found;
         unreadable = sum_lefts decoded
     in if unreadable \<noteq> []
        then Inl (BackupNormalizeFailed (show_nat (length unreadable) @ '' unreadable backup records: '' @ join ''; '' unreadable))
        else Inr (sort_key md_version (sum_rights decoded))))"

definition last_before :: "int \<Rightarrow> backup_record list \<Rightarrow> backup_record option" where
  "last_before timestamp rs = (case filter (\<lambda>r. md_timestamp r \<le> timestamp) rs of [] \<Rightarrow> None | xs \<Rightarrow> Some (last xs))"

definition view_at :: "(cl_error \<Rightarrow> string) \<Rightarrow> wire \<Rightarrow> string \<Rightarrow> string \<Rightarrow> int \<Rightarrow> backup \<Rightarrow> bytes option res" where
  "view_at display w def key timestamp b = rbind (history display w def key b) (\<lambda>rs.
     Inr (case last_before timestamp rs of None \<Rightarrow> None | Some r \<Rightarrow> live_data r))"

definition view_by_version :: "wire \<Rightarrow> string \<Rightarrow> string \<Rightarrow> nat \<Rightarrow> backup \<Rightarrow> bytes option res" where
  "view_by_version w def key version b = rbind (record_at w def def (backup_key key version) b) (\<lambda>r.
     Inr (case r of None \<Rightarrow> None | Some r \<Rightarrow> live_data r))"

section \<open>Bulk lists\<close>

definition write_bulk :: "clock \<Rightarrow> string \<Rightarrow> string \<Rightarrow> (string \<times> nat) list \<Rightarrow> backup \<Rightarrow> (string \<times> backup) res" where
  "write_bulk now uuid t entries b =
     (if entries = [] then Inl (Validation ''no valid ids provided'') else
      rbind (bk_guard b) (\<lambda>_.
      let r = \<lparr>bl_id = uuid, bl_timestamp = fst now, bl_date = snd now, bl_table = t,
            bl_entries = map (\<lambda>(k, v). \<lparr>be_key = k, be_version = v\<rparr>) entries\<rparr>;
          n = bulk_table_name t
      in Inr (uuid, b\<lparr>bk_bulks := tbl_insert (bk_bulks b) n (tbl_insert (named_rows (bk_bulks b) n) uuid r)\<rparr>)))"

definition bulk_at :: "string \<Rightarrow> string \<Rightarrow> backup \<Rightarrow> bulk_record res" where
  "bulk_at t bulk_id b = rbind (bk_guard b) (\<lambda>_. rbind (open_named (bk_bulks b) (bulk_table_name t)) (\<lambda>rows.
     ok_or (NotFound (''bulk_id '' @ bulk_id @ '' not found'')) (tbl_get rows bulk_id)))"

definition list_bulk :: "string \<Rightarrow> backup \<Rightarrow> bulk_record list res" where
  "list_bulk t b = rbind (bk_guard b) (\<lambda>_. rbind (open_named (bk_bulks b) (bulk_table_name t)) (\<lambda>rows.
     Inr (sort_key bl_timestamp (map snd rows))))"

text \<open>
  Every entry is read, recorded as restored and returned. Each record is a transaction of its own, so the
  file after an error holds what was recorded before it.
\<close>

definition restore_entry ::
    "wire \<Rightarrow> heap \<Rightarrow> clock \<Rightarrow> string \<Rightarrow> string \<Rightarrow> string \<Rightarrow> bulk_entry \<Rightarrow> backup \<Rightarrow> (bytes option \<times> backup) res" where
  "restore_entry w h now def t bulk_id e b =
     (let bkey = backup_key (be_key e) (be_version e) in
      rbind (record_at w def t bkey b) (\<lambda>found.
      rbind (ok_or (NotFound (''backup record '' @ bkey @ '' not found'')) found) (\<lambda>r.
      rbind (backup_write w h now def (be_key e)
        (new_record now RestoreBulkOp t (be_key e) (live_data r) (Some (be_version e)) (Some bulk_id)) b) (\<lambda>b.
      Inr (live_data r, b)))))"

fun restore_entries ::
    "wire \<Rightarrow> heap \<Rightarrow> clock \<Rightarrow> string \<Rightarrow> string \<Rightarrow> string \<Rightarrow> bulk_entry list \<Rightarrow> (string \<times> bytes option) list \<Rightarrow> backup \<Rightarrow>
      (string \<times> bytes option) list res \<times> backup" where
  "restore_entries w h now def t bulk_id [] out b = (Inr out, b)"
| "restore_entries w h now def t bulk_id (e # es) out b = (case restore_entry w h now def t bulk_id e b of
     Inl err \<Rightarrow> (Inl err, b)
   | Inr (data, b') \<Rightarrow> restore_entries w h now def t bulk_id es (out @ [(be_key e, data)]) b')"

definition backup_restore_bulk ::
    "wire \<Rightarrow> heap \<Rightarrow> clock \<Rightarrow> string \<Rightarrow> string \<Rightarrow> string \<Rightarrow> backup \<Rightarrow> (string \<times> bytes option) list res \<times> backup" where
  "backup_restore_bulk w h now def t bulk_id b = (case bulk_at t bulk_id b of
     Inl e \<Rightarrow> (Inl e, b) | Inr bulk \<Rightarrow> restore_entries w h now def t bulk_id (bl_entries bulk) [] b)"

section \<open>Renaming a table\<close>

text \<open>Moving rows one by one; a key that the target already has stops the whole transaction.\<close>

fun move_rows :: "(string \<Rightarrow> string) \<Rightarrow> (string \<times> 'v) list \<Rightarrow> (string, 'v) table \<times> (string, 'v) table \<Rightarrow>
    ((string, 'v) table \<times> (string, 'v) table) res" where
  "move_rows msg [] st = Inr st"
| "move_rows msg ((k, v) # rows) st = (case st of (src, dst) \<Rightarrow>
     if tbl_get dst k \<noteq> None then Inl (Validation (msg k))
     else move_rows msg rows (tbl_remove src k, tbl_insert dst k v))"

definition move_table :: "(string \<Rightarrow> string) \<Rightarrow> string \<Rightarrow> string \<Rightarrow> (string \<times> 'v) list \<Rightarrow> (string, (string, 'v) table) table \<Rightarrow>
    (string, (string, 'v) table) table res" where
  "move_table msg src dst rows ts =
     rbind (move_rows msg rows (named_rows ts src, named_rows ts dst)) (\<lambda>(s, d).
     Inr (tbl_insert (tbl_insert ts src s) dst d))"

definition renamed_record :: "clock \<Rightarrow> string \<Rightarrow> backup_record \<Rightarrow> backup_record" where
  "renamed_record now t r = (let r = r\<lparr>md_table := t\<rparr> in
     if md_date_from_migration r \<and> md_date r = [] then r\<lparr>md_timestamp := fst now, md_date := snd now\<rparr> else r)"

text \<open>
  The records are encoded as they are moved; the first row that cannot be moved, because it cannot be
  encoded or because it is there already, ends the transaction.
\<close>

fun move_records ::
    "wire \<Rightarrow> heap \<Rightarrow> clock \<Rightarrow> string \<Rightarrow> (string \<times> backup_record) list \<Rightarrow> (string, bytes) table \<times> (string, bytes) table \<Rightarrow>
      ((string, bytes) table \<times> (string, bytes) table) res" where
  "move_records w h now t [] st = Inr st"
| "move_records w h now t ((k, r) # rs) (src, dst) =
     rbind (encode_record w h now (renamed_record now t r)) (\<lambda>data.
     if tbl_get dst k \<noteq> None then Inl (Validation (''backup rename collision: '' @ t @ ''/'' @ k))
     else move_records w h now t rs (tbl_remove src k, tbl_insert dst k data))"

definition rewrite_table_name :: "wire \<Rightarrow> heap \<Rightarrow> clock \<Rightarrow> string \<Rightarrow> string \<Rightarrow> backup \<Rightarrow> backup res" where
  "rewrite_table_name w h now src dst b =
     (if src = dst then Inr b else
      rbind (bk_guard b) (\<lambda>_.
      rbind (mapM (\<lambda>(k, v). rbind (decode_record w src k v) (\<lambda>r. Inr (k, r))) (named_rows (bk_data b) src)) (\<lambda>records.
      let versions = named_rows (bk_versions b) (version_table_name src);
          bulks = map (\<lambda>(k, r). (k, r\<lparr>bl_table := dst\<rparr>)) (named_rows (bk_bulks b) (bulk_table_name src)) in
      if records = [] \<and> versions = [] \<and> bulks = [] then Inr b else
      rbind (move_records w h now dst records (named_rows (bk_data b) src, named_rows (bk_data b) dst)) (\<lambda>(s, d).
      rbind (move_table (\<lambda>k. ''backup version rename collision: '' @ k)
        (version_table_name src) (version_table_name dst) versions (bk_versions b)) (\<lambda>vs.
      rbind (move_table (\<lambda>k. ''backup bulk rename collision: '' @ k)
        (bulk_table_name src) (bulk_table_name dst) bulks (bk_bulks b)) (\<lambda>bs.
      Inr (b\<lparr>bk_data := tbl_insert (tbl_insert (bk_data b) src s) dst d, bk_versions := vs, bk_bulks := bs\<rparr>)))))))"

section \<open>Keys and versions\<close>

lemma no_colon_show: "CHR '':'' \<notin> set (show_nat n)"
  using show_nat_digits[of n] by (auto simp: all_digits_def list_all_iff is_digit_def)

lemma while_split: "\<forall>c \<in> set xs. P c \<Longrightarrow> \<not> P y \<Longrightarrow>
    takeWhile P (xs @ y # ys) = xs \<and> dropWhile P (xs @ y # ys) = y # ys"
  by (induction xs) auto

lemma rsplit_backup_key: "rsplit_colon (backup_key k v) = Some (k, show_nat v)"
proof -
  have n: "\<forall>c \<in> set (rev (show_nat v)). c \<noteq> CHR '':''" using no_colon_show by auto
  have "rev (backup_key k v) = rev (show_nat v) @ CHR '':'' # rev k" by (simp add: backup_key_def)
  then have "takeWhile (\<lambda>c. c \<noteq> CHR '':'') (rev (backup_key k v)) = rev (show_nat v)"
    "dropWhile (\<lambda>c. c \<noteq> CHR '':'') (rev (backup_key k v)) = CHR '':'' # rev k"
    using while_split[OF n, of "CHR '':''" "rev k"] by simp_all
  moreover have "CHR '':'' \<in> set (backup_key k v)" by (simp add: backup_key_def)
  ultimately show ?thesis by (simp add: rsplit_colon_def)
qed

lemma backup_key_inj [simp]: "backup_key k v = backup_key k' v' \<longleftrightarrow> k = k' \<and> v = v'"
proof
  assume "backup_key k v = backup_key k' v'"
  then have "Some (k, show_nat v) = Some (k', show_nat v')" using rsplit_backup_key by metis
  then show "k = k' \<and> v = v'" by (simp add: show_nat_inj)
qed simp

text \<open>Every table is an ordered map, and every stored record is at a version its key has reached.\<close>

definition named_ok :: "(string, ('k :: linorder, 'v) table) table \<Rightarrow> bool" where
  "named_ok ts \<longleftrightarrow> tbl_ok ts \<and> (\<forall>t \<in> set ts. tbl_ok (snd t))"

definition stored :: "backup \<Rightarrow> string \<Rightarrow> string \<Rightarrow> bytes option" where
  "stored b t bkey = tbl_get (named_rows (bk_data b) t) bkey"

definition backup_inv :: "backup \<Rightarrow> bool" where
  "backup_inv b \<longleftrightarrow> named_ok (bk_data b) \<and> named_ok (bk_versions b) \<and> named_ok (bk_bulks b) \<and>
     (\<forall>t bkey. stored b t bkey \<noteq> None \<longrightarrow> (\<exists>k v. bkey = backup_key k v \<and> v \<le> last_version b t k))"

lemma named_ok_rows [simp]: "named_ok ts \<Longrightarrow> tbl_ok (named_rows ts n)"
  by (auto simp: named_ok_def named_rows_def tbl_get_iff split: option.split)

lemma named_ok_insert [simp]: "named_ok ts \<Longrightarrow> tbl_ok rows \<Longrightarrow> named_ok (tbl_insert ts n rows)"
  by (auto simp: named_ok_def set_tbl_insert)

lemma named_rows_insert [simp]: "named_ok ts \<Longrightarrow> named_rows (tbl_insert ts n rows) m = (if m = n then rows else named_rows ts m)"
  by (simp add: named_ok_def named_rows_def)

lemma version_name_inj [simp]: "version_table_name t = version_table_name u \<longleftrightarrow> t = u"
  by (simp add: version_table_name_def)

lemma bulk_name_inj [simp]: "bulk_table_name t = bulk_table_name u \<longleftrightarrow> t = u"
  by (simp add: bulk_table_name_def)

lemma last_version_data [simp]: "last_version (b\<lparr>bk_data := d\<rparr>) = last_version b"
  by (intro ext) (simp add: last_version_def)

text \<open>One write: the next version of the key, or an error that is not a collision.\<close>

definition appended :: "backup \<Rightarrow> string \<Rightarrow> string \<Rightarrow> bytes \<Rightarrow> backup \<Rightarrow> bool" where
  "appended b t key data b' \<longleftrightarrow> backup_inv b' \<and> bk_open b' = bk_open b \<and> bk_bulks b' = bk_bulks b \<and>
     (\<forall>u k. last_version b' u k = (if u = t \<and> k = key then Suc (last_version b t key) else last_version b u k)) \<and>
     (\<forall>u bkey. stored b' u bkey =
       (if u = t \<and> bkey = backup_key key (Suc (last_version b t key)) then Some data else stored b u bkey))"

lemma next_version_Inr:
  assumes "next_version t key b = Inr (n, b1)" "named_ok (bk_versions b)"
  shows "n = Suc (last_version b t key)" "named_ok (bk_versions b1)" "bk_data b1 = bk_data b" "bk_open b1 = bk_open b"
    "bk_bulks b1 = bk_bulks b"
    "last_version b1 u k = (if u = t \<and> k = key then Suc (last_version b t key) else last_version b u k)"
proof -
  have n: "n = Suc (last_version b t key)" and b1: "b1 = b\<lparr>bk_versions := tbl_insert (bk_versions b) (version_table_name t)
      (tbl_insert (named_rows (bk_versions b) (version_table_name t)) key n)\<rparr>"
    using assms(1) by (auto simp: next_version_def)
  show "n = Suc (last_version b t key)" by (rule n)
  show "named_ok (bk_versions b1)" "bk_data b1 = bk_data b" "bk_open b1 = bk_open b" "bk_bulks b1 = bk_bulks b"
    using assms(2) by (simp_all add: b1)
  have "tbl_get (named_rows (bk_versions b1) (version_table_name u)) k =
      (if u = t \<and> k = key then Some n else tbl_get (named_rows (bk_versions b) (version_table_name u)) k)"
    using assms(2) by (simp add: b1)
  then show "last_version b1 u k = (if u = t \<and> k = key then Suc (last_version b t key) else last_version b u k)"
    using n by (simp add: last_version_def[of b1])  (simp add: last_version_def)
qed

lemma backup_write_at:
  assumes inv: "backup_inv b" and t: "md_table r = t"
  shows "(\<exists>e. backup_write w h now t key r b = Inl e \<and> (\<not> bk_open b \<or> u64_max \<le> last_version b t key \<or>
      encode_record w h now (r\<lparr>md_version := Suc (last_version b t key)\<rparr>) = Inl e)) \<or>
    (\<exists>b' data. backup_write w h now t key r b = Inr b' \<and>
      encode_record w h now (r\<lparr>md_version := Suc (last_version b t key)\<rparr>) = Inr data \<and> appended b t key data b')"
proof -
  have ok: "named_ok (bk_data b)" "named_ok (bk_versions b)" "named_ok (bk_bulks b)" using inv by (auto simp: backup_inv_def)
  let ?n = "Suc (last_version b t key)"
  consider "\<not> bk_open b" | "u64_max \<le> last_version b t key" | "bk_open b" "?n \<le> u64_max" by linarith
  then show ?thesis
  proof cases
    case 3
    then obtain b1 where b1: "next_version t key b = Inr (?n, b1)" by (simp add: next_version_def)
    note nv = next_version_Inr[OF b1 ok(2)]
    show ?thesis
    proof (cases "encode_record w h now (r\<lparr>md_version := ?n\<rparr>)")
      case (Inl e)
      then show ?thesis using 3 b1 t by (simp add: backup_write_def bk_guard_def)
    next
      case (Inr data)
      have free: "stored b t (backup_key key ?n) = None"
        using inv by (fastforce simp: backup_inv_def)
      let ?b = "b1\<lparr>bk_data := tbl_insert (bk_data b) t (tbl_insert (named_rows (bk_data b) t) (backup_key key ?n) data)\<rparr>"
      have "backup_write w h now t key r b = Inr ?b"
        using 3 b1 t Inr free nv(3) by (simp add: backup_write_def bk_guard_def stored_def)
      moreover have st: "stored ?b u bkey = (if u = t \<and> bkey = backup_key key ?n then Some data else stored b u bkey)" for u bkey
        using ok by (simp add: stored_def)
      moreover have "\<exists>k v. bkey = backup_key k v \<and> v \<le> last_version ?b u k" if some: "stored ?b u bkey \<noteq> None" for u bkey
      proof (cases "u = t \<and> bkey = backup_key key ?n")
        case True
        then show ?thesis by (intro exI[of _ key] exI[of _ ?n]) (simp add: nv(6))
      next
        case False
        then obtain k v where "bkey = backup_key k v" "v \<le> last_version b u k"
          using some inv unfolding st backup_inv_def by fastforce
        moreover have "last_version b u k \<le> last_version ?b u k" by (simp add: nv(6))
        ultimately show ?thesis by (blast intro: order_trans)
      qed
      then have "backup_inv ?b" using ok nv(2,5) by (simp add: backup_inv_def)
      ultimately show ?thesis using Inr nv(4,5,6) by (auto simp: appended_def)
    qed
  qed (use t in \<open>auto simp: backup_write_def bk_guard_def next_version_def guard_ok_def checked_add_u64_def\<close>)
qed

text \<open>C27. Writing history never collides: a record goes to the version after the last one of its key, the counter
  of that key moves on by one, every other record and counter stays, and the only errors are a closed
  file, an exhausted counter and a record that cannot be encoded.\<close>

theorem history_appends:
  assumes "backup_inv b" "md_table r = t"
  shows "case backup_write w h now t key r b of
      Inl e \<Rightarrow> \<not> bk_open b \<or> u64_max \<le> last_version b t key \<or>
        encode_record w h now (r\<lparr>md_version := Suc (last_version b t key)\<rparr>) = Inl e
    | Inr b' \<Rightarrow> backup_inv b' \<and>
        (\<forall>u k. last_version b' u k = (if u = t \<and> k = key then Suc (last_version b t key) else last_version b u k)) \<and>
        (\<forall>u bkey. if u = t \<and> bkey = backup_key key (Suc (last_version b t key))
          then \<exists>data. encode_record w h now (r\<lparr>md_version := Suc (last_version b t key)\<rparr>) = Inr data \<and>
            stored b' u bkey = Some data
          else stored b' u bkey = stored b u bkey)"
  using backup_write_at[OF assms, of w h now key] by (auto simp: appended_def)

definition empty_backup :: backup where
  "empty_backup = \<lparr>bk_data = [], bk_versions = [], bk_bulks = [], bk_open = True, bk_path = []\<rparr>"

lemma empty_backup_inv: "backup_inv empty_backup"
  by (simp add: backup_inv_def empty_backup_def named_ok_def stored_def named_rows_def)

theorem history_appends_witness:
  "\<exists>b'. backup_write sample_wire roomy (7, ''now'') ''t'' ''k'' sample_record empty_backup = Inr b' \<and>
    last_version b' ''t'' ''k'' = 1 \<and> stored b' ''t'' ''k:1'' \<noteq> None"
proof -
  obtain b' where b': "backup_write sample_wire roomy (7, ''now'') ''t'' ''k'' sample_record empty_backup = Inr b'"
    by (simp add: backup_write_def empty_backup_def bk_guard_def next_version_def last_version_def named_rows_def
        encode_record_def sample_wire_def sample_record_def Let_def u64_max_def)
  have "last_version empty_backup ''t'' ''k'' = 0" by (simp add: last_version_def empty_backup_def named_rows_def)
  moreover have "backup_key ''k'' 1 = ''k:1''" by code_simp
  moreover have "md_table sample_record = ''t''" by (simp add: sample_record_def)
  from history_appends[OF empty_backup_inv this, where w = sample_wire and h = roomy and now = "(7, ''now'')" and key = "''k''", unfolded b' sum.case]
  have "\<forall>u k. last_version b' u k = (if u = ''t'' \<and> k = ''k'' then Suc (last_version empty_backup ''t'' ''k'') else last_version empty_backup u k)"
    "\<exists>data. stored b' ''t'' (backup_key ''k'' (Suc (last_version empty_backup ''t'' ''k''))) = Some data"
    by (blast, metis)
  ultimately show ?thesis using b' by auto
qed

section \<open>Reading back\<close>

lemma sum_rights_mem: "a \<in> set (sum_rights xs) \<longleftrightarrow> Inr a \<in> set xs"
  by (induction xs rule: sum_rights.induct) auto

lemma sum_lefts_Nil: "sum_lefts xs = [] \<longleftrightarrow> (\<forall>e. Inl e \<notin> set xs)"
  by (induction xs rule: sum_lefts.induct) auto

lemma history_Inr:
  assumes "history display w def key b = Inr rs"
  shows "\<exists>rows. tbl_get (bk_data b) def = Some rows \<and> sorted (map md_version rs) \<and>
    (\<forall>k v. (k, v) \<in> set rows \<longrightarrow> starts_with k (key @ '':'') \<longrightarrow> (\<exists>r \<in> set rs. decode_record w def k v = Inr r)) \<and>
    (\<forall>r \<in> set rs. \<exists>k v. (k, v) \<in> set rows \<and> starts_with k (key @ '':'') \<and> decode_record w def k v = Inr r)"
proof -
  obtain rows where rows: "tbl_get (bk_data b) def = Some rows"
    using assms by (auto simp: history_def open_named_def)
  let ?f = "\<lambda>(k, v). case decode_record w def k v of Inr r \<Rightarrow> Inr r | Inl e \<Rightarrow> Inl (k @ '': '' @ display e)"
  let ?found = "filter (\<lambda>(k, _). starts_with k (key @ '':'')) rows"
  have l: "sum_lefts (map ?f ?found) = []" and rs: "rs = sort_key md_version (sum_rights (map ?f ?found))"
    using assms rows by (auto simp: history_def open_named_def Let_def split: if_splits)
  have f: "?f (k, v) = Inr r \<longleftrightarrow> decode_record w def k v = Inr r" for k v r by (simp split: sum.split)
  have ex: "\<exists>r. decode_record w def k v = Inr r" if "(k, v) \<in> set ?found" for k v
  proof (cases "decode_record w def k v")
    case (Inl e)
    then have "Inl (k @ '': '' @ display e) = ?f (k, v)" by simp
    then have "Inl (k @ '': '' @ display e) \<in> set (map ?f ?found)" using that by (metis (no_types, lifting) image_eqI list.set_map)
    then show ?thesis using l by (simp only: sum_lefts_Nil)
  qed simp
  have mem: "r \<in> set rs \<longleftrightarrow> (\<exists>k v. (k, v) \<in> set ?found \<and> decode_record w def k v = Inr r)" for r
    unfolding rs set_sort sum_rights_mem using f by (force simp: image_iff)
  have "\<exists>r \<in> set rs. decode_record w def k v = Inr r" if "(k, v) \<in> set rows" "starts_with k (key @ '':'')" for k v
    using ex[of k v] mem that by auto
  moreover have "\<exists>k v. (k, v) \<in> set rows \<and> starts_with k (key @ '':'') \<and> decode_record w def k v = Inr r" if "r \<in> set rs" for r
    using mem that by auto
  moreover have "sorted (map md_version rs)" unfolding rs by simp
  ultimately show ?thesis using rows by blast
qed

lemma starts_with_key [simp]: "starts_with (backup_key key v) (key @ '':'')"
  by (simp add: starts_with_def backup_key_def)

text \<open>C28. The history of a key is in version order and complete: it holds the record of every stored version of
  the key, and nothing that is not stored under a name that begins with the key and a colon.\<close>

theorem history_complete:
  assumes "history display w t key b = Inr rs" "backup_inv b"
  shows "sorted (map md_version rs) \<and>
    (\<forall>v data. stored b t (backup_key key v) = Some data \<longrightarrow>
      (\<exists>r \<in> set rs. decode_record w t (backup_key key v) data = Inr r)) \<and>
    (\<forall>r \<in> set rs. \<exists>bkey data. stored b t bkey = Some data \<and> starts_with bkey (key @ '':'') \<and>
      decode_record w t bkey data = Inr r)"
proof -
  obtain rows where h: "tbl_get (bk_data b) t = Some rows" "sorted (map md_version rs)"
    "\<forall>k v. (k, v) \<in> set rows \<longrightarrow> starts_with k (key @ '':'') \<longrightarrow> (\<exists>r \<in> set rs. decode_record w t k v = Inr r)"
    "\<forall>r \<in> set rs. \<exists>k v. (k, v) \<in> set rows \<and> starts_with k (key @ '':'') \<and> decode_record w t k v = Inr r"
    using history_Inr[OF assms(1)] by blast
  have "tbl_ok (named_rows (bk_data b) t)" using assms(2) by (simp add: backup_inv_def)
  then have "stored b t bkey = Some data \<longleftrightarrow> (bkey, data) \<in> set rows" for bkey data
    using h(1) by (simp add: stored_def named_rows_def tbl_get_iff)
  then show ?thesis using h by simp
qed

text \<open>Rows written before records had an envelope, under two keys of which one is a prefix of the other.\<close>

definition raw_wire :: wire where
  "raw_wire = sample_wire\<lparr>de_object := (\<lambda>_. None)\<rparr>"

definition raw_backup :: backup where
  "raw_backup = empty_backup\<lparr>bk_data := [(''t'', [(''a:1'', [1]), (''a:b:1'', [2])])],
     bk_versions := [(''t_version'', [(''a'', 1), (''a:b'', 1)])]\<rparr>"

lemma raw_history: "history display raw_wire ''t'' ''a'' raw_backup =
   Inr [(new_record (0, []) SetOp ''t'' ''a'' (Some [1]) None None)\<lparr>md_version := 1, md_date_from_migration := True\<rparr>,
     (new_record (0, []) SetOp ''t'' ''a:b'' (Some [2]) None None)\<lparr>md_version := 1, md_date_from_migration := True\<rparr>]"
proof -
  have "decode_record raw_wire ''t'' ''a:1'' [1] =
      Inr ((new_record (0, []) SetOp ''t'' ''a'' (Some [1]) None None)\<lparr>md_version := 1, md_date_from_migration := True\<rparr>)"
    "decode_record raw_wire ''t'' ''a:b:1'' [2] =
      Inr ((new_record (0, []) SetOp ''t'' ''a:b'' (Some [2]) None None)\<lparr>md_version := 1, md_date_from_migration := True\<rparr>)"
    by (simp_all add: decode_record_def raw_wire_def raw_record_def rsplit_colon_def parse_u64_def Let_def all_digits_def
        is_digit_def nat_of_digits_def digit_val_def u64_max_def new_record_def)
  then show ?thesis
    by (simp add: history_def raw_backup_def empty_backup_def bk_guard_def open_named_def starts_with_def Let_def new_record_def)
qed

lemma raw_backup_inv: "backup_inv raw_backup"
proof -
  have "''a:1'' = backup_key ''a'' 1" "''a:b:1'' = backup_key ''a:b'' 1" by code_simp+
  then have "\<exists>k v. bkey = backup_key k v \<and> v \<le> last_version raw_backup t k" if "stored raw_backup t bkey \<noteq> None" for t bkey
    using that by (auto simp: stored_def raw_backup_def empty_backup_def named_rows_def last_version_def version_table_name_def
        split: if_splits intro!: exI[of _ 1])
  then show ?thesis
    by (simp add: backup_inv_def) (simp add: raw_backup_def empty_backup_def named_ok_def tbl_ok_Cons)
qed

theorem history_complete_witness:
  "\<exists>rs. history (\<lambda>_. []) raw_wire ''t'' ''a'' raw_backup = Inr rs \<and> sorted (map md_version rs) \<and> length rs = 2"
  using history_complete[OF raw_history[of "\<lambda>_. []"] raw_backup_inv] raw_history[of "\<lambda>_. []"] by auto

text \<open>
  The prefix does not separate a key from the longer keys that continue it with a colon: the history of
  one key holds records of another.
\<close>

theorem history_mixes_keys:
  "\<exists>rs. history display raw_wire ''t'' ''a'' raw_backup = Inr rs \<and> map md_key rs = [''a'', ''a:b'']"
  by (simp add: raw_history new_record_def)

section \<open>Renaming keeps the history\<close>

lemma move_rows_Inr:
  assumes "move_rows msg rows (src, dst) = Inr (s, d)" "tbl_ok src" "tbl_ok dst" "distinct (map fst rows)"
  shows "tbl_ok s \<and> tbl_ok d \<and> (\<forall>k. tbl_get s k = (if k \<in> fst ` set rows then None else tbl_get src k)) \<and>
    (\<forall>k. tbl_get d k = (case map_of rows k of Some v \<Rightarrow> Some v | None \<Rightarrow> tbl_get dst k)) \<and>
    (\<forall>k \<in> fst ` set rows. tbl_get dst k = None)"
  using assms
proof (induction msg rows "(src, dst)" arbitrary: src dst rule: move_rows.induct)
  case (2 msg k v rows)
  have free: "tbl_get dst k = None" using "2.prems"(1) by (auto split: if_splits)
  have "tbl_ok s \<and> tbl_ok d \<and> (\<forall>j. tbl_get s j = (if j \<in> fst ` set rows then None else tbl_get (tbl_remove src k) j)) \<and>
    (\<forall>j. tbl_get d j = (case map_of rows j of Some v \<Rightarrow> Some v | None \<Rightarrow> tbl_get (tbl_insert dst k v) j)) \<and>
    (\<forall>j \<in> fst ` set rows. tbl_get (tbl_insert dst k v) j = None)"
    by (rule "2.hyps"[OF refl]) (use "2.prems" free in auto)
  moreover have "map_of rows k = None" "k \<notin> fst ` set rows" using "2.prems"(4) by (auto simp: map_of_eq_None_iff)
  ultimately show ?case using "2.prems"(2,3) free
    by (auto split: option.splits) (metis fst_conv option.distinct(1))
qed auto

lemma move_records_Inr:
  "move_records w h now t rs st = Inr st' \<Longrightarrow>
    \<exists>rows. mapM (\<lambda>(k, r). rbind (encode_record w h now (renamed_record now t r)) (\<lambda>d. Inr (k, d))) rs = Inr rows \<and>
      move_rows (\<lambda>k. ''backup rename collision: '' @ t @ ''/'' @ k) rows st = Inr st'"
proof (induction w h now t rs st rule: move_records.induct)
  case (2 w h now t k r rs src dst)
  then obtain data where d: "encode_record w h now (renamed_record now t r) = Inr data" "tbl_get dst k = None"
    "move_records w h now t rs (tbl_remove src k, tbl_insert dst k data) = Inr st'"
    by (auto split: if_splits)
  from "2.IH"[OF d(1) _ d(3)] d(2) obtain rows where
    "mapM (\<lambda>(k, r). rbind (encode_record w h now (renamed_record now t r)) (\<lambda>d. Inr (k, d))) rs = Inr rows"
    "move_rows (\<lambda>k. ''backup rename collision: '' @ t @ ''/'' @ k) rows (tbl_remove src k, tbl_insert dst k data) = Inr st'"
    by auto
  then show ?case using d by (intro exI[of _ "(k, data) # rows"]) simp
qed simp

lemma mapM_pairs:
  assumes "mapM (\<lambda>(k, a). rbind (f k a) (\<lambda>b. Inr (k, b))) xs = Inr ys"
  shows "map fst ys = map fst xs \<and> (\<forall>k. map_of ys k = (case map_of xs k of None \<Rightarrow> None | Some a \<Rightarrow>
    (case f k a of Inr b \<Rightarrow> Some b | Inl _ \<Rightarrow> None))) \<and> (\<forall>(k, a) \<in> set xs. \<exists>b. f k a = Inr b)"
  using assms
proof (induction xs arbitrary: ys)
  case (Cons x xs)
  obtain k a where x: "x = (k, a)" by (cases x)
  from Cons.prems x obtain b zs where "f k a = Inr b" "mapM (\<lambda>(k, a). rbind (f k a) (\<lambda>b. Inr (k, b))) xs = Inr zs"
    "ys = (k, b) # zs"
    by auto
  then show ?case using Cons.IH x by auto
qed simp

text \<open>What a move of named rows gives, for any of the three groups of tables.\<close>

lemma moved_tables:
  assumes "move_rows msg rows (named_rows ts src, named_rows ts dst) = Inr (s, d)" "named_ok ts" "src \<noteq> dst"
    "map fst rows = map fst (named_rows ts src)"
  shows "named_ok (tbl_insert (tbl_insert ts src s) dst d) \<and>
    (\<forall>k. tbl_get (named_rows (tbl_insert (tbl_insert ts src s) dst d) src) k = None) \<and>
    (\<forall>k. tbl_get (named_rows (tbl_insert (tbl_insert ts src s) dst d) dst) k =
      (case map_of rows k of Some v \<Rightarrow> Some v | None \<Rightarrow> tbl_get (named_rows ts dst) k)) \<and>
    (\<forall>k. tbl_get (named_rows ts src) k \<noteq> None \<longrightarrow> tbl_get (named_rows ts dst) k = None) \<and>
    (\<forall>t. t \<noteq> src \<longrightarrow> t \<noteq> dst \<longrightarrow> named_rows (tbl_insert (tbl_insert ts src s) dst d) t = named_rows ts t)"
proof -
  have ok: "tbl_ok (named_rows ts src)" "tbl_ok (named_rows ts dst)" using assms(2) by simp_all
  have dis: "distinct (map fst rows)" using tbl.rows_distinct[OF ok(1)] assms(4) by simp
  have dom: "k \<in> fst ` set rows \<longleftrightarrow> tbl_get (named_rows ts src) k \<noteq> None" for k
    using arg_cong[OF assms(4), of set] tbl.get_None[OF ok(1)] by simp
  note m = move_rows_Inr[OF assms(1) ok dis]
  then have "tbl_get s k = None" for k using dom[of k] by auto
  moreover have "named_ok (tbl_insert ts src s)" using m assms(2) by simp
  moreover have "tbl_get (named_rows ts dst) k = None" if "tbl_get (named_rows ts src) k \<noteq> None" for k
  proof -
    have "\<forall>k \<in> fst ` set rows. tbl_get (named_rows ts dst) k = None" using m by (elim conjE)
    moreover have "k \<in> fst ` set rows" using dom that by simp
    ultimately show ?thesis by (rule bspec)
  qed
  ultimately show ?thesis using m assms(2,3) by simp
qed

lemma rename_cases:
  assumes "rewrite_table_name w h now src dst b = Inr b'" "backup_inv b" "src \<noteq> dst"
  obtains "b' = b" "\<forall>bkey. stored b src bkey = None" "\<forall>k. last_version b src k = 0"
  | rows s d versions vs bs where
    "move_rows (\<lambda>k. ''backup rename collision: '' @ dst @ ''/'' @ k) rows
      (named_rows (bk_data b) src, named_rows (bk_data b) dst) = Inr (s, d)"
    "map fst rows = map fst (named_rows (bk_data b) src)"
    "\<forall>bkey data. stored b src bkey = Some data \<longrightarrow> (\<exists>r data'. decode_record w src bkey data = Inr r \<and>
      encode_record w h now (renamed_record now dst r) = Inr data' \<and> map_of rows bkey = Some data')"
    "versions = named_rows (bk_versions b) (version_table_name src)"
    "move_table (\<lambda>k. ''backup version rename collision: '' @ k) (version_table_name src) (version_table_name dst)
      versions (bk_versions b) = Inr vs"
    "named_ok bs" "b' = b\<lparr>bk_data := tbl_insert (tbl_insert (bk_data b) src s) dst d, bk_versions := vs, bk_bulks := bs\<rparr>"
proof -
  let ?rows = "named_rows (bk_data b) src"
  let ?bulks = "map (\<lambda>(k, r). (k, r\<lparr>bl_table := dst\<rparr>)) (named_rows (bk_bulks b) (bulk_table_name src))"
  have ok: "tbl_ok ?rows" "named_ok (bk_bulks b)" using assms(2) by (simp_all add: backup_inv_def)
  from assms(1,3) obtain records where rec: "mapM (\<lambda>(k, v). rbind (decode_record w src k v) (\<lambda>r. Inr (k, r))) ?rows = Inr records"
    and rest: "(if records = [] \<and> named_rows (bk_versions b) (version_table_name src) = [] \<and> ?bulks = [] then Inr b else
      rbind (move_records w h now dst records (?rows, named_rows (bk_data b) dst)) (\<lambda>(s, d).
      rbind (move_table (\<lambda>k. ''backup version rename collision: '' @ k)
        (version_table_name src) (version_table_name dst) (named_rows (bk_versions b) (version_table_name src)) (bk_versions b)) (\<lambda>vs.
      rbind (move_table (\<lambda>k. ''backup bulk rename collision: '' @ k)
        (bulk_table_name src) (bulk_table_name dst) ?bulks (bk_bulks b)) (\<lambda>bs.
      Inr (b\<lparr>bk_data := tbl_insert (tbl_insert (bk_data b) src s) dst d, bk_versions := vs, bk_bulks := bs\<rparr>))))) = Inr b'"
    unfolding rewrite_table_name_def Let_def by auto
  note r = mapM_pairs[OF rec]
  show thesis
  proof (cases "records = [] \<and> named_rows (bk_versions b) (version_table_name src) = [] \<and> ?bulks = []")
    case True
    then have "?rows = []" using r by simp
    then show thesis using that(1) rest True by (simp add: stored_def last_version_def)
  next
    case False
    from rest[unfolded if_not_P[OF False] rbind_eq_Inr split_beta] obtain z vs bs where
      m: "move_records w h now dst records (?rows, named_rows (bk_data b) dst) = Inr z"
      and v: "move_table (\<lambda>k. ''backup version rename collision: '' @ k) (version_table_name src) (version_table_name dst)
        (named_rows (bk_versions b) (version_table_name src)) (bk_versions b) = Inr vs"
      and bl: "move_table (\<lambda>k. ''backup bulk rename collision: '' @ k) (bulk_table_name src) (bulk_table_name dst)
        ?bulks (bk_bulks b) = Inr bs"
      and e': "Inr (b\<lparr>bk_data := tbl_insert (tbl_insert (bk_data b) src (fst z)) dst (snd z), bk_versions := vs, bk_bulks := bs\<rparr>)
        = Inr b'"
      unfolding split_beta by blast
    obtain s d where z: "z = (s, d)" by (cases z)
    have b': "b' = b\<lparr>bk_data := tbl_insert (tbl_insert (bk_data b) src s) dst d, bk_versions := vs, bk_bulks := bs\<rparr>"
      using e' z by auto
    from move_records_Inr[OF m[unfolded z]] obtain rows where e: "mapM (\<lambda>(k, r). rbind (encode_record w h now (renamed_record now dst r))
        (\<lambda>d. Inr (k, d))) records = Inr rows"
      and mr: "move_rows (\<lambda>k. ''backup rename collision: '' @ dst @ ''/'' @ k) rows (?rows, named_rows (bk_data b) dst) = Inr (s, d)"
      by blast
    note f = mapM_pairs[where f = "\<lambda>k r. encode_record w h now (renamed_record now dst r)", OF e]
    have "\<exists>r data'. decode_record w src bkey data = Inr r \<and> encode_record w h now (renamed_record now dst r) = Inr data' \<and>
        map_of rows bkey = Some data'" if st: "stored b src bkey = Some data" for bkey data
    proof -
      have mo: "map_of ?rows bkey = Some data" using st ok(1) by (simp add: stored_def map_of_tbl)
      then obtain q where q: "decode_record w src bkey data = Inr q" using r map_of_SomeD[OF mo] by fastforce
      then have mq: "map_of records bkey = Some q" using r mo by simp
      then obtain data' where "encode_record w h now (renamed_record now dst q) = Inr data'" using f map_of_SomeD[OF mq] by fastforce
      then show ?thesis using f mq q by auto
    qed
    moreover have "named_ok bs"
    proof -
      obtain x y where "move_rows (\<lambda>k. ''backup bulk rename collision: '' @ k) ?bulks
          (named_rows (bk_bulks b) (bulk_table_name src), named_rows (bk_bulks b) (bulk_table_name dst)) = Inr (x, y)"
        "bs = tbl_insert (tbl_insert (bk_bulks b) (bulk_table_name src) x) (bulk_table_name dst) y"
        using bl by (auto simp: move_table_def)
      then show ?thesis using moved_tables[OF _ ok(2)] assms(3) by (simp add: split_beta comp_def)
    qed
    moreover have "map fst rows = map fst ?rows" using f r by simp
    ultimately show thesis using that(2) mr v b' by blast
  qed
qed

text \<open>A file whose records were moved from one table to another, with counters that did not go down, is sound.\<close>

lemma moved_versions:
  assumes inv: "backup_inv b"
    and other: "\<And>t bkey k. t \<noteq> src \<Longrightarrow> t \<noteq> dst \<Longrightarrow> stored b' t bkey = stored b t bkey \<and> last_version b' t k = last_version b t k"
    and src: "\<And>bkey. stored b' src bkey = None"
    and dst: "\<And>bkey. stored b' dst bkey \<noteq> None \<Longrightarrow> stored b src bkey \<noteq> None \<or> stored b dst bkey \<noteq> None"
    and grow: "\<And>k. last_version b src k \<le> last_version b' dst k" "\<And>k. last_version b dst k \<le> last_version b' dst k"
    and some: "stored b' t bkey \<noteq> None"
  shows "\<exists>k v. bkey = backup_key k v \<and> v \<le> last_version b' t k"
proof -
  have old: "\<exists>k v. bkey = backup_key k v \<and> v \<le> last_version b u k" if "stored b u bkey \<noteq> None" for u
    using inv that unfolding backup_inv_def by blast
  consider "t = src" | "t \<noteq> src" "t \<noteq> dst" | "t = dst" "stored b src bkey \<noteq> None" | "t = dst" "stored b dst bkey \<noteq> None"
    using dst[of bkey] some by blast
  then show ?thesis
  proof cases
    case 1
    then show ?thesis using src some by simp
  next
    case 2
    then show ?thesis using other[OF 2] old[of t] some by simp
  next
    case 3
    then show ?thesis using old[OF 3(2)] grow(1) by (blast intro: order_trans)
  next
    case 4
    then show ?thesis using old[OF 4(2)] grow(2) by (blast intro: order_trans)
  qed
qed

text \<open>C29. Renaming a table in the backup file moves its whole history: the records, under the same versions and with
  the new table name, the version counters and the bulk lists. The old name keeps nothing, other tables are
  untouched, and the file stays sound, so new records continue the old numbering.\<close>

theorem rename_moves_history:
  assumes "rewrite_table_name w h now src dst b = Inr b'" "backup_inv b" "src \<noteq> dst"
  shows "backup_inv b' \<and>
    (\<forall>k. last_version b' src k = 0 \<and> (last_version b src k \<noteq> 0 \<longrightarrow> last_version b' dst k = last_version b src k)) \<and>
    (\<forall>bkey. stored b' src bkey = None) \<and>
    (\<forall>bkey data. stored b src bkey = Some data \<longrightarrow> (\<exists>r data'. decode_record w src bkey data = Inr r \<and>
      encode_record w h now (renamed_record now dst r) = Inr data' \<and> stored b' dst bkey = Some data')) \<and>
    (\<forall>bkey. stored b src bkey = None \<longrightarrow> stored b' dst bkey = stored b dst bkey) \<and>
    (\<forall>t bkey k. t \<noteq> src \<longrightarrow> t \<noteq> dst \<longrightarrow> stored b' t bkey = stored b t bkey \<and> last_version b' t k = last_version b t k)"
  using assms
proof (cases rule: rename_cases)
  case 1
  then show ?thesis using assms(2) by auto
next
  case (2 rows s d versions vs bs)
  have ok: "named_ok (bk_data b)" "named_ok (bk_versions b)" using assms(2) by (simp_all add: backup_inv_def)
  note md = moved_tables[OF 2(1) ok(1) assms(3) 2(2)]
  obtain x y where xy: "move_rows (\<lambda>k. ''backup version rename collision: '' @ k) versions
      (named_rows (bk_versions b) (version_table_name src), named_rows (bk_versions b) (version_table_name dst)) = Inr (x, y)"
    "vs = tbl_insert (tbl_insert (bk_versions b) (version_table_name src) x) (version_table_name dst) y"
    using 2(5) by (auto simp: move_table_def)
  have ne: "version_table_name src \<noteq> version_table_name dst" using assms(3) by simp
  note mv = moved_tables[OF xy(1) ok(2) ne, folded xy(2), OF arg_cong[of _ _ "map fst", OF 2(4)]]
  have ver: "map_of versions k = tbl_get (named_rows (bk_versions b) (version_table_name src)) k" for k
    using ok(2) by (simp add: 2(4) map_of_tbl)
  have src: "stored b' src bkey = None" "last_version b' src k = 0" for bkey k
    using md mv by (simp_all add: stored_def last_version_def 2(7))
  have other: "stored b' t bkey = stored b t bkey \<and> last_version b' t k = last_version b t k" if "t \<noteq> src" "t \<noteq> dst" for t bkey k
    using md mv that by (simp add: stored_def last_version_def 2(7))
  have row: "stored b' dst bkey = (case map_of rows bkey of Some v \<Rightarrow> Some v | None \<Rightarrow> stored b dst bkey)" for bkey
    using md by (simp add: stored_def 2(7) split: option.split)
  have lv: "last_version b' dst k = (case tbl_get (named_rows (bk_versions b) (version_table_name src)) k of
      Some v \<Rightarrow> v | None \<Rightarrow> last_version b dst k)" for k
    using mv ver by (simp add: last_version_def 2(7) split: option.split)
  have grow: "last_version b src k \<le> last_version b' dst k" "last_version b dst k \<le> last_version b' dst k" for k
    using mv unfolding lv by (auto simp: last_version_def split: option.splits)
  have keys: "map_of rows bkey = None \<longleftrightarrow> stored b src bkey = None" for bkey
    using arg_cong[OF 2(2), of set] tbl.get_None[of "named_rows (bk_data b) src" bkey] ok(1)
    by (simp add: map_of_eq_None_iff stored_def)
  have dst: "stored b src bkey \<noteq> None \<or> stored b dst bkey \<noteq> None" if "stored b' dst bkey \<noteq> None" for bkey
    using that row[of bkey] keys[of bkey] by (auto split: option.splits)
  have "\<exists>k v. bkey = backup_key k v \<and> v \<le> last_version b' t k" if "stored b' t bkey \<noteq> None" for t bkey
    by (rule moved_versions[OF assms(2) other src(1) dst grow that])
  then have "backup_inv b'" using md mv 2(6) by (simp add: backup_inv_def 2(7))
  moreover have "last_version b src k \<noteq> 0 \<longrightarrow> last_version b' dst k = last_version b src k" for k
    unfolding lv by (auto simp: last_version_def split: option.splits)
  moreover have "\<exists>r data'. decode_record w src bkey data = Inr r \<and> encode_record w h now (renamed_record now dst r) = Inr data' \<and>
      stored b' dst bkey = Some data'" if "stored b src bkey = Some data" for bkey data
    using 2(3) that row[of bkey] by fastforce
  moreover have "stored b' dst bkey = stored b dst bkey" if "stored b src bkey = None" for bkey
    using that row[of bkey] keys[of bkey] by simp
  ultimately show ?thesis using src other by blast
qed


theorem rename_moves_history_witness:
  "\<exists>b'. rewrite_table_name sample_wire roomy (7, ''now'') ''t'' ''u'' (empty_backup\<lparr>bk_versions := [(''t_version'', [(''k'', 3)])]\<rparr>) = Inr b' \<and>
    last_version b' ''u'' ''k'' = 3 \<and> last_version b' ''t'' ''k'' = 0"
proof -
  let ?b = "empty_backup\<lparr>bk_versions := [(''t_version'', [(''k'', 3)])]\<rparr>"
  have inv: "backup_inv ?b" by (simp add: backup_inv_def empty_backup_def named_ok_def stored_def named_rows_def tbl_ok_Cons)
  obtain b' where b': "rewrite_table_name sample_wire roomy (7, ''now'') ''t'' ''u'' ?b = Inr b'"
    by (simp add: rewrite_table_name_def empty_backup_def bk_guard_def named_rows_def version_table_name_def bulk_table_name_def
        move_table_def Let_def)
  have "last_version ?b ''t'' ''k'' = 3"
    by (simp add: last_version_def named_rows_def version_table_name_def empty_backup_def)
  then show ?thesis using rename_moves_history[OF b' inv] b' by auto
qed

end
