(* ===== verification/Migration.thy ===== *)
theory Migration
  imports Backup Fields_Value "HOL-Library.Product_Lexorder"
begin

text \<open>
  Schema migration as the database manager sees it (\<^verbatim>\<open>src/migration/layout.rs\<close>,
  \<^verbatim>\<open>src/migration/chain.rs\<close>, \<^verbatim>\<open>src/migration/decoder.rs\<close>, \<^verbatim>\<open>src/migration/plan.rs\<close>,
  \<^verbatim>\<open>src/migration/step_registry.rs\<close>): field layouts and their differences, the chain of migrations of every
  table with the files it is kept in, the decoders of old rows, and the view of a backup record
  through the chain (\<^verbatim>\<open>src/backup.rs\<close>). The files are those of the plain store; a write the system refuses
  is an answer of the parameter \<open>io\<close>.
  The hash of a layout (\<open>DefaultHasher\<close>, whose algorithm is not specified), the parser and the printer of JSON
  are parameters.
\<close>

definition quoted :: "string \<Rightarrow> string" where
  "quoted s = [CHR 0x27] @ s @ [CHR 0x27]"

section \<open>Layouts\<close>

record field_spec =
  fs_name :: string
  fs_json_type :: string
  fs_required :: bool

record field_layout =
  fl_fields :: "field_spec list"
  fl_hash :: string

datatype layout_diff_kind = Identical | AutoSafe | RequiresDecoder | Breaking

record layout_diff =
  ld_kind :: layout_diff_kind
  ld_added :: "string list"
  ld_removed :: "string list"
  ld_types :: "(string \<times> string \<times> string) list"

type_synonym field_hash = "field_spec list \<Rightarrow> string"

text \<open>\<open>is_u64\<close> or \<open>is_i64\<close> of a number: it prints as an integer literal in range.\<close>

definition is_integer :: "string \<Rightarrow> bool" where
  "is_integer s \<longleftrightarrow> (case s of
      c # ds \<Rightarrow> if c = CHR ''-'' then ds \<noteq> [] \<and> all_digits ds \<and> nat_of_digits ds \<le> 2 ^ 63
        else all_digits s \<and> nat_of_digits s \<le> u64_max
    | [] \<Rightarrow> False)"

fun json_type_name :: "json \<Rightarrow> string" where
  "json_type_name JNull = ''null''"
| "json_type_name (JBool _) = ''bool''"
| "json_type_name (JNumber n) = (if is_integer n then ''integer'' else ''number'')"
| "json_type_name (JString _) = ''string''"
| "json_type_name (JArray _) = ''array''"
| "json_type_name (JObject _) = ''object''"

definition object_fields :: "json \<Rightarrow> field_spec list" where
  "object_fields v = (case v of
      JObject kvs \<Rightarrow> sort_key fs_name (map (\<lambda>(k, w). \<lparr>fs_name = k, fs_json_type = json_type_name w, fs_required = True\<rparr>) kvs)
    | _ \<Rightarrow> [])"

definition from_json_value :: "field_hash \<Rightarrow> json \<Rightarrow> field_layout" where
  "from_json_value hash v = \<lparr>fl_fields = object_fields v, fl_hash = hash (object_fields v)\<rparr>"

definition capture_from_sample_json :: "(bytes \<Rightarrow> json option) \<Rightarrow> field_hash \<Rightarrow> bytes \<Rightarrow> field_layout res" where
  "capture_from_sample_json read_json hash bs = rbind (ok_or Serialization (read_json bs)) (\<lambda>v. Inr (from_json_value hash v))"

definition field_map :: "field_layout \<Rightarrow> (string, field_spec) table" where
  "field_map l = tbl_insert_all [] (map (\<lambda>f. (fs_name f, f)) (fl_fields l))"

definition layout_diff_of :: "field_layout \<Rightarrow> field_layout \<Rightarrow> layout_diff" where
  "layout_diff_of self other = (let self_map = field_map self; other_map = field_map other;
      added = map fst (filter (\<lambda>(name, _). tbl_get self_map name = None) other_map);
      types = List.map_filter (\<lambda>(name, f). case tbl_get self_map name of
          Some old \<Rightarrow> if fs_json_type old \<noteq> fs_json_type f
            then Some (name, fs_json_type old, fs_json_type f) else None
        | None \<Rightarrow> None) other_map;
      removed = filter (\<lambda>name. tbl_get other_map name = None) (map fst self_map);
      kind = (if fl_hash self = fl_hash other then Identical
        else if removed \<noteq> [] \<or> types \<noteq> [] then Breaking
        else if added \<noteq> [] then AutoSafe else RequiresDecoder)
     in \<lparr>ld_kind = kind, ld_added = added, ld_removed = removed, ld_types = types\<rparr>)"

text \<open>\<open>check_compatible_overwrite\<close> of \<^verbatim>\<open>src/migration/guard.rs\<close>.\<close>

definition check_compatible_overwrite ::
    "(bytes \<Rightarrow> json option) \<Rightarrow> field_hash \<Rightarrow> bytes \<Rightarrow> bytes \<Rightarrow> field_layout \<Rightarrow> bool res" where
  "check_compatible_overwrite read_json hash existing incoming target =
     rbind (capture_from_sample_json read_json hash existing) (\<lambda>e.
     if fl_hash e \<noteq> fl_hash target then Inr False else
     rbind (capture_from_sample_json read_json hash incoming) (\<lambda>i.
     if ld_kind (layout_diff_of i target) \<noteq> Identical \<and> ld_kind (layout_diff_of i target) \<noteq> AutoSafe then Inr False
     else Inr True))"

section \<open>Decoders\<close>

text \<open>An object of \<open>serde_json\<close> is a \<open>BTreeMap\<close>: the list of its entries in key order.\<close>

fun merge_defaults :: "json \<Rightarrow> json \<Rightarrow> json" where
  "merge_defaults (JObject target) (JObject template) =
     JObject (foldl (\<lambda>t (k, v). case tbl_get t k of None \<Rightarrow> tbl_insert t k v | Some _ \<Rightarrow> t) target template)"
| "merge_defaults target _ = target"

definition ensure_meta_id :: "json \<Rightarrow> string \<Rightarrow> json" where
  "ensure_meta_id meta key = (case meta of
      JObject obj \<Rightarrow> if tbl_get obj ''id'' = None then JObject (tbl_insert obj ''id'' (JString key)) else meta
    | _ \<Rightarrow> meta)"

definition storage_key_for_metadata :: "(bytes \<Rightarrow> json option) \<Rightarrow> bytes \<Rightarrow> string \<Rightarrow> string" where
  "storage_key_for_metadata read_json metadata_bytes source_key = (case read_json metadata_bytes of
      Some (JObject obj) \<Rightarrow> (case tbl_get obj ''id'' of
          Some (JString s) \<Rightarrow> if s \<noteq> [] then s else source_key
        | _ \<Rightarrow> source_key)
    | _ \<Rightarrow> source_key)"

text \<open>The decoder the library makes for additive changes: the template's fields where the row has none.\<close>

definition additive_decode :: "(bytes \<Rightarrow> json option) \<Rightarrow> json \<Rightarrow> bytes \<Rightarrow> json res" where
  "additive_decode read_json template bs = rbind (ok_or Serialization (read_json bs)) (\<lambda>base. Inr (merge_defaults base template))"

definition additive_migrate_bytes :: "(bytes \<Rightarrow> json option) \<Rightarrow> (json \<Rightarrow> bytes) \<Rightarrow> json \<Rightarrow> bytes \<Rightarrow> bytes res" where
  "additive_migrate_bytes read_json print_json template bs = rbind (additive_decode read_json template bs) (\<lambda>v. Inr (print_json v))"

text \<open>
  The registered steps: \<open>migrate_bytes\<close> of the user's decoder for a pair of layout hashes. Registering
  a pair again keeps the first.
\<close>

type_synonym decoder = "bytes \<Rightarrow> bytes res"
type_synonym registry = "((string \<times> string), decoder) table"

definition register_step :: "string \<Rightarrow> string \<Rightarrow> decoder \<Rightarrow> registry \<Rightarrow> registry" where
  "register_step src dst f reg = (case tbl_get reg (src, dst) of None \<Rightarrow> tbl_insert reg (src, dst) f | Some _ \<Rightarrow> reg)"

definition get_by_layout :: "registry \<Rightarrow> string \<Rightarrow> string \<Rightarrow> decoder res" where
  "get_by_layout reg src dst = ok_or (DecoderNotFound src dst []) (tbl_get reg (src, dst))"

section \<open>Chains of migrations\<close>

datatype migration_kind = InPlaceEvolve | DataTransfer | ExternalImport

datatype conflict_policy = Fail | Skip | OverwriteIfCompatible | Overwrite

record schema_ref =
  sr_db :: string
  sr_table :: string
  sr_schema_id :: string
  sr_version :: nat

record version_scope =
  vs_from :: nat
  vs_to :: nat
  vs_table :: string
  vs_snapshot :: "string option"

record rename_info =
  rn_from :: string
  rn_to :: string
  rn_backup :: bool

record field_diff_entry =
  fd_op :: string
  fd_field :: string
  fd_default :: "json option"
  fd_from :: "string option"

record manifest =
  mf_id :: string
  mf_parent :: "string option"
  mf_timestamp :: int
  mf_kind :: migration_kind
  mf_from :: schema_ref
  mf_to :: schema_ref
  mf_scope :: version_scope
  mf_from_hash :: string
  mf_to_hash :: string
  mf_policy :: conflict_policy
  mf_rename :: "rename_info option"
  mf_diff :: "field_diff_entry list option"

record chain_index =
  ci_schema_id :: string
  ci_current :: nat
  ci_initial :: nat
  ci_chain :: "(string \<times> nat) list"

record chain =
  ch_table :: string
  ch_index :: chain_index
  ch_manifests :: "manifest list"

record chain_summary =
  cs_schema_id :: string
  cs_current :: nat
  cs_initial :: nat

definition fresh_index :: "string \<Rightarrow> chain_index" where
  "fresh_index t = \<lparr>ci_schema_id = t, ci_current = 1, ci_initial = 1, ci_chain = []\<rparr>"

definition fresh_chain :: "string \<Rightarrow> chain" where
  "fresh_chain t = \<lparr>ch_table = t, ch_index = fresh_index t, ch_manifests = []\<rparr>"

fun covering :: "nat \<Rightarrow> manifest list \<Rightarrow> manifest option" where
  "covering v [] = None"
| "covering v (m # ms) = (if v \<le> vs_to (mf_scope m) then Some m else covering v ms)"

definition schema_version_for_backup :: "chain \<Rightarrow> nat \<Rightarrow> nat" where
  "schema_version_for_backup c v = (case covering v (ch_manifests c) of
     Some m \<Rightarrow> sr_version (mf_from m) | None \<Rightarrow> ci_current (ch_index c))"

definition migration_id_for_version :: "chain \<Rightarrow> nat \<Rightarrow> string option" where
  "migration_id_for_version c v = map_option mf_id (covering v (ch_manifests c))"

definition is_restorable :: "chain \<Rightarrow> nat \<Rightarrow> bool" where
  "is_restorable c v \<longleftrightarrow> schema_version_for_backup c v = ci_current (ch_index c)"

definition schema_label :: "string \<Rightarrow> nat \<Rightarrow> string" where
  "schema_label s v = s @ ''@'' @ show_nat v"

definition assert_restorable :: "chain \<Rightarrow> nat \<Rightarrow> unit res" where
  "assert_restorable c v = guard_ok (is_restorable c v) (NotRestorable v
     (schema_label (ci_schema_id (ch_index c)) (schema_version_for_backup c v))
     (schema_label (ci_schema_id (ch_index c)) (ci_current (ch_index c)))
     (case migration_id_for_version c v of Some i \<Rightarrow> i | None \<Rightarrow> ''unknown''))"

datatype display_mode = AsStored | Normalized

text \<open>The loop of the normalized reading: the row, the version it is at and the path taken.\<close>

fun normalize_steps :: "registry \<Rightarrow> string \<Rightarrow> nat \<Rightarrow> manifest list \<Rightarrow> bytes \<times> nat \<times> string list \<Rightarrow> (bytes \<times> nat \<times> string list) res" where
  "normalize_steps reg sid cur [] st = Inr st"
| "normalize_steps reg sid cur (m # ms) (bs, ver, path) =
     rbind (if ver = sr_version (mf_from m) then
         rbind (case get_by_layout reg (mf_from_hash m) (mf_to_hash m) of
             Inl _ \<Rightarrow> Inl (DecoderNotFound (mf_from_hash m) (mf_to_hash m) (mf_id m)) | Inr f \<Rightarrow> f bs) (\<lambda>bs.
         Inr (bs, sr_version (mf_to m), path @ [schema_label sid (sr_version (mf_to m))]))
       else Inr (bs, ver, path)) (\<lambda>(bs, ver, path).
     if ver = cur then Inr (bs, ver, path) else normalize_steps reg sid cur ms (bs, ver, path))"

definition decode_to_json ::
    "(bytes \<Rightarrow> json option) \<Rightarrow> chain \<Rightarrow> bytes \<Rightarrow> nat \<Rightarrow> display_mode \<Rightarrow> registry \<Rightarrow> (json \<times> string list) res" where
  "decode_to_json read_json c bs v mode reg =
     (let era = schema_version_for_backup c v; sid = ci_schema_id (ch_index c); path = [schema_label sid era] in
      case mode of
        AsStored \<Rightarrow> rbind (ok_or Serialization (read_json bs)) (\<lambda>j. Inr (j, path))
      | Normalized \<Rightarrow>
          rbind (normalize_steps reg sid (ci_current (ch_index c)) (ch_manifests c) (bs, era, path)) (\<lambda>(bs, _, path).
          rbind (ok_or Serialization (read_json bs)) (\<lambda>j. Inr (j, path))))"

section \<open>A backup record seen through the chain\<close>

datatype record_data = Typed json | Untyped json | NoData

record record_view = metadata +
  rv_data :: record_data
  rv_schema :: string
  rv_migration :: "string option"
  rv_readable :: bool
  rv_restorable :: bool
  rv_path :: "string list"

definition view_of :: "backup_record \<Rightarrow> record_data \<Rightarrow> string \<Rightarrow> string option \<Rightarrow> bool \<Rightarrow> bool \<Rightarrow> string list \<Rightarrow> record_view" where
  "view_of raw data schema migration readable restorable path =
     \<lparr>md_version = md_version raw, md_timestamp = md_timestamp raw, md_date = md_date raw,
      md_operation = md_operation raw, md_table = md_table raw, md_key = md_key raw, md_bulk_id = md_bulk_id raw,
      md_restored_version = md_restored_version raw, md_date_from_migration = md_date_from_migration raw,
      rv_data = data, rv_schema = schema, rv_migration = migration, rv_readable = readable,
      rv_restorable = restorable, rv_path = path\<rparr>"

definition resolve_record ::
    "(bytes \<Rightarrow> json option) \<Rightarrow> backup_record \<Rightarrow> (string, chain) table \<Rightarrow> registry \<Rightarrow> display_mode \<Rightarrow> record_view" where
  "resolve_record read_json raw tables reg mode =
     (let c = tbl_get tables (md_table raw); v = md_version raw;
          schema = (case c of Some c \<Rightarrow> schema_label (ci_schema_id (ch_index c)) (schema_version_for_backup c v)
            | None \<Rightarrow> md_table raw @ ''@current'');
          migration = (case c of Some c \<Rightarrow> migration_id_for_version c v | None \<Rightarrow> None);
          restorable = (case c of Some c \<Rightarrow> is_restorable c v | None \<Rightarrow> True)
      in case br_data raw of
          None \<Rightarrow> view_of raw NoData schema migration True restorable [schema]
        | Some bs \<Rightarrow>
            if md_operation raw = DeleteOp then view_of raw NoData schema migration True restorable [schema]
            else (case c of
                Some c \<Rightarrow> (case decode_to_json read_json c bs v mode reg of
                    Inr (j, path) \<Rightarrow> view_of raw (if restorable then Typed j else Untyped j) schema migration True restorable path
                  | Inl _ \<Rightarrow> view_of raw NoData schema migration False False [schema])
              | None \<Rightarrow> (case read_json bs of
                    Some j \<Rightarrow> view_of raw (Typed j) schema migration True True [schema]
                  | None \<Rightarrow> view_of raw NoData schema migration False False [schema])))"

section \<open>The files of the chains\<close>

text \<open>
  A file is found by the parts of its path below the migration directory; its content is the value it was
  written from, in the form the library writes, or \<open>Damaged\<close> when it does not parse.
\<close>

datatype mfile = RootFile nat string "(string, chain_summary) table" | IndexFile chain_index | LayoutFile field_layout
  | ManifestFile manifest | SnapshotFile "(string \<times> string) list" | Damaged

type_synonym mfiles = "string list \<rightharpoonup> mfile"

text \<open>\<open>io\<close> refuses a path (creating, writing or renaming it) with an error.\<close>

type_synonym io = "string list \<Rightarrow> cl_error option"

definition io_ok :: "io \<Rightarrow> string list \<Rightarrow> unit res" where
  "io_ok i p = (case i p of None \<Rightarrow> Inr () | Some e \<Rightarrow> Inl e)"

definition write_file :: "io \<Rightarrow> string list \<Rightarrow> mfile \<Rightarrow> mfiles \<Rightarrow> mfiles res" where
  "write_file i p f fs = rbind (io_ok i p) (\<lambda>_. Inr (fs(p \<mapsto> f)))"

definition hex_digit :: "nat \<Rightarrow> char" where
  "hex_digit n = ''0123456789abcdef'' ! n"

definition hex_encode :: "bytes \<Rightarrow> string" where
  "hex_encode bs = concat (map (\<lambda>b. [hex_digit (unat b div 16), hex_digit (unat b mod 16)]) bs)"

definition table_file :: "string \<Rightarrow> string list \<Rightarrow> string list" where
  "table_file t parts = [''tables'', t] @ parts"

definition index_file :: "string \<Rightarrow> string list" where
  "index_file t = table_file t [''index.json'']"

definition manifest_file :: "string \<Rightarrow> string \<Rightarrow> string list" where
  "manifest_file t i = table_file t [i, ''manifest.json'']"

definition layout_file :: "string \<Rightarrow> nat \<Rightarrow> string list" where
  "layout_file t v = table_file t [''layouts'', ''v'' @ show_nat v @ ''.json'']"

definition ensure_layout :: "io \<Rightarrow> chain \<Rightarrow> nat \<Rightarrow> field_layout \<Rightarrow> mfiles \<Rightarrow> unit res \<times> mfiles" where
  "ensure_layout i c v layout fs =
     (let p = layout_file (ch_table c) v; q = index_file (ch_table c) in
      case rbind (io_ok i (table_file (ch_table c) [''layouts''])) (\<lambda>_.
           if fs p = None then write_file i p (LayoutFile layout) fs else Inr fs) of
        Inl e \<Rightarrow> (Inl e, fs)
      | Inr fs \<Rightarrow>
          if fs q = Some (IndexFile (ch_index c)) then (Inr (), fs)
          else (case write_file i q (IndexFile (ch_index c)) fs of Inl e \<Rightarrow> (Inl e, fs) | Inr fs \<Rightarrow> (Inr (), fs)))"

text \<open>\<open>append\<close>: the snapshot and the manifest are written, the chain is extended, then its index is written.\<close>

definition extended :: "chain \<Rightarrow> manifest \<Rightarrow> chain" where
  "extended c m = c\<lparr>ch_index := (ch_index c)\<lparr>
       ci_chain := ci_chain (ch_index c) @ [(mf_id m, (length (ci_chain (ch_index c)) + 1) mod 2 ^ 32)],
       ci_current := sr_version (mf_to m)\<rparr>,
     ch_manifests := ch_manifests c @ [m]\<rparr>"

definition snapshot_file :: "string \<Rightarrow> manifest \<Rightarrow> string list" where
  "snapshot_file t m = table_file t [mf_id m, ''refs'',
     (case vs_snapshot (mf_scope m) of Some r \<Rightarrow> r | None \<Rightarrow> ''primary_before_'' @ mf_id m) @ ''.json'']"

definition chain_append ::
    "io \<Rightarrow> manifest \<Rightarrow> (string \<times> bytes) list option \<Rightarrow> chain \<Rightarrow> mfiles \<Rightarrow> unit res \<times> chain \<times> mfiles" where
  "chain_append i m snapshot c fs =
     (let t = ch_table c in
      case rbind (io_ok i (table_file t [mf_id m, ''refs''])) (\<lambda>_.
           case snapshot of
             None \<Rightarrow> Inr fs
           | Some entries \<Rightarrow> write_file i (snapshot_file t m) (SnapshotFile (map (\<lambda>(k, v). (k, hex_encode v)) entries)) fs) of
        Inl e \<Rightarrow> (Inl e, c, fs)
      | Inr fs \<Rightarrow> (case write_file i (manifest_file t (mf_id m)) (ManifestFile m) fs of
          Inl e \<Rightarrow> (Inl e, c, fs)
        | Inr fs \<Rightarrow> (let c = extended c m in
            case write_file i (index_file t) (IndexFile (ch_index c)) fs of
              Inl e \<Rightarrow> (Inl e, c, fs) | Inr fs \<Rightarrow> (Inr (), c, fs))))"

text \<open>
  Loading a chain: a missing or unreadable index is a fresh one, an unreadable manifest is left out; what is
  unreadable is moved aside under a name that ends with the \<open>stamp\<close>.
\<close>

definition set_aside :: "io \<Rightarrow> string \<Rightarrow> string list \<Rightarrow> mfiles \<Rightarrow> mfiles res" where
  "set_aside i stamp p fs = rbind (io_ok i p) (\<lambda>_.
     Inr (fs(p := None, butlast p @ [last p @ ''.corrupt.'' @ stamp] := fs p)))"

definition load_manifest ::
    "io \<Rightarrow> string \<Rightarrow> string \<Rightarrow> manifest list \<times> mfiles \<Rightarrow> string \<times> nat \<Rightarrow> (manifest list \<times> mfiles) res" where
  "load_manifest i stamp t s entry = (case s of (ms, fs) \<Rightarrow>
     let p = manifest_file t (fst entry) in
     case fs p of
       None \<Rightarrow> Inr (ms, fs)
     | Some (ManifestFile m) \<Rightarrow> Inr (ms @ [m], fs)
     | Some _ \<Rightarrow> rbind (set_aside i stamp p fs) (\<lambda>fs. Inr (ms, fs)))"

definition load_table_chain :: "io \<Rightarrow> string \<Rightarrow> string \<Rightarrow> mfiles \<Rightarrow> (chain \<times> mfiles) res" where
  "load_table_chain i stamp t fs =
     rbind (case fs (index_file t) of
         None \<Rightarrow> Inr (fresh_index t, fs)
       | Some (IndexFile ix) \<Rightarrow> Inr (ix, fs)
       | Some _ \<Rightarrow> rbind (set_aside i stamp (index_file t) fs) (\<lambda>fs. Inr (fresh_index t, fs))) (\<lambda>(ix, fs).
     rbind (foldM (load_manifest i stamp t) ([], fs) (ci_chain ix)) (\<lambda>(ms, fs).
     Inr (\<lparr>ch_table = t, ch_index = ix, ch_manifests = ms\<rparr>, fs)))"

section \<open>The index of a database\<close>

record migration_index =
  mi_db_name :: string
  mi_root :: "(string, chain_summary) table"
  mi_tables :: "(string, chain) table"
  mi_files :: mfiles

definition MIGRATION_INDEX_VERSION :: nat where "MIGRATION_INDEX_VERSION = 2"

definition summary :: "chain_index \<Rightarrow> chain_summary" where
  "summary ix = \<lparr>cs_schema_id = ci_schema_id ix, cs_current = ci_current ix, cs_initial = ci_initial ix\<rparr>"

definition empty_index :: "string \<Rightarrow> string list \<Rightarrow> mfiles \<Rightarrow> migration_index" where
  "empty_index name tables fs = \<lparr>mi_db_name = name,
     mi_root = tbl_insert_all [] (map (\<lambda>t. (t, summary (fresh_index t))) tables),
     mi_tables = tbl_insert_all [] (map (\<lambda>t. (t, fresh_chain t)) tables), mi_files = fs\<rparr>"

definition table_chain :: "migration_index \<Rightarrow> string \<Rightarrow> chain res" where
  "table_chain ix t = ok_or (MigrationError (''table chain '' @ quoted t @ '' not found'')) (tbl_get (mi_tables ix) t)"

definition persist_root :: "io \<Rightarrow> migration_index \<Rightarrow> unit res \<times> migration_index" where
  "persist_root i ix = (case io_ok i [] of Inl e \<Rightarrow> (Inl e, ix) | Inr _ \<Rightarrow>
     let ix = ix\<lparr>mi_root := tbl_insert_all (mi_root ix) (map (\<lambda>(t, c). (t, summary (ch_index c))) (mi_tables ix))\<rparr>;
         f = RootFile MIGRATION_INDEX_VERSION (mi_db_name ix) (mi_root ix)
     in if mi_files ix [''index.json''] = Some f then (Inr (), ix)
        else (case write_file i [''index.json''] f (mi_files ix) of
          Inl e \<Rightarrow> (Inl e, ix) | Inr fs \<Rightarrow> (Inr (), ix\<lparr>mi_files := fs\<rparr>)))"

definition ensure_table_unpersisted :: "io \<Rightarrow> string \<Rightarrow> field_layout \<Rightarrow> migration_index \<Rightarrow> unit res \<times> migration_index" where
  "ensure_table_unpersisted i t layout ix =
     (let ix = (case tbl_get (mi_tables ix) t of
          Some _ \<Rightarrow> ix
        | None \<Rightarrow> ix\<lparr>mi_tables := tbl_insert (mi_tables ix) t (fresh_chain t),
            mi_root := tbl_insert (mi_root ix) t (summary (fresh_index t))\<rparr>);
          c = (case tbl_get (mi_tables ix) t of Some c \<Rightarrow> c | None \<Rightarrow> fresh_chain t)
      in case ensure_layout i c 1 layout (mi_files ix) of (r, fs) \<Rightarrow> (r, ix\<lparr>mi_files := fs\<rparr>))"

definition ensure_table :: "io \<Rightarrow> string \<Rightarrow> field_layout \<Rightarrow> migration_index \<Rightarrow> unit res \<times> migration_index" where
  "ensure_table i t layout ix = (case ensure_table_unpersisted i t layout ix of
     (Inl e, ix) \<Rightarrow> (Inl e, ix) | (Inr _, ix) \<Rightarrow> persist_root i ix)"

definition append_manifest ::
    "io \<Rightarrow> string \<Rightarrow> manifest \<Rightarrow> (string \<times> bytes) list option \<Rightarrow> field_layout option \<Rightarrow> migration_index \<Rightarrow>
      unit res \<times> migration_index" where
  "append_manifest i t m snapshot layout ix = (case table_chain ix t of
      Inl e \<Rightarrow> (Inl e, ix)
    | Inr c \<Rightarrow> (case chain_append i m snapshot c (mi_files ix) of (r, c, fs) \<Rightarrow>
        let ix = ix\<lparr>mi_tables := tbl_insert (mi_tables ix) t c, mi_files := fs\<rparr> in
        case r of
          Inl e \<Rightarrow> (Inl e, ix)
        | Inr _ \<Rightarrow> (case layout of
            None \<Rightarrow> persist_root i ix
          | Some l \<Rightarrow> (case ensure_layout i c (ci_current (ch_index c)) l (mi_files ix) of
              (Inl e, fs) \<Rightarrow> (Inl e, ix\<lparr>mi_files := fs\<rparr>)
            | (Inr _, fs) \<Rightarrow> persist_root i (ix\<lparr>mi_files := fs\<rparr>)))))"

section \<open>Plans\<close>

datatype storage_mode = InlineJson | BlobSidecar

datatype key_decoder = Utf8Key | U64Key

datatype value_decoder = RawPassthrough | JsonValidate | JsonString | JsonValue | Utf8String | BytesAsArray | Base64String

record migration_from =
  fr_db :: string
  fr_table :: string

record migration_to =
  to_db :: string
  to_table :: "string option"
  to_delete_source :: bool

record external_from =
  ef_path :: string
  ef_table :: string
  ef_key :: key_decoder
  ef_value :: value_decoder

datatype migration_source = Clove migration_from | External external_from

record endpoint =
  ep_db :: string
  ep_table :: string
  ep_storage :: storage_mode

record migration_plan =
  mp_kind :: migration_kind
  mp_from :: endpoint
  mp_to :: endpoint
  mp_delete_source :: bool
  mp_external :: "external_from option"

definition inline_endpoint :: "string \<Rightarrow> string \<Rightarrow> endpoint" where
  "inline_endpoint d t = \<lparr>ep_db = d, ep_table = t, ep_storage = InlineJson\<rparr>"

definition resolve_plan :: "migration_source \<Rightarrow> migration_to option \<Rightarrow> migration_plan res" where
  "resolve_plan source dst = (case source of
      External ext \<Rightarrow>
        rbind (ok_or (MigrationError ''external migration requires .to(...)'') dst) (\<lambda>dst.
        rbind (ok_or (MigrationError ''external migration requires to.table'') (to_table dst)) (\<lambda>target.
        Inr \<lparr>mp_kind = ExternalImport, mp_from = inline_endpoint ''external'' (ef_table ext),
          mp_to = inline_endpoint (to_db dst) target, mp_delete_source = False, mp_external = Some ext\<rparr>))
    | Clove src \<Rightarrow>
        (let (db, table, delete_source) = (case dst of
             Some t \<Rightarrow> (to_db t, case to_table t of Some n \<Rightarrow> n | None \<Rightarrow> fr_table src, to_delete_source t)
           | None \<Rightarrow> (fr_db src, fr_table src, False));
             in_place = (fr_db src = db \<and> fr_table src = table)
         in Inr \<lparr>mp_kind = (if in_place then InPlaceEvolve else DataTransfer),
              mp_from = inline_endpoint (fr_db src) (fr_table src), mp_to = inline_endpoint db table,
              mp_delete_source = (if in_place then False else delete_source), mp_external = None\<rparr>))"

section \<open>Reading old rows\<close>

text \<open>A chain is linked when every migration starts where the one before it ended and goes up.\<close>

fun linked :: "nat \<Rightarrow> manifest list \<Rightarrow> nat \<Rightarrow> bool" where
  "linked v [] cur \<longleftrightarrow> v = cur"
| "linked v (m # ms) cur \<longleftrightarrow> sr_version (mf_from m) = v \<and> v < sr_version (mf_to m) \<and> linked (sr_version (mf_to m)) ms cur"

definition chain_ok :: "chain \<Rightarrow> bool" where
  "chain_ok c \<longleftrightarrow> linked (ci_initial (ch_index c)) (ch_manifests c) (ci_current (ch_index c))"

lemma linked_le: "linked v ms cur \<Longrightarrow> v \<le> cur"
  by (induction v ms cur rule: linked.induct) auto

lemma linked_less: "linked v (m # ms) cur \<Longrightarrow> v < cur"
  using linked_le[of "sr_version (mf_to m)" ms cur] by simp

lemma linked_snoc: "linked v (ms @ [m]) cur \<longleftrightarrow>
    linked v ms (sr_version (mf_from m)) \<and> sr_version (mf_from m) < sr_version (mf_to m) \<and> cur = sr_version (mf_to m)"
  by (induction ms arbitrary: v) auto

lemma extended_ok: "chain_ok c \<Longrightarrow> sr_version (mf_from m) = ci_current (ch_index c) \<Longrightarrow>
    sr_version (mf_from m) < sr_version (mf_to m) \<Longrightarrow> chain_ok (extended c m)"
  by (simp add: chain_ok_def extended_def linked_snoc)

text \<open>The migrations a backup version still has to go through.\<close>

definition pending :: "chain \<Rightarrow> nat \<Rightarrow> manifest list" where
  "pending c v = dropWhile (\<lambda>m. vs_to (mf_scope m) < v) (ch_manifests c)"

definition migrate_step :: "registry \<Rightarrow> bytes \<Rightarrow> manifest \<Rightarrow> bytes res" where
  "migrate_step reg bs m = (case get_by_layout reg (mf_from_hash m) (mf_to_hash m) of
     Inl _ \<Rightarrow> Inl (DecoderNotFound (mf_from_hash m) (mf_to_hash m) (mf_id m)) | Inr f \<Rightarrow> f bs)"

definition step_labels :: "string \<Rightarrow> manifest list \<Rightarrow> string list" where
  "step_labels sid ms = map (\<lambda>m. schema_label sid (sr_version (mf_to m))) ms"

lemma covering_pending:
  "covering v ms = (case dropWhile (\<lambda>m. vs_to (mf_scope m) < v) ms of [] \<Rightarrow> None | m # _ \<Rightarrow> Some m)"
  by (induction ms) auto

lemma linked_dropWhile: "linked v ms cur \<Longrightarrow> dropWhile P ms = m # rest \<Longrightarrow>
    v \<le> sr_version (mf_from m) \<and> linked (sr_version (mf_from m)) (m # rest) cur"
proof (induction v ms cur rule: linked.induct)
  case (2 v m' ms cur)
  then show ?case by (cases "P m'") auto
qed simp

lemma normalize_all:
  assumes "linked v ms cur"
  shows "normalize_steps reg sid cur ms (bs, v, path) =
    rbind (foldM (migrate_step reg) bs ms) (\<lambda>bs. Inr (bs, cur, path @ step_labels sid ms))"
  using assms
proof (induction ms arbitrary: v bs path)
  case (Cons m ms)
  have v: "v < cur" "sr_version (mf_from m) = v" and l: "linked (sr_version (mf_to m)) ms cur"
    using Cons.prems linked_less by auto
  have rest: "(if sr_version (mf_to m) = cur then Inr (bs, sr_version (mf_to m), path')
      else normalize_steps reg sid cur ms (bs, sr_version (mf_to m), path')) =
      rbind (foldM (migrate_step reg) bs ms) (\<lambda>bs. Inr (bs, cur, path' @ step_labels sid ms))" for bs path'
  proof (cases ms)
    case Nil
    then show ?thesis using l by (simp add: step_labels_def)
  next
    case (Cons m' ms')
    then show ?thesis using Cons.IH[OF l] linked_less[of _ m' ms' cur] l by simp
  qed
  show ?case
    using v rest by (simp add: migrate_step_def[symmetric] rbind_assoc step_labels_def cong: rbind_cong)
qed (simp add: step_labels_def)

lemma normalize_skips:
  assumes "linked u ms cur" "dropWhile P ms = m # rest"
  shows "normalize_steps reg sid cur ms (bs, sr_version (mf_from m), path) =
    normalize_steps reg sid cur (m # rest) (bs, sr_version (mf_from m), path)"
  using assms
proof (induction ms arbitrary: u)
  case (Cons m' ms)
  show ?case
  proof (cases "P m'")
    case True
    then have d: "dropWhile P ms = m # rest" using Cons.prems(2) by simp
    have l: "linked (sr_version (mf_to m')) ms cur" "sr_version (mf_from m') < sr_version (mf_to m')"
      using Cons.prems(1) by auto
    have "sr_version (mf_to m') \<le> sr_version (mf_from m)" "sr_version (mf_from m) < cur"
      using linked_dropWhile[OF l(1) d] linked_less by auto
    then show ?thesis using Cons.IH[OF l(1) d] l(2) by simp
  next
    case False
    then show ?thesis using Cons.prems(2) by simp
  qed
qed simp

lemma normalize_none: "linked v ms cur \<Longrightarrow> normalize_steps reg sid cur ms (bs, cur, path) = Inr (bs, cur, path)"
  using linked_less by (cases ms) auto

text \<open>C31. In a linked chain the normalized reading of a backup row runs exactly the migrations its version has not been through,
  in order, each with its registered decoder, and reports the path of schema versions; a missing decoder is reported with its migration.
  The row may be restored as it is exactly when no migration is pending.
\<close>

theorem old_rows_normalized:
  assumes "chain_ok c"
  shows "decode_to_json read_json c bs v Normalized reg =
      rbind (foldM (migrate_step reg) bs (pending c v)) (\<lambda>bs'.
      rbind (ok_or Serialization (read_json bs')) (\<lambda>j.
      Inr (j, schema_label (ci_schema_id (ch_index c)) (schema_version_for_backup c v) #
        step_labels (ci_schema_id (ch_index c)) (pending c v)))) \<and>
    (is_restorable c v \<longleftrightarrow> pending c v = [])"
proof (cases "pending c v")
  case Nil
  then have "covering v (ch_manifests c) = None" by (simp only: covering_pending pending_def) simp
  then show ?thesis
    using assms Nil
    by (simp add: decode_to_json_def schema_version_for_backup_def is_restorable_def chain_ok_def
        normalize_none step_labels_def Let_def)
next
  case (Cons m rest)
  then have d: "dropWhile (\<lambda>m. vs_to (mf_scope m) < v) (ch_manifests c) = m # rest" by (simp add: pending_def)
  then have era: "schema_version_for_backup c v = sr_version (mf_from m)"
    by (simp add: schema_version_for_backup_def covering_pending)
  have l: "linked (sr_version (mf_from m)) (m # rest) (ci_current (ch_index c))"
    using linked_dropWhile[OF assms[unfolded chain_ok_def] d] by blast
  have "\<not> is_restorable c v" using linked_less[OF l] era by (simp add: is_restorable_def)
  then show ?thesis
    unfolding decode_to_json_def era Let_def Cons
    using normalize_skips[OF assms[unfolded chain_ok_def] d] normalize_all[OF l]
    by (simp add: rbind_assoc)
qed

definition sample_manifest :: "string \<Rightarrow> nat \<Rightarrow> nat \<Rightarrow> manifest" where
  "sample_manifest i v scope = \<lparr>mf_id = i, mf_parent = None, mf_timestamp = 0, mf_kind = InPlaceEvolve,
     mf_from = \<lparr>sr_db = ''d'', sr_table = ''t'', sr_schema_id = ''t'', sr_version = v\<rparr>,
     mf_to = \<lparr>sr_db = ''d'', sr_table = ''t'', sr_schema_id = ''t'', sr_version = Suc v\<rparr>,
     mf_scope = \<lparr>vs_from = 1, vs_to = scope, vs_table = ''t'', vs_snapshot = None\<rparr>,
     mf_from_hash = [hex_digit v], mf_to_hash = [hex_digit (Suc v)], mf_policy = Fail, mf_rename = None, mf_diff = None\<rparr>"

definition sample_chain :: chain where
  "sample_chain = extended (extended (fresh_chain ''t'') (sample_manifest ''m1'' 1 3)) (sample_manifest ''m2'' 2 5)"

definition sample_registry :: registry where
  "sample_registry = register_step ''1'' ''2'' (\<lambda>bs. Inr (bs @ [2])) (register_step ''2'' ''3'' (\<lambda>bs. Inr (bs @ [3])) [])"

lemmas sample_chain_defs = sample_chain_def sample_manifest_def extended_def fresh_chain_def fresh_index_def

lemma sample_chain_ok: "chain_ok sample_chain"
  by (simp add: sample_chain_defs chain_ok_def)

lemma sample_pending: "pending sample_chain 4 = [sample_manifest ''m2'' 2 5]"
  by (simp add: pending_def sample_chain_defs)

theorem old_rows_normalized_witness:
  "decode_to_json (\<lambda>bs. Some (JArray (map (\<lambda>_. JNull) bs))) sample_chain [9] 4 Normalized sample_registry =
     Inr (JArray [JNull, JNull], [''t@2'', ''t@3'']) \<and> \<not> is_restorable sample_chain 4"
proof -
  have s: "migrate_step sample_registry [9] (sample_manifest ''m2'' 2 5) = Inr [9, 3]"
    by (simp add: migrate_step_def sample_registry_def register_step_def get_by_layout_def sample_manifest_def hex_digit_def)
  have v: "schema_version_for_backup sample_chain 4 = 2"
    by (simp add: schema_version_for_backup_def sample_chain_defs)
  have "ci_schema_id (ch_index sample_chain) = ''t''" "schema_label ''t'' 2 = ''t@2''"
    "step_labels ''t'' [sample_manifest ''m2'' 2 5] = [''t@3'']"
    by (simp add: sample_chain_defs) (code_simp)+
  then show ?thesis
    using old_rows_normalized[OF sample_chain_ok, of "\<lambda>bs. Some (JArray (map (\<lambda>_. JNull) bs))" "[9]" 4 sample_registry]
    by (simp add: sample_pending s v)
qed

section \<open>Chains on disk\<close>

text \<open>The files hold the chain: its index, and under every entry of the index the manifest.\<close>

definition saved :: "mfiles \<Rightarrow> chain \<Rightarrow> bool" where
  "saved fs c \<longleftrightarrow> (fs (index_file (ch_table c)) = Some (IndexFile (ch_index c)) \<or>
       fs (index_file (ch_table c)) = None \<and> ch_index c = fresh_index (ch_table c)) \<and>
     map fst (ci_chain (ch_index c)) = map mf_id (ch_manifests c) \<and>
     (\<forall>m \<in> set (ch_manifests c). fs (manifest_file (ch_table c) (mf_id m)) = Some (ManifestFile m))"

lemma load_manifests:
  assumes "map fst es = map mf_id ms" "\<forall>m \<in> set ms. fs (manifest_file t (mf_id m)) = Some (ManifestFile m)"
  shows "foldM (load_manifest i stamp t) (ms0, fs) es = Inr (ms0 @ ms, fs)"
  using assms
proof (induction es arbitrary: ms ms0)
  case (Cons e es)
  then obtain m ms' where ms: "ms = m # ms'" "fst e = mf_id m" "map fst es = map mf_id ms'" by (cases ms) auto
  then have "load_manifest i stamp t (ms0, fs) e = Inr (ms0 @ [m], fs)"
    using Cons.prems(2) by (simp add: load_manifest_def)
  then show ?case using Cons.IH[OF ms(3)] Cons.prems(2) ms(1) by simp
qed simp

lemma load_saved:
  assumes "saved fs c"
  shows "load_table_chain i stamp (ch_table c) fs = Inr (c, fs)"
proof -
  have "foldM (load_manifest i stamp (ch_table c)) ([], fs) (ci_chain (ch_index c)) = Inr ([] @ ch_manifests c, fs)"
    using assms by (intro load_manifests) (auto simp: saved_def)
  then show ?thesis
    using assms by (cases c) (auto simp: saved_def load_table_chain_def)
qed

lemma path_distinct [simp]:
  "index_file t \<noteq> manifest_file t i" "index_file t \<noteq> snapshot_file t m" "manifest_file t i \<noteq> snapshot_file t m"
  "snapshot_file t m \<noteq> index_file t" "snapshot_file t m \<noteq> manifest_file t i" "manifest_file t i \<noteq> index_file t"
  "manifest_file t i = manifest_file t j \<longleftrightarrow> i = j"
  by (simp_all add: index_file_def manifest_file_def snapshot_file_def table_file_def)

lemma saved_update:
  assumes "saved fs c" "p \<noteq> index_file (ch_table c)" "\<forall>m \<in> set (ch_manifests c). p \<noteq> manifest_file (ch_table c) (mf_id m)"
  shows "saved (fs(p \<mapsto> f)) c"
  using assms by (auto simp: saved_def)

lemma saved_extended:
  assumes "saved fs c" "mf_id m \<notin> mf_id ` set (ch_manifests c)"
  shows "saved (fs(manifest_file (ch_table c) (mf_id m) \<mapsto> ManifestFile m,
    index_file (ch_table c) \<mapsto> IndexFile (ch_index (extended c m)))) (extended c m)"
  using assms by (auto simp: saved_def extended_def rev_image_eqI)

text \<open>C30. Appending a migration to a chain is atomic on disk. When it succeeds, loading the chain again gives the
  extended chain; when any write of it fails, loading gives the chain as it was.
\<close>

theorem append_atomic_on_disk:
  assumes "saved fs c" "mf_id m \<notin> mf_id ` set (ch_manifests c)" "chain_append i m snapshot c fs = (r, c', fs')"
  shows "(r = Inr () \<longrightarrow> c' = extended c m \<and> load_table_chain j stamp (ch_table c) fs' = Inr (extended c m, fs')) \<and>
    (r \<noteq> Inr () \<longrightarrow> load_table_chain j stamp (ch_table c) fs' = Inr (c, fs'))"
proof -
  let ?t = "ch_table c" and ?p = "manifest_file (ch_table c) (mf_id m)"
  define fs1 where "fs1 = (case snapshot of None \<Rightarrow> fs
    | Some es \<Rightarrow> fs(snapshot_file ?t m \<mapsto> SnapshotFile (map (\<lambda>(k, v). (k, hex_encode v)) es)))"
  have s1: "saved fs1 c"
    using assms(1) by (auto simp: fs1_def intro!: saved_update split: option.split)
  have s2: "saved (fs1(?p \<mapsto> ManifestFile m)) c"
    using assms(2) by (intro saved_update[OF s1]) (auto simp: rev_image_eqI)
  note s3 = saved_extended[OF s1 assms(2)]
  have t: "ch_table (extended c m) = ?t" by (simp add: extended_def)
  have cases: "(r \<noteq> Inr () \<and> c' \<in> {c, extended c m} \<and> fs' \<in> {fs, fs1, fs1(?p \<mapsto> ManifestFile m)}) \<or>
    (r = Inr () \<and> c' = extended c m \<and>
      fs' = fs1(?p \<mapsto> ManifestFile m, index_file ?t \<mapsto> IndexFile (ch_index (extended c m))))"
    using assms(3) unfolding fs1_def
    by (auto simp: chain_append_def Let_def io_ok_def write_file_def split: option.splits)
  then show ?thesis
    using load_saved[OF assms(1), of j stamp] load_saved[OF s1, of j stamp] load_saved[OF s2, of j stamp]
      load_saved[OF s3, of j stamp] t by auto
qed

theorem append_atomic_on_disk_witness:
  "load_table_chain (\<lambda>_. None) ''1'' ''t'' (snd (snd (chain_append (\<lambda>_. None) (sample_manifest ''m1'' 1 3)
     (Some [(''k'', [10])]) (fresh_chain ''t'') Map.empty))) =
   Inr (extended (fresh_chain ''t'') (sample_manifest ''m1'' 1 3),
     snd (snd (chain_append (\<lambda>_. None) (sample_manifest ''m1'' 1 3) (Some [(''k'', [10])]) (fresh_chain ''t'') Map.empty)))"
proof -
  let ?r = "chain_append (\<lambda>_. None) (sample_manifest ''m1'' 1 3) (Some [(''k'', [10])]) (fresh_chain ''t'') Map.empty"
  have s: "saved Map.empty (fresh_chain ''t'')" by (simp add: saved_def fresh_chain_def fresh_index_def)
  have n: "mf_id (sample_manifest ''m1'' 1 3) \<notin> mf_id ` set (ch_manifests (fresh_chain ''t''))" by (simp add: fresh_chain_def)
  have ok: "fst ?r = Inr ()" by (simp add: chain_append_def io_ok_def write_file_def Let_def)
  have t: "ch_table (fresh_chain ''t'') = ''t''" by (simp add: fresh_chain_def)
  obtain r c' fs' where r: "?r = (r, c', fs')" by (metis prod_cases3)
  show ?thesis using append_atomic_on_disk[OF s n r, of "\<lambda>_. None" "''1''"] ok r t by simp
qed

section \<open>Additive changes\<close>

definition spec_of :: "string \<times> json \<Rightarrow> field_spec" where
  "spec_of r = \<lparr>fs_name = fst r, fs_json_type = json_type_name (snd r), fs_required = True\<rparr>"

lemma object_fields_sorted:
  assumes "tbl_ok a"
  shows "object_fields (JObject a) = map spec_of a"
proof -
  have "sorted (map fst a)" using assms by (simp add: tbl_ok_def strict_sorted_iff)
  then have "sorted (map fs_name (map spec_of a))" by (simp add: spec_of_def comp_def)
  then have "sort_key fs_name (map spec_of a) = map spec_of a" by (rule sort_key_id_if_sorted)
  moreover have "map (\<lambda>(k, w). \<lparr>fs_name = k, fs_json_type = json_type_name w, fs_required = True\<rparr>) a = map spec_of a"
    by (simp add: spec_of_def split_beta)
  ultimately show ?thesis unfolding object_fields_def by (simp only: json.case)
qed

lemma insert_all_sorted: "tbl_ok (t @ a) \<Longrightarrow> tbl_insert_all t a = t @ a"
proof (induction a arbitrary: t)
  case (Cons r a)
  obtain k v where r: "r = (k, v)" by (cases r)
  have "tbl_insert t k v = t @ [(k, v)]" using Cons.prems r by (intro tbl_insert_last) (auto simp: tbl_ok_append)
  then show ?case using Cons.IH[of "t @ [(k, v)]"] Cons.prems r by (simp add: tbl_insert_all_def)
qed (simp add: tbl_insert_all_def)

lemma tbl_ok_map_snd: "tbl_ok a \<Longrightarrow> tbl_ok (map (\<lambda>r. (fst r, g r)) a)"
  by (simp add: tbl_ok_def comp_def)

lemma tbl_get_map_snd: "tbl_get (map (\<lambda>r. (fst r, g r)) a) k = map_option (\<lambda>v. g (k, v)) (tbl_get a k)"
  by (induction a k rule: tbl_get.induct) auto

lemma field_map_sorted:
  assumes "tbl_ok a"
  shows "field_map (from_json_value hash (JObject a)) = map (\<lambda>r. (fst r, spec_of r)) a"
proof -
  have "map (\<lambda>f. (fs_name f, f)) (map spec_of a) = map (\<lambda>r. (fst r, spec_of r)) a" by (simp add: spec_of_def)
  moreover have "tbl_insert_all [] (map (\<lambda>r. (fst r, spec_of r)) a) = map (\<lambda>r. (fst r, spec_of r)) a"
    using insert_all_sorted[of "[]" "map (\<lambda>r. (fst r, spec_of r)) a"] tbl_ok_map_snd[OF assms, of spec_of] by simp
  ultimately show ?thesis
    by (simp only: field_map_def from_json_value_def object_fields_sorted[OF assms] field_layout.simps)
qed

abbreviation merge_entries :: "(string, json) table \<Rightarrow> (string \<times> json) list \<Rightarrow> (string, json) table" where
  "merge_entries a b \<equiv> foldl (\<lambda>t (k, v). case tbl_get t k of None \<Rightarrow> tbl_insert t k v | Some _ \<Rightarrow> t) a b"

lemma merge_ok: "tbl_ok a \<Longrightarrow> tbl_ok (merge_entries a b)"
  by (induction b arbitrary: a) (auto split: option.split)

lemma merge_get:
  assumes "tbl_ok a"
  shows "tbl_get (merge_entries a b) k = (case tbl_get a k of Some v \<Rightarrow> Some v | None \<Rightarrow> map_of b k)"
  using assms
proof (induction b arbitrary: a)
  case (Cons r b)
  obtain j v where r: "r = (j, v)" by (cases r)
  show ?case
  proof (cases "tbl_get a j")
    case None
    then show ?thesis using Cons.IH[of "tbl_insert a j v"] Cons.prems r by (auto split: option.split)
  next
    case (Some w)
    then show ?thesis using Cons.IH[of a] Cons.prems r by (auto split: option.split)
  qed
qed (simp split: option.split)

text \<open>What \<open>AutoSafe\<close> says of two objects: every field of the first is in the second, with its type.\<close>

lemma auto_safe_types:
  assumes "tbl_ok a" "tbl_ok b" "ld_kind (layout_diff_of (from_json_value hash (JObject a)) (from_json_value hash (JObject b))) = AutoSafe"
    "tbl_get a k = Some v"
  shows "\<exists>w. tbl_get b k = Some w \<and> json_type_name w = json_type_name v"
proof -
  have m: "field_map (from_json_value hash (JObject a)) = map (\<lambda>r. (fst r, spec_of r)) a"
    "field_map (from_json_value hash (JObject b)) = map (\<lambda>r. (fst r, spec_of r)) b"
    using assms(1,2) by (simp_all add: field_map_sorted)
  have removed: "\<forall>k \<in> set (map fst a). tbl_get b k \<noteq> None"
    and types: "\<forall>(k, w) \<in> set b. \<forall>v. tbl_get a k = Some v \<longrightarrow> json_type_name v = json_type_name w"
    using assms(3) unfolding layout_diff_of_def Let_def m
    by (auto simp: tbl_get_map_snd spec_of_def filter_empty_conv List.map_filter_def comp_def split: if_splits)
  have "k \<in> set (map fst a)" using assms(1,4) by (force simp: tbl_get_iff)
  then obtain w where w: "tbl_get b k = Some w" using removed by blast
  then have "(k, w) \<in> set b" using assms(2) by (simp add: tbl_get_iff)
  then show ?thesis using w types assms(4) by auto
qed

text \<open>C32. When the difference of two layouts is safe, filling a row of the old layout with the defaults of the
  template of the new one gives a row whose layout is exactly the new one, and keeps every value the row had.
\<close>

theorem additive_upgrade_exact:
  assumes "tbl_ok a" "tbl_ok b"
    "ld_kind (layout_diff_of (from_json_value hash (JObject a)) (from_json_value hash (JObject b))) = AutoSafe"
  shows "\<exists>c. merge_defaults (JObject a) (JObject b) = JObject c \<and>
    from_json_value hash (JObject c) = from_json_value hash (JObject b) \<and>
    (\<forall>k v. tbl_get a k = Some v \<longrightarrow> tbl_get c k = Some v) \<and>
    (\<forall>k. tbl_get a k = None \<longrightarrow> tbl_get c k = tbl_get b k)"
proof (intro exI conjI)
  let ?c = "merge_entries a b"
  show "merge_defaults (JObject a) (JObject b) = JObject ?c" by simp
  have g: "tbl_get ?c k = (case tbl_get a k of Some v \<Rightarrow> Some v | None \<Rightarrow> tbl_get b k)" for k
    unfolding merge_get[OF assms(1)] map_of_tbl[OF assms(2)] ..
  show "\<forall>k v. tbl_get a k = Some v \<longrightarrow> tbl_get ?c k = Some v" "\<forall>k. tbl_get a k = None \<longrightarrow> tbl_get ?c k = tbl_get b k"
    by (simp_all add: g)
  note ok = merge_ok[OF assms(1), of b]
  have "tbl_get (map (\<lambda>r. (fst r, spec_of r)) ?c) k = tbl_get (map (\<lambda>r. (fst r, spec_of r)) b) k" for k
    using auto_safe_types[OF assms, of k] by (cases "tbl_get a k") (auto simp: tbl_get_map_snd g spec_of_def)
  then have e: "map (\<lambda>r. (fst r, spec_of r)) ?c = map (\<lambda>r. (fst r, spec_of r)) b"
    using tbl.rows_eqI[OF tbl_ok_map_snd[OF ok] tbl_ok_map_snd[OF assms(2)]] by blast
  have "map spec_of ?c = map spec_of b" using arg_cong[OF e, of "map snd"] by (simp add: comp_def)
  then show "from_json_value hash (JObject ?c) = from_json_value hash (JObject b)"
    by (simp add: from_json_value_def object_fields_sorted[OF ok] object_fields_sorted[OF assms(2)])
qed

theorem additive_upgrade_exact_witness:
  "\<exists>c. merge_defaults (JObject [(''id'', JString ''7'')]) (JObject [(''id'', JString []), (''n'', JNull)]) = JObject c \<and>
    tbl_get c ''id'' = Some (JString ''7'') \<and> tbl_get c ''n'' = Some JNull"
proof -
  have "ld_kind (layout_diff_of (from_json_value (concat \<circ> map fs_name) (JObject [(''id'', JString ''7'')]))
      (from_json_value (concat \<circ> map fs_name) (JObject [(''id'', JString []), (''n'', JNull)]))) = AutoSafe"
    by (simp add: layout_diff_of_def field_map_def tbl_insert_all_def from_json_value_def object_fields_def Let_def
        List.map_filter_def)
  from additive_upgrade_exact[OF _ _ this] show ?thesis by (simp add: tbl_ok_Cons)
qed

end
