(* ===== verification/Repository.thy ===== *)
theory Repository
  imports Journal_Safety Migration
begin

text \<open>
  The database manager (\<^verbatim>\<open>src/repository.rs\<close>, \<^verbatim>\<open>src/journal_blob.rs\<close>): one primary file with its change
  log, a cache in front of it and the backup file behind it. An operation takes the manager and
  returns its result with the manager after it: a failed transaction leaves the file as it was, while what
  an operation had committed before a later failure stays. \<open>None\<close> is a call that does not return.

  The cache is a third party's; it may forget an entry at any time. Attachment files are those of the
  plain store, found by table and file name; the text of a system error is not kept. The arguments \<open>h\<close>, \<open>x\<close>
  and \<open>w\<close> are the parameters of the components below, \<open>now\<close> is the clock.
\<close>

record manager =
  m_db :: db
  m_open :: bool
  m_path :: string
  m_cache :: "string \<rightharpoonup> bytes"
  m_has_cache :: bool
  m_retention :: retention
  m_limit :: nat
  m_storage :: "(string \<times> storage_mode) list"
  m_sealed :: "string list"
  m_search_only :: bool
  m_backup :: "backup option"
  m_handle :: nat
  m_blob_enabled :: bool
  m_files :: "(string \<times> string, bytes) table"
  m_events :: "library_event list"
  m_migrations :: migration_index
  m_tables :: "string list"

type_synonym 'a outcome = "('a res \<times> manager) option"

definition op_then :: "'a outcome \<Rightarrow> ('a \<Rightarrow> manager \<Rightarrow> 'b outcome) \<Rightarrow> 'b outcome" where
  "op_then s f = (case s of None \<Rightarrow> None | Some (Inl e, m) \<Rightarrow> Some (Inl e, m) | Some (Inr a, m) \<Rightarrow> f a m)"

definition op_check :: "'a res \<Rightarrow> manager \<Rightarrow> ('a \<Rightarrow> 'b outcome) \<Rightarrow> 'b outcome" where
  "op_check r m f = (case r of Inl e \<Rightarrow> Some (Inl e, m) | Inr a \<Rightarrow> f a)"

lemma op_simps [simp]:
  "op_then None f = None" "op_then (Some (Inl e, m)) f = Some (Inl e, m)" "op_then (Some (Inr a, m)) f = f a m"
  "op_check (Inl e) m g = Some (Inl e, m)" "op_check (Inr a) m g = g a"
  by (simp_all add: op_then_def op_check_def)

section \<open>Guards\<close>

definition table_storage_mode :: "manager \<Rightarrow> string \<Rightarrow> storage_mode" where
  "table_storage_mode m t = (case map_of (m_storage m) t of Some s \<Rightarrow> s | None \<Rightarrow> InlineJson)"

definition is_blob_table :: "manager \<Rightarrow> string \<Rightarrow> bool" where
  "is_blob_table m t \<longleftrightarrow> table_storage_mode m t = BlobSidecar"

definition db_guard :: "manager \<Rightarrow> unit res" where
  "db_guard m = guard_ok (m_open m) (Closed (m_path m))"

definition ensure_writable :: "manager \<Rightarrow> unit res" where
  "ensure_writable m = guard_ok (\<not> m_search_only m) (Validation (''this program holds only the search key, so the '' @
     ''database is read-only; open it with the read key to write''))"

definition sealed_error :: cl_error where
  "sealed_error = Validation (''a table with protected fields is written through its entity '' @
     ''(`Repository::set` or `commit_entities`), not with raw bytes'')"

definition refuse_sealed :: "manager \<Rightarrow> string list \<Rightarrow> unit res" where
  "refuse_sealed m tables = guard_ok (\<forall>t \<in> set tables. t \<notin> set (m_sealed m)) sealed_error"

definition validate_tables :: "string list \<Rightarrow> unit res" where
  "validate_tables ts = rbind (mapM validate_table ts) (\<lambda>_. Inr ())"

section \<open>The cache\<close>

definition cache_key :: "string \<Rightarrow> string \<Rightarrow> string" where
  "cache_key t k = t @ '':'' @ k"

definition cache_put :: "string \<Rightarrow> string \<Rightarrow> bytes \<Rightarrow> manager \<Rightarrow> manager" where
  "cache_put t k v m = (if m_has_cache m then m\<lparr>m_cache := (m_cache m)(cache_key t k \<mapsto> v)\<rparr> else m)"

definition cache_drop :: "string \<Rightarrow> string \<Rightarrow> manager \<Rightarrow> manager" where
  "cache_drop t k m = (if m_has_cache m then m\<lparr>m_cache := (m_cache m)(cache_key t k := None)\<rparr> else m)"

definition cache_after_raw_write :: "string \<Rightarrow> (string \<times> bytes) list \<Rightarrow> manager \<Rightarrow> manager" where
  "cache_after_raw_write t rows m = foldl (\<lambda>m (k, v). cache_put t k v m) m rows"

definition clear_cache :: "manager \<Rightarrow> manager" where
  "clear_cache m = (if m_has_cache m then m\<lparr>m_cache := Map.empty\<rparr> else m)"

section \<open>Writing rows\<close>

definition journal_write :: "heap \<Rightarrow> ext \<Rightarrow> 'a tx_body \<Rightarrow> manager \<Rightarrow> 'a outcome" where
  "journal_write h x f m = op_check (db_guard m) m (\<lambda>_.
     case write_with_sink h x (m_retention m) f (m_db m) of
       None \<Rightarrow> None
     | Some (Inl e) \<Rightarrow> Some (Inl e, m)
     | Some (Inr (out, d, events)) \<Rightarrow> Some (Inr out, m\<lparr>m_db := d, m_events := m_events m @ events\<rparr>))"

type_synonym write_row = "string \<times> string \<times> bytes"

definition write_one :: "heap \<Rightarrow> manager \<Rightarrow> db \<times> change_kind list \<Rightarrow> write_row \<Rightarrow> (db \<times> change_kind list) res" where
  "write_one h m s r = (case s of (d, changes) \<Rightarrow> case r of (t, k, v) \<Rightarrow>
     rbind (guard_ok (is_blob_table m t \<longrightarrow> blob_get d t k \<noteq> None)
       (Validation ''blob metadata requires set_with_blob or a previously written blob'')) (\<lambda>_.
     rbind (copy_bytes h ''write.change_rows'' v) (\<lambda>copy.
     Inr (put_row (open_write d t) t k v, changes @ [Upsert t k copy]))))"

definition delete_one :: "manager \<Rightarrow> db \<times> change_kind list \<times> bool list \<Rightarrow> string \<times> string \<Rightarrow> db \<times> change_kind list \<times> bool list" where
  "delete_one m s r = (case s of (d, changes, removed) \<Rightarrow> case r of (t, k) \<Rightarrow>
     let d = open_write d t;
         exists = get_row d t k \<noteq> None;
         d = del_row d t k;
         changes = (if exists then changes @ [Delete t k] else changes)
     in if is_blob_table m t
        then (case blob_remove d t k changes of (blob, d, changes) \<Rightarrow> (d, changes, removed @ [exists \<or> blob]))
        else (d, changes, removed @ [exists]))"

definition change_body :: "heap \<Rightarrow> manager \<Rightarrow> write_row list \<Rightarrow> (string \<times> string) list \<Rightarrow> bool list tx_body" where
  "change_body h m writes deletes d =
     rbind (mem_reserve h ''write.change_rows'' (length writes + length deletes)) (\<lambda>_.
     rbind (foldM (write_one h m) (d, []) writes) (\<lambda>(d, changes).
     case foldl (delete_one m) (d, changes, []) deletes of (d, changes, removed) \<Rightarrow> Inr (removed, d, changes)))"

definition apply_changes :: "heap \<Rightarrow> ext \<Rightarrow> write_row list \<Rightarrow> (string \<times> string) list \<Rightarrow> manager \<Rightarrow> bool list outcome" where
  "apply_changes h x writes deletes m =
     op_check (validate_tables (map fst writes @ map fst deletes)) m (\<lambda>_.
     op_check (db_guard m) m (\<lambda>_.
     op_check (ensure_writable m) m (\<lambda>_.
     op_then (journal_write h x (change_body h m writes deletes) m) (\<lambda>removed m.
     let m = foldl (\<lambda>m (t, k, v). cache_after_raw_write t [(k, v)] m) m writes;
         m = foldl (\<lambda>m (t, k). cache_drop t k m) m deletes
     in Some (Inr removed, m)))))"

definition commit_batch_atomic :: "heap \<Rightarrow> ext \<Rightarrow> write_row list \<Rightarrow> (string \<times> string) list \<Rightarrow> manager \<Rightarrow> unit outcome" where
  "commit_batch_atomic h x writes deletes m = op_check (refuse_sealed m (map fst writes)) m (\<lambda>_.
     op_then (apply_changes h x writes deletes m) (\<lambda>_ m. Some (Inr (), m)))"

text \<open>A row made by \<open>Repository::prepare\<close>; its origin is the handle of the database it was made for.\<close>

record prepared_row =
  pr_table :: string
  pr_key :: string
  pr_bytes :: bytes
  pr_origin :: nat

definition prepared_write :: "manager \<Rightarrow> prepared_row \<Rightarrow> write_row res" where
  "prepared_write m r =
     rbind (guard_ok (pr_origin r = m_handle m)
       (Validation (''a prepared row of table '' @ quoted (pr_table r) @ '' was made for another database''))) (\<lambda>_.
     rbind (guard_ok (\<not> is_blob_table m (pr_table r))
       (Validation (''table '' @ quoted (pr_table r) @
         '' keeps attachments: a prepared row cannot be written to it (use `set_with_blob`)''))) (\<lambda>_.
     Inr (pr_table r, pr_key r, pr_bytes r)))"

definition commit_atomic ::
    "heap \<Rightarrow> ext \<Rightarrow> prepared_row list \<Rightarrow> write_row list \<Rightarrow> (string \<times> string) list \<Rightarrow> manager \<Rightarrow> unit outcome" where
  "commit_atomic h x prepared writes deletes m =
     op_check (refuse_sealed m (map fst writes)) m (\<lambda>_.
     op_check (mapM (prepared_write m) prepared) m (\<lambda>rows.
     op_then (apply_changes h x (rows @ writes) deletes m) (\<lambda>_ m. Some (Inr (), m))))"

text \<open>
  The two loops of \<open>commit_batch_prepared\<close>. With a limit of zero they would never end; the constructor keeps
  the limit at one or more.
\<close>

partial_function (option) commit_writes :: "heap \<Rightarrow> ext \<Rightarrow> write_row list \<Rightarrow> manager \<Rightarrow> unit outcome" where
  "commit_writes h x writes m =
     (if writes = [] then Some (Inr (), m)
      else case apply_changes h x (take (m_limit m) writes) [] m of
        None \<Rightarrow> None
      | Some (Inl e, m') \<Rightarrow> Some (Inl e, m')
      | Some (Inr _, m') \<Rightarrow> commit_writes h x (drop (m_limit m) writes) m')"

partial_function (option) commit_deletes :: "heap \<Rightarrow> ext \<Rightarrow> (string \<times> string) list \<Rightarrow> manager \<Rightarrow> unit outcome" where
  "commit_deletes h x deletes m =
     (if deletes = [] then Some (Inr (), m)
      else case apply_changes h x [] (take (m_limit m) deletes) m of
        None \<Rightarrow> None
      | Some (Inl e, m') \<Rightarrow> Some (Inl e, m')
      | Some (Inr _, m') \<Rightarrow> commit_deletes h x (drop (m_limit m) deletes) m')"

definition commit_batch_prepared ::
    "heap \<Rightarrow> ext \<Rightarrow> write_row list \<Rightarrow> (string \<times> string) list \<Rightarrow> manager \<Rightarrow> unit outcome" where
  "commit_batch_prepared h x writes deletes m =
     (if m_limit m < length writes + length deletes
      then op_then (commit_writes h x writes m) (\<lambda>_ m. commit_deletes h x deletes m)
      else op_then (apply_changes h x writes deletes m) (\<lambda>_ m. Some (Inr (), m)))"

definition commit_batch :: "heap \<Rightarrow> ext \<Rightarrow> write_row list \<Rightarrow> (string \<times> string) list \<Rightarrow> manager \<Rightarrow> unit outcome" where
  "commit_batch h x writes deletes m =
     op_check (refuse_sealed m (map fst writes)) m (\<lambda>_. commit_batch_prepared h x writes deletes m)"

section \<open>Attachments\<close>

definition blob_store :: "manager \<Rightarrow> unit res" where
  "blob_store m = guard_ok (m_blob_enabled m) (Validation ''blob storage not enabled on this database'')"

definition bad_component :: "string \<Rightarrow> bool" where
  "bad_component s \<longleftrightarrow> s = [] \<or> CHR ''/'' \<in> set s \<or> CHR 0x5C \<in> set s \<or> CHR '':'' \<in> set s \<or> s = ''..'' \<or> s = ''.''"

definition open_blob_version :: "manager \<Rightarrow> string \<Rightarrow> string \<Rightarrow> bytes res" where
  "open_blob_version m t blob =
     rbind (guard_ok (\<not> bad_component t \<and> \<not> bad_component blob) (Validation ''invalid blob path component'')) (\<lambda>_.
     rbind (blob_store m) (\<lambda>_. ok_or (IoError []) (tbl_get (m_files m) (t, blob))))"

definition open_blob_version_row :: "manager \<Rightarrow> string \<Rightarrow> string \<Rightarrow> string \<Rightarrow> bytes res" where
  "open_blob_version_row m t row blob = open_blob_version m t blob"

definition open_current_blob :: "manager \<Rightarrow> string \<Rightarrow> string \<Rightarrow> bytes res" where
  "open_current_blob m t k = rbind (db_guard m) (\<lambda>_.
     rbind (ok_or (NotFound ''blob reference'') (blob_get (m_db m) t k)) (\<lambda>r. open_blob_version_row m t k (blob_id r)))"

text \<open>\<open>id\<close> is the new name, \<open>__v_\<close> and a fresh identifier.\<close>

definition prepare_blob :: "string \<Rightarrow> string \<Rightarrow> string \<Rightarrow> bytes \<Rightarrow> manager \<Rightarrow> (blob_ref \<times> manager) res" where
  "prepare_blob uuid t row bs m =
     rbind (validate_table t) (\<lambda>_.
     rbind (guard_ok (\<not> bad_component t) (Validation ''invalid blob table path'')) (\<lambda>_.
     rbind (guard_ok (is_blob_table m t) (Validation ''not a blob table'')) (\<lambda>_.
     rbind (blob_store m) (\<lambda>_.
     let name = ''__v_'' @ uuid
     in Inr (\<lparr>blob_id = name, blob_size = length bs\<rparr>, m\<lparr>m_files := tbl_insert (m_files m) (t, name) bs\<rparr>)))))"

definition publish_body :: "string \<Rightarrow> string \<Rightarrow> blob_ref \<Rightarrow> bytes option \<Rightarrow> unit tx_body" where
  "publish_body t k r metadata d = (case blob_put d t k r [] of (d, changes) \<Rightarrow>
     case metadata of
       None \<Rightarrow> Inr ((), d, changes)
     | Some v \<Rightarrow> Inr ((), put_row (open_write d t) t k v, changes @ [Upsert t k v]))"

definition publish_blob :: "heap \<Rightarrow> ext \<Rightarrow> string \<Rightarrow> string \<Rightarrow> string \<Rightarrow> bytes \<Rightarrow> bytes option \<Rightarrow> manager \<Rightarrow> unit outcome" where
  "publish_blob h x uuid t k bs metadata m = op_check (prepare_blob uuid t k bs m) m (\<lambda>(r, m).
     op_then (journal_write h x (publish_body t k r metadata) m) (\<lambda>_ m.
     Some (Inr (), case metadata of None \<Rightarrow> m | Some v \<Rightarrow> cache_put t k v m)))"

definition blob_row_ok :: "manager \<Rightarrow> db \<Rightarrow> string \<Rightarrow> string \<Rightarrow> unit res" where
  "blob_row_ok m d t k =
     rbind (ok_or (Validation ''blob metadata has no immutable file'') (blob_get d t k)) (\<lambda>r.
     rbind (open_blob_version_row m t k (blob_id r)) (\<lambda>bs.
     guard_ok (length bs = blob_size r) (Validation ''blob size differs from reference'')))"

definition validate_blob_rows :: "manager \<Rightarrow> string \<Rightarrow> db \<times> change_kind list \<Rightarrow> (db \<times> change_kind list) res" where
  "validate_blob_rows m t s = (case s of (d, changes) \<Rightarrow>
     if \<not> is_blob_table m t then Inr (d, changes) else
     let d = open_write d t in
     rbind (mapM (\<lambda>(k, _). blob_row_ok m d t k) (rows_of d t)) (\<lambda>_.
     Inr (foldl (\<lambda>(d', changes) ((u, k), _).
         if u = t \<and> get_row d t k = None then snd (blob_remove d' t k changes) else (d', changes))
       (d, changes) (blob_refs d))))"

text \<open>The copy reads the current attachment of a row of another database, or of this one.\<close>

definition prepare_copy_from ::
    "string \<Rightarrow> manager \<Rightarrow> string \<Rightarrow> string \<Rightarrow> string \<Rightarrow> string \<Rightarrow> manager \<Rightarrow> (blob_ref \<times> manager) res" where
  "prepare_copy_from uuid source source_table source_key t row m =
     rbind (validate_table t) (\<lambda>_.
     rbind (guard_ok (is_blob_table m t \<and> \<not> bad_component t) (Validation ''invalid blob table'')) (\<lambda>_.
     rbind (open_current_blob source source_table source_key) (\<lambda>bs.
     rbind (blob_store m) (\<lambda>_.
     let name = ''__v_'' @ uuid
     in Inr (\<lparr>blob_id = name, blob_size = length bs\<rparr>, m\<lparr>m_files := tbl_insert (m_files m) (t, name) bs\<rparr>)))))"

definition copy_blob ::
    "heap \<Rightarrow> ext \<Rightarrow> string \<Rightarrow> manager \<Rightarrow> string \<Rightarrow> string \<Rightarrow> string \<Rightarrow> string \<Rightarrow> manager \<Rightarrow> unit outcome" where
  "copy_blob h x uuid source t k dest_table dest_id dest =
     op_check (prepare_copy_from uuid source t k dest_table dest_id dest) dest (\<lambda>(r, dest).
     journal_write h x (publish_body dest_table dest_id r None) dest)"

definition write_blob :: "heap \<Rightarrow> ext \<Rightarrow> string \<Rightarrow> string \<Rightarrow> string \<Rightarrow> bytes \<Rightarrow> manager \<Rightarrow> unit outcome" where
  "write_blob h x uuid t k bs m = publish_blob h x uuid t k bs None m"

definition delete_blob :: "heap \<Rightarrow> ext \<Rightarrow> string \<Rightarrow> string \<Rightarrow> manager \<Rightarrow> bool outcome" where
  "delete_blob h x t k m = op_then (apply_changes h x [] [(t, k)] m) (\<lambda>removed m. Some (Inr (hd removed), m))"

section \<open>Whole tables\<close>

definition reset_name :: "nat \<Rightarrow> string" where
  "reset_name g = ''__reset_'' @ show_nat g"

definition capture_reset :: "string \<Rightarrow> db \<times> change_kind list \<Rightarrow> (db \<times> change_kind list) res" where
  "capture_reset t s = (case s of (d, changes) \<Rightarrow>
     rbind (number d ''reset_generation'') (\<lambda>g.
     rbind (ok_or (Validation ''reset generation exhausted'') (checked_add_u64 g 1)) (\<lambda>g.
     let d = put_number d ''reset_generation'' g;
         snapshot = reset_name g;
         d = open_write (open_write d t) snapshot;
         d = set_rows d snapshot (tbl_insert_all (rows_of d snapshot) (rows_of d t));
         image = snapshot @ ''_blobs'';
         old = (case tbl_get (reset_blobs d) image of Some rows \<Rightarrow> rows | None \<Rightarrow> []);
         d = d\<lparr>reset_blobs := tbl_insert (reset_blobs d) image
           (tbl_insert_all old (filter (\<lambda>((u, _), _). u = t) (blob_refs d)))\<rparr>
     in Inr (d, changes @ [TableReset t snapshot]))))"

definition replace_body :: "manager \<Rightarrow> string \<Rightarrow> (string \<times> bytes) list \<Rightarrow> unit tx_body" where
  "replace_body m t entries d =
     (let d = open_write (drop_table d t) t;
          d = set_rows d t (tbl_insert_all (rows_of d t) entries)
      in rbind (validate_blob_rows m t (d, [])) (\<lambda>s.
         rbind (capture_reset t s) (\<lambda>(d, changes). Inr ((), d, changes))))"

definition replace_table :: "heap \<Rightarrow> ext \<Rightarrow> string \<Rightarrow> (string \<times> bytes) list \<Rightarrow> manager \<Rightarrow> unit outcome" where
  "replace_table h x t entries m =
     op_check (refuse_sealed m [t]) m (\<lambda>_.
     op_check (ensure_writable m) m (\<lambda>_.
     op_check (validate_table t) m (\<lambda>_.
     op_then (journal_write h x (replace_body m t entries) m) (\<lambda>_ m. Some (Inr (), clear_cache m)))))"

definition rewrite_delete :: "manager \<Rightarrow> db \<times> change_kind list \<Rightarrow> string \<times> string \<Rightarrow> db \<times> change_kind list" where
  "rewrite_delete m s r = (case s of (d, changes) \<Rightarrow> case r of (t, k) \<Rightarrow>
     let d = del_row (open_write d t) t k
     in if is_blob_table m t then snd (blob_remove d t k changes) else (d, changes))"

definition changed_tables :: "write_row list \<Rightarrow> (string \<times> string) list \<Rightarrow> string list" where
  "changed_tables writes deletes = map fst (tbl_insert_all [] (map (\<lambda>t. (t, ())) (map fst writes @ map fst deletes)))"

definition rewrite_body ::
    "manager \<Rightarrow> write_row list \<Rightarrow> (string \<times> string) list \<Rightarrow> (string \<times> string \<times> blob_ref) list \<Rightarrow> unit tx_body" where
  "rewrite_body m writes deletes prepared d =
     (let (d, changes) = foldl (rewrite_delete m) (d, []) deletes;
          (d, changes) = foldl (\<lambda>(d, changes) (t, k, r). blob_put d t k r changes) (d, changes) prepared;
          d = foldl (\<lambda>d (t, k, v). put_row (open_write d t) t k v) d writes
      in rbind (foldM (\<lambda>s t. rbind (validate_blob_rows m t s) (capture_reset t)) (d, changes) (changed_tables writes deletes))
        (\<lambda>(d, changes). Inr ((), d, changes)))"

fun prepare_blobs ::
    "(string \<times> write_row) list \<Rightarrow> (string \<times> string \<times> blob_ref) list \<Rightarrow> manager \<Rightarrow>
      (string \<times> string \<times> blob_ref) list res \<times> manager" where
  "prepare_blobs [] out m = (Inr out, m)"
| "prepare_blobs ((uuid, t, k, v) # bs) out m = (case prepare_blob uuid t k v m of
     Inl e \<Rightarrow> (Inl e, m) | Inr (r, m') \<Rightarrow> prepare_blobs bs (out @ [(t, k, r)]) m')"

fun prepare_copies ::
    "(string \<times> string \<times> string \<times> manager \<times> string \<times> string) list \<Rightarrow> (string \<times> string \<times> blob_ref) list \<Rightarrow> manager \<Rightarrow>
      (string \<times> string \<times> blob_ref) list res \<times> manager" where
  "prepare_copies [] out m = (Inr out, m)"
| "prepare_copies ((uuid, t, k, source, u, j) # cs) out m = (case prepare_copy_from uuid source u j t k m of
     Inl e \<Rightarrow> (Inl e, m) | Inr (r, m') \<Rightarrow> prepare_copies cs (out @ [(t, k, r)]) m')"

text \<open>Every blob and copy comes with the fresh identifier of its file.\<close>

definition rewrite_tables_with_blobs ::
    "heap \<Rightarrow> ext \<Rightarrow> write_row list \<Rightarrow> (string \<times> string) list \<Rightarrow> (string \<times> write_row) list \<Rightarrow>
      (string \<times> string \<times> string \<times> manager \<times> string \<times> string) list \<Rightarrow> manager \<Rightarrow> unit outcome" where
  "rewrite_tables_with_blobs h x writes deletes blobs copies m =
     op_check (ensure_writable m) m (\<lambda>_.
     op_then (Some (prepare_blobs blobs [] m)) (\<lambda>prepared m.
     op_then (Some (prepare_copies copies prepared m)) (\<lambda>prepared m.
     op_check (validate_tables (changed_tables writes deletes)) m (\<lambda>_.
     op_then (journal_write h x (rewrite_body m writes deletes prepared) m) (\<lambda>_ m.
     Some (Inr (), clear_cache m))))))"

definition rewrite_tables :: "heap \<Rightarrow> ext \<Rightarrow> write_row list \<Rightarrow> (string \<times> string) list \<Rightarrow> manager \<Rightarrow> unit outcome" where
  "rewrite_tables h x writes deletes m = op_check (refuse_sealed m (map fst writes)) m (\<lambda>_.
     rewrite_tables_with_blobs h x writes deletes [] [] m)"

section \<open>Reading rows\<close>

definition mget :: "string \<Rightarrow> string \<Rightarrow> string \<Rightarrow> manager \<Rightarrow> bytes option res \<times> manager" where
  "mget def t k m = (case db_guard m of
      Inl e \<Rightarrow> (Inl e, m)
    | Inr _ \<Rightarrow> (case (if m_has_cache m then m_cache m (cache_key t k) else None) of
        Some v \<Rightarrow> (Inr (Some v), m)
      | None \<Rightarrow> (case open_read (m_db m) def of
          Inl e \<Rightarrow> (Inl e, m)
        | Inr rows \<Rightarrow> (case tbl_get rows k of
            Some v \<Rightarrow> (Inr (Some v), cache_put t k v m)
          | None \<Rightarrow> (Inr None, m)))))"

definition get_uncached :: "string \<Rightarrow> string \<Rightarrow> manager \<Rightarrow> bytes option res" where
  "get_uncached def k m = rbind (db_guard m) (\<lambda>_. rbind (open_read (m_db m) def) (\<lambda>rows. Inr (tbl_get rows k)))"

definition get_raw :: "string \<Rightarrow> string \<Rightarrow> manager \<Rightarrow> bytes option res \<times> manager" where
  "get_raw t k m = mget t t k m"

definition mlist :: "string \<Rightarrow> manager \<Rightarrow> bytes list res" where
  "mlist def m = rbind (db_guard m) (\<lambda>_. rbind (open_read (m_db m) def) (\<lambda>rows. Inr (map snd rows)))"

definition list_entries :: "string \<Rightarrow> manager \<Rightarrow> (string \<times> bytes) list res" where
  "list_entries t m = rbind (db_guard m) (\<lambda>_. open_read (m_db m) t)"

definition count_keys :: "string \<Rightarrow> manager \<Rightarrow> nat res" where
  "count_keys t m = rbind (db_guard m) (\<lambda>_. rbind (open_read (m_db m) t) (\<lambda>rows. Inr (length rows)))"

definition mclose :: "manager \<Rightarrow> bool \<times> manager" where
  "mclose m = (m_open m, m\<lparr>m_open := False, m_backup := map_option (\<lambda>b. b\<lparr>bk_open := False\<rparr>) (m_backup m)\<rparr>)"

section \<open>Single rows, with history\<close>

definition no_backup :: cl_error where
  "no_backup = NotFound ''backup not configured''"

definition need_backup :: "cl_error \<Rightarrow> manager \<Rightarrow> (backup \<Rightarrow> 'a outcome) \<Rightarrow> 'a outcome" where
  "need_backup e m f = (case m_backup m of None \<Rightarrow> Some (Inl e, m) | Some b \<Rightarrow> f b)"

text \<open>A record is written to the backup when there is one; a failure leaves the primary file as it is by then.\<close>

definition record_in :: "(backup \<Rightarrow> backup res) \<Rightarrow> manager \<Rightarrow> unit outcome" where
  "record_in f m = (case m_backup m of
      None \<Rightarrow> Some (Inr (), m)
    | Some b \<Rightarrow> (case f b of Inl e \<Rightarrow> Some (Inl e, m) | Inr b' \<Rightarrow> Some (Inr (), m\<lparr>m_backup := Some b'\<rparr>)))"

definition usize_max :: nat where "usize_max = 2 ^ 64 - 1"

definition set_prepared ::
    "heap \<Rightarrow> ext \<Rightarrow> wire \<Rightarrow> clock \<Rightarrow> string \<Rightarrow> string \<Rightarrow> string \<Rightarrow> bytes \<Rightarrow> manager \<Rightarrow> unit outcome" where
  "set_prepared h x w now def t k v m =
     op_check (guard_ok (def = t) (Validation ''table name mismatch'')) m (\<lambda>_.
     op_check (if m_backup m \<noteq> None
       then mem_probe h ''backup.encode_record'' (min usize_max (min usize_max (length v * 2) + 1024)) else Inr ()) m (\<lambda>_.
     op_check (copy_bytes h ''write.single_row'' v) m (\<lambda>copy.
     op_then (apply_changes h x [(t, k, copy)] [] m) (\<lambda>_ m.
     record_in (record_set w h now def t k v) m))))"

definition mset :: "heap \<Rightarrow> ext \<Rightarrow> wire \<Rightarrow> clock \<Rightarrow> string \<Rightarrow> string \<Rightarrow> string \<Rightarrow> bytes \<Rightarrow> manager \<Rightarrow> unit outcome" where
  "mset h x w now def t k v m = op_check (refuse_sealed m [t]) m (\<lambda>_. set_prepared h x w now def t k v m)"

definition mdelete :: "heap \<Rightarrow> ext \<Rightarrow> wire \<Rightarrow> clock \<Rightarrow> string \<Rightarrow> string \<Rightarrow> string \<Rightarrow> manager \<Rightarrow> bool outcome" where
  "mdelete h x w now def t k m =
     op_check (guard_ok (def = t) (Validation ''table name mismatch'')) m (\<lambda>_.
     op_then (apply_changes h x [] [(t, k)] m) (\<lambda>removed m.
     let found = hd removed in
     if found then op_then (record_in (record_delete w h now def t k) m) (\<lambda>_ m. Some (Inr found, m))
     else Some (Inr found, m)))"

definition delete_raw :: "heap \<Rightarrow> ext \<Rightarrow> wire \<Rightarrow> clock \<Rightarrow> string \<Rightarrow> string \<Rightarrow> manager \<Rightarrow> unit outcome" where
  "delete_raw h x w now t k m = op_then (mdelete h x w now t t k m) (\<lambda>_ m. Some (Inr (), m))"

section \<open>Restoring\<close>

definition chain_restorable :: "manager \<Rightarrow> string \<Rightarrow> nat \<Rightarrow> unit res" where
  "chain_restorable m t version = (case table_chain (m_migrations m) t of
     Inl _ \<Rightarrow> Inr () | Inr c \<Rightarrow> assert_restorable c version)"

definition record_by_version :: "wire \<Rightarrow> string \<Rightarrow> string \<Rightarrow> nat \<Rightarrow> backup \<Rightarrow> backup_record res" where
  "record_by_version w def k version b = rbind (record_at w def def (backup_key k version) b) (\<lambda>r.
     ok_or (NotFound (''version '' @ show_nat version @ '' not found'')) r)"

definition restore_by_version ::
    "heap \<Rightarrow> ext \<Rightarrow> wire \<Rightarrow> clock \<Rightarrow> string \<Rightarrow> string \<Rightarrow> string \<Rightarrow> nat \<Rightarrow> manager \<Rightarrow> unit outcome" where
  "restore_by_version h x w now def t k version m = need_backup no_backup m (\<lambda>b.
     op_check (chain_restorable m t version) m (\<lambda>_.
     op_check (record_by_version w def k version b) m (\<lambda>r.
     let data = live_data r;
         bulk = (if md_operation r = DeleteOp then None else md_bulk_id r)
     in case data of
          Some v \<Rightarrow> op_then (apply_changes h x [(t, k, v)] [] m) (\<lambda>_ m.
            record_in (record_restore w h now def t k version data bulk) (cache_put t k v m))
        | None \<Rightarrow> op_then (apply_changes h x [] [(t, k)] m) (\<lambda>_ m.
            record_in (record_restore w h now def t k version data bulk) (cache_drop t k m)))))"

definition get_by_version :: "wire \<Rightarrow> string \<Rightarrow> string \<Rightarrow> nat \<Rightarrow> manager \<Rightarrow> backup_record res" where
  "get_by_version w def k version m = rbind (ok_or OptionNone (m_backup m)) (record_by_version w def k version)"

definition get_version_by_at ::
    "(cl_error \<Rightarrow> string) \<Rightarrow> wire \<Rightarrow> string \<Rightarrow> string \<Rightarrow> int \<Rightarrow> manager \<Rightarrow> backup_record res" where
  "get_version_by_at display w def k timestamp m = rbind (ok_or no_backup (m_backup m)) (\<lambda>b.
     rbind (history display w def k b) (\<lambda>rs.
     ok_or (NotFound ''no record at this timestamp'') (last_before timestamp rs)))"

definition restore_at ::
    "(cl_error \<Rightarrow> string) \<Rightarrow> heap \<Rightarrow> ext \<Rightarrow> wire \<Rightarrow> clock \<Rightarrow> string \<Rightarrow> string \<Rightarrow> string \<Rightarrow> int \<Rightarrow> manager \<Rightarrow> unit outcome" where
  "restore_at display h x w now def t k timestamp m = need_backup no_backup m (\<lambda>b.
     op_check (history display w def k b) m (\<lambda>rs.
     op_check (ok_or (NotFound ''no record at this timestamp'') (last_before timestamp rs)) m (\<lambda>r.
     restore_by_version h x w now def t k (md_version r) m)))"

definition set_bulk :: "clock \<Rightarrow> string \<Rightarrow> string \<Rightarrow> (string \<times> nat) list \<Rightarrow> manager \<Rightarrow> string outcome" where
  "set_bulk now uuid t entries m =
     op_check (ensure_writable m) m (\<lambda>_. need_backup no_backup m (\<lambda>b.
     op_check (write_bulk now uuid t entries b) m (\<lambda>(i, b). Some (Inr i, m\<lparr>m_backup := Some b\<rparr>))))"

fun restore_rows :: "heap \<Rightarrow> ext \<Rightarrow> string \<Rightarrow> (string \<times> bytes option) list \<Rightarrow> manager \<Rightarrow> unit outcome" where
  "restore_rows h x t [] m = Some (Inr (), m)"
| "restore_rows h x t ((k, data) # rows) m = op_then (case data of
       Some v \<Rightarrow> apply_changes h x [(t, k, v)] [] m | None \<Rightarrow> apply_changes h x [] [(t, k)] m)
     (\<lambda>_ m. restore_rows h x t rows m)"

definition restore_bulk ::
    "heap \<Rightarrow> ext \<Rightarrow> wire \<Rightarrow> clock \<Rightarrow> string \<Rightarrow> string \<Rightarrow> string \<Rightarrow> manager \<Rightarrow> unit outcome" where
  "restore_bulk h x w now def t bulk_id m = need_backup no_backup m (\<lambda>b.
     op_check (bulk_at t bulk_id b) m (\<lambda>bulk.
     op_check (mapM (\<lambda>e. chain_restorable m t (be_version e)) (bl_entries bulk)) m (\<lambda>_.
     case backup_restore_bulk w h now def t bulk_id b of
       (Inl e, b) \<Rightarrow> Some (Inl e, m\<lparr>m_backup := Some b\<rparr>)
     | (Inr results, b) \<Rightarrow> restore_rows h x t results (m\<lparr>m_backup := Some b\<rparr>))))"

definition mcurrent_version :: "string \<Rightarrow> string \<Rightarrow> manager \<Rightarrow> nat res" where
  "mcurrent_version t k m = rbind (ok_or no_backup (m_backup m)) (current_version t k)"

definition mhistory :: "(cl_error \<Rightarrow> string) \<Rightarrow> wire \<Rightarrow> string \<Rightarrow> string \<Rightarrow> manager \<Rightarrow> backup_record list res" where
  "mhistory display w def k m = rbind (ok_or no_backup (m_backup m)) (history display w def k)"

definition rewrite_backup_table :: "wire \<Rightarrow> heap \<Rightarrow> clock \<Rightarrow> string \<Rightarrow> string \<Rightarrow> manager \<Rightarrow> unit outcome" where
  "rewrite_backup_table w h now src dst m = record_in (rewrite_table_name w h now src dst) m"

text \<open>\<open>assert_target_available\<close> of \<^verbatim>\<open>src/migration/guard.rs\<close>, and the storage modes of a plan.\<close>

definition assert_target_available :: "migration_plan \<Rightarrow> manager \<Rightarrow> conflict_policy \<Rightarrow> unit res" where
  "assert_target_available p target policy =
     (if mp_kind p = InPlaceEvolve then Inr () else
      rbind (count_keys (ep_table (mp_to p)) target) (\<lambda>count.
      if count = 0 then Inr () else case policy of
        Fail \<Rightarrow> Inl (TargetTableOccupied (ep_db (mp_to p)) (ep_table (mp_to p)) count)
      | _ \<Rightarrow> Inr ()))"

definition apply_storage_modes :: "migration_plan \<Rightarrow> manager option \<Rightarrow> manager \<Rightarrow> migration_plan" where
  "apply_storage_modes p source target =
     (let p = (case (mp_external p, source) of
          (None, Some src) \<Rightarrow> p\<lparr>mp_from := (mp_from p)\<lparr>ep_storage := table_storage_mode src (ep_table (mp_from p))\<rparr>\<rparr>
        | _ \<Rightarrow> p)
      in p\<lparr>mp_to := (mp_to p)\<lparr>ep_storage := table_storage_mode target (ep_table (mp_to p))\<rparr>\<rparr>)"

end
