(* ===== verification/Repository_Tx.thy ===== *)
theory Repository_Tx
  imports Repository
begin

text \<open>
  What the transactions of the database manager promise to the readers of the change log. The abstract store is
  what an application can see of a database: its rows and the references of its attachments. Every
  transaction keeps the log, and replaying the effects it reports over the abstract store it found gives
  the abstract store it leaves: the change log is a complete account. Table images are read from the
  committed transaction.
\<close>

section \<open>The abstract store\<close>

record store =
  st_rows :: "string \<Rightarrow> string \<Rightarrow> bytes option"
  st_refs :: "string \<Rightarrow> string \<Rightarrow> blob_ref option"

definition visible :: "db \<Rightarrow> store" where
  "visible d = \<lparr>st_rows = (\<lambda>t. if starts_with_reserved t then Map.empty else get_row d t), st_refs = blob_get d\<rparr>"

definition image_rows :: "db \<Rightarrow> string \<Rightarrow> string \<Rightarrow> bytes option" where
  "image_rows d s = get_row d s"

definition image_refs :: "db \<Rightarrow> string \<Rightarrow> string \<Rightarrow> string \<Rightarrow> blob_ref option" where
  "image_refs d s t k = (case tbl_get (reset_blobs d) (s @ ''_blobs'') of Some rows \<Rightarrow> tbl_get rows (t, k) | None \<Rightarrow> None)"

fun replay_change :: "db \<Rightarrow> store \<Rightarrow> change_kind \<Rightarrow> store" where
  "replay_change d s (Upsert t k v) = s\<lparr>st_rows := (st_rows s)(t := (st_rows s t)(k \<mapsto> v))\<rparr>"
| "replay_change d s (Delete t k) = s\<lparr>st_rows := (st_rows s)(t := (st_rows s t)(k := None))\<rparr>"
| "replay_change d s (BlobPut t k b n) = s\<lparr>st_refs := (st_refs s)(t := (st_refs s t)(k \<mapsto> \<lparr>blob_id = b, blob_size = n\<rparr>))\<rparr>"
| "replay_change d s (BlobDelete t k b n) = s\<lparr>st_refs := (st_refs s)(t := (st_refs s t)(k := None))\<rparr>"
| "replay_change d s (TableReset t i) = s\<lparr>st_rows := (st_rows s)(t := image_rows d i), st_refs := (st_refs s)(t := image_refs d i t)\<rparr>"

definition replay :: "db \<Rightarrow> change_kind list \<Rightarrow> store \<Rightarrow> store" where
  "replay d es s = foldl (replay_change d) s es"

definition agree_off :: "string set \<Rightarrow> store \<Rightarrow> store \<Rightarrow> bool" where
  "agree_off T a b \<longleftrightarrow> (\<forall>t. t \<notin> T \<longrightarrow> st_rows a t = st_rows b t \<and> st_refs a t = st_refs b t)"

lemma agree_off_empty: "agree_off {} a b \<longleftrightarrow> a = b"
  by (auto simp: agree_off_def fun_eq_iff intro: store.equality)

lemma replay_snoc [simp]: "replay d (es @ [e]) s = replay_change d (replay d es s) e"
  by (simp add: replay_def)

lemma replay_Nil [simp]: "replay d [] s = s"
  by (simp add: replay_def)

section \<open>Invariants of a database\<close>

definition refs_ok :: "db \<Rightarrow> bool" where
  "refs_ok d \<longleftrightarrow> (\<forall>((t, k), r) \<in> set (blob_refs d). is_str t \<and> is_str k \<and> is_str (blob_id r) \<and> blob_size r \<le> u64_max)"

text \<open>Images with numbers that were not given out are empty.\<close>

definition images_fresh :: "db \<Rightarrow> bool" where
  "images_fresh d \<longleftrightarrow> (\<forall>g n. number d ''reset_generation'' = Inr g \<longrightarrow> g < n \<longrightarrow>
     (\<forall>k. get_row d (reset_name n) k = None) \<and> tbl_get (reset_blobs d) (reset_name n @ ''_blobs'') = None)"

definition store_inv :: "db \<Rightarrow> bool" where
  "store_inv d \<longleftrightarrow> journal_inv d \<and> refs_ok d \<and> images_fresh d"

definition resets_known :: "db \<Rightarrow> change_kind list \<Rightarrow> bool" where
  "resets_known d es \<longleftrightarrow> (\<forall>t s. TableReset t s \<in> set es \<longrightarrow>
     (\<exists>g n. number d ''reset_generation'' = Inr g \<and> n \<le> g \<and> s = reset_name n))"

text \<open>
  \<open>tracks T d d' es\<close>: the effects account for everything that happened from one state to the other, except
  in the tables \<open>T\<close>, whose images are still to be taken.
\<close>

definition tracks :: "string set \<Rightarrow> db \<Rightarrow> db \<Rightarrow> change_kind list \<Rightarrow> bool" where
  "tracks T d d' es \<longleftrightarrow> log_kept d d' \<and> refs_ok d' \<and> images_fresh d' \<and> (\<forall>e \<in> set es. effect_ok e) \<and> resets_known d' es \<and>
     agree_off T (replay d' es (visible d)) (visible d')"

lemma tracks_refl: "store_inv d \<Longrightarrow> tracks T d d []"
  by (simp add: tracks_def store_inv_def log_kept_refl resets_known_def agree_off_def)

lemma reset_name_reserved [simp]: "starts_with_reserved (reset_name n)"
  by (simp add: starts_with_reserved_def reset_name_def)

lemma reset_name_inj [simp]: "reset_name m = reset_name n \<longleftrightarrow> m = n"
  by (simp add: reset_name_def show_nat_inj)

text \<open>A step that keeps the numbered images keeps the replay.\<close>

definition same_images :: "db \<Rightarrow> db \<Rightarrow> bool" where
  "same_images d d' \<longleftrightarrow> (\<forall>g n. number d ''reset_generation'' = Inr g \<longrightarrow> n \<le> g \<longrightarrow>
     image_rows d' (reset_name n) = image_rows d (reset_name n) \<and> image_refs d' (reset_name n) = image_refs d (reset_name n))"

lemma replay_same_images:
  assumes "same_images d d'" "resets_known d es"
  shows "replay d' es s = replay d es s"
  using assms(2)
proof (induction es rule: rev_induct)
  case (snoc e es)
  then have k: "resets_known d es" by (auto simp: resets_known_def)
  have "image_rows d' i = image_rows d i \<and> image_refs d' i = image_refs d i" if "e = TableReset t i" for t i
  proof -
    have "TableReset t i \<in> set (es @ [e])" using that by simp
    then obtain g n where "number d ''reset_generation'' = Inr g" "n \<le> g" "i = reset_name n"
      using snoc.prems unfolding resets_known_def by blast
    then show ?thesis using assms(1) unfolding same_images_def by blast
  qed
  then show ?case using snoc.IH[OF k] by (cases e) auto
qed simp

text \<open>How the parts of the state a transaction may write are carried along.\<close>

lemma tracks_step:
  assumes "tracks T d d1 es" "log_kept d1 d2" "refs_ok d2" "images_fresh d2" "same_images d1 d2"
    "number d1 ''reset_generation'' = number d2 ''reset_generation''" "\<forall>e \<in> set new. effect_ok e"
    "resets_known d2 new" "agree_off T' (replay d2 new (replay d1 es (visible d))) (visible d2)"
  shows "tracks T' d d2 (es @ new)"
  using assms replay_same_images[OF assms(5), of es]
  by (auto simp: tracks_def resets_known_def replay_def intro: log_kept_trans)

section \<open>Steps inside a transaction\<close>

text \<open>Writing the rows of a user table.\<close>

lemma images_same_rows:
  assumes "\<And>n. get_row d2 (reset_name n) = get_row d1 (reset_name n)" "reset_blobs d2 = reset_blobs d1"
    "number d2 ''reset_generation'' = number d1 ''reset_generation''"
  shows "same_images d1 d2" "images_fresh d1 \<Longrightarrow> images_fresh d2"
  using assms by (auto simp: same_images_def images_fresh_def image_rows_def image_refs_def fun_eq_iff)

lemma resets_none [simp]: "resets_known d []" "resets_known d [Upsert t k v]" "resets_known d [Delete t k]"
  "resets_known d [BlobPut t k b n]" "resets_known d [BlobDelete t k b n]"
  by (simp_all add: resets_known_def)

lemma tracks_rows:
  assumes "tracks T d d1 es" "log_kept d1 d2" "blob_refs d2 = blob_refs d1" "reset_blobs d2 = reset_blobs d1"
    "\<not> starts_with_reserved t" "\<And>u. u \<noteq> t \<Longrightarrow> get_row d2 u = get_row d1 u" "seq_table d2 = seq_table d1"
    "\<forall>e \<in> set new. effect_ok e" "new = [] \<and> t \<in> T' \<or> (\<exists>k v. new = [Upsert t k v] \<and> get_row d2 t = (get_row d1 t)(k \<mapsto> v)) \<or>
      (\<exists>k. new = [Delete t k] \<and> get_row d2 t = (get_row d1 t)(k := None)) \<or> new = [] \<and> get_row d2 t = get_row d1 t"
    "T \<subseteq> T'"
  shows "tracks T' d d2 (es @ new)"
proof (rule tracks_step[OF assms(1,2)])
  have n: "number d2 k = number d1 k" for k using assms(7) by (simp add: number_def)
  then show "number d1 ''reset_generation'' = number d2 ''reset_generation''" by simp
  have "get_row d2 (reset_name n) = get_row d1 (reset_name n)" for n using assms(5,6) by (metis reset_name_reserved)
  note im = images_same_rows[OF this assms(4) n]
  show "same_images d1 d2" by (rule im)
  show "images_fresh d2" "refs_ok d2" using im(2) assms(1,3) by (auto simp: tracks_def refs_ok_def)
  show "\<forall>e \<in> set new. effect_ok e" by (rule assms(8))
  show "resets_known d2 new" using assms(9) by auto
  have a: "agree_off T (replay d1 es (visible d)) (visible d1)" using assms(1) by (simp add: tracks_def)
  have u: "st_rows (visible d2) u = st_rows (visible d1) u" if "u \<noteq> t" for u using assms(6)[OF that] by (simp add: visible_def)
  have b: "st_refs (visible d2) = st_refs (visible d1)" using assms(3) by (simp add: visible_def blob_get_def fun_eq_iff)
  have r: "st_rows (visible d2) t = get_row d2 t" "st_rows (visible d1) t = get_row d1 t" using assms(5) by (simp_all add: visible_def)
  show "agree_off T' (replay d2 new (replay d1 es (visible d))) (visible d2)"
    unfolding agree_off_def
  proof (intro allI impI)
    fix w assume w: "w \<notin> T'"
    then have e: "st_rows (replay d1 es (visible d)) w = st_rows (visible d1) w" "st_refs (replay d1 es (visible d)) w = st_refs (visible d1) w"
      using a assms(10) by (auto simp: agree_off_def)
    show "st_rows (replay d2 new (replay d1 es (visible d))) w = st_rows (visible d2) w \<and>
        st_refs (replay d2 new (replay d1 es (visible d))) w = st_refs (visible d2) w"
      using assms(9) w e u[of w] b r by (cases "w = t") (auto simp: replay_def)
  qed
qed

lemma tracks_ok: "tracks T d d1 es \<Longrightarrow> tables_ok d1"
  by (simp add: tracks_def log_kept_def)

lemma tracks_kept:
  assumes "tracks T d d1 es" "tables_ok d2" "seq_table d2 = seq_table d1" "changes_table d2 = changes_table d1"
    "consumers_table d2 = consumers_table d1"
  shows "log_kept d1 d2"
  using assms by (auto simp: tracks_def log_kept_def number_def)

lemma tracks_set_rows:
  assumes "tracks T d d1 es" "\<not> starts_with_reserved t" "t \<in> T" "tbl_ok rows"
  shows "tracks T d (set_rows d1 t rows) es"
  using tracks_rows[OF assms(1) tracks_kept[OF assms(1)], of "set_rows d1 t rows" t "[]" T] assms tracks_ok[OF assms(1)]
  by (simp add: tables_ok_set_rows get_row_def[abs_def] rows_of_set_rows)

lemma tracks_open: 
  assumes "tracks T d d1 es" "\<not> starts_with_reserved t"
  shows "tracks T d (open_write d1 t) es"
  using tracks_rows[OF assms(1) tracks_kept[OF assms(1)], of "open_write d1 t" t "[]" T] assms tracks_ok[OF assms(1)]
  by (simp add: get_row_open)

lemma tracks_drop:
  assumes "tracks T d d1 es" "\<not> starts_with_reserved t" "t \<in> T"
  shows "tracks T d (drop_table d1 t) es"
proof -
  have "get_row (drop_table d1 t) u = get_row d1 u" if "u \<noteq> t" for u
    using that tracks_ok[OF assms(1)] by (simp add: get_row_def[abs_def] rows_of_def drop_table_def tables_ok_def)
  then show ?thesis
    using tracks_rows[OF assms(1) tracks_kept[OF assms(1)], of "drop_table d1 t" t "[]" T] assms tracks_ok[OF assms(1)] by simp
qed

lemma get_row_put: "tables_ok d \<Longrightarrow> get_row (put_row d t k v) u = (if u = t then (get_row d t)(k \<mapsto> v) else get_row d u)"
  by (auto simp: get_put_row fun_eq_iff)

lemma get_row_del: "tables_ok d \<Longrightarrow> get_row (del_row d t k) u = (if u = t then (get_row d t)(k := None) else get_row d u)"
  by (auto simp: get_del_row fun_eq_iff)

lemma tracks_put:
  assumes "tracks T d d1 es" "\<not> starts_with_reserved t" "is_str t" "is_str k"
  shows "tracks T d (put_row d1 t k v) (es @ [Upsert t k v])"
  using tracks_rows[OF assms(1) tracks_kept[OF assms(1)], of "put_row d1 t k v" t "[Upsert t k v]" T] assms tracks_ok[OF assms(1)]
  by (simp add: get_row_put effect_ok_def) (simp add: put_row_def)

lemma tracks_del:
  assumes "tracks T d d1 es" "\<not> starts_with_reserved t" "is_str t" "is_str k"
  shows "tracks T d (del_row d1 t k) (if get_row d1 t k \<noteq> None then es @ [Delete t k] else es)"
proof (cases "get_row d1 t k")
  case None
  then have "(get_row d1 t)(k := None) = get_row d1 t" by auto
  then show ?thesis
    using tracks_rows[OF assms(1) tracks_kept[OF assms(1)], of "del_row d1 t k" t "[]" T] assms tracks_ok[OF assms(1)] None
    by (simp add: get_row_del) (simp add: del_row_def)
next
  case (Some v)
  then show ?thesis
    using tracks_rows[OF assms(1) tracks_kept[OF assms(1)], of "del_row d1 t k" t "[Delete t k]" T] assms tracks_ok[OF assms(1)]
    by (simp add: get_row_del effect_ok_def) (simp add: del_row_def)
qed

text \<open>Writing a reference.\<close>

lemma tracks_refs:
  assumes "tracks T d d1 es" "tbl_ok refs" "refs_ok (d1\<lparr>blob_refs := refs\<rparr>)" "\<forall>e \<in> set new. effect_ok e"
    "(\<exists>r. new = [BlobPut t k (blob_id r) (blob_size r)] \<and> (\<forall>u j. tbl_get refs (u, j) = (if u = t \<and> j = k then Some r else blob_get d1 u j))) \<or>
     (\<exists>b n. new = [BlobDelete t k b n] \<and> (\<forall>u j. tbl_get refs (u, j) = (if u = t \<and> j = k then None else blob_get d1 u j))) \<or>
     new = [] \<and> (\<forall>u j. tbl_get refs (u, j) = blob_get d1 u j)"
  shows "tracks T d (d1\<lparr>blob_refs := refs\<rparr>) (es @ new)"
proof (rule tracks_step[OF assms(1) _ assms(3)])
  let ?d = "d1\<lparr>blob_refs := refs\<rparr>"
  have t: "tables_ok ?d" using tracks_ok[OF assms(1)] assms(2) by (simp add: tables_ok_def)
  show "log_kept d1 ?d" by (rule tracks_kept[OF assms(1) t]) simp_all
  have n: "number ?d k = number d1 k" for k by (simp add: number_def)
  then show "number d1 ''reset_generation'' = number ?d ''reset_generation''" by simp
  have g: "get_row ?d = get_row d1" by (rule get_row_cong) simp
  note im = images_same_rows[of ?d d1, OF _ _ n, unfolded g, OF refl, simplified]
  show "same_images d1 ?d" by (rule im)
  show "images_fresh ?d" using im(2) assms(1) by (simp add: tracks_def)
  show "\<forall>e \<in> set new. effect_ok e" by (rule assms(4))
  show "resets_known ?d new" using assms(5) by auto
  have a: "agree_off T (replay d1 es (visible d)) (visible d1)" using assms(1) by (simp add: tracks_def)
  have v: "st_rows (visible ?d) = st_rows (visible d1)" "st_refs (visible ?d) u j = tbl_get refs (u, j)"
    "st_refs (visible d1) u j = blob_get d1 u j" for u j
    unfolding visible_def g by (simp_all add: blob_get_def)
  show "agree_off T (replay ?d new (replay d1 es (visible d))) (visible ?d)"
    unfolding agree_off_def
  proof (intro allI impI)
    fix w assume "w \<notin> T"
    then have e: "st_rows (replay d1 es (visible d)) w = st_rows (visible d1) w" "st_refs (replay d1 es (visible d)) w = st_refs (visible d1) w"
      using a by (auto simp: agree_off_def)
    show "st_rows (replay ?d new (replay d1 es (visible d))) w = st_rows (visible ?d) w \<and>
        st_refs (replay ?d new (replay d1 es (visible d))) w = st_refs (visible ?d) w"
      using assms(5) e by (auto simp: replay_def v fun_eq_iff)
  qed
qed

lemma tracks_blob_put:
  assumes "tracks T d d1 es" "is_str t" "is_str k" "is_str (blob_id r)" "blob_size r \<le> u64_max" "blob_put d1 t k r es = (d2, es')"
  shows "tracks T d d2 es'"
proof -
  have ok: "tbl_ok (blob_refs d1)" "refs_ok d1" using tracks_ok[OF assms(1)] assms(1) by (simp_all add: tables_ok_def tracks_def)
  then have "refs_ok (d1\<lparr>blob_refs := tbl_insert (blob_refs d1) (t, k) r\<rparr>)"
    using assms(2-5) by (auto simp: refs_ok_def set_tbl_insert)
  then have "tracks T d (d1\<lparr>blob_refs := tbl_insert (blob_refs d1) (t, k) r\<rparr>) (es @ [BlobPut t k (blob_id r) (blob_size r)])"
    using ok assms(2-5) by (intro tracks_refs[OF assms(1), where t = t and k = k])
      (auto simp: blob_get_def effect_ok_def intro!: exI[of _ r])
  then show ?thesis using assms(6) by (simp add: blob_put_def)
qed

lemma tracks_blob_remove:
  assumes "tracks T d d1 es" "blob_remove d1 t k es = (b, d2, es')"
  shows "tracks T d d2 es' \<and> b = (blob_get d1 t k \<noteq> None) \<and> get_row d2 = get_row d1"
proof -
  have ok: "tbl_ok (blob_refs d1)" "refs_ok d1" using tracks_ok[OF assms(1)] assms(1) by (simp_all add: tables_ok_def tracks_def)
  let ?d = "d1\<lparr>blob_refs := tbl_remove (blob_refs d1) (t, k)\<rparr>"
  have r: "refs_ok ?d" using ok by (auto simp: refs_ok_def set_tbl_remove)
  have g: "get_row ?d = get_row d1" by (rule get_row_cong) simp
  note step = tracks_refs[OF assms(1) tbl.ok_del[OF ok(1)] r]
  show ?thesis
  proof (cases "tbl_get (blob_refs d1) (t, k)")
    case None
    then show ?thesis using assms(2) step[of "[]" t k] ok g by (auto simp: blob_remove_def blob_get_def)
  next
    case (Some old)
    then have "is_str t \<and> is_str k \<and> is_str (blob_id old) \<and> blob_size old \<le> u64_max"
      using ok by (force simp: refs_ok_def tbl_get_iff)
    then show ?thesis
      using assms(2) step[of "[BlobDelete t k (blob_id old) (blob_size old)]" t k] Some ok g
      by (auto simp: blob_remove_def blob_get_def effect_ok_def)
  qed
qed

section \<open>Table images\<close>

lemma is_str_ascii: "\<forall>c \<in> set s. of_char c \<le> (127 :: nat) \<Longrightarrow> is_str s"
  unfolding is_str_def by (induction s) (simp_all add: as_bytes_def u8_in_def)

lemma is_str_reset: "is_str (reset_name n)"
proof -
  have "\<forall>c \<in> set (show_nat n). of_char c \<le> (127 :: nat)"
    using show_nat_digits[of n] by (auto simp: all_digits_def list_all_iff is_digit_def)
  then show ?thesis unfolding reset_name_def by (intro is_str_ascii) auto
qed

text \<open>The state after a table image is taken, field by field.\<close>

lemma capture_reset_state:
  assumes c: "capture_reset t (d1, es) = Inr (d2, es')" and ok: "tables_ok d1" and fr: "images_fresh d1"
  obtains g where "number d1 ''reset_generation'' = Inr g" "es' = es @ [TableReset t (reset_name (Suc g))]"
    "number d2 ''reset_generation'' = Inr (Suc g)" "log_kept d1 d2" "blob_refs d2 = blob_refs d1"
    "\<And>u. get_row d2 u = (if u = reset_name (Suc g) then get_row d1 t else get_row d1 u)"
    "\<And>n. tbl_get (reset_blobs d2) n = (if n = reset_name (Suc g) @ ''_blobs''
       then Some (filter (\<lambda>((u, _), _). u = t) (blob_refs d1)) else tbl_get (reset_blobs d1) n)"
proof -
  obtain g where g: "number d1 ''reset_generation'' = Inr g" "Suc g \<le> u64_max"
    using c by (auto simp: capture_reset_def)
  let ?s = "reset_name (Suc g)" and ?i = "reset_name (Suc g) @ ''_blobs''"
  let ?refs = "filter (\<lambda>((u, _), _). u = t) (blob_refs d1)"
  have fresh: "get_row d1 ?s k = None" "tbl_get (reset_blobs d1) ?i = None" for k
    using fr g(1) by (auto simp: images_fresh_def)
  define d0 where "d0 = open_write (open_write (put_number d1 ''reset_generation'' (Suc g)) t) ?s"
  have ok0: "tables_ok d0" using ok by (simp add: d0_def)
  have r0: "rows_of d0 u = rows_of d1 u" for u using ok by (simp add: d0_def) (simp add: rows_of_def)
  have "rows_of d1 ?s = []"
    using fresh(1) ok by (metis get_row_def list.set_intros(1) option.simps(3) prod.exhaust_sel tables_ok_rows tbl_get_iff neq_Nil_conv)
  then have image: "tbl_insert_all (rows_of d0 ?s) (rows_of d0 t) = rows_of d1 t"
    using insert_all_sorted[of "[]" "rows_of d1 t"] ok by (simp add: r0)
  have refs: "tbl_insert_all [] ?refs = ?refs"
    using insert_all_sorted[of "[]" ?refs] tbl_ok_filter[of "blob_refs d1"] ok by (simp add: tables_ok_def)
  have d2: "d2 = (set_rows d0 ?s (rows_of d1 t))\<lparr>reset_blobs := tbl_insert (reset_blobs d1) ?i ?refs\<rparr>"
    and es': "es' = es @ [TableReset t ?s]"
    using c g fresh(2) image refs by (auto simp: capture_reset_def Let_def d0_def[symmetric])
  have ok2: "tables_ok d2" using tables_ok_set_rows[OF ok0, of "rows_of d1 t" ?s] ok by (simp add: d2 tables_ok_def)
  have seq: "seq_table d2 = tbl_insert (seq_table d1) ''reset_generation'' (u64_be (Suc g))" by (simp add: d2 d0_def put_number_def)
  have n2: "number d2 ''reset_generation'' = Inr (Suc g)" using ok g(2) by (simp add: number_def seq tables_ok_def)
  moreover have "log_kept d1 d2" using n2 ok ok2 by (auto simp: log_kept_def seq tables_ok_def) (simp_all add: d2 d0_def)
  moreover have "get_row d2 u = (if u = ?s then get_row d1 t else get_row d1 u)" for u
    using rows_of_set_rows[OF ok0, of ?s "rows_of d1 t"] by (simp add: d2 get_row_def[abs_def] rows_of_def r0[unfolded rows_of_def])
  moreover have "tbl_get (reset_blobs d2) n = (if n = ?i then Some ?refs else tbl_get (reset_blobs d1) n)" for n
    using ok by (simp add: d2 tables_ok_def)
  ultimately show thesis using that g(1) es' by (simp add: d2 d0_def)
qed

lemma capture_reset_at:
  assumes tr: "tracks T d d1 es" and t: "\<not> starts_with_reserved t" "is_str t" and c: "capture_reset t (d1, es) = Inr (d2, es')"
  shows "tracks (T - {t}) d d2 es' \<and> (\<forall>u. \<not> starts_with_reserved u \<longrightarrow> get_row d2 u = get_row d1 u) \<and> blob_refs d2 = blob_refs d1 \<and>
    (\<exists>s. es' = es @ [TableReset t s] \<and> image_rows d2 s = get_row d1 t \<and> image_refs d2 s t = blob_get d1 t)"
proof -
  note ok = tracks_ok[OF tr]
  have fr: "images_fresh d1" using tr by (simp add: tracks_def)
  from capture_reset_state[OF c ok fr] obtain g where g: "number d1 ''reset_generation'' = Inr g"
      "es' = es @ [TableReset t (reset_name (Suc g))]" "number d2 ''reset_generation'' = Inr (Suc g)"
    and kept: "log_kept d1 d2" and b: "blob_refs d2 = blob_refs d1"
    and row: "\<And>u. get_row d2 u = (if u = reset_name (Suc g) then get_row d1 t else get_row d1 u)"
    and img: "\<And>n. tbl_get (reset_blobs d2) n = (if n = reset_name (Suc g) @ ''_blobs''
      then Some (filter (\<lambda>((u, _), _). u = t) (blob_refs d1)) else tbl_get (reset_blobs d1) n)" by blast
  have "tbl_get (filter (\<lambda>((u, _), _). u = t) (blob_refs d1)) (t, k) = blob_get d1 t k" for k
    using tbl_get_filter[of "blob_refs d1"] ok by (simp add: blob_get_def tables_ok_def split: option.split)
  then have new: "image_rows d2 (reset_name (Suc g)) = get_row d1 t" "image_refs d2 (reset_name (Suc g)) t = blob_get d1 t"
    by (auto simp: image_rows_def image_refs_def row img fun_eq_iff)
  have "same_images d1 d2" using g(1) by (auto simp: same_images_def image_rows_def image_refs_def row img fun_eq_iff)
  then have re: "replay d2 es (visible d) = replay d1 es (visible d)"
    using tr by (intro replay_same_images) (simp_all add: tracks_def)
  have rows: "get_row d2 u = get_row d1 u" if "\<not> starts_with_reserved u" for u using that row[of u] by (metis reset_name_reserved)
  have vis: "visible d2 = visible d1" using rows b by (simp add: visible_def blob_get_def[abs_def] fun_eq_iff)
  have "agree_off T (replay d1 es (visible d)) (visible d1)" using tr by (simp add: tracks_def)
  then have "agree_off (T - {t}) (replay d2 es' (visible d)) (visible d2)"
    using t(1) by (auto simp: g(2) re vis agree_off_def new) (simp_all add: visible_def)
  moreover have "resets_known d2 es'" using tr g by (auto simp: tracks_def resets_known_def) (meson le_SucI)
  moreover have "images_fresh d2" using fr g by (auto simp: images_fresh_def row img)
  ultimately have "tracks (T - {t}) d d2 es'"
    using tr kept t(2) is_str_reset[of "Suc g"] b
    by (auto simp: tracks_def refs_ok_def g(2) effect_ok_def intro: log_kept_trans)
  then show ?thesis using rows b new g(2) by blast
qed

section \<open>The contract of a transaction\<close>

lemma committedD:
  assumes "committed r d1 es d' events"
  shows "journal_inv d'" "\<forall>t k. \<not> starts_with_reserved t \<longrightarrow> get_row d' t k = get_row d1 t k" "blob_refs d' = blob_refs d1"
    "shrinks d1 d'"
proof -
  note c = assms[unfolded committed_def]
  show "journal_inv d'" using c by (elim conjE) assumption
  show "\<forall>t k. \<not> starts_with_reserved t \<longrightarrow> get_row d' t k = get_row d1 t k" using c by (elim conjE) assumption
  show "blob_refs d' = blob_refs d1" using c by (elim conjE) assumption
  show "shrinks d1 d'" using c by (elim conjE) assumption
qed

lemma visible_eqI: "\<forall>t k. \<not> starts_with_reserved t \<longrightarrow> get_row d' t k = get_row d t k \<Longrightarrow> blob_refs d' = blob_refs d \<Longrightarrow>
    visible d' = visible d"
  unfolding visible_def blob_get_def by (rule store.equality) (auto intro!: ext)

lemma committed_visible: "committed r d1 es d' events \<Longrightarrow> visible d' = visible d1"
  by (rule visible_eqI[OF committedD(2,3)])

lemma committed_store_inv:
  assumes "committed r d1 es d' events" "tracks T d d1 es"
  shows "store_inv d'"
proof -
  note s = committedD(4,1,3)[OF assms(1)]
  have f: "images_fresh d1" "refs_ok d1" using assms(2) by (auto simp: tracks_def)
  have n: "number d1 ''reset_generation'' = number d' ''reset_generation''" using s(1) by (simp add: shrinks_def)
  have "get_row d' t k = None" if "get_row d1 t k = None" for t k
    using s(1) that unfolding shrinks_def by (metis not_Some_eq)
  moreover have "tbl_get (reset_blobs d') i = None" if "tbl_get (reset_blobs d1) i = None" for i
    using s(1) that unfolding shrinks_def by (metis not_Some_eq)
  ultimately have "images_fresh d'" using f(1) unfolding images_fresh_def n by blast
  then show ?thesis using s(2) f(2) by (simp add: store_inv_def refs_ok_def s(3))
qed

locale tx_contract =
  fixes body :: "'p \<Rightarrow> 'a tx_body"
    and pre :: "'p \<Rightarrow> bool"
  assumes accounts: "pre p \<Longrightarrow> store_inv d \<Longrightarrow> body p d = Inr (out, d1, es) \<Longrightarrow> tracks {} d d1 es"
begin

text \<open>A call returns, and a commit leaves a sound database that the effects lead to.\<close>

lemma outcome:
  assumes "pre p" "store_inv d"
  shows "(\<exists>e. write_with_sink h x r (body p) d = Some (Inl e)) \<or>
    (\<exists>out d1 es d' events. write_with_sink h x r (body p) d = Some (Inr (out, d', events)) \<and>
      body p d = Inr (out, d1, es) \<and> tracks {} d d1 es \<and> committed r d1 es d' events \<and> store_inv d' \<and>
      visible d' = visible d1 \<and> visible d' = replay d1 es (visible d))"
proof (cases "body p d")
  case (Inl e)
  then show ?thesis by (simp add: write_with_sink_def)
next
  case (Inr z)
  then obtain out d1 es where b: "body p d = Inr (out, d1, es)" by (cases z) auto
  note t = accounts[OF assms b]
  have inv: "journal_inv d" using assms(2) by (simp add: store_inv_def)
  have "journal_inv d1" "\<forall>e \<in> set es. effect_ok e" using t log_kept_inv inv by (auto simp: tracks_def)
  from write_at[where f = "body p", OF inv b this, of h x r] show ?thesis
  proof (elim disjE exE conjE)
    fix d' events assume w: "write_with_sink h x r (body p) d = Some (Inr (out, d', events))" "committed r d1 es d' events"
    have "visible d1 = replay d1 es (visible d)" using t by (simp add: tracks_def agree_off_empty)
    then show ?thesis using w b t committed_store_inv[OF w(2) t] committed_visible[OF w(2)] by auto
  qed blast
qed

lemma commits:
  assumes "pre p" "store_inv d" "write_with_sink h x r (body p) d = Some (Inr (out, d', events))"
  obtains d1 es where "body p d = Inr (out, d1, es)" "tracks {} d d1 es" "committed r d1 es d' events" "store_inv d'"
    "visible d' = visible d1" "visible d' = replay d1 es (visible d)"
  using outcome[OF assms(1,2), of h x r] assms(3) by auto

lemma returns: "pre p \<Longrightarrow> store_inv d \<Longrightarrow> \<exists>z. write_with_sink h x r (body p) d = Some z"
  using outcome[of p d h x r] by blast

end

section \<open>Rows and deletes\<close>

definition name_ok :: "string \<Rightarrow> bool" where
  "name_ok t \<longleftrightarrow> \<not> starts_with_reserved t \<and> is_str t"

definition rows_ok :: "write_row list \<Rightarrow> bool" where
  "rows_ok writes \<longleftrightarrow> (\<forall>(t, k, v) \<in> set writes. name_ok t \<and> is_str k)"

definition keys_ok :: "(string \<times> string) list \<Rightarrow> bool" where
  "keys_ok deletes \<longleftrightarrow> (\<forall>(t, k) \<in> set deletes. name_ok t \<and> is_str k)"

text \<open>The reference: writes in order, then deletes.\<close>

definition put_rows :: "write_row list \<Rightarrow> (string \<Rightarrow> string \<Rightarrow> bytes option) \<Rightarrow> string \<Rightarrow> string \<Rightarrow> bytes option" where
  "put_rows writes r = foldl (\<lambda>r (t, k, v). r(t := (r t)(k \<mapsto> v))) r writes"

definition drop_rows :: "(string \<times> string) list \<Rightarrow> (string \<Rightarrow> string \<Rightarrow> 'v option) \<Rightarrow> string \<Rightarrow> string \<Rightarrow> 'v option" where
  "drop_rows deletes r t k = (if (t, k) \<in> set deletes then None else r t k)"

lemma put_rows_simps [simp]: "put_rows [] r = r" "put_rows ((t, k, v) # ws) r = put_rows ws (r(t := (r t)(k \<mapsto> v)))"
  by (simp_all add: put_rows_def)

lemma write_one_at:
  assumes "tracks T d d1 es" "name_ok t" "is_str k" "write_one h m (d1, es) (t, k, v) = Inr (d2, es')"
  shows "tracks T d d2 es' \<and> get_row d2 = (get_row d1)(t := (get_row d1 t)(k \<mapsto> v)) \<and> blob_refs d2 = blob_refs d1"
proof -
  have e: "d2 = put_row (open_write d1 t) t k v" "es' = es @ [Upsert t k v]" using assms(4) by (auto simp: write_one_def)
  have "tracks T d (open_write d1 t) es" using tracks_open[OF assms(1)] assms(2) by (simp add: name_ok_def)
  then show ?thesis
    using tracks_put[of T d "open_write d1 t" es t k v] tracks_ok[OF assms(1)] assms(2,3)
    by (auto simp: e name_ok_def get_row_put get_row_open fun_eq_iff) (simp add: put_row_def)
qed

lemma writes_at:
  assumes "foldM (write_one h m) (d1, es) writes = Inr (d2, es')" "tracks T d d1 es" "rows_ok writes"
  shows "tracks T d d2 es' \<and> get_row d2 = put_rows writes (get_row d1) \<and> blob_refs d2 = blob_refs d1"
  using assms
proof (induction writes arbitrary: d1 es)
  case (Cons w writes)
  obtain t k v where w: "w = (t, k, v)" by (cases w)
  obtain d3 es3 where s: "write_one h m (d1, es) w = Inr (d3, es3)" "foldM (write_one h m) (d3, es3) writes = Inr (d2, es')"
    using Cons.prems(1) by auto
  note one = write_one_at[OF Cons.prems(2) _ _ s(1)[unfolded w]]
  show ?case using Cons.IH[OF s(2)] one Cons.prems(3) by (auto simp: rows_ok_def w simp del: fun_upd_apply)
qed simp

lemma delete_one_at:
  assumes "tracks T d d1 es" "name_ok t" "is_str k" "delete_one m (d1, es, rs) (t, k) = (d2, es', rs')"
  shows "tracks T d d2 es' \<and> get_row d2 = drop_rows [(t, k)] (get_row d1) \<and>
    blob_get d2 = (if is_blob_table m t then drop_rows [(t, k)] (blob_get d1) else blob_get d1) \<and>
    rs' = rs @ [get_row d1 t k \<noteq> None \<or> is_blob_table m t \<and> blob_get d1 t k \<noteq> None]"
proof -
  let ?d = "del_row (open_write d1 t) t k" and ?es = "if get_row d1 t k \<noteq> None then es @ [Delete t k] else es"
  note ok = tracks_ok[OF assms(1)]
  have "tracks T d (open_write d1 t) es" using tracks_open[OF assms(1)] assms(2) by (simp add: name_ok_def)
  from tracks_del[OF this, of t k] have tr: "tracks T d ?d ?es" using assms(2,3) ok by (simp add: name_ok_def get_row_open)
  have rows: "get_row ?d = drop_rows [(t, k)] (get_row d1)" using ok by (auto simp: get_row_del get_row_open drop_rows_def fun_eq_iff)
  have refs: "blob_get ?d = blob_get d1" by (simp add: blob_get_def[abs_def] del_row_def)
  show ?thesis
  proof (cases "is_blob_table m t")
    case True
    obtain b d3 es3 where br: "blob_remove ?d t k ?es = (b, d3, es3)" by (cases "blob_remove ?d t k ?es") auto
    have "blob_get d3 = drop_rows [(t, k)] (blob_get d1)"
      using br tracks_ok[OF tr] refs
      by (auto simp: blob_remove_def blob_get_def fun_eq_iff drop_rows_def tables_ok_def del_row_def split: option.splits)
    then show ?thesis
      using tracks_blob_remove[OF tr br] assms(4) True br rows refs ok
      by (auto simp: delete_one_def Let_def get_row_open split: if_splits)
  next
    case False
    then show ?thesis using assms(4) tr rows refs ok by (auto simp: delete_one_def Let_def get_row_open split: if_splits)
  qed
qed

text \<open>The flag of a delete: was there a row, or an attachment, when the batch came to it.\<close>

lemma deletes_at:
  assumes "foldl (delete_one m) (d1, es, []) deletes = (d2, es', rs)" "tracks T d d1 es" "keys_ok deletes"
  shows "tracks T d d2 es' \<and> get_row d2 = drop_rows deletes (get_row d1) \<and>
    blob_get d2 = drop_rows (filter (\<lambda>(t, _). is_blob_table m t) deletes) (blob_get d1) \<and> length rs = length deletes \<and>
    (\<forall>i < length deletes. deletes ! i \<notin> set (take i deletes) \<longrightarrow>
      rs ! i = (case deletes ! i of (t, k) \<Rightarrow> get_row d1 t k \<noteq> None \<or> is_blob_table m t \<and> blob_get d1 t k \<noteq> None))"
  using assms
proof (induction deletes arbitrary: d2 es' rs rule: rev_induct)
  case (snoc r deletes)
  obtain t k where r: "r = (t, k)" by (cases r)
  obtain d3 es3 rs3 where s: "foldl (delete_one m) (d1, es, []) deletes = (d3, es3, rs3)" by (metis prod_cases3)
  have k: "keys_ok deletes" "name_ok t" "is_str k" using snoc.prems(3) r by (auto simp: keys_ok_def)
  note ih = snoc.IH[OF s snoc.prems(2) k(1)]
  have "delete_one m (d3, es3, rs3) (t, k) = (d2, es', rs)" using snoc.prems(1) s r by simp
  note one = delete_one_at[OF conjunct1[OF ih] k(2,3) this]
  show ?case using one ih
    by (auto simp: r drop_rows_def fun_eq_iff nth_append less_Suc_eq split: if_splits)
qed (simp add: drop_rows_def fun_eq_iff)

lemma change_body_at:
  assumes "store_inv d" "rows_ok writes" "keys_ok deletes" "change_body h m writes deletes d = Inr (removed, d1, es)"
  shows "tracks {} d d1 es \<and> get_row d1 = drop_rows deletes (put_rows writes (get_row d)) \<and>
    blob_get d1 = drop_rows (filter (\<lambda>(t, _). is_blob_table m t) deletes) (blob_get d) \<and> length removed = length deletes \<and>
    (\<forall>i < length deletes. deletes ! i \<notin> set (take i deletes) \<longrightarrow> removed ! i = (case deletes ! i of (t, k) \<Rightarrow>
      put_rows writes (get_row d) t k \<noteq> None \<or> is_blob_table m t \<and> blob_get d t k \<noteq> None))"
proof -
  obtain d2 es2 where w: "foldM (write_one h m) (d, []) writes = Inr (d2, es2)"
    using assms(4) by (auto simp: change_body_def)
  obtain d3 es3 rs where "foldl (delete_one m) (d2, es2, []) deletes = (d3, es3, rs)" by (metis prod_cases3)
  then have f: "foldl (delete_one m) (d2, es2, []) deletes = (d1, es, removed)"
    using assms(4) w by (auto simp: change_body_def)
  note a = writes_at[OF w tracks_refl[OF assms(1)] assms(2), of "{}"]
  then have "blob_get d2 = blob_get d" by (simp add: blob_get_def[abs_def])
  then show ?thesis using deletes_at[OF f _ assms(3), of "{}" d] a by simp
qed

interpretation changes: tx_contract "\<lambda>(h, m, writes, deletes). change_body h m writes deletes"
  "\<lambda>(h, m, writes, deletes). rows_ok writes \<and> keys_ok deletes"
  by unfold_locales (auto dest: change_body_at)

section \<open>Whole tables and attachments\<close>

lemma blob_removes_at:
  assumes "foldl (\<lambda>(d', changes) ((u, k), _). if u = t \<and> P k then snd (blob_remove d' t k changes) else (d', changes)) (d1, es) refs = (d2, es')"
    "tracks T d d1 es"
  shows "tracks T d d2 es' \<and> get_row d2 = get_row d1"
  using assms
proof (induction refs arbitrary: d1 es)
  case (Cons r refs)
  obtain u k x where r: "r = ((u, k), x)" by (metis prod.exhaust_sel)
  obtain b d3 es3 where br: "blob_remove d1 t k es = (b, d3, es3)" by (metis prod_cases3)
  note rm = tracks_blob_remove[OF Cons.prems(2) br]
  show ?case
  proof (cases "u = t \<and> P k")
    case True
    then show ?thesis using Cons.IH[of d3 es3] Cons.prems(1) rm br r by simp
  next
    case False
    then show ?thesis using Cons.IH[of d1 es] Cons.prems r by auto
  qed
qed simp

lemma validate_blob_rows_at:
  assumes "tracks T d d1 es" "name_ok t" "validate_blob_rows m t (d1, es) = Inr (d2, es')"
  shows "tracks T d d2 es' \<and> get_row d2 = get_row d1"
proof (cases "is_blob_table m t")
  case True
  let ?d = "open_write d1 t"
  have tr: "tracks T d ?d es" using tracks_open[OF assms(1)] assms(2) by (simp add: name_ok_def)
  have g: "get_row ?d = get_row d1" using tracks_ok[OF assms(1)] by (simp add: get_row_open)
  have "foldl (\<lambda>(d', changes) ((u, k), _). if u = t \<and> get_row ?d t k = None then snd (blob_remove d' t k changes) else (d', changes))
      (?d, es) (blob_refs ?d) = (d2, es')"
    using assms(3) True by (auto simp: validate_blob_rows_def Let_def)
  from blob_removes_at[where P = "\<lambda>k. get_row ?d t k = None", OF this tr] g show ?thesis by simp
qed (use assms in \<open>auto simp: validate_blob_rows_def\<close>)

lemma replace_body_at:
  assumes "store_inv d" "name_ok t" "replace_body m t entries d = Inr (u, d1, es)"
  shows "tracks {} d d1 es \<and> get_row d1 t = map_of (rev entries) \<and>
    (\<forall>u. u \<noteq> t \<longrightarrow> \<not> starts_with_reserved u \<longrightarrow> get_row d1 u = get_row d u) \<and>
    (\<exists>es0 s. es = es0 @ [TableReset t s] \<and> image_rows d1 s = get_row d1 t \<and> image_refs d1 s t = blob_get d1 t)"
proof -
  let ?d0 = "open_write (drop_table d t) t"
  let ?d1 = "set_rows ?d0 t (tbl_insert_all (rows_of ?d0 t) entries)"
  obtain d2 es2 where v: "validate_blob_rows m t (?d1, []) = Inr (d2, es2)" and c: "capture_reset t (d2, es2) = Inr (d1, es)"
    using assms(3) by (auto simp: replace_body_def Let_def)
  have t: "\<not> starts_with_reserved t" "is_str t" using assms(2) by (auto simp: name_ok_def)
  have ok: "tables_ok d" using assms(1) by (auto simp: store_inv_def journal_inv_def journal_at_def)
  have d: "rows_of (drop_table d t) u = (if u = t then [] else rows_of d u)" for u
    using ok by (simp add: rows_of_def drop_table_def tables_ok_def)
  then have e: "rows_of ?d0 t = []" using ok by simp
  have tr0: "tracks {t} d ?d0 []" by (intro tracks_open tracks_drop tracks_refl assms(1) t) simp
  have "tracks {t} d ?d1 []" using tbl_ok_insert_all[of "[]" entries] e by (intro tracks_set_rows[OF tr0] t) simp_all
  note vr = validate_blob_rows_at[OF this assms(2) v]
  note cr = capture_reset_at[OF conjunct1[OF vr] t c]
  have g: "get_row ?d1 u = (if u = t then map_of (rev entries) else get_row d u)" for u
    using ok e d[of u] tbl_get_insert_all[of "[]" entries]
    by (auto simp: get_row_def fun_eq_iff rows_of_set_rows split: option.splits)
  have "blob_get d1 = blob_get d2" using cr by (simp add: blob_get_def[abs_def])
  then show ?thesis using cr vr g t(1) by auto
qed

interpretation replacement: tx_contract "\<lambda>(m, t, entries). replace_body m t entries" "\<lambda>(m, t, entries). name_ok t"
  by unfold_locales (auto dest: replace_body_at)

lemma publish_body_at:
  assumes "store_inv d" "name_ok t" "is_str k" "is_str (blob_id r)" "blob_size r \<le> u64_max"
    "publish_body t k r metadata d = Inr (u, d1, es)"
  shows "tracks {} d d1 es"
proof -
  obtain d2 es2 where b: "blob_put d t k r [] = (d2, es2)" by (cases "blob_put d t k r []")
  have t: "\<not> starts_with_reserved t" "is_str t" using assms(2) by (auto simp: name_ok_def)
  have tr: "tracks {} d d2 es2" by (rule tracks_blob_put[OF tracks_refl[OF assms(1)] t(2) assms(3-5) b])
  show ?thesis
  proof (cases metadata)
    case None
    then show ?thesis using assms(6) tr b by (simp add: publish_body_def)
  next
    case (Some v)
    then show ?thesis using assms(6) tracks_put[OF tracks_open[OF tr t(1)] t assms(3), of v] b by (simp add: publish_body_def)
  qed
qed

interpretation publication: tx_contract "\<lambda>(t, k, r, metadata). publish_body t k r metadata"
  "\<lambda>(t, k, r, metadata). name_ok t \<and> is_str k \<and> is_str (blob_id r) \<and> blob_size r \<le> u64_max"
  by unfold_locales (auto dest: publish_body_at)

text \<open>A rewrite changes rows of many tables and then takes the image of each.\<close>

definition blobs_ok :: "(string \<times> string \<times> blob_ref) list \<Rightarrow> bool" where
  "blobs_ok prepared \<longleftrightarrow> (\<forall>(t, k, r) \<in> set prepared. is_str t \<and> is_str k \<and> is_str (blob_id r) \<and> blob_size r \<le> u64_max)"

lemma keys_insert_all: "tbl_ok t \<Longrightarrow> fst ` set (tbl_insert_all t kvs) = fst ` set t \<union> fst ` set kvs"
proof (induction kvs arbitrary: t)
  case (Cons r kvs)
  obtain k v where r: "r = (k, v)" by (cases r)
  have "fst ` set (tbl_insert t k v) = insert k (fst ` set t)" using set_tbl_insert[OF Cons.prems, of k v] by force
  moreover have "tbl_insert_all t (r # kvs) = tbl_insert_all (tbl_insert t k v) kvs" by (simp add: tbl_insert_all_def r)
  ultimately show ?case using Cons.IH[OF tbl.ok_ins[OF Cons.prems]] by (simp add: r)
qed (simp add: tbl_insert_all_def)

lemma set_changed_tables: "set (changed_tables writes deletes) = fst ` set writes \<union> fst ` set deletes"
proof -
  have "fst ` set (tbl_insert_all [] (map (\<lambda>t. (t, ())) (map fst writes @ map fst deletes))) = fst ` set writes \<union> fst ` set deletes"
    unfolding keys_insert_all[OF tbl_ok_Nil] by (simp add: image_Un image_image)
  then show ?thesis by (simp add: changed_tables_def)
qed

lemma rewrite_deletes_at:
  assumes "foldl (rewrite_delete m) (d1, es) deletes = (d2, es')" "tracks T d d1 es" "keys_ok deletes" "fst ` set deletes \<subseteq> T"
  shows "tracks T d d2 es' \<and> get_row d2 = drop_rows deletes (get_row d1)"
  using assms
proof (induction deletes arbitrary: d1 es)
  case (Cons r deletes)
  obtain t k where r: "r = (t, k)" by (cases r)
  have t: "\<not> starts_with_reserved t" "t \<in> T" using Cons.prems(3,4) r by (auto simp: keys_ok_def name_ok_def)
  let ?d = "del_row (open_write d1 t) t k"
  have tr: "tracks T d ?d es"
    unfolding del_row_def using tracks_open[OF Cons.prems(2) t(1)] tracks_ok[OF Cons.prems(2)]
    by (intro tracks_set_rows t) simp_all
  have g: "get_row ?d = drop_rows [(t, k)] (get_row d1)"
    using tracks_ok[OF Cons.prems(2)] by (auto simp: get_row_del get_row_open drop_rows_def fun_eq_iff)
  obtain b d3 es3 where br: "blob_remove ?d t k es = (b, d3, es3)" by (metis prod_cases3)
  have "\<exists>d4 es4. rewrite_delete m (d1, es) r = (d4, es4) \<and> tracks T d d4 es4 \<and> get_row d4 = drop_rows [(t, k)] (get_row d1)"
    using tr g br tracks_blob_remove[OF tr br] by (auto simp: rewrite_delete_def r Let_def)
  then obtain d4 es4 where s: "rewrite_delete m (d1, es) r = (d4, es4)" "tracks T d d4 es4" "get_row d4 = drop_rows [(t, k)] (get_row d1)"
    by blast
  have "drop_rows deletes (drop_rows [(t, k)] (get_row d1)) = drop_rows (r # deletes) (get_row d1)"
    by (auto simp: drop_rows_def r fun_eq_iff)
  then show ?case using Cons.IH[OF _ s(2)] Cons.prems(1,3,4) s(1,3) by (auto simp: keys_ok_def)
qed (simp add: drop_rows_def fun_eq_iff)

lemma rewrite_blobs_at:
  assumes "foldl (\<lambda>(d, changes) (t, k, r). blob_put d t k r changes) (d1, es) prepared = (d2, es')" "tracks T d d1 es" "blobs_ok prepared"
  shows "tracks T d d2 es' \<and> get_row d2 = get_row d1"
  using assms
proof (induction prepared arbitrary: d1 es)
  case (Cons p prepared)
  obtain t k r where p: "p = (t, k, r)" by (cases p)
  obtain d3 es3 where b: "blob_put d1 t k r es = (d3, es3)" by (cases "blob_put d1 t k r es")
  have "tracks T d d3 es3" using tracks_blob_put[OF Cons.prems(2) _ _ _ _ b] Cons.prems(3) by (auto simp: blobs_ok_def p)
  moreover have "get_row d3 = get_row d1" using b by (intro get_row_cong) (auto simp: blob_put_def)
  ultimately show ?case using Cons.IH[of d3 es3] Cons.prems(1,3) b by (simp add: p blobs_ok_def)
qed simp

lemma rewrite_writes_at:
  assumes "tracks T d d1 es" "rows_ok writes" "fst ` set writes \<subseteq> T"
  shows "tracks T d (foldl (\<lambda>d (t, k, v). put_row (open_write d t) t k v) d1 writes) es \<and>
    get_row (foldl (\<lambda>d (t, k, v). put_row (open_write d t) t k v) d1 writes) = put_rows writes (get_row d1)"
  using assms
proof (induction writes arbitrary: d1)
  case (Cons w writes)
  obtain t k v where w: "w = (t, k, v)" by (cases w)
  have t: "\<not> starts_with_reserved t" "t \<in> T" using Cons.prems(2,3) w by (auto simp: rows_ok_def name_ok_def)
  note ok = tracks_ok[OF Cons.prems(1)]
  have tr: "tracks T d (put_row (open_write d1 t) t k v) es"
    unfolding put_row_def using tracks_open[OF Cons.prems(1) t(1)] ok by (intro tracks_set_rows t) simp_all
  have "get_row (put_row (open_write d1 t) t k v) = (get_row d1)(t := (get_row d1 t)(k \<mapsto> v))"
    using ok by (auto simp: get_row_put get_row_open fun_eq_iff)
  then show ?case using Cons.IH[OF tr] Cons.prems(2,3) by (auto simp: rows_ok_def w simp del: fun_upd_apply)
qed simp

lemma rewrite_images_at:
  assumes "foldM (\<lambda>s t. rbind (validate_blob_rows m t s) (capture_reset t)) (d1, es) ts = Inr (d2, es')" "tracks T d d1 es"
    "\<forall>t \<in> set ts. name_ok t"
  shows "tracks (T - set ts) d d2 es' \<and> (\<forall>u. \<not> starts_with_reserved u \<longrightarrow> get_row d2 u = get_row d1 u)"
  using assms
proof (induction ts arbitrary: d1 es T)
  case (Cons t ts)
  have t: "name_ok t" "\<not> starts_with_reserved t" "is_str t" using Cons.prems(3) by (auto simp: name_ok_def)
  obtain d3 es3 d4 es4 where v: "validate_blob_rows m t (d1, es) = Inr (d3, es3)" and c: "capture_reset t (d3, es3) = Inr (d4, es4)"
    and rest: "foldM (\<lambda>s t. rbind (validate_blob_rows m t s) (capture_reset t)) (d4, es4) ts = Inr (d2, es')"
    using Cons.prems(1) by auto
  note vr = validate_blob_rows_at[OF Cons.prems(2) t(1) v]
  note cr = capture_reset_at[OF conjunct1[OF vr] t(2,3) c]
  have "T - insert t (set ts) = T - {t} - set ts" by blast
  then show ?case using Cons.IH[OF rest conjunct1[OF cr]] Cons.prems(3) cr vr by simp
qed simp

lemma rewrite_body_at:
  assumes "store_inv d" "rows_ok writes" "keys_ok deletes" "blobs_ok prepared" "rewrite_body m writes deletes prepared d = Inr (u, d1, es)"
  shows "tracks {} d d1 es \<and> (\<forall>t. \<not> starts_with_reserved t \<longrightarrow> get_row d1 t = put_rows writes (drop_rows deletes (get_row d)) t)"
proof -
  let ?ts = "changed_tables writes deletes" and ?w = "\<lambda>d. foldl (\<lambda>d (t, k, v). put_row (open_write d t) t k v) d writes"
  obtain d2 es2 where del: "foldl (rewrite_delete m) (d, []) deletes = (d2, es2)" by (metis surj_pair)
  obtain d3 es3 where put: "foldl (\<lambda>(d, changes) (t, k, r). blob_put d t k r changes) (d2, es2) prepared = (d3, es3)" by (metis surj_pair)
  have c: "foldM (\<lambda>s t. rbind (validate_blob_rows m t s) (capture_reset t)) (?w d3, es3) ?ts = Inr (d1, es)"
    using assms(5) del put by (auto simp: rewrite_body_def)
  note a = rewrite_deletes_at[OF del tracks_refl[OF assms(1), of "set ?ts"] assms(3)]
  note b = rewrite_blobs_at[OF put _ assms(4), of "set ?ts" d]
  note w = rewrite_writes_at[OF _ assms(2), of "set ?ts" d d3 es3]
  have n: "\<forall>t \<in> set ?ts. name_ok t" using assms(2,3) by (auto simp: set_changed_tables rows_ok_def keys_ok_def)
  show ?thesis using rewrite_images_at[OF c _ n, of "set ?ts" d] a b w by (simp add: set_changed_tables)
qed

interpretation rewriting: tx_contract "\<lambda>(m, writes, deletes, prepared). rewrite_body m writes deletes prepared"
  "\<lambda>(m, writes, deletes, prepared). rows_ok writes \<and> keys_ok deletes \<and> blobs_ok prepared"
  by unfold_locales (auto dest: rewrite_body_at)

end
