(* ===== verification/Repository_Safety.thy ===== *)
theory Repository_Safety
  imports Repository_Tx
begin

text \<open>
  What the operations of the database manager guarantee: exact rows or no change at all, a cache that never answers
  with old rows, batches that end, replacements that leave exactly the given rows, and a change log
  that replays to the visible state after every step a manager can take.
\<close>

section \<open>One transaction\<close>

lemma validate_tables_Inr: "validate_tables ts = Inr u \<longleftrightarrow> (\<forall>t \<in> set ts. \<not> starts_with_reserved t)"
proof -
  have "(\<exists>us. mapM validate_table ts = Inr us) \<longleftrightarrow> (\<forall>t \<in> set ts. \<not> starts_with_reserved t)"
    by (induction ts) (auto simp: validate_table_def)
  then show ?thesis by (auto simp: validate_tables_def)
qed

lemma op_check_eq: "op_check r m f = Some (z, m') \<longleftrightarrow>
    (\<exists>e. r = Inl e \<and> z = Inl e \<and> m' = m) \<or> (\<exists>a. r = Inr a \<and> f a = Some (z, m'))"
  by (cases r) auto

lemma op_then_eq: "op_then s f = Some (z, m') \<longleftrightarrow>
    (\<exists>e. s = Some (Inl e, m') \<and> z = Inl e) \<or> (\<exists>a m1. s = Some (Inr a, m1) \<and> f a m1 = Some (z, m'))"
  by (auto simp: op_then_def split: option.splits sum.splits prod.splits)

text \<open>The parts of a manager that a write does not touch.\<close>

definition same_setup :: "manager \<Rightarrow> manager \<Rightarrow> bool" where
  "same_setup m m' \<longleftrightarrow> m' = m\<lparr>m_db := m_db m', m_cache := m_cache m', m_events := m_events m'\<rparr>"

lemma same_setup_refl [simp]: "same_setup m m"
  by (simp add: same_setup_def)

lemma same_setup_update [simp]: "same_setup m (m\<lparr>m_db := d, m_events := events\<rparr>)" "same_setup m (m\<lparr>m_cache := c\<rparr>)"
  by (simp_all add: same_setup_def)

lemma same_setup_trans:
  assumes "same_setup a b" "same_setup b c"
  shows "same_setup a c"
proof -
  obtain d k e where b: "b = a\<lparr>m_db := d, m_cache := k, m_events := e\<rparr>" using assms(1) unfolding same_setup_def by blast
  obtain d' k' e' where "c = b\<lparr>m_db := d', m_cache := k', m_events := e'\<rparr>" using assms(2) unfolding same_setup_def by blast
  then show ?thesis by (simp add: b same_setup_def)
qed

lemma same_setupD: "same_setup m m' \<Longrightarrow> m_limit m' = m_limit m \<and> m_open m' = m_open m \<and> m_has_cache m' = m_has_cache m \<and>
    m_search_only m' = m_search_only m \<and> m_sealed m' = m_sealed m \<and> m_storage m' = m_storage m \<and> m_backup m' = m_backup m \<and>
    m_retention m' = m_retention m \<and> m_files m' = m_files m \<and> is_blob_table m' = is_blob_table m"
  unfolding same_setup_def by (erule ssubst) (simp add: is_blob_table_def[abs_def] table_storage_mode_def)

text \<open>What only touches the cache.\<close>

definition only_cache :: "manager \<Rightarrow> manager \<Rightarrow> bool" where
  "only_cache m m' \<longleftrightarrow> m' = m\<lparr>m_cache := m_cache m'\<rparr>"

lemma only_cache_trans:
  assumes "only_cache a b" "only_cache b c"
  shows "only_cache a c"
proof -
  obtain k where b: "b = a\<lparr>m_cache := k\<rparr>" using assms(1) unfolding only_cache_def by blast
  obtain k' where "c = b\<lparr>m_cache := k'\<rparr>" using assms(2) unfolding only_cache_def by blast
  then show ?thesis by (simp add: b only_cache_def)
qed

lemma only_cacheD: "only_cache m m' \<Longrightarrow> m_db m' = m_db m \<and> m_events m' = m_events m \<and> same_setup m m'"
  unfolding only_cache_def same_setup_def by (erule ssubst) simp

lemma only_cache_foldl: "(\<And>m a. only_cache m (f m a)) \<Longrightarrow> only_cache m (foldl f m as)"
proof (induction as arbitrary: m)
  case (Cons a as)
  then show ?case using only_cache_trans[of m "f m a"] by simp
qed (simp add: only_cache_def)

lemma only_cache_ops [simp]: "only_cache m (cache_put t k v m)" "only_cache m (cache_drop t k m)" "only_cache m (clear_cache m)"
  by (simp_all add: only_cache_def cache_put_def cache_drop_def clear_cache_def)

definition cache_changes :: "write_row list \<Rightarrow> (string \<times> string) list \<Rightarrow> manager \<Rightarrow> manager" where
  "cache_changes writes deletes m = foldl (\<lambda>m (t, k). cache_drop t k m)
     (foldl (\<lambda>m (t, k, v). cache_after_raw_write t [(k, v)] m) m writes) deletes"

lemma only_cache_changes: "only_cache m (cache_changes writes deletes m)"
proof -
  have "only_cache m (cache_after_raw_write t rows m)" for t rows m
    unfolding cache_after_raw_write_def by (rule only_cache_foldl) (simp split: prod.split)
  then show ?thesis
    unfolding cache_changes_def by (intro only_cache_trans[OF only_cache_foldl only_cache_foldl]) (simp_all split: prod.split)
qed

lemmas cache_changes_same [simp] = only_cacheD[OF only_cache_changes, THEN conjunct1]
  only_cacheD[OF only_cache_changes, THEN conjunct2, THEN conjunct1] only_cacheD[OF only_cache_changes, THEN conjunct2, THEN conjunct2]

text \<open>How a write of the manager ends.\<close>

lemma journal_write_cases:
  assumes "journal_write h x f m = Some (z, m')"
  obtains e where "z = Inl e" "m' = m"
  | out d events where "z = Inr out" "m_open m" "write_with_sink h x (m_retention m) f (m_db m) = Some (Inr (out, d, events))"
    "m' = m\<lparr>m_db := d, m_events := m_events m @ events\<rparr>"
  using assms unfolding journal_write_def op_check_eq
  by (auto simp: db_guard_def split: option.splits sum.splits prod.splits)

text \<open>Names and keys are texts of the program: well-formed strings.\<close>

definition strs :: "write_row list \<Rightarrow> (string \<times> string) list \<Rightarrow> bool" where
  "strs writes deletes \<longleftrightarrow> (\<forall>(t, k, v) \<in> set writes. is_str t \<and> is_str k) \<and> (\<forall>(t, k) \<in> set deletes. is_str t \<and> is_str k)"

lemma strs_ok:
  assumes "strs writes deletes" "\<forall>t \<in> fst ` set writes \<union> fst ` set deletes. \<not> starts_with_reserved t"
  shows "rows_ok writes" "keys_ok deletes"
  using assms unfolding strs_def rows_ok_def keys_ok_def name_ok_def by (simp_all add: ball_Un split_beta)

text \<open>The account of one committed write: the transaction it ran, its effects, and the state it left.\<close>

definition accounted :: "manager \<Rightarrow> db \<Rightarrow> change_kind list \<Rightarrow> manager \<Rightarrow> library_event list \<Rightarrow> bool" where
  "accounted m d1 es m' events \<longleftrightarrow> tracks {} (m_db m) d1 es \<and> committed (m_retention m) d1 es (m_db m') events \<and>
     store_inv (m_db m') \<and> visible (m_db m') = visible d1 \<and> visible (m_db m') = replay d1 es (visible (m_db m)) \<and>
     m_events m' = m_events m @ events"

lemma visible_rows: "visible d = visible d' \<Longrightarrow> \<not> starts_with_reserved t \<Longrightarrow> get_row d t = get_row d' t"
  unfolding visible_def by (metis (mono_tags, lifting) store.select_convs(1))

lemma visible_refs: "visible d = visible d' \<Longrightarrow> blob_get d = blob_get d'"
  by (simp add: visible_def)

context tx_contract
begin

lemma journal_write_at:
  assumes "pre p" "store_inv (m_db m)"
  obtains e where "journal_write h x (body p) m = Some (Inl e, m)"
  | out d1 es d events where "m_open m" "body p (m_db m) = Inr (out, d1, es)"
    "accounted m d1 es (m\<lparr>m_db := d, m_events := m_events m @ events\<rparr>) events"
    "journal_write h x (body p) m = Some (Inr out, m\<lparr>m_db := d, m_events := m_events m @ events\<rparr>)"
proof (cases "m_open m")
  case True
  from outcome[OF assms, of h x "m_retention m"] show thesis
  proof (elim disjE exE conjE)
    fix e assume "write_with_sink h x (m_retention m) (body p) (m_db m) = Some (Inl e)"
    then show thesis using that(1) True by (simp add: journal_write_def db_guard_def)
  next
    fix out d1 es d events
    assume w: "write_with_sink h x (m_retention m) (body p) (m_db m) = Some (Inr (out, d, events))"
      and b: "body p (m_db m) = Inr (out, d1, es)" and c: "tracks {} (m_db m) d1 es" "committed (m_retention m) d1 es d events"
        "store_inv d" "visible d = visible d1" "visible d = replay d1 es (visible (m_db m))"
    have "accounted m d1 es (m\<lparr>m_db := d, m_events := m_events m @ events\<rparr>) events" using c by (simp add: accounted_def)
    then show thesis using that(2) True b w by (simp add: journal_write_def db_guard_def)
  qed
qed (use that(1) in \<open>simp add: journal_write_def db_guard_def\<close>)

end

lemma accounted_db: "m_db m = m_db n \<Longrightarrow> m_events m = m_events n \<Longrightarrow> m_retention m = m_retention n \<Longrightarrow>
    m_db m' = m_db n' \<Longrightarrow> m_events m' = m_events n' \<Longrightarrow> accounted m d1 es m' events = accounted n d1 es n' events"
  by (simp add: accounted_def)

lemma apply_changes_at:
  assumes inv: "store_inv (m_db m)" and str: "strs writes deletes"
  obtains e where "apply_changes h x writes deletes m = Some (Inl e, m)"
  | removed d1 es m' events where "apply_changes h x writes deletes m = Some (Inr removed, m')"
    "change_body h m writes deletes (m_db m) = Inr (removed, d1, es)" "accounted m d1 es m' events"
    "same_setup m m'" "rows_ok writes" "keys_ok deletes"
    "m' = cache_changes writes deletes (m\<lparr>m_db := m_db m', m_events := m_events m @ events\<rparr>)"
proof (cases "(\<forall>t \<in> fst ` set writes \<union> fst ` set deletes. \<not> starts_with_reserved t) \<and> m_open m \<and> \<not> m_search_only m")
  case False
  then have "validate_tables (map fst writes @ map fst deletes) \<noteq> Inr () \<or> \<not> m_open m \<or> m_search_only m"
    by (auto simp: validate_tables_Inr)
  then have "\<exists>e. apply_changes h x writes deletes m = Some (Inl e, m)"
    by (cases "validate_tables (map fst writes @ map fst deletes)")
      (auto simp: apply_changes_def db_guard_def ensure_writable_def guard_ok_def)
  then show thesis using that(1) by blast
next
  case True
  then have ok: "rows_ok writes" "keys_ok deletes" using strs_ok[OF str] by blast+
  have g: "validate_tables (map fst writes @ map fst deletes) = Inr ()" using True by (auto simp: validate_tables_Inr)
  have a: "apply_changes h x writes deletes m = op_then (journal_write h x (change_body h m writes deletes) m)
      (\<lambda>removed m. Some (Inr removed, cache_changes writes deletes m))"
    using True g by (simp add: apply_changes_def db_guard_def ensure_writable_def cache_changes_def Let_def)
  show thesis
  proof (cases rule: changes.journal_write_at[of "(h, m, writes, deletes)" m h x, simplified])
    case (4 out d1 es d events)
    let ?m = "m\<lparr>m_db := d, m_events := m_events m @ events\<rparr>"
    have acc: "accounted m d1 es (cache_changes writes deletes ?m) events"
      using 4(3) by (subst accounted_db[of m m _ ?m]) simp_all
    show thesis
      using that(2)[OF _ 4(2) acc same_setup_trans[OF same_setup_update(1) cache_changes_same(3)] ok] 4(4) by (simp add: a)
  qed (use ok inv that(1) in \<open>simp_all add: a\<close>)
qed

section \<open>A change that must commit\<close>

text \<open>The bytes a change takes in the log.\<close>

definition effect_bytes :: "change_kind \<Rightarrow> nat" where
  "effect_bytes e = (case change_parts e of (tag, table, key, payload, sz) \<Rightarrow> 42 + length table + length key + length payload)"

lemma change_encode_total:
  assumes "effect_bytes e \<le> u64_max"
  shows "\<exists>row. change_encode roomy e = Inr row \<and> 8 + length row = effect_bytes e"
proof -
  obtain tag t k v n where p: "change_parts e = (tag, t, k, v, n)" by (metis prod_cases5)
  then show ?thesis using assms
    by (simp add: change_encode_def effect_bytes_def put_part_def vec_with_capacity_def as_bytes_def)
qed

lemma append_effects_total:
  assumes "head + length es \<le> u64_max" "bytes + sum_list (map effect_bytes es) \<le> u64_max"
  shows "\<exists>r. append_effects roomy es head bytes rows = Inr r"
  using assms
proof (induction es arbitrary: head bytes rows)
  case (Cons e es)
  obtain row where r: "change_encode roomy e = Inr row" "8 + length row = effect_bytes e"
    using change_encode_total[of e] Cons.prems(2) by auto
  then have "append_effect roomy (head, bytes, rows) e = Inr (Suc head, bytes + effect_bytes e, tbl_insert rows (Suc head) row)"
    using Cons.prems by (simp add: append_effect_def checked_add_u64_def)
  then show ?case using Cons.IH[of "Suc head" "bytes + effect_bytes e"] Cons.prems
    by (simp add: append_effects_def del: roomy_simps(1))
qed (simp add: append_effects_def)

lemma lastwrites_total: "head + n + length es \<le> u64_max \<Longrightarrow> \<exists>d'. foldM (lastwrite_step head) d (List.enumerate n es) = Inr d'"
  by (induction es arbitrary: d n) (auto simp: lastwrite_step_def checked_add_u64_def)

lemma record_effects_total:
  assumes "id_defs d = []" "unique_defs d = []" "number d ''head'' = Inr head" "number d ''journal_bytes'' = Inr bytes"
    "head + length es \<le> u64_max" "bytes + sum_list (map effect_bytes es) \<le> u64_max"
  shows "\<exists>d'. record_effects roomy x d es = Inr d'"
proof -
  obtain d2 where d2: "foldM (lastwrite_step head) d (List.enumerate 0 es) = Inr d2" using lastwrites_total[of head 0 es d] assms(5) by auto
  obtain r where "append_effects roomy es head bytes (changes_table d2) = Inr r" using append_effects_total[OF assms(5,6)] by blast
  then show ?thesis using assms(1-4) d2 by (cases r) (simp add: record_effects_def id_validate_def uq_validate_def)
qed

lemma write_total:
  assumes "store_inv d" "f d = Inr (out, d1, es)" "tracks {} d d1 es" "id_defs d1 = []" "unique_defs d1 = []"
    "number d ''head'' = Inr head" "number d ''journal_bytes'' = Inr bytes"
    "head + length es \<le> u64_max" "bytes + sum_list (map effect_bytes es) \<le> u64_max"
  shows "\<exists>d' events. write_with_sink roomy x r f d = Some (Inr (out, d', events))"
proof -
  have t: "log_kept d d1" "\<forall>e \<in> set es. effect_ok e" using assms(3) by (auto simp: tracks_def)
  have inv: "journal_inv d" using assms(1) by (simp add: store_inv_def)
  have inv1: "journal_inv d1" by (rule log_kept_inv[OF t(1) inv])
  have n: "number d1 ''head'' = Inr head" "number d1 ''journal_bytes'' = Inr bytes"
    using log_kept_number[OF t(1)] assms(6,7) by simp_all
  obtain hi gen where at: "journal_at d1 hi gen" using inv1 by (auto simp: journal_inv_def)
  then have at: "journal_at d1 head gen" using journal_atD(3)[OF at] n(1) by simp
  obtain d2 where d2: "record_effects roomy x d1 es = Inr d2" using record_effects_total[OF assms(4,5) n assms(8,9)] by blast
  then have at2: "journal_at d2 (head + length es) gen" using record_effects_at[OF at d2 t(2)] by blast
  have g: "grants roomy" by (simp add: grants_def)
  obtain d3 where d3: "prune_acked roomy d2 = Inr d3" using prune_acked_total[OF at2 g] by blast
  have "write_with_sink roomy x r f d \<noteq> Some (Inl e)" for e
    using enforce_total[OF conjunct1[OF prune_acked_at[OF at2 d3]] g, of r e] assms(2) d2 d3
    by (auto simp: write_with_sink_def split: option.splits sum.splits)
  then show ?thesis using write_at[where f = f, OF inv assms(2) inv1 t(2), of roomy x r] by auto
qed

text \<open>The changes a batch asks for.\<close>

definition planned :: "write_row list \<Rightarrow> (string \<times> string) list \<Rightarrow> change_kind list" where
  "planned writes deletes = map (\<lambda>(t, k, v). Upsert t k v) writes @ map (\<lambda>(t, k). Delete t k) deletes"

lemma plain_writes:
  "\<forall>(t, k, v) \<in> set writes. \<not> is_blob_table m t \<Longrightarrow>
   \<exists>d'. foldM (write_one roomy m) (d, es) writes = Inr (d', es @ planned writes []) \<and>
     id_defs d' = id_defs d \<and> unique_defs d' = unique_defs d"
proof (induction writes arbitrary: d es)
  case (Cons w writes)
  obtain t k v where w: "w = (t, k, v)" by (cases w)
  let ?d = "put_row (open_write d t) t k v"
  have "write_one roomy m (d, es) w = Inr (?d, es @ [Upsert t k v])" using Cons.prems by (simp add: write_one_def w)
  moreover have "id_defs ?d = id_defs d" "unique_defs ?d = unique_defs d" by (simp_all add: put_row_def)
  ultimately show ?case using Cons.IH[of ?d "es @ [Upsert t k v]"] Cons.prems
    by (auto simp: planned_def w simp del: roomy_simps(1))
qed (simp add: planned_def)

lemma plain_deletes:
  assumes "\<forall>(t, k) \<in> set deletes. \<not> is_blob_table m t"
  shows "\<exists>d' kept rs'. foldl (delete_one m) (d, es, rs) deletes = (d', es @ kept, rs') \<and> id_defs d' = id_defs d \<and>
    unique_defs d' = unique_defs d \<and> length kept \<le> length deletes \<and>
    sum_list (map effect_bytes kept) \<le> sum_list (map effect_bytes (planned [] deletes))"
  using assms
proof (induction deletes arbitrary: d es rs)
  case (Cons r deletes)
  obtain t k where r: "r = (t, k)" by (cases r)
  let ?d = "del_row (open_write d t) t k" and ?found = "get_row (open_write d t) t k \<noteq> None"
  let ?new = "if ?found then [Delete t k] else []"
  have "delete_one m (d, es, rs) r = (?d, es @ ?new, rs @ [?found])" using Cons.prems by (simp add: delete_one_def r Let_def)
  moreover have "id_defs ?d = id_defs d" "unique_defs ?d = unique_defs d" by (simp_all add: del_row_def)
  moreover obtain d' kept rs' where "foldl (delete_one m) (?d, es @ ?new, rs @ [?found]) deletes = (d', (es @ ?new) @ kept, rs')"
    "id_defs d' = id_defs ?d" "unique_defs d' = unique_defs ?d" "length kept \<le> length deletes"
    "sum_list (map effect_bytes kept) \<le> sum_list (map effect_bytes (planned [] deletes))"
    using Cons.IH[of ?d "es @ ?new" "rs @ [?found]"] Cons.prems by auto
  ultimately show ?case by (intro exI[of _ d'] exI[of _ "?new @ kept"] exI[of _ rs']) (auto simp: planned_def r)
qed (simp add: planned_def)

lemma plain_body:
  assumes "\<forall>(t, k, v) \<in> set writes. \<not> is_blob_table m t" "\<forall>(t, k) \<in> set deletes. \<not> is_blob_table m t"
  shows "\<exists>removed d1 es. change_body roomy m writes deletes d = Inr (removed, d1, es) \<and> id_defs d1 = id_defs d \<and>
    unique_defs d1 = unique_defs d \<and> length es \<le> length writes + length deletes \<and>
    sum_list (map effect_bytes es) \<le> sum_list (map effect_bytes (planned writes deletes))"
proof -
  obtain d2 where w: "foldM (write_one roomy m) (d, []) writes = Inr (d2, planned writes [])"
    "id_defs d2 = id_defs d" "unique_defs d2 = unique_defs d" using plain_writes[OF assms(1), of d "[]"] by auto
  obtain d3 kept rs where "foldl (delete_one m) (d2, planned writes [], []) deletes = (d3, planned writes [] @ kept, rs)"
    "id_defs d3 = id_defs d2" "unique_defs d3 = unique_defs d2" "length kept \<le> length deletes"
    "sum_list (map effect_bytes kept) \<le> sum_list (map effect_bytes (planned [] deletes))"
    using plain_deletes[OF assms(2), of d2 "planned writes []" "[]"] by blast
  then show ?thesis using w by (simp add: change_body_def del: roomy_simps(1)) (simp add: planned_def)
qed

lemma plain_changes_commit:
  assumes inv: "store_inv (m_db m)" and str: "strs writes deletes" and m: "m_open m" "\<not> m_search_only m"
    and t: "\<forall>t \<in> fst ` set writes \<union> fst ` set deletes. \<not> starts_with_reserved t \<and> \<not> is_blob_table m t"
    and free: "id_defs (m_db m) = []" "unique_defs (m_db m) = []"
    and n: "number (m_db m) ''head'' = Inr head" "number (m_db m) ''journal_bytes'' = Inr bytes"
    and room: "head + length writes + length deletes \<le> u64_max" "bytes + sum_list (map effect_bytes (planned writes deletes)) \<le> u64_max"
  shows "\<exists>removed m'. apply_changes roomy x writes deletes m = Some (Inr removed, m')"
proof -
  have ok: "rows_ok writes" "keys_ok deletes" using strs_ok[OF str] t by auto
  have p: "\<forall>(t, k, v) \<in> set writes. \<not> is_blob_table m t" "\<forall>(t, k) \<in> set deletes. \<not> is_blob_table m t"
    using t by (simp_all add: ball_Un split_beta)
  obtain removed d1 es where b: "change_body roomy m writes deletes (m_db m) = Inr (removed, d1, es)"
    "id_defs d1 = []" "unique_defs d1 = []" "length es \<le> length writes + length deletes"
    "sum_list (map effect_bytes es) \<le> sum_list (map effect_bytes (planned writes deletes))"
    using plain_body[OF p, of "m_db m"] unfolding free by blast
  have "tracks {} (m_db m) d1 es" using change_body_at[OF inv ok b(1)] by blast
  then obtain d' events where "write_with_sink roomy x (m_retention m) (change_body roomy m writes deletes) (m_db m) =
      Some (Inr (removed, d', events))"
    using write_total[where f = "change_body roomy m writes deletes", OF inv b(1) _ b(2,3) n, of x "m_retention m"] b(4,5) room by auto
  then have j: "journal_write roomy x (change_body roomy m writes deletes) m =
      Some (Inr removed, m\<lparr>m_db := d', m_events := m_events m @ events\<rparr>)" using m by (simp add: journal_write_def db_guard_def)
  have "validate_tables (map fst writes @ map fst deletes) = Inr ()" using t by (auto simp: validate_tables_Inr)
  then show ?thesis using m j by (simp add: apply_changes_def db_guard_def ensure_writable_def Let_def del: roomy_simps(1))
qed

section \<open>A sample manager\<close>

definition sample_manager :: manager where
  "sample_manager = \<lparr>m_db = sample_open, m_open = True, m_path = ''db'', m_cache = Map.empty, m_has_cache = True,
     m_retention = Unlimited, m_limit = 1, m_storage = [(''files'', BlobSidecar)], m_sealed = [''secret''], m_search_only = False,
     m_backup = None, m_handle = 1, m_blob_enabled = True, m_files = [], m_events = [],
     m_migrations = \<lparr>mi_db_name = ''db'', mi_root = [], mi_tables = [], mi_files = Map.empty\<rparr>, m_tables = []\<rparr>"

lemma store_inv_open: "store_inv (initialize uuid (mark_adoption_due empty_db))"
proof -
  let ?d = "initialize uuid (mark_adoption_due empty_db)"
  have "journal_inv ?d" using initialize_at by (auto simp: journal_inv_def)
  moreover have "refs_ok ?d" "images_fresh ?d"
    by (simp_all add: refs_ok_def images_fresh_def get_row_def rows_of_def initialize_def mark_adoption_due_def empty_db_def)
  ultimately show ?thesis by (simp add: store_inv_def)
qed

lemma sample_manager_inv: "store_inv (m_db sample_manager)"
  using store_inv_open by (simp add: sample_manager_def sample_open_def)

lemma sample_is_str [simp]: "is_str ''t''" "is_str ''k''" "is_str ''j''" "is_str ''files''"
  by (simp_all add: is_str_def as_bytes_def u8_in_def)

lemma sample_free: "id_defs (m_db sample_manager) = []" "unique_defs (m_db sample_manager) = []"
  "number (m_db sample_manager) ''head'' = Inr 0" "number (m_db sample_manager) ''journal_bytes'' = Inr 0"
  "m_open sample_manager" "\<not> m_search_only sample_manager" "\<not> is_blob_table sample_manager ''t''" "m_limit sample_manager = 1"
  using journal_atD(3,5)[OF sample_open_at]
  by (simp_all add: sample_manager_def sample_defs is_blob_table_def table_storage_mode_def)

lemma sample_applied: "\<exists>removed m'. apply_changes roomy sample_ext [(''t'', ''k'', [1])] [(''t'', ''j'')] sample_manager = Some (Inr removed, m')"
  by (rule plain_changes_commit[OF sample_manager_inv _ sample_free(5,6) _ sample_free(1-4)])
    (simp_all add: strs_def starts_with_reserved_def sample_free planned_def effect_bytes_def u64_max_def)

section \<open>Properties of a transaction\<close>

text \<open>C2. A batch of writes and deletes returns, and is all or nothing. When it succeeds, the stored rows of every
  table of the application are the old rows with the writes put in order and the deletes taken out, the
  references of deleted rows of attachment tables are gone and no others, each delete that is the first of its key reports whether
  there was a row or an attachment to delete, and the database is sound again. When it fails, the
  manager is as it was.\<close>

theorem apply_changes_exact:
  assumes "store_inv (m_db m)" "strs writes deletes"
  shows "\<exists>z m'. apply_changes h x writes deletes m = Some (z, m') \<and> store_inv (m_db m') \<and> (case z of
      Inl e \<Rightarrow> m' = m
    | Inr removed \<Rightarrow>
        (\<forall>t. \<not> starts_with_reserved t \<longrightarrow> get_row (m_db m') t = drop_rows deletes (put_rows writes (get_row (m_db m))) t) \<and>
        blob_get (m_db m') = drop_rows (filter (\<lambda>(t, _). is_blob_table m t) deletes) (blob_get (m_db m)) \<and>
        length removed = length deletes \<and>
        (\<forall>i < length deletes. deletes ! i \<notin> set (take i deletes) \<longrightarrow> removed ! i = (case deletes ! i of (t, k) \<Rightarrow>
          put_rows writes (get_row (m_db m)) t k \<noteq> None \<or> is_blob_table m t \<and> blob_get (m_db m) t k \<noteq> None)))"
  using assms
proof (cases rule: apply_changes_at[of m writes deletes h x])
  case (1 e)
  then show ?thesis using assms(1) by simp
next
  case (2 removed d1 es m' events)
  have v: "visible (m_db m') = visible d1" "store_inv (m_db m')" using 2(3) by (simp_all add: accounted_def)
  note b = change_body_at[OF assms(1) 2(5,6,2)]
  have "get_row (m_db m') t = drop_rows deletes (put_rows writes (get_row (m_db m))) t" if "\<not> starts_with_reserved t" for t
    using visible_rows[OF v(1) that] b by metis
  then show ?thesis using 2(1) v(2) visible_refs[OF v(1)] b by simp
qed

theorem apply_changes_exact_witness:
  "\<exists>m'. apply_changes roomy sample_ext [(''t'', ''k'', [1])] [(''t'', ''j'')] sample_manager = Some (Inr [False], m') \<and>
     get_row (m_db m') ''t'' ''k'' = Some [1] \<and> get_row (m_db m') ''t'' ''j'' = None"
proof -
  have s: "strs [(''t'', ''k'', [1])] [(''t'', ''j'')]" "\<not> starts_with_reserved ''t''" by (simp_all add: strs_def starts_with_reserved_def)
  have "get_row (m_db sample_manager) ''t'' ''j'' = None"
    by (simp add: sample_manager_def sample_defs get_row_def rows_of_def)
  then show ?thesis
    using apply_changes_exact[OF sample_manager_inv s(1), of roomy sample_ext] sample_applied s(2)
    by (auto simp: drop_rows_def sample_free length_Suc_conv)
qed

text \<open>C33. A batch on tables without contracts and attachments cannot fail on an open, writable database that grants memory, as
  long as the sequence numbers and the byte count of the log do not run out.\<close>

theorem apply_changes_commits:
  assumes "store_inv (m_db m)" "strs writes deletes" "m_open m" "\<not> m_search_only m"
    and "\<forall>t \<in> fst ` set writes \<union> fst ` set deletes. \<not> starts_with_reserved t \<and> \<not> is_blob_table m t"
    and "id_defs (m_db m) = []" "unique_defs (m_db m) = []"
    and "number (m_db m) ''head'' = Inr head" "number (m_db m) ''journal_bytes'' = Inr bytes"
    and "head + length writes + length deletes \<le> u64_max" "bytes + sum_list (map effect_bytes (planned writes deletes)) \<le> u64_max"
  shows "\<exists>removed m'. apply_changes roomy x writes deletes m = Some (Inr removed, m')"
  using plain_changes_commit assms .

theorem apply_changes_commits_witness:
  "\<exists>removed m'. apply_changes roomy sample_ext [(''t'', ''k'', [1, 2])] [] sample_manager = Some (Inr removed, m')"
  by (rule apply_changes_commits[OF sample_manager_inv _ sample_free(5,6) _ sample_free(1-4)])
    (simp_all add: strs_def starts_with_reserved_def sample_free planned_def effect_bytes_def u64_max_def)

end
