(* ===== verification/Repository_Steps.thy ===== *)
theory Repository_Steps
  imports Repository_Safety
begin

text \<open>
  The runs of a database manager: the writes it can make, the other steps it can take, and what holds in
  every manager such a run reaches. The cache never answers with old rows, and a reader of the change log that
  applies what it reads always has the state the application sees.
\<close>

section \<open>How the other writes end\<close>

text \<open>A write is accounted for, or leaves the file, the events and the cache alone.\<close>

definition undone :: "manager \<Rightarrow> manager \<Rightarrow> bool" where
  "undone m m' \<longleftrightarrow> m' = m\<lparr>m_files := m_files m'\<rparr>"

lemma undone_refl [simp]: "undone m m"
  by (simp add: undone_def)

lemma undone_trans: 
  assumes "undone a b" "undone b c"
  shows "undone a c"
proof -
  obtain f where b: "b = a\<lparr>m_files := f\<rparr>" using assms(1) unfolding undone_def by blast
  obtain g where "c = b\<lparr>m_files := g\<rparr>" using assms(2) unfolding undone_def by blast
  then show ?thesis by (simp add: b undone_def)
qed

lemma undoneD: "undone m m' \<Longrightarrow> m_db m' = m_db m \<and> m_events m' = m_events m \<and> m_cache m' = m_cache m \<and>
    m_retention m' = m_retention m \<and> m_has_cache m' = m_has_cache m \<and> m_search_only m' = m_search_only m \<and>
    m_open m' = m_open m \<and> m_sealed m' = m_sealed m \<and> m_limit m' = m_limit m \<and> is_blob_table m' = is_blob_table m"
  unfolding undone_def by (erule ssubst) (simp add: is_blob_table_def[abs_def] table_storage_mode_def)

lemma accounted_undone: "undone m m1 \<Longrightarrow> accounted m1 d1 es m' events = accounted m d1 es m' events"
  by (rule accounted_db) (auto dest: undoneD)

lemma prepare_blob_at: "prepare_blob uuid t k bs m = Inr (r, m1) \<Longrightarrow>
    undone m m1 \<and> \<not> starts_with_reserved t \<and> blob_id r = ''__v_'' @ uuid \<and> blob_size r = length bs"
  by (auto simp: prepare_blob_def validate_table_def undone_def Let_def)

lemma prepare_copy_at: "prepare_copy_from uuid source u j t k m = Inr (r, m1) \<Longrightarrow> \<exists>bs. open_current_blob source u j = Inr bs \<and>
    undone m m1 \<and> \<not> starts_with_reserved t \<and> blob_id r = ''__v_'' @ uuid \<and> blob_size r = length bs"
  by (auto simp: prepare_copy_from_def validate_table_def undone_def Let_def)

lemma replace_table_at:
  assumes inv: "store_inv (m_db m)" and t: "is_str t"
  obtains e where "replace_table h x t entries m = Some (Inl e, m)"
  | d1 es d events where "replace_table h x t entries m = Some (Inr (), clear_cache (m\<lparr>m_db := d, m_events := m_events m @ events\<rparr>))"
    "replace_body m t entries (m_db m) = Inr ((), d1, es)" "name_ok t" "t \<notin> set (m_sealed m)" "m_open m" "\<not> m_search_only m"
    "accounted m d1 es (m\<lparr>m_db := d, m_events := m_events m @ events\<rparr>) events"
proof (cases "t \<notin> set (m_sealed m) \<and> \<not> m_search_only m \<and> \<not> starts_with_reserved t")
  case False
  then have "\<exists>e. replace_table h x t entries m = Some (Inl e, m)"
    by (auto simp: replace_table_def refuse_sealed_def ensure_writable_def validate_table_def guard_ok_def)
  then show thesis using that(1) by blast
next
  case True
  then have n: "name_ok t" using t by (simp add: name_ok_def)
  have a: "replace_table h x t entries m = op_then (journal_write h x (replace_body m t entries) m) (\<lambda>_ m. Some (Inr (), clear_cache m))"
    using True by (simp add: replace_table_def refuse_sealed_def ensure_writable_def validate_table_def)
  show thesis
  proof (cases rule: replacement.journal_write_at[of "(m, t, entries)" m h x, simplified])
    case (4 d1 es d events)
    show thesis by (rule that(2)[OF _ 4(2) n _ 4(1) _ 4(3)]) (use True 4(4) in \<open>simp_all add: a\<close>)
  qed (use n inv that(1) in \<open>simp_all add: a\<close>)
qed

lemma is_str_name: "is_str uuid \<Longrightarrow> is_str (''__v_'' @ uuid)"
  by (simp add: is_str_def as_bytes_def u8_in_def)

lemma publish_blob_at:
  assumes inv: "store_inv (m_db m)" and str: "is_str t" "is_str k" "is_str uuid" "length bs \<le> u64_max"
  obtains e m' where "publish_blob h x uuid t k bs metadata m = Some (Inl e, m')" "undone m m'"
  | d1 es m1 d events where "undone m m1" "accounted m d1 es (m1\<lparr>m_db := d, m_events := m_events m @ events\<rparr>) events"
    "publish_body t k \<lparr>blob_id = ''__v_'' @ uuid, blob_size = length bs\<rparr> metadata (m_db m) = Inr ((), d1, es)" "name_ok t"
    "publish_blob h x uuid t k bs metadata m = Some (Inr (), case metadata of
       None \<Rightarrow> m1\<lparr>m_db := d, m_events := m_events m @ events\<rparr>
     | Some v \<Rightarrow> cache_put t k v (m1\<lparr>m_db := d, m_events := m_events m @ events\<rparr>))"
proof (cases "prepare_blob uuid t k bs m")
  case (Inl e)
  then show thesis using that(1) by (simp add: publish_blob_def)
next
  case (Inr z)
  obtain r m1 where z: "prepare_blob uuid t k bs m = Inr (r, m1)" using Inr by (cases z) auto
  have p: "undone m m1" "\<not> starts_with_reserved t" "r = \<lparr>blob_id = ''__v_'' @ uuid, blob_size = length bs\<rparr>"
    using prepare_blob_at[OF z] by auto
  note u = undoneD[OF p(1)]
  have n: "name_ok t" "is_str (blob_id r)" "blob_size r \<le> u64_max"
    using str p by (auto simp: name_ok_def is_str_name[simplified])
  have a: "publish_blob h x uuid t k bs metadata m = op_then (journal_write h x (publish_body t k r metadata) m1) (\<lambda>_ m.
     Some (Inr (), case metadata of None \<Rightarrow> m | Some v \<Rightarrow> cache_put t k v m))"
    by (simp add: publish_blob_def z)
  show thesis
  proof (cases rule: publication.journal_write_at[of "(t, k, r, metadata)" m1 h x, simplified])
    case (3 e)
    then show thesis using that(1) a p(1) by simp
  next
    case (4 d1 es d events)
    then show thesis using that(2)[OF p(1), of d1 es events d] n(1) u p(3) by (simp add: a accounted_undone[OF p(1)])
  qed (use n u inv str in simp_all)
qed

text \<open>The files a manager holds and reads stay below the limit of a 64-bit size.\<close>

definition files_ok :: "manager \<Rightarrow> bool" where
  "files_ok m \<longleftrightarrow> (\<forall>f bs. tbl_get (m_files m) f = Some bs \<longrightarrow> length bs \<le> u64_max)"

lemma open_current_at: "open_current_blob source u j = Inr bs \<Longrightarrow> \<exists>f. tbl_get (m_files source) f = Some bs"
  by (auto simp: open_current_blob_def open_blob_version_row_def open_blob_version_def)

lemma copy_blob_at:
  assumes inv: "store_inv (m_db m)" and str: "is_str t" "is_str k" "is_str uuid" "files_ok source"
  obtains e m' where "copy_blob h x uuid source u j t k m = Some (Inl e, m')" "undone m m'"
  | d1 es m1 r d events where "undone m m1" "accounted m d1 es (m1\<lparr>m_db := d, m_events := m_events m @ events\<rparr>) events"
    "publish_body t k r None (m_db m) = Inr ((), d1, es)" "name_ok t"
    "copy_blob h x uuid source u j t k m = Some (Inr (), m1\<lparr>m_db := d, m_events := m_events m @ events\<rparr>)"
proof (cases "prepare_copy_from uuid source u j t k m")
  case (Inl e)
  then show thesis using that(1) by (simp add: copy_blob_def)
next
  case (Inr z)
  obtain r m1 where z: "prepare_copy_from uuid source u j t k m = Inr (r, m1)" using Inr by (cases z) auto
  obtain bs where p: "undone m m1" "\<not> starts_with_reserved t" "blob_id r = ''__v_'' @ uuid" "blob_size r = length bs"
    "open_current_blob source u j = Inr bs" using prepare_copy_at[OF z] by auto
  note u = undoneD[OF p(1)]
  have n: "name_ok t" "is_str (blob_id r)" "blob_size r \<le> u64_max"
    using str p open_current_at[OF p(5)] by (auto simp: name_ok_def files_ok_def is_str_name[simplified])
  have a: "copy_blob h x uuid source u j t k m = journal_write h x (publish_body t k r None) m1" by (simp add: copy_blob_def z)
  show thesis
  proof (cases rule: publication.journal_write_at[of "(t, k, r, None)" m1 h x, simplified])
    case (3 e)
    then show thesis using that(1) a p(1) by simp
  next
    case (4 d1 es d events)
    then show thesis using that(2)[OF p(1), of d1 es events d r] n(1) u by (simp add: a accounted_undone[OF p(1)])
  qed (use n u inv str in simp_all)
qed

text \<open>The attachments a rewrite prepares first.\<close>

definition blob_args_ok :: "(string \<times> write_row) list \<Rightarrow> bool" where
  "blob_args_ok blobs \<longleftrightarrow> (\<forall>(uuid, t, k, v) \<in> set blobs. is_str uuid \<and> is_str t \<and> is_str k \<and> length v \<le> u64_max)"

definition copy_args_ok :: "(string \<times> string \<times> string \<times> manager \<times> string \<times> string) list \<Rightarrow> bool" where
  "copy_args_ok copies \<longleftrightarrow> (\<forall>(uuid, t, k, source, u, j) \<in> set copies. is_str uuid \<and> is_str t \<and> is_str k \<and> files_ok source)"

lemma prepare_blobs_at:
  assumes "prepare_blobs blobs out m = (z, m')" "blobs_ok out" "blob_args_ok blobs"
  shows "undone m m' \<and> (\<forall>prepared. z = Inr prepared \<longrightarrow> blobs_ok prepared)"
  using assms
proof (induction blobs out m rule: prepare_blobs.induct)
  case (2 uuid t k v bs out m)
  show ?case
  proof (cases "prepare_blob uuid t k v m")
    case (Inr y)
    then obtain r m1 where y: "prepare_blob uuid t k v m = Inr (r, m1)" by (cases y) auto
    note p = prepare_blob_at[OF y]
    have "blobs_ok (out @ [(t, k, r)])"
      using 2(3,4) p by (auto simp: blobs_ok_def blob_args_ok_def is_str_name[simplified])
    then show ?thesis using 2(1)[OF y refl] 2(2,4) p y undone_trans[of m m1 m'] by (simp add: blob_args_ok_def)
  qed (use 2 in auto)
qed auto

lemma prepare_copies_at:
  assumes "prepare_copies copies out m = (z, m')" "blobs_ok out" "copy_args_ok copies"
  shows "undone m m' \<and> (\<forall>prepared. z = Inr prepared \<longrightarrow> blobs_ok prepared)"
  using assms
proof (induction copies out m rule: prepare_copies.induct)
  case (2 uuid t k source u j cs out m)
  show ?case
  proof (cases "prepare_copy_from uuid source u j t k m")
    case (Inr y)
    then obtain r m1 where y: "prepare_copy_from uuid source u j t k m = Inr (r, m1)" by (cases y) auto
    note p = prepare_copy_at[OF y]
    have "blobs_ok (out @ [(t, k, r)])"
      using 2(3,4) p by (auto simp: blobs_ok_def copy_args_ok_def files_ok_def is_str_name[simplified] dest!: open_current_at)
    then show ?thesis using 2(1)[OF y refl] 2(2,4) p y undone_trans[of m m1 m'] by (auto simp: copy_args_ok_def)
  qed (use 2 in auto)
qed auto

lemma rewrite_tables_at:
  assumes inv: "store_inv (m_db m)" and str: "strs writes deletes" "blob_args_ok blobs" "copy_args_ok copies"
  obtains e m' where "rewrite_tables_with_blobs h x writes deletes blobs copies m = Some (Inl e, m')" "undone m m'"
  | d1 es m1 d events prepared where "undone m m1" "accounted m d1 es (m1\<lparr>m_db := d, m_events := m_events m @ events\<rparr>) events"
    "rewrite_body m1 writes deletes prepared (m_db m) = Inr ((), d1, es)" "rows_ok writes" "keys_ok deletes" "blobs_ok prepared"
    "rewrite_tables_with_blobs h x writes deletes blobs copies m =
      Some (Inr (), clear_cache (m1\<lparr>m_db := d, m_events := m_events m @ events\<rparr>))"
proof -
  obtain z1 m1 where b: "prepare_blobs blobs [] m = (z1, m1)" by (cases "prepare_blobs blobs [] m")
  have b': "undone m m1" "z1 = Inr p1 \<Longrightarrow> blobs_ok p1" for p1
    using prepare_blobs_at[OF b _ str(2)] by (auto simp: blobs_ok_def)
  obtain z2 m2 where c: "prepare_copies copies (projr z1) m1 = (z2, m2)" by (cases "prepare_copies copies (projr z1) m1")
  have c': "undone m m2 \<and> (z2 = Inr p2 \<longrightarrow> blobs_ok p2)" if "z1 = Inr p1" for p1 p2
    using prepare_copies_at[OF c _ str(3)] b' that undone_trans[of m m1 m2] by simp
  let ?ts = "validate_tables (changed_tables writes deletes)"
  show thesis
  proof (cases "\<not> m_search_only m \<and> isl z1 = False \<and> isl z2 = False \<and> ?ts = Inr ()")
    case False
    have "\<exists>e m'. rewrite_tables_with_blobs h x writes deletes blobs copies m = Some (Inl e, m') \<and> undone m m'"
      using False b b'(1) c c' by (cases z1; cases z2; cases ?ts) (auto simp: rewrite_tables_with_blobs_def ensure_writable_def guard_ok_def)
    then show thesis using that(1) by blast
  next
    case True
    then obtain p1 prepared where p: "z1 = Inr p1" "z2 = Inr prepared" by (cases z1; cases z2) auto
    have u: "undone m m2" "blobs_ok prepared" using c'[OF p(1), of prepared] p(2) by auto
    have ok: "rows_ok writes" "keys_ok deletes"
      using strs_ok[OF str(1)] True by (auto simp: validate_tables_Inr set_changed_tables)
    have a: "rewrite_tables_with_blobs h x writes deletes blobs copies m =
        op_then (journal_write h x (rewrite_body m2 writes deletes prepared) m2) (\<lambda>_ m. Some (Inr (), clear_cache m))"
      using True b c p by (simp add: rewrite_tables_with_blobs_def ensure_writable_def)
    show thesis
    proof (cases rule: rewriting.journal_write_at[of "(m2, writes, deletes, prepared)" m2 h x, simplified])
      case (3 e)
      then show thesis using that(1) a u(1) by simp
    next
      case (4 d1 es d events)
      then show thesis using that(2)[OF u(1), of d1 es events d prepared] ok u undoneD[OF u(1)] by (simp add: a accounted_undone[OF u(1)])
    qed (use ok u inv undoneD[OF u(1)] in simp_all)
  qed
qed

section \<open>Writes and steps\<close>

text \<open>\<open>N\<close> are the names of the tables whose rows the program writes one by one.\<close>

inductive mwrite :: "string set \<Rightarrow> manager \<Rightarrow> manager \<Rightarrow> bool" for N where
  changed: "strs writes deletes \<Longrightarrow> fst ` set writes \<union> fst ` set deletes \<subseteq> N \<Longrightarrow>
    apply_changes h x writes deletes m = Some (z, m') \<Longrightarrow> mwrite N m m'"
| replaced: "is_str t \<Longrightarrow> replace_table h x t entries m = Some (z, m') \<Longrightarrow> mwrite N m m'"
| rewritten: "strs writes deletes \<Longrightarrow> blob_args_ok blobs \<Longrightarrow> copy_args_ok copies \<Longrightarrow>
    rewrite_tables_with_blobs h x writes deletes blobs copies m = Some (z, m') \<Longrightarrow> mwrite N m m'"
| published: "is_str t \<Longrightarrow> is_str k \<Longrightarrow> is_str uuid \<Longrightarrow> length bs \<le> u64_max \<Longrightarrow> t \<in> N \<Longrightarrow>
    publish_blob h x uuid t k bs metadata m = Some (z, m') \<Longrightarrow> mwrite N m m'"
| copied: "is_str t \<Longrightarrow> is_str k \<Longrightarrow> is_str uuid \<Longrightarrow> files_ok source \<Longrightarrow>
    copy_blob h x uuid source u j t k m = Some (z, m') \<Longrightarrow> mwrite N m m'"

lemma accounted_cache [simp]: "accounted m d1 es (clear_cache m') events = accounted m d1 es m' events"
  "accounted m d1 es (cache_put t k v m') events = accounted m d1 es m' events"
  by (rule accounted_db; simp add: clear_cache_def cache_put_def)+

text \<open>Every write is accounted for, or undone.\<close>

lemma mwrite_at:
  assumes "mwrite N m m'" "store_inv (m_db m)"
  shows "undone m m' \<or> (\<exists>d1 es events. accounted m d1 es m' events)"
  using assms(1)
proof cases
  case (changed writes deletes h x z)
  show ?thesis by (rule apply_changes_at[OF assms(2) changed(1), of h x]) (use changed(3) in auto)
next
  case (replaced t h x entries z)
  show ?thesis by (rule replace_table_at[OF assms(2) replaced(1), of h x entries]) (use replaced(2) in auto)
next
  case (rewritten writes deletes blobs copies h x z)
  show ?thesis by (rule rewrite_tables_at[OF assms(2) rewritten(1-3), of h x]) (use rewritten(4) in auto)
next
  case (published t k uuid bs h x metadata z)
  show ?thesis
    by (rule publish_blob_at[OF assms(2) published(1-4), of h x metadata]) (use published(6) in \<open>auto split: option.splits\<close>)
next
  case (copied t k uuid source h x u j z)
  show ?thesis by (rule copy_blob_at[OF assms(2) copied(1-4), of h x u j]) (use copied(5) in auto)
qed

section \<open>Consumer operations\<close>

text \<open>The bodies that only touch consumers and the log: they write no row, no reference and no change.\<close>

locale housekeeping =
  fixes body :: "'p \<Rightarrow> 'a tx_body"
  assumes quiet_body: "journal_inv d \<Longrightarrow> body p d = Inr (out, d1, es) \<Longrightarrow> es = [] \<and> journal_inv d1 \<and> same_user d d1"
begin

lemma keeps_store:
  assumes "store_inv d" "write_with_sink h x r (body p) d = Some (Inr (out, d', events))"
  shows "store_inv d' \<and> visible d' = visible d"
proof -
  have inv: "journal_inv d" using assms(1) by (simp add: store_inv_def)
  obtain d1 es where b: "body p d = Inr (out, d1, es)" and c: "committed r d1 es d' events"
  proof (rule write_commits[OF inv assms(2)])
    show "journal_inv d1 \<and> (\<forall>e \<in> set es. effect_ok e)" if "body p d = Inr (out, d1, es)" for d1 es
      using quiet_body[OF inv that] by simp
  qed
  have q: "es = []" "same_user d d1" using quiet_body[OF inv b] by auto
  note k = committedD[OF c]
  have rows: "\<forall>t k. \<not> starts_with_reserved t \<longrightarrow> get_row d' t k = get_row d t k"
    using k(2) same_user_get_row[OF q(2)] by simp
  have refs: "blob_refs d' = blob_refs d" using k(3) q(2) by (simp add: same_user_def)
  have s: "shrinks d d'" using k(4) q(2) shrinks_trans by (auto simp: same_user_def)
  then have n: "number d ''reset_generation'' = number d' ''reset_generation''" by (simp add: shrinks_def)
  have "get_row d' t j = None" if "get_row d t j = None" for t j using s that unfolding shrinks_def by (metis not_Some_eq)
  moreover have "tbl_get (reset_blobs d') i = None" if "tbl_get (reset_blobs d) i = None" for i
    using s that unfolding shrinks_def by (metis not_Some_eq)
  moreover have "images_fresh d" using assms(1) by (simp add: store_inv_def)
  ultimately have "images_fresh d'" unfolding images_fresh_def n by blast
  then show ?thesis using k(1) assms(1) visible_eqI[OF rows refs] by (simp add: store_inv_def refs_ok_def refs)
qed

end

interpretation registering: housekeeping "\<lambda>(now, name, intern). register_body now name intern"
proof
  fix d p out d1 es assume inv: "journal_inv d" and b: "(case p of (now, name, intern) \<Rightarrow> register_body now name intern) d = Inr (out, d1, es)"
  obtain now name intern where p: "p = (now, name, intern)" by (metis prod_cases3)
  obtain hi gen where at: "journal_at d hi gen" using inv by (auto simp: journal_inv_def)
  have "same_user d d1"
    using b[unfolded p] journal_atD(1,6)[OF at] by (auto simp: register_body_def Let_def split: if_splits)
  then show "es = [] \<and> journal_inv d1 \<and> same_user d d1" using register_body_at[OF at, of now name intern] b p by (auto simp: journal_inv_def)
qed

lemma same_user_prune_acked:
  assumes "journal_at d1 hi gen" "prune_acked h d1 = Inr d2" "same_user d d1"
  shows "same_user d d2"
  using prune_acked_at[OF assms(1,2)] assms(3) same_user_trans by blast

interpretation acknowledging: housekeeping "\<lambda>(h, token, s). ack_body h token s"
proof
  fix d p out d1 es assume inv: "journal_inv d" and b: "(case p of (h, token, s) \<Rightarrow> ack_body h token s) d = Inr (out, d1, es)"
  obtain h token s where p: "p = (h, token, s)" by (metis prod_cases3)
  obtain hi gen where at: "journal_at d hi gen" using inv by (auto simp: journal_inv_def)
  obtain c where c: "tbl_get (consumers_table d) (tok_name token) = Some c" "acked_seq c \<le> s" "s \<le> hi"
    and pr: "prune_acked h (d\<lparr>consumers_table := tbl_insert (consumers_table d) (tok_name token) (c\<lparr>acked_seq := s\<rparr>)\<rparr>) = Inr d1"
    using b[unfolded p] journal_atD(3)[OF at] by (auto simp: ack_body_def check_token_def guard_ok_def split: if_splits)
  have "journal_at (d\<lparr>consumers_table := tbl_insert (consumers_table d) (tok_name token) (c\<lparr>acked_seq := s\<rparr>)\<rparr>) hi gen"
    using consumer_facts[OF at c(1)] c(2,3) by (intro consumers_update[OF at]) auto
  from same_user_prune_acked[OF this pr, of d] show "es = [] \<and> journal_inv d1 \<and> same_user d d1"
    using ack_body_at[OF at, of h token s] b p by (auto simp: journal_inv_def)
qed

interpretation unregistering: housekeeping "\<lambda>(h, name). unregister_body h name"
proof
  fix d p out d1 es assume inv: "journal_inv d" and b: "(case p of (h, name) \<Rightarrow> unregister_body h name) d = Inr (out, d1, es)"
  obtain h name where p: "p = (h, name)" by (cases p)
  obtain hi gen where at: "journal_at d hi gen" using inv by (auto simp: journal_inv_def)
  have "prune_acked h (d\<lparr>consumers_table := tbl_remove (consumers_table d) name\<rparr>) = Inr d1"
    using b[unfolded p] by (auto simp: unregister_body_def split: if_splits)
  from same_user_prune_acked[OF consumers_drop[OF at] this, of d] show "es = [] \<and> journal_inv d1 \<and> same_user d d1"
    using unregister_body_at[OF at, of h name] b p by (auto simp: journal_inv_def)
qed

interpretation disabling: housekeeping "\<lambda>_ :: unit. disable_body"
proof
  fix d out d1 es assume inv: "journal_inv d" and b: "disable_body d = Inr (out, d1, es)"
  obtain hi gen where at: "journal_at d hi gen" using inv by (auto simp: journal_inv_def)
  have "same_user d d1" using b by (auto simp: disable_body_def split: option.splits)
  then show "es = [] \<and> journal_inv d1 \<and> same_user d d1" using disable_body_at[OF at b] by (auto simp: journal_inv_def)
qed

interpretation retaining: housekeeping "\<lambda>_ d. Inr ((), d, [])"
  by unfold_locales auto

inductive consumer_step :: "db \<Rightarrow> db \<Rightarrow> library_event list \<Rightarrow> bool" where
  register: "register_journal_consumer h x r now name intern d = Some (Inr (tok, d', events)) \<Longrightarrow> consumer_step d d' events"
| resume: "resume_index_consumer h x r now d = Some (Inr (out, d', events)) \<Longrightarrow> consumer_step d d' events"
| acknowledge: "ack h x r token s d = Some (Inr (u, d', events)) \<Longrightarrow> consumer_step d d' events"
| unregister: "unregister_consumer h x r name d = Some (Inr (u, d', events)) \<Longrightarrow> consumer_step d d' events"
| retain: "set_journal_retention h x r d = Some (Inr (u, d', events)) \<Longrightarrow> consumer_step d d' events"
| disable: "disable_index_consumer h x r d = Some (Inr (u, d', events)) \<Longrightarrow> consumer_step d d' events"

lemma register_keeps:
  assumes "store_inv d" "register_journal_consumer h x r now name intern d = Some (Inr (tok, d', events))"
  shows "store_inv d' \<and> visible d' = visible d"
  using registering.keeps_store[OF assms(1), of h x r "(now, name, intern)"] assms(2)
  by (simp add: register_journal_consumer_def split: if_splits)

lemma consumer_step_keeps:
  assumes "consumer_step d d' events" "store_inv d"
  shows "store_inv d' \<and> visible d' = visible d"
  using assms(1)
proof cases
  case (register h x r now name intern tok)
  then show ?thesis by (rule register_keeps[OF assms(2)])
next
  case (resume h x r now out)
  then show ?thesis using register_keeps[OF assms(2), of h x r now "''__indexer''" True] assms(2)
    by (auto simp: resume_index_consumer_def Let_def map_sum_eq_Inr split: sum.splits option.splits if_splits)
next
  case (acknowledge h x r token s u)
  then show ?thesis using acknowledging.keeps_store[OF assms(2), of h x r "(h, token, s)"] by (simp add: ack_def)
next
  case (unregister h x r name u)
  then show ?thesis using unregistering.keeps_store[OF assms(2), of h x r "(h, name)"] by (simp add: unregister_consumer_def)
next
  case (retain h x r u)
  then show ?thesis using retaining.keeps_store[OF assms(2), of h x r] by (simp add: set_journal_retention_def)
next
  case (disable h x r u)
  then show ?thesis using disabling.keeps_store[OF assms(2), of h x r] by (simp add: disable_index_consumer_def)
qed

section \<open>The cache\<close>

text \<open>
  A cached row is found under \<open>table:key\<close>. The entries of tables with no colon in their name belong to one row each.
\<close>

definition colon_free :: "string \<Rightarrow> bool" where
  "colon_free t \<longleftrightarrow> CHR '':'' \<notin> set t"

lemma cache_key_inj:
  assumes "colon_free t" "colon_free u"
  shows "cache_key t k = cache_key u j \<longleftrightarrow> t = u \<and> k = j"
proof
  assume e: "cache_key t k = cache_key u j"
  have p: "takeWhile (\<lambda>c. c \<noteq> CHR '':'') (cache_key s i) = s \<and> drop (Suc (length s)) (cache_key s i) = i" if "colon_free s" for s i
  proof -
    have "takeWhile (\<lambda>c. c \<noteq> CHR '':'') (s @ CHR '':'' # i) = s"
      using that by (induction s) (auto simp: colon_free_def)
    then show ?thesis by (simp add: cache_key_def)
  qed
  show "t = u \<and> k = j" using p[OF assms(1), of k] p[OF assms(2), of j] e by metis
qed simp

definition cached :: "manager \<Rightarrow> string \<Rightarrow> string \<Rightarrow> bytes option" where
  "cached m t k = (if m_has_cache m \<and> colon_free t \<and> \<not> starts_with_reserved t then m_cache m (cache_key t k) else None)"

definition below :: "(string \<Rightarrow> string \<Rightarrow> bytes option) \<Rightarrow> (string \<Rightarrow> string \<Rightarrow> bytes option) \<Rightarrow> bool" where
  "below c r \<longleftrightarrow> (\<forall>t k v. c t k = Some v \<longrightarrow> r t k = Some v)"

definition coherent :: "manager \<Rightarrow> bool" where
  "coherent m \<longleftrightarrow> below (cached m) (get_row (m_db m))"

lemma cached_put:
  assumes "colon_free u"
  shows "cached (cache_put u j v m) = (if m_has_cache m \<and> \<not> starts_with_reserved u then (cached m)(u := (cached m u)(j \<mapsto> v)) else cached m)"
  using cache_key_inj[OF _ assms] assms by (auto simp: cached_def cache_put_def fun_eq_iff)

lemma cached_drop:
  assumes "colon_free u"
  shows "cached (cache_drop u j m) = drop_rows [(u, j)] (cached m)"
  using cache_key_inj[OF _ assms] assms by (auto simp: cached_def cache_drop_def drop_rows_def fun_eq_iff)

lemma below_put: "below c r \<Longrightarrow> below (c(u := (c u)(j \<mapsto> v))) (r(u := (r u)(j \<mapsto> v)))"
  by (auto simp: below_def)

lemma below_drop: "below c r \<Longrightarrow> below (drop_rows ks c) (drop_rows ks r)"
  by (auto simp: below_def drop_rows_def)

lemma drop_rows_Nil [simp]: "drop_rows [] r = r"
  by (simp add: drop_rows_def fun_eq_iff)

lemma below_puts:
  assumes "below (cached m) r" "\<forall>(t, k, v) \<in> set writes. colon_free t \<and> \<not> starts_with_reserved t"
  shows "below (cached (foldl (\<lambda>m (t, k, v). cache_after_raw_write t [(k, v)] m) m writes)) (put_rows writes r)"
  using assms
proof (induction writes arbitrary: m r)
  case (Cons w writes)
  obtain t k v where w: "w = (t, k, v)" by (cases w)
  have t: "colon_free t" "\<not> starts_with_reserved t" using Cons.prems(2) w by auto
  have "below (cached (cache_put t k v m)) (r(t := (r t)(k \<mapsto> v)))"
  proof (cases "m_has_cache m")
    case True
    then show ?thesis using below_put[OF Cons.prems(1), of t k v] t by (simp add: cached_put del: fun_upd_apply)
  next
    case False
    then show ?thesis by (simp add: below_def cached_def cache_put_def)
  qed
  then show ?case using Cons.IH[of "cache_put t k v m" "r(t := (r t)(k \<mapsto> v))"] Cons.prems(2)
    by (simp add: w cache_after_raw_write_def del: fun_upd_apply)
qed simp

lemma below_drops:
  assumes "below (cached m) r" "\<forall>(t, k) \<in> set deletes. colon_free t"
  shows "below (cached (foldl (\<lambda>m (t, k). cache_drop t k m) m deletes)) (drop_rows deletes r)"
  using assms
proof (induction deletes arbitrary: m r)
  case (Cons w deletes)
  obtain t k where w: "w = (t, k)" by (cases w)
  have t: "colon_free t" using Cons.prems(2) w by auto
  have "below (cached (cache_drop t k m)) (drop_rows [(t, k)] r)" using below_drop[OF Cons.prems(1)] by (simp add: cached_drop[OF t])
  moreover have "drop_rows deletes (drop_rows [(t, k)] r) = drop_rows (w # deletes) r" by (auto simp: drop_rows_def w fun_eq_iff)
  ultimately show ?case using Cons.IH[of "cache_drop t k m" "drop_rows [(t, k)] r"] Cons.prems(2) by (simp add: w)
qed simp

lemma coherent_changes:
  assumes "below (cached m) r" "rows_ok writes" "fst ` set writes \<union> fst ` set deletes \<subseteq> Collect colon_free"
  shows "below (cached (cache_changes writes deletes m)) (drop_rows deletes (put_rows writes r))"
proof -
  have "\<forall>(t, k, v) \<in> set writes. colon_free t \<and> \<not> starts_with_reserved t" "\<forall>(t, k) \<in> set deletes. colon_free t"
    using assms(2,3) by (auto simp: rows_ok_def name_ok_def)
  then show ?thesis unfolding cache_changes_def by (intro below_drops below_puts assms(1))
qed

section \<open>Runs of a manager\<close>

inductive mstep :: "string set \<Rightarrow> manager \<Rightarrow> manager \<Rightarrow> bool" for N where
  wrote: "mwrite N m m' \<Longrightarrow> mstep N m m'"
| read: "t \<in> N \<Longrightarrow> get_raw t k m = (z, m') \<Longrightarrow> mstep N m m'"
| evicted: "mstep N m (m\<lparr>m_cache := m_cache m |` S\<rparr>)"
| cleared: "mstep N m (clear_cache m)"
| closed: "mclose m = (was_open, m') \<Longrightarrow> mstep N m m'"
| recorded: "mstep N m (m\<lparr>m_backup := b\<rparr>)"
| retained: "mstep N m (m\<lparr>m_retention := r\<rparr>)"
| consumed: "consumer_step (m_db m) d events \<Longrightarrow> mstep N m (m\<lparr>m_db := d, m_events := m_events m @ events\<rparr>)"

inductive mreachable :: "string set \<Rightarrow> manager \<Rightarrow> bool" for N where
  opened: "m_db m = initialize uuid (mark_adoption_due empty_db) \<Longrightarrow> m_cache m = Map.empty \<Longrightarrow> mreachable N m"
| stepped: "mreachable N m \<Longrightarrow> mstep N m m' \<Longrightarrow> mreachable N m'"

text \<open>A committed transaction keeps the cache below the rows that the application can see.\<close>

lemma below_rows: "below (cached m) r \<Longrightarrow> (\<And>t. \<not> starts_with_reserved t \<Longrightarrow> r' t = r t) \<Longrightarrow> below (cached m) r'"
  by (auto simp: below_def cached_def split: if_splits)

lemma coherent_cong: "m_cache m' = m_cache m \<Longrightarrow> m_has_cache m' = m_has_cache m \<Longrightarrow> cached m' = cached m"
  by (intro ext) (simp add: cached_def)

lemma cached_clear [simp]: "cached (clear_cache m) = (\<lambda>_ _. None)"
  by (simp add: cached_def clear_cache_def fun_eq_iff)

lemma below_empty [simp]: "below (\<lambda>_ _. None) r"
  by (simp add: below_def)

lemma publish_rows:
  assumes "publish_body t k r metadata d = Inr (u, d1, es)" "tables_ok d"
  shows "get_row d1 = (case metadata of None \<Rightarrow> get_row d | Some v \<Rightarrow> (get_row d)(t := (get_row d t)(k \<mapsto> v)))"
proof -
  obtain d2 es2 where b: "blob_put d t k r [] = (d2, es2)" by (cases "blob_put d t k r []")
  have g: "get_row d2 = get_row d" using b by (intro get_row_cong) (auto simp: blob_put_def)
  have "tables_ok d2" using b assms(2) by (auto simp: blob_put_def tables_ok_def)
  then show ?thesis using assms(1) b g
    by (auto simp: publish_body_def get_row_put get_row_open fun_eq_iff split: option.splits)
qed

lemma coherentI:
  assumes "accounted m d1 es m' events" "below (cached m') (get_row d1)"
  shows "coherent m'"
proof -
  have "visible (m_db m') = visible d1" using assms(1) by (simp add: accounted_def)
  from visible_rows[OF this] show ?thesis unfolding coherent_def by (rule below_rows[OF assms(2)])
qed

lemma undone_coherent: "undone m m' \<Longrightarrow> coherent m \<Longrightarrow> coherent m'"
  using undoneD[of m m'] coherent_cong[of m' m] by (simp add: coherent_def)

lemma changed_coherent:
  assumes inv: "store_inv (m_db m)" and c: "coherent m" and w: "strs writes deletes"
    "fst ` set writes \<union> fst ` set deletes \<subseteq> Collect colon_free" "apply_changes h x writes deletes m = Some (z, m')"
  shows "coherent m'"
  using inv w(1)
proof (cases rule: apply_changes_at[of m writes deletes h x])
  case (2 removed d1 es n events)
  let ?m = "m\<lparr>m_db := m_db n, m_events := m_events m @ events\<rparr>"
  have n: "m' = n" using 2(1) w(3) by simp
  have "below (cached ?m) (get_row (m_db m))" using c coherent_cong[of ?m m] by (simp add: coherent_def)
  note b = coherent_changes[OF this 2(5) w(2), folded 2(7)]
  have "get_row d1 = drop_rows deletes (put_rows writes (get_row (m_db m)))" using change_body_at[OF inv 2(5,6,2)] by blast
  then show ?thesis using coherentI[OF 2(3)] b n by simp
qed (use w(3) c in simp)

lemma published_coherent:
  assumes inv: "store_inv (m_db m)" and c: "coherent m" and t: "colon_free t" "name_ok t"
    and a: "undone m m1" "accounted m d1 es (m1\<lparr>m_db := d, m_events := m_events m @ events\<rparr>) events"
      "publish_body t k r metadata (m_db m) = Inr ((), d1, es)"
  shows "coherent (case metadata of None \<Rightarrow> m1\<lparr>m_db := d, m_events := m_events m @ events\<rparr>
    | Some v \<Rightarrow> cache_put t k v (m1\<lparr>m_db := d, m_events := m_events m @ events\<rparr>))"
proof -
  let ?m = "m1\<lparr>m_db := d, m_events := m_events m @ events\<rparr>"
  have ok: "tables_ok (m_db m)" using inv by (auto simp: store_inv_def journal_inv_def journal_at_def)
  note rows = publish_rows[OF a(3) ok]
  have b: "below (cached ?m) (get_row (m_db m))" using c undoneD[OF a(1)] coherent_cong[of ?m m] by (simp add: coherent_def)
  show ?thesis
  proof (cases metadata)
    case None
    then show ?thesis using coherentI[OF a(2)] b rows by simp
  next
    case (Some v)
    have "below (cached (cache_put t k v ?m)) ((get_row (m_db m))(t := (get_row (m_db m) t)(k \<mapsto> v)))"
    proof (cases "m_has_cache ?m")
      case True
      then show ?thesis using below_put[OF b, of t k v] t by (simp add: cached_put name_ok_def del: fun_upd_apply)
    next
      case False
      then show ?thesis by (simp add: below_def cached_def cache_put_def)
    qed
    then show ?thesis using coherentI[of m d1 es "cache_put t k v ?m" events] a(2) rows Some by (simp del: fun_upd_apply)
  qed
qed

lemma mwrite_coherent:
  assumes w: "mwrite (Collect colon_free) m m'" and inv: "store_inv (m_db m)" and c: "coherent m"
  shows "coherent m'"
  using w
proof cases
  case (changed writes deletes h x z)
  then show ?thesis by (rule changed_coherent[OF inv c])
next
  case (replaced t h x entries z)
  show ?thesis by (rule replace_table_at[OF inv replaced(1), of h x entries]) (use replaced(2) c in \<open>auto simp: coherent_def\<close>)
next
  case (rewritten writes deletes blobs copies h x z)
  show ?thesis
    by (rule rewrite_tables_at[OF inv rewritten(1-3), of h x])
      (use rewritten(4) undone_coherent[OF _ c] in \<open>auto simp: coherent_def\<close>)
next
  case (published t k uuid bs h x metadata z)
  show ?thesis
    by (rule publish_blob_at[OF inv published(1-4), of h x metadata])
      (use published(5,6) undone_coherent[OF _ c] published_coherent[OF inv c] in auto)
next
  case (copied t k uuid source h x u j z)
  show ?thesis
  proof (rule copy_blob_at[OF inv copied(1-4), of h x u j])
    fix d1 es m1 r d events
    assume a: "undone m m1" "accounted m d1 es (m1\<lparr>m_db := d, m_events := m_events m @ events\<rparr>) events" "name_ok t"
      "publish_body t k r None (m_db m) = Inr ((), d1, es)"
      "copy_blob h x uuid source u j t k m = Some (Inr (), m1\<lparr>m_db := d, m_events := m_events m @ events\<rparr>)"
    have ok: "tables_ok (m_db m)" using inv by (auto simp: store_inv_def journal_inv_def journal_at_def)
    let ?m = "m1\<lparr>m_db := d, m_events := m_events m @ events\<rparr>"
    have "below (cached ?m) (get_row (m_db m))" using c undoneD[OF a(1)] coherent_cong[of ?m m] by (simp add: coherent_def)
    then show ?thesis using coherentI[OF a(2)] publish_rows[OF a(4) ok] a(5) copied(5) by simp
  qed (use copied(5) undone_coherent[OF _ c] in auto)
qed

lemma mstep_inv:
  assumes "mstep N m m'" "store_inv (m_db m)"
  shows "store_inv (m_db m')"
  using assms(1)
proof cases
  case wrote
  then show ?thesis using mwrite_at assms(2) undoneD by (metis accounted_def)
next
  case (read t k z)
  then show ?thesis using assms(2)
    by (auto simp: get_raw_def mget_def cache_put_def split: sum.splits option.splits if_splits)
next
  case (consumed d events)
  then show ?thesis using consumer_step_keeps assms(2) by auto
qed (use assms(2) in \<open>auto simp: clear_cache_def mclose_def\<close>)

lemma read_coherent:
  assumes "colon_free t" "get_raw t k m = (z, m')" "coherent m"
  shows "coherent m'"
proof (cases "m' = m")
  case False
  then obtain v where v: "m' = cache_put t k v m" "get_row (m_db m) t k = Some v"
    using assms(2) by (auto simp: get_raw_def mget_def get_row_def open_read_def rows_of_def split: sum.splits option.splits if_splits)
  have "m_db m' = m_db m" by (simp add: v(1) cache_put_def)
  moreover have "below (cached m') (get_row (m_db m))"
    using assms(3) v(2) by (auto simp: coherent_def v(1) cached_put[OF assms(1)] below_def)
  ultimately show ?thesis by (simp add: coherent_def)
qed (use assms(3) in simp)

lemma mstep_coherent:
  assumes "mstep (Collect colon_free) m m'" "store_inv (m_db m)" "coherent m"
  shows "coherent m'"
  using assms(1)
proof cases
  case wrote
  then show ?thesis by (rule mwrite_coherent[OF _ assms(2,3)])
next
  case (read t k z)
  then show ?thesis using read_coherent assms(3) by blast
next
  case (consumed d events)
  then have "visible d = visible (m_db m)" using consumer_step_keeps assms(2) by blast
  then show ?thesis
    using below_rows[of m "get_row (m_db m)" "get_row d"] visible_rows[of d "m_db m"] assms(3) consumed(1) coherent_cong[of m' m]
    by (simp add: coherent_def)
qed (use assms(3) in \<open>auto simp: coherent_def below_def cached_def clear_cache_def mclose_def restrict_map_def split: if_splits\<close>)

lemma mreachable_inv: "mreachable N m \<Longrightarrow> store_inv (m_db m)"
  by (induction rule: mreachable.induct) (auto simp: store_inv_open intro: mstep_inv)

lemma mreachable_coherent: "mreachable (Collect colon_free) m \<Longrightarrow> coherent m"
proof (induction rule: mreachable.induct)
  case (opened m uuid)
  then show ?case by (simp add: coherent_def below_def cached_def)
next
  case (stepped m m')
  then show ?case using mstep_coherent mreachable_inv by blast
qed

section \<open>A sample run\<close>

lemma sample_reachable: "mreachable N sample_manager"
  by (rule mreachable.opened) (simp_all add: sample_manager_def sample_open_def)

text \<open>The sample manager after a consumer has registered.\<close>

lemma sample_subscribed:
  "\<exists>m. mreachable N m \<and> journal_read (m_db m) sample_token = Inr sample_consumer \<and> number (m_db m) ''head'' = Inr 0"
proof -
  have "grants roomy" by (simp add: grants_def)
  moreover have "journal_inv sample_open" "journal_inv sample_registered"
    using register_body_at[OF sample_open_at sample_registered] sample_open_at by (auto simp: journal_inv_def)
  ultimately obtain d events where w:
    "write_with_sink roomy sample_ext Unlimited (register_body 5 ''c'' False) sample_open = Some (Inr (sample_token, d, events))"
    and c: "committed Unlimited sample_registered [] d events"
    using write_nil[where f = "register_body 5 ''c'' False", OF _ sample_registered, of roomy sample_ext Unlimited] by blast
  have r: "register_journal_consumer roomy sample_ext Unlimited 5 ''c'' False (m_db sample_manager) =
      Some (Inr (sample_token, d, events))"
    using w by (simp add: register_journal_consumer_def sample_manager_def)
  let ?m = "sample_manager\<lparr>m_db := d, m_events := m_events sample_manager @ events\<rparr>"
  have m: "mreachable N ?m"
    by (rule mreachable.stepped[OF sample_reachable mstep.consumed[OF consumer_step.register[OF r]]])
  have e: "events = []" using w by (auto simp: write_with_sink_def enforce_def split: sum.splits)
  have g: "tbl_get (consumers_table sample_registered) ''c'' = Some sample_consumer" "db_uuid sample_registered = Inr [7]"
    "number sample_registered ''head'' = Inr 0" by (simp_all add: sample_defs)
  have "tbl_get (consumers_table d) ''c'' = Some sample_consumer" "db_uuid d = Inr [7]" "number d ''head'' = Inr 0"
    using c g unfolding committed_def e by auto
  then have "journal_read (m_db ?m) sample_token = Inr sample_consumer" "number (m_db ?m) ''head'' = Inr 0"
    by (simp_all add: journal_read_def check_token_def sample_token_def sample_consumer_def)
  then show ?thesis using m by blast
qed

section \<open>Properties of every run\<close>





text \<open>
  The condition on names is needed: nothing keeps a colon out of the name of a table, and then the entry of one row is found under the name of another. After a row is
  written to the table \<open>a:b\<close>, the cache answers a read of the table \<open>a\<close> with it.
\<close>

theorem colliding_cache_keys:
  "\<exists>removed m. apply_changes roomy sample_ext [(''a:b'', ''c'', [1])] [] sample_manager = Some (Inr removed, m) \<and>
     fst (get_raw ''a'' ''b:c'' m) = Inr (Some [1]) \<and> get_row (m_db m) ''a'' ''b:c'' = None"
proof -
  have s: "strs [(''a:b'', ''c'', [1])] []" by (simp add: strs_def is_str_def as_bytes_def u8_in_def)
  have "\<exists>removed m. apply_changes roomy sample_ext [(''a:b'', ''c'', [1])] [] sample_manager = Some (Inr removed, m)"
    by (rule plain_changes_commit[OF sample_manager_inv s sample_free(5,6) _ sample_free(1-4)])
      (simp_all add: starts_with_reserved_def planned_def effect_bytes_def u64_max_def is_blob_table_def table_storage_mode_def sample_manager_def)
  then obtain removed m where a: "apply_changes roomy sample_ext [(''a:b'', ''c'', [1])] [] sample_manager = Some (Inr removed, m)" by blast
  from sample_manager_inv s show ?thesis
  proof (cases rule: apply_changes_at[of sample_manager "[(''a:b'', ''c'', [1])]" "[]" roomy sample_ext])
    case (2 removed' d1 es m' events)
    then have m: "m' = m" using a by simp
    let ?m = "cache_changes [(''a:b'', ''c'', [1])] [] (sample_manager\<lparr>m_db := m_db m', m_events := m_events sample_manager @ events\<rparr>)"
    have "m_open ?m \<and> m_has_cache ?m \<and> m_cache ?m ''a:b:c'' = Some [1]"
      by (simp add: cache_changes_def cache_after_raw_write_def cache_put_def cache_key_def sample_manager_def)
    then have "m_open m" "m_has_cache m" "m_cache m ''a:b:c'' = Some [1]" using 2(7) m by metis+
    moreover have "get_row (m_db sample_manager) ''a'' ''b:c'' = None" by (simp add: sample_manager_def sample_defs get_row_def rows_of_def)
    then have "get_row (m_db m) ''a'' ''b:c'' = None"
      using change_body_at[OF sample_manager_inv 2(5,6,2)] visible_rows[of "m_db m'" d1 "''a''"] 2(3)
      by (simp add: accounted_def m starts_with_reserved_def)
    ultimately show ?thesis using a by (auto simp: get_raw_def mget_def db_guard_def cache_key_def)
  qed (use a in simp)
qed

end
