(* ===== verification/Repository_Batches.thy ===== *)
theory Repository_Batches
  imports Repository_Steps
begin

text \<open>
  The operations made of several transactions: batches above the row limit, writes and deletes with a history, restoring. They
  return, what they committed before a failure is a prefix of what was asked, and each is a run of the steps of the manager.
\<close>

section \<open>Batches above the row limit\<close>

lemma put_rows_append: "put_rows (a @ b) r = put_rows b (put_rows a r)"
  by (simp add: put_rows_def)

lemma put_rows_cong: "r t = r' t \<Longrightarrow> put_rows ws r t = put_rows ws r' t"
proof (induction ws arbitrary: r r')
  case (Cons w ws)
  obtain u k v where w: "w = (u, k, v)" by (cases w)
  have "(r(u := (r u)(k \<mapsto> v))) t = (r'(u := (r' u)(k \<mapsto> v))) t" using Cons.prems by (cases "u = t") auto
  then show ?case using Cons.IH[of "r(u := (r u)(k \<mapsto> v))" "r'(u := (r' u)(k \<mapsto> v))"] by (simp add: w del: fun_upd_apply)
qed simp

lemma drop_rows_cong: "r t = r' t \<Longrightarrow> drop_rows ks r t = drop_rows ks r' t"
  by (auto simp: drop_rows_def fun_eq_iff)

lemma drop_rows_append: "drop_rows (a @ b) r = drop_rows b (drop_rows a r)"
  by (auto simp: drop_rows_def fun_eq_iff)

text \<open>The rows of the application are those of \<open>r\<close>.\<close>

definition rows_are :: "manager \<Rightarrow> (string \<Rightarrow> string \<Rightarrow> bytes option) \<Rightarrow> bool" where
  "rows_are m r \<longleftrightarrow> (\<forall>t. \<not> starts_with_reserved t \<longrightarrow> get_row (m_db m) t = r t)"

lemma rows_are_self [simp]: "rows_are m (get_row (m_db m))"
  by (simp add: rows_are_def)

lemma rows_are_put: "rows_are m r \<Longrightarrow> rows_are m' (put_rows ws (get_row (m_db m))) \<Longrightarrow> rows_are m' (put_rows ws r)"
  unfolding rows_are_def using put_rows_cong by metis

lemma rows_are_drop: "rows_are m r \<Longrightarrow> rows_are m' (drop_rows ks (get_row (m_db m))) \<Longrightarrow> rows_are m' (drop_rows ks r)"
  unfolding rows_are_def using drop_rows_cong by metis

text \<open>One transaction, without its details.\<close>

lemma apply_changes_rows:
  assumes "store_inv (m_db m)" "strs writes deletes"
  obtains e where "apply_changes h x writes deletes m = Some (Inl e, m)"
  | removed m' where "apply_changes h x writes deletes m = Some (Inr removed, m')" "store_inv (m_db m')" "same_setup m m'"
    "rows_are m' (drop_rows deletes (put_rows writes (get_row (m_db m))))"
  using assms
proof (cases rule: apply_changes_at[of m writes deletes h x])
  case (2 removed d1 es m' events)
  have v: "visible (m_db m') = visible d1" "store_inv (m_db m')" using 2(3) by (simp_all add: accounted_def)
  have "get_row d1 = drop_rows deletes (put_rows writes (get_row (m_db m)))" using change_body_at[OF assms(1) 2(5,6,2)] by blast
  then have "rows_are m' (drop_rows deletes (put_rows writes (get_row (m_db m))))"
    using visible_rows[OF v(1)] by (simp add: rows_are_def)
  then show thesis using that(2)[OF 2(1) v(2) 2(4)] by blast
qed (use that(1) in blast)

lemma strs_take: "strs writes deletes \<Longrightarrow> strs (take i writes) (take j deletes)"
  "strs writes deletes \<Longrightarrow> strs (drop i writes) (drop j deletes)"
  by (auto simp: strs_def dest: in_set_takeD in_set_dropD)

lemma commit_writes_at:
  assumes "store_inv (m_db m)" "strs writes []" "0 < m_limit m"
  shows "\<exists>z m' i. commit_writes h x writes m = Some (z, m') \<and> store_inv (m_db m') \<and> same_setup m m' \<and>
    rows_are m' (put_rows (take i writes) (get_row (m_db m))) \<and> (isl z \<or> i = length writes)"
  using assms
proof (induction "length writes" arbitrary: writes m rule: less_induct)
  case less
  show ?case
  proof (cases "writes = []")
    case False
    let ?n = "m_limit m"
    from less.prems(1) strs_take(1)[OF less.prems(2), of ?n 0, simplified] show ?thesis
    proof (cases rule: apply_changes_rows[of m "take ?n writes" "[]" h x])
      case (1 e)
      then have "commit_writes h x writes m = Some (Inl e, m)" using False by (subst commit_writes.simps) simp
      then show ?thesis using less.prems(1) by (intro exI[of _ "Inl e"] exI[of _ m] exI[of _ 0]) simp
    next
      case (2 removed m1)
      have l: "m_limit m1 = ?n" using same_setupD[OF 2(3)] by simp
      have "length (drop ?n writes) < length writes" using False less.prems(3) by simp
      from less.hyps[OF this 2(2) strs_take(2)[OF less.prems(2), of ?n 0, simplified]] obtain z m' i where
        r: "commit_writes h x (drop ?n writes) m1 = Some (z, m')" "store_inv (m_db m')" "same_setup m1 m'"
          "rows_are m' (put_rows (take i (drop ?n writes)) (get_row (m_db m1)))" "isl z \<or> i = length (drop ?n writes)"
        using less.prems(3) l by auto
      have "commit_writes h x writes m = Some (z, m')" using False 2(1) r(1) by (subst commit_writes.simps) simp
      moreover have "rows_are m' (put_rows (take (?n + i) writes) (get_row (m_db m)))"
        using rows_are_put[OF _ r(4), of "put_rows (take ?n writes) (get_row (m_db m))"] 2(4)
        by (simp add: take_add put_rows_append)
      moreover have "take (?n + (length writes - ?n)) writes = writes" by simp
      ultimately show ?thesis using r(2,5) same_setup_trans[OF 2(3) r(3)]
        by (intro exI[of _ z] exI[of _ m'] exI[of _ "if isl z then ?n + i else length writes"]) (auto split: if_splits)
    qed
  qed (use less.prems(1) in \<open>auto simp: commit_writes.simps intro!: exI[of _ 0]\<close>)
qed

lemma commit_deletes_at:
  assumes "store_inv (m_db m)" "strs [] deletes" "0 < m_limit m"
  shows "\<exists>z m' i. commit_deletes h x deletes m = Some (z, m') \<and> store_inv (m_db m') \<and> same_setup m m' \<and>
    rows_are m' (drop_rows (take i deletes) (get_row (m_db m))) \<and> (isl z \<or> i = length deletes)"
  using assms
proof (induction "length deletes" arbitrary: deletes m rule: less_induct)
  case less
  show ?case
  proof (cases "deletes = []")
    case False
    let ?n = "m_limit m"
    from less.prems(1) strs_take(1)[OF less.prems(2), of 0 ?n, simplified] show ?thesis
    proof (cases rule: apply_changes_rows[of m "[]" "take ?n deletes" h x])
      case (1 e)
      then have "commit_deletes h x deletes m = Some (Inl e, m)" using False by (subst commit_deletes.simps) simp
      then show ?thesis using less.prems(1) by (intro exI[of _ "Inl e"] exI[of _ m] exI[of _ 0]) simp
    next
      case (2 removed m1)
      have l: "m_limit m1 = ?n" using same_setupD[OF 2(3)] by simp
      have "length (drop ?n deletes) < length deletes" using False less.prems(3) by simp
      from less.hyps[OF this 2(2) strs_take(2)[OF less.prems(2), of 0 ?n, simplified]] obtain z m' i where
        r: "commit_deletes h x (drop ?n deletes) m1 = Some (z, m')" "store_inv (m_db m')" "same_setup m1 m'"
          "rows_are m' (drop_rows (take i (drop ?n deletes)) (get_row (m_db m1)))" "isl z \<or> i = length (drop ?n deletes)"
        using less.prems(3) l by auto
      have "commit_deletes h x deletes m = Some (z, m')" using False 2(1) r(1) by (subst commit_deletes.simps) simp
      moreover have "rows_are m' (drop_rows (take (?n + i) deletes) (get_row (m_db m)))"
        using rows_are_drop[OF _ r(4), of "drop_rows (take ?n deletes) (get_row (m_db m))"] 2(4)
        by (simp add: take_add drop_rows_append)
      ultimately show ?thesis using r(2,5) same_setup_trans[OF 2(3) r(3)]
        by (intro exI[of _ z] exI[of _ m'] exI[of _ "if isl z then ?n + i else length deletes"]) (auto split: if_splits)
    qed
  qed (use less.prems(1) in \<open>auto simp: commit_deletes.simps intro!: exI[of _ 0]\<close>)
qed

text \<open>What a batch has done when it stops: the first \<open>i\<close> writes and, once all of them are in, the first \<open>j\<close> deletes.\<close>

definition batch_done ::
    "write_row list \<Rightarrow> (string \<times> string) list \<Rightarrow> manager \<Rightarrow> unit res \<Rightarrow> manager \<Rightarrow> nat \<Rightarrow> nat \<Rightarrow> bool" where
  "batch_done writes deletes m z m' i j \<longleftrightarrow> store_inv (m_db m') \<and> (0 < j \<longrightarrow> length writes \<le> i) \<and>
     rows_are m' (drop_rows (take j deletes) (put_rows (take i writes) (get_row (m_db m)))) \<and>
     (z = Inr () \<longrightarrow> i = length writes \<and> j = length deletes)"

lemma commit_parts_at:
  assumes "store_inv (m_db m)" "strs writes deletes" "0 < m_limit m"
  shows "\<exists>z m' i j. op_then (commit_writes h x writes m) (\<lambda>_ m. commit_deletes h x deletes m) = Some (z, m') \<and>
    batch_done writes deletes m z m' i j"
proof -
  have s: "strs writes []" "strs [] deletes" using assms(2) by (auto simp: strs_def)
  obtain z1 m1 i where w: "commit_writes h x writes m = Some (z1, m1)" "store_inv (m_db m1)" "same_setup m m1"
    "rows_are m1 (put_rows (take i writes) (get_row (m_db m)))" "isl z1 \<or> i = length writes"
    using commit_writes_at[OF assms(1) s(1) assms(3), of h x] by auto
  show ?thesis
  proof (cases z1)
    case (Inl e)
    then show ?thesis using w by (intro exI[of _ "Inl e"] exI[of _ m1] exI[of _ i] exI[of _ 0]) (simp add: batch_done_def)
  next
    case (Inr u)
    have "0 < m_limit m1" using same_setupD[OF w(3)] assms(3) by simp
    from commit_deletes_at[OF w(2) s(2) this, of h x] obtain z m' j where
      r: "commit_deletes h x deletes m1 = Some (z, m')" "store_inv (m_db m')"
        "rows_are m' (drop_rows (take j deletes) (get_row (m_db m1)))" "isl z \<or> j = length deletes" by auto
    have "rows_are m' (drop_rows (take j deletes) (put_rows (take i writes) (get_row (m_db m))))" by (rule rows_are_drop[OF w(4) r(3)])
    then show ?thesis using w r Inr
      by (intro exI[of _ z] exI[of _ m'] exI[of _ i] exI[of _ j]) (auto simp: batch_done_def)
  qed
qed

text \<open>C10. A batch returns, whatever its size, when the row limit is at least one. It leaves a sound database and exactly the first writes and, once all writes are in, the
  first deletes of the batch; all of them when it succeeds. Within the limit it is one transaction: a failure leaves the manager as it was.\<close>

theorem commit_batch_ends:
  assumes "store_inv (m_db m)" "strs writes deletes" "0 < m_limit m"
  shows "\<exists>z m' i j. commit_batch h x writes deletes m = Some (z, m') \<and> batch_done writes deletes m z m' i j \<and>
    (isl z \<and> length writes + length deletes \<le> m_limit m \<longrightarrow> m' = m)"
proof (cases "refuse_sealed m (map fst writes)")
  case (Inl e)
  then show ?thesis using assms(1)
    by (intro exI[of _ "Inl e"] exI[of _ m] exI[of _ 0]) (simp add: commit_batch_def batch_done_def)
next
  case (Inr u)
  then have c: "commit_batch h x writes deletes m = commit_batch_prepared h x writes deletes m" by (simp add: commit_batch_def)
  show ?thesis
  proof (cases "m_limit m < length writes + length deletes")
    case True
    then show ?thesis using commit_parts_at[OF assms, of h x] by (simp add: c commit_batch_prepared_def)
  next
    case False
    from assms(1,2) show ?thesis
    proof (cases rule: apply_changes_rows[of m writes deletes h x])
      case (1 e)
      then show ?thesis using False assms(1)
        by (intro exI[of _ "Inl e"] exI[of _ m] exI[of _ 0]) (simp add: c commit_batch_prepared_def batch_done_def)
    next
      case (2 removed m')
      then show ?thesis using False
        by (intro exI[of _ "Inr ()"] exI[of _ m'] exI[of _ "length writes"] exI[of _ "length deletes"])
          (simp add: c commit_batch_prepared_def batch_done_def)
    qed
  qed
qed

theorem commit_batch_ends_witness:
  "\<exists>z m'. commit_batch roomy sample_ext [(''t'', ''k'', [1]), (''t'', ''j'', [2])] [(''t'', ''k'')] sample_manager = Some (z, m') \<and>
     (z = Inr () \<longrightarrow> get_row (m_db m') ''t'' ''k'' = None \<and> get_row (m_db m') ''t'' ''j'' = Some [2])"
proof -
  have s: "strs [(''t'', ''k'', [1]), (''t'', ''j'', [2])] [(''t'', ''k'')]" "0 < m_limit sample_manager" "\<not> starts_with_reserved ''t''"
    by (simp_all add: strs_def sample_free starts_with_reserved_def)
  let ?w = "[(''t'', ''k'', [1]), (''t'', ''j'', [2])] :: write_row list" and ?d = "[(''t'', ''k'')]"
  obtain z m' i j where c: "commit_batch roomy sample_ext ?w ?d sample_manager = Some (z, m')" "batch_done ?w ?d sample_manager z m' i j"
    using commit_batch_ends[OF sample_manager_inv s(1,2), of roomy sample_ext] by blast
  have "get_row (m_db m') ''t'' = drop_rows ?d (put_rows ?w (get_row (m_db sample_manager))) ''t''" if "z = Inr ()"
    using c(2) that s(3) unfolding batch_done_def rows_are_def by (metis take_all_iff order_refl)
  then have "z = Inr () \<longrightarrow> get_row (m_db m') ''t'' ''k'' = None \<and> get_row (m_db m') ''t'' ''j'' = Some [2]"
    by (simp add: drop_rows_def)
  then show ?thesis using c(1) by blast
qed

end
