(* ===== verification/Repository_History.thy ===== *)
theory Repository_History
  imports Repository_Batches
begin

text \<open>
  Rows with a history: what a single write records, what a restore brings back, how whole tables are replaced, and
  which writes are refused.
\<close>

section \<open>Writes that record\<close>

lemma record_in_eq: "record_in f m = Some (z, m') \<longleftrightarrow> (m_backup m = None \<and> z = Inr () \<and> m' = m) \<or>
    (\<exists>b. m_backup m = Some b \<and> ((\<exists>e. f b = Inl e \<and> z = Inl e \<and> m' = m) \<or>
      (\<exists>b'. f b = Inr b' \<and> z = Inr () \<and> m' = m\<lparr>m_backup := Some b'\<rparr>)))"
  by (auto simp: record_in_def split: option.splits sum.splits)

lemma mset_cases:
  assumes "mset h x w now def t k v m = Some (Inr u, m')"
  obtains removed m1 where "def = t" "t \<notin> set (m_sealed m)" "apply_changes h x [(t, k, v)] [] m = Some (Inr removed, m1)"
    "record_in (record_set w h now t t k v) m1 = Some (Inr u, m')"
  using assms unfolding mset_def set_prepared_def op_check_eq op_then_eq
  by (auto simp: guard_ok_def refuse_sealed_def split: if_splits)

lemma apply_changes_same:
  assumes "store_inv (m_db m)" "strs writes deletes" "apply_changes h x writes deletes m = Some (Inr removed, m')"
  shows "store_inv (m_db m') \<and> same_setup m m' \<and> rows_are m' (drop_rows deletes (put_rows writes (get_row (m_db m))))"
  by (rule apply_changes_rows[OF assms(1,2), of h x]) (use assms(3) in auto)

lemma apply_one_unreserved: "apply_changes h x writes deletes m = Some (Inr removed, m') \<Longrightarrow>
    \<forall>t \<in> fst ` set writes \<union> fst ` set deletes. \<not> starts_with_reserved t"
  unfolding apply_changes_def op_check_eq by (auto simp: validate_tables_Inr)

lemma mset_at:
  assumes "store_inv (m_db m)" "is_str t" "is_str k" "m_backup m = Some b" "backup_inv b"
    "mset h x w now t t k v m = Some (Inr u, m')"
  obtains b' data where "m_backup m' = Some b'" "appended b t k data b'" "store_inv (m_db m')"
    "encode_record w h now ((new_record now SetOp t k (Some v) None None)\<lparr>md_version := Suc (last_version b t k)\<rparr>) = Inr data"
    "rows_are m' (put_rows [(t, k, v)] (get_row (m_db m)))" "\<not> starts_with_reserved t"
proof -
  from assms(6) obtain removed m1 where a: "apply_changes h x [(t, k, v)] [] m = Some (Inr removed, m1)"
    and r: "record_in (record_set w h now t t k v) m1 = Some (Inr u, m')" by (rule mset_cases) 
  have s: "strs [(t, k, v)] []" using assms(2,3) by (simp add: strs_def)
  note c = apply_changes_same[OF assms(1) s a]
  have b: "m_backup m1 = Some b" using same_setupD[of m m1] c assms(4) by simp
  then obtain b' where b': "record_set w h now t t k v b = Inr b'" "m' = m1\<lparr>m_backup := Some b'\<rparr>"
    using r by (auto simp: record_in_eq)
  have "md_table (new_record now SetOp t k (Some v) None None) = t" by (simp add: new_record_def)
  from backup_write_at[OF assms(5) this, of w h now k] b'(1) obtain data where
    "appended b t k data b'" "encode_record w h now ((new_record now SetOp t k (Some v) None None)\<lparr>md_version := Suc (last_version b t k)\<rparr>) = Inr data"
    by (auto simp: record_set_def)
  then show thesis using that[of b' data] c b'(2) apply_one_unreserved[OF a] by (simp add: rows_are_def)
qed

lemma restore_cases:
  assumes "restore_by_version h x w now def t k version m = Some (Inr u, m')"
  obtains b r m1 removed where "m_backup m = Some b" "record_by_version w def k version b = Inr r"
    "apply_changes h x (case live_data r of Some v \<Rightarrow> [(t, k, v)] | None \<Rightarrow> []) (case live_data r of Some _ \<Rightarrow> [] | None \<Rightarrow> [(t, k)]) m =
      Some (Inr removed, m1)" "m_db m' = m_db m1"
proof -
  obtain b where b: "m_backup m = Some b"
    using assms by (cases "m_backup m") (simp_all add: restore_by_version_def need_backup_def)
  obtain r where r: "record_by_version w def k version b = Inr r"
    using assms by (auto simp: restore_by_version_def need_backup_def b op_check_eq)
  show thesis
  proof (cases "live_data r")
    case None
    then obtain removed m1 where "apply_changes h x [] [(t, k)] m = Some (Inr removed, m1)" "m_db m' = m_db m1"
      using assms by (auto simp: restore_by_version_def need_backup_def b r op_check_eq op_then_eq record_in_eq cache_drop_def Let_def)
    then show thesis using that[OF b r] None by simp
  next
    case (Some v)
    then obtain removed m1 where "apply_changes h x [(t, k, v)] [] m = Some (Inr removed, m1)" "m_db m' = m_db m1"
      using assms by (auto simp: restore_by_version_def need_backup_def b r op_check_eq op_then_eq record_in_eq cache_put_def Let_def)
    then show thesis using that[OF b r] Some by simp
  qed
qed

lemma record_by_version_at:
  assumes "stored b t (backup_key k n) = Some data" "decode_record w t (backup_key k n) data = Inr r" "bk_open b"
  shows "record_by_version w t k n b = Inr r"
proof -
  obtain rows where "tbl_get (bk_data b) t = Some rows" "tbl_get rows (backup_key k n) = Some data"
    using assms(1) by (auto simp: stored_def named_rows_def split: option.splits)
  then show ?thesis using assms(2,3) by (simp add: record_by_version_def record_at_def bk_guard_def open_named_def)
qed

lemma restored_rows:
  assumes "store_inv (m_db m)" "is_str t" "is_str k" "restore_by_version h x w now def t k version m = Some (Inr u, m')"
  shows "\<exists>b r. m_backup m = Some b \<and> record_by_version w def k version b = Inr r \<and> store_inv (m_db m') \<and> \<not> starts_with_reserved t \<and>
    rows_are m' ((get_row (m_db m))(t := (get_row (m_db m) t)(k := live_data r)))"
  using assms(4)
proof (rule restore_cases)
  fix b r m1 removed
  let ?w = "case live_data r of Some v \<Rightarrow> [(t, k, v)] | None \<Rightarrow> []" and ?d = "case live_data r of Some _ \<Rightarrow> [] | None \<Rightarrow> [(t, k)]"
  assume b: "m_backup m = Some b" "record_by_version w def k version b = Inr r" "m_db m' = m_db m1"
    and a: "apply_changes h x ?w ?d m = Some (Inr removed, m1)"
  have "strs ?w ?d" using assms(2,3) by (simp add: strs_def split: option.split)
  note c = apply_changes_same[OF assms(1) this a]
  have "\<not> starts_with_reserved t" using apply_one_unreserved[OF a] by (cases "live_data r") simp_all
  moreover have "drop_rows ?d (put_rows ?w (get_row (m_db m))) = (get_row (m_db m))(t := (get_row (m_db m) t)(k := live_data r))"
    by (auto simp: drop_rows_def fun_eq_iff split: option.split)
  ultimately show ?thesis using b c by (simp add: rows_are_def)
qed

section \<open>Properties of rows with a history\<close>

text \<open>The record a single write makes.\<close>

definition set_record :: "clock \<Rightarrow> string \<Rightarrow> string \<Rightarrow> bytes \<Rightarrow> nat \<Rightarrow> backup_record" where
  "set_record now t k v n = (new_record now SetOp t k (Some v) None None)\<lparr>md_version := n\<rparr>"

text \<open>C11. A row that was written with a history can be brought back. The write stores the row and appends one record, with the next version of the key. As
  long as that record is kept, and the JSON library reads back what it wrote, asking for the version later gives a record with the written bytes, and
  a restore of it that succeeds makes these bytes the row again, whatever happened to it in between, and touches no other row.\<close>

theorem set_then_restored:
  assumes inv: "store_inv (m_db m)" "m_backup m = Some b" "backup_inv b" and str: "is_str t" "is_str k"
    and set: "mset h x w now t t k v m = Some (Inr (), m1)" and n: "n = Suc (last_version b t k)"
    and wire: "\<forall>bs. encode_record w h now (set_record now t k v n) = Inr bs \<longrightarrow>
      (\<exists>es. reads_back w (set_record now t k v n) (dated now (from_record (set_record now t k v n))) bs es)"
    and later: "store_inv (m_db m2)" "m_backup m2 = Some b2" "bk_open b2"
      "stored b2 t (backup_key k n) = stored (the (m_backup m1)) t (backup_key k n)"
  shows "get_row (m_db m1) t k = Some v \<and> last_version (the (m_backup m1)) t k = n \<and>
    (\<exists>r. get_by_version w t k n m2 = Inr r \<and> live_data r = Some v) \<and>
    (\<forall>h' x' now' m3. restore_by_version h' x' w now' t t k n m2 = Some (Inr (), m3) \<longrightarrow> get_row (m_db m3) t k = Some v \<and>
      (\<forall>u j. \<not> starts_with_reserved u \<longrightarrow> (u, j) \<noteq> (t, k) \<longrightarrow> get_row (m_db m3) u j = get_row (m_db m2) u j))"
proof -
  obtain b' data where b': "m_backup m1 = Some b'" "appended b t k data b'" "\<not> starts_with_reserved t"
    and e: "encode_record w h now (set_record now t k v n) = Inr data" and rows: "rows_are m1 (put_rows [(t, k, v)] (get_row (m_db m)))"
    using mset_at[OF inv(1) str inv(2,3) set] unfolding set_record_def n by blast
  obtain es where "reads_back w (set_record now t k v n) (dated now (from_record (set_record now t k v n))) data es" using wire e by blast
  from record_back[OF e this, of t "backup_key k n"] obtain r where
    d: "decode_record w t (backup_key k n) data = Inr r" "live_data r = Some v"
    by (auto simp: live_data_def meta_record_def dated_def from_record_def set_record_def new_record_def metadata.defs backup_record.defs)
  have st: "stored b2 t (backup_key k n) = Some data" "last_version b' t k = n" using later(4) b' n by (simp_all add: appended_def)
  have rec: "record_by_version w t k n b2 = Inr r" by (rule record_by_version_at[OF st(1) d(1) later(3)])
  have "get_row (m_db m3) t k = Some v \<and> (\<forall>u j. \<not> starts_with_reserved u \<longrightarrow> (u, j) \<noteq> (t, k) \<longrightarrow> get_row (m_db m3) u j = get_row (m_db m2) u j)"
    if "restore_by_version h' x' w now' t t k n m2 = Some (Inr (), m3)" for h' x' now' m3
    using restored_rows[OF later(1) str that] rec later(2) d(2) b'(3) by (auto simp: rows_are_def)
  then show ?thesis using rows b' st rec later(2) d(2) by (simp add: rows_are_def get_by_version_def)
qed

definition recording_manager :: manager where
  "recording_manager = sample_manager\<lparr>m_backup := Some empty_backup\<rparr>"

lemma recording_set:
  "\<exists>m1 b1. mset roomy sample_ext sample_wire (5, ''d'') ''t'' ''t'' ''k'' [32, 123, 125, 10] recording_manager = Some (Inr (), m1) \<and>
    m_backup m1 = Some b1 \<and> bk_open b1 \<and> store_inv (m_db m1)"
proof -
  let ?m = recording_manager and ?v = "[32, 123, 125, 10] :: bytes"
  have same: "m_db ?m = m_db sample_manager" "m_open ?m" "\<not> m_search_only ?m" "is_blob_table ?m = is_blob_table sample_manager"
    "''t'' \<notin> set (m_sealed ?m)" "m_backup ?m = Some empty_backup"
    by (simp_all add: recording_manager_def is_blob_table_def[abs_def] table_storage_mode_def sample_free) (simp add: sample_manager_def)
  have s: "strs [(''t'', ''k'', ?v)] []" by (simp add: strs_def)
  have "\<exists>removed m'. apply_changes roomy sample_ext [(''t'', ''k'', ?v)] [] ?m = Some (Inr removed, m')"
    using sample_free by (intro plain_changes_commit[of ?m _ _ 0 0] s)
      (simp_all add: same sample_manager_inv starts_with_reserved_def planned_def effect_bytes_def u64_max_def)
  then obtain removed m1 where a: "apply_changes roomy sample_ext [(''t'', ''k'', ?v)] [] ?m = Some (Inr removed, m1)" by blast
  have c: "store_inv (m_db m1)" "m_backup m1 = Some empty_backup"
    using apply_changes_same[OF _ s a] same sample_manager_inv same_setupD[of ?m m1] by auto
  obtain b1 where b1: "record_set sample_wire roomy (5, ''d'') ''t'' ''t'' ''k'' ?v empty_backup = Inr b1" "bk_open b1"
    by (simp add: record_set_def backup_write_def empty_backup_def bk_guard_def next_version_def last_version_def named_rows_def
        encode_record_def sample_wire_def new_record_def Let_def u64_max_def)
  then have "record_in (record_set sample_wire roomy (5, ''d'') ''t'' ''t'' ''k'' ?v) m1 = Some (Inr (), m1\<lparr>m_backup := Some b1\<rparr>)"
    using c(2) by (simp add: record_in_def)
  then have "mset roomy sample_ext sample_wire (5, ''d'') ''t'' ''t'' ''k'' ?v ?m = Some (Inr (), m1\<lparr>m_backup := Some b1\<rparr>)"
    using a same by (simp add: mset_def set_prepared_def refuse_sealed_def mem_probe_def)
  then show ?thesis using b1(2) c(1) by auto
qed

theorem set_then_restored_witness:
  "\<exists>m1 r. mset roomy sample_ext sample_wire (5, ''d'') ''t'' ''t'' ''k'' [32, 123, 125, 10] recording_manager = Some (Inr (), m1) \<and>
    get_row (m_db m1) ''t'' ''k'' = Some [32, 123, 125, 10] \<and>
    get_by_version sample_wire ''t'' ''k'' 1 m1 = Inr r \<and> live_data r = Some [32, 123, 125, 10]"
proof -
  obtain m1 b1 where m1: "mset roomy sample_ext sample_wire (5, ''d'') ''t'' ''t'' ''k'' [32, 123, 125, 10] recording_manager = Some (Inr (), m1)"
    "m_backup m1 = Some b1" "bk_open b1" "store_inv (m_db m1)" using recording_set by blast
  have r: "set_record (5, ''d'') ''t'' ''k'' [32, 123, 125, 10] 1 = sample_record"
    by (simp add: set_record_def new_record_def sample_record_def)
  have "dated (5, ''d'') (from_record sample_record) = from_record sample_record"
    by (simp add: dated_def from_record_def sample_record_def metadata.defs)
  then have rb: "reads_back sample_wire sample_record (dated (5, ''d'') (from_record sample_record)) bs sample_fields"
    if "encode_record sample_wire roomy (5, ''d'') sample_record = Inr bs" for bs
    using that by (auto simp: encode_record_def reads_back_def sample_wire_def sample_fields_def sample_record_def envelope_def
        contains_def field_get_def trimmed_def json_space_def Let_def)
  have n: "1 = Suc (last_version empty_backup ''t'' ''k'')" by (simp add: last_version_def empty_backup_def named_rows_def)
  have i: "store_inv (m_db recording_manager)" "m_backup recording_manager = Some empty_backup"
    using sample_manager_inv by (simp_all add: recording_manager_def)
  have rb: "\<forall>bs. encode_record sample_wire roomy (5, ''d'') (set_record (5, ''d'') ''t'' ''k'' [32, 123, 125, 10] 1) = Inr bs \<longrightarrow>
      (\<exists>es. reads_back sample_wire (set_record (5, ''d'') ''t'' ''k'' [32, 123, 125, 10] 1)
        (dated (5, ''d'') (from_record (set_record (5, ''d'') ''t'' ''k'' [32, 123, 125, 10] 1))) bs es)"
    using rb unfolding r by blast
  from set_then_restored[OF i empty_backup_inv _ _ m1(1) n rb m1(4,2,3)] m1 show ?thesis by simp
qed

end
