(* ===== verification/Repository_Tables.thy ===== *)
theory Repository_Tables
  imports Repository_Batches
begin

text \<open>
  Whole tables and their attachments: a replacement leaves exactly the given rows, each with its file when the
  table keeps attachments, and which writes a manager refuses.
\<close>

section \<open>Rows and their attachments\<close>

text \<open>Every row has a reference to a file of the recorded size, and no reference is without its row.\<close>

definition attached :: "manager \<Rightarrow> db \<Rightarrow> string \<Rightarrow> bool" where
  "attached m d t \<longleftrightarrow> (\<forall>k. get_row d t k \<noteq> None \<longrightarrow> (\<exists>r bs. blob_get d t k = Some r \<and>
     open_blob_version m t (blob_id r) = Inr bs \<and> length bs = blob_size r)) \<and>
     (\<forall>k. blob_get d t k \<noteq> None \<longrightarrow> get_row d t k \<noteq> None)"

lemma blob_remove_get:
  assumes "tbl_ok (blob_refs d)" "blob_remove d t k es = (b, d', es')"
  shows "tbl_ok (blob_refs d') \<and> get_row d' = get_row d \<and> blob_get d' = drop_rows [(t, k)] (blob_get d)"
proof -
  have "get_row d' = get_row d" using assms(2) by (intro get_row_cong) (auto simp: blob_remove_def split: option.splits)
  then show ?thesis using assms
    by (auto simp: blob_remove_def blob_get_def fun_eq_iff drop_rows_def split: option.splits)
qed

lemma blob_removes_get:
  assumes "foldl (\<lambda>(d', changes) ((u, k), _). if u = t \<and> P k then snd (blob_remove d' t k changes) else (d', changes)) (d1, es) refs = (d2, es')"
    "tbl_ok (blob_refs d1)"
  shows "blob_get d2 u k = (if u = t \<and> P k \<and> (t, k) \<in> fst ` set refs then None else blob_get d1 u k)"
  using assms
proof (induction refs arbitrary: d1 es)
  case (Cons r refs)
  obtain v j y where r: "r = ((v, j), y)" by (metis prod.exhaust_sel)
  obtain b d3 es3 where br: "blob_remove d1 t j es = (b, d3, es3)" by (metis prod_cases3)
  note rm = blob_remove_get[OF Cons.prems(2) br]
  show ?case
  proof (cases "v = t \<and> P j")
    case True
    then have "blob_get d2 u k = (if u = t \<and> P k \<and> (t, k) \<in> fst ` set refs then None else blob_get d3 u k)"
      using Cons.IH[of d3 es3] Cons.prems(1) rm br r by simp
    then show ?thesis using rm True by (auto simp: r drop_rows_def)
  next
    case False
    then have "foldl (\<lambda>(d', changes) ((u, k), _). if u = t \<and> P k then snd (blob_remove d' t k changes) else (d', changes)) (d1, es) refs = (d2, es')"
      using Cons.prems(1) by (simp add: r split: if_splits)
    from Cons.IH[OF this Cons.prems(2)]
    have "blob_get d2 u k = (if u = t \<and> P k \<and> (t, k) \<in> fst ` set refs then None else blob_get d1 u k)" .
    moreover have "(t, k) \<in> fst ` set (r # refs) \<longleftrightarrow> (t, k) = (v, j) \<or> (t, k) \<in> fst ` set refs" by (simp add: r)
    ultimately show ?thesis using False by (metis prod.inject)
  qed
qed simp

lemma blob_row_ok_Inr: "blob_row_ok m d t k = Inr u \<Longrightarrow>
    \<exists>r bs. blob_get d t k = Some r \<and> open_blob_version m t (blob_id r) = Inr bs \<and> length bs = blob_size r"
  by (auto simp: blob_row_ok_def open_blob_version_row_def guard_ok_def split: if_splits)

lemma validate_attached:
  assumes "is_blob_table m t" "validate_blob_rows m t (d1, es) = Inr (d2, es')" "tables_ok d1" "get_row d2 = get_row d1"
  shows "attached m d2 t"
proof -
  let ?d = "open_write d1 t"
  have g: "get_row ?d = get_row d1" using assms(3) by (simp add: get_row_open)
  have ok: "tbl_ok (blob_refs ?d)" "tbl_ok (rows_of ?d t)" using assms(3) by (simp_all add: tables_ok_def)
  obtain us where v: "mapM (\<lambda>(k, _). blob_row_ok m ?d t k) (rows_of ?d t) = Inr us"
    and f: "foldl (\<lambda>(d', changes) ((u, k), _). if u = t \<and> get_row ?d t k = None then snd (blob_remove d' t k changes) else (d', changes))
      (?d, es) (blob_refs ?d) = (d2, es')"
    using assms(1,2) by (auto simp: validate_blob_rows_def Let_def)
  have in_refs: "(t, k) \<in> fst ` set (blob_refs ?d) \<longleftrightarrow> blob_get ?d t k \<noteq> None" for k
    using ok(1) by (force simp: blob_get_def tbl_get_iff image_iff)
  have b: "blob_get d2 t k = (if get_row d1 t k = None then None else blob_get ?d t k)" for k
    using blob_removes_get[where P = "\<lambda>k. get_row ?d t k = None", OF f ok(1), of t k] in_refs[of k] g by auto
  have "\<exists>r bs. blob_get ?d t k = Some r \<and> open_blob_version m t (blob_id r) = Inr bs \<and> length bs = blob_size r"
    if k: "get_row d1 t k \<noteq> None" for k
  proof -
    obtain y where "get_row ?d t k = Some y" using k by (auto simp: g)
    then have "(k, y) \<in> set (rows_of ?d t)" using ok(2) by (simp add: get_row_def tbl_get_iff)
    from mapM_Inr_in[OF v this] obtain u where "blob_row_ok m ?d t k = Inr u" by auto
    then show ?thesis by (rule blob_row_ok_Inr)
  qed
  then show ?thesis using b assms(4) by (auto simp: attached_def)
qed

lemma replace_body_attached:
  assumes "store_inv d" "name_ok t" "is_blob_table m t" "replace_body m t entries d = Inr (u, d1, es)"
  shows "attached m d1 t"
proof -
  let ?d0 = "open_write (drop_table d t) t"
  let ?d1 = "set_rows ?d0 t (tbl_insert_all (rows_of ?d0 t) entries)"
  obtain d2 es2 where v: "validate_blob_rows m t (?d1, []) = Inr (d2, es2)" and c: "capture_reset t (d2, es2) = Inr (d1, es)"
    using assms(4) by (auto simp: replace_body_def Let_def)
  have t: "\<not> starts_with_reserved t" "is_str t" using assms(2) by (auto simp: name_ok_def)
  have ok: "tables_ok d" using assms(1) by (auto simp: store_inv_def journal_inv_def journal_at_def)
  have tr0: "tracks {t} d ?d0 []" by (intro tracks_open tracks_drop tracks_refl assms(1) t) simp
  have "tbl_ok (rows_of ?d0 t)" using tracks_ok[OF tr0] by simp
  then have tr1: "tracks {t} d ?d1 []" by (intro tracks_set_rows[OF tr0] t) (simp_all add: tbl_ok_insert_all)
  note vr = validate_blob_rows_at[OF tr1 assms(2) v]
  note cr = capture_reset_at[OF conjunct1[OF vr] t c]
  have "attached m d2 t" using validate_attached[OF assms(3) v tracks_ok[OF tr1]] vr by blast
  moreover have "get_row d1 t = get_row d2 t" "blob_get d1 = blob_get d2" using cr t(1) by (auto simp: blob_get_def[abs_def])
  ultimately show ?thesis by (simp add: attached_def)
qed

section \<open>Properties of whole tables\<close>

text \<open>C12. Replacing a table returns, and is all or nothing. When it succeeds, the table holds exactly the given rows, the last one winning when a key comes twice, every
  other table of the application is untouched, no cached row is left, and in a table with attachments every row has a file of the
  recorded size and every reference its row. When it fails, the manager is as it was.\<close>

theorem replace_table_exact:
  assumes "store_inv (m_db m)" "is_str t"
  shows "\<exists>z m'. replace_table h x t entries m = Some (z, m') \<and> store_inv (m_db m') \<and> (case z of
      Inl e \<Rightarrow> m' = m
    | Inr _ \<Rightarrow> get_row (m_db m') t = map_of (rev entries) \<and>
        (\<forall>u. u \<noteq> t \<longrightarrow> \<not> starts_with_reserved u \<longrightarrow> get_row (m_db m') u = get_row (m_db m) u) \<and>
        cached m' = (\<lambda>_ _. None) \<and> (is_blob_table m t \<longrightarrow> attached m (m_db m') t))"
  using assms
proof (cases rule: replace_table_at[of m t h x entries])
  case (1 e)
  then show ?thesis using assms(1) by simp
next
  case (2 d1 es d events)
  let ?m = "clear_cache (m\<lparr>m_db := d, m_events := m_events m @ events\<rparr>)"
  have d: "m_db ?m = d" by (simp add: clear_cache_def)
  have v: "visible d = visible d1" "store_inv d" using 2(7) by (simp_all add: accounted_def)
  note r = replace_body_at[OF assms(1) 2(3,2)]
  have rows: "get_row d u = get_row d1 u" if "\<not> starts_with_reserved u" for u using visible_rows[OF v(1) that] .
  have t: "\<not> starts_with_reserved t" using 2(3) by (simp add: name_ok_def)
  have "is_blob_table m t \<longrightarrow> attached m d t"
    using replace_body_attached[OF assms(1) 2(3) _ 2(2)] rows[OF t] visible_refs[OF v(1)] by (simp add: attached_def)
  then show ?thesis using 2(1) r rows t v(2) by (intro exI[of _ "Inr ()"] exI[of _ ?m]) (simp add: d)
qed

theorem replace_table_exact_witness:
  "\<exists>z m'. replace_table roomy sample_ext ''t'' [(''k'', [1]), (''k'', [2])] sample_manager = Some (z, m') \<and>
     (z = Inr () \<longrightarrow> get_row (m_db m') ''t'' ''k'' = Some [2] \<and> get_row (m_db m') ''t'' ''j'' = None)"
proof -
  have "is_str ''t''" by simp
  from replace_table_exact[OF sample_manager_inv this, of roomy sample_ext "[(''k'', [1]), (''k'', [2])]"] show ?thesis
  proof (elim exE conjE)
    fix z m' assume r: "replace_table roomy sample_ext ''t'' [(''k'', [1]), (''k'', [2])] sample_manager = Some (z, m')"
      and c: "case z of Inl e \<Rightarrow> m' = sample_manager | Inr _ \<Rightarrow> get_row (m_db m') ''t'' = map_of (rev [(''k'', [1]), (''k'', [2])]) \<and>
        (\<forall>u. u \<noteq> ''t'' \<longrightarrow> \<not> starts_with_reserved u \<longrightarrow> get_row (m_db m') u = get_row (m_db sample_manager) u) \<and>
        cached m' = (\<lambda>_ _. None) \<and> (is_blob_table sample_manager ''t'' \<longrightarrow> attached sample_manager (m_db m') ''t'')"
    then show ?thesis by (intro exI[of _ z] exI[of _ m'] conjI[OF r] impI) simp
  qed
qed

text \<open>A write to the table that must not happen.\<close>

definition locked :: "manager \<Rightarrow> string \<Rightarrow> bool" where
  "locked m t \<longleftrightarrow> \<not> m_open m \<or> m_search_only m \<or> starts_with_reserved t"

definition rejected :: "'a outcome \<Rightarrow> manager \<Rightarrow> bool" where
  "rejected s m \<longleftrightarrow> (\<exists>e. s = Some (Inl e, m))"

lemma rejected_simps [simp]: "rejected (Some (Inl e, m)) m" "rejected (op_check (Inl e) m f) m"
  by (simp_all add: rejected_def)

lemma rejected_then [simp]: "rejected s m \<Longrightarrow> rejected (op_then s f) m"
  by (auto simp: rejected_def)

lemma rejected_check: "(\<And>a. r = Inr a \<Longrightarrow> rejected (f a) m) \<Longrightarrow> rejected (op_check r m f) m"
  by (cases r) auto

lemma journal_write_closed: "\<not> m_open m \<Longrightarrow> rejected (journal_write h x f m) m"
  by (simp add: journal_write_def db_guard_def guard_ok_def)

lemma apply_changes_locked:
  assumes "t \<in> fst ` set writes \<union> fst ` set deletes" "locked m t"
  shows "rejected (apply_changes h x writes deletes m) m"
proof -
  have "validate_tables (map fst writes @ map fst deletes) \<noteq> Inr () \<or> \<not> m_open m \<or> m_search_only m"
    using assms by (auto simp: validate_tables_Inr locked_def)
  then show ?thesis unfolding apply_changes_def
    by (intro rejected_check) (auto simp: db_guard_def ensure_writable_def guard_ok_def)
qed



section \<open>A write that is not refused\<close>

text \<open>
  \<open>ensure_writable\<close> is documented as refusing every write of a program that holds the search key alone. Publishing an attachment does not ask it: the
  sample manager, opened that way, stores the attachment of a row.
\<close>

theorem search_only_publishes:
  "\<exists>m'. ensure_writable (sample_manager\<lparr>m_search_only := True\<rparr>) \<noteq> Inr () \<and>
     write_blob roomy sample_ext ''u'' ''files'' ''k'' [1] (sample_manager\<lparr>m_search_only := True\<rparr>) = Some (Inr (), m')"
proof -
  let ?m = "sample_manager\<lparr>m_search_only := True\<rparr>" and ?r = "\<lparr>blob_id = ''__v_u'', blob_size = 1\<rparr>"
  let ?m1 = "?m\<lparr>m_files := [((''files'', ''__v_u''), [1])]\<rparr>" and ?d = "m_db sample_manager"
  have p: "prepare_blob ''u'' ''files'' ''k'' [1] ?m = Inr (?r, ?m1)"
    by (simp add: prepare_blob_def validate_table_def starts_with_reserved_def bad_component_def is_blob_table_def table_storage_mode_def
        blob_store_def sample_manager_def Let_def)
  have b: "publish_body ''files'' ''k'' ?r None ?d = Inr ((), ?d\<lparr>blob_refs := [((''files'', ''k''), ?r)]\<rparr>, [BlobPut ''files'' ''k'' ''__v_u'' 1])"
    by (simp add: publish_body_def blob_put_def sample_manager_def sample_defs)
  have t: "tracks {} ?d (?d\<lparr>blob_refs := [((''files'', ''k''), ?r)]\<rparr>) [BlobPut ''files'' ''k'' ''__v_u'' 1]"
    by (rule publish_body_at[OF sample_manager_inv _ _ _ _ b])
      (simp_all add: name_ok_def starts_with_reserved_def u64_max_def is_str_def as_bytes_def u8_in_def)
  obtain d events where w: "write_with_sink roomy sample_ext Unlimited (publish_body ''files'' ''k'' ?r None) ?d = Some (Inr ((), d, events))"
    using write_total[where f = "publish_body ''files'' ''k'' ?r None", OF sample_manager_inv b t _ _ sample_free(3,4), of sample_ext Unlimited]
      sample_free(1,2) by (auto simp: effect_bytes_def u64_max_def as_bytes_def)
  then have "journal_write roomy sample_ext (publish_body ''files'' ''k'' ?r None) ?m1 =
      Some (Inr (), ?m1\<lparr>m_db := d, m_events := m_events ?m1 @ events\<rparr>)"
    by (simp add: journal_write_def db_guard_def sample_manager_def)
  then show ?thesis using p by (simp add: write_blob_def publish_blob_def ensure_writable_def guard_ok_def)
qed

end
