(* ===== verification/Index_Postings.thy ===== *)
theory Index_Postings
  imports Ordered_Map Ordered_Code
begin

text \<open>
  Posting lists of the trigram index (\<^verbatim>\<open>src/indexes/trigram.rs\<close>): the row numbers of a trigram in ascending order, cut into
  blocks. The key of a block is the trigram number and the first row number, big endian; its value holds the distances to the following row
  numbers as variable-length integers (\<^verbatim>\<open>put_varint\<close>, \<^verbatim>\<open>get_varint\<close> of \<^verbatim>\<open>src/indexes/worker.rs\<close>). The theory shows that a table of blocks is a
  set of row numbers per trigram, that adding and removing do what they say, and that no block outgrows its limit.
\<close>

unbundle bit_operations_syntax

section \<open>Variable-length integers\<close>

fun put_varint :: "nat \<Rightarrow> bytes" where
  "put_varint v = (if 128 \<le> v then (of_nat v OR 128) # put_varint (v div 128) else [of_nat v])"

declare put_varint.simps [simp del]

fun varint_loop :: "64 word \<Rightarrow> nat \<Rightarrow> bytes \<Rightarrow> (nat \<times> bytes) res" where
  "varint_loop v shift [] = Inl (Validation ''truncated reverse row'')"
| "varint_loop v shift (b # rest) =
     (let v = v OR push_bit shift (ucast (b AND 127))
      in if b AND 128 = 0 then Inr (unat v, rest)
         else if 63 < shift + 7 then Inl (Validation ''corrupt reverse row'')
         else varint_loop v (shift + 7) rest)"

definition get_varint :: "bytes \<Rightarrow> (nat \<times> bytes) res" where
  "get_varint bs = varint_loop 0 0 bs"

fun varint_len :: "nat \<Rightarrow> nat" where
  "varint_len v = (if 128 \<le> v then Suc (varint_len (v div 128)) else 1)"

declare varint_len.simps [simp del]

lemma length_put_varint [simp]: "length (put_varint v) = varint_len v"
  by (induction v rule: put_varint.induct) (subst put_varint.simps, subst varint_len.simps, simp)

lemma varint_pos [simp]: "0 < varint_len v" "put_varint v \<noteq> []"
  by (subst varint_len.simps, simp) (subst put_varint.simps, simp)

text \<open>The bytes: seven bits of the value, and a mark on all but the last.\<close>

lemma low_seven: "(x :: u8) AND 127 = take_bit 7 x"
  by (simp add: take_bit_eq_mask mask_eq_exp_minus_1)

lemma low_seven_of_nat: "take_bit 7 (of_nat v :: u8) = of_nat (v mod 128)"
proof -
  have "unat (take_bit 7 (of_nat v :: u8)) = v mod 128"
    by (simp only: unsigned_take_bit_eq unsigned_of_nat take_bit_take_bit) (simp add: take_bit_eq_mod mod_mod_cancel)
  then show ?thesis by (metis of_nat_unat ucast_id)
qed

lemma varint_byte_more: "((of_nat v :: u8) OR 128) AND 128 \<noteq> 0" "(((of_nat v :: u8) OR 128) AND 127) = of_nat (v mod 128)"
proof -
  have "((of_nat v :: u8) OR 128) AND 128 = 128" by (rule bit_eqI) (simp only: bit_and_iff bit_or_iff, blast)
  then show "((of_nat v :: u8) OR 128) AND 128 \<noteq> 0" by simp
  have "take_bit 7 (128 :: u8) = 0" by code_simp
  then show "(((of_nat v :: u8) OR 128) AND 127) = of_nat (v mod 128)" by (simp add: low_seven low_seven_of_nat)
qed

lemma varint_byte_last:
  assumes "v < 128"
  shows "(of_nat v :: u8) AND 128 = 0" "(of_nat v :: u8) AND 127 = of_nat v"
proof -
  show b: "(of_nat v :: u8) AND 127 = of_nat v" using assms by (simp add: low_seven low_seven_of_nat)
  have "(127 :: u8) AND 128 = 0" by code_simp
  then have "((of_nat v :: u8) AND 127) AND 128 = 0" by (simp add: and.assoc)
  then show "(of_nat v :: u8) AND 128 = 0" by (simp only: b)
qed

lemma varint_or:
  assumes "unat (w :: 64 word) < 2 ^ shift" "v < 128" "unat w + v * 2 ^ shift < 2 ^ 64"
  shows "unat (w OR push_bit shift (ucast (of_nat v :: u8))) = unat w + v * 2 ^ shift"
proof (cases "v = 0")
  case False
  let ?p = "push_bit shift (ucast (of_nat v :: u8)) :: 64 word"
  have s: "shift < 64"
  proof (rule ccontr)
    assume "\<not> shift < 64"
    then have "(2 :: nat) ^ 64 \<le> 2 ^ shift" by (intro power_increasing) auto
    also have "\<dots> \<le> v * 2 ^ shift" using False by simp
    finally show False using assms(3) by simp
  qed
  have c: "(ucast (of_nat v :: u8) :: 64 word) = of_nat v" using assms(2)
    by (simp add: word_unat_eq_iff unsigned_ucast_eq unsigned_of_nat take_bit_nat_eq_self)
  have p: "?p = of_nat (v * 2 ^ shift)" unfolding c by (simp add: push_bit_eq_mult)
  have up: "unat ?p = v * 2 ^ shift" unfolding p using assms(3) by (subst unsigned_of_nat) (simp add: take_bit_nat_eq_self)
  have dis: "\<not> bit w n \<or> \<not> bit ?p n" for n
  proof (cases "n < shift")
    case True
    then show ?thesis by (simp add: bit_push_bit_iff)
  next
    case False
    have "w = take_bit shift w" using assms(1) by (simp add: word_unat_eq_iff unsigned_take_bit_eq take_bit_nat_eq_self)
    then have "\<not> bit w n" using False by (metis bit_take_bit_iff)
    then show ?thesis by blast
  qed
  have "w AND ?p = 0" using dis by (simp add: bit_eq_iff bit_and_iff)
  then have "w OR ?p = w + ?p" by (simp add: disjunctive_add_eq_or)
  then show ?thesis using assms(3) up by (simp add: unat_word_ariths)
qed simp

lemma varint_loop_back:
  assumes "unat w < 2 ^ shift" "v * 2 ^ shift + unat w < 2 ^ 64"
  shows "varint_loop w shift (put_varint v @ rest) = Inr (v * 2 ^ shift + unat w, rest)"
  using assms
proof (induction v arbitrary: w shift rule: put_varint.induct)
  case (1 v)
  show ?case
  proof (cases "128 \<le> v")
    case True
    let ?w = "w OR push_bit shift (ucast (of_nat (v mod 128) :: u8))"
    have d: "v = v div 128 * 128 + v mod 128" by simp
    have "v mod 128 * 2 ^ shift \<le> v * 2 ^ shift" by (intro mult_right_mono) auto
    then have le: "v * 2 ^ shift < 2 ^ 64" "unat w + v mod 128 * 2 ^ shift < 2 ^ 64" using 1(3) by linarith+
    have s: "shift + 7 < 64"
    proof (rule ccontr)
      assume "\<not> shift + 7 < 64"
      then have "(2 :: nat) ^ 57 \<le> 2 ^ shift" by (intro power_increasing) auto
      then have "128 * 2 ^ 57 \<le> v * 2 ^ shift" using True by (intro mult_mono) auto
      then show False using le(1) by simp
    qed
    have u: "unat ?w = unat w + v mod 128 * 2 ^ shift" using varint_or[OF 1(2) _ le(2)] by simp
    have small: "unat ?w < 2 ^ (shift + 7)"
    proof -
      have "unat w + v mod 128 * 2 ^ shift < 2 ^ shift + 127 * 2 ^ shift" using 1(2) by (intro add_less_le_mono mult_right_mono) auto
      then show ?thesis using u by (simp add: power_add)
    qed
    have "v div 128 * 2 ^ (shift + 7) + unat ?w = v * 2 ^ shift + unat w"
    proof -
      have "v * 2 ^ shift = (v div 128 * 128 + v mod 128) * 2 ^ shift" using d by simp
      then show ?thesis unfolding u power_add by (simp only: add_mult_distrib) simp
    qed
    then show ?thesis
      using 1(1)[OF True small] 1(3) s True varint_byte_more[of v]
      by (subst put_varint.simps) (simp add: Let_def)
  next
    case False
    then have "unat (w OR push_bit shift (ucast (of_nat v :: u8))) = unat w + v * 2 ^ shift" using varint_or[OF 1(2), of v] 1(3) by simp
    then show ?thesis using False varint_byte_last[of v] by (subst put_varint.simps) (simp add: Let_def)
  qed
qed

lemma varint_back [simp]: "v \<le> u64_max \<Longrightarrow> get_varint (put_varint v @ rest) = Inr (v, rest)"
  using varint_loop_back[of 0 0 v rest] by (simp add: get_varint_def u64_max_def)

lemma varint_loop_shorter: "varint_loop v shift bs = Inr (n, rest) \<Longrightarrow> length rest < length bs"
  by (induction v shift bs rule: varint_loop.induct) (auto simp: Let_def split: if_splits)

lemma get_varint_shorter: "get_varint bs = Inr (n, rest) \<Longrightarrow> length rest < length bs"
  unfolding get_varint_def by (rule varint_loop_shorter)

section \<open>Blocks\<close>

definition BLOCK_MAX :: nat where "BLOCK_MAX = 384"

definition corrupt_trigram :: cl_error where "corrupt_trigram = Validation ''corrupt trigram index''"

definition post_key :: "nat \<Rightarrow> nat \<Rightarrow> bytes" where
  "post_key tri first = to_be 4 tri @ to_be 8 first"

function decode_deltas :: "nat \<Rightarrow> bytes \<Rightarrow> nat list res" where
  "decode_deltas prev bs = (if bs = [] then Inr [] else
     rbind (get_varint bs) (\<lambda>(d, rest).
     rbind (ok_or corrupt_trigram (checked_add_u64 prev d)) (\<lambda>next.
     rbind (decode_deltas next rest) (\<lambda>ids. Inr (next # ids)))))"
  by auto
termination by (relation "measure (\<lambda>(_, bs). length bs)") (auto dest: get_varint_shorter)

declare decode_deltas.simps [simp del]

definition decode_block :: "bytes \<Rightarrow> bytes \<Rightarrow> nat list res" where
  "decode_block key val = (if length key \<noteq> 12 then Inl corrupt_trigram
     else let first = from_be (take 8 (drop 4 key)) in rbind (decode_deltas first val) (\<lambda>ids. Inr (first # ids)))"

text \<open>
  \<open>fill_block\<close> is the inner loop of \<open>blocks\<close>: the bytes of the block, and what does not fit. Row numbers ascend, so the differences of
  the source do not wrap.
\<close>

fun fill_block :: "nat \<Rightarrow> bytes \<Rightarrow> nat list \<Rightarrow> bytes \<times> nat list" where
  "fill_block prev val [] = (val, [])"
| "fill_block prev val (n # ids) =
     (let delta = n - prev
      in if BLOCK_MAX < length val + varint_len delta then (val, n # ids)
         else fill_block n (val @ put_varint delta) ids)"

lemma fill_block_shorter: "fill_block prev val ids = (v, rest) \<Longrightarrow> length rest \<le> length ids"
  by (induction prev val ids rule: fill_block.induct) (auto simp: Let_def split: if_splits)

function blocks :: "nat list \<Rightarrow> (nat \<times> bytes) list" where
  "blocks [] = []"
| "blocks (n # ids) = (let (val, rest) = fill_block n [] ids in (n, val) # blocks rest)"
  by pat_completeness auto
termination by (relation "measure length") (auto, metis fill_block_shorter le_imp_less_Suc)

text \<open>The last row of a range: \<open>next_back\<close>.\<close>

definition tbl_range :: "('k::linorder, 'v) table \<Rightarrow> 'k \<Rightarrow> 'k \<Rightarrow> ('k, 'v) table" where
  "tbl_range t lo hi = filter (\<lambda>(k, _). lo \<le> k \<and> k \<le> hi) t"

definition last_row :: "('k \<times> 'v) list \<Rightarrow> ('k \<times> 'v) option" where
  "last_row rows = (if rows = [] then None else Some (last rows))"

definition first_row :: "('k \<times> 'v) list \<Rightarrow> ('k \<times> 'v) option" where
  "first_row rows = (case rows of [] \<Rightarrow> None | r # _ \<Rightarrow> Some r)"

type_synonym posts = "(bytes, bytes) table"

definition block_at_or_before :: "posts \<Rightarrow> nat \<Rightarrow> nat \<Rightarrow> (bytes \<times> bytes) option" where
  "block_at_or_before t tri row = last_row (tbl_range t (post_key tri 0) (post_key tri row))"

text \<open>
  \<open>slice::binary_search\<close> on a list without repetitions: the position of the number, or else the position where it belongs.
\<close>

definition binary_search :: "nat list \<Rightarrow> nat \<Rightarrow> nat + nat" where
  "binary_search xs n = (let i = length (takeWhile (\<lambda>x. x < n) xs)
     in if i < length xs \<and> xs ! i = n then Inr i else Inl i)"

definition put_blocks :: "posts \<Rightarrow> nat \<Rightarrow> nat list \<Rightarrow> posts" where
  "put_blocks t tri ids = foldl (\<lambda>t (first, val). tbl_insert t (post_key tri first) val) t (blocks ids)"

definition add_posting :: "posts \<Rightarrow> nat \<Rightarrow> nat \<Rightarrow> posts res" where
  "add_posting t tri row =
     (case block_at_or_before t tri row of
        Some (k, v) \<Rightarrow> rbind (decode_block k v) (\<lambda>ids.
          case binary_search ids row of
            Inr _ \<Rightarrow> Inr t
          | Inl i \<Rightarrow> Inr (put_blocks t tri (take i ids @ row # drop i ids)))
      | None \<Rightarrow>
          (case first_row (tbl_range t (post_key tri row) (post_key tri u64_max)) of
             Some (k, v) \<Rightarrow> rbind (decode_block k v) (\<lambda>ids. Inr (put_blocks (tbl_remove t k) tri (row # ids)))
           | None \<Rightarrow> Inr (put_blocks t tri [row])))"

definition remove_posting :: "posts \<Rightarrow> nat \<Rightarrow> nat \<Rightarrow> posts res" where
  "remove_posting t tri row =
     (case block_at_or_before t tri row of
        None \<Rightarrow> Inr t
      | Some (k, v) \<Rightarrow> rbind (decode_block k v) (\<lambda>ids.
          case binary_search ids row of
            Inl _ \<Rightarrow> Inr t
          | Inr i \<Rightarrow> Inr (put_blocks (if i = 0 then tbl_remove t k else t) tri (take i ids @ drop (Suc i) ids))))"

section \<open>Decoding what was encoded\<close>

fun deltas :: "nat \<Rightarrow> nat list \<Rightarrow> bytes" where
  "deltas prev [] = []"
| "deltas prev (n # ids) = put_varint (n - prev) @ deltas n ids"

lemma decode_deltas_back:
  "sorted_wrt (<) (prev # ids) \<Longrightarrow> \<forall>m \<in> set ids. m \<le> u64_max \<Longrightarrow> decode_deltas prev (deltas prev ids) = Inr ids"
proof (induction ids arbitrary: prev)
  case (Cons n ids)
  then have "n - prev \<le> u64_max" "prev < n" by auto
  then show ?case using Cons by (subst decode_deltas.simps) (auto simp: le_diff_conv)
qed (simp add: decode_deltas.simps)

lemma fill_block_splits:
  "fill_block prev val ids = (v, rest) \<Longrightarrow> length val \<le> BLOCK_MAX \<Longrightarrow>
    \<exists>front. ids = front @ rest \<and> v = val @ deltas prev front \<and> length v \<le> BLOCK_MAX"
proof (induction prev val ids rule: fill_block.induct)
  case (2 prev val n ids)
  show ?case
  proof (cases "BLOCK_MAX < length val + varint_len (n - prev)")
    case False
    then obtain front where "ids = front @ rest" "v = (val @ put_varint (n - prev)) @ deltas n front" "length v \<le> BLOCK_MAX"
      using 2 by (auto simp: Let_def)
    then show ?thesis by (intro exI[of _ "n # front"]) auto
  qed (use 2 in auto)
qed auto

lemma u64_bound: "n \<le> u64_max \<Longrightarrow> n < 256 ^ 8" "(t :: nat) < 2 ^ 32 \<Longrightarrow> t < 256 ^ 4"
  by (simp_all add: u64_max_def)

lemma post_key_cmp:
  assumes "a < 2 ^ 32" "b < 2 ^ 32" "f \<le> u64_max" "g \<le> u64_max"
  shows "bcmp (post_key a f) (post_key b g) = then_with (ord_cmp a b) (ord_cmp f g)"
  unfolding post_key_def
  using bcmp_to_be[OF u64_bound(1)[OF assms(3)] u64_bound(1)[OF assms(4)]] bcmp_to_be[OF u64_bound(2)[OF assms(1)] u64_bound(2)[OF assms(2)]]
  by (simp only: bcmp_append_same_length length_to_be)

lemma post_key_order:
  assumes "a < 2 ^ 32" "b < 2 ^ 32" "f \<le> u64_max" "g \<le> u64_max"
  shows "post_key a f < post_key b g \<longleftrightarrow> a < b \<or> a = b \<and> f < g" "post_key a f = post_key b g \<longleftrightarrow> a = b \<and> f = g"
    "post_key a f \<le> post_key b g \<longleftrightarrow> a < b \<or> a = b \<and> f \<le> g"
proof -
  show l: "post_key a f < post_key b g \<longleftrightarrow> a < b \<or> a = b \<and> f < g"
    using post_key_cmp[OF assms] by (cases a b rule: linorder_cases; cases f g rule: linorder_cases) (auto simp: ord_cmp_def)
  show e: "post_key a f = post_key b g \<longleftrightarrow> a = b \<and> f = g"
    using post_key_cmp[OF assms] by (cases a b rule: linorder_cases; cases f g rule: linorder_cases) (auto simp: ord_cmp_def)
  show "post_key a f \<le> post_key b g \<longleftrightarrow> a < b \<or> a = b \<and> f \<le> g" unfolding le_less l e by auto
qed

lemma decode_deltas_bounded:
  "decode_deltas prev bs = Inr ids \<Longrightarrow> n \<in> set ids \<Longrightarrow> n \<le> u64_max"
proof (induction prev bs arbitrary: ids rule: decode_deltas.induct)
  case (1 prev bs)
  show ?case
  proof (cases "bs = []")
    case False
    then obtain d rest ids' where "get_varint bs = Inr (d, rest)" "prev + d \<le> u64_max" "decode_deltas (prev + d) rest = Inr ids'"
      "ids = (prev + d) # ids'" using 1(2) by (subst (asm) decode_deltas.simps) (auto split: prod.splits)
    then show ?thesis using 1(1)[OF False, of "(d, rest)" d rest "prev + d" ids'] 1(3) by auto
  qed (use 1 in \<open>simp add: decode_deltas.simps\<close>)
qed

lemma decode_block_key:
  assumes "f \<le> u64_max"
  shows "decode_block (post_key tri f) v = rbind (decode_deltas f v) (\<lambda>ids. Inr (f # ids))"
  using assms by (simp add: decode_block_def post_key_def)

section \<open>A table of blocks is a set per trigram\<close>

definition posting :: "posts \<Rightarrow> nat \<Rightarrow> nat \<Rightarrow> nat list \<Rightarrow> bool" where
  "posting t tri f ids \<longleftrightarrow> tri < 2 ^ 32 \<and> f \<le> u64_max \<and>
     (\<exists>v. tbl_get t (post_key tri f) = Some v \<and> decode_block (post_key tri f) v = Inr ids)"

definition posts_of :: "posts \<Rightarrow> nat \<Rightarrow> nat set" where
  "posts_of t tri = {n. \<exists>f ids. posting t tri f ids \<and> n \<in> set ids}"

text \<open>Every row is a readable block of ascending numbers within the limit, and the blocks of a trigram do not overlap.\<close>

definition block_row :: "bytes \<times> bytes \<Rightarrow> bool" where
  "block_row r \<longleftrightarrow> (\<exists>tri f ids. tri < 2 ^ 32 \<and> f \<le> u64_max \<and> fst r = post_key tri f \<and> length (snd r) \<le> BLOCK_MAX \<and>
     decode_block (fst r) (snd r) = Inr ids \<and> sorted_wrt (<) ids)"

definition posts_ok :: "posts \<Rightarrow> bool" where
  "posts_ok t \<longleftrightarrow> tbl_ok t \<and> (\<forall>r \<in> set t. block_row r) \<and>
     (\<forall>tri f ids g jds. posting t tri f ids \<and> posting t tri g jds \<and> f < g \<longrightarrow> last ids < g)"

lemma posting_ids:
  assumes "posts_ok t" "posting t tri f ids"
  shows "ids \<noteq> []" "hd ids = f" "sorted_wrt (<) ids" "\<forall>n \<in> set ids. n \<le> u64_max" "tri < 2 ^ 32" "f \<le> u64_max"
proof -
  obtain v where v: "tri < 2 ^ 32" "f \<le> u64_max" "tbl_get t (post_key tri f) = Some v" "decode_block (post_key tri f) v = Inr ids"
    using assms(2) by (auto simp: posting_def)
  then have "(post_key tri f, v) \<in> set t" using assms(1) by (simp add: posts_ok_def tbl_get_iff)
  then have "block_row (post_key tri f, v)" using assms(1) by (auto simp: posts_ok_def)
  then show "sorted_wrt (<) ids" using v(4) by (auto simp: block_row_def)
  obtain ds where "decode_deltas f v = Inr ds" "ids = f # ds" using v(2,4) by (auto simp: decode_block_key)
  then show "ids \<noteq> []" "hd ids = f" "\<forall>n \<in> set ids. n \<le> u64_max" using v(2) decode_deltas_bounded by auto
  show "tri < 2 ^ 32" "f \<le> u64_max" by fact+
qed

lemma sorted_last: "sorted_wrt (<) (xs :: nat list) \<Longrightarrow> n \<in> set xs \<Longrightarrow> n \<le> last xs"
proof (induction xs)
  case (Cons x xs)
  then show ?case using last_in_set[of xs] by (cases "xs = []") (auto intro: less_imp_le)
qed simp

lemma posting_within:
  assumes "posts_ok t" "posting t tri f ids" "n \<in> set ids"
  shows "f \<le> n" "n \<le> last ids" "f \<le> last ids"
proof -
  note i = posting_ids[OF assms(1,2)]
  obtain ds where ds: "ids = f # ds" using i(1,2) by (cases ids) auto
  then show "f \<le> n" using i(3) assms(3) by auto
  show "n \<le> last ids" by (rule sorted_last[OF i(3) assms(3)])
  show "f \<le> last ids" by (rule sorted_last[OF i(3)]) (simp add: ds)
qed

text \<open>Nothing of a trigram lies between two numbers.\<close>

definition post_gap :: "posts \<Rightarrow> nat \<Rightarrow> nat \<Rightarrow> nat \<Rightarrow> bool" where
  "post_gap t tri lo hi \<longleftrightarrow> (\<forall>f ids. posting t tri f ids \<longrightarrow> last ids < lo \<or> hi < f)"

lemma posting_insert:
  assumes ok: "posts_ok t" and tri: "tri < 2 ^ 32" and f: "f \<le> u64_max" and ids: "sorted_wrt (<) (f # ids)" "\<forall>n \<in> set ids. n \<le> u64_max"
    and gap: "post_gap t tri f (last (f # ids))"
  shows "posting (tbl_insert t (post_key tri f) (deltas f ids)) b g jds \<longleftrightarrow> b = tri \<and> g = f \<and> jds = f # ids \<or> posting t b g jds"
proof -
  have d: "decode_block (post_key tri f) (deltas f ids) = Inr (f # ids)"
    using f decode_deltas_back[OF ids] by (simp add: decode_block_key)
  have no: "\<not> posting t tri f jds" for jds
  proof
    assume p: "posting t tri f jds"
    then have "f \<le> last jds" using posting_within[OF ok p] posting_ids(1)[OF ok p] by (metis list.set_sel(1))
    moreover have "f \<le> last (f # ids)" by (rule sorted_last[OF ids(1)]) simp
    ultimately show False using gap p unfolding post_gap_def by (meson linorder_not_le)
  qed
  have t: "tbl_ok t" using ok by (simp add: posts_ok_def)
  show ?thesis
  proof (cases "b = tri \<and> g = f")
    case True
    then show ?thesis using t tri f d no by (auto simp: posting_def)
  next
    case False
    then have "posting (tbl_insert t (post_key tri f) (deltas f ids)) b g jds \<longleftrightarrow> posting t b g jds"
      using t tri f by (auto simp: posting_def post_key_order)
    then show ?thesis using False by blast
  qed
qed

lemma posts_ok_insert:
  assumes ok: "posts_ok t" and tri: "tri < 2 ^ 32" and f: "f \<le> u64_max" and ids: "sorted_wrt (<) (f # ids)" "\<forall>n \<in> set ids. n \<le> u64_max"
    and gap: "post_gap t tri f (last (f # ids))" and len: "length (deltas f ids) \<le> BLOCK_MAX"
  shows "posts_ok (tbl_insert t (post_key tri f) (deltas f ids))"
proof -
  note ins = posting_insert[OF assms(1-6)]
  have t: "tbl_ok t" using ok by (simp add: posts_ok_def)
  have "block_row (post_key tri f, deltas f ids)" unfolding block_row_def
    using tri f len ids decode_deltas_back[OF ids]
    by (intro exI[of _ tri] exI[of _ f] exI[of _ "f # ids"]) (simp add: decode_block_key)
  then have rows: "\<forall>r \<in> set (tbl_insert t (post_key tri f) (deltas f ids)). block_row r"
    using ok t by (auto simp: posts_ok_def set_tbl_insert)
  have "last as < g" if p: "posting (tbl_insert t (post_key tri f) (deltas f ids)) b e as"
    "posting (tbl_insert t (post_key tri f) (deltas f ids)) b g bs" "e < g" for b e as g bs
  proof -
    consider "posting t b e as" "posting t b g bs" | "b = tri" "e = f" "as = f # ids" "posting t tri g bs"
      | "b = tri" "g = f" "posting t tri e as"
      using p unfolding ins by auto
    then show ?thesis
    proof cases
      case 1
      then show ?thesis using ok p(3) unfolding posts_ok_def by blast
    next
      case 2
      then have "last bs < f \<or> last (f # ids) < g" using gap by (auto simp: post_gap_def)
      moreover have "g \<le> last bs" using posting_within(3)[OF ok 2(4)] posting_ids(1)[OF ok 2(4)] by (metis list.set_sel(1))
      ultimately show ?thesis using 2 p(3) by auto
    next
      case 3
      then have "last as < f \<or> last (f # ids) < e" using gap by (auto simp: post_gap_def)
      moreover have "f \<le> last (f # ids)" by (rule sorted_last[OF ids(1)]) simp
      ultimately show ?thesis using 3 p(3) by linarith
    qed
  qed
  then show ?thesis unfolding posts_ok_def using rows tbl_ok_insert[OF t] by blast
qed

lemma posts_of_insert:
  assumes "posts_ok t" "tri < 2 ^ 32" "f \<le> u64_max" "sorted_wrt (<) (f # ids)" "\<forall>n \<in> set ids. n \<le> u64_max"
    "post_gap t tri f (last (f # ids))"
  shows "posts_of (tbl_insert t (post_key tri f) (deltas f ids)) b = (if b = tri then set (f # ids) \<union> posts_of t b else posts_of t b)"
proof -
  have "n \<in> posts_of (tbl_insert t (post_key tri f) (deltas f ids)) b \<longleftrightarrow> b = tri \<and> n \<in> set (f # ids) \<or> n \<in> posts_of t b" for n
    unfolding posts_of_def posting_insert[OF assms] by blast
  then show ?thesis by auto
qed

text \<open>Writing ascending numbers into a gap adds exactly them.\<close>

lemma put_blocks_Cons:
  assumes "fill_block n [] ids = (v, rest)"
  shows "put_blocks t tri (n # ids) = put_blocks (tbl_insert t (post_key tri n) v) tri rest"
  using assms by (simp add: put_blocks_def)

lemma put_blocks_exact:
  assumes "posts_ok t" "tri < 2 ^ 32" "sorted_wrt (<) ids" "\<forall>n \<in> set ids. n \<le> u64_max" "ids \<noteq> [] \<Longrightarrow> post_gap t tri (hd ids) (last ids)"
  shows "posts_ok (put_blocks t tri ids) \<and> (\<forall>b. posts_of (put_blocks t tri ids) b = (if b = tri then set ids \<union> posts_of t b else posts_of t b))"
  using assms
proof (induction ids arbitrary: t rule: blocks.induct)
  case (2 n ids)
  obtain v rest where fb: "fill_block n [] ids = (v, rest)" by fastforce
  then obtain front where fr: "ids = front @ rest" "v = deltas n front" "length v \<le> BLOCK_MAX"
    using fill_block_splits[OF fb] by (auto simp: BLOCK_MAX_def)
  have s: "sorted_wrt (<) (n # front)" "sorted_wrt (<) rest" "\<forall>a \<in> set (n # front). \<forall>b \<in> set rest. a < b"
    using "2.prems"(3) by (auto simp: fr(1) sorted_wrt_append)
  have up: "n \<le> u64_max" "\<forall>m \<in> set front. m \<le> u64_max" "\<forall>m \<in> set rest. m \<le> u64_max" using "2.prems"(4) by (auto simp: fr(1))
  have ends: "last (n # front) \<le> last (n # ids)" 
    by (rule sorted_last[OF "2.prems"(3)]) (use last_in_set[of "n # front"] in \<open>auto simp: fr(1)\<close>)
  have gap: "post_gap t tri n (last (n # front))" using "2.prems"(5) ends unfolding post_gap_def by fastforce
  note a = "2.prems"(1,2) up(1) s(1) up(2) gap
  let ?t = "tbl_insert t (post_key tri n) (deltas n front)"
  have ok: "posts_ok ?t" using posts_ok_insert[OF a] fr by simp
  have gap2: "post_gap ?t tri (hd rest) (last rest)" if r: "rest \<noteq> []"
    unfolding post_gap_def
  proof (intro allI impI)
    fix f js
    assume "posting ?t tri f js"
    then consider "f = n" "js = n # front" | "posting t tri f js" unfolding posting_insert[OF a] by blast
    then show "last js < hd rest \<or> last rest < f"
    proof cases
      case 1
      then show ?thesis using s(3) r last_in_set[of "n # front"] by (metis hd_in_set list.distinct(1))
    next
      case 2
      then have "last js < n \<or> last rest < f" using "2.prems"(5) r by (auto simp: post_gap_def fr(1))
      moreover have "n < hd rest" using s(3) r by simp
      ultimately show ?thesis by linarith
    qed
  qed
  have "posts_ok (put_blocks ?t tri rest) \<and> (\<forall>b. posts_of (put_blocks ?t tri rest) b = (if b = tri then set rest \<union> posts_of ?t b else posts_of ?t b))"
    by (rule "2.IH"[OF fb[symmetric] refl ok "2.prems"(2) s(2) up(3) gap2])
  then show ?case unfolding put_blocks_Cons[OF fb] fr(2) posts_of_insert[OF a] by (auto simp: fr(1))
qed (simp add: put_blocks_def)

section \<open>Adding and removing\<close>

lemma posting_remove:
  assumes "posts_ok t" "posting t tri f ids"
  shows "posting (tbl_remove t (post_key tri f)) b g js \<longleftrightarrow> posting t b g js \<and> \<not> (b = tri \<and> g = f)"
proof -
  have "tbl_ok t" "tri < 2 ^ 32" "f \<le> u64_max" using assms by (auto simp: posts_ok_def posting_def)
  then show ?thesis by (auto simp: posting_def post_key_order)
qed

text \<open>The blocks of a trigram lie one after the other.\<close>

lemma posting_apart:
  assumes "posts_ok t" "posting t tri f ids" "posting t tri g js" "f < g"
  shows "last ids < g"
  using assms unfolding posts_ok_def by blast

lemma posts_ok_remove:
  assumes "posts_ok t" "posting t tri f ids"
  shows "posts_ok (tbl_remove t (post_key tri f))"
proof -
  have "tbl_ok t" "\<forall>r \<in> set t. block_row r" using assms(1) by (auto simp: posts_ok_def)
  then show ?thesis using posting_apart[OF assms(1)] unfolding posts_ok_def posting_remove[OF assms]
    by (simp add: set_tbl_remove) blast
qed

lemma posting_unique: "posting t tri f ids \<Longrightarrow> posting t tri f js \<Longrightarrow> ids = js"
  by (auto simp: posting_def)

lemma posts_of_remove:
  assumes "posts_ok t" "posting t tri f ids"
  shows "posts_of (tbl_remove t (post_key tri f)) b = (if b = tri then posts_of t b - set ids else posts_of t b)"
proof -
  have dis: "n \<notin> set ids" if "posting t tri g js" "g \<noteq> f" "n \<in> set js" for g js n
    using posting_apart[OF assms(1) assms(2) that(1)] posting_apart[OF assms(1) that(1) assms(2)] that(2)
      posting_within[OF assms(1) that(1,3)] posting_within[OF assms(1,2), of n]
    by (metis leD le_less_trans linorder_neqE_nat)
  show ?thesis unfolding posts_of_def posting_remove[OF assms]
    using dis posting_unique[OF assms(2)] by (cases "b = tri") (auto, blast)
qed

text \<open>Replacing a block by numbers that stay within its place.\<close>

lemma tbl_insert_remove: "tbl_ok t \<Longrightarrow> tbl_insert (tbl_remove t k) k v = tbl_insert t k v"
  by (rule tbl.rows_eqI) auto

lemma put_blocks_over:
  assumes "tbl_ok t"
  shows "put_blocks (tbl_remove t (post_key tri n)) tri (n # ids) = put_blocks t tri (n # ids)"
proof -
  obtain v rest where fb: "fill_block n [] ids = (v, rest)" by fastforce
  show ?thesis unfolding put_blocks_Cons[OF fb] tbl_insert_remove[OF assms] ..
qed

lemma replace_block:
  assumes ok: "posts_ok t" and p: "posting t tri f ids"
    and js: "sorted_wrt (<) js" "\<forall>n \<in> set js. n \<le> u64_max"
    and place: "\<And>g ks. js \<noteq> [] \<Longrightarrow> posting t tri g ks \<Longrightarrow> g \<noteq> f \<Longrightarrow> last ks < hd js \<or> last js < g"
  shows "posts_ok (put_blocks (tbl_remove t (post_key tri f)) tri js)"
    "posts_of (put_blocks (tbl_remove t (post_key tri f)) tri js) b = (if b = tri then set js \<union> (posts_of t b - set ids) else posts_of t b)"
proof -
  have gap: "js \<noteq> [] \<Longrightarrow> post_gap (tbl_remove t (post_key tri f)) tri (hd js) (last js)"
    unfolding post_gap_def posting_remove[OF ok p] using place by blast
  note e = put_blocks_exact[OF posts_ok_remove[OF ok p] posting_ids(5)[OF ok p] js gap]
  show "posts_ok (put_blocks (tbl_remove t (post_key tri f)) tri js)" using e by blast
  show "posts_of (put_blocks (tbl_remove t (post_key tri f)) tri js) b = (if b = tri then set js \<union> (posts_of t b - set ids) else posts_of t b)"
    using e posts_of_remove[OF ok p] by simp
qed

text \<open>Where the search for a block ends.\<close>

lemma tbl_range_rows:
  assumes "posts_ok t" "tri < 2 ^ 32" "lo \<le> u64_max" "hi \<le> u64_max"
  shows "(k, v) \<in> set (tbl_range t (post_key tri lo) (post_key tri hi)) \<longleftrightarrow>
    (\<exists>f ids. k = post_key tri f \<and> lo \<le> f \<and> f \<le> hi \<and> posting t tri f ids \<and> tbl_get t k = Some v \<and> decode_block k v = Inr ids)"
    (is "?l \<longleftrightarrow> ?r")
proof
  have t: "tbl_ok t" using assms(1) by (simp add: posts_ok_def)
  assume l: ?l
  then have m: "(k, v) \<in> set t" "post_key tri lo \<le> k" "k \<le> post_key tri hi" by (auto simp: tbl_range_def)
  then have "block_row (k, v)" using assms(1) by (auto simp: posts_ok_def)
  then obtain b f ids where b: "b < 2 ^ 32" "f \<le> u64_max" "k = post_key b f" "decode_block k v = Inr ids"
    by (auto simp: block_row_def)
  then have "b = tri" "lo \<le> f" "f \<le> hi" using m(2,3) assms(2-4) by (auto simp: post_key_order)
  then show ?r using b m(1) t by (auto simp: posting_def tbl_get_iff)
next
  assume ?r
  then show ?l using assms by (auto simp: tbl_range_def posts_ok_def tbl_get_iff posting_def post_key_order)
qed

lemma tbl_range_ok: "tbl_ok t \<Longrightarrow> tbl_ok (tbl_range t lo hi)"
  by (simp add: tbl_range_def tbl_ok_filter)

lemma last_row_Some:
  assumes "tbl_ok t" "last_row t = Some (k, v)"
  shows "(k, v) \<in> set t" "\<And>r. r \<in> set t \<Longrightarrow> fst r \<le> k"
proof -
  obtain u where u: "t = u @ [(k, v)]" using assms(2) by (cases t rule: rev_cases) (auto simp: last_row_def)
  then show "(k, v) \<in> set t" by simp
  show "\<And>r. r \<in> set t \<Longrightarrow> fst r \<le> k" using assms(1) by (auto simp: u tbl_ok_append intro: less_imp_le)
qed

lemma first_row_Some:
  assumes "tbl_ok t" "first_row t = Some (k, v)"
  shows "(k, v) \<in> set t" "\<And>r. r \<in> set t \<Longrightarrow> k \<le> fst r"
  using assms by (auto simp: first_row_def tbl_ok_Cons split: list.splits)

lemma row_None [simp]: "last_row t = None \<longleftrightarrow> t = []" "first_row t = None \<longleftrightarrow> t = []"
  by (auto simp: last_row_def first_row_def split: list.splits)

lemma block_at_or_before_Some:
  assumes "posts_ok t" "tri < 2 ^ 32" "row \<le> u64_max" "block_at_or_before t tri row = Some (k, v)"
  shows "\<exists>f ids. k = post_key tri f \<and> posting t tri f ids \<and> decode_block k v = Inr ids \<and> f \<le> row \<and>
    (\<forall>g js. posting t tri g js \<longrightarrow> g \<le> f \<or> row < g)"
proof -
  have t: "tbl_ok t" using assms(1) by (simp add: posts_ok_def)
  note l = last_row_Some[OF tbl_range_ok[OF t] assms(4)[unfolded block_at_or_before_def]]
  note r = tbl_range_rows[OF assms(1,2) le0 assms(3)]
  obtain f ids where f: "k = post_key tri f" "posting t tri f ids" "decode_block k v = Inr ids" "f \<le> row" using l(1) unfolding r by blast
  have "g \<le> f" if g: "posting t tri g js" "g \<le> row" for g js
  proof -
    obtain w where "tbl_get t (post_key tri g) = Some w" "decode_block (post_key tri g) w = Inr js" using g by (auto simp: posting_def)
    then have "(post_key tri g, w) \<in> set (tbl_range t (post_key tri 0) (post_key tri row))" unfolding r using g by blast
    then have "post_key tri g \<le> post_key tri f" using l(2) f(1) by force
    then show ?thesis using g f assms(1) by (auto simp: posting_def post_key_order)
  qed
  then have "\<forall>g js. posting t tri g js \<longrightarrow> g \<le> f \<or> row < g" by (metis linorder_not_le)
  then show ?thesis using f by blast
qed

lemma block_at_or_before_None:
  assumes "posts_ok t" "tri < 2 ^ 32" "row \<le> u64_max" "block_at_or_before t tri row = None" "posting t tri g js"
  shows "row < g"
proof (rule ccontr)
  assume "\<not> row < g"
  obtain w where "tbl_get t (post_key tri g) = Some w" "decode_block (post_key tri g) w = Inr js" using assms(5) by (auto simp: posting_def)
  then have "(post_key tri g, w) \<in> set (tbl_range t (post_key tri 0) (post_key tri row))"
    unfolding tbl_range_rows[OF assms(1,2) le0 assms(3)] using assms(5) \<open>\<not> row < g\<close> by auto
  then show False using assms(4) by (simp add: block_at_or_before_def)
qed

lemma next_block_Some:
  assumes "posts_ok t" "tri < 2 ^ 32" "row \<le> u64_max"
    "first_row (tbl_range t (post_key tri row) (post_key tri u64_max)) = Some (k, v)"
  shows "\<exists>f ids. k = post_key tri f \<and> posting t tri f ids \<and> decode_block k v = Inr ids \<and> row \<le> f \<and>
    (\<forall>g js. posting t tri g js \<longrightarrow> g < row \<or> f \<le> g)"
proof -
  have t: "tbl_ok t" using assms(1) by (simp add: posts_ok_def)
  note l = first_row_Some[OF tbl_range_ok[OF t] assms(4)]
  note r = tbl_range_rows[OF assms(1,2,3) order_refl]
  obtain f ids where f: "k = post_key tri f" "posting t tri f ids" "decode_block k v = Inr ids" "row \<le> f" using l(1) unfolding r by blast
  have "f \<le> g" if g: "posting t tri g js" "row \<le> g" for g js
  proof -
    obtain w where "tbl_get t (post_key tri g) = Some w" "decode_block (post_key tri g) w = Inr js" "g \<le> u64_max" using g by (auto simp: posting_def)
    then have "(post_key tri g, w) \<in> set (tbl_range t (post_key tri row) (post_key tri u64_max))" unfolding r using g by blast
    then have "post_key tri f \<le> post_key tri g" using l(2) f(1) by force
    then show ?thesis using g f assms(1) by (auto simp: posting_def post_key_order)
  qed
  then have "\<forall>g js. posting t tri g js \<longrightarrow> g < row \<or> f \<le> g" by (metis linorder_not_le)
  then show ?thesis using f by blast
qed

lemma next_block_None:
  assumes "posts_ok t" "tri < 2 ^ 32" "row \<le> u64_max" "tbl_range t (post_key tri row) (post_key tri u64_max) = []" "posting t tri g js"
  shows "g < row"
proof (rule ccontr)
  assume "\<not> g < row"
  obtain w where "tbl_get t (post_key tri g) = Some w" "decode_block (post_key tri g) w = Inr js" "g \<le> u64_max" using assms(5) by (auto simp: posting_def)
  then have "(post_key tri g, w) \<in> set (tbl_range t (post_key tri row) (post_key tri u64_max))"
    unfolding tbl_range_rows[OF assms(1-3) order_refl] using assms(5) \<open>\<not> g < row\<close> by auto
  then show False using assms(4) by simp
qed

lemma takeWhile_less:
  assumes "sorted_wrt (<) (xs :: nat list)" "i = length (takeWhile (\<lambda>x. x < n) xs)"
  shows "\<forall>x \<in> set (take i xs). x < n" "\<forall>x \<in> set (drop i xs). n \<le> x"
proof -
  show "\<forall>x \<in> set (take i xs). x < n" by (metis assms(2) set_takeWhileD takeWhile_eq_take)
  show "\<forall>x \<in> set (drop i xs). n \<le> x" 
  proof
    fix x
    assume "x \<in> set (drop i xs)"
    then have "x \<in> set (dropWhile (\<lambda>x. x < n) xs)" by (simp add: assms(2) dropWhile_eq_drop)
    then show "n \<le> x" using assms(1) by (induction xs) (auto split: if_splits)
  qed
qed

lemma binary_search_Inl:
  assumes "sorted_wrt (<) xs" "binary_search xs n = Inl i"
  shows "n \<notin> set xs" "sorted_wrt (<) (take i xs @ n # drop i xs)" "set (take i xs @ n # drop i xs) = insert n (set xs)"
proof -
  have i: "i = length (takeWhile (\<lambda>x. x < n) xs)" "\<not> (i < length xs \<and> xs ! i = n)"
    using assms(2) by (auto simp: binary_search_def Let_def split: if_splits)
  note b = takeWhile_less[OF assms(1) i(1)]
  have s: "sorted_wrt (<) (take i xs @ drop i xs)" "set xs = set (take i xs) \<union> set (drop i xs)"
    using assms(1) by (simp, metis append_take_drop_id set_append)
  have d: "x \<noteq> n" if "x \<in> set (drop i xs)" for x
  proof (cases "drop i xs")
    case (Cons y ys)
    then have "i < length xs" "xs ! i = y" by (metis drop_eq_Nil linorder_not_le list.distinct(1)) (metis Cons nth_via_drop)
    then have "n < y" using b(2) Cons i(2) by (metis le_neq_implies_less list.set_intros(1))
    then show ?thesis using that s(1) Cons by (auto simp: sorted_wrt_append)
  qed (use that in simp)
  show "n \<notin> set xs" using b(1) d s(2) by auto
  show "sorted_wrt (<) (take i xs @ n # drop i xs)"
    using s(1) b d by (fastforce simp: sorted_wrt_append)
  show "set (take i xs @ n # drop i xs) = insert n (set xs)" using s(2) by auto
qed

lemma binary_search_Inr:
  assumes "sorted_wrt (<) xs" "binary_search xs n = Inr i"
  shows "xs = take i xs @ n # drop (Suc i) xs" "n \<in> set xs" "sorted_wrt (<) (take i xs @ drop (Suc i) xs)"
    "set (take i xs @ drop (Suc i) xs) = set xs - {n}"
proof -
  have i: "i < length xs" "xs ! i = n"
    using assms(2) by (auto simp: binary_search_def Let_def split: if_splits)
  show e: "xs = take i xs @ n # drop (Suc i) xs" using id_take_nth_drop[OF i(1)] i(2) by simp
  then show "n \<in> set xs" by (metis in_set_conv_decomp)
  have s: "sorted_wrt (<) (take i xs @ n # drop (Suc i) xs)" using assms(1) e by simp
  then show "sorted_wrt (<) (take i xs @ drop (Suc i) xs)" by (auto simp: sorted_wrt_append)
  have "set xs = insert n (set (take i xs @ drop (Suc i) xs))" using e by (metis Un_insert_right list.simps(15) set_append)
  moreover have "n \<notin> set (take i xs @ drop (Suc i) xs)" using s by (auto simp: sorted_wrt_append)
  ultimately show "set (take i xs @ drop (Suc i) xs) = set xs - {n}" by auto
qed

lemma insert_in_block:
  assumes ok: "posts_ok t" and row: "row \<le> u64_max" and f: "posting t tri f ids" "f \<le> row"
    and far: "\<forall>g js. posting t tri g js \<longrightarrow> g \<le> f \<or> row < g" and j: "binary_search ids row = Inl j"
  defines "js \<equiv> take j ids @ row # drop j ids"
  shows "posts_ok (put_blocks t tri js)" "posts_of (put_blocks t tri js) = (posts_of t)(tri := insert row (posts_of t tri))"
proof -
  note i = posting_ids[OF ok f(1)]
  note b = binary_search_Inl[OF i(3) j, folded js_def]
  have "f \<noteq> row" using b(1) i(1,2) by (metis list.set_sel(1))
  then have "j \<noteq> 0" using j i(1,2) f(2) by (cases ids) (auto simp: binary_search_def Let_def split: if_splits)
  then have hd: "hd js = f" "js = f # tl js" using i(1,2) by (cases ids; cases j; simp add: js_def)+
  have lastjs: "last js = row \<or> last js = last ids" by (cases "drop j ids = []") (auto simp: last_drop js_def)
  have place: "last ks < hd js \<or> last js < g" if g: "posting t tri g ks" "g \<noteq> f" for g ks
  proof (cases "g < f")
    case True
    then show ?thesis using posting_apart[OF ok g(1) f(1)] hd(1) by simp
  next
    case False
    then have "f < g" "row < g" using g far by auto
    then show ?thesis using posting_apart[OF ok f(1) g(1)] lastjs by auto
  qed
  have up: "\<forall>n \<in> set js. n \<le> u64_max" using b(3) i(4) row by auto
  note rb = replace_block[OF ok f(1) b(2) up place]
  have over: "put_blocks (tbl_remove t (post_key tri f)) tri js = put_blocks t tri js"
    by (subst (1 2) hd(2)) (rule put_blocks_over, use ok in \<open>simp add: posts_ok_def\<close>)
  show "posts_ok (put_blocks t tri js)" using rb(1) over by simp
  have "set ids \<subseteq> posts_of t tri" using f(1) by (auto simp: posts_of_def)
  then have eq: "set js \<union> (posts_of t tri - set ids) = insert row (posts_of t tri)" using b(3) by auto
  show "posts_of (put_blocks t tri js) = (posts_of t)(tri := insert row (posts_of t tri))"
    using rb(2) eq unfolding over by (intro ext) simp
qed

lemma insert_below:
  assumes ok: "posts_ok t" and row: "row \<le> u64_max" and f: "posting t tri f ids" "row \<le> f"
    and low: "\<And>g js. posting t tri g js \<Longrightarrow> row < g" and near: "\<forall>g js. posting t tri g js \<longrightarrow> g < row \<or> f \<le> g"
  shows "posts_ok (put_blocks (tbl_remove t (post_key tri f)) tri (row # ids))"
    "posts_of (put_blocks (tbl_remove t (post_key tri f)) tri (row # ids)) = (posts_of t)(tri := insert row (posts_of t tri))"
proof -
  note i = posting_ids[OF ok f(1)]
  have s: "sorted_wrt (<) (row # ids)" using i(3) posting_within(1)[OF ok f(1)] low[OF f(1)] by (auto intro: less_le_trans)
  have place: "last ks < hd (row # ids) \<or> last (row # ids) < g" if g: "posting t tri g ks" "g \<noteq> f" for g ks
    using posting_apart[OF ok f(1) g(1)] near low[OF g(1)] g i(1) by (metis last_ConsR le_neq_implies_less less_asym')
  have up: "\<forall>n \<in> set (row # ids). n \<le> u64_max" using i(4) row by simp
  note rb = replace_block[OF ok f(1) s up place]
  show "posts_ok (put_blocks (tbl_remove t (post_key tri f)) tri (row # ids))" by (rule rb(1))
  have "set (row # ids) \<union> (posts_of t tri - set ids) = insert row (posts_of t tri)" using f(1) by (auto simp: posts_of_def)
  then show "posts_of (put_blocks (tbl_remove t (post_key tri f)) tri (row # ids)) = (posts_of t)(tri := insert row (posts_of t tri))"
    using rb(2) by (intro ext) simp
qed

lemma insert_alone:
  assumes ok: "posts_ok t" and tri: "tri < 2 ^ 32" and row: "row \<le> u64_max" and none: "\<And>g js. \<not> posting t tri g js"
  shows "posts_ok (put_blocks t tri [row])" "posts_of (put_blocks t tri [row]) = (posts_of t)(tri := insert row (posts_of t tri))"
proof -
  have gap: "post_gap t tri (hd [row]) (last [row])" using none by (simp add: post_gap_def)
  have "posts_ok (put_blocks t tri [row]) \<and> (\<forall>b. posts_of (put_blocks t tri [row]) b = (if b = tri then set [row] \<union> posts_of t b else posts_of t b))"
    by (rule put_blocks_exact[OF ok tri _ _ gap]) (use row in simp_all)
  then show "posts_ok (put_blocks t tri [row])" "posts_of (put_blocks t tri [row]) = (posts_of t)(tri := insert row (posts_of t tri))"
    by (simp_all add: fun_eq_iff)
qed

lemma add_posting_adds:
  assumes ok: "posts_ok t" and tri: "tri < 2 ^ 32" and row: "row \<le> u64_max"
  shows "\<exists>t'. add_posting t tri row = Inr t' \<and> posts_ok t' \<and> posts_of t' = (posts_of t)(tri := insert row (posts_of t tri))"
proof (cases "block_at_or_before t tri row")
  case (Some kv)
  obtain k v where kv: "kv = (k, v)" by (cases kv)
  obtain f ids where f: "k = post_key tri f" "posting t tri f ids" "decode_block k v = Inr ids" "f \<le> row"
    "\<forall>g js. posting t tri g js \<longrightarrow> g \<le> f \<or> row < g"
    using block_at_or_before_Some[OF ok tri row Some[unfolded kv]] by blast
  show ?thesis
  proof (cases "binary_search ids row")
    case (Inr j)
    then have "row \<in> posts_of t tri" using binary_search_Inr(2)[OF posting_ids(3)[OF ok f(2)] Inr] f(2) by (auto simp: posts_of_def)
    then have "posts_of t = (posts_of t)(tri := insert row (posts_of t tri))" by (auto simp: fun_eq_iff)
    then show ?thesis using Some kv f(3) Inr ok by (simp add: add_posting_def)
  next
    case (Inl j)
    then show ?thesis using insert_in_block[OF ok row f(2,4,5) Inl] Some kv f(3) by (simp add: add_posting_def)
  qed
next
  case None
  note low = block_at_or_before_None[OF ok tri row None]
  show ?thesis
  proof (cases "first_row (tbl_range t (post_key tri row) (post_key tri u64_max))")
    case N: None
    then have "\<not> posting t tri g js" for g js using low next_block_None[OF ok tri row] by (metis less_asym' row_None(2))
    then show ?thesis using None N insert_alone[OF ok tri row] by (simp add: add_posting_def first_row_def)
  next
    case (Some kv)
    obtain k v where kv: "kv = (k, v)" by (cases kv)
    obtain f ids where f: "k = post_key tri f" "posting t tri f ids" "decode_block k v = Inr ids" "row \<le> f"
      "\<forall>g js. posting t tri g js \<longrightarrow> g < row \<or> f \<le> g"
      using next_block_Some[OF ok tri row Some[unfolded kv]] by blast
    then show ?thesis using None Some kv insert_below[OF ok row f(2,4) low f(5)] by (simp add: add_posting_def)
  qed
qed

lemma delete_in_block:
  assumes ok: "posts_ok t" and f: "posting t tri f ids" and j: "binary_search ids row = Inr j"
  defines "js \<equiv> take j ids @ drop (Suc j) ids"
  shows "posts_ok (put_blocks (if j = 0 then tbl_remove t (post_key tri f) else t) tri js)"
    "posts_of (put_blocks (if j = 0 then tbl_remove t (post_key tri f) else t) tri js) = (posts_of t)(tri := posts_of t tri - {row})"
proof -
  note i = posting_ids[OF ok f]
  note b = binary_search_Inr[OF i(3) j, folded js_def]
  have within: "f \<le> n \<and> n \<le> last ids" if "n \<in> set js" for n using that posting_within[OF ok f] b(4) by blast
  have place: "last ks < hd js \<or> last js < g" if g: "js \<noteq> []" "posting t tri g ks" "g \<noteq> f" for g ks
  proof (cases "g < f")
    case True
    then show ?thesis using posting_apart[OF ok g(2) f] within[OF hd_in_set[OF g(1)]] by simp
  next
    case False
    then show ?thesis using posting_apart[OF ok f g(2)] g(3) within[OF last_in_set[OF g(1)]] by simp
  qed
  have up: "\<forall>n \<in> set js. n \<le> u64_max" using b(4) i(4) by auto
  note rb = replace_block[OF ok f b(3) up place]
  have same: "put_blocks (tbl_remove t (post_key tri f)) tri js = put_blocks (if j = 0 then tbl_remove t (post_key tri f) else t) tri js"
  proof (cases j)
    case (Suc l)
    then obtain rest where "js = f # rest" using i(1,2) by (cases ids) (auto simp: js_def)
    then show ?thesis using put_blocks_over[of t tri f rest] ok Suc by (simp add: posts_ok_def)
  qed simp
  show "posts_ok (put_blocks (if j = 0 then tbl_remove t (post_key tri f) else t) tri js)" using rb(1) same by simp
  have "set ids \<subseteq> posts_of t tri" using f by (auto simp: posts_of_def)
  then have "set js \<union> (posts_of t tri - set ids) = posts_of t tri - {row}" using b(2,4) by auto
  then show "posts_of (put_blocks (if j = 0 then tbl_remove t (post_key tri f) else t) tri js) = (posts_of t)(tri := posts_of t tri - {row})"
    unfolding same[symmetric] using rb(2) by (intro ext) simp
qed

lemma remove_posting_removes:
  assumes ok: "posts_ok t" and tri: "tri < 2 ^ 32" and row: "row \<le> u64_max"
  shows "\<exists>t'. remove_posting t tri row = Inr t' \<and> posts_ok t' \<and> posts_of t' = (posts_of t)(tri := posts_of t tri - {row})"
proof (cases "block_at_or_before t tri row")
  case None
  have "row \<notin> posts_of t tri"
  proof
    assume "row \<in> posts_of t tri"
    then obtain g js where "posting t tri g js" "row \<in> set js" by (auto simp: posts_of_def)
    then show False using block_at_or_before_None[OF ok tri row None] posting_within(1)[OF ok] by (metis leD)
  qed
  then have "posts_of t = (posts_of t)(tri := posts_of t tri - {row})" by auto
  then show ?thesis using None ok by (simp add: remove_posting_def)
next
  case (Some kv)
  obtain k v where kv: "kv = (k, v)" by (cases kv)
  obtain f ids where f: "k = post_key tri f" "posting t tri f ids" "decode_block k v = Inr ids" "f \<le> row"
    "\<forall>g js. posting t tri g js \<longrightarrow> g \<le> f \<or> row < g"
    using block_at_or_before_Some[OF ok tri row Some[unfolded kv]] by blast
  have only: "row \<in> set ids" if m: "row \<in> posts_of t tri"
  proof -
    obtain g js where g: "posting t tri g js" "row \<in> set js" using m by (auto simp: posts_of_def)
    then have "g \<le> f" using f(5) posting_within(1)[OF ok g] by auto
    moreover have "\<not> g < f" using posting_apart[OF ok g(1) f(2)] posting_within(2)[OF ok g] f(4) by auto
    ultimately show ?thesis using posting_unique[OF f(2)] g by auto
  qed
  show ?thesis
  proof (cases "binary_search ids row")
    case (Inl j)
    then have "row \<notin> posts_of t tri" using only binary_search_Inl(1)[OF posting_ids(3)[OF ok f(2)] Inl] by blast
    then have "posts_of t = (posts_of t)(tri := posts_of t tri - {row})" by auto
    then show ?thesis using Some kv f(3) Inl ok by (simp add: remove_posting_def)
  next
    case (Inr j)
    then show ?thesis using delete_in_block[OF ok f(2) Inr] Some kv f(1,3) by (simp add: remove_posting_def)
  qed
qed

section \<open>Reading\<close>

definition read_blocks :: "posts \<Rightarrow> nat \<Rightarrow> nat list res" where
  "read_blocks t tri = rbind (mapM (\<lambda>(k, v). decode_block k v) (tbl_range t (post_key tri 0) (post_key tri u64_max))) (\<lambda>bs. Inr (concat bs))"

lemma sorted_concat:
  "\<forall>xs \<in> set xss. sorted_wrt (<) (xs :: nat list) \<Longrightarrow> sorted_wrt (\<lambda>xs ys. \<forall>x \<in> set xs. \<forall>y \<in> set ys. x < y) xss \<Longrightarrow>
    sorted_wrt (<) (concat xss)"
  by (induction xss) (auto simp: sorted_wrt_append)

abbreviation ids_of :: "bytes \<times> bytes \<Rightarrow> nat list" where
  "ids_of r \<equiv> projr (decode_block (fst r) (snd r))"

lemma tri_row:
  assumes "posts_ok t" "tri < 2 ^ 32" "q \<in> set (tbl_range t (post_key tri 0) (post_key tri u64_max))"
  shows "\<exists>f. fst q = post_key tri f \<and> posting t tri f (ids_of q) \<and> decode_block (fst q) (snd q) = Inr (ids_of q)"
  using assms(3) tbl_range_rows[OF assms(1,2) le0 order_refl, of "fst q" "snd q"] by auto

lemma tri_rows_apart:
  assumes ok: "posts_ok t" and tri: "tri < 2 ^ 32"
  shows "sorted_wrt (\<lambda>q p. \<forall>x \<in> set (ids_of q). \<forall>y \<in> set (ids_of p). x < y) (tbl_range t (post_key tri 0) (post_key tri u64_max))"
    (is "sorted_wrt _ ?rows")
proof -
  have "sorted_wrt (\<lambda>q p. fst q < fst p) ?rows"
    using tbl_range_ok[of t "post_key tri 0" "post_key tri u64_max"] ok by (simp add: posts_ok_def tbl_ok_def sorted_wrt_map)
  then show ?thesis
  proof (rule sorted_wrt_mono_rel[rotated])
    fix q p
    assume m: "q \<in> set ?rows" "p \<in> set ?rows" "fst q < fst p"
    obtain f g where f: "fst q = post_key tri f" "posting t tri f (ids_of q)" and g: "fst p = post_key tri g" "posting t tri g (ids_of p)"
      using tri_row[OF ok tri m(1)] tri_row[OF ok tri m(2)] by blast
    then have "f < g" using m(3) tri posting_ids(6)[OF ok f(2)] posting_ids(6)[OF ok g(2)] by (simp add: post_key_order)
    then show "\<forall>x \<in> set (ids_of q). \<forall>y \<in> set (ids_of p). x < y"
      using posting_apart[OF ok f(2) g(2)] posting_within[OF ok f(2)] posting_within[OF ok g(2)] by (meson le_less_trans less_le_trans)
  qed
qed

lemma tri_rows_members:
  assumes ok: "posts_ok t" and tri: "tri < 2 ^ 32"
  shows "set (concat (map ids_of (tbl_range t (post_key tri 0) (post_key tri u64_max)))) = posts_of t tri"
    (is "set (concat (map _ ?rows)) = _")
proof (intro equalityI subsetI)
  fix n
  assume "n \<in> set (concat (map ids_of ?rows))"
  then obtain q where "q \<in> set ?rows" "n \<in> set (ids_of q)" by auto
  then show "n \<in> posts_of t tri" using tri_row[OF ok tri] unfolding posts_of_def by blast
next
  fix n
  assume "n \<in> posts_of t tri"
  then obtain f ids v where p: "posting t tri f ids" "n \<in> set ids" "tbl_get t (post_key tri f) = Some v"
    "decode_block (post_key tri f) v = Inr ids" "f \<le> u64_max" by (auto simp: posts_of_def posting_def)
  then have "(post_key tri f, v) \<in> set ?rows" unfolding tbl_range_rows[OF ok tri le0 order_refl] by auto
  moreover have "n \<in> set (ids_of (post_key tri f, v))" using p by simp
  ultimately show "n \<in> set (concat (map ids_of ?rows))" by (simp only: set_concat set_map) blast
qed

lemma read_blocks_reads:
  assumes ok: "posts_ok t" and tri: "tri < 2 ^ 32"
  shows "\<exists>ids. read_blocks t tri = Inr ids \<and> sorted_wrt (<) ids \<and> set ids = posts_of t tri"
proof -
  let ?rows = "tbl_range t (post_key tri 0) (post_key tri u64_max)"
  note row = tri_row[OF ok tri]
  have "mapM (\<lambda>(k, v). decode_block k v) ?rows = Inr (map ids_of ?rows)"
    by (rule mapM_Inr_map) (use row in \<open>auto simp: case_prod_beta\<close>)
  then have rd: "read_blocks t tri = Inr (concat (map ids_of ?rows))" by (simp add: read_blocks_def)
  have "sorted_wrt (<) (ids_of q)" if "q \<in> set ?rows" for q using row[OF that] posting_ids(3)[OF ok] by blast
  then have "sorted_wrt (<) (concat (map ids_of ?rows))" using tri_rows_apart[OF ok tri]
    by (intro sorted_concat) (simp_all add: sorted_wrt_map)
  then show ?thesis using rd tri_rows_members[OF ok tri] by blast
qed

section \<open>The interface\<close>

text \<open>
  What the index asks of its posting lists: a set of row numbers for each trigram number, changed one at a time and read in ascending
  order. \<open>fits\<close> says which numbers the representation has room for.
\<close>

locale posting_sets =
  fixes ok :: "'t \<Rightarrow> bool"
    and fits :: "nat \<Rightarrow> nat \<Rightarrow> bool"
    and numbers_of :: "'t \<Rightarrow> nat \<Rightarrow> nat set"
    and add :: "'t \<Rightarrow> nat \<Rightarrow> nat \<Rightarrow> 't res"
    and del :: "'t \<Rightarrow> nat \<Rightarrow> nat \<Rightarrow> 't res"
    and read :: "'t \<Rightarrow> nat \<Rightarrow> nat list res"
  assumes add_law: "ok t \<Longrightarrow> fits tri row \<Longrightarrow>
      \<exists>t'. add t tri row = Inr t' \<and> ok t' \<and> numbers_of t' = (numbers_of t)(tri := insert row (numbers_of t tri))"
    and del_law: "ok t \<Longrightarrow> fits tri row \<Longrightarrow>
      \<exists>t'. del t tri row = Inr t' \<and> ok t' \<and> numbers_of t' = (numbers_of t)(tri := numbers_of t tri - {row})"
    and read_law: "ok t \<Longrightarrow> fits tri 0 \<Longrightarrow> \<exists>ids. read t tri = Inr ids \<and> sorted_wrt (<) ids \<and> set ids = numbers_of t tri"
begin

lemma add_all:
  assumes "ok t" "\<And>tri. tri \<in> set tris \<Longrightarrow> fits tri row"
  shows "\<exists>t'. foldM (\<lambda>t tri. add t tri row) t tris = Inr t' \<and> ok t' \<and>
    numbers_of t' = (\<lambda>tri. if tri \<in> set tris then insert row (numbers_of t tri) else numbers_of t tri)"
  using assms
proof (induction tris arbitrary: t)
  case (Cons a tris)
  obtain t1 where t1: "add t a row = Inr t1" "ok t1" "numbers_of t1 = (numbers_of t)(a := insert row (numbers_of t a))"
    using add_law[OF Cons.prems(1)] Cons.prems(2) by fastforce
  obtain t2 where "foldM (\<lambda>t tri. add t tri row) t1 tris = Inr t2" "ok t2"
    "numbers_of t2 = (\<lambda>tri. if tri \<in> set tris then insert row (numbers_of t1 tri) else numbers_of t1 tri)"
    using Cons.IH[OF t1(2)] Cons.prems(2) by auto
  then show ?case using t1 by (auto simp: fun_eq_iff)
qed simp

lemma del_all:
  assumes "ok t" "\<And>tri. tri \<in> set tris \<Longrightarrow> fits tri row"
  shows "\<exists>t'. foldM (\<lambda>t tri. del t tri row) t tris = Inr t' \<and> ok t' \<and>
    numbers_of t' = (\<lambda>tri. if tri \<in> set tris then numbers_of t tri - {row} else numbers_of t tri)"
  using assms
proof (induction tris arbitrary: t)
  case (Cons a tris)
  obtain t1 where t1: "del t a row = Inr t1" "ok t1" "numbers_of t1 = (numbers_of t)(a := numbers_of t a - {row})"
    using del_law[OF Cons.prems(1)] Cons.prems(2) by fastforce
  obtain t2 where "foldM (\<lambda>t tri. del t tri row) t1 tris = Inr t2" "ok t2"
    "numbers_of t2 = (\<lambda>tri. if tri \<in> set tris then numbers_of t1 tri - {row} else numbers_of t1 tri)"
    using Cons.IH[OF t1(2)] Cons.prems(2) by auto
  then show ?case using t1 by (auto simp: fun_eq_iff)
qed simp

end

definition post_fits :: "nat \<Rightarrow> nat \<Rightarrow> bool" where
  "post_fits tri row \<longleftrightarrow> tri < 2 ^ 32 \<and> row \<le> u64_max"

interpretation postings: posting_sets posts_ok post_fits posts_of add_posting remove_posting read_blocks
  by unfold_locales (auto simp: post_fits_def intro: add_posting_adds remove_posting_removes read_blocks_reads)

section \<open>Runs of changes\<close>

datatype post_op = PostAdd nat nat | PostRemove nat nat

fun run_post :: "posts \<Rightarrow> post_op \<Rightarrow> posts res" where
  "run_post t (PostAdd tri row) = add_posting t tri row"
| "run_post t (PostRemove tri row) = remove_posting t tri row"

fun post_op_fits :: "post_op \<Rightarrow> bool" where
  "post_op_fits (PostAdd tri row) = post_fits tri row"
| "post_op_fits (PostRemove tri row) = post_fits tri row"

fun run_set :: "(nat \<Rightarrow> nat set) \<Rightarrow> post_op \<Rightarrow> nat \<Rightarrow> nat set" where
  "run_set s (PostAdd tri row) = s(tri := insert row (s tri))"
| "run_set s (PostRemove tri row) = s(tri := s tri - {row})"

lemma run_post_exact:
  assumes "posts_ok t" "\<forall>c \<in> set ops. post_op_fits c"
  shows "\<exists>t'. foldM run_post t ops = Inr t' \<and> posts_ok t' \<and> posts_of t' = foldl run_set (posts_of t) ops"
  using assms
proof (induction ops arbitrary: t)
  case (Cons c ops)
  have "\<exists>t1. run_post t c = Inr t1 \<and> posts_ok t1 \<and> posts_of t1 = run_set (posts_of t) c"
    using Cons.prems postings.add_law postings.del_law by (cases c) auto
  then show ?case using Cons.IH Cons.prems(2) by fastforce
qed simp

lemma posts_empty: "posts_ok []" "posts_of [] = (\<lambda>_. {})"
  by (simp_all add: posts_ok_def posts_of_def posting_def fun_eq_iff)

text \<open>C39. Whatever row numbers are added to and removed from the posting lists of whatever trigrams, every call succeeds, no block grows past
  384 bytes after its key of 12, and reading a trigram gives exactly the row numbers that were added and not removed since, in ascending order.\<close>

theorem postings_exact:
  assumes "\<forall>c \<in> set ops. post_op_fits c" "tri < 2 ^ 32"
  shows "\<exists>t ids. foldM run_post [] ops = Inr t \<and> (\<forall>(k, v) \<in> set t. length k = 12 \<and> length v \<le> 384) \<and>
    read_blocks t tri = Inr ids \<and> sorted_wrt (<) ids \<and> set ids = foldl run_set (\<lambda>_. {}) ops tri"
proof -
  obtain t where t: "foldM run_post [] ops = Inr t" "posts_ok t" "posts_of t = foldl run_set (\<lambda>_. {}) ops"
    using run_post_exact[OF posts_empty(1) assms(1)] posts_empty(2) by auto
  moreover have "length k = 12 \<and> length v \<le> 384" if r: "(k, v) \<in> set t" for k v
  proof -
    have "block_row (k, v)" using t(2) r by (auto simp: posts_ok_def)
    then show ?thesis by (auto simp: block_row_def post_key_def BLOCK_MAX_def)
  qed
  moreover obtain ids where "read_blocks t tri = Inr ids" "sorted_wrt (<) ids" "set ids = posts_of t tri"
    using read_blocks_reads[OF t(2) assms(2)] by blast
  ultimately show ?thesis by (intro exI[of _ t] exI[of _ ids]) auto
qed

theorem postings_exact_witness:
  "\<exists>t ids. foldM run_post [] [PostAdd 7 300, PostAdd 7 5, PostAdd 8 5, PostRemove 7 300, PostAdd 7 900] = Inr t \<and>
    (\<forall>(k, v) \<in> set t. length k = 12 \<and> length v \<le> 384) \<and> read_blocks t 7 = Inr ids \<and> sorted_wrt (<) ids \<and> set ids = {5, 900}"
proof -
  have "\<forall>c \<in> set [PostAdd 7 300, PostAdd 7 5, PostAdd 8 5, PostRemove 7 300, PostAdd 7 900]. post_op_fits c"
    by (simp add: post_fits_def u64_max_def)
  moreover have "foldl run_set (\<lambda>_. {}) [PostAdd 7 300, PostAdd 7 5, PostAdd 8 5, PostRemove 7 300, PostAdd 7 900] 7 = {5, 900}" by auto
  ultimately show ?thesis using postings_exact[of "[PostAdd 7 300, PostAdd 7 5, PostAdd 8 5, PostRemove 7 300, PostAdd 7 900]" 7]
    by (simp del: foldM.simps foldl_Cons)
qed

end
