(* ===== verification/Index_Trigram.thy ===== *)
theory Index_Trigram
  imports Index_Postings Query_Eval
begin

text \<open>
  The contains index of a field (\<^verbatim>\<open>src/indexes/trigram.rs\<close>): rows are numbered, the trigrams of their texts are numbered, and the
  posting lists hold the row numbers of every trigram. A reverse map remembers for each row its number and its trigrams, so
  that a later write touches only what changed. The theory shows that the index is exact after any run of writes and removals.
\<close>

section \<open>The record of a row\<close>

record row_stats =
  rs_key :: string
  rs_missing :: nat
  rs_nulls :: nat
  rs_fanout :: nat
  rs_json_bytes :: nat
  rs_key_bytes :: nat
  rs_values :: "bytes list"
  rs_unorderable :: nat

record tri_record =
  tr_id :: nat
  tr_tris :: "nat list"
  tr_flags :: u8
  tr_fanout :: nat
  tr_json :: nat

definition u8_from :: "bool \<Rightarrow> u8" where "u8_from b = (if b then 1 else 0)"

definition record_new :: "nat \<Rightarrow> nat list \<Rightarrow> row_stats \<Rightarrow> tri_record" where
  "record_new n tris s = \<lparr>tr_id = n, tr_tris = tris,
     tr_flags = (u8_from (0 < rs_missing s) OR push_bit 1 (u8_from (0 < rs_nulls s))) OR push_bit 2 (u8_from (0 < rs_unorderable s)),
     tr_fanout = rs_fanout s, tr_json = rs_json_bytes s\<rparr>"

text \<open>The loop of \<open>encode\<close> over the trigram numbers: the first one as it is, then the distances.\<close>

fun put_tris :: "bool \<Rightarrow> nat \<Rightarrow> nat list \<Rightarrow> bytes" where
  "put_tris start prev [] = []"
| "put_tris start prev (t # ts) = put_varint (if start then t else t - prev) @ put_tris False t ts"

definition record_encode :: "tri_record \<Rightarrow> bytes" where
  "record_encode r = [3] @ put_varint (tr_id r) @ [tr_flags r] @ put_varint (tr_fanout r) @ put_varint (tr_json r) @
     put_varint (length (tr_tris r)) @ put_tris True 0 (tr_tris r)"

definition u32_from :: "nat \<Rightarrow> nat res" where
  "u32_from v = (if v < 2 ^ 32 then Inr v else Inl corrupt_trigram)"

fun get_tris :: "nat \<Rightarrow> bool \<Rightarrow> nat \<Rightarrow> bytes \<Rightarrow> nat list res" where
  "get_tris 0 start prev b = Inr []"
| "get_tris (Suc n) start prev b =
     rbind (get_varint b) (\<lambda>(v, b).
     rbind (u32_from v) (\<lambda>d.
     rbind (if start then Inr d else u32_from (prev + d)) (\<lambda>t.
     rbind (get_tris n False t b) (\<lambda>ts. Inr (t # ts)))))"

definition record_decode :: "bytes \<Rightarrow> tri_record res" where
  "record_decode bytes =
     (case bytes of
        [] \<Rightarrow> Inl corrupt_trigram
      | tag # b \<Rightarrow>
          rbind (guard_ok (tag = 3) corrupt_trigram) (\<lambda>_.
          rbind (get_varint b) (\<lambda>(n, b).
          case b of
            [] \<Rightarrow> Inl corrupt_trigram
          | flags # b \<Rightarrow>
              rbind (get_varint b) (\<lambda>(fanout, b).
              rbind (get_varint b) (\<lambda>(json, b).
              rbind (get_varint b) (\<lambda>(count, b).
              rbind (get_tris count True 0 b) (\<lambda>tris.
              Inr \<lparr>tr_id = n, tr_tris = tris, tr_flags = flags, tr_fanout = fanout, tr_json = json\<rparr>)))))))"

definition record_stats :: "tri_record \<Rightarrow> string \<Rightarrow> row_stats" where
  "record_stats r row = \<lparr>rs_key = row, rs_missing = unat (tr_flags r AND 1), rs_nulls = unat (drop_bit 1 (tr_flags r) AND 1),
     rs_fanout = tr_fanout r, rs_json_bytes = tr_json r, rs_key_bytes = length row, rs_values = [],
     rs_unorderable = unat (drop_bit 2 (tr_flags r) AND 1)\<rparr>"

text \<open>What the types and the callers guarantee of a record.\<close>

definition record_ok :: "tri_record \<Rightarrow> bool" where
  "record_ok r \<longleftrightarrow> tr_id r \<le> u64_max \<and> tr_fanout r \<le> u64_max \<and> tr_json r \<le> u64_max \<and> length (tr_tris r) \<le> u64_max \<and>
     sorted_wrt (<) (tr_tris r) \<and> (\<forall>t \<in> set (tr_tris r). t < 2 ^ 32)"

lemma u32_small: "(t :: nat) < 2 ^ 32 \<Longrightarrow> t \<le> u64_max"
  by (simp add: u64_max_def)

lemma get_tris_back:
  assumes "sorted_wrt (<) (if start then ts else prev # ts)" "\<forall>t \<in> set ts. t < 2 ^ 32"
  shows "get_tris (length ts) start prev (put_tris start prev ts @ rest) = Inr ts"
  using assms
proof (induction ts arbitrary: start prev)
  case (Cons t ts)
  have "get_tris (length ts) False t (put_tris False t ts @ rest) = Inr ts"
    using Cons by (intro Cons.IH) (auto split: if_splits)
  moreover have "t - prev < 2 ^ 32" "t < 2 ^ 32" "\<not> start \<Longrightarrow> prev + (t - prev) = t" using Cons.prems by auto
  ultimately show ?case using u32_small[of "t - prev"] u32_small[of t] by (simp add: u32_from_def)
qed simp

lemma tri_record_back [simp]: "record_ok r \<Longrightarrow> record_decode (record_encode r) = Inr r"
  using get_tris_back[of True "tr_tris r" 0 "[]"] by (simp add: record_ok_def record_encode_def record_decode_def)

lemma record_stats_new:
  "record_stats (record_new n tris s) row = \<lparr>rs_key = row, rs_missing = (if 0 < rs_missing s then 1 else 0),
     rs_nulls = (if 0 < rs_nulls s then 1 else 0), rs_fanout = rs_fanout s, rs_json_bytes = rs_json_bytes s,
     rs_key_bytes = length row, rs_values = [], rs_unorderable = (if 0 < rs_unorderable s then 1 else 0)\<rparr>"
proof -
  have "\<forall>a b c. let f = (u8_from a OR push_bit 1 (u8_from b)) OR push_bit 2 (u8_from c) in
    f AND 1 = u8_from a \<and> drop_bit 1 f AND 1 = u8_from b \<and> drop_bit 2 f AND 1 = u8_from c"
    by code_simp
  then show ?thesis by (simp add: record_stats_def record_new_def Let_def u8_from_def)
qed

section \<open>The tables of one generation and their operations\<close>

record tri_index =
  ti_posts :: posts
  ti_rev :: "(string, bytes) table"
  ti_dict :: "(string, nat) table"
  ti_ids :: "(nat, string) table"
  ti_counters :: "(string, nat) table"

definition tri_create :: tri_index where
  "tri_create = \<lparr>ti_posts = [], ti_rev = [], ti_dict = [], ti_ids = [], ti_counters = []\<rparr>"

definition tri_counter :: "tri_index \<Rightarrow> string \<Rightarrow> nat" where
  "tri_counter ix name = (case tbl_get (ti_counters ix) name of Some v \<Rightarrow> v | None \<Rightarrow> 0)"

text \<open>The loop of \<open>write\<close> that turns trigrams into numbers; unknown ones get the next number.\<close>

fun number_grams :: "(string, nat) table \<Rightarrow> nat \<Rightarrow> string list \<Rightarrow> (nat list \<times> (string, nat) table \<times> nat) res" where
  "number_grams dict tri_n [] = Inr ([], dict, tri_n)"
| "number_grams dict tri_n (g # grams) =
     (case tbl_get dict g of
        Some t \<Rightarrow> rbind (number_grams dict tri_n grams) (\<lambda>(ts, dict, tri_n). Inr (t # ts, dict, tri_n))
      | None \<Rightarrow> rbind (u32_from tri_n) (\<lambda>t.
          rbind (number_grams (tbl_insert dict g t) (tri_n + 1) grams) (\<lambda>(ts, dict, tri_n). Inr (t # ts, dict, tri_n))))"

definition old_record :: "tri_index \<Rightarrow> string \<Rightarrow> tri_record option res" where
  "old_record ix row = (case tbl_get (ti_rev ix) row of None \<Rightarrow> Inr None | Some v \<Rightarrow> rbind (record_decode v) (\<lambda>r. Inr (Some r)))"

definition found :: "nat list \<Rightarrow> nat \<Rightarrow> bool" where
  "found xs t = (case binary_search xs t of Inr _ \<Rightarrow> True | Inl _ \<Rightarrow> False)"

definition set_counter :: "string \<Rightarrow> nat \<Rightarrow> nat \<Rightarrow> (string, nat) table \<Rightarrow> (string, nat) table" where
  "set_counter name before now t = (if now \<noteq> before then tbl_insert t name now else t)"

definition tri_write :: "tri_index \<Rightarrow> string \<Rightarrow> string list \<Rightarrow> row_stats \<Rightarrow> (row_stats option \<times> tri_index) res" where
  "tri_write ix row grams new =
     rbind (old_record ix row) (\<lambda>old.
     let next_row = tri_counter ix ''row''; next_tri = tri_counter ix ''tri'';
         (n, row_n, ids) = (case old of Some r \<Rightarrow> (tr_id r, next_row, ti_ids ix)
                            | None \<Rightarrow> (next_row, next_row + 1, tbl_insert (ti_ids ix) next_row row))
     in rbind (number_grams (ti_dict ix) next_tri grams) (\<lambda>(ts, dict, tri_n).
     let tris = sort ts; before = (case old of Some r \<Rightarrow> tr_tris r | None \<Rightarrow> [])
     in rbind (foldM (\<lambda>p t. remove_posting p t n) (ti_posts ix) (filter (\<lambda>t. \<not> found tris t) before)) (\<lambda>posts.
     rbind (foldM (\<lambda>p t. add_posting p t n) posts (filter (\<lambda>t. \<not> found before t) tris)) (\<lambda>posts.
     Inr (map_option (\<lambda>r. record_stats r row) old,
       \<lparr>ti_posts = posts, ti_rev = tbl_insert (ti_rev ix) row (record_encode (record_new n tris new)), ti_dict = dict, ti_ids = ids,
        ti_counters = set_counter ''tri'' next_tri tri_n (set_counter ''row'' next_row row_n (ti_counters ix))\<rparr>)))))"

definition tri_remove :: "tri_index \<Rightarrow> string \<Rightarrow> (row_stats option \<times> tri_index) res" where
  "tri_remove ix row =
     rbind (old_record ix row) (\<lambda>old.
     case old of
       None \<Rightarrow> Inr (None, ix)
     | Some r \<Rightarrow>
         rbind (foldM (\<lambda>p t. remove_posting p t (tr_id r)) (ti_posts ix) (tr_tris r)) (\<lambda>posts.
         Inr (Some (record_stats r row),
           ix\<lparr>ti_posts := posts, ti_rev := tbl_remove (ti_rev ix) row, ti_ids := tbl_remove (ti_ids ix) (tr_id r)\<rparr>)))"

record work =
  w_entries :: nat
  w_bytes :: nat

definition tri_read :: "tri_index \<Rightarrow> string \<Rightarrow> work \<Rightarrow> (nat list \<times> work) res" where
  "tri_read ix gram w =
     (case tbl_get (ti_dict ix) gram of
        None \<Rightarrow> Inr ([], w)
      | Some tri \<Rightarrow>
          rbind (read_blocks (ti_posts ix) tri) (\<lambda>out.
          Inr (out, w\<lparr>w_bytes := w_bytes w + sum_list (map (\<lambda>(k, v). length k + length v)
              (tbl_range (ti_posts ix) (post_key tri 0) (post_key tri u64_max))),
            w_entries := w_entries w + length out\<rparr>)))"

definition tri_names :: "tri_index \<Rightarrow> nat list \<Rightarrow> string list" where
  "tri_names ix numbers = List.map_filter (tbl_get (ti_ids ix)) numbers"

section \<open>What an index holds\<close>

definition rec_of :: "tri_index \<Rightarrow> string \<Rightarrow> tri_record option" where
  "rec_of ix row = (case tbl_get (ti_rev ix) row of None \<Rightarrow> None
     | Some v \<Rightarrow> (case record_decode v of Inl _ \<Rightarrow> None | Inr r \<Rightarrow> Some r))"

definition grams_of :: "tri_index \<Rightarrow> string \<Rightarrow> string set option" where
  "grams_of ix row = map_option (\<lambda>r. {g. \<exists>t. tbl_get (ti_dict ix) g = Some t \<and> t \<in> set (tr_tris r)}) (rec_of ix row)"

text \<open>
  Row numbers and rows determine each other, trigrams and their numbers too, every number is below its counter, and the
  posting lists say exactly what the reverse map says.
\<close>

definition rows_ok :: "tri_index \<Rightarrow> bool" where
  "rows_ok ix \<longleftrightarrow> tbl_ok (ti_rev ix) \<and> tbl_ok (ti_ids ix) \<and>
     (\<forall>row v. tbl_get (ti_rev ix) row = Some v \<longrightarrow> (\<exists>r. record_decode v = Inr r)) \<and>
     (\<forall>row r. rec_of ix row = Some r \<longrightarrow> record_ok r \<and> tr_id r < tri_counter ix ''row'' \<and>
       (\<forall>t \<in> set (tr_tris r). t < tri_counter ix ''tri'')) \<and>
     (\<forall>n row. tbl_get (ti_ids ix) n = Some row \<longleftrightarrow> (\<exists>r. rec_of ix row = Some r \<and> tr_id r = n))"

definition dict_ok :: "tri_index \<Rightarrow> bool" where
  "dict_ok ix \<longleftrightarrow> tbl_ok (ti_dict ix) \<and> tbl_ok (ti_counters ix) \<and> tri_counter ix ''tri'' \<le> 2 ^ 32 \<and>
     (\<forall>g t. tbl_get (ti_dict ix) g = Some t \<longrightarrow> t < tri_counter ix ''tri'') \<and>
     (\<forall>g g' t. tbl_get (ti_dict ix) g = Some t \<longrightarrow> tbl_get (ti_dict ix) g' = Some t \<longrightarrow> g = g')"

definition listed :: "tri_index \<Rightarrow> nat \<Rightarrow> nat set" where
  "listed ix t = {n. \<exists>row r. rec_of ix row = Some r \<and> tr_id r = n \<and> t \<in> set (tr_tris r)}"

definition tri_ok :: "tri_index \<Rightarrow> bool" where
  "tri_ok ix \<longleftrightarrow> rows_ok ix \<and> dict_ok ix \<and> posts_ok (ti_posts ix) \<and> posts_of (ti_posts ix) = listed ix"

section \<open>Numbering trigrams\<close>

definition numbering :: "(string, nat) table \<Rightarrow> nat \<Rightarrow> bool" where
  "numbering dict n \<longleftrightarrow> tbl_ok dict \<and> (\<forall>g t. tbl_get dict g = Some t \<longrightarrow> t < n) \<and>
     (\<forall>g g' t. tbl_get dict g = Some t \<longrightarrow> tbl_get dict g' = Some t \<longrightarrow> g = g')"

lemma numbering_insert: "numbering dict n \<Longrightarrow> numbering (tbl_insert dict g n) (n + 1)"
  by (auto simp: numbering_def less_Suc_eq split: if_splits)

text \<open>A dictionary that only got new trigrams, with numbers from \<open>n\<close> on.\<close>

definition grown :: "(string, nat) table \<Rightarrow> nat \<Rightarrow> (string, nat) table \<Rightarrow> bool" where
  "grown dict n dict' \<longleftrightarrow> (\<forall>g t. t < n \<longrightarrow> (tbl_get dict' g = Some t) = (tbl_get dict g = Some t))"

definition numbered :: "(string, nat) table \<Rightarrow> nat \<Rightarrow> string list \<Rightarrow> nat list \<Rightarrow> (string, nat) table \<Rightarrow> nat \<Rightarrow> bool" where
  "numbered dict n grams ts dict' m \<longleftrightarrow> numbering dict' m \<and> n \<le> m \<and> m \<le> n + length grams \<and> map (tbl_get dict') grams = map Some ts \<and>
     grown dict n dict'"

lemma numbered_known:
  assumes "numbering dict n" "tbl_get dict g = Some t" "numbered dict n grams ts dict' m"
  shows "numbered dict n (g # grams) (t # ts) dict' m"
proof -
  have "t < n" using assms(1,2) by (auto simp: numbering_def)
  then have "tbl_get dict' g = Some t" using assms(2,3) by (auto simp: numbered_def grown_def)
  then show ?thesis using assms(3) by (simp add: numbered_def)
qed

lemma numbered_new:
  assumes "tbl_ok dict" "tbl_get dict g = None" "numbered (tbl_insert dict g n) (n + 1) grams ts dict' m"
  shows "numbered dict n (g # grams) (n # ts) dict' m"
proof -
  have r: "numbering dict' m" "n + 1 \<le> m" "m \<le> n + 1 + length grams" "map (tbl_get dict') grams = map Some ts"
    and g: "grown (tbl_insert dict g n) (n + 1) dict'" using assms(3) by (simp_all add: numbered_def)
  have "tbl_get dict' g = Some n" using g assms(1) by (simp add: grown_def)
  moreover have "grown dict n dict'" using g assms(1,2) by (auto simp: grown_def)
  ultimately show ?thesis using r by (simp add: numbered_def)
qed

lemma number_grams_numbers:
  assumes "numbering dict n" "n + length grams \<le> 2 ^ 32"
  shows "\<exists>ts dict' m. number_grams dict n grams = Inr (ts, dict', m) \<and> numbered dict n grams ts dict' m"
  using assms
proof (induction grams arbitrary: dict n)
  case (Cons g grams)
  show ?case
  proof (cases "tbl_get dict g")
    case (Some t)
    have "n + length grams \<le> 2 ^ 32" using Cons.prems(2) by simp
    then obtain ts dict' m where "number_grams dict n grams = Inr (ts, dict', m)" "numbered dict n grams ts dict' m"
      using Cons.IH[OF Cons.prems(1)] by blast
    then show ?thesis using Some numbered_known[OF Cons.prems(1) Some] by (auto simp: Some)
  next
    case None
    have t: "tbl_ok dict" "n < 2 ^ 32" "n + 1 + length grams \<le> 2 ^ 32" using Cons.prems by (auto simp: numbering_def)
    obtain ts dict' m where "number_grams (tbl_insert dict g n) (n + 1) grams = Inr (ts, dict', m)"
      "numbered (tbl_insert dict g n) (n + 1) grams ts dict' m"
      using Cons.IH[OF numbering_insert[OF Cons.prems(1)] t(3)] by blast
    then show ?thesis using None t(2) numbered_new[OF t(1) None] by (auto simp: u32_from_def)
  qed
qed (auto simp: numbered_def grown_def)

text \<open>The numbers of distinct trigrams, sorted: strictly ascending.\<close>

lemma numbered_sorted:
  assumes "numbering dict m" "map (tbl_get dict) grams = map Some ts" "distinct grams"
  shows "sorted_wrt (<) (sort ts)" "\<forall>t \<in> set ts. t < m" "tbl_get dict g = Some t \<Longrightarrow> t \<in> set ts \<longleftrightarrow> g \<in> set grams"
proof -
  have len: "length ts = length grams" using assms(2) by (metis length_map)
  have at: "tbl_get dict (grams ! i) = Some (ts ! i)" if "i < length grams" for i
    using assms(2) that len by (metis nth_map)
  have "distinct ts"
  proof (rule distinct_conv_nth[THEN iffD2], intro allI impI)
    fix i j
    assume ij: "i < length ts" "j < length ts" "i \<noteq> j"
    then have "grams ! i \<noteq> grams ! j" using assms(3) len by (simp add: nth_eq_iff_index_eq)
    then show "ts ! i \<noteq> ts ! j" using at[of i] at[of j] ij len assms(1) unfolding numbering_def by metis
  qed
  then show "sorted_wrt (<) (sort ts)" by (simp add: strict_sorted_iff)
  show "\<forall>t \<in> set ts. t < m" using at len assms(1) unfolding numbering_def by (metis in_set_conv_nth)
  show "tbl_get dict g = Some t \<Longrightarrow> t \<in> set ts \<longleftrightarrow> g \<in> set grams"
    using at len assms(1) unfolding numbering_def by (metis in_set_conv_nth option.inject)
qed

lemma found_iff [simp]: "sorted_wrt (<) xs \<Longrightarrow> found xs t \<longleftrightarrow> t \<in> set xs"
  using binary_search_Inl(1)[of xs t] binary_search_Inr(2)[of xs t] by (auto simp: found_def split: sum.splits)

section \<open>The reverse map\<close>

lemma old_record_rec_of: "rows_ok ix \<Longrightarrow> old_record ix row = Inr (rec_of ix row)"
  unfolding rows_ok_def old_record_def rec_of_def by (auto split: option.splits sum.splits) (metis Inl_Inr_False)+

lemma tri_counter_set:
  assumes "tbl_ok (ti_counters ix)" "c = set_counter ''tri'' (tri_counter ix ''tri'') tri_n (set_counter ''row'' (tri_counter ix ''row'') row_n (ti_counters ix))"
  shows "tbl_ok c" "(case tbl_get c ''row'' of Some v \<Rightarrow> v | None \<Rightarrow> 0) = row_n" "(case tbl_get c ''tri'' of Some v \<Rightarrow> v | None \<Rightarrow> 0) = tri_n"
  using assms(1) unfolding assms(2) by (auto simp: set_counter_def tri_counter_def)

text \<open>The row numbers of the other rows that have a trigram.\<close>

definition listed_but :: "tri_index \<Rightarrow> string \<Rightarrow> nat \<Rightarrow> nat set" where
  "listed_but ix row t = {n. \<exists>other r. other \<noteq> row \<and> rec_of ix other = Some r \<and> tr_id r = n \<and> t \<in> set (tr_tris r)}"

lemma listed_but_split: "listed ix t = listed_but ix row t \<union> (case rec_of ix row of Some r \<Rightarrow> if t \<in> set (tr_tris r) then {tr_id r} else {} | None \<Rightarrow> {})"
proof (intro set_eqI iffI)
  fix n
  assume "n \<in> listed ix t"
  then obtain other r where "rec_of ix other = Some r" "tr_id r = n" "t \<in> set (tr_tris r)" by (auto simp: listed_def)
  then show "n \<in> listed_but ix row t \<union> (case rec_of ix row of Some r \<Rightarrow> if t \<in> set (tr_tris r) then {tr_id r} else {} | None \<Rightarrow> {})"
    unfolding listed_but_def by (cases "other = row") auto
qed (auto simp: listed_def listed_but_def split: option.splits if_splits)

lemma rows_ids_unique:
  assumes "rows_ok ix" "rec_of ix a = Some r" "rec_of ix b = Some s" "tr_id r = tr_id s"
  shows "a = b"
proof -
  have "tbl_get (ti_ids ix) (tr_id r) = Some a" "tbl_get (ti_ids ix) (tr_id r) = Some b" using assms unfolding rows_ok_def by metis+
  then show ?thesis by simp
qed

lemma listed_but_other:
  assumes "rows_ok ix" "case rec_of ix row of Some r \<Rightarrow> n = tr_id r | None \<Rightarrow> n = tri_counter ix ''row''"
  shows "n \<notin> listed_but ix row t"
proof
  assume "n \<in> listed_but ix row t"
  then obtain other r where o: "other \<noteq> row" "rec_of ix other = Some r" "tr_id r = n" by (auto simp: listed_but_def)
  show False
  proof (cases "rec_of ix row")
    case None
    then show ?thesis using o assms unfolding rows_ok_def by fastforce
  next
    case (Some s)
    then show ?thesis using rows_ids_unique[OF assms(1) o(2) Some] o assms(2) by simp
  qed
qed

section \<open>Writing a row\<close>

lemma rewrite_posts:
  assumes ok: "posts_ok p" and s: "sorted_wrt (<) before" "sorted_wrt (<) tris" and up: "\<forall>t \<in> set before \<union> set tris. t < 2 ^ 32" "n \<le> u64_max"
    and was: "posts_of p = (\<lambda>t. rest t \<union> (if t \<in> set before then {n} else {}))" "\<And>t. n \<notin> rest t"
  shows "\<exists>q p'. foldM (\<lambda>p t. remove_posting p t n) p (filter (\<lambda>t. \<not> found tris t) before) = Inr q \<and>
    foldM (\<lambda>p t. add_posting p t n) q (filter (\<lambda>t. \<not> found before t) tris) = Inr p' \<and>
    posts_ok p' \<and> posts_of p' = (\<lambda>t. rest t \<union> (if t \<in> set tris then {n} else {}))"
proof -
  have fits: "post_fits t n" if "t \<in> set before \<union> set tris" for t using up that by (simp add: post_fits_def)
  obtain q where q: "foldM (\<lambda>p t. remove_posting p t n) p (filter (\<lambda>t. \<not> found tris t) before) = Inr q" "posts_ok q"
    "posts_of q = (\<lambda>t. if t \<in> set (filter (\<lambda>t. \<not> found tris t) before) then posts_of p t - {n} else posts_of p t)"
    using postings.del_all[OF ok, of "filter (\<lambda>t. \<not> found tris t) before" n] fits by auto
  obtain p' where p': "foldM (\<lambda>p t. add_posting p t n) q (filter (\<lambda>t. \<not> found before t) tris) = Inr p'" "posts_ok p'"
    "posts_of p' = (\<lambda>t. if t \<in> set (filter (\<lambda>t. \<not> found before t) tris) then insert n (posts_of q t) else posts_of q t)"
    using postings.add_all[OF q(2), of "filter (\<lambda>t. \<not> found before t) tris" n] fits by auto
  have "posts_of p' = (\<lambda>t. rest t \<union> (if t \<in> set tris then {n} else {}))"
    unfolding p'(3) q(3) was(1) using s was(2) by (auto simp: fun_eq_iff)
  then show ?thesis using q(1) p'(1,2) by blast
qed

lemma rec_of_insert:
  assumes "tbl_ok (ti_rev ix)" "record_ok r" "ti_rev ix' = tbl_insert (ti_rev ix) row (record_encode r)"
  shows "rec_of ix' = (rec_of ix)(row \<mapsto> r)"
  using assms(1,2) by (auto simp: rec_of_def assms(3) fun_eq_iff)

text \<open>The number of a row in the tables, and the tables of row numbers after a write.\<close>

definition row_number :: "tri_index \<Rightarrow> string \<Rightarrow> nat \<times> nat \<times> (nat, string) table" where
  "row_number ix row = (case rec_of ix row of Some r \<Rightarrow> (tr_id r, tri_counter ix ''row'', ti_ids ix)
     | None \<Rightarrow> (tri_counter ix ''row'', tri_counter ix ''row'' + 1, tbl_insert (ti_ids ix) (tri_counter ix ''row'') row))"

lemma rows_ok_write:
  assumes ok: "rows_ok ix" and num: "row_number ix row = (n, row_n, ids)" and r: "record_ok r" "tr_id r = n" "\<forall>t \<in> set (tr_tris r). t < tri_n"
    and ix': "ti_rev ix' = tbl_insert (ti_rev ix) row (record_encode r)" "ti_ids ix' = ids" "tri_counter ix' ''row'' = row_n"
    "tri_counter ix' ''tri'' = tri_n" "tri_counter ix ''tri'' \<le> tri_n"
  shows "rows_ok ix'"
proof -
  have t: "tbl_ok (ti_rev ix)" "tbl_ok (ti_ids ix)"
    and dec: "\<forall>row v. tbl_get (ti_rev ix) row = Some v \<longrightarrow> (\<exists>r. record_decode v = Inr r)"
    and recs: "\<forall>row r. rec_of ix row = Some r \<longrightarrow> record_ok r \<and> tr_id r < tri_counter ix ''row'' \<and> (\<forall>t \<in> set (tr_tris r). t < tri_counter ix ''tri'')"
    and bij: "\<forall>n row. tbl_get (ti_ids ix) n = Some row \<longleftrightarrow> (\<exists>r. rec_of ix row = Some r \<and> tr_id r = n)"
    using ok unfolding rows_ok_def by blast+
  note rec = rec_of_insert[OF t(1) r(1) ix'(1)]
  have n: "n < row_n" "tri_counter ix ''row'' \<le> row_n" "tbl_ok ids"
    using num recs t(2) by (auto simp: row_number_def split: option.splits)
  have "\<forall>m other. tbl_get ids m = Some other \<longleftrightarrow> (\<exists>q. ((rec_of ix)(row \<mapsto> r)) other = Some q \<and> tr_id q = m)"
  proof (cases "rec_of ix row")
    case None
    then have "n = tri_counter ix ''row''" using num by (simp add: row_number_def)
    then have "\<not> (\<exists>q other. rec_of ix other = Some q \<and> tr_id q = n)" using recs by (metis less_irrefl)
    then show ?thesis using None num t(2) bij r(2) by (auto simp: row_number_def split: if_splits)
  next
    case (Some q)
    then have "n = tr_id q" "ids = ti_ids ix" using num by (simp_all add: row_number_def)
    then show ?thesis by (auto simp: bij Some r(2))
  qed
  moreover have "\<forall>other q. ((rec_of ix)(row \<mapsto> r)) other = Some q \<longrightarrow> record_ok q \<and> tr_id q < row_n \<and> (\<forall>t \<in> set (tr_tris q). t < tri_n)"
  proof (intro allI impI)
    fix other q
    assume a: "((rec_of ix)(row \<mapsto> r)) other = Some q"
    show "record_ok q \<and> tr_id q < row_n \<and> (\<forall>t \<in> set (tr_tris q). t < tri_n)"
    proof (cases "other = row")
      case False
      then have "record_ok q" "tr_id q < tri_counter ix ''row''" "\<forall>t \<in> set (tr_tris q). t < tri_counter ix ''tri''" using recs a by simp_all
      then show ?thesis using n(2) ix'(5) by (meson less_le_trans)
    qed (use a r n(1) in simp)
  qed
  moreover have "\<forall>other v. tbl_get (ti_rev ix') other = Some v \<longrightarrow> (\<exists>r. record_decode v = Inr r)" using dec t(1) r(1) by (auto simp: ix'(1))
  ultimately show ?thesis unfolding rows_ok_def rec ix'(2,3,4) using n(3) tbl_ok_insert[OF t(1)] ix'(1) by simp
qed

lemma grams_of_write:
  assumes ok: "rows_ok ix" and nb: "numbered (ti_dict ix) (tri_counter ix ''tri'') grams ts (ti_dict ix') tri_n" "distinct grams"
    and rec: "rec_of ix' = (rec_of ix)(row \<mapsto> r)" "tr_tris r = sort ts"
  shows "grams_of ix' = (grams_of ix)(row \<mapsto> set grams)"
proof
  fix other
  have num: "numbering (ti_dict ix') tri_n" "map (tbl_get (ti_dict ix')) grams = map Some ts" "grown (ti_dict ix) (tri_counter ix ''tri'') (ti_dict ix')"
    using nb(1) by (auto simp: numbered_def)
  show "grams_of ix' other = ((grams_of ix)(row \<mapsto> set grams)) other"
  proof (cases "other = row")
    case True
    have "\<exists>t. tbl_get (ti_dict ix') g = Some t" if "g \<in> set grams" for g using num(2) that by (metis in_set_conv_nth length_map nth_map)
    then have "{g. \<exists>t. tbl_get (ti_dict ix') g = Some t \<and> t \<in> set ts} = set grams" using numbered_sorted(3)[OF num(1,2) nb(2)] by blast
    then show ?thesis using True rec by (simp add: grams_of_def)
  next
    case False
    have "{g. \<exists>t. tbl_get (ti_dict ix') g = Some t \<and> t \<in> set (tr_tris q)} = {g. \<exists>t. tbl_get (ti_dict ix) g = Some t \<and> t \<in> set (tr_tris q)}"
      if "rec_of ix other = Some q" for q
      using ok num(3) that unfolding rows_ok_def grown_def by blast
    then show ?thesis using False rec(1) by (cases "rec_of ix other") (simp_all add: grams_of_def)
  qed
qed

definition stats_ok :: "row_stats \<Rightarrow> bool" where
  "stats_ok s \<longleftrightarrow> rs_fanout s \<le> u64_max \<and> rs_json_bytes s \<le> u64_max"

text \<open>Room for the new numbers of a write.\<close>

definition tri_room :: "tri_index \<Rightarrow> string list \<Rightarrow> bool" where
  "tri_room ix grams \<longleftrightarrow> tri_counter ix ''tri'' + length grams \<le> 2 ^ 32 \<and> tri_counter ix ''row'' \<le> u64_max"

lemma tri_write_steps:
  assumes "rows_ok ix" "row_number ix row = (n, row_n, ids)" "number_grams (ti_dict ix) (tri_counter ix ''tri'') grams = Inr (ts, dict, tri_n)"
    "before = (case rec_of ix row of Some r \<Rightarrow> tr_tris r | None \<Rightarrow> [])"
    "foldM (\<lambda>p t. remove_posting p t n) (ti_posts ix) (filter (\<lambda>t. \<not> found (sort ts) t) before) = Inr q"
    "foldM (\<lambda>p t. add_posting p t n) q (filter (\<lambda>t. \<not> found before t) (sort ts)) = Inr p'"
  shows "tri_write ix row grams new = Inr (map_option (\<lambda>r. record_stats r row) (rec_of ix row),
    \<lparr>ti_posts = p', ti_rev = tbl_insert (ti_rev ix) row (record_encode (record_new n (sort ts) new)), ti_dict = dict, ti_ids = ids,
     ti_counters = set_counter ''tri'' (tri_counter ix ''tri'') tri_n (set_counter ''row'' (tri_counter ix ''row'') row_n (ti_counters ix))\<rparr>)"
  using assms(2-) unfolding tri_write_def row_number_def old_record_rec_of[OF assms(1)]
  by (cases "rec_of ix row") (auto simp: Let_def)

lemma row_number_other:
  assumes "rows_ok ix" "row_number ix row = (n, row_n, ids)"
  shows "n \<notin> listed_but ix row t"
    "listed ix = (\<lambda>t. listed_but ix row t \<union> (if t \<in> set (case rec_of ix row of Some r \<Rightarrow> tr_tris r | None \<Rightarrow> []) then {n} else {}))"
proof -
  show "n \<notin> listed_but ix row t"
    by (rule listed_but_other[OF assms(1)]) (use assms(2) in \<open>auto simp: row_number_def split: option.splits\<close>)
  show "listed ix = (\<lambda>t. listed_but ix row t \<union> (if t \<in> set (case rec_of ix row of Some r \<Rightarrow> tr_tris r | None \<Rightarrow> []) then {n} else {}))"
    using assms(2) listed_but_split[of ix _ row] by (auto simp: fun_eq_iff row_number_def split: option.splits)
qed

lemma listed_write:
  assumes "rec_of ix' = (rec_of ix)(row \<mapsto> r)"
  shows "listed ix' = (\<lambda>t. listed_but ix row t \<union> (if t \<in> set (tr_tris r) then {tr_id r} else {}))"
proof -
  have "listed_but ix' row = listed_but ix row" by (auto simp: listed_but_def assms fun_eq_iff)
  then show ?thesis using listed_but_split[of ix' _ row] assms by (auto simp: fun_eq_iff)
qed

abbreviation tris_before :: "tri_index \<Rightarrow> string \<Rightarrow> nat list" where
  "tris_before ix row \<equiv> (case rec_of ix row of Some r \<Rightarrow> tr_tris r | None \<Rightarrow> [])"

lemma row_number_bounds:
  assumes "rows_ok ix" "row_number ix row = (n, row_n, ids)" "tri_counter ix ''row'' \<le> u64_max"
  shows "sorted_wrt (<) (tris_before ix row)" "\<forall>t \<in> set (tris_before ix row). t < 2 ^ 32" "n \<le> u64_max" "row_n \<le> tri_counter ix ''row'' + 1"
proof -
  have "record_ok r" if "rec_of ix row = Some r" for r using assms(1) that by (auto simp: rows_ok_def)
  then show "sorted_wrt (<) (tris_before ix row)" "\<forall>t \<in> set (tris_before ix row). t < 2 ^ 32" "n \<le> u64_max" "row_n \<le> tri_counter ix ''row'' + 1"
    using assms(2,3) by (auto simp: row_number_def record_ok_def split: option.splits)
qed

lemma tri_write_posts:
  assumes ok: "tri_ok ix" and num: "row_number ix row = (n, row_n, ids)" and room: "tri_counter ix ''row'' \<le> u64_max"
    and ts: "sorted_wrt (<) (sort ts)" "\<forall>t \<in> set ts. t < 2 ^ 32"
  shows "\<exists>q p'. foldM (\<lambda>p t. remove_posting p t n) (ti_posts ix) (filter (\<lambda>t. \<not> found (sort ts) t) (tris_before ix row)) = Inr q \<and>
    foldM (\<lambda>p t. add_posting p t n) q (filter (\<lambda>t. \<not> found (tris_before ix row) t) (sort ts)) = Inr p' \<and> posts_ok p' \<and>
    posts_of p' = (\<lambda>t. listed_but ix row t \<union> (if t \<in> set (sort ts) then {n} else {}))"
proof -
  have rows: "rows_ok ix" and posts: "posts_ok (ti_posts ix)" "posts_of (ti_posts ix) = listed ix" using ok by (auto simp: tri_ok_def)
  note b = row_number_bounds[OF rows num room]
  have up: "\<forall>t \<in> set (tris_before ix row) \<union> set (sort ts). t < 2 ^ 32" using b(2) ts(2) by auto
  show ?thesis
    by (rule rewrite_posts[OF posts(1) b(1) ts(1) up b(3) trans[OF posts(2) row_number_other(2)[OF rows num]] row_number_other(1)[OF rows num]])
qed

lemma record_new_ok:
  assumes "sorted_wrt (<) tris" "\<forall>t \<in> set tris. t < 2 ^ 32" "n \<le> u64_max" "stats_ok s" "length tris \<le> 2 ^ 32"
  shows "record_ok (record_new n tris s)"
  using assms by (simp add: record_ok_def record_new_def stats_ok_def u64_max_def)

lemma tri_write_writes:
  assumes ok: "tri_ok ix" and g: "distinct grams" and room: "tri_room ix grams" and st: "stats_ok new"
  shows "\<exists>ix'. tri_write ix row grams new = Inr (map_option (\<lambda>r. record_stats r row) (rec_of ix row), ix') \<and> tri_ok ix' \<and>
    grams_of ix' = (grams_of ix)(row \<mapsto> set grams) \<and>
    tri_counter ix' ''tri'' \<le> tri_counter ix ''tri'' + length grams \<and> tri_counter ix' ''row'' \<le> tri_counter ix ''row'' + 1"
proof -
  have rows: "rows_ok ix" and dict: "dict_ok ix" using ok by (auto simp: tri_ok_def)
  have ro: "tri_counter ix ''tri'' + length grams \<le> 2 ^ 32" "tri_counter ix ''row'' \<le> u64_max" using room by (auto simp: tri_room_def)
  obtain n row_n ids where num: "row_number ix row = (n, row_n, ids)" by (metis prod_cases3)
  have "numbering (ti_dict ix) (tri_counter ix ''tri'')" using dict by (simp add: dict_ok_def numbering_def)
  then obtain ts dict' tri_n where ng: "number_grams (ti_dict ix) (tri_counter ix ''tri'') grams = Inr (ts, dict', tri_n)"
    and nb: "numbered (ti_dict ix) (tri_counter ix ''tri'') grams ts dict' tri_n" using number_grams_numbers ro(1) by blast
  then have m: "numbering dict' tri_n" "map (tbl_get dict') grams = map Some ts" "tri_counter ix ''tri'' \<le> tri_n"
    "tri_n \<le> tri_counter ix ''tri'' + length grams" by (auto simp: numbered_def)
  then have tri: "tri_n \<le> 2 ^ 32" "length ts = length grams" using ro(1) by (auto dest: map_eq_imp_length_eq)
  note so = numbered_sorted(1,2)[OF m(1,2) g]
  have small: "\<forall>t \<in> set ts. t < 2 ^ 32" using so(2) tri(1) by auto
  obtain q p' where q: "foldM (\<lambda>p t. remove_posting p t n) (ti_posts ix) (filter (\<lambda>t. \<not> found (sort ts) t) (tris_before ix row)) = Inr q"
    "foldM (\<lambda>p t. add_posting p t n) q (filter (\<lambda>t. \<not> found (tris_before ix row) t) (sort ts)) = Inr p'" "posts_ok p'"
    "posts_of p' = (\<lambda>t. listed_but ix row t \<union> (if t \<in> set (sort ts) then {n} else {}))"
    using tri_write_posts[OF ok num ro(2) so(1) small] by blast
  let ?r = "record_new n (sort ts) new"
  have r: "record_ok ?r" by (rule record_new_ok) (use so(1) small row_number_bounds(3)[OF rows num ro(2)] st ro(1) tri(2) in simp_all)
  have f: "tr_id ?r = n" "tr_tris ?r = sort ts" "\<forall>t \<in> set (tr_tris ?r). t < tri_n" using so(2) by (simp_all add: record_new_def)
  define ix' where "ix' = \<lparr>ti_posts = p', ti_rev = tbl_insert (ti_rev ix) row (record_encode ?r), ti_dict = dict', ti_ids = ids,
     ti_counters = set_counter ''tri'' (tri_counter ix ''tri'') tri_n (set_counter ''row'' (tri_counter ix ''row'') row_n (ti_counters ix))\<rparr>"
  note w = tri_write_steps[OF rows num ng refl q(1,2), of new, folded ix'_def]
  have c: "tbl_ok (ti_counters ix')" "tri_counter ix' ''row'' = row_n" "tri_counter ix' ''tri'' = tri_n"
    using tri_counter_set[of ix "ti_counters ix'" tri_n row_n] dict by (simp_all add: ix'_def dict_ok_def tri_counter_def)
  have rec: "rec_of ix' = (rec_of ix)(row \<mapsto> ?r)" using rows r(1) by (intro rec_of_insert) (simp_all add: rows_ok_def ix'_def)
  have "rows_ok ix'" by (rule rows_ok_write[OF rows num r f(1,3)]) (use c m(3) in \<open>simp_all add: ix'_def\<close>)
  moreover have "dict_ok ix'" using m(1) c tri(1) by (simp add: dict_ok_def numbering_def ix'_def)
  moreover have "posts_of (ti_posts ix') = listed ix'" unfolding listed_write[OF rec] f(1,2) using q(4) by (simp add: ix'_def)
  ultimately have "tri_ok ix'" using q(3) by (simp add: tri_ok_def ix'_def)
  moreover have "grams_of ix' = (grams_of ix)(row \<mapsto> set grams)"
    by (rule grams_of_write[OF rows _ g rec f(2)]) (use nb in \<open>simp add: ix'_def\<close>)
  ultimately show ?thesis using w c m(4) row_number_bounds(4)[OF rows num ro(2)] by blast
qed

section \<open>Removing a row\<close>

lemma rec_of_remove: "tbl_ok (ti_rev ix) \<Longrightarrow> ti_rev ix' = tbl_remove (ti_rev ix) row \<Longrightarrow> rec_of ix' = (rec_of ix)(row := None)"
  by (auto simp: rec_of_def fun_eq_iff)

lemma listed_remove:
  assumes "rec_of ix' = (rec_of ix)(row := None)"
  shows "listed ix' = listed_but ix row"
proof -
  have "listed_but ix' row = listed_but ix row" by (auto simp: listed_but_def assms fun_eq_iff)
  then show ?thesis using listed_but_split[of ix' _ row] assms by (auto simp: fun_eq_iff)
qed

lemma rows_ok_remove:
  assumes ok: "rows_ok ix" and r: "rec_of ix row = Some r"
    and ix': "ti_rev ix' = tbl_remove (ti_rev ix) row" "ti_ids ix' = tbl_remove (ti_ids ix) (tr_id r)" "tri_counter ix' = tri_counter ix"
  shows "rows_ok ix'"
proof -
  have t: "tbl_ok (ti_rev ix)" "tbl_ok (ti_ids ix)"
    and dec: "\<forall>row v. tbl_get (ti_rev ix) row = Some v \<longrightarrow> (\<exists>r. record_decode v = Inr r)"
    and recs: "\<forall>row r. rec_of ix row = Some r \<longrightarrow> record_ok r \<and> tr_id r < tri_counter ix ''row'' \<and> (\<forall>t \<in> set (tr_tris r). t < tri_counter ix ''tri'')"
    and bij: "\<And>n row. tbl_get (ti_ids ix) n = Some row \<longleftrightarrow> (\<exists>r. rec_of ix row = Some r \<and> tr_id r = n)"
    using ok unfolding rows_ok_def by blast+
  note rec = rec_of_remove[OF t(1) ix'(1)]
  have "tbl_get (ti_ids ix') m = Some other \<longleftrightarrow> (\<exists>q. ((rec_of ix)(row := None)) other = Some q \<and> tr_id q = m)" for m other
  proof (cases "other = row")
    case True
    have "tbl_get (ti_ids ix) m \<noteq> Some row \<or> m = tr_id r" using bij[of m row] r by auto
    then show ?thesis using True t(2) by (auto simp: ix'(2))
  next
    case False
    have "tbl_get (ti_ids ix) (tr_id r) = Some row" using bij[of "tr_id r" row] r by auto
    then show ?thesis using False t(2) bij[of m other] by (auto simp: ix'(2))
  qed
  moreover have "\<forall>other v. tbl_get (ti_rev ix') other = Some v \<longrightarrow> (\<exists>r. record_decode v = Inr r)" using dec t(1) by (auto simp: ix'(1))
  moreover have "\<forall>other q. ((rec_of ix)(row := None)) other = Some q \<longrightarrow> record_ok q \<and> tr_id q < tri_counter ix ''row'' \<and> (\<forall>t \<in> set (tr_tris q). t < tri_counter ix ''tri'')"
    using recs by (simp add: fun_upd_def)
  ultimately show ?thesis unfolding rows_ok_def rec ix'(3) using tbl_ok_remove[OF t(1)] tbl_ok_remove[OF t(2)] ix'(1,2) by simp
qed

lemma tri_remove_removes:
  assumes ok: "tri_ok ix"
  shows "\<exists>ix'. tri_remove ix row = Inr (map_option (\<lambda>r. record_stats r row) (rec_of ix row), ix') \<and> tri_ok ix' \<and>
    grams_of ix' = (grams_of ix)(row := None) \<and> tri_counter ix' = tri_counter ix"
proof (cases "rec_of ix row")
  case None
  then have "grams_of ix = (grams_of ix)(row := None)" by (auto simp: grams_of_def fun_eq_iff)
  moreover have "old_record ix row = Inr None" using ok old_record_rec_of[of ix row] None by (simp add: tri_ok_def)
  ultimately show ?thesis using None ok by (simp add: tri_remove_def)
next
  case (Some r)
  have rows: "rows_ok ix" and dict: "dict_ok ix" and posts: "posts_ok (ti_posts ix)" "posts_of (ti_posts ix) = listed ix"
    using ok by (auto simp: tri_ok_def)
  have r: "record_ok r" using rows Some by (auto simp: rows_ok_def)
  have num: "row_number ix row = (tr_id r, tri_counter ix ''row'', ti_ids ix)" by (simp add: row_number_def Some)
  obtain p where p: "foldM (\<lambda>p t. remove_posting p t (tr_id r)) (ti_posts ix) (tr_tris r) = Inr p" "posts_ok p"
    "posts_of p = (\<lambda>t. if t \<in> set (tr_tris r) then posts_of (ti_posts ix) t - {tr_id r} else posts_of (ti_posts ix) t)"
    using postings.del_all[OF posts(1), of "tr_tris r" "tr_id r"] r by (auto simp: post_fits_def record_ok_def)
  define ix' where "ix' = ix\<lparr>ti_posts := p, ti_rev := tbl_remove (ti_rev ix) row, ti_ids := tbl_remove (ti_ids ix) (tr_id r)\<rparr>"
  have w: "tri_remove ix row = Inr (map_option (\<lambda>r. record_stats r row) (rec_of ix row), ix')"
    using old_record_rec_of[OF rows, of row] Some p(1) by (simp add: tri_remove_def ix'_def)
  have c: "tri_counter ix' = tri_counter ix" by (simp add: tri_counter_def ix'_def fun_eq_iff)
  have rec: "rec_of ix' = (rec_of ix)(row := None)" by (rule rec_of_remove) (use rows in \<open>simp_all add: rows_ok_def ix'_def\<close>)
  have "rows_ok ix'" by (rule rows_ok_remove[OF rows Some]) (use c in \<open>simp_all add: ix'_def\<close>)
  moreover have "dict_ok ix'" using dict by (simp add: dict_ok_def c) (simp add: ix'_def)
  moreover have "posts_of p = listed ix'" unfolding listed_remove[OF rec] p(3) posts(2)
    using row_number_other[OF rows num] Some by (auto simp: fun_eq_iff)
  ultimately have "tri_ok ix'" using p(2) by (simp add: tri_ok_def) (simp add: ix'_def)
  moreover have "grams_of ix' = (grams_of ix)(row := None)" 
  proof -
    have "ti_dict ix' = ti_dict ix" by (simp add: ix'_def)
    then show ?thesis by (auto simp: grams_of_def rec fun_eq_iff)
  qed
  ultimately show ?thesis using w c by blast
qed

section \<open>Reading\<close>

definition rows_with :: "tri_index \<Rightarrow> string \<Rightarrow> string set" where
  "rows_with ix g = {row. \<exists>G. grams_of ix row = Some G \<and> g \<in> G}"

definition number_of :: "tri_index \<Rightarrow> string \<Rightarrow> nat" where
  "number_of ix row = (case rec_of ix row of Some r \<Rightarrow> tr_id r | None \<Rightarrow> 0)"

lemma tri_read_reads:
  assumes ok: "tri_ok ix"
  shows "\<exists>ids w'. tri_read ix g w = Inr (ids, w') \<and> sorted_wrt (<) ids \<and> set ids = number_of ix ` rows_with ix g"
proof (cases "tbl_get (ti_dict ix) g")
  case None
  then show ?thesis by (auto simp: tri_read_def rows_with_def grams_of_def)
next
  case (Some t)
  have t: "t < 2 ^ 32" "posts_ok (ti_posts ix)" "posts_of (ti_posts ix) = listed ix"
    using ok Some by (auto simp: tri_ok_def dict_ok_def dest: less_le_trans)
  obtain ids where ids: "read_blocks (ti_posts ix) t = Inr ids" "sorted_wrt (<) ids" "set ids = listed ix t"
    using postings.read_law[OF t(2)] t(1,3) by (auto simp: post_fits_def)
  have "listed ix t = number_of ix ` rows_with ix g"
  proof -
    have "row \<in> rows_with ix g \<longleftrightarrow> (\<exists>r. rec_of ix row = Some r \<and> t \<in> set (tr_tris r))" for row
      using Some by (auto simp: rows_with_def grams_of_def)
    then show ?thesis unfolding listed_def image_def number_of_def by (auto, force+)
  qed
  then show ?thesis using ids Some by (simp add: tri_read_def)
qed

lemma number_of_inj:
  assumes "rows_ok ix" "grams_of ix a \<noteq> None" "grams_of ix b \<noteq> None" "number_of ix a = number_of ix b"
  shows "a = b"
  using assms rows_ids_unique[OF assms(1), of a _ b] by (auto simp: number_of_def grams_of_def)

text \<open>The row keys of numbers the index gave out.\<close>

lemma tri_names_of:
  assumes ok: "rows_ok ix" and ns: "set ns = number_of ix ` R" "\<And>row. row \<in> R \<Longrightarrow> grams_of ix row \<noteq> None" and d: "distinct ns"
  shows "set (tri_names ix ns) = R" "distinct (tri_names ix ns)"
proof -
  have at: "tbl_get (ti_ids ix) (number_of ix row) = Some row" if "row \<in> R" for row
    using ok ns(2)[OF that] by (auto simp: rows_ok_def number_of_def grams_of_def)
  have "\<forall>n \<in> set ns. tbl_get (ti_ids ix) n \<noteq> None" using ns(1) at by auto
  then have names: "tri_names ix ns = map (\<lambda>n. the (tbl_get (ti_ids ix) n)) ns"
    unfolding tri_names_def by (induction ns) (auto simp: List.map_filter_def)
  show "set (tri_names ix ns) = R" unfolding names set_map ns(1) using at by force
  have "inj_on (\<lambda>n. the (tbl_get (ti_ids ix) n)) (set ns)" unfolding ns(1) using at by (auto intro!: inj_onI)
  then show "distinct (tri_names ix ns)" unfolding names using d by (simp add: distinct_map)
qed

section \<open>Runs of writes and removals\<close>

datatype tri_op = TriWrite string "string list" row_stats | TriRemove string

fun run_tri :: "tri_index \<Rightarrow> tri_op \<Rightarrow> tri_index res" where
  "run_tri ix (TriWrite row grams new) = rbind (tri_write ix row grams new) (\<lambda>(_, ix). Inr ix)"
| "run_tri ix (TriRemove row) = rbind (tri_remove ix row) (\<lambda>(_, ix). Inr ix)"

fun run_grams :: "(string \<rightharpoonup> string set) \<Rightarrow> tri_op \<Rightarrow> (string \<rightharpoonup> string set)" where
  "run_grams m (TriWrite row grams new) = m(row \<mapsto> set grams)"
| "run_grams m (TriRemove row) = m(row := None)"

fun tri_op_ok :: "tri_op \<Rightarrow> bool" where
  "tri_op_ok (TriWrite row grams new) \<longleftrightarrow> sorted_wrt (<) grams \<and> stats_ok new"
| "tri_op_ok (TriRemove row) \<longleftrightarrow> True"

fun op_grams :: "tri_op \<Rightarrow> nat" where
  "op_grams (TriWrite row grams new) = length grams"
| "op_grams (TriRemove row) = 0"

lemma run_tri_step:
  assumes "tri_ok ix" "tri_op_ok c" "tri_counter ix ''tri'' + op_grams c \<le> 2 ^ 32" "tri_counter ix ''row'' \<le> u64_max"
  shows "\<exists>ix'. run_tri ix c = Inr ix' \<and> tri_ok ix' \<and> grams_of ix' = run_grams (grams_of ix) c \<and>
    tri_counter ix' ''tri'' \<le> tri_counter ix ''tri'' + op_grams c \<and> tri_counter ix' ''row'' \<le> tri_counter ix ''row'' + 1"
proof (cases c)
  case (TriWrite row grams new)
  have "distinct grams" "tri_room ix grams" "stats_ok new" using assms(2-4) by (auto simp: TriWrite tri_room_def strict_sorted_iff)
  then show ?thesis using tri_write_writes[OF assms(1), of grams new row] by (auto simp: TriWrite)
next
  case (TriRemove row)
  then show ?thesis using tri_remove_removes[OF assms(1), of row] by auto
qed

lemma run_tri_exact:
  assumes "tri_ok ix" "\<forall>c \<in> set ops. tri_op_ok c" "tri_counter ix ''tri'' + sum_list (map op_grams ops) \<le> 2 ^ 32"
    "tri_counter ix ''row'' + length ops \<le> u64_max"
  shows "\<exists>ix'. foldM run_tri ix ops = Inr ix' \<and> tri_ok ix' \<and> grams_of ix' = foldl run_grams (grams_of ix) ops"
  using assms
proof (induction ops arbitrary: ix)
  case (Cons c ops)
  obtain ix1 where c: "run_tri ix c = Inr ix1" "tri_ok ix1" "grams_of ix1 = run_grams (grams_of ix) c"
    "tri_counter ix1 ''tri'' \<le> tri_counter ix ''tri'' + op_grams c" "tri_counter ix1 ''row'' \<le> tri_counter ix ''row'' + 1"
    using run_tri_step[OF Cons.prems(1), of c] Cons.prems(2-4) by auto
  then have "\<exists>ix'. foldM run_tri ix1 ops = Inr ix' \<and> tri_ok ix' \<and> grams_of ix' = foldl run_grams (grams_of ix1) ops"
    using Cons.prems(2-4) by (intro Cons.IH) auto
  then show ?case using c by simp
qed simp

lemma tri_create_ok: "tri_ok tri_create" "grams_of tri_create = (\<lambda>_. None)" "tri_counter tri_create = (\<lambda>_. 0)"
  by (auto simp: tri_ok_def rows_ok_def dict_ok_def tri_create_def tri_counter_def rec_of_def listed_def grams_of_def posts_empty fun_eq_iff)

text \<open>C37. A contains index is exact. After any run of row writes and removals, within the 32-bit trigram numbers and the 64-bit row numbers, every
  call has succeeded, and reading the posting list of a trigram gives row numbers whose row keys are, each once, exactly
  the rows whose latest write had that trigram and that were not removed since.\<close>

theorem trigram_index_exact:
  assumes "\<forall>c \<in> set ops. tri_op_ok c" "sum_list (map op_grams ops) \<le> 2 ^ 32" "length ops \<le> u64_max"
  shows "\<exists>ix ids w'. foldM run_tri tri_create ops = Inr ix \<and> tri_read ix g w = Inr (ids, w') \<and> sorted_wrt (<) ids \<and>
    distinct (tri_names ix ids) \<and> set (tri_names ix ids) = {row. \<exists>G. foldl run_grams (\<lambda>_. None) ops row = Some G \<and> g \<in> G}"
proof -
  obtain ix where ix: "foldM run_tri tri_create ops = Inr ix" "tri_ok ix" "grams_of ix = foldl run_grams (\<lambda>_. None) ops"
    using run_tri_exact[OF tri_create_ok(1) assms(1)] assms(2,3) tri_create_ok(2,3) by auto
  obtain ids w' where r: "tri_read ix g w = Inr (ids, w')" "sorted_wrt (<) ids" "set ids = number_of ix ` rows_with ix g"
    using tri_read_reads[OF ix(2)] by blast
  have "distinct ids" using r(2) by (simp add: strict_sorted_iff)
  then have "set (tri_names ix ids) = rows_with ix g" "distinct (tri_names ix ids)"
    using tri_names_of[OF _ r(3)] ix(2) by (auto simp: tri_ok_def rows_with_def)
  then show ?thesis using ix r(1,2) unfolding rows_with_def ix(3) by blast
qed

theorem trigram_index_exact_witness:
  "\<exists>ix ids w'. foldM run_tri tri_create
      [TriWrite ''r1'' [''abc'', ''bcd''] \<lparr>rs_key = ''r1'', rs_missing = 0, rs_nulls = 0, rs_fanout = 1, rs_json_bytes = 9, rs_key_bytes = 2,
         rs_values = [], rs_unorderable = 0\<rparr>,
       TriWrite ''r2'' [''abc''] \<lparr>rs_key = ''r2'', rs_missing = 0, rs_nulls = 0, rs_fanout = 1, rs_json_bytes = 7, rs_key_bytes = 2,
         rs_values = [], rs_unorderable = 0\<rparr>,
       TriRemove ''r1''] = Inr ix \<and>
    tri_read ix ''abc'' \<lparr>w_entries = 0, w_bytes = 0\<rparr> = Inr (ids, w') \<and> set (tri_names ix ids) = {''r2''}"
  using trigram_index_exact[of "[TriWrite ''r1'' [''abc'', ''bcd''] \<lparr>rs_key = ''r1'', rs_missing = 0, rs_nulls = 0, rs_fanout = 1, rs_json_bytes = 9,
      rs_key_bytes = 2, rs_values = [], rs_unorderable = 0\<rparr>,
    TriWrite ''r2'' [''abc''] \<lparr>rs_key = ''r2'', rs_missing = 0, rs_nulls = 0, rs_fanout = 1, rs_json_bytes = 7, rs_key_bytes = 2,
      rs_values = [], rs_unorderable = 0\<rparr>, TriRemove ''r1'']" "''abc''" "\<lparr>w_entries = 0, w_bytes = 0\<rparr>"]
  by (force simp: stats_ok_def u64_max_def less_char_def simp del: foldM.simps)

end
