(* ===== verification/Index_Search.thy ===== *)
theory Index_Search
  imports Index_Trigram Clove_Memory
begin

text \<open>
  Searching a contains index (\<^verbatim>\<open>src/indexes/access.rs\<close>, \<^verbatim>\<open>src/indexes/execution.rs\<close>, parts of \<^verbatim>\<open>src/indexes/planner.rs\<close> and
  \<^verbatim>\<open>src/indexes/worker.rs\<close>): the trigrams of a text, what the index stores of a row, the plan of a contains condition, and its
  execution on row numbers. The rows a plan gives are evaluated again, so it must not miss one: that is the theorem of this theory.
\<close>

section \<open>Characters of a text\<close>

text \<open>The encoding of one character at the front of a valid text.\<close>

definition cont :: "u8 \<Rightarrow> bool" where "cont b = u8_in 128 191 b"

lemma str_chars_ranges:
  "of_char a < (128 :: nat) \<Longrightarrow> str_chars (a # s) = of_char a # str_chars s"
  "128 \<le> (of_char a :: nat) \<Longrightarrow> of_char a < (224 :: nat) \<Longrightarrow>
    str_chars (a # b # s) = ((of_char a mod 32) * 64 + of_char b mod 64) # str_chars s"
  "224 \<le> (of_char a :: nat) \<Longrightarrow> of_char a < (240 :: nat) \<Longrightarrow>
    str_chars (a # b # c # s) = ((of_char a mod 16) * 4096 + of_char b mod 64 * 64 + of_char c mod 64) # str_chars s"
  "240 \<le> (of_char a :: nat) \<Longrightarrow>
    str_chars (a # b # c # d # s) = ((of_char a mod 8) * 262144 + of_char b mod 64 * 4096 + of_char c mod 64 * 64 + of_char d mod 64) # str_chars s"
  by simp_all

lemma utf8_lead:
  assumes "utf8_valid (a # bs)"
  shows "unat a < 128 \<or> 194 \<le> unat a \<and> unat a \<le> 244"
proof (rule ccontr)
  assume "\<not> ?thesis"
  then have "\<not> u8_in 0 127 a" "\<not> u8_in 194 223 a" "\<not> u8_in 224 224 a" "\<not> u8_in 237 237 a" "\<not> u8_in 225 239 a" "\<not> u8_in 240 240 a"
    "\<not> u8_in 241 243 a" "\<not> u8_in 244 244 a" by (auto simp: u8_in_def)
  then show False using assms by (simp split: list.splits)
qed

lemma utf8_front:
  assumes "utf8_valid (a # bs)"
  shows "\<exists>s t. bs = s @ t \<and> \<not> cont a \<and> (\<forall>b \<in> set s. cont b) \<and> (\<forall>u. utf8_valid (a # s @ u) = utf8_valid u) \<and>
    (\<exists>cp. \<forall>u. str_chars (chars_of (a # s @ u)) = cp # str_chars (chars_of u))"
proof -
  let ?n = "unat a"
  have lt: "?n < 256" using unat_u8_less[of a] .
  consider "?n < 128" | "194 \<le> ?n" "?n < 224" | "224 \<le> ?n" "?n < 240" | "240 \<le> ?n" "?n \<le> 244"
    using utf8_lead[OF assms] by linarith
  then show ?thesis
  proof cases
    case 1
    then show ?thesis by (intro exI[of _ "[]"] exI[of _ bs]) (auto simp: cont_def u8_in_def chars_of_def lt)
  next
    case 2
    then obtain b cs where "bs = b # cs" using assms by (cases bs) (auto simp: u8_in_def)
    with 2 show ?thesis using assms by (intro exI[of _ "[b]"] exI[of _ cs]) (auto simp: cont_def u8_in_def chars_of_def lt)
  next
    case 3
    then obtain b c ds where "bs = b # c # ds" using assms by (cases bs rule: remdups_adj.cases) (auto simp: u8_in_def)
    with 3 show ?thesis using assms by (intro exI[of _ "[b, c]"] exI[of _ ds]) (auto simp: cont_def u8_in_def chars_of_def lt split: if_splits)
  next
    case 4
    then obtain b c d es where "bs = b # c # d # es" using assms
      by (cases bs rule: remdups_adj.cases; cases "tl (tl bs)") (auto simp: u8_in_def)
    with 4 show ?thesis using assms by (intro exI[of _ "[b, c, d]"] exI[of _ es]) (auto simp: cont_def u8_in_def chars_of_def lt split: if_splits)
  qed
qed

declare utf8_valid.simps(2) [simp del] str_chars.simps(2) [simp del]

text \<open>A text is cut only where a character begins, and the characters of the parts are the characters of the whole.\<close>

lemma utf8_split:
  "utf8_valid (p @ q) \<Longrightarrow> q = [] \<or> \<not> cont (hd q) \<Longrightarrow>
    utf8_valid p \<and> utf8_valid q \<and> str_chars (chars_of (p @ q)) = str_chars (chars_of p) @ str_chars (chars_of q)"
proof (induction p rule: length_induct)
  case (1 p)
  show ?case
  proof (cases p)
    case Nil
    then show ?thesis using 1 by (simp add: chars_of_def)
  next
    case (Cons a bs)
    obtain s t cp where f: "bs @ q = s @ t" "\<forall>b \<in> set s. cont b" "\<And>u. utf8_valid (a # s @ u) = utf8_valid u"
      "\<And>u. str_chars (chars_of (a # s @ u)) = cp # str_chars (chars_of u)"
      using utf8_front[of a "bs @ q"] 1(2) Cons by auto
    have "length s \<le> length bs"
    proof (rule ccontr)
      assume "\<not> length s \<le> length bs"
      then have "q \<noteq> []" "hd q \<in> set s" using f(1) by (auto simp: append_eq_append_conv2)
      then show False using f(2) 1(3) by auto
    qed
    then obtain r where r: "bs = s @ r" "t = r @ q" using f(1) by (auto simp: append_eq_append_conv2)
    have "utf8_valid (r @ q)" using 1(2) f(3)[of "r @ q"] by (simp add: Cons r)
    then have "utf8_valid r \<and> utf8_valid q \<and> str_chars (chars_of (r @ q)) = str_chars (chars_of r) @ str_chars (chars_of q)"
      using 1(1)[rule_format, of r] 1(3) Cons r(1) by simp
    then show ?thesis using f(3)[of r] f(4)[of r] f(4)[of "r @ q"] by (simp add: Cons r)
  qed
qed

lemma utf8_suffix: "utf8_valid p \<Longrightarrow> utf8_valid (p @ q) = utf8_valid q"
proof (induction p rule: length_induct)
  case (1 p)
  show ?case
  proof (cases p)
    case (Cons a bs)
    obtain s t where "bs = s @ t" "\<And>u. utf8_valid (a # s @ u) = utf8_valid u" using utf8_front[of a bs] 1(2) Cons by auto
    then show ?thesis using 1 Cons by simp
  qed simp
qed

lemma utf8_first: "utf8_valid q \<Longrightarrow> q = [] \<or> \<not> cont (hd q)"
  using utf8_front by (cases q) auto

lemma contains_sub_parts: "contains_sub s t \<longleftrightarrow> (\<exists>p q. s = p @ t @ q)"
proof
  show "contains_sub s t \<Longrightarrow> \<exists>p q. s = p @ t @ q"
  proof (induction s t rule: contains_sub.induct)
    case (2 c a b)
    show ?case
    proof (cases "take (length b) (c # a) = b")
      case True
      then show ?thesis by (metis append_Nil append_take_drop_id)
    next
      case False
      then obtain p q where "a = p @ b @ q" using 2 by auto
      then show ?thesis by (intro exI[of _ "c # p"] exI[of _ q]) simp
    qed
  qed auto
next
  assume "\<exists>p q. s = p @ t @ q"
  then obtain p q where "s = p @ t @ q" by blast
  then show "contains_sub s t"
  proof (induction p arbitrary: s)
    case Nil
    then have "take (length t) s = t" by simp
    then show ?case by (cases s) auto
  qed auto
qed

text \<open>Rust compares bytes; on texts that is comparing characters.\<close>

lemma contained_chars:
  assumes "is_str s" "is_str t" "contains_sub s t"
  shows "\<exists>a b. str_chars s = a @ str_chars t @ b"
proof -
  obtain p q where s: "s = p @ t @ q" using assms(3) contains_sub_parts by blast
  show ?thesis
  proof (cases "t = []")
    case False
    have ab: "as_bytes (u @ v) = as_bytes u @ as_bytes v" for u v by (simp add: as_bytes_def)
    have t: "utf8_valid (as_bytes t)" "as_bytes t \<noteq> []" "\<not> cont (hd (as_bytes t))"
      using assms(2) False utf8_first[of "as_bytes t"] by (auto simp: is_str_def as_bytes_def)
    have v: "utf8_valid (as_bytes p @ as_bytes t @ as_bytes q)" using assms(1) by (simp add: is_str_def s ab)
    have one: "utf8_valid (as_bytes t @ as_bytes q) \<and> str_chars (p @ t @ q) = str_chars p @ str_chars (t @ q)"
    proof -
      have "\<not> cont (hd (as_bytes t @ as_bytes q))" using t(2,3) by simp
      then show ?thesis using utf8_split[OF v] by (simp flip: ab)
    qed
    then have "utf8_valid (as_bytes q)" using utf8_suffix[OF t(1)] by simp
    then have "str_chars (t @ q) = str_chars t @ str_chars q"
      using utf8_split[of "as_bytes t" "as_bytes q"] one utf8_first by (simp flip: ab)
    then show ?thesis using one s by auto
  qed (auto intro: exI[of _ "[]"])
qed

section \<open>Trigrams\<close>

text \<open>\<open>windows(3)\<close>, and the collection into a \<open>BTreeSet\<close>: ascending, each once.\<close>

fun windows3 :: "nat list \<Rightarrow> nat list list" where
  "windows3 (a # b # c # cs) = [a, b, c] # windows3 (b # c # cs)"
| "windows3 _ = []"

definition trigrams :: "string \<Rightarrow> string list" where
  "trigrams s = sort (remdups (map collect_chars (windows3 (str_chars s))))"

lemma set_trigrams: "set (trigrams s) = collect_chars ` set (windows3 (str_chars s))"
  by (simp add: trigrams_def)

lemma windows3_suffix: "set (windows3 cs) \<subseteq> set (windows3 (a @ cs))"
proof (induction a)
  case (Cons x a)
  have "set (windows3 ys) \<subseteq> set (windows3 (x # ys))" for ys
    by (cases ys rule: windows3.cases) auto
  then show ?case using Cons by (metis append_Cons subset_trans)
qed simp

lemma windows3_prefix: "set (windows3 cs) \<subseteq> set (windows3 (cs @ b))"
  by (induction cs rule: windows3.induct) auto

lemma trigrams_contained:
  assumes "is_str s" "is_str t" "contains_sub s t"
  shows "set (trigrams t) \<subseteq> set (trigrams s)"
proof -
  obtain a b where "str_chars s = a @ str_chars t @ b" using contained_chars[OF assms] by blast
  then have "set (windows3 (str_chars t)) \<subseteq> set (windows3 (str_chars s))"
    using windows3_suffix[of "str_chars t @ b" a] windows3_prefix[of "str_chars t" b] by auto
  then show ?thesis unfolding set_trigrams by blast
qed

section \<open>What the index stores of a row\<close>

datatype index_kind = KValue | KToken | KTrigram | KLastWrite | KParts

definition uses_postings :: "index_kind \<Rightarrow> bool" where
  "uses_postings k \<longleftrightarrow> k \<in> {KTrigram, KParts}"

definition any_position :: "step list \<Rightarrow> nat option" where
  "any_position ss = (let i = length (takeWhile (\<lambda>s. s \<noteq> SAny) ss) in if i < length ss then Some i else None)"

lemma any_position_Some: "any_position ss = Some i \<Longrightarrow> i < length ss \<and> ss ! i = SAny"
  using nth_length_takeWhile[of "\<lambda>s. s \<noteq> SAny" ss] by (auto simp: any_position_def Let_def split: if_splits)

lemma any_steps_less:
  assumes "any_position ss = Some i"
  shows "length (filter (\<lambda>s. s = SAny) (ss[i := SIndex n])) < length (filter (\<lambda>s. s = SAny) ss)"
proof -
  have i: "i < length ss" "ss ! i = SAny" using any_position_Some[OF assms] by auto
  have "filter (\<lambda>s. s = SAny) ss = filter (\<lambda>s. s = SAny) (take i ss) @ SAny # filter (\<lambda>s. s = SAny) (drop (Suc i) ss)"
    by (subst id_take_nth_drop[OF i(1)]) (simp add: i(2))
  then show ?thesis using i(1) by (simp add: upd_conv_take_nth_drop)
qed

function path_values :: "ext \<Rightarrow> bytes \<Rightarrow> path \<Rightarrow> value list res" where
  "path_values x bs p = (case any_position (p_steps p) of
      Some i \<Rightarrow>
        rbind (extract_value x bs (take i (p_steps p))) (\<lambda>v. case v of
          Array items \<Rightarrow>
            rbind (mapM (\<lambda>n. path_values x bs (p\<lparr>p_steps := (p_steps p)[i := SIndex n]\<rparr>)) [0..<length items]) (\<lambda>vs. Inr (concat vs))
        | _ \<Rightarrow> Inr [])
    | None \<Rightarrow> rbind (path_value x bs p) (\<lambda>v. Inr [v]))"
  by pat_completeness auto
termination
  by (relation "measure (\<lambda>(x, bs, p). length (filter (\<lambda>s. s = SAny) (p_steps p)))") (auto simp: any_steps_less)

declare path_values.simps [simp del]

text \<open>The values kept for the sampler: the encodings, none of them when they are too long together.\<close>

fun sample_values :: "ext \<Rightarrow> nat \<Rightarrow> bytes list \<Rightarrow> value list \<Rightarrow> bytes list res" where
  "sample_values x used encoded [] = Inr encoded"
| "sample_values x used encoded (v # vs) =
     rbind (encode_equality (raw_token x) v) (\<lambda>b.
     if 4096 < length b \<or> 4096 < used + length b then Inr []
     else sample_values x (used + length b) (encoded @ [b]) vs)"

definition bool_count :: "bool \<Rightarrow> nat" where "bool_count b = (if b then 1 else 0)"

definition row_stats_new :: "ext \<Rightarrow> string \<Rightarrow> nat \<Rightarrow> value list \<Rightarrow> row_stats res" where
  "row_stats_new x key json values =
     rbind (sample_values x 0 [] values) (\<lambda>encoded.
     Inr \<lparr>rs_key = key, rs_missing = bool_count (list_ex is_missing values), rs_nulls = bool_count (list_ex is_null values),
       rs_fanout = length values, rs_json_bytes = json, rs_key_bytes = length key, rs_values = encoded,
       rs_unorderable = bool_count (list_ex (\<lambda>v. case encode (raw_token x) v of Inl _ \<Rightarrow> True | Inr _ \<Rightarrow> False) values)\<rparr>)"

definition saturating_mul_usize :: "nat \<Rightarrow> nat \<Rightarrow> nat" where
  "saturating_mul_usize a b = min (a * b) u64_max"

text \<open>\<open>BTreeSet::extend\<close>: the set stays ascending, each term once.\<close>

definition extend_terms :: "string list \<Rightarrow> string list \<Rightarrow> string list" where
  "extend_terms grams terms = sort (remdups (grams @ terms))"

fun gather_terms :: "heap \<Rightarrow> ext \<Rightarrow> index_kind \<Rightarrow> string list \<Rightarrow> value list \<Rightarrow> string list res" where
  "gather_terms h x k grams [] = Inr grams"
| "gather_terms h x k grams (v # vs) =
     (case v of
        String s \<Rightarrow> rbind (mem_probe h ''index.row_terms'' (saturating_mul_usize (length s) 48)) (\<lambda>_.
          gather_terms h x k (extend_terms grams (if k = KParts then tokens x s else trigrams s)) vs)
      | _ \<Rightarrow> gather_terms h x k grams vs)"

definition trigram_inputs :: "heap \<Rightarrow> ext \<Rightarrow> index_kind \<Rightarrow> path option \<Rightarrow> string \<Rightarrow> bytes \<Rightarrow> (string list \<times> row_stats) res" where
  "trigram_inputs h x k p row bs =
     rbind (case p of Some path \<Rightarrow> path_values x bs path | None \<Rightarrow> Inr []) (\<lambda>values.
     rbind (row_stats_new x row (length bs) values) (\<lambda>stats.
     rbind (gather_terms h x k [] values) (\<lambda>grams. Inr (grams, stats))))"

lemma gather_terms_set:
  "gather_terms h x k grams vs = Inr out \<Longrightarrow>
    set out = set grams \<union> (\<Union>s \<in> {s. String s \<in> set vs}. set (if k = KParts then tokens x s else trigrams s))"
  by (induction h x k grams vs rule: gather_terms.induct) (auto simp: extend_terms_def split: "value.splits" if_splits)

lemma gather_terms_sorted: "gather_terms h x k grams vs = Inr out \<Longrightarrow> sorted_wrt (<) grams \<Longrightarrow> sorted_wrt (<) out"
proof (induction h x k grams vs rule: gather_terms.induct)
  case (2 h x k grams v vs)
  have "sorted_wrt (<) (extend_terms grams ts)" for ts by (simp add: extend_terms_def strict_sorted_iff)
  then show ?case using 2 by (auto split: "value.splits")
qed simp

text \<open>A condition that an \<open>any\<close> path satisfies is satisfied by one of the values the index reads.\<close>

lemma quantifier_is_any:
  assumes "SAll \<notin> set (p_steps p)"
  shows "quantifier_position (p_steps p) = any_position (p_steps p)"
proof -
  have "takeWhile (\<lambda>s. \<not> is_quantifier s) (p_steps p) = takeWhile (\<lambda>s. s \<noteq> SAny) (p_steps p)"
    using assms by (intro takeWhile_cong) (auto simp: is_quantifier_def)
  then show ?thesis by (simp add: quantifier_position_def any_position_def)
qed

lemma decide_exists: "decide False f ns = Inr True \<Longrightarrow> \<exists>n \<in> set ns. f n = Inr True"
  by (induction ns) (auto split: if_splits)

lemma quantified_path_values:
  "SAll \<notin> set (p_steps p) \<Longrightarrow> quantified x bs p leaf = Inr True \<Longrightarrow> path_values x bs p = Inr vs \<Longrightarrow> \<exists>v \<in> set vs. leaf v = Inr True"
proof (induction x bs p arbitrary: vs rule: path_values.induct)
  case (1 x bs p)
  note qp = quantifier_is_any[OF 1(2)]
  show ?case
  proof (cases "any_position (p_steps p)")
    case None
    then show ?thesis using 1(3,4) qp by (subst (asm) quantified.simps, subst (asm) path_values.simps) auto
  next
    case (Some i)
    let ?p = "\<lambda>n. p\<lparr>p_steps := (p_steps p)[i := SIndex n]\<rparr>"
    have i: "p_steps p ! i \<noteq> SAll" using any_position_Some[OF Some] by simp
    obtain v where v: "extract_value x bs (take i (p_steps p)) = Inr v"
      using 1(4) by (subst (asm) path_values.simps) (auto simp: Some)
    obtain items where items: "v = Array items" "decide False (\<lambda>n. quantified x bs (?p n) leaf) [0..<length items] = Inr True"
      using 1(3) v i by (subst (asm) quantified.simps) (auto simp: qp Some split: "value.splits")
    obtain vss where vss: "mapM (\<lambda>n. path_values x bs (?p n)) [0..<length items] = Inr vss" "vs = concat vss"
      using 1(4) v items(1) by (subst (asm) path_values.simps) (auto simp: Some)
    obtain n where n: "n \<in> set [0..<length items]" "quantified x bs (?p n) leaf = Inr True" using decide_exists[OF items(2)] by blast
    obtain ws where ws: "path_values x bs (?p n) = Inr ws" "ws \<in> set vss"
      using mapM_Inr_in[OF vss(1) n(1)] by blast
    have "SAll \<notin> set (p_steps (?p n))" using 1(2) set_update_subset_insert[of "p_steps p" i "SIndex n"] by auto
    then have "\<exists>v \<in> set ws. leaf v = Inr True" using 1(1)[OF Some v items(1) n(1)] n(2) ws(1) by simp
    then show ?thesis using ws(2) vss(2) by auto
  qed
qed

section \<open>Plans over posting lists\<close>

text \<open>What a query needs of a manifest; its other fields are statistics of its use.\<close>

datatype direction = Asc | Desc

record index_manifest =
  mf_id :: nat
  mf_table :: string
  mf_paths :: "path list"
  mf_kind :: index_kind
  mf_directions :: "direction list"
  mf_ready :: bool
  mf_active :: bool

datatype node =
    NRange index_manifest "bytes option" "bytes option" bool
  | NPostings index_manifest string
  | NIntersection node node
  | NUnion node node
  | NFuzzy index_manifest string nat
  | NOrdered index_manifest "bytes option" "bytes option" bool "node option" "nat option"

fun pure_node :: "node \<Rightarrow> index_manifest option" where
  "pure_node (NPostings d g) = Some d"
| "pure_node (NIntersection a b) = (case (pure_node a, pure_node b) of (Some x, Some y) \<Rightarrow> if mf_id x = mf_id y then Some x else None | _ \<Rightarrow> None)"
| "pure_node (NUnion a b) = (case (pure_node a, pure_node b) of (Some x, Some y) \<Rightarrow> if mf_id x = mf_id y then Some x else None | _ \<Rightarrow> None)"
| "pure_node _ = None"

fun intersect_merge :: "nat list \<Rightarrow> nat list \<Rightarrow> nat list" where
  "intersect_merge (a # as) (b # bs) =
     (if a < b then intersect_merge as (b # bs) else if b < a then intersect_merge (a # as) bs else a # intersect_merge as bs)"
| "intersect_merge _ _ = []"

definition intersect :: "nat list \<Rightarrow> nat list \<Rightarrow> nat list" where
  "intersect a b =
     (let (small, large) = (if length a \<le> length b then (a, b) else (b, a))
      in if saturating_mul_usize (length small) 16 < length large then filter (found large) small else intersect_merge a b)"

fun union_merge :: "nat list \<Rightarrow> nat list \<Rightarrow> nat list" where
  "union_merge (a # as) (b # bs) =
     (if a < b then a # union_merge as (b # bs) else if b < a then b # union_merge (a # as) bs else a # union_merge as bs)"
| "union_merge as [] = as"
| "union_merge [] bs = bs"

fun numbers :: "(nat \<Rightarrow> tri_index) \<Rightarrow> node \<Rightarrow> work \<Rightarrow> (nat list \<times> work) res" where
  "numbers tri (NPostings d g) w = tri_read (tri (mf_id d)) g w"
| "numbers tri (NIntersection a b) w = rbind (numbers tri a w) (\<lambda>(xs, w).
     if xs = [] then Inr (xs, w) else rbind (numbers tri b w) (\<lambda>(ys, w). Inr (intersect xs ys, w)))"
| "numbers tri (NUnion a b) w = rbind (numbers tri a w) (\<lambda>(xs, w). rbind (numbers tri b w) (\<lambda>(ys, w). Inr (union_merge xs ys, w)))"
| "numbers tri _ w = Inl (Validation ''trigram node expected'')"

text \<open>The first branch of \<open>set\<close>: a plan over one contains index; \<open>keys\<close> lists the row keys in order.\<close>

definition postings_keys :: "(nat \<Rightarrow> tri_index) \<Rightarrow> node \<Rightarrow> work \<Rightarrow> (string list \<times> work) res" where
  "postings_keys tri nd w = rbind (ok_or (Validation ''trigram node expected'') (pure_node nd)) (\<lambda>d.
     rbind (numbers tri nd w) (\<lambda>(rows, w). Inr (sort (remdups (tri_names (tri (mf_id d)) rows)), w)))"

text \<open>The arms of \<open>leaf\<close> for conditions on parts of a text: no plan when there is no term or too many.\<close>

definition postings_node :: "index_manifest \<Rightarrow> string list \<Rightarrow> node option" where
  "postings_node d terms = (case terms of [] \<Rightarrow> None
     | t # ts \<Rightarrow> if 64 < length terms then None else Some (foldl NIntersection (NPostings d t) (map (NPostings d) ts)))"

definition contains_leaf :: "ext \<Rightarrow> index_manifest \<Rightarrow> compare \<Rightarrow> value \<Rightarrow> node option" where
  "contains_leaf x d cop first = (case first of
      String term \<Rightarrow> (case cop of Contains \<Rightarrow> postings_node d (trigrams term) | Parts \<Rightarrow> postings_node d (tokens x term) | _ \<Rightarrow> None)
    | _ \<Rightarrow> None)"

lemma intersect_merge_set: "sorted_wrt (<) a \<Longrightarrow> sorted_wrt (<) b \<Longrightarrow> set (intersect_merge a b) = set a \<inter> set b"
proof (induction a b rule: intersect_merge.induct)
  case (1 a as b bs)
  then show ?case by (cases a b rule: linorder_cases) auto
qed auto

lemma intersect_merge_sorted: "sorted_wrt (<) a \<Longrightarrow> sorted_wrt (<) b \<Longrightarrow> sorted_wrt (<) (intersect_merge a b)"
proof (induction a b rule: intersect_merge.induct)
  case (1 a as b bs)
  then show ?case using intersect_merge_set[of as bs] by (cases a b rule: linorder_cases) auto
qed auto

lemma intersect_exact:
  assumes "sorted_wrt (<) a" "sorted_wrt (<) b"
  shows "sorted_wrt (<) (intersect a b)" "set (intersect a b) = set a \<inter> set b"
  using assms by (auto simp: intersect_def Let_def intersect_merge_set intersect_merge_sorted sorted_wrt_filter split: if_splits)

lemma union_merge_set: "set (union_merge a b) = set a \<union> set b"
  by (induction a b rule: union_merge.induct) auto

lemma union_merge_sorted: "sorted_wrt (<) a \<Longrightarrow> sorted_wrt (<) b \<Longrightarrow> sorted_wrt (<) (union_merge a b)"
proof (induction a b rule: union_merge.induct)
  case (1 a as b bs)
  then show ?case by (cases a b rule: linorder_cases) (auto simp: union_merge_set)
qed auto

text \<open>The rows a plan stands for.\<close>

fun postings_rows :: "(nat \<Rightarrow> tri_index) \<Rightarrow> node \<Rightarrow> string set" where
  "postings_rows tri (NPostings d g) = rows_with (tri (mf_id d)) g"
| "postings_rows tri (NIntersection a b) = postings_rows tri a \<inter> postings_rows tri b"
| "postings_rows tri (NUnion a b) = postings_rows tri a \<union> postings_rows tri b"
| "postings_rows tri _ = {}"

lemma pure_pair: "(case (a, b) of (Some x, Some y) \<Rightarrow> if mf_id x = mf_id y then Some x else None | _ \<Rightarrow> None) = Some d \<longleftrightarrow>
    a = Some d \<and> (\<exists>y. b = Some y \<and> mf_id y = mf_id d)"
  by (cases a; cases b) auto

lemma postings_rows_indexed: "pure_node nd = Some d \<Longrightarrow> row \<in> postings_rows tri nd \<Longrightarrow> grams_of (tri (mf_id d)) row \<noteq> None"
  by (induction nd arbitrary: d) (auto simp: rows_with_def split: option.splits if_splits)

lemma numbers_exact:
  assumes "tri_ok (tri i)" "pure_node nd = Some d" "mf_id d = i"
  shows "\<exists>ns w'. numbers tri nd w = Inr (ns, w') \<and> sorted_wrt (<) ns \<and> set ns = number_of (tri i) ` postings_rows tri nd"
  using assms(2,3)
proof (induction nd arbitrary: w d)
  case (NPostings e g)
  then show ?case using tri_read_reads[OF assms(1)] by auto
next
  case (NIntersection a b)
  obtain e where p: "pure_node a = Some d" "mf_id d = i" "pure_node b = Some e" "mf_id e = i"
    using NIntersection.prems unfolding pure_node.simps pure_pair by metis
  obtain xs w1 where a: "numbers tri a w = Inr (xs, w1)" "sorted_wrt (<) xs" "set xs = number_of (tri i) ` postings_rows tri a"
    using NIntersection.IH(1)[OF p(1,2)] by blast
  obtain ys w2 where b: "numbers tri b w1 = Inr (ys, w2)" "sorted_wrt (<) ys" "set ys = number_of (tri i) ` postings_rows tri b"
    using NIntersection.IH(2)[OF p(3,4)] by blast
  have "inj_on (number_of (tri i)) (postings_rows tri a \<union> postings_rows tri b)"
    using assms(1) postings_rows_indexed[OF p(1), of _ tri] postings_rows_indexed[OF p(3), of _ tri] p(2,4)
    by (intro inj_onI number_of_inj) (auto simp: tri_ok_def)
  then have "number_of (tri i) ` (postings_rows tri a \<inter> postings_rows tri b) = set xs \<inter> set ys"
    unfolding a(3) b(3) by (metis inf_sup_ord(3) inj_on_image_Int sup_ge2)
  then show ?case using a b intersect_exact[OF a(2) b(2)] by (auto simp: Let_def)
next
  case (NUnion a b)
  obtain e where p: "pure_node a = Some d" "mf_id d = i" "pure_node b = Some e" "mf_id e = i"
    using NUnion.prems unfolding pure_node.simps pure_pair by metis
  obtain xs w1 where a: "numbers tri a w = Inr (xs, w1)" "sorted_wrt (<) xs" "set xs = number_of (tri i) ` postings_rows tri a"
    using NUnion.IH(1)[OF p(1,2)] by blast
  obtain ys w2 where b: "numbers tri b w1 = Inr (ys, w2)" "sorted_wrt (<) ys" "set ys = number_of (tri i) ` postings_rows tri b"
    using NUnion.IH(2)[OF p(3,4)] by blast
  show ?case using a b union_merge_sorted[OF a(2) b(2)] by (auto simp: union_merge_set image_Un)
qed auto

lemma postings_keys_exact:
  assumes "tri_ok (tri (mf_id d))" "pure_node nd = Some d"
  shows "\<exists>keys w'. postings_keys tri nd w = Inr (keys, w') \<and> sorted_wrt (<) keys \<and> set keys = postings_rows tri nd"
proof -
  obtain ns w' where n: "numbers tri nd w = Inr (ns, w')" "sorted_wrt (<) ns" "set ns = number_of (tri (mf_id d)) ` postings_rows tri nd"
    using numbers_exact[of tri "mf_id d" nd d, OF assms refl] by blast
  have "set (tri_names (tri (mf_id d)) ns) = postings_rows tri nd"
    by (rule tri_names_of(1)[OF _ n(3)]) (use assms n(2) postings_rows_indexed in \<open>auto simp: tri_ok_def strict_sorted_iff\<close>)
  then show ?thesis using n(1) assms(2) by (simp add: postings_keys_def strict_sorted_iff)
qed

lemma postings_node_rows:
  assumes "postings_node d terms = Some nd"
  shows "pure_node nd = Some d" "postings_rows tri nd = (\<Inter>t \<in> set terms. rows_with (tri (mf_id d)) t)"
proof -
  obtain t ts where t: "terms = t # ts" "nd = foldl NIntersection (NPostings d t) (map (NPostings d) ts)"
    using assms by (auto simp: postings_node_def split: list.splits if_splits)
  have "pure_node (foldl NIntersection n (map (NPostings d) ts)) = Some d \<and>
    postings_rows tri (foldl NIntersection n (map (NPostings d) ts)) = postings_rows tri n \<inter> (\<Inter>t \<in> set ts. rows_with (tri (mf_id d)) t)"
    if "pure_node n = Some d" for n
    using that by (induction ts arbitrary: n) auto
  then show "pure_node nd = Some d" "postings_rows tri nd = (\<Inter>t \<in> set terms. rows_with (tri (mf_id d)) t)" using t by auto
qed

section \<open>No row is missed\<close>

definition postings_kind :: "compare \<Rightarrow> index_kind" where
  "postings_kind cop = (if cop = Parts then KParts else KTrigram)"

text \<open>Texts of a row are UTF-8, as every Rust \<open>String\<close> is.\<close>

definition texts_ok :: "ext \<Rightarrow> bytes \<Rightarrow> path \<Rightarrow> bool" where
  "texts_ok x bs p \<longleftrightarrow> (\<forall>vs s. path_values x bs p = Inr vs \<longrightarrow> String s \<in> set vs \<longrightarrow> is_str s)"


lemma scalar_text:
  assumes "scalar x cop [String t] v = Inr True" "cop = Contains \<or> cop = Parts"
  shows "\<exists>s. v = String s \<and> (if cop = Contains then contains_sub s t else set (tokens x t) \<subseteq> set (tokens x s))"
proof -
  have "string_op x cop v (String t)" using assms by (auto simp: scalar_def)
  then show ?thesis using assms(2) by (cases v) (auto simp: string_op_def list_all_iff)
qed

lemma matching_terms:
  assumes m: "matches x bs (Compare p cop [v]) = Inr True" "interpret_kind x (p_kind p) v = Inr (String t)" "cop = Contains \<or> cop = Parts"
    and p: "SAll \<notin> set (p_steps p)" "texts_ok x bs p" "is_str t"
    and i: "trigram_inputs h x (postings_kind cop) (Some p) row bs = Inr (grams, st)"
  shows "set (if cop = Parts then tokens x t else trigrams t) \<subseteq> set grams"
proof -
  obtain vs where vs: "path_values x bs p = Inr vs" "gather_terms h x (postings_kind cop) [] vs = Inr grams"
    using i by (auto simp: trigram_inputs_def)
  have "quantified x bs p (scalar x cop [String t]) = Inr True" using m(1,2) by (simp add: matches_holds)
  then obtain u where u: "u \<in> set vs" "scalar x cop [String t] u = Inr True" using quantified_path_values[OF p(1) _ vs(1)] by blast
  obtain s where s: "u = String s" "if cop = Contains then contains_sub s t else set (tokens x t) \<subseteq> set (tokens x s)"
    using scalar_text[OF u(2) m(3)] by blast
  have "is_str s" using p(2) vs(1) u(1) s(1) by (auto simp: texts_ok_def)
  then have "set (if cop = Parts then tokens x t else trigrams t) \<subseteq> set (if cop = Parts then tokens x s else trigrams s)"
    using m(3) s(2) trigrams_contained[of s t] p(3) by auto
  then show ?thesis using gather_terms_set[OF vs(2)] u(1) s(1) by (auto simp: postings_kind_def split: if_splits)
qed

text \<open>A search through a contains index never misses a row. Take any index filled by a run of writes and removals, and a row whose latest
  write stored what the library stores of its bytes. If the row satisfies a contains condition (or a condition on the parts of a protected
  value) as the evaluator decides it, then the plan of that condition, executed on the index, lists the row.\<close>

theorem contains_never_misses:
  assumes run: "\<forall>c \<in> set ops. tri_op_ok c" "sum_list (map op_grams ops) \<le> 2 ^ 32" "length ops \<le> u64_max" "foldM run_tri tri_create ops = Inr (tri (mf_id d))"
    and stored: "trigram_inputs h x (postings_kind cop) (Some p) row bs = Inr (grams, st)" "foldl run_grams (\<lambda>_. None) ops row = Some (set grams)"
    and path: "SAll \<notin> set (p_steps p)" "texts_ok x bs p" "is_str t"
    and cond: "cop = Contains \<or> cop = Parts" "interpret_kind x (p_kind p) v = Inr (String t)" "matches x bs (Compare p cop [v]) = Inr True"
    and plan: "contains_leaf x d cop (String t) = Some nd"
  shows "\<exists>keys w'. postings_keys tri nd w = Inr (keys, w') \<and> sorted_wrt (<) keys \<and> row \<in> set keys"
proof -
  have ok: "tri_ok (tri (mf_id d))" "grams_of (tri (mf_id d)) = foldl run_grams (\<lambda>_. None) ops"
    using run_tri_exact[OF tri_create_ok(1) run(1)] run(2-4) tri_create_ok(2,3) by auto
  let ?terms = "if cop = Parts then tokens x t else trigrams t"
  have "postings_node d ?terms = Some nd" using plan cond(1) by (auto simp: contains_leaf_def)
  note n = postings_node_rows[OF this]
  have "set ?terms \<subseteq> set grams" by (rule matching_terms[OF cond(3,2,1) path stored(1)])
  then have "row \<in> postings_rows tri nd" unfolding n(2) using stored(2) ok(2) by (auto simp: rows_with_def)
  then show ?thesis using postings_keys_exact[of tri d nd w, OF ok(1) n(1)] by auto
qed

definition text_ext :: ext where
  "text_ext = plain_ext (\<lambda>bs. Some (RString (from_utf8 bs)))"

definition sample_stats :: row_stats where
  "sample_stats = \<lparr>rs_key = ''r1'', rs_missing = 0, rs_nulls = 0, rs_fanout = 1, rs_json_bytes = 5, rs_key_bytes = 2,
     rs_values = [], rs_unorderable = 0\<rparr>"

definition root_path :: path where
  "root_path = \<lparr>p_steps = [], p_kind = Auto, p_transforms = []\<rparr>"

definition sample_manifest :: index_manifest where
  "sample_manifest = \<lparr>mf_id = 0, mf_table = ''t'', mf_paths = [root_path], mf_kind = KTrigram, mf_directions = [], mf_ready = True, mf_active = True\<rparr>"

lemma sample_eval:
  "str_chars ''hello'' = [104, 101, 108, 108, 111]" "trigrams ''hello'' = [''ell'', ''hel'', ''llo'']" "trigrams ''ell'' = [''ell'']"
  by code_simp+

lemma sample_values_of: "path_values text_ext (as_bytes ''hello'') root_path = Inr [String ''hello'']"
  by code_simp

lemma sample_inputs: "\<exists>st. trigram_inputs roomy text_ext KTrigram (Some root_path) ''r1'' (as_bytes ''hello'') = Inr ([''ell'', ''hel'', ''llo''], st)"
proof -
  obtain e where "sample_values text_ext 0 [] [String ''hello''] = Inr e" by (fastforce simp: encode_equality_def split: if_splits)
  then obtain st where "row_stats_new text_ext ''r1'' (length (as_bytes ''hello'')) [String ''hello''] = Inr st"
    by (simp add: row_stats_new_def del: sample_values.simps)
  moreover have "extend_terms [] [''ell'', ''hel'', ''llo''] = [''ell'', ''hel'', ''llo'']" by code_simp
  ultimately show ?thesis by (simp add: trigram_inputs_def sample_values_of sample_eval mem_probe_def)
qed

lemma sample_matches: "matches text_ext (as_bytes ''hello'') (Compare root_path Contains [String ''ell'']) = Inr True"
  by code_simp

theorem contains_never_misses_witness:
  "\<exists>ix keys w'. foldM run_tri tri_create [TriWrite ''r1'' [''ell'', ''hel'', ''llo''] sample_stats] = Inr ix \<and>
    postings_keys (\<lambda>_. ix) (NPostings sample_manifest ''ell'') \<lparr>w_entries = 0, w_bytes = 0\<rparr> = Inr (keys, w') \<and> ''r1'' \<in> set keys"
proof -
  let ?ops = "[TriWrite ''r1'' [''ell'', ''hel'', ''llo''] sample_stats]"
  have ops: "\<forall>c \<in> set ?ops. tri_op_ok c" "sum_list (map op_grams ?ops) \<le> 2 ^ 32" "length ?ops \<le> u64_max"
    by (auto simp: sample_stats_def stats_ok_def u64_max_def less_char_def)
  obtain ix where ix: "foldM run_tri tri_create ?ops = Inr ix" using run_tri_exact[OF tri_create_ok(1) ops(1)] ops(2,3) tri_create_ok(3) by auto
  obtain st where st: "trigram_inputs roomy text_ext (postings_kind Contains) (Some root_path) ''r1'' (as_bytes ''hello'') = Inr ([''ell'', ''hel'', ''llo''], st)"
    using sample_inputs by (auto simp: postings_kind_def)
  have t: "is_str ''ell''" "is_str ''hello''" by code_simp+
  have "\<exists>keys w'. postings_keys (\<lambda>_. ix) (NPostings sample_manifest ''ell'') \<lparr>w_entries = 0, w_bytes = 0\<rparr> = Inr (keys, w') \<and> sorted_wrt (<) keys \<and> ''r1'' \<in> set keys"
  proof (rule contains_never_misses[OF ops _ st _ _ _ t(1) _ _ sample_matches])
    show "foldM run_tri tri_create ?ops = Inr ix" by (rule ix)
    show "texts_ok text_ext (as_bytes ''hello'') root_path" using sample_values_of t(2) by (simp add: texts_ok_def)
    show "contains_leaf text_ext sample_manifest Contains (String ''ell'') = Some (NPostings sample_manifest ''ell'')"
      by (simp add: contains_leaf_def postings_node_def sample_eval)
  qed (simp_all add: root_path_def)
  then show ?thesis using ix by blast
qed

end
