(* ===== verification/Index_Value.thy ===== *)
theory Index_Value
  imports Index_Search
begin

text \<open>
  Value and token indexes (\<^verbatim>\<open>src/indexes/worker.rs\<close>, \<^verbatim>\<open>src/indexes/format.rs\<close>): one entry per indexed value of a row, keyed by the encoded value
  and the row key, and a reverse row that remembers the entries of a row. Writing and removing a row go by the kind of the
  index, to these tables or to the posting lists of a contains index. The theory shows that the entries of an index are, after any run
  of changes, exactly the entries of the rows it holds.
\<close>

section \<open>Definitions and keys\<close>

definition row_suffix :: "string \<Rightarrow> bytes" where
  "row_suffix row = 7 # text_code (as_bytes row)"

lemma encode_row [simp]: "encode rv (String row) = Inr (row_suffix row)"
  by (simp add: encode_def row_suffix_def)

definition entry_key :: "ext \<Rightarrow> value \<Rightarrow> string \<Rightarrow> bytes res" where
  "entry_key x v row = rbind (encode_equality (raw_token x) v) (\<lambda>key. rbind (encode (raw_token x) (String row)) (\<lambda>s. Inr (key @ s)))"

definition direction_at :: "index_manifest \<Rightarrow> nat \<Rightarrow> direction option" where
  "direction_at d i = (if i < length (mf_directions d) then Some (mf_directions d ! i) else None)"

definition key_part :: "ext \<Rightarrow> index_manifest \<Rightarrow> nat \<times> value \<Rightarrow> bytes res" where
  "key_part x d = (\<lambda>(i, v). rbind (encode_equality (raw_token x) v) (\<lambda>part.
     Inr (if direction_at d i = Some Desc then map NOT part else part)))"

definition definition_key :: "ext \<Rightarrow> index_manifest \<Rightarrow> value \<Rightarrow> string \<Rightarrow> bytes res" where
  "definition_key x d v row =
     (if length (mf_paths d) \<le> 1 then entry_key x v row
      else case v of
        Array vs \<Rightarrow> rbind (mapM (key_part x d) (zip [0..<length vs] vs)) (\<lambda>parts.
          rbind (encode (raw_token x) (String row)) (\<lambda>s. Inr ([8] @ concat parts @ [0] @ s)))
      | _ \<Rightarrow> Inl (Validation ''invalid compound index value''))"

section \<open>The reverse row\<close>

record reverse_row =
  rv_keys :: "bytes list"
  rv_terms :: "string list"
  rv_stats :: "row_stats option"

definition ends_with :: "bytes \<Rightarrow> bytes \<Rightarrow> bool" where
  "ends_with k suffix \<longleftrightarrow> length suffix \<le> length k \<and> drop (length k - length suffix) k = suffix"

definition put_key :: "bytes \<Rightarrow> bytes \<Rightarrow> bytes" where
  "put_key suffix k = (let own = ends_with k suffix; body = (if own then take (length k - length suffix) k else k)
     in [u8_from own] @ put_varint (length body) @ body)"

definition put_term :: "string \<Rightarrow> bytes" where
  "put_term t = put_varint (length t) @ as_bytes t"

definition put_stats :: "row_stats option \<Rightarrow> bytes" where
  "put_stats st = (case st of
      Some s \<Rightarrow> [1] @ concat (map put_varint [rs_missing s, rs_nulls s, rs_fanout s, rs_json_bytes s, rs_key_bytes s, rs_unorderable s])
    | None \<Rightarrow> [0])"

definition encode_reverse :: "ext \<Rightarrow> string \<Rightarrow> reverse_row \<Rightarrow> bytes res" where
  "encode_reverse x row r = rbind (encode (raw_token x) (String row)) (\<lambda>suffix.
     Inr ([2] @ put_varint (length (rv_keys r)) @ concat (map (put_key suffix) (rv_keys r)) @
       put_varint (length (rv_terms r)) @ concat (map put_term (rv_terms r)) @ put_stats (rv_stats r)))"

definition truncated_reverse :: cl_error where "truncated_reverse = Validation ''truncated reverse row''"

definition corrupt_reverse :: cl_error where "corrupt_reverse = Validation ''corrupt reverse row''"

definition get_bytes :: "bytes \<Rightarrow> (bytes \<times> bytes) res" where
  "get_bytes b = rbind (get_varint b) (\<lambda>(n, b). if length b < n then Inl truncated_reverse else Inr (take n b, drop n b))"

fun get_keys :: "bytes \<Rightarrow> nat \<Rightarrow> bytes \<Rightarrow> (bytes list \<times> bytes) res" where
  "get_keys suffix 0 b = Inr ([], b)"
| "get_keys suffix (Suc n) [] = Inl truncated_reverse"
| "get_keys suffix (Suc n) (own # b) =
     rbind (get_bytes b) (\<lambda>(k, b).
     rbind (get_keys suffix n b) (\<lambda>(ks, b). Inr ((if own = 1 then k @ suffix else k) # ks, b)))"

fun get_terms :: "nat \<Rightarrow> bytes \<Rightarrow> (string list \<times> bytes) res" where
  "get_terms 0 b = Inr ([], b)"
| "get_terms (Suc n) b =
     rbind (get_bytes b) (\<lambda>(t, b).
     rbind (ok_or corrupt_reverse (from_utf8 t)) (\<lambda>t.
     rbind (get_terms n b) (\<lambda>(ts, b). Inr (t # ts, b))))"

fun get_counters :: "nat \<Rightarrow> bytes \<Rightarrow> (nat list \<times> bytes) res" where
  "get_counters 0 b = Inr ([], b)"
| "get_counters (Suc n) b = rbind (get_varint b) (\<lambda>(v, b). rbind (get_counters n b) (\<lambda>(vs, b). Inr (v # vs, b)))"

definition get_stats :: "string \<Rightarrow> bytes \<Rightarrow> row_stats option res" where
  "get_stats row b = (case b of
      tag # b \<Rightarrow>
        if tag = 1 then rbind (get_counters 6 b) (\<lambda>(v, _).
          Inr (Some \<lparr>rs_key = row, rs_missing = v ! 0, rs_nulls = v ! 1, rs_fanout = v ! 2, rs_json_bytes = v ! 3, rs_key_bytes = v ! 4,
            rs_values = [], rs_unorderable = v ! 5\<rparr>))
        else Inr None
    | [] \<Rightarrow> Inr None)"

text \<open>Rows of the earlier format are JSON: reading them is \<open>serde_json\<close>'s, the parameter \<open>old_form\<close>.\<close>

definition decode_reverse :: "(bytes \<Rightarrow> reverse_row option) \<Rightarrow> ext \<Rightarrow> string \<Rightarrow> bytes \<Rightarrow> reverse_row res" where
  "decode_reverse old_form x row bytes = (case bytes of
      tag # b \<Rightarrow>
        if tag \<noteq> 2 then ok_or Serialization (old_form bytes)
        else rbind (encode (raw_token x) (String row)) (\<lambda>suffix.
          rbind (get_varint b) (\<lambda>(n, b).
          rbind (get_keys suffix n b) (\<lambda>(ks, b).
          rbind (get_varint b) (\<lambda>(t, b).
          rbind (get_terms t b) (\<lambda>(terms, b).
          rbind (get_stats row b) (\<lambda>stats. Inr \<lparr>rv_keys = ks, rv_terms = terms, rv_stats = stats\<rparr>))))))
    | [] \<Rightarrow> ok_or Serialization (old_form bytes))"

definition counters_ok :: "string \<Rightarrow> row_stats \<Rightarrow> bool" where
  "counters_ok row s \<longleftrightarrow> rs_key s = row \<and> rs_values s = [] \<and>
     (\<forall>v \<in> {rs_missing s, rs_nulls s, rs_fanout s, rs_json_bytes s, rs_key_bytes s, rs_unorderable s}. v \<le> u64_max)"

definition reverse_ok :: "string \<Rightarrow> reverse_row \<Rightarrow> bool" where
  "reverse_ok row r \<longleftrightarrow> length (rv_keys r) \<le> u64_max \<and> (\<forall>k \<in> set (rv_keys r). length k \<le> u64_max) \<and>
     length (rv_terms r) \<le> u64_max \<and> (\<forall>t \<in> set (rv_terms r). is_str t \<and> length t \<le> u64_max) \<and>
     (\<forall>s. rv_stats r = Some s \<longrightarrow> counters_ok row s)"

lemma get_bytes_back [simp]: "length k \<le> u64_max \<Longrightarrow> get_bytes (put_varint (length k) @ k @ rest) = Inr (k, rest)"
  by (simp add: get_bytes_def)

lemma get_varint_end [simp]: "v \<le> u64_max \<Longrightarrow> get_varint (put_varint v) = Inr (v, [])"
  using varint_back[of v "[]"] by simp

lemma get_key_back:
  assumes "length k \<le> u64_max"
  shows "get_keys suffix (Suc n) (put_key suffix k @ rest) = rbind (get_keys suffix n rest) (\<lambda>(ks, b). Inr (k # ks, b))"
proof (cases "ends_with k suffix")
  case True
  then have "take (length k - length suffix) k @ suffix = k" using append_take_drop_id[of "length k - length suffix" k] by (simp add: ends_with_def)
  moreover have "length (take (length k - length suffix) k) \<le> u64_max" using assms by simp
  ultimately show ?thesis using True get_bytes_back[of "take (length k - length suffix) k" rest]
    by (simp add: put_key_def u8_from_def Let_def del: length_take get_bytes_back)
next
  case False
  then show ?thesis using assms by (simp add: put_key_def u8_from_def Let_def)
qed

lemma get_keys_back:
  "\<forall>k \<in> set ks. length k \<le> u64_max \<Longrightarrow> get_keys suffix (length ks) (concat (map (put_key suffix) ks) @ rest) = Inr (ks, rest)"
  by (induction ks) (simp_all add: get_key_back del: get_keys.simps(3))

lemma get_terms_back:
  "\<forall>t \<in> set ts. is_str t \<and> length t \<le> u64_max \<Longrightarrow> get_terms (length ts) (concat (map put_term ts) @ rest) = Inr (ts, rest)"
proof (induction ts)
  case (Cons t ts)
  have "get_bytes (put_varint (length t) @ as_bytes t @ u) = Inr (as_bytes t, u)" for u
    using get_bytes_back[of "as_bytes t" u] Cons.prems by simp
  then show ?case using Cons by (simp add: put_term_def)
qed simp

lemma get_stats_back: "\<forall>s. st = Some s \<longrightarrow> counters_ok row s \<Longrightarrow> get_stats row (put_stats st) = Inr st"
proof (cases st)
  case (Some s)
  assume "\<forall>s. st = Some s \<longrightarrow> counters_ok row s"
  then have "counters_ok row s" using Some by simp
  then show ?thesis using Some by (simp add: put_stats_def get_stats_def counters_ok_def eval_nat_numeral)
qed (simp add: put_stats_def get_stats_def)

lemma reverse_back:
  assumes "reverse_ok row r" "encode_reverse x row r = Inr bs"
  shows "decode_reverse old_form x row bs = Inr r"
  using assms get_keys_back[of "rv_keys r" "row_suffix row"] get_terms_back[of "rv_terms r"] get_stats_back[of "rv_stats r" row]
  by (auto simp: encode_reverse_def decode_reverse_def reverse_ok_def)

section \<open>The tables and their operations\<close>

record value_index =
  vi_entries :: "(bytes, string) table"
  vi_reverse :: "(string, bytes) table"
  vi_terms :: "(string, nat) table"

text \<open>The tables of one generation; which of them are used depends on the kind.\<close>

record index_state =
  is_value :: value_index
  is_tri :: tri_index

definition create_tables :: index_state where
  "create_tables = \<lparr>is_value = \<lparr>vi_entries = [], vi_reverse = [], vi_terms = []\<rparr>, is_tri = tri_create\<rparr>"

definition term_count :: "(string, nat) table \<Rightarrow> string \<Rightarrow> nat" where
  "term_count t term = (case tbl_get t term of Some n \<Rightarrow> n | None \<Rightarrow> 0)"

definition forget_term :: "(string, nat) table \<Rightarrow> string \<Rightarrow> (string, nat) table" where
  "forget_term t term = (let count = term_count t term in if count \<le> 1 then tbl_remove t term else tbl_insert t term (count - 1))"

definition count_term :: "(string, nat) table \<Rightarrow> string \<Rightarrow> (string, nat) table" where
  "count_term t term = tbl_insert t term (term_count t term + 1)"

type_synonym old_form = "bytes \<Rightarrow> reverse_row option"

definition remove_value_row :: "old_form \<Rightarrow> ext \<Rightarrow> index_manifest \<Rightarrow> string \<Rightarrow> value_index \<Rightarrow> (row_stats option \<times> value_index) res" where
  "remove_value_row old_form x d row vi =
     (case tbl_get (vi_reverse vi) row of
        None \<Rightarrow> Inr (None, vi)
      | Some v \<Rightarrow> rbind (decode_reverse old_form x row v) (\<lambda>old.
          Inr (rv_stats old, \<lparr>vi_entries = foldl tbl_remove (vi_entries vi) (rv_keys old), vi_reverse = tbl_remove (vi_reverse vi) row,
            vi_terms = (if mf_kind d = KToken then foldl forget_term (vi_terms vi) (rv_terms old) else vi_terms vi)\<rparr>)))"

definition remove_row :: "old_form \<Rightarrow> ext \<Rightarrow> index_manifest \<Rightarrow> string \<Rightarrow> index_state \<Rightarrow> (row_stats option \<times> index_state) res" where
  "remove_row old_form x d row ix =
     (if uses_postings (mf_kind d) then rbind (tri_remove (is_tri ix) row) (\<lambda>(old, tri). Inr (old, ix\<lparr>is_tri := tri\<rparr>))
      else rbind (remove_value_row old_form x d row (is_value ix)) (\<lambda>(old, vi). Inr (old, ix\<lparr>is_value := vi\<rparr>)))"

text \<open>The values of a row: what the sampler sees, and what is indexed.\<close>

definition sampled_values :: "ext \<Rightarrow> index_manifest \<Rightarrow> bytes \<Rightarrow> nat \<Rightarrow> value list res" where
  "sampled_values x d bs seq =
     (if mf_kind d = KLastWrite then Inr [Number (show_nat seq)]
      else case mf_paths d of p # _ \<Rightarrow> path_values x bs p | [] \<Rightarrow> Inr [])"

fun term_values :: "heap \<Rightarrow> ext \<Rightarrow> index_kind \<Rightarrow> value list \<Rightarrow> value list res" where
  "term_values h x k [] = Inr []"
| "term_values h x k (v # vs) =
     (case v of
        String s \<Rightarrow> rbind (mem_probe h ''index.row_terms'' (saturating_mul_usize (length s) 48)) (\<lambda>_.
          rbind (term_values h x k vs) (\<lambda>out. Inr (map String (if k = KToken then tokens x s else trigrams s) @ out)))
      | _ \<Rightarrow> term_values h x k vs)"

definition tuple_part :: "ext \<Rightarrow> bytes \<Rightarrow> path \<Rightarrow> value res" where
  "tuple_part x bs p =
     (if list_ex (\<lambda>s. s = SAny \<or> s = SAll) (p_steps p) then Inl (Validation ''compound multikey requires a single expansion path'')
      else path_value x bs p)"

definition indexed_values :: "heap \<Rightarrow> ext \<Rightarrow> index_manifest \<Rightarrow> bytes \<Rightarrow> nat \<Rightarrow> value list \<Rightarrow> value list res" where
  "indexed_values h x d bs seq sampled =
     (if mf_kind d = KLastWrite then Inr [Number (show_nat seq)]
      else if length (mf_paths d) = 1 then
        (if mf_kind d = KToken \<or> mf_kind d = KTrigram then term_values h x (mf_kind d) sampled else Inr sampled)
      else rbind (mapM (tuple_part x bs) (mf_paths d)) (\<lambda>tuple. Inr [Array tuple]))"

definition token_terms :: "index_manifest \<Rightarrow> value list \<Rightarrow> string list" where
  "token_terms d values =
     (if mf_kind d = KToken then sort (remdups (List.map_filter (\<lambda>v. case v of String s \<Rightarrow> Some s | _ \<Rightarrow> None) values)) else [])"

definition write_value_row :: "heap \<Rightarrow> old_form \<Rightarrow> ext \<Rightarrow> index_manifest \<Rightarrow> string \<Rightarrow> bytes \<Rightarrow> nat \<Rightarrow> bool \<Rightarrow> value_index \<Rightarrow>
    (row_stats option \<times> row_stats \<times> value_index) res" where
  "write_value_row h old_form x d row bs seq fresh vi =
     rbind (if fresh then Inr (None, vi) else remove_value_row old_form x d row vi) (\<lambda>(old, vi).
     rbind (sampled_values x d bs seq) (\<lambda>sampled.
     rbind (row_stats_new x row (length bs) sampled) (\<lambda>stats.
     rbind (indexed_values h x d bs seq sampled) (\<lambda>values.
     let stats = (if 1 < length (mf_paths d)
           then stats\<lparr>rs_unorderable := bool_count (list_ex (\<lambda>v. case encode (raw_token x) v of Inl _ \<Rightarrow> True | Inr _ \<Rightarrow> False) values)\<rparr>
           else stats);
         terms = token_terms d values
     in rbind (mapM (\<lambda>v. definition_key x d v row) values) (\<lambda>ks.
     let keys = sort (remdups ks)
     in rbind (encode_reverse x row \<lparr>rv_keys = keys, rv_terms = terms, rv_stats = Some (stats\<lparr>rs_values := []\<rparr>)\<rparr>) (\<lambda>rev.
     Inr (old, stats, \<lparr>vi_entries = foldl (\<lambda>t k. tbl_insert t k row) (vi_entries vi) keys, vi_reverse = tbl_insert (vi_reverse vi) row rev,
       vi_terms = foldl count_term (vi_terms vi) terms\<rparr>)))))))"

definition index_write_row :: "heap \<Rightarrow> old_form \<Rightarrow> ext \<Rightarrow> index_manifest \<Rightarrow> string \<Rightarrow> bytes \<Rightarrow> nat \<Rightarrow> index_state \<Rightarrow>
    (row_stats option \<times> row_stats \<times> index_state) res" where
  "index_write_row h old_form x d row bs seq ix =
     (if uses_postings (mf_kind d)
      then rbind (trigram_inputs h x (mf_kind d) (case mf_paths d of p # _ \<Rightarrow> Some p | [] \<Rightarrow> None) row bs) (\<lambda>(grams, stats).
        rbind (tri_write (is_tri ix) row grams stats) (\<lambda>(old, tri). Inr (old, stats, ix\<lparr>is_tri := tri\<rparr>)))
      else rbind (write_value_row h old_form x d row bs seq False (is_value ix)) (\<lambda>(old, stats, vi). Inr (old, stats, ix\<lparr>is_value := vi\<rparr>)))"

section \<open>An entry names its row\<close>

lemma code_splits:
  assumes "raw_numbers (raw_token x)" "value_ok v" "value_ok w" "encode_equality (raw_token x) v = Inr a" "encode_equality (raw_token x) w = Inr b"
    "a @ s = b @ t"
  shows "a = b" "s = t"
  using encode_cmp[OF assms(1-3) assms(4,5)[unfolded encode_equality_def]] assms(6) by blast+

lemma map_NOT_twice [simp]: "map NOT (map NOT (xs :: bytes)) = xs"
  by (induction xs) simp_all

lemma key_part_splits:
  assumes "raw_numbers (raw_token x)" "value_ok v" "value_ok w" "key_part x d (i, v) = Inr a" "key_part x d (i, w) = Inr b" "a @ s = b @ t"
  shows "a = b" "s = t"
proof -
  obtain p q where pq: "encode_equality (raw_token x) v = Inr p" "encode_equality (raw_token x) w = Inr q"
    "a = (if direction_at d i = Some Desc then map NOT p else p)" "b = (if direction_at d i = Some Desc then map NOT q else q)"
    using assms(4,5) by (auto simp: key_part_def)
  have "a = b \<and> s = t"
  proof (cases "direction_at d i = Some Desc")
    case True
    then have "map NOT (map NOT p @ s) = map NOT (map NOT q @ t)" using assms(6) pq by simp
    then have "p @ map NOT s = q @ map NOT t" by (simp only: map_append map_NOT_twice)
    note c = code_splits[OF assms(1-3) pq(1,2) this]
    then show ?thesis using pq True by (metis map_NOT_twice)
  next
    case False
    then show ?thesis using code_splits[OF assms(1-3) pq(1,2)] assms(6) pq(3,4) by simp
  qed
  then show "a = b" "s = t" by auto
qed

lemma key_parts_split:
  assumes "raw_numbers (raw_token x)" "length vs = length ws" "list_all value_ok vs" "list_all value_ok ws"
    "mapM (key_part x d) (zip is vs) = Inr as" "mapM (key_part x d) (zip is ws) = Inr bs" "concat as @ s = concat bs @ t"
  shows "as = bs \<and> s = t"
  using assms(2-)
proof (induction vs ws arbitrary: "is" as bs rule: list_induct2)
  case (Cons v vs w ws)
  show ?case
  proof (cases "is")
    case (Cons i js)
    then obtain a as' b bs' where c: "key_part x d (i, v) = Inr a" "mapM (key_part x d) (zip js vs) = Inr as'" "as = a # as'"
      "key_part x d (i, w) = Inr b" "mapM (key_part x d) (zip js ws) = Inr bs'" "bs = b # bs'"
      using Cons.prems(3,4) by auto
    have e: "a @ concat as' @ s = b @ concat bs' @ t" using Cons.prems(5) c(3,6) by simp
    have ok: "value_ok v" "value_ok w" using Cons.prems(1,2) by auto
    note k = key_part_splits[OF assms(1) ok c(1,4) e]
    then show ?thesis using Cons.IH[OF _ _ c(2,5) k(2)] Cons.prems(1,2) c(3,6) by auto
  qed (use Cons in auto)
qed auto

text \<open>The values an index may store of a row.\<close>

definition storable :: "index_manifest \<Rightarrow> value \<Rightarrow> bool" where
  "storable d v \<longleftrightarrow> value_ok v \<and> (1 < length (mf_paths d) \<longrightarrow> (\<exists>vs. v = Array vs \<and> length vs = length (mf_paths d)))"

definition owns :: "ext \<Rightarrow> index_manifest \<Rightarrow> string \<Rightarrow> bytes \<Rightarrow> bool" where
  "owns x d row k \<longleftrightarrow> (\<exists>v. storable d v \<and> definition_key x d v row = Inr k)"

lemma suffix_inj: "row_suffix a = row_suffix b \<Longrightarrow> a = b"
  using text_code.code_eq_iff[of "as_bytes a" "as_bytes b"] by (simp add: row_suffix_def)

lemma owns_unique:
  assumes rn: "raw_numbers (raw_token x)" and o: "owns x d a k" "owns x d b k"
  shows "a = b"
proof -
  obtain v w where v: "storable d v" "definition_key x d v a = Inr k" and w: "storable d w" "definition_key x d w b = Inr k"
    using o by (auto simp: owns_def)
  have ok: "value_ok v" "value_ok w" using v(1) w(1) by (auto simp: storable_def)
  show ?thesis
  proof (cases "length (mf_paths d) \<le> 1")
    case True
    then obtain p q where "encode_equality (raw_token x) v = Inr p" "encode_equality (raw_token x) w = Inr q" "p @ row_suffix a = q @ row_suffix b"
      using v(2) w(2) by (auto simp: definition_key_def entry_key_def)
    then show ?thesis using code_splits(2)[OF rn ok] suffix_inj by blast
  next
    case False
    then obtain vs ws where vs: "v = Array vs" "w = Array ws" "length vs = length ws" using v(1) w(1) by (auto simp: storable_def)
    then obtain as bs where "mapM (key_part x d) (zip [0..<length vs] vs) = Inr as" "mapM (key_part x d) (zip [0..<length vs] ws) = Inr bs"
      "concat as @ 0 # row_suffix a = concat bs @ 0 # row_suffix b"
      using v(2) w(2) False by (auto simp: definition_key_def)
    then show ?thesis using key_parts_split[OF rn vs(3), of d "[0..<length vs]"] ok vs suffix_inj by (fastforce simp: list_all_iff)
  qed
qed

section \<open>What a value index holds\<close>

text \<open>\<open>held\<close> is the set of entries of every row the index knows.\<close>

definition vi_holds :: "old_form \<Rightarrow> ext \<Rightarrow> index_manifest \<Rightarrow> value_index \<Rightarrow> (string \<rightharpoonup> bytes set) \<Rightarrow> bool" where
  "vi_holds old_form x d vi held \<longleftrightarrow> tbl_ok (vi_entries vi) \<and> tbl_ok (vi_reverse vi) \<and>
     (\<forall>row. case tbl_get (vi_reverse vi) row of
        None \<Rightarrow> held row = None
      | Some v \<Rightarrow> (\<exists>r. decode_reverse old_form x row v = Inr r \<and> held row = Some (set (rv_keys r)))) \<and>
     (\<forall>row K k. held row = Some K \<longrightarrow> k \<in> K \<longrightarrow> owns x d row k) \<and>
     (\<forall>k row. tbl_get (vi_entries vi) k = Some row \<longleftrightarrow> (\<exists>K. held row = Some K \<and> k \<in> K))"

lemma tbl_remove_all:
  "tbl_ok t \<Longrightarrow> tbl_ok (foldl tbl_remove t ks) \<and> (\<forall>k. tbl_get (foldl tbl_remove t ks) k = (if k \<in> set ks then None else tbl_get t k))"
  by (induction ks arbitrary: t) auto

lemma tbl_insert_each:
  "tbl_ok t \<Longrightarrow> tbl_ok (foldl (\<lambda>t k. tbl_insert t k v) t ks) \<and>
    (\<forall>k. tbl_get (foldl (\<lambda>t k. tbl_insert t k v) t ks) k = (if k \<in> set ks then Some v else tbl_get t k))"
  by (induction ks arbitrary: t) auto

lemma remove_value_row_removes:
  assumes rn: "raw_numbers (raw_token x)" and h: "vi_holds old_form x d vi held"
  shows "\<exists>st vi'. remove_value_row old_form x d row vi = Inr (st, vi') \<and> vi_holds old_form x d vi' (held(row := None))"
proof (cases "tbl_get (vi_reverse vi) row")
  case None
  then have "held row = None" using h by (auto simp: vi_holds_def dest: spec[of _ row])
  then have "held(row := None) = held" by auto
  then show ?thesis using None h by (simp add: remove_value_row_def)
next
  case (Some v)
  have t: "tbl_ok (vi_entries vi)" "tbl_ok (vi_reverse vi)"
    and rev: "\<And>row. case tbl_get (vi_reverse vi) row of None \<Rightarrow> held row = None
      | Some v \<Rightarrow> (\<exists>r. decode_reverse old_form x row v = Inr r \<and> held row = Some (set (rv_keys r)))"
    and own: "\<And>row K k. held row = Some K \<Longrightarrow> k \<in> K \<Longrightarrow> owns x d row k"
    and ent: "\<And>k row. tbl_get (vi_entries vi) k = Some row \<longleftrightarrow> (\<exists>K. held row = Some K \<and> k \<in> K)"
    using h unfolding vi_holds_def by blast+
  obtain r where r: "decode_reverse old_form x row v = Inr r" "held row = Some (set (rv_keys r))" using rev[of row] Some by auto
  define vi' where "vi' = \<lparr>vi_entries = foldl tbl_remove (vi_entries vi) (rv_keys r), vi_reverse = tbl_remove (vi_reverse vi) row,
    vi_terms = (if mf_kind d = KToken then foldl forget_term (vi_terms vi) (rv_terms r) else vi_terms vi)\<rparr>"
  note e = tbl_remove_all[OF t(1), of "rv_keys r"]
  have "tbl_get (vi_entries vi') k = Some a \<longleftrightarrow> (\<exists>K. (held(row := None)) a = Some K \<and> k \<in> K)" for k a
  proof (cases "k \<in> set (rv_keys r)")
    case True
    then have "a = row" if "held a = Some K" "k \<in> K" for K using own[OF that] own[OF r(2) True] owns_unique[OF rn] by blast
    then show ?thesis using True e by (auto simp: vi'_def)
  next
    case False
    then show ?thesis using e ent[of k a] r(2) by (auto simp: vi'_def)
  qed
  moreover have "tbl_ok (vi_entries vi')" "tbl_ok (vi_reverse vi')" using e t by (simp_all add: vi'_def)
  moreover have "case tbl_get (vi_reverse vi') a of None \<Rightarrow> (held(row := None)) a = None
      | Some v \<Rightarrow> (\<exists>r. decode_reverse old_form x a v = Inr r \<and> (held(row := None)) a = Some (set (rv_keys r)))" for a
    using rev[of a] t(2) by (cases "a = row") (simp_all add: vi'_def cong: option.case_cong)
  ultimately have "vi_holds old_form x d vi' (held(row := None))" unfolding vi_holds_def using own by simp
  then show ?thesis using Some r(1) by (simp add: remove_value_row_def vi'_def)
qed

text \<open>What the source computes of a row before it touches the tables.\<close>

definition row_keys :: "heap \<Rightarrow> ext \<Rightarrow> index_manifest \<Rightarrow> string \<Rightarrow> bytes \<Rightarrow> nat \<Rightarrow> bytes set res" where
  "row_keys h x d row bs seq =
     rbind (sampled_values x d bs seq) (\<lambda>sampled.
     rbind (row_stats_new x row (length bs) sampled) (\<lambda>_.
     rbind (indexed_values h x d bs seq sampled) (\<lambda>values.
     rbind (mapM (\<lambda>v. definition_key x d v row) values) (\<lambda>ks. Inr (set ks)))))"

text \<open>The values of a row are values of their types, and its sizes fit the machine.\<close>

definition row_fits :: "heap \<Rightarrow> ext \<Rightarrow> index_manifest \<Rightarrow> string \<Rightarrow> bytes \<Rightarrow> nat \<Rightarrow> bool" where
  "row_fits h x d row bs seq \<longleftrightarrow> length bs \<le> u64_max \<and> length row \<le> u64_max \<and>
     (\<forall>sampled values ks. sampled_values x d bs seq = Inr sampled \<longrightarrow> indexed_values h x d bs seq sampled = Inr values \<longrightarrow>
       mapM (\<lambda>v. definition_key x d v row) values = Inr ks \<longrightarrow>
       length sampled \<le> u64_max \<and> list_all (storable d) values \<and> length ks \<le> u64_max \<and> (\<forall>k \<in> set ks. length k \<le> u64_max) \<and>
       length (token_terms d values) \<le> u64_max \<and> (\<forall>t \<in> set (token_terms d values). is_str t \<and> length t \<le> u64_max))"

lemma row_stats_new_ok:
  assumes "row_stats_new x row n sampled = Inr st" "n \<le> u64_max" "length row \<le> u64_max" "length sampled \<le> u64_max"
  shows "counters_ok row (st\<lparr>rs_values := []\<rparr>)" "counters_ok row (st\<lparr>rs_unorderable := bool_count b, rs_values := []\<rparr>)"
  using assms by (auto simp: row_stats_new_def counters_ok_def bool_count_def u64_max_def)

lemma vi_holds_insert:
  assumes rn: "raw_numbers (raw_token x)" and h: "vi_holds old_form x d vi held" and row: "held row = None"
    and own: "\<forall>k \<in> set keys. owns x d row k" and rev: "decode_reverse old_form x row v = Inr r" "set (rv_keys r) = set keys"
  shows "vi_holds old_form x d \<lparr>vi_entries = foldl (\<lambda>t k. tbl_insert t k row) (vi_entries vi) keys, vi_reverse = tbl_insert (vi_reverse vi) row v,
    vi_terms = ts\<rparr> (held(row \<mapsto> set keys))" (is "vi_holds _ _ _ ?vi _")
proof -
  have t: "tbl_ok (vi_entries vi)" "tbl_ok (vi_reverse vi)"
    and reverse: "\<And>row. case tbl_get (vi_reverse vi) row of None \<Rightarrow> held row = None
      | Some v \<Rightarrow> (\<exists>r. decode_reverse old_form x row v = Inr r \<and> held row = Some (set (rv_keys r)))"
    and others: "\<And>row K k. held row = Some K \<Longrightarrow> k \<in> K \<Longrightarrow> owns x d row k"
    and ent: "\<And>k row. tbl_get (vi_entries vi) k = Some row \<longleftrightarrow> (\<exists>K. held row = Some K \<and> k \<in> K)"
    using h unfolding vi_holds_def by blast+
  note e = tbl_insert_each[OF t(1), of row keys]
  have "tbl_get (vi_entries ?vi) k = Some a \<longleftrightarrow> (\<exists>K. (held(row \<mapsto> set keys)) a = Some K \<and> k \<in> K)" for k a
  proof (cases "k \<in> set keys")
    case True
    then have "a = row" if "held a = Some K" "k \<in> K" for K using others[OF that] own owns_unique[OF rn] by blast
    then show ?thesis using True e by auto
  next
    case False
    then show ?thesis using e ent[of k a] row by auto
  qed
  moreover have "case tbl_get (vi_reverse ?vi) a of None \<Rightarrow> (held(row \<mapsto> set keys)) a = None
      | Some v \<Rightarrow> (\<exists>r. decode_reverse old_form x a v = Inr r \<and> (held(row \<mapsto> set keys)) a = Some (set (rv_keys r)))" for a
    using reverse[of a] t(2) rev by (cases "a = row") (simp_all cong: option.case_cong)
  moreover have "tbl_ok (vi_entries ?vi)" "tbl_ok (vi_reverse ?vi)" using e t by simp_all
  ultimately show ?thesis unfolding vi_holds_def using others own by simp
qed

lemma write_value_row_writes:
  assumes rn: "raw_numbers (raw_token x)" and h: "vi_holds old_form x d vi held" and k: "row_keys hp x d row bs seq = Inr K" and fits: "row_fits hp x d row bs seq"
  shows "\<exists>old st vi'. write_value_row hp old_form x d row bs seq False vi = Inr (old, st, vi') \<and> vi_holds old_form x d vi' (held(row \<mapsto> K))"
proof -
  obtain old vi1 where rm: "remove_value_row old_form x d row vi = Inr (old, vi1)" "vi_holds old_form x d vi1 (held(row := None))"
    using remove_value_row_removes[OF rn h] by blast
  obtain sampled stats vals ks where r: "sampled_values x d bs seq = Inr sampled" "row_stats_new x row (length bs) sampled = Inr stats"
    "indexed_values hp x d bs seq sampled = Inr vals" "mapM (\<lambda>v. definition_key x d v row) vals = Inr ks" "K = set ks"
    using k by (auto simp: row_keys_def)
  have f: "length bs \<le> u64_max" "length row \<le> u64_max" "length sampled \<le> u64_max" "list_all (storable d) vals" "length ks \<le> u64_max"
    "\<forall>k \<in> set ks. length k \<le> u64_max" "length (token_terms d vals) \<le> u64_max"
    "\<forall>t \<in> set (token_terms d vals). is_str t \<and> length t \<le> u64_max" using fits r(1,3,4) by (auto simp: row_fits_def)
  let ?keys = "sort (remdups ks)"
  define st where "st = (if 1 < length (mf_paths d)
    then stats\<lparr>rs_unorderable := bool_count (list_ex (\<lambda>v. case encode (raw_token x) v of Inl _ \<Rightarrow> True | Inr _ \<Rightarrow> False) vals)\<rparr> else stats)"
  define rv where "rv = \<lparr>rv_keys = ?keys, rv_terms = token_terms d vals, rv_stats = Some (st\<lparr>rs_values := []\<rparr>)\<rparr>"
  have "length ?keys \<le> u64_max" using le_trans[OF length_remdups_leq f(5)] by simp
  then have ok: "reverse_ok row rv" using f row_stats_new_ok[OF r(2) f(1,2,3)] by (auto simp: reverse_ok_def rv_def st_def)
  obtain v where v: "encode_reverse x row rv = Inr v" by (simp add: encode_reverse_def)
  have own: "\<forall>k \<in> set ?keys. owns x d row k"
    using f(4) mapM_Inr_set[OF r(4)] by (fastforce simp: owns_def list_all_iff)
  have "vi_holds old_form x d \<lparr>vi_entries = foldl (\<lambda>t k. tbl_insert t k row) (vi_entries vi1) ?keys, vi_reverse = tbl_insert (vi_reverse vi1) row v,
    vi_terms = foldl count_term (vi_terms vi1) (token_terms d vals)\<rparr> ((held(row := None))(row \<mapsto> set ?keys))"
    by (rule vi_holds_insert[OF rn rm(2) _ own reverse_back[OF ok v]]) (simp_all add: rv_def)
  then show ?thesis using rm(1) r v unfolding write_value_row_def rv_def st_def by (simp add: Let_def)
qed

section \<open>An index follows the changes of its table\<close>

datatype row_change = RowPut string bytes nat | RowDel string

type_synonym rows = "string \<rightharpoonup> bytes \<times> nat"

fun apply_change :: "rows \<Rightarrow> row_change \<Rightarrow> rows" where
  "apply_change m (RowPut row bs seq) = m(row \<mapsto> (bs, seq))"
| "apply_change m (RowDel row) = m(row := None)"

fun run_change :: "heap \<Rightarrow> old_form \<Rightarrow> ext \<Rightarrow> index_manifest \<Rightarrow> index_state \<Rightarrow> row_change \<Rightarrow> index_state res" where
  "run_change h old_form x d ix (RowPut row bs seq) = rbind (index_write_row h old_form x d row bs seq ix) (\<lambda>(_, _, ix). Inr ix)"
| "run_change h old_form x d ix (RowDel row) = rbind (remove_row old_form x d row ix) (\<lambda>(_, ix). Inr ix)"

definition first_path :: "index_manifest \<Rightarrow> path option" where
  "first_path d = (case mf_paths d of p # _ \<Rightarrow> Some p | [] \<Rightarrow> None)"

definition terms_of :: "heap \<Rightarrow> ext \<Rightarrow> index_manifest \<Rightarrow> string \<Rightarrow> bytes \<times> nat \<Rightarrow> string list" where
  "terms_of h x d row r = (case trigram_inputs h x (mf_kind d) (first_path d) row (fst r) of Inr (grams, _) \<Rightarrow> grams | Inl _ \<Rightarrow> [])"

definition keys_of :: "heap \<Rightarrow> ext \<Rightarrow> index_manifest \<Rightarrow> string \<Rightarrow> bytes \<times> nat \<Rightarrow> bytes set" where
  "keys_of h x d row r = (case row_keys h x d row (fst r) (snd r) of Inr K \<Rightarrow> K | Inl _ \<Rightarrow> {})"

text \<open>The index of a table: its entries, or its terms, are exactly those of the rows.\<close>

definition index_holds :: "heap \<Rightarrow> old_form \<Rightarrow> ext \<Rightarrow> index_manifest \<Rightarrow> index_state \<Rightarrow> rows \<Rightarrow> bool" where
  "index_holds h old_form x d ix rows \<longleftrightarrow>
     (if uses_postings (mf_kind d)
      then tri_ok (is_tri ix) \<and> grams_of (is_tri ix) = (\<lambda>row. map_option (\<lambda>r. set (terms_of h x d row r)) (rows row))
      else vi_holds old_form x d (is_value ix) (\<lambda>row. map_option (keys_of h x d row) (rows row)))"

text \<open>A row the index can take: its values are read and encoded, and its sizes fit the machine.\<close>

fun change_ok :: "heap \<Rightarrow> ext \<Rightarrow> index_manifest \<Rightarrow> row_change \<Rightarrow> bool" where
  "change_ok h x d (RowPut row bs seq) \<longleftrightarrow>
     (if uses_postings (mf_kind d) then (\<exists>grams st. trigram_inputs h x (mf_kind d) (first_path d) row bs = Inr (grams, st) \<and> stats_ok st)
      else (\<exists>K. row_keys h x d row bs seq = Inr K) \<and> row_fits h x d row bs seq)"
| "change_ok h x d (RowDel row) \<longleftrightarrow> True"

fun change_terms :: "heap \<Rightarrow> ext \<Rightarrow> index_manifest \<Rightarrow> row_change \<Rightarrow> nat" where
  "change_terms h x d (RowPut row bs seq) = (if uses_postings (mf_kind d) then length (terms_of h x d row (bs, seq)) else 0)"
| "change_terms h x d (RowDel row) = 0"

lemma trigram_inputs_sorted: "trigram_inputs h x k p row bs = Inr (grams, st) \<Longrightarrow> sorted_wrt (<) grams"
  using gather_terms_sorted[of h x k "[]"] by (auto simp: trigram_inputs_def)

lemma run_change_value:
  assumes rn: "raw_numbers (raw_token x)" and k: "\<not> uses_postings (mf_kind d)" and ix: "index_holds h old_form x d ix rows" and c: "change_ok h x d c"
  shows "\<exists>ix'. run_change h old_form x d ix c = Inr ix' \<and> index_holds h old_form x d ix' (apply_change rows c) \<and> is_tri ix' = is_tri ix"
proof (cases c)
  case (RowPut row bs seq)
  let ?held = "\<lambda>row. map_option (keys_of h x d row) (rows row)"
  obtain K where K: "row_keys h x d row bs seq = Inr K" "row_fits h x d row bs seq" using c k RowPut by auto
  obtain old st vi where "write_value_row h old_form x d row bs seq False (is_value ix) = Inr (old, st, vi)" "vi_holds old_form x d vi (?held(row \<mapsto> K))"
    using write_value_row_writes[OF rn _ K, of old_form "is_value ix" ?held] ix k by (auto simp: index_holds_def)
  moreover have "?held(row \<mapsto> K) = (\<lambda>a. map_option (keys_of h x d a) ((rows(row \<mapsto> (bs, seq))) a))"
    using K(1) by (auto simp: fun_eq_iff keys_of_def)
  ultimately show ?thesis using k RowPut by (simp add: index_write_row_def index_holds_def)
next
  case (RowDel row)
  let ?held = "\<lambda>row. map_option (keys_of h x d row) (rows row)"
  obtain st vi where "remove_value_row old_form x d row (is_value ix) = Inr (st, vi)" "vi_holds old_form x d vi (?held(row := None))"
    using remove_value_row_removes[OF rn, of old_form d "is_value ix" ?held row] ix k by (auto simp: index_holds_def)
  moreover have "?held(row := None) = (\<lambda>a. map_option (keys_of h x d a) ((rows(row := None)) a))" by (auto simp: fun_eq_iff)
  ultimately show ?thesis using k RowDel by (simp add: remove_row_def index_holds_def)
qed

lemma run_change_terms:
  assumes k: "uses_postings (mf_kind d)" and ix: "index_holds h old_form x d ix rows" and c: "change_ok h x d c"
    and room: "tri_counter (is_tri ix) ''tri'' + change_terms h x d c \<le> 2 ^ 32" "tri_counter (is_tri ix) ''row'' \<le> u64_max"
  shows "\<exists>ix'. run_change h old_form x d ix c = Inr ix' \<and> index_holds h old_form x d ix' (apply_change rows c) \<and>
    tri_counter (is_tri ix') ''tri'' \<le> tri_counter (is_tri ix) ''tri'' + change_terms h x d c \<and>
    tri_counter (is_tri ix') ''row'' \<le> tri_counter (is_tri ix) ''row'' + 1"
proof (cases c)
  case (RowPut row bs seq)
  let ?g = "\<lambda>row. map_option (\<lambda>r. set (terms_of h x d row r)) (rows row)"
  obtain grams st where g: "trigram_inputs h x (mf_kind d) (first_path d) row bs = Inr (grams, st)" "stats_ok st" using c k RowPut by auto
  have t: "terms_of h x d row (bs, seq) = grams" using g by (simp add: terms_of_def)
  have "distinct grams" using trigram_inputs_sorted[OF g(1)] by (simp add: strict_sorted_iff)
  moreover have "tri_room (is_tri ix) grams" using room RowPut k t by (simp add: tri_room_def)
  ultimately obtain tri where w: "tri_write (is_tri ix) row grams st = Inr (map_option (\<lambda>r. record_stats r row) (rec_of (is_tri ix) row), tri)" "tri_ok tri"
    "grams_of tri = ?g(row \<mapsto> set grams)" "tri_counter tri ''tri'' \<le> tri_counter (is_tri ix) ''tri'' + length grams"
    "tri_counter tri ''row'' \<le> tri_counter (is_tri ix) ''row'' + 1"
    using tri_write_writes[of "is_tri ix" grams st row] ix k g(2) by (auto simp: index_holds_def)
  have "?g(row \<mapsto> set grams) = (\<lambda>a. map_option (\<lambda>r. set (terms_of h x d a r)) ((rows(row \<mapsto> (bs, seq))) a))" using t by (auto simp: fun_eq_iff)
  then show ?thesis using w k RowPut g(1) t by (simp add: index_write_row_def index_holds_def first_path_def)
next
  case (RowDel row)
  let ?g = "\<lambda>row. map_option (\<lambda>r. set (terms_of h x d row r)) (rows row)"
  obtain tri where "tri_remove (is_tri ix) row = Inr (map_option (\<lambda>r. record_stats r row) (rec_of (is_tri ix) row), tri)" "tri_ok tri"
    "grams_of tri = ?g(row := None)" "tri_counter tri = tri_counter (is_tri ix)"
    using tri_remove_removes[of "is_tri ix" row] ix k by (auto simp: index_holds_def)
  moreover have "?g(row := None) = (\<lambda>a. map_option (\<lambda>r. set (terms_of h x d a r)) ((rows(row := None)) a))" by (auto simp: fun_eq_iff)
  ultimately show ?thesis using k RowDel by (simp add: remove_row_def index_holds_def)
qed

lemma create_tables_hold: "index_holds h old_form x d create_tables (\<lambda>_. None)" "tri_counter (is_tri create_tables) = (\<lambda>_. 0)"
  using tri_create_ok by (auto simp: index_holds_def create_tables_def vi_holds_def)

lemma index_follows:
  assumes rn: "raw_numbers (raw_token x)" and ix: "index_holds h old_form x d ix rows"
    and "\<forall>c \<in> set ops. change_ok h x d c" "tri_counter (is_tri ix) ''tri'' + sum_list (map (change_terms h x d) ops) \<le> 2 ^ 32"
    "tri_counter (is_tri ix) ''row'' + length ops \<le> u64_max"
  shows "\<exists>ix'. foldM (run_change h old_form x d) ix ops = Inr ix' \<and> index_holds h old_form x d ix' (foldl apply_change rows ops)"
  using assms(2-)
proof (induction ops arbitrary: ix rows)
  case (Cons c ops)
  have "\<exists>ix1. run_change h old_form x d ix c = Inr ix1 \<and> index_holds h old_form x d ix1 (apply_change rows c) \<and>
    tri_counter (is_tri ix1) ''tri'' \<le> tri_counter (is_tri ix) ''tri'' + change_terms h x d c \<and>
    tri_counter (is_tri ix1) ''row'' \<le> tri_counter (is_tri ix) ''row'' + 1"
  proof (cases "uses_postings (mf_kind d)")
    case True
    show ?thesis by (rule run_change_terms[OF True Cons.prems(1)]) (use Cons.prems(2-4) in auto)
  next
    case False
    then show ?thesis using run_change_value[OF rn False Cons.prems(1), of c] Cons.prems(2) by fastforce
  qed
  then obtain ix1 where c: "run_change h old_form x d ix c = Inr ix1" "index_holds h old_form x d ix1 (apply_change rows c)"
    "tri_counter (is_tri ix1) ''tri'' \<le> tri_counter (is_tri ix) ''tri'' + change_terms h x d c"
    "tri_counter (is_tri ix1) ''row'' \<le> tri_counter (is_tri ix) ''row'' + 1" by blast
  have "\<exists>ix'. foldM (run_change h old_form x d) ix1 ops = Inr ix' \<and> index_holds h old_form x d ix' (foldl apply_change (apply_change rows c) ops)"
    by (rule Cons.IH[OF c(2)]) (use Cons.prems(2-4) c(3,4) in auto)
  then show ?case using c(1) by simp
qed simp

text \<open>The changes of a table that an index of it can follow.\<close>

definition followable :: "heap \<Rightarrow> ext \<Rightarrow> index_manifest \<Rightarrow> row_change list \<Rightarrow> bool" where
  "followable h x d ops \<longleftrightarrow> raw_numbers (raw_token x) \<and> (\<forall>c \<in> set ops. change_ok h x d c) \<and>
     sum_list (map (change_terms h x d) ops) \<le> 2 ^ 32 \<and> length ops \<le> u64_max"

lemma followed_holds:
  assumes "followable h x d ops"
  shows "\<exists>ix. foldM (run_change h old_form x d) create_tables ops = Inr ix \<and> index_holds h old_form x d ix (foldl apply_change (\<lambda>_. None) ops)"
  using assms index_follows[OF _ create_tables_hold(1)] create_tables_hold(2) by (simp add: followable_def)

text \<open>C38. A value or token index is exact. After any run of row writes and removals that reads and encodes the values of the rows, every
  call has succeeded, and the entries of the index are exactly the entries of the rows the table holds: each key leads to the one
  row it was made from, no entry of an older version of a row is left, and none is missing.\<close>

theorem value_index_exact:
  assumes "followable h x d ops" "\<not> uses_postings (mf_kind d)"
  shows "\<exists>ix. foldM (run_change h old_form x d) create_tables ops = Inr ix \<and>
    (\<forall>k row. tbl_get (vi_entries (is_value ix)) k = Some row \<longleftrightarrow>
      (\<exists>r. foldl apply_change (\<lambda>_. None) ops row = Some r \<and> k \<in> keys_of h x d row r))"
proof -
  obtain ix where ix: "foldM (run_change h old_form x d) create_tables ops = Inr ix" "index_holds h old_form x d ix (foldl apply_change (\<lambda>_. None) ops)"
    using followed_holds[OF assms(1)] by blast
  then show ?thesis using assms(2) by (auto simp: index_holds_def vi_holds_def)
qed

text \<open>A value index of a table of texts, and the one row put into it.\<close>

definition text_index :: index_manifest where
  "text_index = \<lparr>mf_id = 0, mf_table = ''t'', mf_paths = [root_path], mf_kind = KValue, mf_directions = [], mf_ready = True, mf_active = True\<rparr>"

definition hello_put :: row_change where "hello_put = RowPut ''r1'' (as_bytes ''hello'') 0"

lemma text_index_simps [simp]: "mf_kind text_index = KValue" "mf_paths text_index = [root_path]" "mf_id text_index = 0"
  "definition_key x text_index = entry_key x" "storable text_index = value_ok" "token_terms text_index vs = []"
  by (auto simp: text_index_def definition_key_def storable_def token_terms_def fun_eq_iff)

lemma hello_values: "sampled_values text_ext text_index (as_bytes ''hello'') 0 = Inr [String ''hello'']"
  "indexed_values roomy text_ext text_index (as_bytes ''hello'') 0 [String ''hello''] = Inr [String ''hello'']"
  using sample_values_of by (simp_all add: sampled_values_def indexed_values_def)

lemma hello_key: "entry_key text_ext (String ''hello'') ''r1'' = Inr (7 # as_bytes ''hello'' @ [0, 0] @ 7 # as_bytes ''r1'' @ [0, 0])"
  by code_simp

lemma hello_row: "row_keys roomy text_ext text_index ''r1'' (as_bytes ''hello'') 0 = Inr {7 # as_bytes ''hello'' @ [0, 0] @ 7 # as_bytes ''r1'' @ [0, 0]}"
proof -
  obtain e where "sample_values text_ext 0 [] [String ''hello''] = Inr e" by (fastforce simp: encode_equality_def split: if_splits)
  then show ?thesis using hello_key
    by (simp add: row_keys_def hello_values row_stats_new_def del: sample_values.simps)
qed

lemma hello_followable: "followable roomy text_ext text_index [hello_put]"
proof -
  have "row_fits roomy text_ext text_index ''r1'' (as_bytes ''hello'') 0"
    using hello_key by (auto simp: row_fits_def hello_values u64_max_def)
  then show ?thesis using hello_row raw_numbers_plain by (simp add: followable_def hello_put_def uses_postings_def u64_max_def text_ext_def)
qed

theorem value_index_exact_witness:
  "\<exists>ix. foldM (run_change roomy (\<lambda>_. None) text_ext text_index) create_tables [hello_put] = Inr ix \<and>
    tbl_get (vi_entries (is_value ix)) (7 # as_bytes ''hello'' @ [0, 0] @ 7 # as_bytes ''r1'' @ [0, 0]) = Some ''r1''"
proof -
  obtain ix where "foldM (run_change roomy (\<lambda>_. None) text_ext text_index) create_tables [hello_put] = Inr ix"
    "\<forall>k row. tbl_get (vi_entries (is_value ix)) k = Some row \<longleftrightarrow>
      (\<exists>r. foldl apply_change (\<lambda>_. None) [hello_put] row = Some r \<and> k \<in> keys_of roomy text_ext text_index row r)"
    using value_index_exact[OF hello_followable, of "\<lambda>_. None"] unfolding uses_postings_def text_index_simps by blast
  moreover from this have "tbl_get (vi_entries (is_value ix)) (7 # as_bytes ''hello'' @ [0, 0] @ 7 # as_bytes ''r1'' @ [0, 0]) = Some ''r1''"
    by (simp add: keys_of_def hello_row hello_put_def)
  ultimately show ?thesis by blast
qed

end
