(* ===== verification/Index_Plan.thy ===== *)
theory Index_Plan
  imports Index_Value
begin

text \<open>
  Plans over indexes (\<^verbatim>\<open>src/indexes/planner.rs\<close>: \<open>leaf\<close>, \<open>filters\<close>; \<^verbatim>\<open>src/indexes/execution.rs\<close>): which index ranges stand for a condition, and what
  executing them gives. A recipe whose \<open>covered\<close> flag is set is trusted: its rows are counted without reading them. The theory shows that
  a covered plan gives exactly the rows the evaluator accepts and any other plan gives at least those, and it shows the one case in which
  the planner does not: ordered comparisons of booleans. Estimated costs only choose between recipes; they are not modelled.
\<close>

section \<open>Executing a plan\<close>

text \<open>One scan of the entries: from the lower bound on, while the key is below_bound the upper bound.\<close>

definition below_bound :: "bytes option \<Rightarrow> bytes \<Rightarrow> bool" where
  "below_bound upper k \<longleftrightarrow> (case upper of Some u \<Rightarrow> k < u | None \<Rightarrow> True)"

definition from_bound :: "bytes option \<Rightarrow> bytes \<Rightarrow> bool" where
  "from_bound lower k \<longleftrightarrow> (case lower of Some l \<Rightarrow> l \<le> k | None \<Rightarrow> True)"

definition empty_range :: "bytes option \<Rightarrow> bytes option \<Rightarrow> bool" where
  "empty_range lower upper \<longleftrightarrow> (case (lower, upper) of (Some a, Some b) \<Rightarrow> b \<le> a | _ \<Rightarrow> False)"

definition scan :: "(bytes, string) table \<Rightarrow> bytes option \<Rightarrow> bytes option \<Rightarrow> (bytes \<times> string) list" where
  "scan t lower upper = (if empty_range lower upper then []
     else takeWhile (\<lambda>(k, _). below_bound upper k) (dropWhile (\<lambda>(k, _). \<not> from_bound lower k) t))"

definition charge :: "work \<Rightarrow> (bytes \<times> string) list \<Rightarrow> work" where
  "charge w es = w\<lparr>w_entries := w_entries w + length es, w_bytes := w_bytes w + sum_list (map (\<lambda>(k, row). length k + length row) es)\<rparr>"

text \<open>
  \<open>accept\<close> over the entries of a scan: the entries it visits, the rows it passes on, how many it has accepted, and whether it
  stopped the scan.
\<close>

fun accept_rows :: "string list option \<Rightarrow> nat option \<Rightarrow> nat \<Rightarrow> (bytes \<times> string) list \<Rightarrow> (bytes \<times> string) list \<times> string list \<times> nat \<times> bool" where
  "accept_rows allowed limit n [] = ([], [], n, False)"
| "accept_rows allowed limit n (e # es) =
     (if (case allowed of Some a \<Rightarrow> snd e \<notin> set a | None \<Rightarrow> False)
      then (let (vis, out, m, stop) = accept_rows allowed limit n es in (e # vis, out, m, stop))
      else if (case limit of Some l \<Rightarrow> n + 1 < l | None \<Rightarrow> True)
      then (let (vis, out, m, stop) = accept_rows allowed limit (n + 1) es in (e # vis, snd e # out, m, stop))
      else ([e], [snd e], n + 1, True))"

definition below_rows :: "(bytes, string) table \<Rightarrow> bytes option \<Rightarrow> (bytes, string) table" where
  "below_rows t upper = filter (\<lambda>(k, _). below_bound upper k) t"

definition starts_with_bytes :: "bytes \<Rightarrow> bytes \<Rightarrow> bool" where
  "starts_with_bytes k p \<longleftrightarrow> take (length p) k = p"

text \<open>The loop of \<open>ordered\<close> over groups of equal values, from the end.\<close>

lemma below_rows_shrink:
  assumes "last_row (below_rows t nu) = Some (k, row)" "p = take n k"
  shows "length (below_rows t (Some p)) < length (below_rows t nu)"
proof -
  have k: "(k, row) \<in> set t" "below_bound nu k" using assms(1) last_in_set[of "below_rows t nu"]
    by (auto simp: last_row_def below_rows_def split: if_splits)
  have le: "p \<le> k" using bcmp_longer(2)[of p] assms(2) by (metis append_Nil2 append_take_drop_id bcmp_iff(1) less_imp_le list.exhaust order_refl)
  have "below_bound nu a" if "a < p" for a using that le k(2) by (auto simp: below_bound_def split: option.splits)
  then have "below_rows t (Some p) = filter (\<lambda>(a, _). a < p) (below_rows t nu)"
    by (auto simp: below_rows_def below_bound_def intro!: filter_cong)
  moreover have "(k, row) \<in> set (below_rows t nu)" "\<not> k < p" using k le by (auto simp: below_rows_def)
  ultimately show ?thesis using length_filter_less[of "(k, row)" "below_rows t nu" "\<lambda>(a, _). a < p"] by simp
qed

function ordered_back :: "ext \<Rightarrow> (bytes, string) table \<Rightarrow> bytes option \<Rightarrow> bytes option \<Rightarrow> string list option \<Rightarrow> nat option \<Rightarrow>
    bytes option \<Rightarrow> nat \<Rightarrow> work \<Rightarrow> (string list \<times> work) res" where
  "ordered_back x t lower upper allowed limit next_upper n w =
     (case last_row (below_rows t next_upper) of
        None \<Rightarrow> Inr ([], w)
      | Some (k, row) \<Rightarrow>
          if \<not> from_bound lower k then Inr ([], w)
          else if \<not> ends_with k (row_suffix row) then Inl (Validation ''corrupt index row suffix'')
          else (let p = take (length k - length (row_suffix row)) k;
                    group = takeWhile (\<lambda>(k, _). starts_with_bytes k p \<and> below_bound upper k) (dropWhile (\<lambda>(k, _). k < p) t);
                    (vis, out, n, stop) = accept_rows allowed limit n group; w = charge w vis
                in if stop then Inr (out, w)
                   else rbind (ordered_back x t lower upper allowed limit (Some p) n w) (\<lambda>(rest, w). Inr (out @ rest, w))))"
  by pat_completeness auto
termination
  by (relation "measure (\<lambda>(x, t, lower, upper, allowed, limit, nu, n, w). length (below_rows t nu))") (auto dest: below_rows_shrink)

declare ordered_back.simps [simp del]

text \<open>
  The pair of a query: the tables of every index by its number. The token dictionary of a fuzzy condition is an automaton of the
  \<open>fst\<close> crate; the parameter \<open>fuzzy\<close> answers which of its tokens are within the distance.
\<close>

record pair =
  pr_index :: "nat \<Rightarrow> index_state"
  pr_fuzzy :: "index_manifest \<Rightarrow> string \<Rightarrow> nat \<Rightarrow> string list res"

definition entries_of :: "pair \<Rightarrow> index_manifest \<Rightarrow> (bytes, string) table" where
  "entries_of pr d = vi_entries (is_value (pr_index pr (mf_id d)))"

definition tri_of :: "pair \<Rightarrow> nat \<Rightarrow> tri_index" where
  "tri_of pr i = is_tri (pr_index pr i)"

definition ordered_rows :: "ext \<Rightarrow> (bytes, string) table \<Rightarrow> bytes option \<Rightarrow> bytes option \<Rightarrow> bool \<Rightarrow> string list option \<Rightarrow> nat option \<Rightarrow>
    work \<Rightarrow> (string list \<times> work) res" where
  "ordered_rows x t lower upper back allowed limit w =
     (if \<not> back then (let (vis, out, _, _) = accept_rows allowed limit 0 (scan t lower upper) in Inr (out, charge w vis))
      else ordered_back x t lower upper allowed limit upper 0 w)"

definition as_set :: "string list \<Rightarrow> string list" where
  "as_set xs = sort (remdups xs)"

text \<open>The last byte that is not the greatest, plus one: the first key after every key with this prefix.\<close>

definition end_key :: "bytes \<Rightarrow> bytes option" where
  "end_key p = (case dropWhile (\<lambda>b. b = 255) (rev p) of [] \<Rightarrow> None | b # r \<Rightarrow> Some (rev r @ [b + 1]))"

definition token_scan :: "ext \<Rightarrow> (bytes, string) table \<Rightarrow> string \<Rightarrow> (bytes \<times> string) list res" where
  "token_scan x t token = rbind (encode_equality (raw_token x) (String token)) (\<lambda>key.
     Inr (scan t (Some key) (Some (case end_key key of Some u \<Rightarrow> u | None \<Rightarrow> key))))"

fun fuzzy_scan :: "ext \<Rightarrow> (bytes, string) table \<Rightarrow> string list \<Rightarrow> work \<Rightarrow> (string list \<times> work) res" where
  "fuzzy_scan x t [] w = Inr ([], w)"
| "fuzzy_scan x t (token # ts) w = rbind (token_scan x t token) (\<lambda>es.
     rbind (fuzzy_scan x t ts (charge w es)) (\<lambda>(out, w). Inr (map snd es @ out, w)))"

fun node_set :: "ext \<Rightarrow> pair \<Rightarrow> node \<Rightarrow> work \<Rightarrow> (string list \<times> work) res" where
  "node_set x pr (NPostings d g) w = postings_keys (tri_of pr) (NPostings d g) w"
| "node_set x pr (NRange d lower upper dedup) w =
     (let es = scan (entries_of pr d) lower upper in Inr (as_set (map snd es), charge w es))"
| "node_set x pr (NIntersection a b) w =
     (if pure_node (NIntersection a b) \<noteq> None then postings_keys (tri_of pr) (NIntersection a b) w
      else rbind (node_set x pr a w) (\<lambda>(xs, w). rbind (node_set x pr b w) (\<lambda>(ys, w). Inr (filter (\<lambda>r. r \<in> set ys) xs, w))))"
| "node_set x pr (NUnion a b) w =
     (if pure_node (NUnion a b) \<noteq> None then postings_keys (tri_of pr) (NUnion a b) w
      else rbind (node_set x pr a w) (\<lambda>(xs, w). rbind (node_set x pr b w) (\<lambda>(ys, w). Inr (as_set (xs @ ys), w))))"
| "node_set x pr (NFuzzy d term distance) w =
     rbind (pr_fuzzy pr d term distance) (\<lambda>tokens. rbind (fuzzy_scan x (entries_of pr d) tokens w) (\<lambda>(out, w). Inr (as_set out, w)))"
| "node_set x pr (NOrdered d lower upper back allowed limit) w =
     (if limit = Some 0 then Inr ([], w)
      else rbind (case allowed of None \<Rightarrow> Inr (None, w) | Some nd \<Rightarrow> rbind (node_set x pr nd w) (\<lambda>(a, w). Inr (Some a, w))) (\<lambda>(allowed, w).
      rbind (ordered_rows x (entries_of pr d) lower upper back allowed limit w) (\<lambda>(out, w). Inr (as_set out, w))))"

definition plan_keys :: "ext \<Rightarrow> pair \<Rightarrow> node \<Rightarrow> (string list \<times> work) res" where
  "plan_keys x pr nd = (let w = \<lparr>w_entries = 0, w_bytes = 0\<rparr> in case nd of
      NOrdered d lower upper back allowed limit \<Rightarrow>
        if limit = Some 0 then Inr ([], w)
        else rbind (case allowed of None \<Rightarrow> Inr (None, w) | Some nd \<Rightarrow> rbind (node_set x pr nd w) (\<lambda>(a, w). Inr (Some a, w))) (\<lambda>(allowed, w).
          ordered_rows x (entries_of pr d) lower upper back allowed limit w)
    | _ \<Rightarrow> node_set x pr nd w)"

definition plan_count :: "ext \<Rightarrow> pair \<Rightarrow> node \<Rightarrow> (nat \<times> work) res" where
  "plan_count x pr nd = (let w = \<lparr>w_entries = 0, w_bytes = 0\<rparr> in case nd of
      NRange d lower upper False \<Rightarrow> (let es = scan (entries_of pr d) lower upper in Inr (length es, charge w es))
    | _ \<Rightarrow> rbind (node_set x pr nd w) (\<lambda>(keys, w). Inr (length keys, w)))"

section \<open>Planning\<close>

definition index_scalar_path :: "path \<Rightarrow> bool" where
  "index_scalar_path p \<longleftrightarrow> \<not> list_ex (\<lambda>s. s = SAny \<or> s = SAll) (p_steps p)"

definition eligible :: "index_manifest list \<Rightarrow> string \<Rightarrow> index_manifest list" where
  "eligible defs t = filter (\<lambda>d. mf_ready d \<and> mf_active d \<and> mf_table d = t) defs"

record recipe =
  rc_node :: node
  rc_ids :: "nat list"
  rc_covered :: bool

definition op_kind :: "compare \<Rightarrow> index_kind" where
  "op_kind cop = (case cop of Text \<Rightarrow> KToken | Fuzzy _ \<Rightarrow> KToken | Contains \<Rightarrow> KTrigram | Parts \<Rightarrow> KParts | _ \<Rightarrow> KValue)"

definition is_compound :: "index_manifest \<Rightarrow> bool" where
  "is_compound d \<longleftrightarrow> 1 < length (mf_paths d)"

definition key_prefix :: "index_manifest \<Rightarrow> bytes" where
  "key_prefix d = (if is_compound d then [8] else [])"

definition bound_key :: "ext \<Rightarrow> index_manifest \<Rightarrow> value \<Rightarrow> bytes res" where
  "bound_key x d v = rbind (encode_equality (raw_token x) v) (\<lambda>k. Inr (key_prefix d @ k))"

definition chain_nodes :: "(node \<Rightarrow> node \<Rightarrow> node) \<Rightarrow> node list \<Rightarrow> node option" where
  "chain_nodes f nodes = (case nodes of [] \<Rightarrow> None | n # ns \<Rightarrow> Some (foldl f n ns))"

text \<open>The match on the operator in \<open>leaf\<close>: the plan and whether it covers the condition, or no plan of this index.\<close>

definition leaf_arm :: "ext \<Rightarrow> index_manifest \<Rightarrow> path \<Rightarrow> compare \<Rightarrow> value list \<Rightarrow> value \<Rightarrow> (node \<times> bool) option res" where
  "leaf_arm x d p cop values first =
     rbind (bound_key x d first) (\<lambda>k.
     let tp = take (length (key_prefix d) + 1) k; any = \<not> index_scalar_path p in
     case cop of
       Eq \<Rightarrow> Inr (Some (NRange d (Some k) (end_key k) False, True))
     | Ne \<Rightarrow> Inr (Some (NUnion (NRange d (Some tp) (Some k) any) (NRange d (end_key k) (end_key tp) any), True))
     | Gt \<Rightarrow> Inr (Some (NRange d (end_key k) (end_key tp) any, True))
     | Ge \<Rightarrow> Inr (Some (NRange d (Some k) (end_key tp) any, True))
     | Lt \<Rightarrow> Inr (Some (NRange d (Some tp) (Some k) any, True))
     | Le \<Rightarrow> Inr (Some (NRange d (Some tp) (end_key k) any, True))
     | Between \<Rightarrow> (case values of
           _ # upper # _ \<Rightarrow> rbind (bound_key x d upper) (\<lambda>u. Inr (Some (NRange d (Some k) (Some u) any, kind_tag first = kind_tag upper)))
         | _ \<Rightarrow> Inr None)
     | In \<Rightarrow> rbind (mapM (\<lambda>v. rbind (bound_key x d v) (\<lambda>k. Inr (NRange d (Some k) (end_key k) False))) values) (\<lambda>nodes.
         Inr (map_option (\<lambda>n. (n, True)) (chain_nodes NUnion nodes)))
     | Prefix \<Rightarrow> (case first of
           String _ \<Rightarrow> (let q = take (length k - 2) k in Inr (Some (NRange d (Some q) (end_key q) any, True)))
         | _ \<Rightarrow> Inr None)
     | Text \<Rightarrow> (case first of
           String term \<Rightarrow> (let terms = tokens x term in
             if terms = [] \<or> 64 < length terms then Inr None
             else rbind (mapM (\<lambda>t. rbind (encode_equality (raw_token x) (String t)) (\<lambda>k. Inr (NRange d (Some k) (end_key k) False))) terms) (\<lambda>nodes.
               Inr (map_option (\<lambda>n. (n, \<not> any)) (chain_nodes NIntersection nodes))))
         | _ \<Rightarrow> Inr None)
     | Fuzzy distance \<Rightarrow> (case first of String term \<Rightarrow> Inr (Some (NFuzzy d term distance, True)) | _ \<Rightarrow> Inr None)
     | _ \<Rightarrow> Inr (map_option (\<lambda>n. (n, False)) (contains_leaf x d cop first)))"

definition usable :: "compare \<Rightarrow> path \<Rightarrow> index_manifest \<Rightarrow> bool" where
  "usable cop p d \<longleftrightarrow> mf_kind d = op_kind cop \<and> first_path d = Some p \<and>
     \<not> (is_compound d \<and> (op_kind cop \<noteq> KValue \<or> (case direction_at d 0 of Some dir \<Rightarrow> dir \<noteq> Asc | None \<Rightarrow> False)))"

definition leaf :: "ext \<Rightarrow> index_manifest list \<Rightarrow> string \<Rightarrow> path \<Rightarrow> compare \<Rightarrow> value list \<Rightarrow> recipe list res" where
  "leaf x defs t p cop values =
     (if SAll \<in> set (p_steps p) then Inr []
      else rbind (mapM (interpret_kind x (p_kind p)) values) (\<lambda>values.
        case values of
          [] \<Rightarrow> Inr []
        | first # _ \<Rightarrow>
            if is_ordering_op cop \<and> list_ex (\<lambda>v. case encode (raw_token x) v of Inl _ \<Rightarrow> True | Inr _ \<Rightarrow> False) values then Inr []
            else rbind (mapM (\<lambda>d. rbind (leaf_arm x d p cop values first) (\<lambda>arm.
                Inr (map_option (\<lambda>(n, c). \<lparr>rc_node = n, rc_ids = [mf_id d], rc_covered = c\<rparr>) arm)))
              (filter (usable cop p) (eligible defs t))) (\<lambda>rs. Inr (List.map_filter (\<lambda>r. r) rs))))"

fun presence_values :: "presence \<Rightarrow> compare \<times> value list" where
  "presence_values PNull = (Eq, [Null])"
| "presence_values PMissing = (Eq, [Missing])"
| "presence_values Empty = (In, [Missing, Null])"
| "presence_values Exists = (Gt, [Missing])"

fun open_upper :: "node \<Rightarrow> node" where
  "open_upper (NRange d lower upper dedup) = NRange d lower (if is_compound d then Some [9] else None) dedup"
| "open_upper nd = nd"

definition merge_ids :: "nat list \<Rightarrow> nat list \<Rightarrow> nat list" where
  "merge_ids a b = remdups (sort (a @ b))"

definition pair_recipes :: "(node \<Rightarrow> node \<Rightarrow> node) \<Rightarrow> recipe list \<Rightarrow> recipe list \<Rightarrow> recipe list" where
  "pair_recipes f ls rs = concat (map (\<lambda>a. map (\<lambda>b. \<lparr>rc_node = f (rc_node a) (rc_node b), rc_ids = merge_ids (rc_ids a) (rc_ids b),
     rc_covered = (rc_covered a \<and> rc_covered b)\<rparr>) rs) ls)"

fun filters :: "ext \<Rightarrow> index_manifest list \<Rightarrow> string \<Rightarrow> expr \<Rightarrow> recipe list res" where
  "filters x defs t (Compare p cop values) = (if list_ex is_empty values then Inr [] else leaf x defs t p cop values)"
| "filters x defs t (Presence p test) =
     rbind (leaf x defs t p (fst (presence_values test)) (snd (presence_values test))) (\<lambda>rs.
     Inr (if test = Exists then map (\<lambda>r. r\<lparr>rc_node := open_upper (rc_node r)\<rparr>) rs else rs))"
| "filters x defs t (And a b) = rbind (filters x defs t a) (\<lambda>ls. rbind (filters x defs t b) (\<lambda>rs.
     Inr (map (\<lambda>r. r\<lparr>rc_covered := False\<rparr>) ls @ map (\<lambda>r. r\<lparr>rc_covered := False\<rparr>) rs @ pair_recipes NIntersection ls rs)))"
| "filters x defs t (Or a b) = rbind (filters x defs t a) (\<lambda>ls. rbind (filters x defs t b) (\<lambda>rs. Inr (pair_recipes NUnion ls rs)))"
| "filters x defs t _ = Inr []"

section \<open>What a plan stands for\<close>

lemma dropWhile_from:
  "tbl_ok t \<Longrightarrow> dropWhile (\<lambda>(k, _). \<not> from_bound lower k) t = filter (\<lambda>(k, _). from_bound lower k) t"
proof (induction t)
  case (Cons e t)
  obtain k v where e: "e = (k, v)" by (cases e)
  have "filter (\<lambda>(k, _). from_bound lower k) t = t" if "from_bound lower k"
    using that Cons.prems e by (auto simp: tbl_ok_Cons from_bound_def filter_id_conv split: option.splits)
  then show ?case using Cons e by (auto simp: tbl_ok_Cons)
qed simp

lemma takeWhile_below: "tbl_ok t \<Longrightarrow> takeWhile (\<lambda>(k, _). below_bound upper k) t = filter (\<lambda>(k, _). below_bound upper k) t"
proof (induction t)
  case (Cons e t)
  obtain k v where e: "e = (k, v)" by (cases e)
  have "filter (\<lambda>(k, _). below_bound upper k) t = []" if "\<not> below_bound upper k"
    using that Cons.prems e by (auto simp: tbl_ok_Cons below_bound_def filter_empty_conv split: option.splits)
  then show ?case using Cons e by (auto simp: tbl_ok_Cons)
qed simp

lemma scan_filter: "tbl_ok t \<Longrightarrow> scan t lower upper = filter (\<lambda>(k, _). from_bound lower k \<and> below_bound upper k) t"
proof (cases "empty_range lower upper")
  case True
  then have "\<not> (from_bound lower k \<and> below_bound upper k)" for k
    by (auto simp: empty_range_def from_bound_def below_bound_def split: option.splits)
  then show ?thesis using True by (simp add: scan_def empty_filter_conv case_prod_unfold)
next
  case False
  assume t: "tbl_ok t"
  have "scan t lower upper = filter (\<lambda>(k, _). below_bound upper k) (filter (\<lambda>(k, _). from_bound lower k) t)"
    using False dropWhile_from[OF t] takeWhile_below[OF tbl_ok_filter[OF t]] by (simp add: scan_def)
  then show ?thesis by (simp add: case_prod_unfold conj_commute)
qed

lemma scan_rows:
  assumes "tbl_ok t"
  shows "(k, row) \<in> set (scan t lower upper) \<longleftrightarrow> tbl_get t k = Some row \<and> from_bound lower k \<and> below_bound upper k"
  using assms by (auto simp: scan_filter tbl_get_iff)

fun node_rows :: "pair \<Rightarrow> node \<Rightarrow> string set" where
  "node_rows pr (NRange d lower upper dedup) = {row. \<exists>k. tbl_get (entries_of pr d) k = Some row \<and> from_bound lower k \<and> below_bound upper k}"
| "node_rows pr (NPostings d g) = rows_with (tri_of pr (mf_id d)) g"
| "node_rows pr (NIntersection a b) = node_rows pr a \<inter> node_rows pr b"
| "node_rows pr (NUnion a b) = node_rows pr a \<union> node_rows pr b"
| "node_rows pr _ = {}"

text \<open>Plans over sound indexes, of the kinds that are not left to the token dictionary or to an order.\<close>

fun node_ok :: "pair \<Rightarrow> node \<Rightarrow> bool" where
  "node_ok pr (NRange d lower upper dedup) \<longleftrightarrow> tbl_ok (entries_of pr d)"
| "node_ok pr (NPostings d g) \<longleftrightarrow> tri_ok (tri_of pr (mf_id d))"
| "node_ok pr (NIntersection a b) \<longleftrightarrow> node_ok pr a \<and> node_ok pr b"
| "node_ok pr (NUnion a b) \<longleftrightarrow> node_ok pr a \<and> node_ok pr b"
| "node_ok pr _ \<longleftrightarrow> False"

lemma pure_rows:
  assumes "node_ok pr nd" "pure_node nd = Some d"
  shows "tri_ok (tri_of pr (mf_id d))" "postings_rows (tri_of pr) nd = node_rows pr nd"
proof -
  have "tri_ok (tri_of pr (mf_id d)) \<and> postings_rows (tri_of pr) nd = node_rows pr nd"
    using assms
  proof (induction nd arbitrary: d)
    case (NIntersection a b)
    then show ?case unfolding pure_node.simps pure_pair by auto
  next
    case (NUnion a b)
    then show ?case unfolding pure_node.simps pure_pair by auto
  qed auto
  then show "tri_ok (tri_of pr (mf_id d))" "postings_rows (tri_of pr) nd = node_rows pr nd" by auto
qed

lemma pure_keys:
  assumes "node_ok pr nd" "pure_node nd \<noteq> None"
  shows "\<exists>keys w'. postings_keys (tri_of pr) nd w = Inr (keys, w') \<and> sorted_wrt (<) keys \<and> set keys = node_rows pr nd"
proof -
  obtain d where d: "pure_node nd = Some d" using assms(2) by auto
  show ?thesis using postings_keys_exact[of "tri_of pr" d nd w, OF pure_rows(1)[OF assms(1) d] d] pure_rows(2)[OF assms(1) d] by simp
qed

lemma as_set_exact [simp]: "sorted_wrt (<) (as_set xs)" "set (as_set xs) = set xs"
  by (simp_all add: as_set_def strict_sorted_iff)

lemma node_set_exact:
  "node_ok pr nd \<Longrightarrow> \<exists>keys w'. node_set x pr nd w = Inr (keys, w') \<and> sorted_wrt (<) keys \<and> set keys = node_rows pr nd"
proof (induction nd arbitrary: w)
  case (NRange d lower upper dedup)
  then have "set (map snd (scan (entries_of pr d) lower upper)) = node_rows pr (NRange d lower upper dedup)"
    using scan_rows[of "entries_of pr d" _ _ lower upper] by force
  then show ?case by (simp add: Let_def)
next
  case (NPostings d g)
  then show ?case using pure_keys[OF NPostings.prems] by simp
next
  case (NIntersection a b)
  show ?case
  proof (cases "pure_node (NIntersection a b) = None")
    case True
    obtain xs w1 where a: "node_set x pr a w = Inr (xs, w1)" "sorted_wrt (<) xs" "set xs = node_rows pr a" using NIntersection by fastforce
    obtain ys w2 where b: "node_set x pr b w1 = Inr (ys, w2)" "sorted_wrt (<) ys" "set ys = node_rows pr b" using NIntersection by fastforce
    show ?thesis using True a b by (auto simp: sorted_wrt_filter simp del: pure_node.simps)
  qed (use pure_keys[OF NIntersection.prems] in \<open>simp del: pure_node.simps\<close>)
next
  case (NUnion a b)
  show ?case
  proof (cases "pure_node (NUnion a b) = None")
    case True
    obtain xs w1 where a: "node_set x pr a w = Inr (xs, w1)" "set xs = node_rows pr a" using NUnion by fastforce
    obtain ys w2 where b: "node_set x pr b w1 = Inr (ys, w2)" "set ys = node_rows pr b" using NUnion by fastforce
    show ?thesis using True a b by (simp del: pure_node.simps)
  qed (use pure_keys[OF NUnion.prems] in \<open>simp del: pure_node.simps\<close>)
qed auto

section \<open>The keys of a range\<close>

lemma less_append: "K < q @ r \<longleftrightarrow> K < q \<or> (\<exists>t. K = q @ t \<and> t < r)" for K q r :: bytes
proof (induction q arbitrary: K)
  case (Cons b q)
  then show ?case by (cases K) auto
qed simp

lemma end_key_Cons: "b \<noteq> 255 \<Longrightarrow> \<exists>e. end_key (b # p) = Some e"
proof -
  assume "b \<noteq> 255"
  then have "dropWhile (\<lambda>b. b = 255) (rev p @ [b]) \<noteq> []" by (simp add: dropWhile_eq_Nil_conv)
  then show ?thesis by (auto simp: end_key_def split: list.splits)
qed

lemma end_key_snoc: "end_key (p @ [b]) = (if b = 255 then end_key p else Some (p @ [b + 1]))"
  by (simp add: end_key_def)

lemma byte_step: "b \<noteq> 255 \<Longrightarrow> c < b + 1 \<longleftrightarrow> c < b \<or> c = b" for b c :: u8
proof -
  assume "b \<noteq> 255"
  then have "unat b \<noteq> 255" by (simp add: word_unat_eq_iff)
  then have "unat (b + 1) = unat b + 1" using unat_u8_less[of b] by (simp add: unat_word_ariths)
  then show ?thesis by (auto simp: word_less_nat_alt word_unat_eq_iff)
qed

lemma byte_top: "c < 255 \<or> c = 255" for c :: u8
  using unat_u8_less[of c] by (auto simp: word_less_nat_alt word_unat_eq_iff)

text \<open>The end of a prefix: everything before it is before the prefix or starts with it.\<close>

lemma below_end:
  "end_key p = Some e \<Longrightarrow> K < e \<longleftrightarrow> K < p \<or> (\<exists>t. K = p @ t)"
proof (induction p arbitrary: e rule: rev_induct)
  case Nil
  then show ?case by (simp add: end_key_def)
next
  case (snoc b q)
  show ?case
  proof (cases "b = 255")
    case True
    have "t < [255] \<or> (\<exists>s. t = 255 # s)" for t :: bytes using byte_top by (cases t) auto
    then show ?thesis using snoc.IH[of e] snoc.prems True by (auto simp: end_key_snoc less_append[of K q])
  next
    case False
    have "t < [b + 1] \<longleftrightarrow> t < [b] \<or> (\<exists>s. t = b # s)" for t using byte_step[OF False] by (cases t) auto
    moreover have "K < e \<longleftrightarrow> K < q \<or> (\<exists>t. K = q @ t \<and> t < [b + 1])" using snoc.prems False less_append[of K q "[b + 1]"] by (auto simp: end_key_snoc)
    ultimately show ?thesis unfolding less_append[of K q "[b]"] by auto
  qed
qed

text \<open>An entry of the value \<open>v\<close> against the bounds made from the value \<open>w\<close>.\<close>

definition codes :: "ext \<Rightarrow> value \<Rightarrow> bytes \<Rightarrow> bool" where
  "codes x v a \<longleftrightarrow> raw_numbers (raw_token x) \<and> value_ok v \<and> encode_equality (raw_token x) v = Inr a"

lemma codes_law: "codes x v a \<Longrightarrow> codes x w b \<Longrightarrow> bcmp (a @ s) (b @ t) = then_with (vcmp (raw_token x) v w) (bcmp s t)"
  using append_value_law by (auto simp: codes_def encode_equality_def)

lemma codes_less:
  assumes "codes x v a" "codes x w k"
  shows "pre @ a @ s < pre @ k \<longleftrightarrow> vcmp (raw_token x) v w = Less"
proof -
  have "bcmp (pre @ a @ s) (pre @ k) = then_with (vcmp (raw_token x) v w) (bcmp s [])"
    using codes_law[OF assms, of s "[]"] by (simp del: bcmp_iff)
  moreover have "bcmp s [] \<noteq> Less" by (cases s) auto
  ultimately have "bcmp (pre @ a @ s) (pre @ k) = Less \<longleftrightarrow> vcmp (raw_token x) v w = Less"
    by (cases "vcmp (raw_token x) v w") (simp_all del: bcmp_iff bcmp_append_prefix)
  then show ?thesis by (simp only: bcmp_iff(1))
qed

lemma codes_prefix:
  assumes "codes x v a" "codes x w k"
  shows "(\<exists>t. pre @ a @ s = (pre @ k) @ t) \<longleftrightarrow> vcmp (raw_token x) v w = Equal"
proof -
  have "bcmp a k = vcmp (raw_token x) v w" using codes_law[OF assms, of "[]" "[]"] by (simp del: bcmp_iff)
  then have "vcmp (raw_token x) v w = Equal \<longleftrightarrow> a = k" using bcmp_iff(3)[of a k] by simp
  moreover have "a = k" if "a @ s = k @ t" for t using code_splits(1)[of x v w a k s t] assms that by (simp add: codes_def)
  ultimately show ?thesis by (metis append.assoc same_append_eq)
qed

lemma codes_head: "codes x v a \<Longrightarrow> \<exists>r. a = of_nat (rank v) # r"
  using append_value_rank by (auto simp: codes_def encode_equality_def)

lemma key_prefix_end:
  assumes "codes x w k" "pre = [] \<or> pre = [8]"
  shows "\<exists>e. end_key (pre @ k) = Some e"
proof -
  obtain r where r: "k = of_nat (rank w) # r" using codes_head[OF assms(1)] by blast
  have "(of_nat (rank w) :: u8) \<noteq> 255" using rank_bounds[of w] by (auto simp: word_unat_eq_iff unat_of_nat_u8)
  then show ?thesis using end_key_Cons r assms(2) by auto
qed

lemma codes_end:
  assumes "codes x v a" "codes x w k" "pre = [] \<or> pre = [8]"
  shows "below_bound (end_key (pre @ k)) (pre @ a @ s) \<longleftrightarrow> vcmp (raw_token x) v w \<noteq> Greater"
    "from_bound (end_key (pre @ k)) (pre @ a @ s) \<longleftrightarrow> vcmp (raw_token x) v w = Greater"
proof -
  obtain e where e: "end_key (pre @ k) = Some e" using key_prefix_end[OF assms(2,3)] by blast
  have "pre @ a @ s < e \<longleftrightarrow> vcmp (raw_token x) v w \<noteq> Greater"
    unfolding below_end[OF e] codes_less[OF assms(1,2)] codes_prefix[OF assms(1,2)] by (cases "vcmp (raw_token x) v w") auto
  then show "below_bound (end_key (pre @ k)) (pre @ a @ s) \<longleftrightarrow> vcmp (raw_token x) v w \<noteq> Greater"
    "from_bound (end_key (pre @ k)) (pre @ a @ s) \<longleftrightarrow> vcmp (raw_token x) v w = Greater"
    using e by (auto simp: below_bound_def from_bound_def not_less[symmetric])
qed

text \<open>The bounds of a type: one tag per kind of value, two for booleans.\<close>

lemma codes_tag:
  assumes "codes x v a" "codes x w k"
  shows "from_bound (Some (take (length pre + 1) (pre @ k))) (pre @ a @ s) \<longleftrightarrow> rank w \<le> rank v"
    "below_bound (end_key (take (length pre + 1) (pre @ k))) (pre @ a @ s) \<longleftrightarrow> rank v \<le> rank w"
proof -
  obtain q r where h: "a = of_nat (rank v) # q" "k = of_nat (rank w) # r" using codes_head assms by blast
  have u: "unat (of_nat (rank v) :: u8) = rank v" "unat (of_nat (rank w) :: u8) = rank w"
    using rank_bounds[of v] rank_bounds[of w] by (simp_all add: unat_of_nat_u8)
  have n: "(of_nat (rank w) :: u8) \<noteq> 255" using u(2) rank_bounds[of w] by auto
  note b = byte_step[OF n]
  have less: "pre @ of_nat (rank v) # q @ s < pre @ [c] \<longleftrightarrow> (of_nat (rank v) :: u8) < c" for c
    by (simp flip: bcmp_iff(1)) (simp add: ord_cmp_def)
  show "from_bound (Some (take (length pre + 1) (pre @ k))) (pre @ a @ s) \<longleftrightarrow> rank w \<le> rank v"
    using less[of "of_nat (rank w)"] h u by (simp add: from_bound_def not_less[symmetric] word_less_nat_alt)
  show "below_bound (end_key (take (length pre + 1) (pre @ k))) (pre @ a @ s) \<longleftrightarrow> rank v \<le> rank w"
    using less[of "of_nat (rank w) + 1"] h u b[of "of_nat (rank v)"] n by (simp add: end_key_snoc below_bound_def word_less_nat_alt word_unat_eq_iff[of "of_nat (rank v)"] le_less)
qed

section \<open>The entries of a row\<close>

text \<open>\<open>K\<close> holds an entry for each of the values \<open>vs\<close>, and no other; they differ only in the value.\<close>

definition entries_for :: "ext \<Rightarrow> bytes \<Rightarrow> value list \<Rightarrow> bytes set \<Rightarrow> bool" where
  "entries_for x pre vs K \<longleftrightarrow> (\<exists>s. (\<forall>k \<in> K. \<exists>v \<in> set vs. \<exists>a. codes x v a \<and> k = pre @ a @ s) \<and>
     (\<forall>v \<in> set vs. \<exists>a. codes x v a \<and> pre @ a @ s \<in> K))"

text \<open>The range takes the entries of exactly the values with the property \<open>P\<close>.\<close>

definition picks :: "ext \<Rightarrow> bytes \<Rightarrow> bytes option \<Rightarrow> bytes option \<Rightarrow> (value \<Rightarrow> bool) \<Rightarrow> bool" where
  "picks x pre lower upper P \<longleftrightarrow>
     (\<forall>v a s. codes x v a \<longrightarrow> (from_bound lower (pre @ a @ s) \<and> below_bound upper (pre @ a @ s) \<longleftrightarrow> P v))"

lemma picks_rows:
  assumes e: "entries_for x pre vs K" and p: "picks x pre lower upper P"
  shows "(\<exists>k \<in> K. from_bound lower k \<and> below_bound upper k) \<longleftrightarrow> (\<exists>v \<in> set vs. P v)"
proof
  assume "\<exists>k \<in> K. from_bound lower k \<and> below_bound upper k"
  then obtain k where k: "k \<in> K" "from_bound lower k" "below_bound upper k" by blast
  then obtain v a s where "v \<in> set vs" "codes x v a" "k = pre @ a @ s" using e unfolding entries_for_def by blast
  then show "\<exists>v \<in> set vs. P v" using p k unfolding picks_def by blast
next
  assume "\<exists>v \<in> set vs. P v"
  then obtain v where v: "v \<in> set vs" "P v" by blast
  then obtain a s where "codes x v a" "pre @ a @ s \<in> K" using e unfolding entries_for_def by blast
  then show "\<exists>k \<in> K. from_bound lower k \<and> below_bound upper k" using p v(2) unfolding picks_def by blast
qed

lemma entry_keys_for:
  assumes "raw_numbers (raw_token x)" "mapM (\<lambda>v. entry_key x v row) vs = Inr ks" "list_all value_ok vs"
  shows "entries_for x [] vs (set ks)"
proof -
  have "\<exists>a. codes x v a \<and> k = a @ row_suffix row" if "v \<in> set vs" "entry_key x v row = Inr k" for v k
    using that assms(1,3) by (auto simp: entry_key_def codes_def list_all_iff)
  then show ?thesis using mapM_Inr_set[OF assms(2)] mapM_Inr_in[OF assms(2)]
    unfolding entries_for_def by (intro exI[of _ "row_suffix row"]) fastforce
qed

lemma path_values_scalar:
  assumes "index_scalar_path p"
  shows "path_values x bs p = rbind (path_value x bs p) (\<lambda>v. Inr [v])"
proof -
  have "any_position (p_steps p) = None" using assms any_position_Some[of "p_steps p"]
    by (cases "any_position (p_steps p)") (force simp: index_scalar_path_def list_ex_iff)+
  then show ?thesis by (subst path_values.simps) simp
qed

lemma value_entries:
  assumes rn: "raw_numbers (raw_token x)" and d: "mf_kind d = KValue" "first_path d = Some p" "is_compound d \<longrightarrow> direction_at d 0 \<noteq> Some Desc"
    and k: "row_keys h x d row bs seq = Inr K" "row_fits h x d row bs seq"
  shows "\<exists>vs. path_values x bs p = Inr vs \<and> entries_for x (key_prefix d) vs K"
proof -
  obtain ps where p: "mf_paths d = p # ps" using d(2) by (auto simp: first_path_def split: list.splits)
  obtain vs vals ks where r: "path_values x bs p = Inr vs" "indexed_values h x d bs seq vs = Inr vals"
    "mapM (\<lambda>v. definition_key x d v row) vals = Inr ks" "K = set ks" and s: "sampled_values x d bs seq = Inr vs"
    using k(1) d(1) p by (auto simp: row_keys_def sampled_values_def)
  have ok: "list_all (storable d) vals" using k(2) s r(2,3) by (auto simp: row_fits_def)
  show ?thesis
  proof (cases "is_compound d")
    case False
    then have "vals = vs" "mapM (\<lambda>v. entry_key x v row) vs = Inr ks" "list_all value_ok vs" using r ok d(1) p
      by (auto simp: indexed_values_def definition_key_def is_compound_def storable_def list_all_iff)
    then show ?thesis using entry_keys_for[OF rn] r False by (auto simp: key_prefix_def)
  next
    case True
    then obtain tuple where t: "mapM (tuple_part x bs) (p # ps) = Inr tuple" "vals = [Array tuple]"
      using r(2) d(1) p by (auto simp: indexed_values_def is_compound_def)
    then obtain v rest where v: "tuple_part x bs p = Inr v" "tuple = v # rest" by auto
    then have vs: "vs = [v]" using r(1) path_values_scalar[of p x bs] by (auto simp: tuple_part_def index_scalar_path_def split: if_splits)
    obtain a parts where a: "key_part x d (0, v) = Inr a" "ks = [[8] @ a @ concat parts @ [0] @ row_suffix row]"
      using r(3) t(2) v(2) True by (auto simp: definition_key_def is_compound_def upt_conv_Cons simp del: upt_Suc)
    have "codes x v a" using a(1) d(3) True ok t(2) v(2) rn by (auto simp: key_part_def codes_def storable_def)
    then show ?thesis using r(1,4) vs a(2) True by (auto simp: entries_for_def key_prefix_def)
  qed
qed

section \<open>What a comparison asks of a value\<close>

text \<open>The meaning of the ranges of \<open>leaf\<close>, for one value of the row.\<close>

definition op_pred :: "(string \<Rightarrow> string option) \<Rightarrow> compare \<Rightarrow> value list \<Rightarrow> value \<Rightarrow> bool" where
  "op_pred rv cop ws v = (case ws of [] \<Rightarrow> False | w # rest \<Rightarrow>
     (let c = vcmp rv v w; same = (rank v = rank w) in case cop of
        Eq \<Rightarrow> c = Equal
      | Ne \<Rightarrow> same \<and> c \<noteq> Equal
      | Gt \<Rightarrow> same \<and> c = Greater
      | Ge \<Rightarrow> same \<and> c \<noteq> Less
      | Lt \<Rightarrow> same \<and> c = Less
      | Le \<Rightarrow> same \<and> c \<noteq> Greater
      | Between \<Rightarrow> c \<noteq> Less \<and> (case rest of u # _ \<Rightarrow> vcmp rv v u = Less | [] \<Rightarrow> False)
      | In \<Rightarrow> (\<exists>w \<in> set ws. vcmp rv v w = Equal)
      | Prefix \<Rightarrow> (case (v, w) of (String a, String b) \<Rightarrow> starts_with a b | _ \<Rightarrow> False)
      | _ \<Rightarrow> False))"

lemma decide_none: "decide False f ns = Inr False \<Longrightarrow> n \<in> set ns \<Longrightarrow> f n = Inr False"
  by (induction ns) (auto split: if_splits)

lemma quantified_none:
  "SAll \<notin> set (p_steps p) \<Longrightarrow> quantified x bs p test = Inr False \<Longrightarrow> path_values x bs p = Inr vs \<Longrightarrow> v \<in> set vs \<Longrightarrow> test v = Inr False"
proof (induction x bs p arbitrary: vs rule: path_values.induct)
  case (1 x bs p)
  note qp = quantifier_is_any[OF 1(2)]
  show ?case
  proof (cases "any_position (p_steps p)")
    case None
    then show ?thesis using 1(3-5) qp by (subst (asm) quantified.simps, subst (asm) path_values.simps) auto
  next
    case (Some i)
    let ?p = "\<lambda>n. p\<lparr>p_steps := (p_steps p)[i := SIndex n]\<rparr>"
    have i: "p_steps p ! i \<noteq> SAll" using any_position_Some[OF Some] by simp
    obtain w where w: "extract_value x bs (take i (p_steps p)) = Inr w"
      using 1(4) by (subst (asm) path_values.simps) (auto simp: Some)
    obtain items where items: "w = Array items" using 1(4,5) w by (subst (asm) path_values.simps) (auto simp: Some split: "value.splits")
    have q: "decide False (\<lambda>n. quantified x bs (?p n) test) [0..<length items] = Inr False"
      using 1(3) w items i by (subst (asm) quantified.simps) (auto simp: qp Some)
    obtain vss where vss: "mapM (\<lambda>n. path_values x bs (?p n)) [0..<length items] = Inr vss" "vs = concat vss"
      using 1(4) w items by (subst (asm) path_values.simps) (auto simp: Some)
    obtain ws where ws: "ws \<in> set vss" "v \<in> set ws" using 1(5) vss(2) by auto
    obtain n where n: "n \<in> set [0..<length items]" "path_values x bs (?p n) = Inr ws" using mapM_Inr_set[OF vss(1) ws(1)] by blast
    have "SAll \<notin> set (p_steps (?p n))" using 1(2) set_update_subset_insert[of "p_steps p" i "SIndex n"] by auto
    then show ?thesis by (rule 1(1)[OF Some w items n(1) _ decide_none[OF q n(1)] n(2) ws(2)])
  qed
qed

lemma quantified_decides:
  assumes p: "SAll \<notin> set (p_steps p)" "path_values x bs p = Inr vs" and q: "quantified x bs p test = Inr b"
    and l: "\<And>v c. v \<in> set vs \<Longrightarrow> test v = Inr c \<Longrightarrow> (c \<longrightarrow> P v) \<and> (cov \<and> \<not> c \<longrightarrow> \<not> P v)"
  shows "(b \<longrightarrow> (\<exists>v \<in> set vs. P v)) \<and> (cov \<and> \<not> b \<longrightarrow> \<not> (\<exists>v \<in> set vs. P v))"
proof (cases b)
  case True
  then obtain v where "v \<in> set vs" "test v = Inr True" using quantified_path_values[OF p(1) _ p(2), of test] q by auto
  then show ?thesis using l[of v True] True by auto
next
  case False
  then have "test v = Inr False" if "v \<in> set vs" for v using quantified_none[OF p(1) _ p(2) that, of test] q by simp
  then show ?thesis using l[of _ False] False by auto
qed

lemma rank_kind: "rank v = rank w \<Longrightarrow> kind_tag v = kind_tag w"
  by (cases v; cases w) (auto split: if_splits)

lemma kind_rank: "kind_tag v = kind_tag w \<Longrightarrow> (\<nexists>b. w = Bool b) \<Longrightarrow> rank v = rank w"
  by (cases v; cases w) auto

lemma vcmp_ranks:
  "vcmp rv v w = Equal \<Longrightarrow> rank v = rank w" "vcmp rv v w = Less \<Longrightarrow> rank v \<le> rank w" "vcmp rv v w = Greater \<Longrightarrow> rank w \<le> rank v"
  using vcmp_rank[of v w rv] by (cases "rank v = rank w"; simp add: ord_cmp_def split: if_splits)+

lemma compare_values_codes:
  assumes "compare_values x v w = Inr c" "codes x v a" "codes x w k" "\<not> is_empty w"
  shows "c = (if kind_tag v = kind_tag w then Some (vcmp (raw_token x) v w) else None)"
proof -
  have "bcmp a k = vcmp (raw_token x) v w" using codes_law[OF assms(2,3), of "[]" "[]"] by (simp del: bcmp_iff)
  moreover have "\<not> is_empty v" if "kind_tag v = kind_tag w" using that assms(4) by (cases v; cases w) auto
  ultimately show ?thesis using assms by (auto simp: compare_values_def codes_def split: if_splits)
qed

lemma any_equal_pred:
  assumes "codes x v a" "\<forall>w \<in> set ws. \<not> is_empty w \<and> (\<exists>k. codes x w k)" "any_equal x v ws = Inr c"
  shows "c \<longleftrightarrow> (\<exists>w \<in> set ws. vcmp (raw_token x) v w = Equal)"
  using assms(2,3)
proof (induction ws)
  case (Cons w ws)
  obtain k where k: "codes x w k" "\<not> is_empty w" using Cons.prems(1) by auto
  obtain e where e: "compare_values x v w = Inr e" using Cons.prems(2) by auto
  have "e = Some Equal \<longleftrightarrow> vcmp (raw_token x) v w = Equal"
    using compare_values_codes[OF e assms(1) k] vcmp_ranks(1)[of "raw_token x" v w] rank_kind[of v w] by auto
  moreover have "c \<longleftrightarrow> (\<exists>w \<in> set ws. vcmp (raw_token x) v w = Equal)" if "e \<noteq> Some Equal"
    by (rule Cons.IH) (use Cons.prems e that in auto)
  ultimately show ?case using Cons.prems(2) e by (cases "e = Some Equal") auto
qed simp

text \<open>The planner takes booleans for one kind of value when it orders them, but they have two tags.\<close>

definition bool_order :: "compare \<Rightarrow> value list \<Rightarrow> bool" where
  "bool_order cop ws \<longleftrightarrow> cop \<in> {Ne, Gt, Ge, Lt, Le} \<and> (\<exists>b rest. ws = Bool b # rest)"

definition arm_covers :: "compare \<Rightarrow> value list \<Rightarrow> bool" where
  "arm_covers cop ws \<longleftrightarrow> (cop = Between \<longrightarrow> (case ws of w # u # _ \<Rightarrow> kind_tag w = kind_tag u | _ \<Rightarrow> False))"

lemma between_kind:
  assumes "vcmp rv v w \<noteq> Less" "vcmp rv v u = Less" "kind_tag w = kind_tag u"
  shows "kind_tag v = kind_tag w"
proof -
  have r: "rank w \<le> rank v" "rank v \<le> rank u" using assms vcmp_ranks[of rv v w] vcmp_ranks(2)[of rv v u] by (cases "vcmp rv v w"; auto)+
  show ?thesis
  proof (cases "\<exists>b. u = Bool b")
    case True
    then obtain c b where "w = Bool c" "u = Bool b" using assms(3) by (cases w) auto
    then show ?thesis using r by (cases v) (auto split: if_splits)
  next
    case False
    then show ?thesis using kind_rank[of w u] r assms(3) rank_kind[of v w] by simp
  qed
qed

lemma scalar_pred:
  assumes s: "scalar x cop ws v = Inr c" and v: "codes x v a"
    and ws: "\<forall>w \<in> set ws. \<not> is_empty w \<and> (\<exists>k. codes x w k)" "\<not> bool_order cop ws" "op_kind cop = KValue"
  shows "(c \<longrightarrow> op_pred (raw_token x) cop ws v) \<and> (arm_covers cop ws \<and> \<not> c \<longrightarrow> \<not> op_pred (raw_token x) cop ws v)"
proof (cases ws)
  case Nil
  then show ?thesis using s by (simp add: scalar_def op_pred_def)
next
  case (Cons w rest)
  obtain k where k: "codes x w k" "\<not> is_empty w" using ws(1) Cons by auto
  obtain e where e: "compare_values x v w = Inr e" using s Cons by (auto simp: scalar_def)
  have e': "e = (if kind_tag v = kind_tag w then Some (vcmp (raw_token x) v w) else None)" by (rule compare_values_codes[OF e v k])
  have eq: "vcmp (raw_token x) v w = Equal \<Longrightarrow> kind_tag v = kind_tag w" using vcmp_ranks(1) rank_kind by blast
  have same: "kind_tag v = kind_tag w \<longleftrightarrow> rank v = rank w" if "cop \<in> {Ne, Gt, Ge, Lt, Le}"
    using that ws(2) Cons kind_rank[of v w] rank_kind[of v w] by (auto simp: bool_order_def)
  show ?thesis
  proof (cases cop)
    case In
    then show ?thesis using s e Cons any_equal_pred[OF v ws(1), of c] by (auto simp: scalar_def op_pred_def is_ordering_op_def Let_def)
  next
    case Between
    show ?thesis
    proof (cases rest)
      case Nil
      then show ?thesis using s e Cons Between by (auto simp: scalar_def op_pred_def Let_def split: if_splits)
    next
      case r: (Cons u us)
      obtain l where l: "codes x u l" "\<not> is_empty u" using ws(1) Cons r by auto
      have d: "kind_tag v = kind_tag u \<and> vcmp (raw_token x) v u = Less" if "compare_values x v u = Inr (Some Less)"
        using compare_values_codes[OF that v l] by (auto split: if_splits)
      have c: "c \<longleftrightarrow> e \<noteq> None \<and> e \<noteq> Some Less \<and> compare_values x v u = Inr (Some Less)"
        using s e Cons r Between by (auto simp: scalar_def split: if_splits)
      show ?thesis
      proof (intro conjI impI)
        assume c then show "op_pred (raw_token x) cop ws v" using c d e' Cons r Between by (auto simp: op_pred_def Let_def split: if_splits)
      next
        assume n: "arm_covers cop ws \<and> \<not> c"
        show "\<not> op_pred (raw_token x) cop ws v"
        proof
          assume "op_pred (raw_token x) cop ws v"
          then have o: "vcmp (raw_token x) v w \<noteq> Less" "vcmp (raw_token x) v u = Less" using Cons r Between by (auto simp: op_pred_def Let_def)
          have wu: "kind_tag w = kind_tag u" using n Cons r Between by (simp add: arm_covers_def)
          note kv = between_kind[OF o wu]
          have "e \<noteq> None \<and> e \<noteq> Some Less" using e' kv o by simp
          moreover from this obtain f where "compare_values x v u = Inr f" using s e Cons r Between by (auto simp: scalar_def split: if_splits)
          then have "compare_values x v u = Inr (Some Less)" using compare_values_codes[OF _ v l] kv wu o(2) by fastforce
          ultimately show False using c n by simp
        qed
      qed
    qed
  next
    case Prefix
    then show ?thesis using s e Cons by (auto simp: scalar_def op_pred_def string_op_def is_ordering_op_def Let_def split: "value.splits")
  qed (use s e e' eq same Cons ws(3) in \<open>auto simp: scalar_def op_pred_def op_kind_def Let_def split: if_splits\<close>)
qed

section \<open>The ranges of the planner\<close>

lemma key_prefix_cases: "key_prefix d = [] \<or> key_prefix d = [8]"
  by (simp add: key_prefix_def)

lemma text_code_body: "\<exists>b. text_code t = b @ [0, 0] \<and> (\<forall>s r. (\<exists>u. text_code s @ r = b @ u) \<longleftrightarrow> take (length t) s = t)"
proof (induction t)
  case (Cons c t)
  then obtain b where b: "text_code t = b @ [0, 0]" "\<And>s r. (\<exists>u. text_code s @ r = b @ u) \<longleftrightarrow> take (length t) s = t" by blast
  let ?b = "(if c = 0 then [0, 255] else [c]) @ b"
  have "(\<exists>u. text_code s @ r = ?b @ u) \<longleftrightarrow> take (length (c # t)) s = c # t" for s r
    by (cases s) (auto simp: b(2))
  then show ?case using b(1) by (intro exI[of _ ?b]) simp
qed simp

lemma not_less_code: "codes x v a \<Longrightarrow> codes x w k \<Longrightarrow> pre @ k \<le> pre @ a @ s \<longleftrightarrow> vcmp (raw_token x) v w \<noteq> Less"
  by (metis codes_less not_less)

lemma picks_ranges:
  assumes w: "codes x w k" and pre: "pre = [] \<or> pre = [8]"
  defines "tp \<equiv> take (length pre + 1) (pre @ k)" and "c \<equiv> \<lambda>v. vcmp (raw_token x) v w"
  shows "picks x pre (Some (pre @ k)) (end_key (pre @ k)) (\<lambda>v. c v = Equal)"
    and "picks x pre (Some tp) (Some (pre @ k)) (\<lambda>v. rank v = rank w \<and> c v = Less)"
    and "picks x pre (end_key (pre @ k)) (end_key tp) (\<lambda>v. rank v = rank w \<and> c v = Greater)"
    and "picks x pre (Some (pre @ k)) (end_key tp) (\<lambda>v. rank v = rank w \<and> c v \<noteq> Less)"
    and "picks x pre (Some tp) (end_key (pre @ k)) (\<lambda>v. rank v = rank w \<and> c v \<noteq> Greater)"
proof -
  have b: "from_bound (Some (pre @ k)) (pre @ a @ s) \<longleftrightarrow> c v \<noteq> Less" "below_bound (Some (pre @ k)) (pre @ a @ s) \<longleftrightarrow> c v = Less"
    "below_bound (end_key (pre @ k)) (pre @ a @ s) \<longleftrightarrow> c v \<noteq> Greater" "from_bound (end_key (pre @ k)) (pre @ a @ s) \<longleftrightarrow> c v = Greater"
    "from_bound (Some tp) (pre @ a @ s) \<longleftrightarrow> rank w \<le> rank v" "below_bound (end_key tp) (pre @ a @ s) \<longleftrightarrow> rank v \<le> rank w"
    if v: "codes x v a" for v a s
    using codes_end[OF v w pre] codes_tag[OF v w] codes_less[OF v w] not_less_code[OF v w]
    by (simp_all add: from_bound_def below_bound_def c_def tp_def del: take_append)
  have r: "rank v \<le> rank w" if "c v \<noteq> Greater" for v using that vcmp_ranks[of "raw_token x" v w] by (cases "c v") (auto simp: c_def)
  have l: "rank w \<le> rank v" if "c v \<noteq> Less" for v using that vcmp_ranks[of "raw_token x" v w] by (cases "c v") (auto simp: c_def)
  have f: "c v \<noteq> Less \<and> c v \<noteq> Greater \<longleftrightarrow> c v = Equal"
    "rank w \<le> rank v \<and> c v = Less \<longleftrightarrow> rank v = rank w \<and> c v = Less" "c v = Greater \<and> rank v \<le> rank w \<longleftrightarrow> rank v = rank w \<and> c v = Greater"
    "c v \<noteq> Less \<and> rank v \<le> rank w \<longleftrightarrow> rank v = rank w \<and> c v \<noteq> Less" "rank w \<le> rank v \<and> c v \<noteq> Greater \<longleftrightarrow> rank v = rank w \<and> c v \<noteq> Greater" for v
    using r[of v] l[of v] by (cases "c v"; auto)+
  show "picks x pre (Some (pre @ k)) (end_key (pre @ k)) (\<lambda>v. c v = Equal)"
    "picks x pre (Some tp) (Some (pre @ k)) (\<lambda>v. rank v = rank w \<and> c v = Less)"
    "picks x pre (end_key (pre @ k)) (end_key tp) (\<lambda>v. rank v = rank w \<and> c v = Greater)"
    "picks x pre (Some (pre @ k)) (end_key tp) (\<lambda>v. rank v = rank w \<and> c v \<noteq> Less)"
    "picks x pre (Some tp) (end_key (pre @ k)) (\<lambda>v. rank v = rank w \<and> c v \<noteq> Greater)"
    using b f by (simp_all add: picks_def)
qed

lemma picks_between:
  assumes "codes x w k" "codes x u l"
  shows "picks x pre (Some (pre @ k)) (Some (pre @ l)) (\<lambda>v. vcmp (raw_token x) v w \<noteq> Less \<and> vcmp (raw_token x) v u = Less)"
  using codes_less[OF _ assms(2)] not_less_code[OF _ assms(1)] by (simp add: picks_def from_bound_def below_bound_def)

lemma prefix_bounds:
  assumes "b \<noteq> 255"
  shows "from_bound (Some (b # q)) K \<and> below_bound (end_key (b # q)) K \<longleftrightarrow> (\<exists>t. K = (b # q) @ t)"
proof -
  obtain e where e: "end_key (b # q) = Some e" using end_key_Cons[OF assms] by blast
  have "b # q \<le> (b # q) @ t" for t by (cases t) (auto simp flip: bcmp_iff(1) simp: order_le_less simp del: append_Cons)
  then show ?thesis using below_end[OF e, of K] by (auto simp: from_bound_def below_bound_def e not_less)
qed

lemma picks_prefix:
  assumes w: "codes x (String t) k" and pre: "pre = [] \<or> pre = [8]"
  defines "q \<equiv> take (length (pre @ k) - 2) (pre @ k)"
  shows "picks x pre (Some q) (end_key q) (\<lambda>v. case v of String s \<Rightarrow> starts_with s t | _ \<Rightarrow> False)"
  unfolding picks_def
proof (intro allI impI)
  fix v a s
  assume v: "codes x v a"
  obtain b where b: "text_code (as_bytes t) = b @ [0, 0]"
    "\<And>s r. (\<exists>u. text_code s @ r = b @ u) \<longleftrightarrow> take (length (as_bytes t)) s = as_bytes t" using text_code_body by metis
  have k: "k = 7 # b @ [0, 0]" using w b(1) by (auto simp: codes_def encode_equality_def)
  then have q: "q = pre @ 7 # b" by (simp add: q_def)
  have "from_bound (Some q) (pre @ a @ s) \<and> below_bound (end_key q) (pre @ a @ s) \<longleftrightarrow> (\<exists>u. pre @ a @ s = q @ u)"
    using pre prefix_bounds[of 7 b "a @ s"] prefix_bounds[of 8 "7 # b" "8 # a @ s"] by (cases "pre = []") (simp_all add: q)
  also have "\<dots> \<longleftrightarrow> (\<exists>u. a @ s = 7 # b @ u)" by (simp add: q)
  also have "\<dots> \<longleftrightarrow> (case v of String s \<Rightarrow> starts_with s t | _ \<Rightarrow> False)"
  proof (cases v)
    case (String r)
    then have "a = 7 # text_code (as_bytes r)" using v by (auto simp: codes_def encode_equality_def)
    moreover have "take (length t) (as_bytes r) = as_bytes t \<longleftrightarrow> take (length t) r = t" by (metis as_bytes_def as_bytes_inj take_map)
    ultimately show ?thesis using b(2)[of "as_bytes r" s] String by (simp add: starts_with_def)
  qed (use v in \<open>auto simp: codes_def encode_equality_def split: if_splits\<close>)
  finally show "from_bound (Some q) (pre @ a @ s) \<and> below_bound (end_key q) (pre @ a @ s) \<longleftrightarrow> (case v of String s \<Rightarrow> starts_with s t | _ \<Rightarrow> False)" .
qed

end
