(* ===== verification/Index_Answers.thy ===== *)
theory Index_Answers
  imports Index_Plan
begin

text \<open>
  The answers of plans: the recipes of \<^verbatim>\<open>src/indexes/planner.rs\<close> against the evaluator of \<^verbatim>\<open>src/query/eval.rs\<close>, on indexes that have followed the changes of
  their table. The meaning of each range of the planner (\<open>op_pred\<close>, in \<^verbatim>\<open>Index_Plan\<close>) is related to the entries of a row, the recipes of
  single conditions to the evaluator's answer on the row, and those of whole conditions by induction. Listing and counting follow, and
  the case in which the planner is wrong.
\<close>

section \<open>The rows of a leaf\<close>

text \<open>The entries that lead to \<open>row\<close> are \<open>K\<close>.\<close>

definition leads :: "pair \<Rightarrow> index_manifest \<Rightarrow> string \<Rightarrow> bytes set \<Rightarrow> bool" where
  "leads pr d row K \<longleftrightarrow> tbl_ok (entries_of pr d) \<and> (\<forall>k. tbl_get (entries_of pr d) k = Some row \<longleftrightarrow> k \<in> K)"

lemma range_rows:
  assumes "leads pr d row K" "entries_for x pre vs K" "picks x pre lower upper P"
  shows "row \<in> node_rows pr (NRange d lower upper dedup) \<longleftrightarrow> (\<exists>v \<in> set vs. P v)"
proof -
  have "row \<in> node_rows pr (NRange d lower upper dedup) \<longleftrightarrow> (\<exists>k \<in> K. from_bound lower k \<and> below_bound upper k)" using assms(1) by (auto simp: leads_def)
  then show ?thesis using picks_rows[OF assms(2,3)] by simp
qed

lemma chain_union: "node_rows pr (foldl NUnion n ns) = node_rows pr n \<union> (\<Union>m \<in> set ns. node_rows pr m)"
  by (induction ns arbitrary: n) auto

lemma chain_intersection: "node_rows pr (foldl NIntersection n ns) = node_rows pr n \<inter> (\<Inter>m \<in> set ns. node_rows pr m)"
  by (induction ns arbitrary: n) auto

lemma chain_ok: "node_ok pr n \<Longrightarrow> \<forall>m \<in> set ns. node_ok pr m \<Longrightarrow> node_ok pr (foldl NUnion n ns) \<and> node_ok pr (foldl NIntersection n ns)"
  by (induction ns arbitrary: n) auto

lemma chain_nodes_Some:
  "chain_nodes f ns = Some nd \<Longrightarrow> \<exists>n rest. ns = n # rest \<and> nd = foldl f n rest"
  by (cases ns) (auto simp: chain_nodes_def)

lemma union_rows:
  assumes "chain_nodes NUnion ns = Some nd"
  shows "row \<in> node_rows pr nd \<longleftrightarrow> (\<exists>m \<in> set ns. row \<in> node_rows pr m)" "\<forall>m \<in> set ns. node_ok pr m \<Longrightarrow> node_ok pr nd"
  using chain_nodes_Some[OF assms] chain_ok by (auto simp: chain_union)

lemma intersection_rows:
  assumes "chain_nodes NIntersection ns = Some nd"
  shows "row \<in> node_rows pr nd \<longleftrightarrow> (\<forall>m \<in> set ns. row \<in> node_rows pr m)" "\<forall>m \<in> set ns. node_ok pr m \<Longrightarrow> node_ok pr nd"
  using chain_nodes_Some[OF assms] chain_ok by (auto simp: chain_intersection)

lemma bound_key_codes:
  assumes "raw_numbers (raw_token x)" "value_ok w" "bound_key x d w = Inr k"
  shows "\<exists>a. codes x w a \<and> k = key_prefix d @ a"
  using assms by (auto simp: bound_key_def codes_def)

lemma in_arm_rows:
  assumes rn: "raw_numbers (raw_token x)" and ws: "\<forall>w \<in> set ws. value_ok w" and k: "leads pr d row K" "entries_for x (key_prefix d) vs K"
    and n: "mapM (\<lambda>v. rbind (bound_key x d v) (\<lambda>k. Inr (NRange d (Some k) (end_key k) False))) ws = Inr ns" "chain_nodes NUnion ns = Some nd"
  shows "row \<in> node_rows pr nd \<longleftrightarrow> (\<exists>w \<in> set ws. \<exists>v \<in> set vs. vcmp (raw_token x) v w = Equal)" "node_ok pr nd"
proof -
  let ?f = "\<lambda>v. rbind (bound_key x d v) (\<lambda>k. Inr (NRange d (Some k) (end_key k) False))"
  have one: "(row \<in> node_rows pr m \<longleftrightarrow> (\<exists>v \<in> set vs. vcmp (raw_token x) v w = Equal)) \<and> node_ok pr m" if w: "w \<in> set ws" "?f w = Inr m" for w m
  proof -
    obtain b where b: "bound_key x d w = Inr b" "m = NRange d (Some b) (end_key b) False" using w(2) by (cases "bound_key x d w") auto
    obtain a where a: "codes x w a" "b = key_prefix d @ a" using bound_key_codes[OF rn _ b(1)] ws w(1) by blast
    show ?thesis using range_rows[OF k picks_ranges(1)[OF a(1) key_prefix_cases], of False] k(1) unfolding b(2) a(2) leads_def by simp
  qed
  show "row \<in> node_rows pr nd \<longleftrightarrow> (\<exists>w \<in> set ws. \<exists>v \<in> set vs. vcmp (raw_token x) v w = Equal)"
    unfolding union_rows(1)[OF n(2)] using one mapM_Inr_set[OF n(1)] mapM_Inr_in[OF n(1)] by meson
  show "node_ok pr nd" using union_rows(2)[OF n(2)] one mapM_Inr_set[OF n(1)] by meson
qed

lemma value_arm_rows:
  assumes rn: "raw_numbers (raw_token x)" and ws: "\<forall>w \<in> set ws. value_ok w" "ws = w # rest"
    and k: "leads pr d row K" "entries_for x (key_prefix d) vs K"
    and arm: "leaf_arm x d p cop ws w = Inr (Some (nd, cov))" "op_kind cop = KValue"
  shows "row \<in> node_rows pr nd \<longleftrightarrow> (\<exists>v \<in> set vs. op_pred (raw_token x) cop ws v)" "node_ok pr nd" "cov \<longleftrightarrow> arm_covers cop ws"
proof -
  obtain b where b: "bound_key x d w = Inr b" using arm(1) by (auto simp: leaf_arm_def)
  obtain a where a: "codes x w a" "b = key_prefix d @ a" using bound_key_codes[OF rn _ b] ws by auto
  note r = picks_ranges[OF a(1) key_prefix_cases]
  have t: "tbl_ok (entries_of pr d)" using k(1) by (simp add: leads_def)
  note rr = range_rows[OF k]
  have "(row \<in> node_rows pr nd \<longleftrightarrow> (\<exists>v \<in> set vs. op_pred (raw_token x) cop ws v)) \<and> node_ok pr nd \<and> (cov \<longleftrightarrow> arm_covers cop ws)"
  proof (cases cop)
    case Ne
    have ne: "op_pred (raw_token x) cop ws v \<longleftrightarrow> rank v = rank w \<and> vcmp (raw_token x) v w = Less \<or> rank v = rank w \<and> vcmp (raw_token x) v w = Greater" for v
      using Ne ws(2) by (cases "vcmp (raw_token x) v w") (auto simp: op_pred_def)
    show ?thesis unfolding ne using arm(1) Ne b a(2) t rr[OF r(2)] rr[OF r(3)]
      by (auto simp: leaf_arm_def arm_covers_def Let_def simp del: node_rows.simps(1) take_append)
  next
    case Between
    then obtain u us l where u: "rest = u # us" "bound_key x d u = Inr l" "nd = NRange d (Some b) (Some l) (\<not> index_scalar_path p)" "cov = (kind_tag w = kind_tag u)"
      using arm(1) b ws(2) by (auto simp: leaf_arm_def split: list.splits)
    obtain c where c: "codes x u c" "l = key_prefix d @ c" using bound_key_codes[OF rn _ u(2)] ws u(1) by auto
    show ?thesis using rr[OF picks_between[OF a(1) c(1)], of "\<not> index_scalar_path p"] Between u a(2) c(2) ws(2) t
      by (simp add: op_pred_def arm_covers_def Let_def del: node_rows.simps)
  next
    case In
    then obtain ns where n: "mapM (\<lambda>v. rbind (bound_key x d v) (\<lambda>k. Inr (NRange d (Some k) (end_key k) False))) ws = Inr ns"
      "chain_nodes NUnion ns = Some nd" "cov"
      using arm(1) b by (auto simp: leaf_arm_def)
    show ?thesis using in_arm_rows[OF rn ws(1) k n(1,2)] In n(3) ws(2) by (auto simp: op_pred_def arm_covers_def Let_def)
  next
    case Prefix
    then obtain s where s: "w = String s" "nd = NRange d (Some (take (length b - 2) b)) (end_key (take (length b - 2) b)) (\<not> index_scalar_path p)" "cov"
      using arm(1) b by (cases w) (auto simp: leaf_arm_def Let_def)
    have "op_pred (raw_token x) cop ws v \<longleftrightarrow> (case v of String r \<Rightarrow> starts_with r s | _ \<Rightarrow> False)" for v
      using Prefix ws(2) s(1) by (cases v) (simp_all add: op_pred_def)
    then show ?thesis using rr[OF picks_prefix[OF a(1)[unfolded s(1)] key_prefix_cases], of "\<not> index_scalar_path p"] s(2,3) Prefix a(2) t
      by (simp add: arm_covers_def del: node_rows.simps take_append)
  qed (use arm b a(2) t ws(2) rr[OF r(1)] rr[OF r(3)] rr[OF r(4)] rr[OF r(2)] rr[OF r(5)] in
      \<open>auto simp: leaf_arm_def arm_covers_def op_kind_def op_pred_def Let_def simp del: node_rows.simps take_append\<close>)
  then show "row \<in> node_rows pr nd \<longleftrightarrow> (\<exists>v \<in> set vs. op_pred (raw_token x) cop ws v)" "node_ok pr nd" "cov \<longleftrightarrow> arm_covers cop ws" by blast+
qed

section \<open>Tokens and terms\<close>

lemma term_values_tokens:
  "term_values h x KToken vs = Inr vals \<Longrightarrow> \<exists>toks. vals = map String toks \<and> set toks = (\<Union>s \<in> {s. String s \<in> set vs}. set (tokens x s))"
proof (induction vs arbitrary: vals)
  case (Cons v vs)
  show ?case
  proof (cases "\<exists>s. v = String s")
    case True
    then obtain s out where s: "v = String s" "term_values h x KToken vs = Inr out" "vals = map String (tokens x s) @ out" using Cons.prems by auto
    obtain toks where "out = map String toks" "set toks = (\<Union>s \<in> {s. String s \<in> set vs}. set (tokens x s))" using Cons.IH[OF s(2)] by blast
    then show ?thesis using s by (intro exI[of _ "tokens x s @ toks"]) auto
  next
    case False
    then have "term_values h x KToken vs = Inr vals" using Cons.prems by (cases v) auto
    moreover have "{s. String s \<in> set (v # vs)} = {s. String s \<in> set vs}" using False by auto
    ultimately show ?thesis using Cons.IH by simp
  qed
qed simp

lemma token_entries:
  assumes rn: "raw_numbers (raw_token x)" and d: "mf_kind d = KToken" "first_path d = Some p" "\<not> is_compound d"
    and k: "row_keys h x d row bs seq = Inr K"
  shows "\<exists>vs toks. path_values x bs p = Inr vs \<and> entries_for x [] (map String toks) K \<and>
    set toks = (\<Union>s \<in> {s. String s \<in> set vs}. set (tokens x s))"
proof -
  have p: "mf_paths d = [p]" using d(2,3) by (auto simp: first_path_def is_compound_def split: list.splits)
  obtain vs vals ks where r: "path_values x bs p = Inr vs" "term_values h x KToken vs = Inr vals" "mapM (\<lambda>v. entry_key x v row) vals = Inr ks" "K = set ks"
    using k d(1) p by (auto simp: row_keys_def sampled_values_def indexed_values_def definition_key_def)
  obtain toks where t: "vals = map String toks" "set toks = (\<Union>s \<in> {s. String s \<in> set vs}. set (tokens x s))" using term_values_tokens[OF r(2)] by blast
  have "entries_for x [] vals K" using entry_keys_for[OF rn r(3)] r(4) t(1) by (simp add: list_all_iff)
  then show ?thesis using r(1) t by blast
qed

lemma text_arm_rows:
  assumes rn: "raw_numbers (raw_token x)" and k: "leads pr d row K" "entries_for x [] (map String toks) K"
    and arm: "leaf_arm x d p Text ws w = Inr (Some (nd, cov))"
  shows "\<exists>t. w = String t \<and> tokens x t \<noteq> [] \<and> cov = index_scalar_path p \<and> node_ok pr nd \<and> (row \<in> node_rows pr nd \<longleftrightarrow> set (tokens x t) \<subseteq> set toks)"
proof -
  let ?f = "\<lambda>t. rbind (encode_equality (raw_token x) (String t)) (\<lambda>k. Inr (NRange d (Some k) (end_key k) False))"
  obtain t ns where t: "w = String t" "tokens x t \<noteq> []" "cov = index_scalar_path p" "mapM ?f (tokens x t) = Inr ns" "chain_nodes NIntersection ns = Some nd"
    using arm by (cases w) (auto simp: leaf_arm_def Let_def split: if_splits)
  have one: "(row \<in> node_rows pr m \<longleftrightarrow> u \<in> set toks) \<and> node_ok pr m" if m: "?f u = Inr m" for u m
  proof -
    obtain a where a: "codes x (String u) a" "m = NRange d (Some a) (end_key a) False" using m rn by (auto simp: codes_def)
    have "(\<exists>v \<in> set (map String toks). vcmp (raw_token x) v (String u) = Equal) \<longleftrightarrow> u \<in> set toks" by auto
    then show ?thesis using range_rows[OF k picks_ranges(1)[OF a(1)], of False] k(1) unfolding a(2) leads_def by (simp del: node_rows.simps)
  qed
  have "row \<in> node_rows pr nd \<longleftrightarrow> (\<forall>u \<in> set (tokens x t). u \<in> set toks)"
    unfolding intersection_rows(1)[OF t(5)] using one mapM_Inr_set[OF t(4)] mapM_Inr_in[OF t(4)] by meson
  moreover have "node_ok pr nd" using intersection_rows(2)[OF t(5)] one mapM_Inr_set[OF t(4)] by meson
  ultimately show ?thesis using t(1-3) by blast
qed

lemma scalar_tokens:
  "scalar x Text (String t # rest) v = Inr c \<Longrightarrow> c \<longleftrightarrow> tokens x t \<noteq> [] \<and> (\<exists>s. v = String s \<and> set (tokens x t) \<subseteq> set (tokens x s))"
  by (cases v) (auto simp: scalar_def string_op_def is_ordering_op_def list_all_iff)

lemma text_leaf_rows:
  assumes rn: "raw_numbers (raw_token x)" and d: "mf_kind d = KToken" "first_path d = Some p" "\<not> is_compound d"
    and k: "row_keys h x d row bs seq = Inr K" "leads pr d row K" and p: "SAll \<notin> set (p_steps p)"
    and arm: "leaf_arm x d p Text ws w = Inr (Some (nd, cov))" "ws = w # rest"
  shows "node_ok pr nd" "quantified x bs p (scalar x Text ws) = Inr b \<Longrightarrow>
    (b \<longrightarrow> row \<in> node_rows pr nd) \<and> (cov \<and> \<not> b \<longrightarrow> row \<notin> node_rows pr nd)"
proof -
  obtain vs toks where v: "path_values x bs p = Inr vs" "entries_for x [] (map String toks) K" "set toks = (\<Union>s \<in> {s. String s \<in> set vs}. set (tokens x s))"
    using token_entries[OF rn d k(1)] by blast
  obtain t where t: "w = String t" "tokens x t \<noteq> []" "cov = index_scalar_path p" "node_ok pr nd" "row \<in> node_rows pr nd \<longleftrightarrow> set (tokens x t) \<subseteq> set toks"
    using text_arm_rows[OF rn k(2) v(2) arm(1)] by blast
  show "node_ok pr nd" by (rule t(4))
  assume q: "quantified x bs p (scalar x Text ws) = Inr b"
  have sc: "c \<longleftrightarrow> (\<exists>s. v = String s \<and> set (tokens x t) \<subseteq> set (tokens x s))" if "scalar x Text ws v = Inr c" for v c
    using scalar_tokens[of x t rest v c] that t(1,2) arm(2) by simp
  show "(b \<longrightarrow> row \<in> node_rows pr nd) \<and> (cov \<and> \<not> b \<longrightarrow> row \<notin> node_rows pr nd)"
  proof (intro conjI impI)
    assume b
    then obtain u where u: "u \<in> set vs" "scalar x Text ws u = Inr True" using quantified_path_values[OF p _ v(1), of "scalar x Text ws"] q by auto
    obtain s where "u = String s" "set (tokens x t) \<subseteq> set (tokens x s)" using sc[OF u(2)] by blast
    then show "row \<in> node_rows pr nd" unfolding t(5) v(3) using u(1) by blast
  next
    assume n: "cov \<and> \<not> b"
    then obtain u where u: "vs = [u]" using v(1) t(3) path_values_scalar[of p x bs] by (cases "path_value x bs p") auto
    have "scalar x Text ws u = Inr False" using quantified_none[OF p _ v(1), of "scalar x Text ws" u] q n u by simp
    then have f: "\<not> (\<exists>s. u = String s \<and> set (tokens x t) \<subseteq> set (tokens x s))" using sc[of u False] by simp
    obtain z where z: "z \<in> set (tokens x t)" using t(2) by (cases "tokens x t") auto
    show "row \<notin> node_rows pr nd" unfolding t(5) v(3) using f z u by (cases u) auto
  qed
qed

lemma contains_leaf_rows:
  assumes tri: "tri_ok (tri_of pr (mf_id d))" "grams_of (tri_of pr (mf_id d)) row = Some (set grams)"
    and i: "trigram_inputs h x (postings_kind cop) (Some p) row bs = Inr (grams, st)" and cop: "cop = Contains \<or> cop = Parts"
    and p: "SAll \<notin> set (p_steps p)" "texts_ok x bs p" "\<forall>t. w = String t \<longrightarrow> is_str t" and plan: "contains_leaf x d cop w = Some nd"
  shows "node_ok pr nd" "quantified x bs p (scalar x cop (w # rest)) = Inr True \<Longrightarrow> row \<in> node_rows pr nd"
proof -
  obtain t where t: "w = String t" "postings_node d (if cop = Parts then tokens x t else trigrams t) = Some nd"
    using plan cop by (cases w) (auto simp: contains_leaf_def)
  let ?terms = "if cop = Parts then tokens x t else trigrams t"
  note n = postings_node_rows[OF t(2)]
  obtain g gs where g: "nd = foldl NIntersection (NPostings d g) (map (NPostings d) gs)"
    using t(2) by (auto simp: postings_node_def split: list.splits if_splits)
  show ok: "node_ok pr nd" unfolding g using tri(1) by (intro conjunct2[OF chain_ok]) auto
  assume q: "quantified x bs p (scalar x cop (w # rest)) = Inr True"
  obtain vs where vs: "path_values x bs p = Inr vs" "gather_terms h x (postings_kind cop) [] vs = Inr grams" using i by (auto simp: trigram_inputs_def)
  obtain u where u: "u \<in> set vs" "scalar x cop (w # rest) u = Inr True" using quantified_path_values[OF p(1) q vs(1)] by blast
  have "scalar x cop [String t] u = scalar x cop (w # rest) u" using t(1) cop by (elim disjE) (simp_all add: scalar_def is_ordering_op_def)
  then have "scalar x cop [String t] u = Inr True" using u(2) by simp
  then obtain s where s: "u = String s" "if cop = Contains then contains_sub s t else set (tokens x t) \<subseteq> set (tokens x s)" using scalar_text[OF _ cop] by blast
  have "is_str s" using p(2) vs(1) u(1) s(1) by (auto simp: texts_ok_def)
  then have "set ?terms \<subseteq> set (if cop = Parts then tokens x s else trigrams s)"
    using s(2) trigrams_contained[of s t] p(3) t(1) cop by auto
  then have "set ?terms \<subseteq> set grams" using gather_terms_set[OF vs(2)] u(1) s(1) by (auto simp: postings_kind_def split: if_splits)
  then show "row \<in> node_rows pr nd" unfolding pure_rows(2)[OF ok n(1), symmetric] n(2) using tri(2) by (auto simp: rows_with_def)
qed

section \<open>The indexes of a table\<close>

text \<open>The index \<open>d\<close> has followed the changes of its table.\<close>

definition followed :: "heap \<Rightarrow> old_form \<Rightarrow> ext \<Rightarrow> pair \<Rightarrow> row_change list \<Rightarrow> index_manifest \<Rightarrow> bool" where
  "followed h old_form x pr ops d \<longleftrightarrow> followable h x d ops \<and> foldM (run_change h old_form x d) create_tables ops = Inr (pr_index pr (mf_id d))"

abbreviation table_of :: "row_change list \<Rightarrow> rows" where
  "table_of ops \<equiv> foldl apply_change (\<lambda>_. None) ops"

lemma stored_change: "foldl apply_change m ops row = Some (bs, seq) \<Longrightarrow> m row = Some (bs, seq) \<or> RowPut row bs seq \<in> set ops"
proof (induction ops arbitrary: m)
  case (Cons c ops)
  then show ?case by (cases c) (fastforce split: if_splits)+
qed simp

lemma followed_index: "followed h old_form x pr ops d \<Longrightarrow> index_holds h old_form x d (pr_index pr (mf_id d)) (table_of ops)"
  using followed_holds[of h x d ops old_form] by (auto simp: followed_def)

lemma followed_value:
  assumes f: "followed h old_form x pr ops d" "\<not> uses_postings (mf_kind d)"
  shows "tbl_get (entries_of pr d) k = Some row \<Longrightarrow> table_of ops row \<noteq> None" "tbl_ok (entries_of pr d)"
    "table_of ops row = Some (bs, seq) \<Longrightarrow> \<exists>K. row_keys h x d row bs seq = Inr K \<and> row_fits h x d row bs seq \<and> leads pr d row K"
proof -
  have v: "vi_holds old_form x d (is_value (pr_index pr (mf_id d))) (\<lambda>row. map_option (keys_of h x d row) (table_of ops row))"
    using followed_index[OF f(1)] f(2) by (simp add: index_holds_def)
  then have e: "tbl_get (entries_of pr d) k = Some row \<longleftrightarrow> (\<exists>r. table_of ops row = Some r \<and> k \<in> keys_of h x d row r)" for k row
    by (auto simp: vi_holds_def entries_of_def)
  show t: "tbl_ok (entries_of pr d)" using v by (simp add: vi_holds_def entries_of_def)
  show "tbl_get (entries_of pr d) k = Some row \<Longrightarrow> table_of ops row \<noteq> None" using e by auto
  assume r: "table_of ops row = Some (bs, seq)"
  then have "change_ok h x d (RowPut row bs seq)" using stored_change[OF r] f(1) by (auto simp: followed_def followable_def)
  then obtain K where "row_keys h x d row bs seq = Inr K" "row_fits h x d row bs seq" using f(2) by auto
  then show "\<exists>K. row_keys h x d row bs seq = Inr K \<and> row_fits h x d row bs seq \<and> leads pr d row K"
    using e r t by (auto simp: leads_def keys_of_def)
qed

lemma followed_terms:
  assumes f: "followed h old_form x pr ops d" "uses_postings (mf_kind d)"
  shows "tri_ok (tri_of pr (mf_id d))" "grams_of (tri_of pr (mf_id d)) row \<noteq> None \<Longrightarrow> table_of ops row \<noteq> None"
    "table_of ops row = Some (bs, seq) \<Longrightarrow>
      \<exists>grams st. trigram_inputs h x (mf_kind d) (first_path d) row bs = Inr (grams, st) \<and> grams_of (tri_of pr (mf_id d)) row = Some (set grams)"
proof -
  have v: "tri_ok (tri_of pr (mf_id d))" "grams_of (tri_of pr (mf_id d)) = (\<lambda>row. map_option (\<lambda>r. set (terms_of h x d row r)) (table_of ops row))"
    using followed_index[OF f(1)] f(2) by (auto simp: index_holds_def tri_of_def)
  show "tri_ok (tri_of pr (mf_id d))" by (rule v(1))
  show "grams_of (tri_of pr (mf_id d)) row \<noteq> None \<Longrightarrow> table_of ops row \<noteq> None" using v(2) by auto
  assume r: "table_of ops row = Some (bs, seq)"
  then have "change_ok h x d (RowPut row bs seq)" using stored_change[OF r] f(1) by (auto simp: followed_def followable_def)
  then obtain grams st where "trigram_inputs h x (mf_kind d) (first_path d) row bs = Inr (grams, st)" using f(2) by auto
  then show "\<exists>grams st. trigram_inputs h x (mf_kind d) (first_path d) row bs = Inr (grams, st) \<and> grams_of (tri_of pr (mf_id d)) row = Some (set grams)"
    using v(2) r by (auto simp: terms_of_def)
qed

text \<open>A plan over sound indexes that lists no row but those of the table.\<close>

definition node_within :: "pair \<Rightarrow> rows \<Rightarrow> node \<Rightarrow> bool" where
  "node_within pr rows nd \<longleftrightarrow> node_ok pr nd \<and> (\<forall>row \<in> node_rows pr nd. rows row \<noteq> None)"

lemma within_pair: "node_within pr rows a \<Longrightarrow> node_within pr rows b \<Longrightarrow> node_within pr rows (NUnion a b) \<and> node_within pr rows (NIntersection a b)"
  by (auto simp: node_within_def)

lemma within_chain: "node_within pr rows n \<Longrightarrow> \<forall>m \<in> set ns. node_within pr rows m \<Longrightarrow>
    node_within pr rows (foldl NUnion n ns) \<and> node_within pr rows (foldl NIntersection n ns)"
  by (induction ns arbitrary: n) (auto simp: within_pair)

lemma within_chain_nodes:
  "chain_nodes f ns = Some nd \<Longrightarrow> \<forall>m \<in> set ns. node_within pr rows m \<Longrightarrow> f = NUnion \<or> f = NIntersection \<Longrightarrow> node_within pr rows nd"
  using chain_nodes_Some[of f ns nd] within_chain[of pr rows] by fastforce

lemma within_leaf:
  assumes "followed h old_form x pr ops d"
  shows "\<not> uses_postings (mf_kind d) \<Longrightarrow> node_within pr (table_of ops) (NRange d lower upper dedup)"
    "uses_postings (mf_kind d) \<Longrightarrow> node_within pr (table_of ops) (NPostings d g)"
  using followed_value(1,2)[OF assms] followed_terms(1,2)[OF assms] by (auto simp: node_within_def rows_with_def)

lemma chain_leaf_within:
  assumes "followed h old_form x pr ops d" "\<not> uses_postings (mf_kind d)" "f = NUnion \<or> f = NIntersection"
    "mapM (\<lambda>v. rbind (g v) (\<lambda>k. Inr (NRange d (Some k) (end_key k) False))) us = Inr ns" "chain_nodes f ns = Some nd"
  shows "node_within pr (table_of ops) nd"
proof (rule within_chain_nodes[OF assms(5) _ assms(3)])
  show "\<forall>n \<in> set ns. node_within pr (table_of ops) n" using mapM_Inr_set[OF assms(4)] within_leaf(1)[OF assms(1,2)] by fastforce
qed

lemma leaf_arm_within:
  assumes f: "followed h old_form x pr ops d" and d: "mf_kind d = op_kind cop" "\<forall>n. cop \<noteq> Fuzzy n"
    and arm: "leaf_arm x d p cop ws w = Inr (Some (nd, cov))"
  shows "node_within pr (table_of ops) nd"
proof (cases "uses_postings (mf_kind d)")
  case True
  then have "cop = Contains \<or> cop = Parts" using d(1) by (cases cop) (auto simp: op_kind_def uses_postings_def)
  then obtain terms where "postings_node d terms = Some nd" using arm by (auto simp: leaf_arm_def Let_def contains_leaf_def split: "value.splits")
  then obtain g gs where "nd = foldl NIntersection (NPostings d g) (map (NPostings d) gs)"
    by (auto simp: postings_node_def split: list.splits if_splits)
  then show ?thesis using within_chain[of pr "table_of ops" "NPostings d g" "map (NPostings d) gs"] within_leaf(2)[OF f True] by auto
next
  case False
  note l = within_leaf(1)[OF f False]
  show ?thesis
  proof (cases cop)
    case In
    then show ?thesis using arm chain_leaf_within[OF f False, of NUnion "bound_key x d" ws] by (auto simp: leaf_arm_def Let_def)
  next
    case Text
    then show ?thesis using arm chain_leaf_within[OF f False, of NIntersection "\<lambda>t. encode_equality (raw_token x) (String t)"] by (cases w) (auto simp: leaf_arm_def Let_def split: if_splits)
  next
    case Ne
    then show ?thesis using arm l within_pair by (auto simp: leaf_arm_def Let_def)
  next
    case Between
    then obtain u v us where "ws = v # u # us" using arm by (cases ws rule: remdups_adj.cases) (auto simp: leaf_arm_def Let_def)
    then show ?thesis using Between arm l by (auto simp: leaf_arm_def Let_def)
  next
    case Prefix
    then show ?thesis using arm l by (cases w) (auto simp: leaf_arm_def Let_def)
  qed (use arm l d False in \<open>auto simp: leaf_arm_def Let_def op_kind_def uses_postings_def\<close>)
qed

text \<open>The conditions the statement is about: the operands are values of their types that have a key, the condition is not a fuzzy one, and
  booleans are not ordered.\<close>

definition operand_ok :: "ext \<Rightarrow> value \<Rightarrow> bool" where
  "operand_ok x w \<longleftrightarrow> value_ok w \<and> (case w of String t \<Rightarrow> is_str t | _ \<Rightarrow> True) \<and>
     (case encode_equality (raw_token x) w of Inr _ \<Rightarrow> True | Inl _ \<Rightarrow> False)"

definition operands_ok :: "ext \<Rightarrow> path \<Rightarrow> compare \<Rightarrow> value list \<Rightarrow> bool" where
  "operands_ok x p cop vs \<longleftrightarrow> (\<forall>n. cop \<noteq> Fuzzy n) \<and> (case mapM (interpret_kind x (p_kind p)) vs of
      Inr ws \<Rightarrow> list_all (operand_ok x) ws \<and> \<not> bool_order cop ws
    | Inl _ \<Rightarrow> True)"

lemma interpret_not_empty: "interpret_kind x k v = Inr w \<Longrightarrow> \<not> is_empty v \<Longrightarrow> \<not> is_empty w"
  by (cases v) (auto split: if_splits)

lemma leaf_recipe:
  assumes "leaf x defs t p cop vs = Inr rs" "rc \<in> set rs"
  shows "\<exists>d ws w rest. d \<in> set (eligible defs t) \<and> mapM (interpret_kind x (p_kind p)) vs = Inr ws \<and> ws = w # rest \<and> SAll \<notin> set (p_steps p) \<and>
    usable cop p d \<and> leaf_arm x d p cop ws w = Inr (Some (rc_node rc, rc_covered rc))"
proof -
  have p: "SAll \<notin> set (p_steps p)" using assms by (auto simp: leaf_def split: if_splits)
  obtain ws where ws: "mapM (interpret_kind x (p_kind p)) vs = Inr ws" using assms p by (auto simp: leaf_def)
  obtain w rest where w: "ws = w # rest" using assms p ws by (cases ws) (auto simp: leaf_def)
  let ?f = "\<lambda>d. rbind (leaf_arm x d p cop ws w) (\<lambda>arm. Inr (map_option (\<lambda>(n, c). \<lparr>rc_node = n, rc_ids = [mf_id d], rc_covered = c\<rparr>) arm))"
  obtain os where os: "mapM ?f (filter (usable cop p) (eligible defs t)) = Inr os" "Some rc \<in> set os"
    using assms p ws w by (auto simp: leaf_def map_filter_def split: if_splits)
  obtain d where d: "d \<in> set (filter (usable cop p) (eligible defs t))" "?f d = Inr (Some rc)" using mapM_Inr_set[OF os] by blast
  obtain n c where "leaf_arm x d p cop ws w = Inr (Some (n, c))" "rc = \<lparr>rc_node = n, rc_ids = [mf_id d], rc_covered = c\<rparr>"
    using d(2) by (cases "leaf_arm x d p cop ws w") auto
  then show ?thesis using d(1) ws w p by auto
qed

text \<open>A recipe of one condition, against the evaluator's answer on the row.\<close>

lemma operand_ok_codes: "raw_numbers (raw_token x) \<Longrightarrow> operand_ok x w \<Longrightarrow> \<exists>k. codes x w k"
  by (cases "encode_equality (raw_token x) w") (auto simp: operand_ok_def codes_def)

lemma leaf_arm_rows:
  assumes rn: "raw_numbers (raw_token x)" and f: "followed h old_form x pr ops d" "table_of ops row = Some (bs, seq)"
    and u: "usable cop p d" "SAll \<notin> set (p_steps p)" and ws: "ws = w # rest" "list_all (operand_ok x) ws" "\<forall>w \<in> set ws. \<not> is_empty w"
    and c: "\<forall>n. cop \<noteq> Fuzzy n" "\<not> bool_order cop ws" "texts_ok x bs p"
    and arm: "leaf_arm x d p cop ws w = Inr (Some (nd, cov))" and q: "quantified x bs p (scalar x cop ws) = Inr b"
  shows "(b \<longrightarrow> row \<in> node_rows pr nd) \<and> (cov \<and> \<not> b \<longrightarrow> row \<notin> node_rows pr nd)"
proof -
  have ok: "\<forall>w \<in> set ws. value_ok w" "\<forall>w \<in> set ws. \<not> is_empty w \<and> (\<exists>k. codes x w k)"
    using ws(2,3) rn operand_ok_codes by (auto simp: operand_ok_def list_all_iff)
  have d: "mf_kind d = op_kind cop" "first_path d = Some p" using u(1) by (auto simp: usable_def)
  consider "op_kind cop = KValue" | "cop = Text" | "cop = Contains \<or> cop = Parts" using c(1) by (cases cop) (auto simp: op_kind_def)
  then show ?thesis
  proof cases
    case 1
    then have "is_compound d \<longrightarrow> direction_at d 0 \<noteq> Some Desc" using u(1) by (auto simp: usable_def)
    moreover obtain K where K: "row_keys h x d row bs seq = Inr K" "row_fits h x d row bs seq" "leads pr d row K"
      using followed_value(3)[OF f(1) _ f(2)] d(1) 1 by (auto simp: uses_postings_def)
    ultimately obtain vs where vs: "path_values x bs p = Inr vs" "entries_for x (key_prefix d) vs K"
      using value_entries[OF rn _ d(2) _ K(1,2)] d(1) 1 by auto
    note rows = value_arm_rows[OF rn ok(1) ws(1) K(3) vs(2) arm 1]
    have "\<exists>a. codes x v a" if "v \<in> set vs" for v using vs(2) that by (auto simp: entries_for_def)
    then show ?thesis unfolding rows(1,3) using scalar_pred[OF _ _ ok(2) c(2) 1] by (intro quantified_decides[OF u(2) vs(1) q]) blast
  next
    case 2
    then have k: "mf_kind d = KToken" "\<not> is_compound d" using u(1) by (auto simp: usable_def op_kind_def)
    obtain K where K: "row_keys h x d row bs seq = Inr K" "leads pr d row K"
      using followed_value(3)[OF f(1) _ f(2)] k by (auto simp: uses_postings_def)
    show ?thesis using arm q unfolding 2 by (rule text_leaf_rows(2)[OF rn k(1) d(2) k(2) K u(2) _ ws(1)])
  next
    case 3
    then have k: "uses_postings (mf_kind d)" "mf_kind d = postings_kind cop" using d(1) by (auto simp: op_kind_def uses_postings_def postings_kind_def)
    obtain grams st where g: "trigram_inputs h x (postings_kind cop) (Some p) row bs = Inr (grams, st)"
      "grams_of (tri_of pr (mf_id d)) row = Some (set grams)" using followed_terms(3)[OF f(1) k(1) f(2)] d(2) k(2) by auto
    have a: "contains_leaf x d cop w = Some nd" "\<not> cov" using arm 3 by (auto simp: leaf_arm_def Let_def)
    have "is_str t" if "w = String t" for t using ws(1,2) that by (simp add: operand_ok_def)
    then show ?thesis using contains_leaf_rows(2)[OF followed_terms(1)[OF f(1) k(1)] g(2,1) 3 u(2) c(3) _ a(1)] a(2) q ws(1) by auto
  qed
qed

lemma vcmp_empty: "vcmp rv v Null = Equal \<longleftrightarrow> v = Null" "vcmp rv v Missing = Equal \<longleftrightarrow> v = Missing" "vcmp rv v Missing = Greater \<longleftrightarrow> v \<noteq> Missing"
  by (cases v; auto simp: ord_cmp_def)+

lemma presence_rows:
  assumes rn: "raw_numbers (raw_token x)" and f: "followed h old_form x pr ops d" "table_of ops row = Some (bs, seq)"
    and u: "usable cop p d" "SAll \<notin> set (p_steps p)" and t: "presence_values test = (cop, ws)" "ws = w # rest"
    and arm: "leaf_arm x d p cop ws w = Inr (Some (nd, cov))" and q: "quantified x bs p (\<lambda>v. Inr (presence_test test v)) = Inr b"
  shows "b \<longleftrightarrow> row \<in> node_rows pr (if test = Exists then open_upper nd else nd)"
proof -
  have 1: "op_kind cop = KValue" "\<forall>w \<in> set ws. value_ok w" using t(1) by (cases test; auto simp: op_kind_def)+
  then have d: "mf_kind d = KValue" "first_path d = Some p" "is_compound d \<longrightarrow> direction_at d 0 \<noteq> Some Desc" using u(1) by (auto simp: usable_def)
  obtain K where K: "row_keys h x d row bs seq = Inr K" "row_fits h x d row bs seq" "leads pr d row K"
    using followed_value(3)[OF f(1) _ f(2)] d(1) by (auto simp: uses_postings_def)
  obtain vs where vs: "path_values x bs p = Inr vs" "entries_for x (key_prefix d) vs K" using value_entries[OF rn d K(1,2)] by blast
  have "row \<in> node_rows pr (if test = Exists then open_upper nd else nd) \<longleftrightarrow> (\<exists>v \<in> set vs. presence_test test v)"
  proof (cases "test = Exists")
    case True
    then have nd: "nd = NRange d (end_key (key_prefix d @ [1])) (end_key (take (length (key_prefix d) + 1) (key_prefix d @ [1]))) (\<not> index_scalar_path p)"
      using arm t by (auto simp: leaf_arm_def bound_key_def encode_equality_def Let_def)
    have m: "codes x Missing [1]" using rn by (simp add: codes_def encode_equality_def)
    have "picks x (key_prefix d) (end_key (key_prefix d @ [1])) (if is_compound d then Some [9] else None) (\<lambda>v. v \<noteq> Missing)"
      using codes_end(2)[OF _ m key_prefix_cases[of d]] vcmp_empty(3)[of "raw_token x"] by (simp add: picks_def below_bound_def key_prefix_def del: vcmp.simps)
    note r = range_rows[OF K(3) vs(2) this]
    show ?thesis using r[of "\<not> index_scalar_path p"] True nd by (simp add: exists_value_def is_missing_def del: node_rows.simps)
  next
    case False
    then have "op_pred (raw_token x) cop ws v \<longleftrightarrow> presence_test test v" for v
      using t(1) by (cases test) (auto simp: op_pred_def vcmp_empty value_tests simp del: vcmp.simps)
    then show ?thesis using value_arm_rows(1)[OF rn 1(2) t(2) K(3) vs(2) arm 1(1)] False by simp
  qed
  then show ?thesis using quantified_decides[OF u(2) vs(1) q, of "presence_test test" True] by auto
qed

section \<open>Plans of whole conditions\<close>

fun plannable :: "ext \<Rightarrow> expr \<Rightarrow> bool" where
  "plannable x (Compare p cop vs) \<longleftrightarrow> operands_ok x p cop vs"
| "plannable x (And a b) \<longleftrightarrow> plannable x a \<and> plannable x b"
| "plannable x (Or a b) \<longleftrightarrow> plannable x a \<and> plannable x b"
| "plannable x _ \<longleftrightarrow> True"

fun row_texts :: "ext \<Rightarrow> bytes \<Rightarrow> expr \<Rightarrow> bool" where
  "row_texts x bs (Compare p cop vs) \<longleftrightarrow> texts_ok x bs p"
| "row_texts x bs (And a b) \<longleftrightarrow> row_texts x bs a \<and> row_texts x bs b"
| "row_texts x bs (Or a b) \<longleftrightarrow> row_texts x bs a \<and> row_texts x bs b"
| "row_texts x bs _ \<longleftrightarrow> True"

text \<open>The recipe lists every row the evaluator accepts and, when it covers the condition, none that it refuses.\<close>

definition answers :: "ext \<Rightarrow> pair \<Rightarrow> rows \<Rightarrow> expr \<Rightarrow> recipe \<Rightarrow> bool" where
  "answers x pr rows e rc \<longleftrightarrow> (\<forall>row bs seq b. rows row = Some (bs, seq) \<longrightarrow> row_texts x bs e \<longrightarrow> holds x bs e = Inr b \<longrightarrow>
     (b \<longrightarrow> row \<in> node_rows pr (rc_node rc)) \<and> (rc_covered rc \<and> \<not> b \<longrightarrow> row \<notin> node_rows pr (rc_node rc)))"

text \<open>What has to be known of the indexes of the table.\<close>

definition tracked :: "heap \<Rightarrow> old_form \<Rightarrow> ext \<Rightarrow> pair \<Rightarrow> row_change list \<Rightarrow> index_manifest list \<Rightarrow> string \<Rightarrow> bool" where
  "tracked h old_form x pr ops defs t \<longleftrightarrow> raw_numbers (raw_token x) \<and> (\<forall>d \<in> set (eligible defs t). followed h old_form x pr ops d)"

lemma compare_answers:
  assumes tr: "tracked h old_form x pr ops defs t" and f: "filters x defs t (Compare p cop vs) = Inr rs" "rc \<in> set rs" and ok: "plannable x (Compare p cop vs)"
  shows "node_within pr (table_of ops) (rc_node rc) \<and> answers x pr (table_of ops) (Compare p cop vs) rc"
proof -
  have e: "\<not> list_ex is_empty vs" "leaf x defs t p cop vs = Inr rs" using f by (auto split: if_splits)
  obtain d ws w rest where d: "d \<in> set (eligible defs t)" "mapM (interpret_kind x (p_kind p)) vs = Inr ws" "ws = w # rest" "SAll \<notin> set (p_steps p)"
    "usable cop p d" "leaf_arm x d p cop ws w = Inr (Some (rc_node rc, rc_covered rc))" using leaf_recipe[OF e(2) f(2)] by blast
  have fo: "followed h old_form x pr ops d" "raw_numbers (raw_token x)" using tr d(1) by (auto simp: tracked_def)
  have o: "\<forall>n. cop \<noteq> Fuzzy n" "list_all (operand_ok x) ws" "\<not> bool_order cop ws" using ok d(2) by (auto simp: operands_ok_def)
  have ne: "\<forall>w \<in> set ws. \<not> is_empty w" using mapM_Inr_set[OF d(2)] interpret_not_empty e(1) by (fastforce simp: list_ex_iff)
  have "node_within pr (table_of ops) (rc_node rc)" using leaf_arm_within[OF fo(1) _ o(1) d(6)] d(5) by (simp add: usable_def)
  moreover have "answers x pr (table_of ops) (Compare p cop vs) rc"
    unfolding answers_def using leaf_arm_rows[OF fo(2,1) _ d(5,4,3) o(2) ne o(1,3) _ d(6)] d(2) by (metis holds.simps(1) rbind_simps(2) row_texts.simps(1))
  ultimately show ?thesis by blast
qed

lemma presence_answers:
  assumes tr: "tracked h old_form x pr ops defs t" and f: "filters x defs t (Presence p test) = Inr rs" "rc \<in> set rs"
  shows "node_within pr (table_of ops) (rc_node rc) \<and> answers x pr (table_of ops) (Presence p test) rc"
proof -
  obtain cop vs where pv: "presence_values test = (cop, vs)" by (cases "presence_values test")
  obtain rs0 where r0: "leaf x defs t p cop vs = Inr rs0" "rs = (if test = Exists then map (\<lambda>r. r\<lparr>rc_node := open_upper (rc_node r)\<rparr>) rs0 else rs0)"
    using f(1) pv by (cases "leaf x defs t p cop vs") auto
  obtain rc0 where "rc0 \<in> set rs0" "rc_node rc = (if test = Exists then open_upper (rc_node rc0) else rc_node rc0)"
    using f(2) r0(2) by (cases "test = Exists") auto
  note r = r0(1) this
  obtain d ws w rest where d: "d \<in> set (eligible defs t)" "mapM (interpret_kind x (p_kind p)) vs = Inr ws" "ws = w # rest" "SAll \<notin> set (p_steps p)"
    "usable cop p d" "leaf_arm x d p cop ws w = Inr (Some (rc_node rc0, rc_covered rc0))" using leaf_recipe[OF r(1,2)] by blast
  have ws: "presence_values test = (cop, ws)" using pv d(2) by (cases test) auto
  have fo: "followed h old_form x pr ops d" "raw_numbers (raw_token x)" using tr d(1) by (auto simp: tracked_def)
  have k: "\<forall>n. cop \<noteq> Fuzzy n" "op_kind cop = KValue" using pv by (cases test; auto simp: op_kind_def)+
  have "node_within pr (table_of ops) (rc_node rc0)" using leaf_arm_within[OF fo(1) _ k(1) d(6)] d(5) by (simp add: usable_def)
  moreover have "node_within pr (table_of ops) (open_upper (rc_node rc0))" if ex: "test = Exists"
  proof -
    have "\<exists>lower upper dedup. NRange d lower upper dedup = rc_node rc0" using ex d(3,6) ws by (auto simp: leaf_arm_def Let_def)
    moreover have "\<not> uses_postings (mf_kind d)" using d(5) k(2) by (auto simp: usable_def uses_postings_def)
    ultimately show ?thesis using within_leaf(1)[OF fo(1)] by (metis open_upper.simps(1))
  qed
  moreover have "answers x pr (table_of ops) (Presence p test) rc"
    unfolding answers_def r(3) using presence_rows[OF fo(2,1) _ d(5,4) ws d(3,6)] by (metis holds.simps(2))
  ultimately show ?thesis using r(3) by auto
qed

lemma filters_answer:
  assumes tr: "tracked h old_form x pr ops defs t"
  shows "filters x defs t e = Inr rs \<Longrightarrow> rc \<in> set rs \<Longrightarrow> plannable x e \<Longrightarrow>
    node_within pr (table_of ops) (rc_node rc) \<and> answers x pr (table_of ops) e rc"
proof (induction e arbitrary: rs rc)
  case (Compare p cop vs)
  show ?case by (rule compare_answers[OF tr Compare])
next
  case (Presence p test)
  show ?case by (rule presence_answers[OF tr Presence(1,2)])
next
  case (And a b)
  obtain ls rs' where r: "filters x defs t a = Inr ls" "filters x defs t b = Inr rs'"
    "rs = map (\<lambda>r. r\<lparr>rc_covered := False\<rparr>) ls @ map (\<lambda>r. r\<lparr>rc_covered := False\<rparr>) rs' @ pair_recipes NIntersection ls rs'"
    using And.prems(1) by auto
  note ia = And.IH(1)[OF r(1)] and ib = And.IH(2)[OF r(2)]
  consider (left) l where "l \<in> set ls" "rc = l\<lparr>rc_covered := False\<rparr>" | (right) l where "l \<in> set rs'" "rc = l\<lparr>rc_covered := False\<rparr>"
    | (both) l m where "l \<in> set ls" "m \<in> set rs'" "rc_node rc = NIntersection (rc_node l) (rc_node m)" "rc_covered rc = (rc_covered l \<and> rc_covered m)"
    using And.prems(2) r(3) by (auto simp: pair_recipes_def)
  then show ?case
  proof cases
    case left
    then show ?thesis using ia[of l] And.prems(3) by (auto simp: answers_def split: if_splits)
  next
    case right
    then show ?thesis using ib[of l] And.prems(3) by (auto simp: answers_def split: if_splits)
  next
    case both
    then show ?thesis using ia[of l] ib[of m] And.prems(3) within_pair by (auto simp: answers_def split: if_splits)
  qed
next
  case (Or a b)
  obtain ls rs' where r: "filters x defs t a = Inr ls" "filters x defs t b = Inr rs'" "rs = pair_recipes NUnion ls rs'" using Or.prems(1) by auto
  obtain l m where b: "l \<in> set ls" "m \<in> set rs'" "rc_node rc = NUnion (rc_node l) (rc_node m)" "rc_covered rc = (rc_covered l \<and> rc_covered m)"
    using Or.prems(2) r(3) by (auto simp: pair_recipes_def)
  show ?case using Or.IH(1)[OF r(1) b(1)] Or.IH(2)[OF r(2) b(2)] Or.prems(3) within_pair b(3,4) by (auto simp: answers_def split: if_splits)
qed auto


section \<open>Counting\<close>

text \<open>A range that is counted without removing duplicates has at most one entry of every row.\<close>

fun counted :: "pair \<Rightarrow> node \<Rightarrow> bool" where
  "counted pr (NRange d lower upper dedup) \<longleftrightarrow> dedup \<or> inj_on snd (set (scan (entries_of pr d) lower upper))"
| "counted pr _ \<longleftrightarrow> True"

lemma plan_count_rows:
  assumes ok: "node_ok pr nd" and c: "counted pr nd"
  shows "\<exists>w. plan_count x pr nd = Inr (card (node_rows pr nd), w)"
proof -
  obtain keys w where k: "node_set x pr nd \<lparr>w_entries = 0, w_bytes = 0\<rparr> = Inr (keys, w)" "sorted_wrt (<) keys" "set keys = node_rows pr nd"
    using node_set_exact[OF ok] by blast
  have len: "length keys = card (node_rows pr nd)" using k(2,3) distinct_card[of keys] by (simp add: strict_sorted_iff)
  show ?thesis
  proof (cases "\<exists>d lower upper. nd = NRange d lower upper False")
    case True
    then obtain d lower upper where nd: "nd = NRange d lower upper False" by blast
    let ?es = "scan (entries_of pr d) lower upper"
    have t: "tbl_ok (entries_of pr d)" using ok nd by simp
    have "distinct ?es" unfolding scan_filter[OF t] using t by (simp add: tbl_ok_def strict_sorted_iff distinct_map)
    moreover have "node_rows pr nd = snd ` set ?es" using scan_rows[OF t, of _ _ lower upper] nd by force
    ultimately have "length ?es = card (node_rows pr nd)" using c nd distinct_card[of ?es] by (simp add: card_image)
    then show ?thesis using nd by (simp add: plan_count_def Let_def)
  next
    case False
    have "plan_count x pr nd = rbind (node_set x pr nd \<lparr>w_entries = 0, w_bytes = 0\<rparr>) (\<lambda>(keys, w). Inr (length keys, w))"
    proof (cases nd)
      case (NRange d lower upper dedup)
      then show ?thesis using False by (cases dedup) (simp_all add: plan_count_def Let_def)
    qed (simp_all add: plan_count_def Let_def)
    then show ?thesis using k(1) len by simp
  qed
qed

lemma counted_range:
  assumes t: "tbl_ok (entries_of pr d)"
    and once: "\<And>row k k'. tbl_get (entries_of pr d) k = Some row \<Longrightarrow> tbl_get (entries_of pr d) k' = Some row \<Longrightarrow>
      from_bound lower k \<and> below_bound upper k \<Longrightarrow> from_bound lower k' \<and> below_bound upper k' \<Longrightarrow> k = k'"
  shows "counted pr (NRange d lower upper dedup)"
  using once scan_rows[OF t] by (auto simp: inj_on_def)

text \<open>The entries of one row in a range: one, when they are of equal values or the row has one value.\<close>

lemma entries_equal:
  assumes "entries_for x pre vs K" "k \<in> K" "k' \<in> K" "picks x pre lower upper P" "from_bound lower k \<and> below_bound upper k" "from_bound lower k' \<and> below_bound upper k'"
    "\<And>v u a b. codes x v a \<Longrightarrow> codes x u b \<Longrightarrow> P v \<Longrightarrow> P u \<Longrightarrow> a = b"
  shows "k = k'"
proof -
  obtain s where s: "\<forall>k \<in> K. \<exists>v \<in> set vs. \<exists>a. codes x v a \<and> k = pre @ a @ s" using assms(1) unfolding entries_for_def by blast
  obtain v a where v: "codes x v a" "k = pre @ a @ s" using s assms(2) by blast
  obtain u b where u: "codes x u b" "k' = pre @ b @ s" using s assms(3) by blast
  have "P v" "P u" using assms(4,5,6) v u unfolding picks_def by blast+
  then show ?thesis using assms(7)[OF v(1) u(1)] v(2) u(2) by simp
qed

lemma entries_single:
  assumes "entries_for x pre [v] K" "k \<in> K" "k' \<in> K"
  shows "k = k'"
proof -
  obtain s where s: "\<forall>k \<in> K. \<exists>a. codes x v a \<and> k = pre @ a @ s" using assms(1) unfolding entries_for_def by auto
  obtain a b where "codes x v a" "k = pre @ a @ s" "codes x v b" "k' = pre @ b @ s" using s assms(2,3) by meson
  then show ?thesis by (simp add: codes_def)
qed

lemma equal_codes:
  assumes "codes x v a" "codes x u b" "codes x w c" "vcmp (raw_token x) v w = Equal" "vcmp (raw_token x) u w = Equal"
  shows "a = b"
  using codes_law[OF assms(1,3), of "[]" "[]"] codes_law[OF assms(2,3), of "[]" "[]"] assms(4,5) bcmp_iff(3)[of a c] bcmp_iff(3)[of b c] by simp

text \<open>What \<open>usable\<close> says of an index for an operator on its values.\<close>

definition value_side :: "index_manifest \<Rightarrow> path \<Rightarrow> bool" where
  "value_side d p \<longleftrightarrow> mf_kind d = KValue \<and> first_path d = Some p \<and> (is_compound d \<longrightarrow> direction_at d 0 \<noteq> Some Desc)"

lemma value_side_entries:
  assumes rn: "raw_numbers (raw_token x)" and f: "followed h old_form x pr ops d" and d: "value_side d p" and e: "tbl_get (entries_of pr d) k = Some row"
  shows "\<exists>bs vs K. path_values x bs p = Inr vs \<and> entries_for x (key_prefix d) vs K \<and> leads pr d row K"
proof -
  have u: "\<not> uses_postings (mf_kind d)" using d by (simp add: value_side_def uses_postings_def)
  obtain bs seq where r: "table_of ops row = Some (bs, seq)" using followed_value(1)[OF f u e] by auto
  obtain K where K: "row_keys h x d row bs seq = Inr K" "row_fits h x d row bs seq" "leads pr d row K" using followed_value(3)[OF f u r] by blast
  then show ?thesis using value_entries[OF rn _ _ _ K(1,2)] d unfolding value_side_def by blast
qed

lemma counted_value:
  assumes rn: "raw_numbers (raw_token x)" and f: "followed h old_form x pr ops d" and d: "value_side d p"
  shows "index_scalar_path p \<Longrightarrow> counted pr (NRange d lower upper dedup)"
    and "codes x w a \<Longrightarrow> counted pr (NRange d (Some (key_prefix d @ a)) (end_key (key_prefix d @ a)) dedup)"
proof -
  have t: "tbl_ok (entries_of pr d)" using followed_value(2)[OF f] d by (simp add: value_side_def uses_postings_def)
  show "counted pr (NRange d lower upper dedup)" if p: "index_scalar_path p"
  proof (rule counted_range[OF t])
    fix row k k'
    assume k: "tbl_get (entries_of pr d) k = Some row" "tbl_get (entries_of pr d) k' = Some row"
    obtain bs vs K where v: "path_values x bs p = Inr vs" "entries_for x (key_prefix d) vs K" "leads pr d row K" using value_side_entries[OF rn f d k(1)] by blast
    obtain v where "vs = [v]" using v(1) path_values_scalar[OF p, of x bs] by (cases "path_value x bs p") auto
    then show "k = k'" using entries_single v(2,3) k unfolding leads_def by blast
  qed
  show "counted pr (NRange d (Some (key_prefix d @ a)) (end_key (key_prefix d @ a)) dedup)" if w: "codes x w a"
  proof (rule counted_range[OF t])
    fix row k k'
    assume k: "tbl_get (entries_of pr d) k = Some row" "tbl_get (entries_of pr d) k' = Some row"
      and b: "from_bound (Some (key_prefix d @ a)) k \<and> below_bound (end_key (key_prefix d @ a)) k" "from_bound (Some (key_prefix d @ a)) k' \<and> below_bound (end_key (key_prefix d @ a)) k'"
    obtain bs vs K where v: "entries_for x (key_prefix d) vs K" "leads pr d row K" using value_side_entries[OF rn f d k(1)] by blast
    have "k \<in> K" "k' \<in> K" using v(2) k unfolding leads_def by blast+
    then show "k = k'" using entries_equal[OF v(1) _ _ picks_ranges(1)[OF w key_prefix_cases] b] equal_codes[OF _ _ w] by blast
  qed
qed

lemma counted_token:
  assumes rn: "raw_numbers (raw_token x)" and f: "followed h old_form x pr ops d" and d: "mf_kind d = KToken" "first_path d = Some p" "\<not> is_compound d"
    and w: "codes x w a"
  shows "counted pr (NRange d (Some a) (end_key a) dedup)"
proof -
  have u: "\<not> uses_postings (mf_kind d)" using d(1) by (simp add: uses_postings_def)
  show ?thesis
  proof (rule counted_range[OF followed_value(2)[OF f u]])
    fix row k k'
    assume k: "tbl_get (entries_of pr d) k = Some row" "tbl_get (entries_of pr d) k' = Some row"
      and b: "from_bound (Some a) k \<and> below_bound (end_key a) k" "from_bound (Some a) k' \<and> below_bound (end_key a) k'"
    obtain bs seq where r: "table_of ops row = Some (bs, seq)" using followed_value(1)[OF f u k(1)] by auto
    obtain K where K: "row_keys h x d row bs seq = Inr K" "leads pr d row K" using followed_value(3)[OF f u r] by blast
    obtain toks where e: "entries_for x [] (map String toks) K" using token_entries[OF rn d K(1)] by blast
    have "k \<in> K" "k' \<in> K" using K(2) k unfolding leads_def by blast+
    moreover have "picks x [] (Some a) (end_key a) (\<lambda>v. vcmp (raw_token x) v w = Equal)" using picks_ranges(1)[OF w, of "[]"] by simp
    ultimately show "k = k'" using entries_equal[OF e _ _ _ b] equal_codes[OF _ _ w] by blast
  qed
qed

lemma chain_counted:
  assumes "chain_nodes g ns = Some nd" "g = NUnion \<or> g = NIntersection" "\<forall>m \<in> set ns. counted pr m"
  shows "counted pr nd"
proof -
  obtain n rest where n: "ns = n # rest" "nd = foldl g n rest" using chain_nodes_Some[OF assms(1)] by blast
  show ?thesis
  proof (cases rest rule: rev_cases)
    case (snoc r m)
    then show ?thesis using n(2) assms(2) by auto
  qed (use n assms(3) in auto)
qed

lemma leaf_arm_counted:
  assumes rn: "raw_numbers (raw_token x)" and f: "followed h old_form x pr ops d" and u: "usable cop p d" "\<forall>n. cop \<noteq> Fuzzy n"
    and ws: "ws = w # rest" "\<forall>w \<in> set ws. value_ok w" and arm: "leaf_arm x d p cop ws w = Inr (Some (nd, cov))"
  shows "counted pr nd"
proof -
  obtain b where b: "bound_key x d w = Inr b" using arm by (auto simp: leaf_arm_def)
  consider "op_kind cop = KValue" | "cop = Text" | "cop = Contains \<or> cop = Parts" using u(2) by (cases cop) (auto simp: op_kind_def)
  then show ?thesis
  proof cases
    case 1
    then have d: "value_side d p" using u(1) by (auto simp: usable_def value_side_def)
    note cv = counted_value[OF rn f d]
    have any: "counted pr (NRange d lower upper (\<not> index_scalar_path p))" for lower upper using cv(1) by (cases "index_scalar_path p") auto
    have eq: "counted pr (NRange d (Some c) (end_key c) False)" if v: "bound_key x d v = Inr c" "v \<in> set ws" for v c
      using bound_key_codes[OF rn _ v(1)] ws(2) v(2) cv(2)[of v _ False] by auto
    have nodes: "\<forall>m \<in> set ns. counted pr m" if ns: "mapM (\<lambda>v. rbind (bound_key x d v) (\<lambda>k. Inr (NRange d (Some k) (end_key k) False))) ws = Inr ns" for ns
    proof
      fix m assume "m \<in> set ns"
      then obtain v where v: "v \<in> set ws" "rbind (bound_key x d v) (\<lambda>k. Inr (NRange d (Some k) (end_key k) False)) = Inr m" using mapM_Inr_set[OF ns] by blast
      then obtain c where "bound_key x d v = Inr c" "m = NRange d (Some c) (end_key c) False" by (cases "bound_key x d v") auto
      then show "counted pr m" using eq v(1) by blast
    qed
    show ?thesis
    proof (cases cop)
      case Eq
      then show ?thesis using arm b eq[OF b] ws(1) by (auto simp: leaf_arm_def Let_def simp del: counted.simps)
    next
      case Ne
      then show ?thesis using arm b by (auto simp: leaf_arm_def Let_def)
    next
      case In
      then obtain ns where "mapM (\<lambda>v. rbind (bound_key x d v) (\<lambda>k. Inr (NRange d (Some k) (end_key k) False))) ws = Inr ns" "chain_nodes NUnion ns = Some nd"
        using arm b by (auto simp: leaf_arm_def)
      then show ?thesis using chain_counted nodes by blast
    next
      case Between
      then obtain u us where "rest = u # us" using arm b ws(1) by (cases rest) (auto simp: leaf_arm_def)
      then show ?thesis using Between arm b ws(1) any by (auto simp: leaf_arm_def Let_def simp del: counted.simps)
    next
      case Prefix
      then show ?thesis using arm b any by (cases w) (auto simp: leaf_arm_def Let_def simp del: counted.simps)
    qed (use arm b any 1 in \<open>auto simp: leaf_arm_def Let_def op_kind_def simp del: counted.simps\<close>)
  next
    case 2
    let ?f = "\<lambda>t. rbind (encode_equality (raw_token x) (String t)) (\<lambda>k. Inr (NRange d (Some k) (end_key k) False))"
    have d: "mf_kind d = KToken" "first_path d = Some p" "\<not> is_compound d" using u(1) 2 by (auto simp: usable_def op_kind_def)
    obtain ts ns where ns: "mapM ?f ts = Inr ns" "chain_nodes NIntersection ns = Some nd"
      using arm 2 by (cases w) (auto simp: leaf_arm_def Let_def split: if_splits)
    have "counted pr m" if m: "?f t = Inr m" for t m
    proof -
      obtain a where "codes x (String t) a" "m = NRange d (Some a) (end_key a) False" using m rn by (auto simp: codes_def)
      then show ?thesis using counted_token[OF rn f d] by blast
    qed
    then have "\<forall>m \<in> set ns. counted pr m" using mapM_Inr_set[OF ns(1)] by blast
    then show ?thesis using chain_counted[OF ns(2)] by blast
  next
    case 3
    then obtain g gs where nd: "nd = foldl NIntersection (NPostings d g) (map (NPostings d) gs)"
      using arm by (auto simp: leaf_arm_def Let_def contains_leaf_def postings_node_def split: "value.splits" list.splits if_splits)
    show ?thesis unfolding nd by (cases gs rule: rev_cases) auto
  qed
qed

lemma filters_counted:
  assumes tr: "tracked h old_form x pr ops defs t"
  shows "filters x defs t e = Inr rs \<Longrightarrow> rc \<in> set rs \<Longrightarrow> plannable x e \<Longrightarrow> counted pr (rc_node rc)"
proof (induction e arbitrary: rs rc)
  case (Compare p cop vs)
  then have l: "leaf x defs t p cop vs = Inr rs" by (auto split: if_splits)
  obtain d ws w rest where d: "d \<in> set (eligible defs t)" "mapM (interpret_kind x (p_kind p)) vs = Inr ws" "ws = w # rest"
    "usable cop p d" "leaf_arm x d p cop ws w = Inr (Some (rc_node rc, rc_covered rc))" using leaf_recipe[OF l Compare.prems(2)] by blast
  have o: "\<forall>n. cop \<noteq> Fuzzy n" "\<forall>w \<in> set ws. value_ok w" using Compare.prems(3) d(2) by (auto simp: operands_ok_def operand_ok_def list_all_iff)
  have "followed h old_form x pr ops d" "raw_numbers (raw_token x)" using tr d(1) by (auto simp: tracked_def)
  then show ?case using leaf_arm_counted[OF _ _ d(4) o(1) d(3) o(2) d(5)] by blast
next
  case (Presence p test)
  obtain cop vs where pv: "presence_values test = (cop, vs)" by (cases "presence_values test")
  obtain rs0 where r0: "leaf x defs t p cop vs = Inr rs0" "rs = (if test = Exists then map (\<lambda>r. r\<lparr>rc_node := open_upper (rc_node r)\<rparr>) rs0 else rs0)"
    using Presence.prems(1) pv by (cases "leaf x defs t p cop vs") auto
  obtain rc0 where r: "rc0 \<in> set rs0" "rc_node rc = (if test = Exists then open_upper (rc_node rc0) else rc_node rc0)"
    using Presence.prems(2) r0(2) by (cases "test = Exists") auto
  obtain d ws w rest where d: "d \<in> set (eligible defs t)" "mapM (interpret_kind x (p_kind p)) vs = Inr ws" "ws = w # rest"
    "usable cop p d" "leaf_arm x d p cop ws w = Inr (Some (rc_node rc0, rc_covered rc0))" using leaf_recipe[OF r0(1) r(1)] by blast
  have fo: "followed h old_form x pr ops d" "raw_numbers (raw_token x)" using tr d(1) by (auto simp: tracked_def)
  have k: "\<forall>n. cop \<noteq> Fuzzy n" "op_kind cop = KValue" "\<forall>w \<in> set ws. value_ok w" using pv d(2) by (cases test; auto simp: op_kind_def)+
  have c: "counted pr (rc_node rc0)" using leaf_arm_counted[OF fo(2,1) d(4) k(1) d(3) k(3) d(5)] .
  show ?case
  proof (cases "test = Exists")
    case True
    have "value_side d p" using d(4) k(2) by (auto simp: usable_def value_side_def)
    then have any: "counted pr (NRange d lower upper (\<not> index_scalar_path p))" for lower upper
      using counted_value(1)[OF fo(2,1)] by (cases "index_scalar_path p") auto
    have "\<exists>lower upper. NRange d lower upper (\<not> index_scalar_path p) = rc_node rc0" using True pv d(2,3,5) by (auto simp: leaf_arm_def Let_def)
    then show ?thesis using any r(2) True by (metis open_upper.simps(1))
  qed (use c r(2) in simp)
next
  case (And a b)
  then show ?case by (fastforce simp: pair_recipes_def)
next
  case (Or a b)
  then show ?case by (fastforce simp: pair_recipes_def)
qed auto


text \<open>A condition on the texts of \<^const>\<open>text_index\<close>, and its recipe.\<close>

definition hello_cond :: expr where "hello_cond = Compare root_path Prefix [String ''he'']"

definition hello_recipe :: recipe where
  "hello_recipe = \<lparr>rc_node = NRange text_index (Some (7 # as_bytes ''he'')) (end_key (7 # as_bytes ''he'')) False, rc_ids = [0], rc_covered = True\<rparr>"

lemma hello_plan: "filters text_ext [text_index] ''t'' hello_cond = Inr [hello_recipe]"
  by code_simp

lemma hello_matches: "matches text_ext (as_bytes ''hello'') hello_cond = Inr True"
  by code_simp

lemma hello_plannable: "plannable text_ext hello_cond" "row_texts text_ext (as_bytes ''hello'') hello_cond"
proof -
  have t: "is_str ''he''" "is_str ''hello''" by code_simp+
  show "plannable text_ext hello_cond"
    using t(1) by (simp add: hello_cond_def operands_ok_def operand_ok_def root_path_def bool_order_def encode_equality_def)
  show "row_texts text_ext (as_bytes ''hello'') hello_cond" using sample_values_of t(2) by (simp add: hello_cond_def texts_ok_def)
qed

lemma hello_tracked:
  "\<exists>ix. foldM (run_change roomy (\<lambda>_. None) text_ext text_index) create_tables [hello_put] = Inr ix \<and>
    tracked roomy (\<lambda>_. None) text_ext \<lparr>pr_index = (\<lambda>_. ix), pr_fuzzy = fz\<rparr> [hello_put] [text_index] ''t''"
proof -
  obtain ix where ix: "foldM (run_change roomy (\<lambda>_. None) text_ext text_index) create_tables [hello_put] = Inr ix"
    using followed_holds[OF hello_followable] by blast
  then have "followed roomy (\<lambda>_. None) text_ext \<lparr>pr_index = (\<lambda>_. ix), pr_fuzzy = fz\<rparr> [hello_put] text_index"
    using hello_followable by (simp add: followed_def)
  then show ?thesis using ix hello_followable by (auto simp: tracked_def eligible_def followable_def)
qed



section \<open>Ordered comparisons of booleans\<close>

definition true_ext :: ext where "true_ext = plain_ext (\<lambda>_. Some (RBool True))"

definition not_false :: expr where "not_false = Compare root_path Ne [Bool False]"

definition not_false_recipe :: recipe where
  "not_false_recipe = \<lparr>rc_node = NUnion (NRange text_index (Some [3]) (Some [3]) False) (NRange text_index (Some [4]) (Some [4]) False),
     rc_ids = [0], rc_covered = True\<rparr>"


end
