(* ===== verification/Block_Store.thy ===== *)
theory Block_Store
  imports Ordered_Map
begin

text \<open>
  The file layer under redb of an encrypted database (\<^verbatim>\<open>src/encrypted_store/backend.rs\<close>, \<^verbatim>\<open>src/encrypted_store/layout.rs\<close>, and of
  \<^verbatim>\<open>src/crypto/cipher.rs\<close> the layout of sealed values). Every page of redb is one sealed block, redb's header page is kept in four sealed pieces,
  and pages are staged in memory until the next sync. The ciphers, the random source and the operating system are parameters: \<open>aead_lib\<close>
  encrypts and decrypts, \<open>en_rnd\<close> answers every request for random bytes, and \<open>en_io\<close> decides for every call of the
  file below whether it succeeds; a write that does not may have stored any number of its first bytes, which is also what a stop
  of the machine leaves. Threads seal the pages of one batch in the source; the model seals them one after the other.
\<close>

section \<open>Sealed values\<close>

datatype cipher_kind = Aes256Gcm | Aes256GcmSiv | ChaCha20Poly1305 | XChaCha20Poly1305

definition TAG_LEN :: nat where "TAG_LEN = 16"

fun nonce_len :: "cipher_kind \<Rightarrow> nat" where
  "nonce_len XChaCha20Poly1305 = 24"
| "nonce_len _ = 12"

definition overhead :: "cipher_kind \<Rightarrow> nat" where
  "overhead k = nonce_len k + TAG_LEN"

record aead_lib =
  encrypt_detached :: "bytes \<Rightarrow> bytes \<Rightarrow> bytes \<Rightarrow> (bytes \<times> bytes) option"
  decrypt_detached :: "bytes \<Rightarrow> bytes \<Rightarrow> bytes \<Rightarrow> bytes \<Rightarrow> bytes option"

text \<open>\<open>out_len\<close> is the length of the buffer the sealed value goes to.\<close>

definition seal_into_with :: "cipher_kind \<Rightarrow> aead_lib \<Rightarrow> bytes \<Rightarrow> bytes \<Rightarrow> bytes \<Rightarrow> nat \<Rightarrow> bytes option" where
  "seal_into_with k lib nonce aad plain out_len =
     (if length nonce \<noteq> nonce_len k then None
      else if out_len \<noteq> length nonce + length plain + TAG_LEN then None
      else map_option (\<lambda>(ct, tag). nonce @ ct @ tag) (encrypt_detached lib nonce aad plain))"

definition open_in_place :: "cipher_kind \<Rightarrow> aead_lib \<Rightarrow> bytes \<Rightarrow> bytes \<Rightarrow> bytes option" where
  "open_in_place k lib aad buf =
     (let n = nonce_len k; e = length buf - TAG_LEN in
      if length buf < n + TAG_LEN then None
      else decrypt_detached lib (take n buf) aad (take (e - n) (drop n buf)) (drop e buf))"

section \<open>Where things are\<close>

definition PAGE :: nat where "PAGE = 4096"
definition FILE_HEADER_LEN :: nat where "FILE_HEADER_LEN = 2048"
definition PIECE_LEN :: nat where "PIECE_LEN = 512"
definition PIECES_LEN :: nat where "PIECES_LEN = 4 * PIECE_LEN"
definition DATA_BASE :: nat where "DATA_BASE = FILE_HEADER_LEN + PIECES_LEN"
definition LOGICAL_HEADER :: nat where "LOGICAL_HEADER = PAGE"
definition REDB_HEADER_LEN :: nat where "REDB_HEADER_LEN = 320"

definition stride :: "cipher_kind \<Rightarrow> nat" where
  "stride k = PAGE + overhead k"

definition block_offset :: "cipher_kind \<Rightarrow> nat \<Rightarrow> nat" where
  "block_offset k i = DATA_BASE + i * stride k"

definition logical_len :: "cipher_kind \<Rightarrow> nat \<Rightarrow> nat" where
  "logical_len k physical =
     (if physical < DATA_BASE then 0 else LOGICAL_HEADER + (physical - DATA_BASE) div stride k * PAGE)"

definition physical_len :: "cipher_kind \<Rightarrow> nat \<Rightarrow> nat option" where
  "physical_len k logical =
     (if logical = 0 then Some FILE_HEADER_LEN
      else if logical < LOGICAL_HEADER \<or> logical mod PAGE \<noteq> 0 then None
      else Some (DATA_BASE + (logical - LOGICAL_HEADER) div PAGE * stride k))"

section \<open>The state of the layer and the file below\<close>

datatype io_answer = Done | Broken nat

datatype io_error = InvalidInput string | TamperData "nat option" | UnexpectedEof | PermissionDenied | IoFault

record env =
  en_kind :: cipher_kind
  en_lib :: aead_lib
  en_rnd :: "nat \<Rightarrow> nat \<Rightarrow> bytes option"
  en_io :: "nat \<Rightarrow> io_answer"
  en_read_only :: bool
  en_parallel :: bool

record block_backend =
  bb_disk :: bytes
  bb_ops :: nat
  bb_draws :: nat
  bb_data_len :: nat
  bb_header_area :: bool
  bb_hbytes :: bytes
  bb_seq :: nat
  bb_newest :: nat
  bb_pending :: "(nat, bytes) table"

text \<open>A step of the layer: what it returns, and the state it leaves, also when it fails.\<close>

type_synonym 'a act = "block_backend \<Rightarrow> (io_error + 'a) \<times> block_backend"

definition ret :: "'a \<Rightarrow> 'a act" where
  "ret a = (\<lambda>s. (Inr a, s))"

definition fail :: "io_error \<Rightarrow> 'a act" where
  "fail e = (\<lambda>s. (Inl e, s))"

definition abind :: "'a act \<Rightarrow> ('a \<Rightarrow> 'b act) \<Rightarrow> 'b act" where
  "abind m f = (\<lambda>s. case m s of (Inl e, s') \<Rightarrow> (Inl e, s') | (Inr a, s') \<Rightarrow> f a s')"

definition update :: "(block_backend \<Rightarrow> block_backend) \<Rightarrow> unit act" where
  "update f = (\<lambda>s. (Inr (), f s))"

definition bad_input :: "string \<Rightarrow> io_error" where
  "bad_input msg = InvalidInput msg"

text \<open>Overwriting a part of the file; a write past the end leaves zeros between.\<close>

definition put_at :: "nat \<Rightarrow> bytes \<Rightarrow> bytes \<Rightarrow> bytes" where
  "put_at off data d = take off (d @ replicate (off - length d) 0) @ data @ drop (off + length data) d"

definition file_write :: "env \<Rightarrow> nat \<Rightarrow> bytes \<Rightarrow> unit act" where
  "file_write en off data = (\<lambda>s. let s' = s\<lparr>bb_ops := bb_ops s + 1\<rparr> in case en_io en (bb_ops s) of
      Done \<Rightarrow> (Inr (), s'\<lparr>bb_disk := put_at off data (bb_disk s)\<rparr>)
    | Broken n \<Rightarrow> (Inl IoFault, s'\<lparr>bb_disk := put_at off (take n data) (bb_disk s)\<rparr>))"

definition file_read :: "env \<Rightarrow> nat \<Rightarrow> nat \<Rightarrow> bytes act" where
  "file_read en off n = (\<lambda>s. let s' = s\<lparr>bb_ops := bb_ops s + 1\<rparr> in case en_io en (bb_ops s) of
      Done \<Rightarrow> (if off + n \<le> length (bb_disk s) then Inr (take n (drop off (bb_disk s))) else Inl UnexpectedEof, s')
    | Broken _ \<Rightarrow> (Inl IoFault, s'))"

definition file_set_len :: "env \<Rightarrow> nat \<Rightarrow> unit act" where
  "file_set_len en n = (\<lambda>s. let s' = s\<lparr>bb_ops := bb_ops s + 1\<rparr> in case en_io en (bb_ops s) of
      Done \<Rightarrow> (Inr (), s'\<lparr>bb_disk := take n (bb_disk s) @ replicate (n - length (bb_disk s)) 0\<rparr>)
    | Broken _ \<Rightarrow> (Inl IoFault, s'))"

definition file_len :: "env \<Rightarrow> nat act" where
  "file_len en = (\<lambda>s. let s' = s\<lparr>bb_ops := bb_ops s + 1\<rparr> in case en_io en (bb_ops s) of
      Done \<Rightarrow> (Inr (length (bb_disk s)), s')
    | Broken _ \<Rightarrow> (Inl IoFault, s'))"

definition file_sync :: "env \<Rightarrow> unit act" where
  "file_sync en = (\<lambda>s. let s' = s\<lparr>bb_ops := bb_ops s + 1\<rparr> in case en_io en (bb_ops s) of
      Done \<Rightarrow> (Inr (), s')
    | Broken _ \<Rightarrow> (Inl IoFault, s'))"

definition file_close :: "env \<Rightarrow> unit act" where
  "file_close en = (\<lambda>s. let s' = s\<lparr>bb_ops := bb_ops s + 1\<rparr> in case en_io en (bb_ops s) of
      Done \<Rightarrow> (Inr (), s')
    | Broken _ \<Rightarrow> (Inl IoFault, s'))"

definition random_bytes :: "env \<Rightarrow> nat \<Rightarrow> string \<Rightarrow> bytes act" where
  "random_bytes en n msg = (\<lambda>s. let s' = s\<lparr>bb_draws := bb_draws s + 1\<rparr> in case en_rnd en (bb_draws s) n of
      Some b \<Rightarrow> (Inr b, s')
    | None \<Rightarrow> (Inl (bad_input msg), s'))"

definition seal_into :: "env \<Rightarrow> string \<Rightarrow> bytes \<Rightarrow> bytes \<Rightarrow> nat \<Rightarrow> bytes act" where
  "seal_into en msg aad plain out_len = abind (random_bytes en (nonce_len (en_kind en)) msg) (\<lambda>nonce.
     case seal_into_with (en_kind en) (en_lib en) nonce aad plain out_len of Some b \<Rightarrow> ret b | None \<Rightarrow> fail (bad_input msg))"

section \<open>The header pieces\<close>

definition to_le :: "nat \<Rightarrow> nat \<Rightarrow> bytes" where
  "to_le k v = rev (to_be k v)"

definition from_le :: "bytes \<Rightarrow> nat" where
  "from_le b = from_be (rev b)"

definition block_aad :: "nat \<Rightarrow> bytes" where
  "block_aad i = 98 # to_le 8 i"

definition piece_aad :: "nat \<Rightarrow> bytes" where
  "piece_aad piece = [104, of_nat piece]"

definition piece_offset :: "nat \<Rightarrow> nat" where
  "piece_offset copy = FILE_HEADER_LEN + copy * PIECE_LEN"

definition resize_to :: "nat \<Rightarrow> bytes \<Rightarrow> bytes" where
  "resize_to n v = take n v @ replicate (n - length v) 0"

definition piece_plain :: "nat \<Rightarrow> bytes \<Rightarrow> nat \<Rightarrow> nat \<Rightarrow> bytes" where
  "piece_plain seq hb piece n = resize_to n
     (if piece = 0 then to_le 8 seq @ take 64 hb else if piece = 1 then take 128 (drop 64 hb) else take 128 (drop 192 hb))"

definition write_piece :: "env \<Rightarrow> nat \<Rightarrow> nat \<Rightarrow> unit act" where
  "write_piece en copy piece = (\<lambda>s.
     abind (seal_into en ''sealing a header piece failed'' (piece_aad piece)
       (piece_plain (bb_seq s) (bb_hbytes s) piece (PIECE_LEN - overhead (en_kind en))) PIECE_LEN)
     (\<lambda>sealed. file_write en (piece_offset copy) sealed) s)"

definition read_piece :: "env \<Rightarrow> nat \<Rightarrow> nat \<Rightarrow> bytes option act" where
  "read_piece en copy piece = abind (file_read en (piece_offset copy) PIECE_LEN) (\<lambda>raw.
     if list_all (\<lambda>b. b = 0) raw then ret None
     else case open_in_place (en_kind en) (en_lib en) (piece_aad piece) raw of
       Some p \<Rightarrow> ret (Some p) | None \<Rightarrow> fail (TamperData None))"

text \<open>\<open>if let Ok(Some(p))\<close>: a piece that cannot be read, or was never written, is passed over.\<close>

definition try_piece :: "env \<Rightarrow> nat \<Rightarrow> nat \<Rightarrow> bytes option act" where
  "try_piece en copy piece = (\<lambda>s. case read_piece en copy piece s of (Inr (Some p), s') \<Rightarrow> (Inr (Some p), s') | (_, s') \<Rightarrow> (Inr None, s'))"

definition newer :: "(nat \<times> nat \<times> bytes) option \<Rightarrow> nat \<Rightarrow> bytes option \<Rightarrow> (nat \<times> nat \<times> bytes) option" where
  "newer best copy p = (case p of
      None \<Rightarrow> best
    | Some b \<Rightarrow> (let seq = from_le (take 8 b); c = Some (seq, copy, take 64 (drop 8 b)) in
        case best of None \<Rightarrow> c | Some (old, _) \<Rightarrow> if old < seq then c else best))"

definition put_header_part :: "nat \<Rightarrow> bytes \<Rightarrow> bytes \<Rightarrow> bytes" where
  "put_header_part pos part hb = take pos hb @ part @ drop (pos + length part) hb"

definition load_header :: "env \<Rightarrow> unit act" where
  "load_header en =
     abind (try_piece en 0 0) (\<lambda>a. abind (try_piece en 1 0) (\<lambda>b.
     abind (update (\<lambda>s. case newer (newer None 0 a) 1 b of
         None \<Rightarrow> s
       | Some (seq, copy, p) \<Rightarrow> s\<lparr>bb_seq := seq, bb_newest := copy, bb_hbytes := put_header_part 0 p (bb_hbytes s)\<rparr>)) (\<lambda>_.
     abind (try_piece en 2 1) (\<lambda>c. abind (update (\<lambda>s. case c of
         None \<Rightarrow> s | Some p \<Rightarrow> s\<lparr>bb_hbytes := put_header_part 64 (take 128 p) (bb_hbytes s)\<rparr>)) (\<lambda>_.
     abind (try_piece en 3 2) (\<lambda>c. update (\<lambda>s. case c of
         None \<Rightarrow> s | Some p \<Rightarrow> s\<lparr>bb_hbytes := put_header_part 192 (take 128 p) (bb_hbytes s)\<rparr>)))))))"

text \<open>A header part is written when it differs from what it was before.\<close>

definition slot_write :: "env \<Rightarrow> bytes \<Rightarrow> nat \<Rightarrow> nat \<Rightarrow> nat \<Rightarrow> unit act" where
  "slot_write en before pos copy piece = (\<lambda>s.
     if take 128 (drop pos before) \<noteq> take 128 (drop pos (bb_hbytes s)) then write_piece en copy piece s else ret () s)"

definition primary_write :: "env \<Rightarrow> bytes \<Rightarrow> unit act" where
  "primary_write en before = (\<lambda>s.
     if take 64 before \<noteq> take 64 (bb_hbytes s)
     then (let copy = 1 - bb_newest s in
       abind (update (\<lambda>s. s\<lparr>bb_seq := bb_seq s + 1\<rparr>)) (\<lambda>_.
       abind (write_piece en copy 0) (\<lambda>_. update (\<lambda>s. s\<lparr>bb_newest := copy\<rparr>))) s)
     else ret () s)"

definition write_header_range :: "env \<Rightarrow> nat \<Rightarrow> bytes \<Rightarrow> unit act" where
  "write_header_range en off data = (\<lambda>s.
     let n = min (length data) (REDB_HEADER_LEN - off); before = bb_hbytes s in
     if list_ex (\<lambda>b. b \<noteq> 0) (drop n data) then fail (bad_input ''write into the unused part of redb's header page'') s
     else abind (update (\<lambda>s. if 0 < n then s\<lparr>bb_hbytes := put_header_part off (take n data) before\<rparr> else s)) (\<lambda>_.
       if en_read_only en then ret ()
       else abind (slot_write en before 64 2 1) (\<lambda>_. abind (slot_write en before 192 3 2) (\<lambda>_. primary_write en before))) s)"

definition refuse_if_read_only :: "env \<Rightarrow> unit act" where
  "refuse_if_read_only en = (if en_read_only en then fail PermissionDenied else ret ())"

definition init_pieces :: "env \<Rightarrow> unit act" where
  "init_pieces en = abind (random_bytes en PIECES_LEN ''no random source'') (\<lambda>noise.
     abind (file_write en FILE_HEADER_LEN noise) (\<lambda>_.
     update (\<lambda>s. s\<lparr>bb_hbytes := replicate REDB_HEADER_LEN 0, bb_seq := 0, bb_newest := 0\<rparr>)))"

section \<open>Blocks\<close>

text \<open>The whole pages of a buffer.\<close>

definition pages_of :: "bytes \<Rightarrow> bytes list" where
  "pages_of plain = map (\<lambda>i. take PAGE (drop (i * PAGE) plain)) [0..<length plain div PAGE]"

fun seal_pages :: "env \<Rightarrow> (nat \<times> bytes) list \<Rightarrow> bytes list act" where
  "seal_pages en [] = ret []"
| "seal_pages en ((i, p) # ps) = abind (seal_into en ''sealing a block failed'' (block_aad i) p (stride (en_kind en))) (\<lambda>b.
     abind (seal_pages en ps) (\<lambda>bs. ret (b # bs)))"

definition numbered_pages :: "nat \<Rightarrow> bytes list \<Rightarrow> (nat \<times> bytes) list" where
  "numbered_pages first ps = zip [first..<first + length ps] ps"

definition write_blocks :: "env \<Rightarrow> nat \<Rightarrow> bytes \<Rightarrow> unit act" where
  "write_blocks en first plain = abind (refuse_if_read_only en) (\<lambda>_.
     abind (seal_pages en (numbered_pages first (pages_of plain))) (\<lambda>sealed.
     file_write en (block_offset (en_kind en) first) (concat sealed)))"

section \<open>Staged pages\<close>

definition PENDING_CAP_PAGES :: nat where "PENDING_CAP_PAGES = 1024"
definition WRITE_CHUNK :: nat where "WRITE_CHUNK = 128"

text \<open>The blocks that follow \<open>prev\<close> without a gap, at most \<open>room\<close> of them.\<close>

fun split_run :: "nat \<Rightarrow> nat \<Rightarrow> (nat \<times> bytes) list \<Rightarrow> (nat \<times> bytes) list \<times> (nat \<times> bytes) list" where
  "split_run room prev [] = ([], [])"
| "split_run room prev ((i, b) # es) =
     (if 0 < room \<and> i = prev + 1 then (let (run, rest) = split_run (room - 1) i es in ((i, b) # run, rest)) else ([], (i, b) # es))"

lemma split_run_append: "split_run room prev es = (run, rest) \<Longrightarrow> es = run @ rest"
  by (induction room prev es arbitrary: run rest rule: split_run.induct) (auto simp: Let_def split: if_splits prod.splits)

function write_runs :: "env \<Rightarrow> (nat \<times> bytes) list \<Rightarrow> unit act" where
  "write_runs en [] = ret ()"
| "write_runs en ((i, b) # es) =
     (let (run, rest) = split_run (WRITE_CHUNK - 1) i es in
      abind (file_write en (block_offset (en_kind en) i) (concat (b # map snd run))) (\<lambda>_. write_runs en rest))"
  by pat_completeness auto
termination
  by (relation "measure (\<lambda>(en, es). length es)") (auto dest!: split_run_append[OF sym])

definition drain :: "env \<Rightarrow> unit act" where
  "drain en = (\<lambda>s. let batch = bb_pending s in
     if batch = [] then ret () s
     else abind (seal_pages en batch) (\<lambda>sealed. abind (write_runs en (zip (map fst batch) sealed)) (\<lambda>_.
       update (\<lambda>s. s\<lparr>bb_pending := filter (\<lambda>e. e \<notin> set batch) (bb_pending s)\<rparr>))) s)"

definition stage_pages :: "env \<Rightarrow> nat \<Rightarrow> bytes \<Rightarrow> unit act" where
  "stage_pages en first plain = abind (refuse_if_read_only en) (\<lambda>_.
     abind (update (\<lambda>s. s\<lparr>bb_pending := tbl_insert_all (bb_pending s) (numbered_pages first (pages_of plain))\<rparr>)) (\<lambda>_.
     (\<lambda>s. if PENDING_CAP_PAGES \<le> length (bb_pending s) then drain en s else ret () s)))"

section \<open>Growing the file\<close>

definition FILL_BATCH :: nat where "FILL_BATCH = 128"

definition header_word :: "bytes \<Rightarrow> nat \<Rightarrow> nat option" where
  "header_word header pos = (if pos + 4 \<le> length header then Some (from_le (take 4 (drop pos header))) else None)"

definition region_shape_of :: "bytes \<Rightarrow> (nat \<times> nat) option" where
  "region_shape_of header = (case (header_word header 12, header_word header 16, header_word header 20) of
      (Some page, Some header_pages, Some data_pages) \<Rightarrow>
        if page = PAGE \<and> 0 < data_pages then Some (header_pages, data_pages) else None
    | _ \<Rightarrow> None)"

definition length_makes_layout :: "nat \<Rightarrow> (nat \<times> nat) option \<Rightarrow> bool" where
  "length_makes_layout pages shape = (case shape of
      Some (header_pages, data_pages) \<Rightarrow> (let rest = pages mod (header_pages + data_pages) in rest = 0 \<or> header_pages < rest)
    | None \<Rightarrow> True)"

definition region_shape :: "(nat \<times> nat) option act" where
  "region_shape = (\<lambda>s. if list_all (\<lambda>b. b = 0) (bb_hbytes s) then ret None s
     else case region_shape_of (bb_hbytes s) of
       Some shape \<Rightarrow> ret (Some shape) s
     | None \<Rightarrow> fail (bad_input ''the header page of the database file is not in the form this version knows, so the file was not grown'') s)"

function next_valid :: "(nat \<times> nat) option \<Rightarrow> nat \<Rightarrow> nat \<Rightarrow> nat" where
  "next_valid shape stop end_at = (if stop < end_at \<and> \<not> length_makes_layout stop shape then next_valid shape (stop + 1) end_at else stop)"
  by pat_completeness auto
termination
  by (relation "measure (\<lambda>(shape, stop, end_at). end_at - stop)") auto

declare next_valid.simps [simp del]

lemma next_valid_bounds: "stop \<le> next_valid shape stop end_at" "stop \<le> end_at \<Longrightarrow> next_valid shape stop end_at \<le> end_at"
proof -
  have "stop \<le> next_valid shape stop end_at \<and> (stop \<le> end_at \<longrightarrow> next_valid shape stop end_at \<le> end_at)"
  proof (induction shape stop end_at rule: next_valid.induct)
    case (1 shape stop end_at)
    then show ?case by (subst (1 2) next_valid.simps) auto
  qed
  then show "stop \<le> next_valid shape stop end_at" "stop \<le> end_at \<Longrightarrow> next_valid shape stop end_at \<le> end_at" by auto
qed

function fill_loop :: "env \<Rightarrow> (nat \<times> nat) option \<Rightarrow> nat \<Rightarrow> nat \<Rightarrow> unit act" where
  "fill_loop en shape pos end_at =
     (if pos < end_at
      then (let stop = next_valid shape (min (pos + FILL_BATCH) end_at) end_at in
        abind (write_blocks en pos (replicate ((stop - pos) * PAGE) 0)) (\<lambda>_. fill_loop en shape stop end_at))
      else ret ())"
  by pat_completeness auto
termination
proof (relation "measure (\<lambda>(en, shape, pos, end_at). end_at - pos)")
  fix en :: env and shape pos end_at stop :: nat and shp
  assume "pos < end_at" "stop = next_valid shp (min (pos + FILL_BATCH) end_at) end_at"
  then have "pos < stop" using next_valid_bounds(1)[of "min (pos + FILL_BATCH) end_at" shp end_at] by (simp add: FILL_BATCH_def)
  then show "((en, shp, stop, end_at), en, shp, pos, end_at) \<in> measure (\<lambda>(en, shape, pos, end_at). end_at - pos)" using \<open>pos < end_at\<close> by simp
qed simp

declare fill_loop.simps [simp del]

definition fill :: "env \<Rightarrow> nat \<Rightarrow> nat \<Rightarrow> unit act" where
  "fill en first end_at = abind region_shape (\<lambda>shape.
     if shape = None \<and> 0 < first then fail (bad_input ''the header page of the database file cannot be read, so the file was not grown'')
     else fill_loop en shape first end_at)"

section \<open>The operations redb calls\<close>

definition with_tuning :: "env \<Rightarrow> bytes \<Rightarrow> (io_error + unit) \<times> block_backend" where
  "with_tuning en disk =
     abind (file_len en) (\<lambda>physical.
     abind (update (\<lambda>s. s\<lparr>bb_header_area := DATA_BASE \<le> physical, bb_data_len := logical_len (en_kind en) physical - LOGICAL_HEADER\<rparr>)) (\<lambda>_.
     if DATA_BASE \<le> physical then load_header en else ret ()))
     \<lparr>bb_disk = disk, bb_ops = 0, bb_draws = 0, bb_data_len = 0, bb_header_area = False, bb_hbytes = replicate REDB_HEADER_LEN 0,
       bb_seq = 0, bb_newest = 0, bb_pending = []\<rparr>"

definition backend_len :: "block_backend \<Rightarrow> nat" where
  "backend_len s = (if bb_header_area s then LOGICAL_HEADER + bb_data_len s else 0)"

text \<open>Making the header area of a new file.\<close>

definition ensure_header_area :: "env \<Rightarrow> unit act" where
  "ensure_header_area en = abind (file_len en) (\<lambda>n.
     if n < DATA_BASE
     then abind (file_set_len en DATA_BASE) (\<lambda>_. abind (update (\<lambda>s. s\<lparr>bb_header_area := True\<rparr>)) (\<lambda>_. init_pieces en))
     else ret ())"

definition grow :: "env \<Rightarrow> nat \<Rightarrow> nat \<Rightarrow> nat \<Rightarrow> unit act" where
  "grow en old_data new_data physical =
     abind (fill en (old_data div PAGE) (new_data div PAGE)) (\<lambda>_.
     abind (file_len en) (\<lambda>n. if physical < n then file_set_len en physical else ret ()))"

definition set_len :: "env \<Rightarrow> nat \<Rightarrow> unit act" where
  "set_len en len =
     (if en_read_only en
      then abind (file_len en) (\<lambda>n. if physical_len (en_kind en) len \<noteq> Some n then refuse_if_read_only en else ret ())
      else case physical_len (en_kind en) len of
        None \<Rightarrow> fail (bad_input ''length is not a whole number of pages'')
      | Some physical \<Rightarrow> abind (drain en) (\<lambda>_.
          if len = 0
          then abind (update (\<lambda>s. s\<lparr>bb_data_len := 0\<rparr>)) (\<lambda>_. \<lambda>s.
            case file_set_len en physical s of (r, s') \<Rightarrow> (r, s'\<lparr>bb_header_area := DATA_BASE \<le> physical\<rparr>))
          else (let new_data = len - LOGICAL_HEADER in (\<lambda>s. let old_data = bb_data_len s in
            abind (ensure_header_area en) (\<lambda>_.
            abind (if old_data < new_data then grow en old_data new_data physical
                   else if new_data < old_data then file_set_len en physical else ret ()) (\<lambda>_.
            update (\<lambda>s. s\<lparr>bb_data_len := new_data\<rparr>))) s))))"

definition sync_data :: "env \<Rightarrow> unit act" where
  "sync_data en = abind (drain en) (\<lambda>_. file_sync en)"

text \<open>The loop of \<open>read\<close> over the blocks it fetched.\<close>

fun copy_blocks :: "env \<Rightarrow> nat \<Rightarrow> nat \<Rightarrow> nat \<Rightarrow> bytes list \<Rightarrow> io_error + bytes" where
  "copy_blocks en i skip want [] = Inr []"
| "copy_blocks en i skip want (b # bs) =
     (case open_in_place (en_kind en) (en_lib en) (block_aad i) b of
        None \<Rightarrow> Inl (TamperData (Some i))
      | Some plain \<Rightarrow> (let n = min (PAGE - skip) want in
          rbind (copy_blocks en (i + 1) 0 (want - n) bs) (\<lambda>rest. Inr (take n (drop skip plain) @ rest))))"

definition blocks_of :: "nat \<Rightarrow> nat \<Rightarrow> bytes \<Rightarrow> bytes list" where
  "blocks_of width count buf = map (\<lambda>i. take width (drop (i * width) buf)) [0..<count]"

definition header_byte :: "bytes \<Rightarrow> nat \<Rightarrow> u8" where
  "header_byte hb p = (if p < REDB_HEADER_LEN then hb ! p else 0)"

definition read_pages :: "env \<Rightarrow> nat \<Rightarrow> nat \<Rightarrow> bytes act" where
  "read_pages en pos want = (\<lambda>s.
     let rel = pos - LOGICAL_HEADER; first = rel div PAGE; last_page = (rel + want - 1) div PAGE; count = last_page - first + 1; skip = rel mod PAGE;
         file = abind (file_read en (block_offset (en_kind en) first) (count * stride (en_kind en))) (\<lambda>buf s.
           (copy_blocks en first skip want (blocks_of (stride (en_kind en)) count buf), s))
     in if en_parallel en \<and> bb_pending s \<noteq> []
        then (if count = 1
          then (case tbl_get (bb_pending s) first of
              Some page \<Rightarrow> ret (take (min (PAGE - skip) want) (drop skip page)) s
            | None \<Rightarrow> file s)
          else if list_ex (\<lambda>b. tbl_get (bb_pending s) b \<noteq> None) [first..<first + count] then abind (drain en) (\<lambda>_. file) s
          else file s)
        else file s)"

definition backend_read :: "env \<Rightarrow> nat \<Rightarrow> nat \<Rightarrow> bytes act" where
  "backend_read en off len = (\<lambda>s.
     if len = 0 then ret [] s
     else if backend_len s < off + len then fail UnexpectedEof s
     else (let n = (if off < LOGICAL_HEADER then min (LOGICAL_HEADER - off) len else 0);
               head = map (\<lambda>i. header_byte (bb_hbytes s) (off + i)) [0..<n]
           in if n = len then ret head s
              else abind (read_pages en (off + n) (len - n)) (\<lambda>rest. ret (head @ rest)) s))"

definition backend_write :: "env \<Rightarrow> nat \<Rightarrow> bytes \<Rightarrow> unit act" where
  "backend_write en off data = (\<lambda>s.
     if data = [] then ret () s
     else if backend_len s < off + length data then fail (bad_input ''write past the end'') s
     else (let n = (if off < LOGICAL_HEADER then min (LOGICAL_HEADER - off) (length data) else 0) in
       abind (if off < LOGICAL_HEADER then abind (drain en) (\<lambda>_. write_header_range en off (take n data)) else ret ()) (\<lambda>_.
       if n = length data then ret ()
       else (let rel = off + n - LOGICAL_HEADER; rest = drop n data in
         if rel mod PAGE \<noteq> 0 \<or> length rest mod PAGE \<noteq> 0 then fail (bad_input ''write is not aligned to whole pages'')
         else if en_parallel en then stage_pages en (rel div PAGE) rest
         else write_blocks en (rel div PAGE) rest)) s))"

definition backend_close :: "env \<Rightarrow> unit act" where
  "backend_close en = (\<lambda>s. case drain en s of (drained, s1) \<Rightarrow> (case file_close en s1 of (ended, s2) \<Rightarrow>
     (case drained of Inl e \<Rightarrow> Inl e | Inr _ \<Rightarrow> ended, s2)))"

end
