(* ===== verification/Block_Refine.thy ===== *)
theory Block_Refine
  imports Block_Store
begin

text \<open>
  The encrypted file layer against a plain file. \<open>content\<close> is the file redb sees: its header page and the pages of the blocks, staged ones
  before those on disk. On a file and a random source that answer, draining keeps the content, a read gives the part of it
  that was asked for, and a write of whole pages replaces exactly those pages.
\<close>

section \<open>Steps\<close>

lemma act_simps [simp]: "ret a s = (Inr a, s)" "fail e s = (Inl e, s)" "update f s = (Inr (), f s)"
  by (simp_all add: ret_def fail_def update_def)

lemma abind_Inr: "m s = (Inr a, s') \<Longrightarrow> abind m f s = f a s'"
  by (simp add: abind_def)

lemma abind_simps [simp]: "abind (ret a) f = f a" "abind (fail e) f = fail e" "abind (update g) f s = f () (g s)"
  by (simp_all add: abind_def fun_eq_iff)

lemma abind_assoc: "abind (abind m f) g = abind m (\<lambda>a. abind (f a) g)"
  by (auto simp: abind_def fun_eq_iff split: prod.splits sum.splits)

section \<open>Overwriting parts of a file\<close>

lemma put_at_inside: "off \<le> length d \<Longrightarrow> put_at off data d = take off d @ data @ drop (off + length data) d"
  by (simp add: put_at_def)

lemma length_put_at: "off \<le> length d \<Longrightarrow> length (put_at off data d) = max (length d) (off + length data)"
  by (simp add: put_at_inside)

lemma put_at_append: "off \<le> length d \<Longrightarrow> put_at off (a @ b) d = put_at (off + length a) b (put_at off a d)"
  by (simp add: put_at_inside length_put_at drop_drop add.commute add.left_commute)

text \<open>A part of the file before or after what is written stays as it was.\<close>

lemma slice_before: "off \<le> length d \<Longrightarrow> a + n \<le> off \<Longrightarrow> take n (drop a (put_at off data d)) = take n (drop a d)"
  by (simp add: put_at_inside take_drop)

lemma slice_after:
  assumes "off \<le> length d" "off + length data \<le> a"
  shows "drop a (put_at off data d) = drop a d"
  using assms by (simp add: put_at_inside drop_drop min_def) 

lemma slice_same: "off \<le> length d \<Longrightarrow> take (length data) (drop off (put_at off data d)) = data"
  by (simp add: put_at_inside)

section \<open>Blocks of a file\<close>

definition block_at :: "cipher_kind \<Rightarrow> nat \<Rightarrow> bytes \<Rightarrow> bytes" where
  "block_at k i d = take (stride k) (drop (block_offset k i) d)"

definition store_blocks :: "cipher_kind \<Rightarrow> (nat \<times> bytes) list \<Rightarrow> bytes \<Rightarrow> bytes" where
  "store_blocks k es d = foldl (\<lambda>d (i, b). put_at (block_offset k i) b d) d es"

lemma store_blocks_simps [simp]: "store_blocks k [] d = d" "store_blocks k ((i, b) # es) d = store_blocks k es (put_at (block_offset k i) b d)"
  "store_blocks k (es @ fs) d = store_blocks k fs (store_blocks k es d)"
  by (simp_all add: store_blocks_def)

lemma block_offset_Suc: "block_offset k (Suc i) = block_offset k i + stride k"
  by (simp add: block_offset_def)

lemma block_offset_mono: "i < j \<Longrightarrow> block_offset k i + stride k \<le> block_offset k j"
proof -
  assume "i < j"
  then have "Suc i * stride k \<le> j * stride k" by (intro mult_le_mono1) simp
  then show ?thesis by (simp add: block_offset_def)
qed

lemma block_at_put:
  assumes "block_offset k j \<le> length d" "length b = stride k"
  shows "block_at k i (put_at (block_offset k j) b d) = (if i = j then b else block_at k i d)"
proof -
  consider "i = j" | "i < j" | "j < i" by linarith
  then show ?thesis
  proof cases
    case 1
    then show ?thesis using slice_same[OF assms(1), of b] assms(2) by (simp add: block_at_def)
  next
    case 2
    then show ?thesis using slice_before[OF assms(1) block_offset_mono[OF 2]] by (simp add: block_at_def)
  next
    case 3
    then show ?thesis using slice_after[OF assms(1), of b "block_offset k i"] block_offset_mono[OF 3, of k] assms(2) by (simp add: block_at_def)
  qed
qed

lemma length_put_blocks: "\<forall>(i, b) \<in> set es. length b = stride k \<and> block_offset k i \<le> length d \<Longrightarrow> length d \<le> length (store_blocks k es d)"
proof (induction es arbitrary: d)
  case (Cons e es)
  obtain i b where e: "e = (i, b)" by (cases e)
  have l: "length d \<le> length (put_at (block_offset k i) b d)" using Cons.prems e by (simp add: length_put_at)
  have "length (put_at (block_offset k i) b d) \<le> length (store_blocks k es (put_at (block_offset k i) b d))"
    by (rule Cons.IH) (use Cons.prems l in fastforce)
  then show ?case using l e by simp
qed simp

lemma block_at_put_blocks:
  "\<forall>(j, b) \<in> set es. length b = stride k \<and> block_offset k j \<le> length d \<Longrightarrow> distinct (map fst es) \<Longrightarrow>
    block_at k i (store_blocks k es d) = (case map_of es i of Some b \<Rightarrow> b | None \<Rightarrow> block_at k i d)"
proof (induction es arbitrary: d)
  case (Cons e es)
  obtain j b where e: "e = (j, b)" by (cases e)
  let ?d = "put_at (block_offset k j) b d"
  have j: "block_offset k j \<le> length d" "length b = stride k" using Cons.prems(1) e by auto
  have "length d \<le> length ?d" using j by (simp add: length_put_at)
  then have "\<forall>(j, b) \<in> set es. length b = stride k \<and> block_offset k j \<le> length ?d" using Cons.prems(1) by fastforce
  then have IH: "block_at k i (store_blocks k es ?d) = (case map_of es i of Some b \<Rightarrow> b | None \<Rightarrow> block_at k i ?d)"
    using Cons.IH Cons.prems(2) by simp
  have "map_of es j = None" using Cons.prems(2) e by (auto simp: map_of_eq_None_iff)
  then show ?case using IH block_at_put[OF j] e by (auto split: option.splits)
qed simp

text \<open>One write of blocks that follow each other is a write of each.\<close>

lemma put_run:
  "block_offset k first \<le> length d \<Longrightarrow> \<forall>b \<in> set bs. length b = stride k \<Longrightarrow>
    put_at (block_offset k first) (concat bs) d = store_blocks k (zip [first..<first + length bs] bs) d"
proof (induction bs arbitrary: first d)
  case Nil
  then show ?case by (simp add: put_at_inside)
next
  case (Cons b bs)
  let ?d = "put_at (block_offset k first) b d"
  have l: "block_offset k (Suc first) \<le> length ?d" using Cons.prems by (simp add: length_put_at block_offset_Suc)
  have "put_at (block_offset k first) (concat (b # bs)) d = put_at (block_offset k (Suc first)) (concat bs) ?d"
    using put_at_append[OF Cons.prems(1)] Cons.prems(2) by (simp add: block_offset_Suc)
  also have "\<dots> = store_blocks k (zip [Suc first..<Suc first + length bs] bs) ?d" using Cons.IH[OF l] Cons.prems(2) by simp
  finally show ?case by (simp add: upt_conv_Cons del: upt_Suc)
qed

section \<open>Sealing\<close>

text \<open>What the ciphers promise, and a file and a random source that answer.\<close>

definition lib_ok :: "cipher_kind \<Rightarrow> aead_lib \<Rightarrow> bool" where
  "lib_ok k lib \<longleftrightarrow> (\<forall>nonce aad plain. length nonce = nonce_len k \<longrightarrow>
     (\<exists>ct tag. encrypt_detached lib nonce aad plain = Some (ct, tag) \<and> length ct = length plain \<and> length tag = TAG_LEN \<and>
       decrypt_detached lib nonce aad ct tag = Some plain)) \<and>
     (\<forall>nonce aad ct tag plain. decrypt_detached lib nonce aad ct tag = Some plain \<longrightarrow> length plain = length ct)"

definition env_ok :: "env \<Rightarrow> bool" where
  "env_ok en \<longleftrightarrow> lib_ok (en_kind en) (en_lib en) \<and> (\<forall>i n. \<exists>b. en_rnd en i n = Some b \<and> length b = n)"

definition answers_io :: "env \<Rightarrow> bool" where
  "answers_io en \<longleftrightarrow> (\<forall>i. en_io en i = Done)"

abbreviation opened :: "env \<Rightarrow> bytes \<Rightarrow> bytes \<Rightarrow> bytes option" where
  "opened en aad b \<equiv> open_in_place (en_kind en) (en_lib en) aad b"

lemma opened_length: "env_ok en \<Longrightarrow> opened en aad b = Some p \<Longrightarrow> length p = length b - overhead (en_kind en)"
  unfolding env_ok_def lib_ok_def open_in_place_def Let_def by (auto simp: overhead_def split: if_splits)

lemma seal_into_seals:
  assumes "env_ok en" "n = length plain + overhead (en_kind en)"
  shows "\<exists>b. seal_into en msg aad plain n s = (Inr b, s\<lparr>bb_draws := bb_draws s + 1\<rparr>) \<and> length b = n \<and>
    opened en aad b = Some plain"
proof -
  obtain nonce where n: "en_rnd en (bb_draws s) (nonce_len (en_kind en)) = Some nonce" "length nonce = nonce_len (en_kind en)"
    using assms(1) unfolding env_ok_def by blast
  obtain ct tag where c: "encrypt_detached (en_lib en) nonce aad plain = Some (ct, tag)" "length ct = length plain" "length tag = TAG_LEN"
    "decrypt_detached (en_lib en) nonce aad ct tag = Some plain" using assms(1) n(2) unfolding env_ok_def lib_ok_def by blast
  have "opened en aad (nonce @ ct @ tag) = Some plain" using n(2) c by (simp add: open_in_place_def Let_def)
  then show ?thesis using n c assms(2) by (simp add: seal_into_def random_bytes_def abind_def seal_into_with_def overhead_def Let_def)
qed

definition sealed_as :: "env \<Rightarrow> nat \<times> bytes \<Rightarrow> bytes \<Rightarrow> bool" where
  "sealed_as en e b \<longleftrightarrow> length b = length (snd e) + overhead (en_kind en) \<and> opened en (block_aad (fst e)) b = Some (snd e)"

lemma seal_pages_seals:
  assumes en: "env_ok en"
  shows "\<forall>(i, p) \<in> set ps. length p = PAGE \<Longrightarrow> \<exists>bs n. seal_pages en ps s = (Inr bs, s\<lparr>bb_draws := n\<rparr>) \<and> list_all2 (sealed_as en) ps bs"
proof (induction ps arbitrary: s)
  case Nil
  show ?case by (auto intro!: exI[of _ "bb_draws s"])
next
  case (Cons e ps)
  obtain i p where e: "e = (i, p)" by (cases e)
  obtain b where b: "seal_into en ''sealing a block failed'' (block_aad i) p (stride (en_kind en)) s = (Inr b, s\<lparr>bb_draws := bb_draws s + 1\<rparr>)"
    "length b = length p + overhead (en_kind en)" "opened en (block_aad i) b = Some p"
    using seal_into_seals[OF en, of "stride (en_kind en)" p _ "block_aad i" s] Cons.prems e by (auto simp: stride_def)
  obtain bs n where c: "seal_pages en ps (s\<lparr>bb_draws := bb_draws s + 1\<rparr>) = (Inr bs, s\<lparr>bb_draws := n\<rparr>)" "list_all2 (sealed_as en) ps bs"
    using Cons.IH[of "s\<lparr>bb_draws := bb_draws s + 1\<rparr>"] Cons.prems by auto
  have "seal_pages en (e # ps) s = (Inr (b # bs), s\<lparr>bb_draws := n\<rparr>)" using b(1) c(1) e by (simp add: abind_def)
  moreover have "list_all2 (sealed_as en) (e # ps) (b # bs)" using b(2,3) c(2) e by (simp add: sealed_as_def)
  ultimately show ?case by blast
qed

lemma file_calls:
  assumes "answers_io en"
  shows "file_write en off data s = (Inr (), s\<lparr>bb_ops := bb_ops s + 1, bb_disk := put_at off data (bb_disk s)\<rparr>)"
    "off + n \<le> length (bb_disk s) \<Longrightarrow> file_read en off n s = (Inr (take n (drop off (bb_disk s))), s\<lparr>bb_ops := bb_ops s + 1\<rparr>)"
    "file_set_len en n s = (Inr (), s\<lparr>bb_ops := bb_ops s + 1, bb_disk := take n (bb_disk s) @ replicate (n - length (bb_disk s)) 0\<rparr>)"
    "file_len en s = (Inr (length (bb_disk s)), s\<lparr>bb_ops := bb_ops s + 1\<rparr>)"
    "file_sync en s = (Inr (), s\<lparr>bb_ops := bb_ops s + 1\<rparr>)"
  using assms by (simp_all add: answers_io_def file_write_def file_read_def file_set_len_def file_len_def file_sync_def Let_def)

text \<open>Blocks written to the file, by number.\<close>

lemma length_sealed: "list_all2 (sealed_as en) es bs \<Longrightarrow> \<forall>(i, p) \<in> set es. length p = PAGE \<Longrightarrow> \<forall>b \<in> set bs. length b = stride (en_kind en)"
proof (induction es bs rule: list_all2_induct)
  case (Cons e es b bs)
  then show ?case by (auto simp: sealed_as_def stride_def)
qed simp

lemma split_run_numbers:
  "split_run room prev es = (run, rest) \<Longrightarrow> map fst run = [Suc prev..<Suc prev + length run]"
proof (induction room prev es arbitrary: run rest rule: split_run.induct)
  case (2 room prev i b es)
  show ?case
  proof (cases "0 < room \<and> i = prev + 1")
    case True
    obtain r t where r: "split_run (room - 1) i es = (r, t)" by (cases "split_run (room - 1) i es")
    then have "run = (i, b) # r" using 2(2) True by simp
    moreover have "map fst r = [Suc i..<Suc i + length r]" using 2(1)[OF True r] .
    ultimately show ?thesis using True by (simp add: upt_conv_Cons del: upt_Suc)
  qed (use 2(2) in auto)
qed simp

lemma write_runs_put:
  "answers_io en \<Longrightarrow> \<forall>(i, b) \<in> set es. length b = stride (en_kind en) \<and> block_offset (en_kind en) i \<le> length (bb_disk s) \<Longrightarrow>
    \<exists>n. write_runs en es s = (Inr (), s\<lparr>bb_ops := n, bb_disk := store_blocks (en_kind en) es (bb_disk s)\<rparr>)"
proof (induction en es arbitrary: s rule: write_runs.induct)
  case (1 en)
  then show ?case by (auto intro!: exI[of _ "bb_ops s"])
next
  case (2 en i b es)
  let ?k = "en_kind en"
  obtain run rest where sr: "split_run (WRITE_CHUNK - 1) i es = (run, rest)" by (cases "split_run (WRITE_CHUNK - 1) i es")
  have es: "es = run @ rest" using split_run_append[OF sr] .
  let ?bs = "b # map snd run"
  have z: "zip [i..<i + length ?bs] ?bs = (i, b) # run"
    using split_run_numbers[OF sr] by (simp add: upt_conv_Cons del: upt_Suc) (metis zip_map_fst_snd)
  have p: "put_at (block_offset ?k i) (concat ?bs) (bb_disk s) = store_blocks ?k ((i, b) # run) (bb_disk s)"
    using put_run[of ?k i "bb_disk s" ?bs] 2(3) es unfolding z by fastforce
  let ?s = "s\<lparr>bb_ops := bb_ops s + 1, bb_disk := store_blocks ?k ((i, b) # run) (bb_disk s)\<rparr>"
  have l: "length (bb_disk s) \<le> length (bb_disk ?s)" using length_put_blocks[of "(i, b) # run" ?k "bb_disk s"] 2(3) es by auto
  have w: "file_write en (block_offset ?k i) (concat ?bs) s = (Inr (), ?s)" using file_calls(1)[OF 2(2)] p by simp
  have c: "\<forall>(i, b) \<in> set rest. length b = stride ?k \<and> block_offset ?k i \<le> length (bb_disk ?s)"
  proof clarify
    fix j c assume "(j, c) \<in> set rest"
    then have "length c = stride ?k \<and> block_offset ?k j \<le> length (bb_disk s)" using 2(3) es by auto
    then show "length c = stride ?k \<and> block_offset ?k j \<le> length (bb_disk ?s)" using l by simp
  qed
  obtain n where "write_runs en rest ?s = (Inr (), ?s\<lparr>bb_ops := n, bb_disk := store_blocks ?k rest (bb_disk ?s)\<rparr>)"
    using 2(1)[OF sr[symmetric] refl 2(2) c] by blast
  then show ?case using w sr es by (auto simp: abind_def)
qed

section \<open>The content of the file\<close>

definition page_count :: "block_backend \<Rightarrow> nat" where
  "page_count s = bb_data_len s div PAGE"

definition disk_page :: "env \<Rightarrow> bytes \<Rightarrow> nat \<Rightarrow> bytes option" where
  "disk_page en d i = opened en (block_aad i) (block_at (en_kind en) i d)"

definition page :: "env \<Rightarrow> block_backend \<Rightarrow> nat \<Rightarrow> bytes" where
  "page en s i = (case tbl_get (bb_pending s) i of Some p \<Rightarrow> p | None \<Rightarrow> the (disk_page en (bb_disk s) i))"

definition content :: "env \<Rightarrow> block_backend \<Rightarrow> bytes" where
  "content en s = (if bb_header_area s
     then bb_hbytes s @ replicate (PAGE - REDB_HEADER_LEN) 0 @ concat (map (page en s) [0..<page_count s]) else [])"

text \<open>The blocks of a file: whole, each opens at its own number to a page.\<close>

definition blocks_ok :: "env \<Rightarrow> bytes \<Rightarrow> nat \<Rightarrow> bool" where
  "blocks_ok en d n \<longleftrightarrow> block_offset (en_kind en) n \<le> length d \<and> length d < block_offset (en_kind en) (n + 1) \<and>
     (\<forall>i < n. \<exists>p. disk_page en d i = Some p \<and> length p = PAGE)"

definition sound :: "env \<Rightarrow> block_backend \<Rightarrow> bool" where
  "sound en s \<longleftrightarrow> length (bb_hbytes s) = REDB_HEADER_LEN \<and> bb_newest s \<le> 1 \<and> bb_data_len s mod PAGE = 0 \<and>
     tbl_ok (bb_pending s) \<and> (\<forall>(i, p) \<in> set (bb_pending s). i < page_count s \<and> length p = PAGE) \<and>
     (\<not> en_parallel en \<longrightarrow> bb_pending s = []) \<and>
     (if bb_header_area s then blocks_ok en (bb_disk s) (page_count s) else bb_data_len s = 0 \<and> length (bb_disk s) < DATA_BASE)"

lemma PAGE_pos [simp]: "0 < PAGE" "PAGE \<noteq> 0"
  by (simp_all add: PAGE_def)

lemma stride_pos [simp]: "0 < stride k"
  by (simp add: stride_def)

lemma page_length:
  assumes "sound en s" "bb_header_area s" "i < page_count s"
  shows "length (page en s i) = PAGE"
proof (cases "tbl_get (bb_pending s) i")
  case None
  then show ?thesis using assms by (auto simp: page_def sound_def blocks_ok_def)
next
  case (Some p)
  have ok: "tbl_ok (bb_pending s)" using assms(1) by (simp add: sound_def)
  then have "(i, p) \<in> set (bb_pending s)" using Some tbl_get_iff[OF ok] by simp
  then show ?thesis using Some assms(1) by (auto simp: page_def sound_def)
qed

text \<open>Writing sealed pages at their numbers.\<close>

lemma sealed_blocks_put:
  assumes b: "blocks_ok en d n" and s: "list_all2 (sealed_as en) es bs" and e: "\<forall>(i, p) \<in> set es. i < n \<and> length p = PAGE" "distinct (map fst es)"
  defines "d' \<equiv> store_blocks (en_kind en) (zip (map fst es) bs) d"
  shows "blocks_ok en d' n" "i < n \<Longrightarrow> disk_page en d' i = (case map_of es i of Some p \<Rightarrow> Some p | None \<Rightarrow> disk_page en d i)"
    "length d' = length d" "take DATA_BASE d' = take DATA_BASE d"
proof -
  let ?k = "en_kind en" and ?z = "zip (map fst es) bs"
  have len: "length es = length bs" using s by (rule list_all2_lengthD)
  have off: "block_offset ?k i + stride ?k \<le> length d" if "i < n" for i
    using b block_offset_mono[OF that, of ?k] by (simp add: blocks_ok_def)
  have z: "\<forall>(i, b) \<in> set ?z. length b = stride ?k \<and> block_offset ?k i + stride ?k \<le> length d"
  proof clarify
    fix i c assume z: "(i, c) \<in> set ?z"
    then have "i \<in> fst ` set es" "c \<in> set bs" by (auto dest: set_zip_leftD set_zip_rightD)
    then show "length c = stride ?k \<and> block_offset ?k i + stride ?k \<le> length d" using length_sealed[OF s] e(1) off by fastforce
  qed
  have keep: "length (store_blocks ?k fs x) = length x \<and> take DATA_BASE (store_blocks ?k fs x) = take DATA_BASE x"
    if "\<forall>(i, b) \<in> set fs. length b = stride ?k \<and> block_offset ?k i + stride ?k \<le> length x" for fs x
    using that
  proof (induction fs arbitrary: x)
    case (Cons f fs)
    obtain i c where f: "f = (i, c)" by (cases f)
    have i: "block_offset ?k i \<le> length x" "length (put_at (block_offset ?k i) c x) = length x" using Cons.prems f by (auto simp: length_put_at)
    have "take DATA_BASE (put_at (block_offset ?k i) c x) = take DATA_BASE x"
      using slice_before[OF i(1), of 0 DATA_BASE c] by (simp add: block_offset_def)
    then show ?case using Cons.IH[of "put_at (block_offset ?k i) c x"] Cons.prems f i(2) by simp
  qed simp
  show l: "length d' = length d" "take DATA_BASE d' = take DATA_BASE d" using keep[OF z] by (simp_all add: d'_def)
  have at: "block_at ?k i d' = (case map_of ?z i of Some c \<Rightarrow> c | None \<Rightarrow> block_at ?k i d)" for i
    unfolding d'_def by (rule block_at_put_blocks) (use z e(2) len in fastforce)+
  have m: "(case map_of ?z i of Some c \<Rightarrow> opened en (block_aad i) c | None \<Rightarrow> q) = (case map_of es i of Some p \<Rightarrow> Some p | None \<Rightarrow> q)" for i q
    using s by (induction es bs rule: list_all2_induct) (auto simp: sealed_as_def)
  show dp: "disk_page en d' i = (case map_of es i of Some p \<Rightarrow> Some p | None \<Rightarrow> disk_page en d i)" for i
    using m[where i = i and q = "disk_page en d i"] at[of i] by (auto simp: disk_page_def split: option.splits)
  have "\<exists>p. disk_page en d' i = Some p \<and> length p = PAGE" if "i < n" for i
  proof (cases "map_of es i")
    case None
    then show ?thesis using dp b that by (simp add: blocks_ok_def)
  next
    case (Some p)
    then show ?thesis using dp e(1) map_of_SomeD[OF Some] by auto
  qed
  then show "blocks_ok en d' n" using b l(1) by (simp add: blocks_ok_def)
qed

text \<open>A step that leaves the header, the lengths and the header area of the file as they are.\<close>

definition kept :: "block_backend \<Rightarrow> block_backend \<Rightarrow> bool" where
  "kept s s' \<longleftrightarrow> bb_hbytes s' = bb_hbytes s \<and> bb_seq s' = bb_seq s \<and> bb_newest s' = bb_newest s \<and> bb_data_len s' = bb_data_len s \<and>
     bb_header_area s' = bb_header_area s \<and> take DATA_BASE (bb_disk s') = take DATA_BASE (bb_disk s)"

lemma page_counters [simp]: "page en (t\<lparr>bb_ops := n\<rparr>) = page en t" "page en (t\<lparr>bb_draws := n\<rparr>) = page en t"
  by (auto simp: fun_eq_iff page_def split: option.splits)

lemma counters_irrelevant [simp]:
  "sound en (t\<lparr>bb_ops := n\<rparr>) = sound en t" "kept u (t\<lparr>bb_ops := n\<rparr>) = kept u t" "content en (t\<lparr>bb_ops := n\<rparr>) = content en t"
  "sound en (t\<lparr>bb_draws := n\<rparr>) = sound en t" "kept u (t\<lparr>bb_draws := n\<rparr>) = kept u t" "content en (t\<lparr>bb_draws := n\<rparr>) = content en t"
  by (simp_all add: sound_def kept_def content_def page_count_def)

lemma content_cong:
  assumes "kept s s'" "\<And>i. i < page_count s \<Longrightarrow> page en s' i = page en s i"
  shows "content en s' = content en s"
proof -
  have m: "map (page en s') [0..<page_count s] = map (page en s) [0..<page_count s]" using assms(2) by simp
  have pc: "page_count s' = page_count s" using assms(1) by (simp add: kept_def page_count_def)
  show ?thesis unfolding content_def pc m using assms(1) by (simp add: kept_def)
qed

lemma sound_pending_empty: "sound en s \<Longrightarrow> \<not> bb_header_area s \<Longrightarrow> bb_pending s = []"
  by (cases "bb_pending s") (auto simp: sound_def page_count_def)

lemma drain_keeps:
  assumes en: "env_ok en" "answers_io en" and s: "sound en s"
  shows "\<exists>s'. drain en s = (Inr (), s') \<and> sound en s' \<and> kept s s' \<and> content en s' = content en s \<and> bb_pending s' = [] \<and>
    (\<forall>i < page_count s. page en s' i = page en s i)"
proof (cases "bb_pending s = []")
  case True
  then show ?thesis using s by (simp add: drain_def kept_def)
next
  case False
  let ?k = "en_kind en" and ?p = "bb_pending s"
  have area: "bb_header_area s" using sound_pending_empty[OF s] False by blast
  have p: "\<forall>(i, q) \<in> set ?p. i < page_count s \<and> length q = PAGE" "tbl_ok ?p" "blocks_ok en (bb_disk s) (page_count s)"
    using s area by (auto simp: sound_def)
  have d: "distinct (map fst ?p)" using p(2) by (simp add: tbl_ok_def strict_sorted_iff)
  obtain bs n where b: "seal_pages en ?p s = (Inr bs, s\<lparr>bb_draws := n\<rparr>)" "list_all2 (sealed_as en) ?p bs"
    using seal_pages_seals[OF en(1), of ?p s] p(1) by fastforce
  let ?z = "zip (map fst ?p) bs"
  note put = sealed_blocks_put[OF p(3) b(2) p(1) d]
  have "\<forall>(i, c) \<in> set ?z. length c = stride ?k \<and> block_offset ?k i \<le> length (bb_disk (s\<lparr>bb_draws := n\<rparr>))"
  proof clarify
    fix i c assume "(i, c) \<in> set ?z"
    then have "i \<in> fst ` set ?p" "c \<in> set bs" by (auto dest: set_zip_leftD set_zip_rightD)
    then have "i < page_count s" "length c = stride ?k" using length_sealed[OF b(2)] p(1) by fastforce+
    then show "length c = stride ?k \<and> block_offset ?k i \<le> length (bb_disk (s\<lparr>bb_draws := n\<rparr>))"
      using p(3) block_offset_mono[of i "page_count s" ?k] by (simp add: blocks_ok_def)
  qed
  then obtain m where w: "write_runs en ?z (s\<lparr>bb_draws := n\<rparr>) = (Inr (), s\<lparr>bb_draws := n, bb_ops := m, bb_disk := store_blocks ?k ?z (bb_disk s)\<rparr>)"
    using write_runs_put[OF en(2), of ?z "s\<lparr>bb_draws := n\<rparr>"] by auto
  define s' where "s' = s\<lparr>bb_draws := n, bb_ops := m, bb_disk := store_blocks ?k ?z (bb_disk s), bb_pending := []\<rparr>"
  have "filter (\<lambda>e. e \<notin> set ?p) ?p = []" by (auto simp: filter_empty_conv)
  then have dr: "drain en s = (Inr (), s')" using False b(1) w by (simp add: drain_def abind_def s'_def)
  have k: "kept s s'" using put(4) by (simp add: kept_def s'_def)
  have same: "page en s' i = page en s i" if "i < page_count s" for i
    using put(2)[OF that] map_of_tbl[OF p(2)] by (auto simp: page_def s'_def split: option.splits)
  then have c: "content en s' = content en s" using content_cong[OF k] by blast
  have "sound en s'" using s put(1) area by (simp add: sound_def s'_def page_count_def)
  moreover have "bb_pending s' = []" by (simp add: s'_def)
  ultimately show ?thesis using dr k c same by blast
qed

section \<open>Reading\<close>

lemma length_pages: "\<forall>i \<in> {a..<b}. length (f i) = w \<Longrightarrow> length (concat (map f [a..<b])) = (b - a) * w"
proof (induction b)
  case (Suc b)
  show ?case
  proof (cases "a \<le> b")
    case True
    then have "length (concat (map f [a..<b])) = (b - a) * w" using Suc by simp
    then show ?thesis using Suc.prems True by (simp add: Suc_diff_le)
  qed simp
qed simp

lemma drop_pages:
  assumes "\<forall>i \<in> {0..<n}. length (f i) = w" "k \<le> n"
  shows "drop (k * w) (concat (map f [0..<n])) = concat (map f [k..<n])"
proof -
  have "[0..<n] = [0..<k] @ [k..<n]" using assms(2) upt_add_eq_append[of 0 k "n - k"] by simp
  moreover have "length (concat (map f [0..<k])) = k * w" using length_pages[of 0 k f w] assms by simp
  ultimately show ?thesis by simp
qed

lemma take_pages:
  assumes "\<forall>i \<in> {k..<n}. length (f i) = w" "k \<le> m" "m \<le> n" "skip + want \<le> (m - k) * w"
  shows "take want (drop skip (concat (map f [k..<n]))) = take want (drop skip (concat (map f [k..<m])))"
proof -
  have "[k..<n] = [k..<m] @ [m..<n]" using assms(2,3) upt_add_eq_append[of k m "n - m"] by simp
  moreover have "length (concat (map f [k..<m])) = (m - k) * w" using length_pages[of k m f w] assms by simp
  ultimately show ?thesis using assms(4) by simp
qed

lemma copy_blocks_copies:
  "\<forall>i \<in> {first..<first + count}. opened en (block_aad i) (b i) = Some (f i) \<and> length (f i) = PAGE \<Longrightarrow> skip \<le> PAGE \<Longrightarrow>
    copy_blocks en first skip want (map b [first..<first + count]) = Inr (take want (drop skip (concat (map f [first..<first + count]))))"
proof (induction count arbitrary: first skip want)
  case (Suc count)
  have u: "[first..<first + Suc count] = first # [Suc first..<Suc first + count]" by (simp add: upt_conv_Cons del: upt_Suc)
  have f: "opened en (block_aad first) (b first) = Some (f first)" "length (f first) = PAGE" using Suc.prems(1) by auto
  let ?n = "min (PAGE - skip) want" and ?c = "concat (map f [Suc first..<Suc first + count])"
  have "copy_blocks en (Suc first) 0 (want - ?n) (map b [Suc first..<Suc first + count]) = Inr (take (want - ?n) ?c)"
    using Suc.IH[of "Suc first" 0 "want - ?n"] Suc.prems(1) by simp
  then have "copy_blocks en first skip want (map b [first..<first + Suc count]) = Inr (take ?n (drop skip (f first)) @ take (want - ?n) ?c)"
    using f(1) unfolding u by (simp add: Let_def)
  also have "take ?n (drop skip (f first)) @ take (want - ?n) ?c = take want (drop skip (f first @ ?c))"
    using f(2) Suc.prems(2) by (cases "want \<le> PAGE - skip") auto
  finally show ?case unfolding u by simp
qed simp

lemma blocks_of_disk:
  "blocks_of (stride k) count (take (count * stride k) (drop (block_offset k first) d)) = map (\<lambda>i. block_at k i d) [first..<first + count]"
proof -
  have "take (stride k) (drop (i * stride k) (take (count * stride k) (drop (block_offset k first) d))) = block_at k (first + i) d" if "i < count" for i
  proof -
    have "Suc i * stride k \<le> count * stride k" using that by (intro mult_le_mono1) simp
    then have "stride k \<le> count * stride k - i * stride k" by simp
    moreover have "block_offset k first + i * stride k = block_offset k (first + i)" by (simp add: block_offset_def algebra_simps)
    ultimately show ?thesis by (simp add: block_at_def drop_take add.commute min_def)
  qed
  then have "blocks_of (stride k) count (take (count * stride k) (drop (block_offset k first) d)) = map (\<lambda>i. block_at k (first + i) d) [0..<count]"
    by (simp add: blocks_of_def)
  also have "\<dots> = map (\<lambda>i. block_at k i d) [first..<first + count]" by (rule nth_equalityI) simp_all
  finally show ?thesis .
qed

lemma file_pages:
  assumes en: "answers_io en" and s: "sound en s" "bb_header_area s" and r: "first + count \<le> page_count s" "skip \<le> PAGE"
    and none: "\<forall>i \<in> {first..<first + count}. tbl_get (bb_pending s) i = None"
  shows "abind (file_read en (block_offset (en_kind en) first) (count * stride (en_kind en))) (\<lambda>buf s.
      (copy_blocks en first skip want (blocks_of (stride (en_kind en)) count buf), s)) s =
    (Inr (take want (drop skip (concat (map (page en s) [first..<first + count])))), s\<lparr>bb_ops := bb_ops s + 1\<rparr>)"
proof -
  let ?k = "en_kind en"
  have b: "blocks_ok en (bb_disk s) (page_count s)" using s by (simp add: sound_def)
  have "block_offset ?k first + count * stride ?k = block_offset ?k (first + count)" by (simp add: block_offset_def algebra_simps)
  also have "\<dots> \<le> block_offset ?k (page_count s)" using r(1) by (simp add: block_offset_def)
  finally have l: "block_offset ?k first + count * stride ?k \<le> length (bb_disk s)" using b by (simp add: blocks_ok_def)
  have "opened en (block_aad i) (block_at ?k i (bb_disk s)) = Some (page en s i) \<and> length (page en s i) = PAGE" if i: "i \<in> {first..<first + count}" for i
  proof -
    have "i < page_count s" using i r(1) by simp
    then obtain p where "disk_page en (bb_disk s) i = Some p" "length p = PAGE" using b unfolding blocks_ok_def by blast
    then show ?thesis using none i by (simp add: disk_page_def page_def)
  qed
  then have "copy_blocks en first skip want (map (\<lambda>i. block_at ?k i (bb_disk s)) [first..<first + count]) =
      Inr (take want (drop skip (concat (map (page en s) [first..<first + count]))))"
    by (intro copy_blocks_copies[OF _ r(2)]) blast
  then show ?thesis using file_calls(2)[OF en l] by (simp add: abind_def blocks_of_disk)
qed

text \<open>Which pages a read touches.\<close>

lemma read_span:
  fixes rel want n :: nat
  assumes "0 < want" "rel + want \<le> n * PAGE"
  defines "first \<equiv> rel div PAGE" and "count \<equiv> (rel + want - 1) div PAGE - rel div PAGE + 1" and "skip \<equiv> rel mod PAGE"
  shows "first + count \<le> n" "skip + want \<le> count * PAGE" "skip < PAGE" "rel = first * PAGE + skip" "0 < count"
proof -
  let ?last = "(rel + want - 1) div PAGE"
  have m: "rel div PAGE \<le> ?last" using assms(1) by (intro div_le_mono) simp
  have "?last < n" using assms(1,2) by (simp add: div_less_iff_less_mult)
  then show "first + count \<le> n" using m by (simp add: first_def count_def)
  show r: "skip < PAGE" "rel = first * PAGE + skip" by (simp_all add: skip_def first_def)
  have "rel + want - 1 < (?last + 1) * PAGE" using dividend_less_div_times[of PAGE "rel + want - 1"] by (simp add: algebra_simps)
  then have "rel + want \<le> (?last + 1) * PAGE" using assms(1) by simp
  moreover have "(?last + 1) * PAGE = first * PAGE + count * PAGE" using m by (simp add: first_def count_def flip: add_mult_distrib)
  ultimately show "skip + want \<le> count * PAGE" using r(2) by simp
  show "0 < count" by (simp add: count_def)
qed

lemma pages_slice:
  assumes "sound en s" "bb_header_area s" "0 < want" "rel + want \<le> page_count s * PAGE"
  defines "first \<equiv> rel div PAGE" and "count \<equiv> (rel + want - 1) div PAGE - rel div PAGE + 1"
  shows "take want (drop rel (concat (map (page en s) [0..<page_count s]))) =
    take want (drop (rel mod PAGE) (concat (map (page en s) [first..<first + count])))"
proof -
  note sp = read_span[OF assms(3,4)]
  have len: "\<forall>i \<in> {0..<page_count s}. length (page en s i) = PAGE" using page_length[OF assms(1,2)] by simp
  have "drop rel (concat (map (page en s) [0..<page_count s])) = drop (rel mod PAGE) (drop (first * PAGE) (concat (map (page en s) [0..<page_count s])))"
    by (simp add: first_def)
  also have "drop (first * PAGE) (concat (map (page en s) [0..<page_count s])) = concat (map (page en s) [first..<page_count s])"
    using drop_pages[OF len] sp(1) by (simp add: first_def)
  finally show ?thesis using take_pages[of first "page_count s" "page en s" PAGE "first + count" "rel mod PAGE" want] len sp(1,2)
    by (simp add: first_def count_def)
qed

lemma read_pages_reads:
  assumes en: "env_ok en" "answers_io en" and s: "sound en s" "bb_header_area s"
    and r: "LOGICAL_HEADER \<le> pos" "0 < want" "pos - LOGICAL_HEADER + want \<le> page_count s * PAGE"
  shows "\<exists>s'. read_pages en pos want s = (Inr (take want (drop (pos - LOGICAL_HEADER) (concat (map (page en s) [0..<page_count s])))), s') \<and>
    sound en s' \<and> kept s s' \<and> content en s' = content en s"
proof -
  define rel where "rel = pos - LOGICAL_HEADER"
  define first where "first = rel div PAGE"
  define count where "count = (rel + want - 1) div PAGE - rel div PAGE + 1"
  define skip where "skip = rel mod PAGE"
  note sp = read_span[OF r(2), of rel "page_count s", folded first_def count_def skip_def]
  have rw: "rel + want \<le> page_count s * PAGE" using r(3) by (simp add: rel_def)
  let ?file = "abind (file_read en (block_offset (en_kind en) first) (count * stride (en_kind en))) (\<lambda>buf s.
      (copy_blocks en first skip want (blocks_of (stride (en_kind en)) count buf), s))"
  let ?out = "\<lambda>s. take want (drop skip (concat (map (page en s) [first..<first + count])))"
  have out: "take want (drop (pos - LOGICAL_HEADER) (concat (map (page en s) [0..<page_count s]))) = ?out s"
    using pages_slice[OF s r(2) rw] by (simp add: rel_def first_def count_def skip_def)
  have rp: "read_pages en pos want s = (if en_parallel en \<and> bb_pending s \<noteq> []
        then (if count = 1 then (case tbl_get (bb_pending s) first of
              Some p \<Rightarrow> ret (take (min (PAGE - skip) want) (drop skip p)) s | None \<Rightarrow> ?file s)
          else if list_ex (\<lambda>b. tbl_get (bb_pending s) b \<noteq> None) [first..<first + count] then abind (drain en) (\<lambda>_. ?file) s else ?file s)
        else ?file s)"
    by (simp only: read_pages_def rel_def first_def count_def skip_def Let_def)
  have from_file: "?file t = (Inr (?out t), t\<lparr>bb_ops := bb_ops t + 1\<rparr>)"
    if t: "sound en t" "bb_header_area t" "page_count t = page_count s" "\<forall>i \<in> {first..<first + count}. tbl_get (bb_pending t) i = None" for t
    using file_pages[OF en(2) t(1,2) _ _ t(4)] sp(1,3)[OF rw] t(3) by simp
  have self: "kept s s" by (simp add: kept_def)
  consider (none) "\<forall>i \<in> {first..<first + count}. tbl_get (bb_pending s) i = None" "read_pages en pos want s = ?file s"
    | (one) p where "count = 1" "tbl_get (bb_pending s) first = Some p" "read_pages en pos want s = (Inr (take (min (PAGE - skip) want) (drop skip p)), s)"
    | (some) "read_pages en pos want s = abind (drain en) (\<lambda>_. ?file) s"
  proof (cases "\<forall>i \<in> {first..<first + count}. tbl_get (bb_pending s) i = None")
    case True
    have "\<not> list_ex (\<lambda>b. tbl_get (bb_pending s) b \<noteq> None) [first..<first + count]" using True by (auto simp: list_ex_iff)
    moreover have "tbl_get (bb_pending s) first = None" if "count = 1" using True that by simp
    ultimately show ?thesis using none[OF True] rp by auto
  next
    case False
    then have "bb_pending s \<noteq> []" by auto
    moreover from this have "en_parallel en" using s(1) by (auto simp: sound_def)
    moreover have "list_ex (\<lambda>b. tbl_get (bb_pending s) b \<noteq> None) [first..<first + count]" using False by (auto simp: list_ex_iff)
    moreover have "\<exists>p. tbl_get (bb_pending s) first = Some p" if "count = 1" using False that by auto
    ultimately show ?thesis using one some rp by (cases "count = 1") auto
  qed
  then show ?thesis
  proof cases
    case none
    then show ?thesis using from_file[OF s refl none(1)] s(1) out self by auto
  next
    case one
    have "length p = PAGE" using one(2) page_length[OF s, of first] sp(1)[OF rw] one(1) by (simp add: page_def)
    moreover have "?out s = take want (drop skip p)" using one(1,2) by (simp add: page_def)
    moreover have "skip + want \<le> PAGE" using sp(2)[OF rw] one(1) by simp
    ultimately show ?thesis using one(3) s(1) out self by simp
  next
    case some
    obtain t where t: "drain en s = (Inr (), t)" "sound en t" "kept s t" "content en t = content en s" "bb_pending t = []" using drain_keeps[OF en s(1)] by blast
    have area: "bb_header_area t" "page_count t = page_count s" using t(3) s(2) by (auto simp: kept_def page_count_def)
    have "concat (map (page en t) [0..<page_count t]) = concat (map (page en s) [0..<page_count s])"
      using t(3,4) area s(2) by (simp add: content_def kept_def)
    then have "?out t = ?out s"
      using pages_slice[OF t(2) area(1) r(2), of rel] pages_slice[OF s r(2) rw] rw area(2) by (simp add: first_def count_def skip_def)
    then show ?thesis using some t from_file[OF t(2) area] out by (simp add: abind_def)
  qed
qed

lemma length_content: "sound en s \<Longrightarrow> length (content en s) = backend_len s"
proof (cases "bb_header_area s")
  case True
  assume s: "sound en s"
  have "length (concat (map (page en s) [0..<page_count s])) = page_count s * PAGE" using length_pages[of 0 "page_count s" "page en s" PAGE] page_length[OF s True] by simp
  moreover have "page_count s * PAGE = bb_data_len s" using s by (auto simp: sound_def page_count_def)
  ultimately show ?thesis using s True by (simp add: content_def backend_len_def sound_def LOGICAL_HEADER_def REDB_HEADER_LEN_def PAGE_def)
qed (simp add: content_def backend_len_def)

lemma backend_read_reads:
  assumes en: "env_ok en" "answers_io en" and s: "sound en s" and r: "off + len \<le> backend_len s"
  shows "\<exists>s'. backend_read en off len s = (Inr (take len (drop off (content en s))), s') \<and> sound en s' \<and> kept s s' \<and> content en s' = content en s"
proof (cases "len = 0")
  case True
  then show ?thesis using s by (simp add: backend_read_def kept_def)
next
  case False
  then have area: "bb_header_area s" using r by (auto simp: backend_len_def split: if_splits)
  define H where "H = bb_hbytes s @ replicate (PAGE - REDB_HEADER_LEN) 0"
  define P where "P = concat (map (page en s) [0..<page_count s])"
  have H: "length H = LOGICAL_HEADER" "content en s = H @ P" using s area by (auto simp: H_def P_def sound_def LOGICAL_HEADER_def content_def REDB_HEADER_LEN_def PAGE_def)
  have P: "length P = page_count s * PAGE" "backend_len s = LOGICAL_HEADER + length P"
    using length_pages[of 0 "page_count s" "page en s" PAGE] page_length[OF s area] length_content[OF s] H by (simp_all add: P_def)
  define n where "n = (if off < LOGICAL_HEADER then min (LOGICAL_HEADER - off) len else 0)"
  have hb: "length (bb_hbytes s) = REDB_HEADER_LEN" using s by (simp add: sound_def)
  have byte: "header_byte (bb_hbytes s) i = H ! i" if "i < LOGICAL_HEADER" for i
    using that hb H(1) unfolding header_byte_def H_def by (auto simp: nth_append)
  have head: "map (\<lambda>i. header_byte (bb_hbytes s) (off + i)) [0..<n] = take n (drop off H)"
    by (rule nth_equalityI) (use H(1) byte in \<open>auto simp: n_def split: if_splits\<close>)
  have c: "backend_read en off len s = (if n = len then (Inr (take n (drop off H)), s)
      else abind (read_pages en (off + n) (len - n)) (\<lambda>rest. ret (take n (drop off H) @ rest)) s)"
    unfolding backend_read_def Let_def n_def[symmetric] head using False r by simp
  show ?thesis
  proof (cases "n = len")
    case True
    then have "off + len \<le> LOGICAL_HEADER" using False by (auto simp: n_def split: if_splits)
    then have "take len (drop off (content en s)) = take n (drop off H)" using H True by simp
    then show ?thesis using c True s by (simp add: kept_def)
  next
    case nl: False
    have pos: "LOGICAL_HEADER \<le> off + n" "off + n - LOGICAL_HEADER + (len - n) \<le> page_count s * PAGE" "0 < len - n"
      using nl r P by (auto simp: n_def split: if_splits)
    obtain s' where s': "read_pages en (off + n) (len - n) s = (Inr (take (len - n) (drop (off + n - LOGICAL_HEADER) P)), s')" "sound en s'" "kept s s'" "content en s' = content en s"
      using read_pages_reads[OF en s area pos(1,3,2)] unfolding P_def by blast
    have "take len (drop off (H @ P)) = take n (drop off H) @ take (len - n) (drop (off + n - LOGICAL_HEADER) P)"
      using H(1) nl by (cases "off < LOGICAL_HEADER") (auto simp: n_def min_def split: if_splits)
    then show ?thesis using c nl s' H(2) by (simp add: abind_def)
  qed
qed

section \<open>Writing whole pages\<close>

lemma length_pages_of [simp]: "length (pages_of plain) = length plain div PAGE"
  by (simp add: pages_of_def)

lemma nth_pages_of: "i < length plain div PAGE \<Longrightarrow> pages_of plain ! i = take PAGE (drop (i * PAGE) plain)"
  by (simp add: pages_of_def)

lemma pages_of_lengths: "p \<in> set (pages_of plain) \<Longrightarrow> length p = PAGE"
proof -
  assume "p \<in> set (pages_of plain)"
  then obtain i where i: "i < length plain div PAGE" "p = take PAGE (drop (i * PAGE) plain)" by (auto simp: pages_of_def)
  have "Suc i * PAGE \<le> length plain div PAGE * PAGE" using i(1) by (intro mult_le_mono1) simp
  also have "\<dots> \<le> length plain" by (rule div_times_less_eq_dividend)
  finally have "i * PAGE + PAGE \<le> length plain" by simp
  then show ?thesis using i(2) by simp
qed

lemma concat_pages_of: "length plain mod PAGE = 0 \<Longrightarrow> concat (pages_of plain) = plain"
proof -
  have "concat (map (\<lambda>i. take w (drop (i * w) plain)) [0..<n]) = take (n * w) plain" for n w
  proof (induction n)
    case (Suc n)
    then show ?case using take_add[of "n * w" w plain] by (simp add: add.commute)
  qed simp
  note c = this
  assume "length plain mod PAGE = 0"
  then have "length plain div PAGE * PAGE = length plain" by (simp add: mod_0_imp_dvd)
  then show ?thesis unfolding pages_of_def c by simp
qed

lemma numbered_pages_simps: "map fst (numbered_pages first ps) = [first..<first + length ps]" "distinct (map fst (numbered_pages first ps))"
  by (simp_all add: numbered_pages_def)

lemma numbered_pages_member: "(i, p) \<in> set (numbered_pages first ps) \<Longrightarrow> first \<le> i \<and> i < first + length ps \<and> p \<in> set ps"
  by (auto simp: numbered_pages_def dest: set_zip_leftD set_zip_rightD)

lemma map_of_numbered: "map_of (numbered_pages first ps) i = (if first \<le> i \<and> i < first + length ps then Some (ps ! (i - first)) else None)"
proof (cases "first \<le> i \<and> i < first + length ps")
  case True
  then have "(i, ps ! (i - first)) \<in> set (numbered_pages first ps)" by (auto simp: numbered_pages_def set_zip intro!: exI[of _ "i - first"])
  then show ?thesis using True numbered_pages_simps(2) by (simp add: map_of_eq_Some_iff)
next
  case False
  then have "i \<notin> fst ` set (numbered_pages first ps)" using numbered_pages_member by fastforce
  then show ?thesis using False by (auto simp: map_of_eq_None_iff)
qed

lemma map_of_rev_distinct: "distinct (map fst es) \<Longrightarrow> map_of (rev es) k = map_of es k"
proof -
  assume d: "distinct (map fst es)"
  then have r: "distinct (map fst (rev es))" by (simp flip: rev_map)
  have "map_of (rev es) k = Some v \<longleftrightarrow> map_of es k = Some v" for v using map_of_eq_Some_iff[OF d] map_of_eq_Some_iff[OF r] by simp
  then show ?thesis by (metis option.exhaust)
qed

text \<open>The content of the pages after some of them are replaced.\<close>

lemma pages_replaced:
  assumes f: "\<forall>i \<in> {0..<n}. length (f i) = PAGE" and d: "length data mod PAGE = 0" "first + length data div PAGE \<le> n"
    and g: "\<And>i. i < n \<Longrightarrow> g i = (case map_of (numbered_pages first (pages_of data)) i of Some p \<Rightarrow> p | None \<Rightarrow> f i)"
  shows "concat (map g [0..<n]) = put_at (first * PAGE) data (concat (map f [0..<n]))"
proof -
  let ?c = "length data div PAGE"
  have u: "[0..<n] = [0..<first] @ [first..<first + ?c] @ [first + ?c..<n]"
    using d(2) upt_add_eq_append[of 0 first "n - first"] upt_add_eq_append[of first "first + ?c" "n - (first + ?c)"] by simp
  have l: "length (concat (map f [0..<first])) = first * PAGE" "length (concat (map f [first..<first + ?c])) = ?c * PAGE"
    using length_pages[of 0 first f PAGE] length_pages[of first "first + ?c" f PAGE] f d(2) by auto
  have ld: "length data = ?c * PAGE" using d(1) by (simp add: mod_0_imp_dvd)
  have "map g [first..<first + ?c] = pages_of data" by (rule nth_equalityI) (use d(2) in \<open>auto simp: g map_of_numbered\<close>)
  then have m: "concat (map g [first..<first + ?c]) = data" using concat_pages_of[OF d(1)] by simp
  have o: "map g [0..<first] = map f [0..<first]" "map g [first + ?c..<n] = map f [first + ?c..<n]" using d(2) by (auto simp: g map_of_numbered)
  show ?thesis unfolding u map_append concat_append m o put_at_def using l ld by simp
qed

lemma write_blocks_seals:
  assumes en: "env_ok en" "answers_io en" "\<not> en_read_only en" and o: "block_offset (en_kind en) first \<le> length (bb_disk s)"
  shows "\<exists>bs n m. write_blocks en first plain s =
      (Inr (), s\<lparr>bb_draws := n, bb_ops := m, bb_disk := store_blocks (en_kind en) (zip (map fst (numbered_pages first (pages_of plain))) bs) (bb_disk s)\<rparr>) \<and>
    list_all2 (sealed_as en) (numbered_pages first (pages_of plain)) bs"
proof -
  let ?es = "numbered_pages first (pages_of plain)"
  have es: "\<forall>(i, p) \<in> set ?es. length p = PAGE" using pages_of_lengths numbered_pages_member by fastforce
  obtain bs n where b: "seal_pages en ?es s = (Inr bs, s\<lparr>bb_draws := n\<rparr>)" "list_all2 (sealed_as en) ?es bs" using seal_pages_seals[OF en(1) es] by blast
  note len = length_sealed[OF b(2) es]
  have "length bs = length (pages_of plain)" using list_all2_lengthD[OF b(2)] by (simp add: numbered_pages_def)
  then have "put_at (block_offset (en_kind en) first) (concat bs) (bb_disk s) = store_blocks (en_kind en) (zip (map fst ?es) bs) (bb_disk s)"
    using put_run[OF o len] by (simp add: numbered_pages_simps)
  then show ?thesis using b en(3) file_calls(1)[OF en(2), of _ _ "s\<lparr>bb_draws := n\<rparr>"] by (auto simp: write_blocks_def refuse_if_read_only_def abind_def)
qed

lemma page_write:
  assumes en: "env_ok en" "answers_io en" "\<not> en_read_only en" and s: "sound en s" "bb_header_area s"
    and d: "length data mod PAGE = 0" "first + length data div PAGE \<le> page_count s"
  shows "\<exists>s'. (if en_parallel en then stage_pages en first data else write_blocks en first data) s = (Inr (), s') \<and> sound en s' \<and> kept s s' \<and>
    content en s' = put_at (LOGICAL_HEADER + first * PAGE) data (content en s)"
proof -
  let ?es = "numbered_pages first (pages_of data)" and ?n = "page_count s"
  have es: "\<forall>(i, p) \<in> set ?es. i < ?n \<and> length p = PAGE" using pages_of_lengths numbered_pages_member d(2) by fastforce
  have len: "\<forall>i \<in> {0..<?n}. length (page en s i) = PAGE" using page_length[OF s] by simp
  have new: "content en t = put_at (LOGICAL_HEADER + first * PAGE) data (content en s)"
    if t: "kept s t" "\<And>i. i < ?n \<Longrightarrow> page en t i = (case map_of ?es i of Some p \<Rightarrow> p | None \<Rightarrow> page en s i)" for t
  proof -
    let ?H = "bb_hbytes s @ replicate (PAGE - REDB_HEADER_LEN) 0"
    have h: "length ?H = LOGICAL_HEADER" using s by (simp add: sound_def LOGICAL_HEADER_def REDB_HEADER_LEN_def PAGE_def)
    have "content en t = ?H @ concat (map (page en t) [0..<?n])" using t(1) s(2) by (simp add: content_def kept_def page_count_def)
    also have "\<dots> = ?H @ put_at (first * PAGE) data (concat (map (page en s) [0..<?n]))" using pages_replaced[OF len d t(2)] by simp
    also have "\<dots> = put_at (LOGICAL_HEADER + first * PAGE) data (content en s)"
      unfolding content_def put_at_def using s(2) h by (simp add: append_assoc[symmetric] del: append_assoc)
    finally show ?thesis .
  qed
  show ?thesis
  proof (cases "en_parallel en")
    case True
    define t where "t = s\<lparr>bb_pending := tbl_insert_all (bb_pending s) ?es\<rparr>"
    have p: "tbl_ok (bb_pending s)" using s(1) by (simp add: sound_def)
    have g: "tbl_get (bb_pending t) i = (case map_of ?es i of Some q \<Rightarrow> Some q | None \<Rightarrow> tbl_get (bb_pending s) i)" for i
      using tbl_get_insert_all[OF p, of ?es i] map_of_rev_distinct[OF numbered_pages_simps(2), of first "pages_of data" i] by (simp add: t_def)
    have ok: "tbl_ok (bb_pending t)" using tbl_ok_insert_all[OF p] by (simp add: t_def)
    have "\<forall>(i, q) \<in> set (bb_pending t). i < ?n \<and> length q = PAGE"
    proof clarify
      fix i q assume "(i, q) \<in> set (bb_pending t)"
      then have "tbl_get (bb_pending t) i = Some q" using tbl_get_iff[OF ok] by simp
      then have "(i, q) \<in> set ?es \<or> (i, q) \<in> set (bb_pending s)" using g tbl_get_iff[OF p] map_of_SomeD[of ?es i q] by (auto split: option.splits)
      then show "i < ?n \<and> length q = PAGE" using es s(1) by (auto simp: sound_def)
    qed
    then have st: "sound en t" using s ok True by (simp add: sound_def t_def page_count_def)
    have k: "kept s t" by (simp add: kept_def t_def)
    have c: "content en t = put_at (LOGICAL_HEADER + first * PAGE) data (content en s)"
    proof (rule new[OF k])
      fix i
      have "bb_disk t = bb_disk s" by (simp add: t_def)
      then show "page en t i = (case map_of ?es i of Some p \<Rightarrow> p | None \<Rightarrow> page en s i)" using g[of i] by (simp add: page_def split: option.split)
    qed
    have st0: "stage_pages en first data s = (if PENDING_CAP_PAGES \<le> length (bb_pending t) then drain en t else (Inr (), t))"
      using en(3) by (simp add: stage_pages_def refuse_if_read_only_def t_def)
    obtain u where u: "drain en t = (Inr (), u)" "sound en u" "kept t u" "content en u = content en t" using drain_keeps[OF en(1,2) st] by blast
    have "kept s u" using k u(3) by (simp add: kept_def)
    then show ?thesis using True st0 st k c u by (cases "PENDING_CAP_PAGES \<le> length (bb_pending t)") auto
  next
    case False
    have b: "blocks_ok en (bb_disk s) ?n" "bb_pending s = []" using s False by (auto simp: sound_def)
    have "block_offset (en_kind en) first \<le> length (bb_disk s)" using b(1) d(2) by (simp add: blocks_ok_def block_offset_def) (meson add_leE le_trans mult_le_mono1 add_le_cancel_left)
    then obtain bs n m where w: "write_blocks en first data s =
        (Inr (), s\<lparr>bb_draws := n, bb_ops := m, bb_disk := store_blocks (en_kind en) (zip (map fst ?es) bs) (bb_disk s)\<rparr>)" "list_all2 (sealed_as en) ?es bs"
      using write_blocks_seals[OF en] by blast
    note put = sealed_blocks_put[OF b(1) w(2) es numbered_pages_simps(2)]
    define t where "t = s\<lparr>bb_draws := n, bb_ops := m, bb_disk := store_blocks (en_kind en) (zip (map fst ?es) bs) (bb_disk s)\<rparr>"
    have k: "kept s t" using put(4) by (simp add: kept_def t_def)
    have "sound en t" using s put(1) by (simp add: sound_def t_def page_count_def)
    moreover have "content en t = put_at (LOGICAL_HEADER + first * PAGE) data (content en s)"
      by (rule new[OF k]) (use put(2) b(2) in \<open>auto simp: page_def t_def split: option.splits\<close>)
    ultimately show ?thesis using False w(1) k by (simp add: t_def)
  qed
qed

end
