(* ===== verification/Block_Header.thy ===== *)
theory Block_Header
  imports Block_Refine
begin

text \<open>
  The header page of the encrypted file. It is kept in four sealed pieces; \<open>loaded\<close> is what opening the file makes of them. A write of the
  header goes to the pieces one after the other, and the lemmas here follow it through every answer of the file, also a write that stops
  in the middle.
\<close>

section \<open>The pieces on disk\<close>

definition piece_at :: "nat \<Rightarrow> bytes \<Rightarrow> bytes" where
  "piece_at copy d = take PIECE_LEN (drop (piece_offset copy) d)"

definition opened_piece :: "env \<Rightarrow> nat \<Rightarrow> nat \<Rightarrow> bytes \<Rightarrow> bytes option" where
  "opened_piece en copy piece d =
     (if list_all (\<lambda>b. b = 0) (piece_at copy d) then None else opened en (piece_aad piece) (piece_at copy d))"

definition slot :: "bytes option \<Rightarrow> bytes" where
  "slot p = (case p of None \<Rightarrow> replicate 128 0 | Some p \<Rightarrow> take 128 p)"

definition primary :: "bytes option \<Rightarrow> bytes option \<Rightarrow> nat \<times> nat \<times> bytes" where
  "primary a b = (case newer (newer None 0 a) 1 b of None \<Rightarrow> (0, 0, replicate 64 0) | Some r \<Rightarrow> r)"

definition loaded :: "env \<Rightarrow> bytes \<Rightarrow> nat \<times> nat \<times> bytes" where
  "loaded en d = (case primary (opened_piece en 0 0 d) (opened_piece en 1 0 d) of
     (seq, newest, p) \<Rightarrow> (seq, newest, p @ slot (opened_piece en 2 1 d) @ slot (opened_piece en 3 2 d)))"

text \<open>The pieces of a file that has its header area.\<close>

lemma piece_bounds: "copy < 4 \<Longrightarrow> piece_offset copy + PIECE_LEN \<le> DATA_BASE" "FILE_HEADER_LEN \<le> piece_offset copy"
  by (simp_all add: piece_offset_def DATA_BASE_def PIECES_LEN_def PIECE_LEN_def FILE_HEADER_LEN_def)

lemma overhead_bound: "overhead k \<le> 40"
  by (cases k) (simp_all add: overhead_def TAG_LEN_def)

lemma length_piece_at: "copy < 4 \<Longrightarrow> DATA_BASE \<le> length d \<Longrightarrow> length (piece_at copy d) = PIECE_LEN"
  using piece_bounds(1)[of copy] by (simp add: piece_at_def)

lemma opened_piece_length:
  assumes "env_ok en" "copy < 4" "DATA_BASE \<le> length d" "opened_piece en copy piece d = Some p"
  shows "472 \<le> length p"
proof -
  have "opened en (piece_aad piece) (piece_at copy d) = Some p" using assms(4) by (auto simp: opened_piece_def split: if_splits)
  then have "length p = PIECE_LEN - overhead (en_kind en)" using opened_length[OF assms(1)] length_piece_at[OF assms(2,3)] by simp
  then show ?thesis using overhead_bound[of "en_kind en"] by (simp add: PIECE_LEN_def)
qed

lemma length_slot: "env_ok en \<Longrightarrow> copy < 4 \<Longrightarrow> DATA_BASE \<le> length d \<Longrightarrow> length (slot (opened_piece en copy piece d)) = 128"
  using opened_piece_length[of en copy d piece] by (fastforce simp: slot_def split: option.split)

lemma length_primary:
  assumes "env_ok en" "DATA_BASE \<le> length d" "primary (opened_piece en 0 0 d) (opened_piece en 1 0 d) = (seq, newest, p)"
  shows "length p = 64" "newest \<le> 1"
proof -
  have "length b \<ge> 472" if "opened_piece en c 0 d = Some b" "c < 4" for b c using opened_piece_length[OF assms(1) that(2) assms(2) that(1)] .
  from this[of 0] this[of 1] assms(3) show "length p = 64" "newest \<le> 1"
    by (fastforce simp: primary_def newer_def Let_def split: option.splits if_splits)+
qed

section \<open>Opening the file\<close>

lemma try_piece_opens:
  assumes "answers_io en" "copy < 4" "DATA_BASE \<le> length (bb_disk s)"
  shows "try_piece en copy piece s = (Inr (opened_piece en copy piece (bb_disk s)), s\<lparr>bb_ops := bb_ops s + 1\<rparr>)"
proof -
  have "piece_offset copy + PIECE_LEN \<le> length (bb_disk s)" using piece_bounds(1)[OF assms(2)] assms(3) by simp
  then show ?thesis using file_calls(2)[OF assms(1)]
    by (auto simp: try_piece_def read_piece_def abind_def opened_piece_def piece_at_def split: option.splits)
qed

lemma load_header_loads:
  assumes en: "env_ok en" "answers_io en" and d: "DATA_BASE \<le> length (bb_disk s)"
    and fresh: "bb_hbytes s = replicate REDB_HEADER_LEN 0" "bb_seq s = 0" "bb_newest s = 0"
  shows "\<exists>n. load_header en s = (Inr (), s\<lparr>bb_ops := n, bb_seq := fst (loaded en (bb_disk s)), bb_newest := fst (snd (loaded en (bb_disk s))),
    bb_hbytes := snd (snd (loaded en (bb_disk s)))\<rparr>)"
proof -
  let ?o = "\<lambda>c p. opened_piece en c p (bb_disk s)"
  obtain seq newest p where pr: "primary (?o 0 0) (?o 1 0) = (seq, newest, p)" by (cases "primary (?o 0 0) (?o 1 0)")
  note len = length_primary[OF en(1) d pr] length_slot[OF en(1) _ d, of 2 1] length_slot[OF en(1) _ d, of 3 2]
  define t1 where "t1 = s\<lparr>bb_ops := bb_ops s + 2, bb_seq := seq, bb_newest := newest, bb_hbytes := p @ replicate 256 0\<rparr>"
  define t2 where "t2 = t1\<lparr>bb_ops := bb_ops s + 3, bb_hbytes := p @ slot (?o 2 1) @ replicate 128 0\<rparr>"
  define t3 where "t3 = t2\<lparr>bb_ops := bb_ops s + 4, bb_hbytes := p @ slot (?o 2 1) @ slot (?o 3 2)\<rparr>"
  define u1 where "u1 = s\<lparr>bb_ops := bb_ops s + 2\<rparr>"
  define u2 where "u2 = t1\<lparr>bb_ops := bb_ops s + 3\<rparr>"
  define u3 where "u3 = t2\<lparr>bb_ops := bb_ops s + 4\<rparr>"
  have a: "try_piece en 0 0 s = (Inr (?o 0 0), s\<lparr>bb_ops := bb_ops s + 1\<rparr>)"
    "try_piece en 1 0 (s\<lparr>bb_ops := bb_ops s + 1\<rparr>) = (Inr (?o 1 0), u1)"
    "try_piece en 2 1 t1 = (Inr (?o 2 1), u2)" "try_piece en 3 2 t2 = (Inr (?o 3 2), u3)"
    using try_piece_opens[OF en(2), of 0 s 0] try_piece_opens[OF en(2), of 1 "s\<lparr>bb_ops := bb_ops s + 1\<rparr>" 0]
      try_piece_opens[OF en(2), of 2 t1 1] try_piece_opens[OF en(2), of 3 t2 2] d by (simp_all add: t1_def t2_def u1_def u2_def u3_def)
  have b: "(case newer (newer None 0 (?o 0 0)) 1 (?o 1 0) of None \<Rightarrow> u1
      | Some (seq, copy, p) \<Rightarrow> u1\<lparr>bb_seq := seq, bb_newest := copy, bb_hbytes := put_header_part 0 p (bb_hbytes u1)\<rparr>) = t1"
    using pr len(1) fresh by (auto simp: t1_def u1_def primary_def put_header_part_def REDB_HEADER_LEN_def simp flip: replicate_add split: option.splits)
  have c: "(case ?o 2 1 of None \<Rightarrow> u2 | Some p \<Rightarrow> u2\<lparr>bb_hbytes := put_header_part 64 (take 128 p) (bb_hbytes u2)\<rparr>) = t2"
    using len(1,3) by (auto simp: u2_def t2_def t1_def slot_def put_header_part_def simp flip: replicate_add split: option.splits)
  have e: "(case ?o 3 2 of None \<Rightarrow> u3 | Some p \<Rightarrow> u3\<lparr>bb_hbytes := put_header_part 192 (take 128 p) (bb_hbytes u3)\<rparr>) = t3"
    using len(1,3,4) by (auto simp: u3_def t3_def t2_def slot_def put_header_part_def split: option.splits)
  have "load_header en s = (Inr (), t3)"
    unfolding load_header_def abind_Inr[where m = "try_piece en 0 0", OF a(1)] abind_Inr[where m = "try_piece en 1 0", OF a(2)] abind_simps(3) b
      abind_Inr[where m = "try_piece en 2 1", OF a(3)] c abind_Inr[where m = "try_piece en 3 2", OF a(4)] act_simps(3) e by (rule refl)
  moreover have "loaded en (bb_disk s) = (seq, newest, p @ slot (?o 2 1) @ slot (?o 3 2))" using pr by (simp add: loaded_def)
  ultimately show ?thesis by (intro exI[of _ "bb_ops s + 4"]) (simp add: t3_def t2_def t1_def)
qed

section \<open>Writing one piece\<close>

text \<open>The sealed piece \<open>write_piece\<close> makes with the nonce of one draw.\<close>

definition sealed_piece :: "env \<Rightarrow> nat \<Rightarrow> nat \<Rightarrow> nat \<Rightarrow> bytes \<Rightarrow> bytes" where
  "sealed_piece en draw piece seq hb = the (seal_into_with (en_kind en) (en_lib en) (the (en_rnd en draw (nonce_len (en_kind en)))) (piece_aad piece)
     (piece_plain seq hb piece (PIECE_LEN - overhead (en_kind en))) PIECE_LEN)"

text \<open>The zero piece does not open, nor does the random filling of a new header area.\<close>

definition blanks_rejected :: "env \<Rightarrow> bool" where
  "blanks_rejected en \<longleftrightarrow> (\<forall>p. opened en (piece_aad p) (replicate PIECE_LEN 0) = None) \<and>
     (\<forall>i noise c p. en_rnd en i PIECES_LEN = Some noise \<longrightarrow> opened en (piece_aad p) (take PIECE_LEN (drop (c * PIECE_LEN) noise)) = None)"

text \<open>A piece of which a write stored a part shows it: it is the old piece, the new one, or does not open.\<close>

definition tears_show :: "env \<Rightarrow> block_backend \<Rightarrow> bytes \<Rightarrow> bool" where
  "tears_show en s hb \<longleftrightarrow> (\<forall>(c, p) \<in> {(2, 1), (3, 2), (1 - bb_newest s, 0)}. \<forall>i n.
     let b = sealed_piece en i p (bb_seq s + 1) hb; torn = take n b @ drop n (piece_at c (bb_disk s)) in
     torn = piece_at c (bb_disk s) \<or> torn = b \<or> opened en (piece_aad p) torn = None)"

lemma length_piece_plain: "length (piece_plain seq hb piece n) = n"
  by (simp add: piece_plain_def resize_to_def)

lemma sealed_piece_opens:
  assumes "env_ok en"
  shows "length (sealed_piece en i p seq hb) = PIECE_LEN"
    "opened en (piece_aad p) (sealed_piece en i p seq hb) = Some (piece_plain seq hb p (PIECE_LEN - overhead (en_kind en)))"
proof -
  let ?k = "en_kind en" and ?plain = "piece_plain seq hb p (PIECE_LEN - overhead (en_kind en))"
  have l: "length ?plain = PIECE_LEN - overhead ?k" "overhead ?k \<le> PIECE_LEN"
    using overhead_bound[of ?k] by (simp_all add: length_piece_plain PIECE_LEN_def)
  obtain nonce where n: "en_rnd en i (nonce_len ?k) = Some nonce" "length nonce = nonce_len ?k" using assms unfolding env_ok_def by blast
  obtain ct tag where c: "encrypt_detached (en_lib en) nonce (piece_aad p) ?plain = Some (ct, tag)" "length ct = length ?plain" "length tag = TAG_LEN"
    "decrypt_detached (en_lib en) nonce (piece_aad p) ct tag = Some ?plain" using assms n(2) unfolding env_ok_def lib_ok_def by blast
  have b: "sealed_piece en i p seq hb = nonce @ ct @ tag" using n c l by (simp add: sealed_piece_def seal_into_with_def overhead_def)
  show "length (sealed_piece en i p seq hb) = PIECE_LEN" using b n c l by (simp add: overhead_def)
  show "opened en (piece_aad p) (sealed_piece en i p seq hb) = Some ?plain" using b n(2) c by (simp add: open_in_place_def Let_def)
qed

lemma write_piece_writes:
  assumes "env_ok en"
  shows "write_piece en c p s = file_write en (piece_offset c) (sealed_piece en (bb_draws s) p (bb_seq s) (bb_hbytes s)) (s\<lparr>bb_draws := bb_draws s + 1\<rparr>)"
proof -
  let ?k = "en_kind en" and ?plain = "piece_plain (bb_seq s) (bb_hbytes s) p (PIECE_LEN - overhead (en_kind en))"
  have l: "PIECE_LEN = length ?plain + overhead ?k" using overhead_bound[of ?k] by (simp add: length_piece_plain PIECE_LEN_def)
  obtain b where b: "seal_into en ''sealing a header piece failed'' (piece_aad p) ?plain PIECE_LEN s = (Inr b, s\<lparr>bb_draws := bb_draws s + 1\<rparr>)"
    using seal_into_seals[OF assms l, of _ _ s] by blast
  then have "b = sealed_piece en (bb_draws s) p (bb_seq s) (bb_hbytes s)"
    by (auto simp: seal_into_def random_bytes_def abind_def sealed_piece_def Let_def split: option.splits)
  then show ?thesis using b unfolding write_piece_def by (simp add: abind_def)
qed

text \<open>Overwriting a part of one piece.\<close>

lemma put_piece:
  assumes "c < 4" "DATA_BASE \<le> length d" "length b \<le> PIECE_LEN"
  defines "d' \<equiv> put_at (piece_offset c) b d"
  shows "length d' = length d" "drop DATA_BASE d' = drop DATA_BASE d" "take FILE_HEADER_LEN d' = take FILE_HEADER_LEN d"
    "piece_at c d' = b @ drop (length b) (piece_at c d)" "c' < 4 \<Longrightarrow> c' \<noteq> c \<Longrightarrow> piece_at c' d' = piece_at c' d"
proof -
  have o: "piece_offset c \<le> length d" "piece_offset c + length b \<le> DATA_BASE" "FILE_HEADER_LEN \<le> piece_offset c"
    using piece_bounds(1)[OF assms(1)] piece_bounds(2)[of c] assms(2,3) by auto
  show "length d' = length d" using length_put_at[OF o(1), of b] o(2) assms(2) by (simp add: d'_def)
  show "drop DATA_BASE d' = drop DATA_BASE d" using slice_after[OF o(1,2)] by (simp add: d'_def)
  show "take FILE_HEADER_LEN d' = take FILE_HEADER_LEN d" using slice_before[OF o(1), of 0 FILE_HEADER_LEN b] o(3) by (simp add: d'_def)
  show "piece_at c d' = b @ drop (length b) (piece_at c d)"
    unfolding d'_def piece_at_def put_at_inside[OF o(1)] using o(1) assms(3) by (simp add: drop_take add.commute)
  show "piece_at c' d' = piece_at c' d" if "c' < 4" "c' \<noteq> c"
  proof (cases "c' < c")
    case True
    then have "piece_offset c' + PIECE_LEN \<le> piece_offset c" by (simp add: piece_offset_def PIECE_LEN_def)
    then show ?thesis using slice_before[OF o(1)] by (simp add: piece_at_def d'_def)
  next
    case False
    then have "piece_offset c + length b \<le> piece_offset c'" using that assms(3) by (simp add: piece_offset_def PIECE_LEN_def)
    then show ?thesis using slice_after[OF o(1)] by (simp add: piece_at_def d'_def)
  qed
qed

text \<open>A change of the file that touches nothing but the pieces of one set.\<close>

definition pieces_only :: "nat set \<Rightarrow> bytes \<Rightarrow> bytes \<Rightarrow> bool" where
  "pieces_only C d d' \<longleftrightarrow> length d' = length d \<and> drop DATA_BASE d' = drop DATA_BASE d \<and> take FILE_HEADER_LEN d' = take FILE_HEADER_LEN d \<and>
     (\<forall>c < 4. c \<notin> C \<longrightarrow> piece_at c d' = piece_at c d)"

lemma pieces_only_refl: "pieces_only C d d"
  by (simp add: pieces_only_def)

lemma pieces_only_trans: "pieces_only B d d' \<Longrightarrow> pieces_only C d' d'' \<Longrightarrow> pieces_only (B \<union> C) d d''"
  by (simp add: pieces_only_def)

lemma pieces_only_opened: "pieces_only C d d' \<Longrightarrow> c < 4 \<Longrightarrow> c \<notin> C \<Longrightarrow> opened_piece en c p d' = opened_piece en c p d"
  by (simp add: pieces_only_def opened_piece_def)

text \<open>Writing one piece, whatever the file answers.\<close>

lemma write_piece_any:
  fixes en s c p
  defines "b \<equiv> sealed_piece en (bb_draws s) p (bb_seq s) (bb_hbytes s)"
    and "plain \<equiv> piece_plain (bb_seq s) (bb_hbytes s) p (PIECE_LEN - overhead (en_kind en))"
  assumes en: "env_ok en" "blanks_rejected en" and c: "c < 4" "DATA_BASE \<le> length (bb_disk s)"
  obtains r n d' where "write_piece en c p s = (r, s\<lparr>bb_draws := bb_draws s + 1, bb_ops := bb_ops s + 1, bb_disk := d'\<rparr>)"
    "pieces_only {c} (bb_disk s) d'" "piece_at c d' = take n b @ drop n (piece_at c (bb_disk s))"
    "r = Inr () \<Longrightarrow> opened_piece en c p d' = Some plain" "answers_io en \<Longrightarrow> r = Inr ()"
    "piece_at c d' = b \<Longrightarrow> opened_piece en c p d' = Some plain"
proof -
  let ?off = "piece_offset c" and ?d = "bb_disk s"
  have b: "length b = PIECE_LEN" "opened en (piece_aad p) b = Some plain" using sealed_piece_opens[OF en(1)] by (simp_all add: b_def plain_def)
  have nz: "\<not> list_all (\<lambda>x. x = 0) b"
  proof
    assume "list_all (\<lambda>x. x = 0) b"
    then have "b = replicate PIECE_LEN 0" using b(1) by (simp add: list_all_iff replicate_eqI)
    then show False using b(2) en(2) by (simp add: blanks_rejected_def)
  qed
  have whole: "opened_piece en c p d' = Some plain" if "piece_at c d' = b" for d' using that nz b(2) by (simp add: opened_piece_def)
  note put = put_piece[OF c, where b = "take n b" for n]
  have part: "pieces_only {c} ?d (put_at ?off (take n b) ?d)" "piece_at c (put_at ?off (take n b) ?d) = take n b @ drop n (piece_at c ?d)" for n
    using put[of n] b(1) length_piece_at[OF c] by (auto simp: pieces_only_def min_def split: if_splits)
  show ?thesis
  proof (cases "en_io en (bb_ops s)")
    case Done
    have full: "piece_at c (put_at ?off b ?d) = b" using part(2)[of PIECE_LEN] b(1) length_piece_at[OF c] by simp
    show ?thesis by (rule that[of "Inr ()" "put_at ?off b ?d" PIECE_LEN])
      (use Done part[of PIECE_LEN] b(1) whole[OF full] whole in \<open>simp_all add: write_piece_writes[OF en(1)] file_write_def b_def[symmetric] Let_def\<close>)
  next
    case (Broken n)
    show ?thesis by (rule that[of "Inl IoFault" "put_at ?off (take n b) ?d" n])
      (use Broken part[of n] whole in \<open>auto simp: write_piece_writes[OF en(1)] file_write_def b_def[symmetric] Let_def answers_io_def\<close>)
  qed
qed

section \<open>The parts of a header write\<close>

lemma opened_torn:
  assumes "torn = old \<or> torn = b \<or> opened en (piece_aad p) torn = None" "piece_at c d' = torn" "piece_at c d = old"
    "piece_at c d' = b \<Longrightarrow> opened_piece en c p d' = Some plain"
  shows "opened_piece en c p d' \<in> {opened_piece en c p d, Some plain, None}"
  using assms by (auto simp: opened_piece_def)

lemma tears_showD:
  "tears_show en s hb \<Longrightarrow> (c, p) \<in> {(2, 1), (3, 2), (1 - bb_newest s, 0)} \<Longrightarrow>
    take n (sealed_piece en i p (bb_seq s + 1) hb) @ drop n (piece_at c (bb_disk s)) = piece_at c (bb_disk s) \<or>
    take n (sealed_piece en i p (bb_seq s + 1) hb) @ drop n (piece_at c (bb_disk s)) = sealed_piece en i p (bb_seq s + 1) hb \<or>
    opened en (piece_aad p) (take n (sealed_piece en i p (bb_seq s + 1) hb) @ drop n (piece_at c (bb_disk s))) = None"
  unfolding tears_show_def Let_def by (drule (1) bspec) simp

lemma slot_of_plain:
  assumes "length hb = REDB_HEADER_LEN" "(p, pos) \<in> {(1, 64), (2, 192)}"
  shows "slot (Some (piece_plain seq hb p (PIECE_LEN - overhead k))) = take 128 (drop pos hb)"
proof -
  have "128 \<le> PIECE_LEN - overhead k" using overhead_bound[of k] by (simp add: PIECE_LEN_def)
  then show ?thesis using assms by (auto simp: slot_def piece_plain_def resize_to_def REDB_HEADER_LEN_def min_def)
qed

lemma sealed_slot_seq: "0 < p \<Longrightarrow> sealed_piece en i p seq hb = sealed_piece en i p seq' hb"
  by (simp add: sealed_piece_def piece_plain_def)

text \<open>What a write of a slot can leave: the old one, the new one, and, only when they differ, none.\<close>

definition torn_slot :: "bytes \<Rightarrow> bytes \<Rightarrow> bytes \<Rightarrow> bool" where
  "torn_slot old new x \<longleftrightarrow> x = old \<or> x = new \<or> old \<noteq> new \<and> x = replicate 128 0"

lemma slot_write_any:
  assumes en: "env_ok en" "blanks_rejected en" and d: "DATA_BASE \<le> length (bb_disk s)" "length (bb_hbytes s) = REDB_HEADER_LEN"
    and c: "(c, p, pos) \<in> {(2, 1, 64), (3, 2, 192)}" and old: "slot (opened_piece en c p (bb_disk s)) = take 128 (drop pos before)"
  obtains r k m d' where "slot_write en before pos c p s = (r, s\<lparr>bb_draws := k, bb_ops := m, bb_disk := d'\<rparr>)" "pieces_only {c} (bb_disk s) d'"
    "r = Inr () \<Longrightarrow> slot (opened_piece en c p d') = take 128 (drop pos (bb_hbytes s))" "answers_io en \<Longrightarrow> r = Inr ()"
    "tears_show en s0 (bb_hbytes s) \<Longrightarrow> piece_at c (bb_disk s) = piece_at c (bb_disk s0) \<Longrightarrow>
      torn_slot (take 128 (drop pos before)) (take 128 (drop pos (bb_hbytes s))) (slot (opened_piece en c p d'))"
proof (cases "take 128 (drop pos before) = take 128 (drop pos (bb_hbytes s))")
  case True
  show ?thesis
    by (rule that[of "Inr ()" "bb_disk s" "bb_ops s" "bb_draws s"]) (use True old in \<open>simp_all add: slot_write_def pieces_only_refl torn_slot_def\<close>)
next
  case False
  let ?plain = "piece_plain (bb_seq s) (bb_hbytes s) p (PIECE_LEN - overhead (en_kind en))" and ?b = "sealed_piece en (bb_draws s) p (bb_seq s) (bb_hbytes s)"
  have c4: "c < 4" "0 < p" using c by auto
  obtain r n d' where w: "write_piece en c p s = (r, s\<lparr>bb_draws := bb_draws s + 1, bb_ops := bb_ops s + 1, bb_disk := d'\<rparr>)"
    "pieces_only {c} (bb_disk s) d'" "piece_at c d' = take n ?b @ drop n (piece_at c (bb_disk s))"
    "r = Inr () \<Longrightarrow> opened_piece en c p d' = Some ?plain" "answers_io en \<Longrightarrow> r = Inr ()"
    "piece_at c d' = ?b \<Longrightarrow> opened_piece en c p d' = Some ?plain" using write_piece_any[OF en c4(1) d(1)] by blast
  have new: "slot (Some ?plain) = take 128 (drop pos (bb_hbytes s))" by (rule slot_of_plain[OF d(2)]) (use c in auto)
  show ?thesis
  proof (rule that)
    show "slot_write en before pos c p s = (r, s\<lparr>bb_draws := bb_draws s + 1, bb_ops := bb_ops s + 1, bb_disk := d'\<rparr>)"
      using False w(1) by (simp add: slot_write_def)
    assume t: "tears_show en s0 (bb_hbytes s)" "piece_at c (bb_disk s) = piece_at c (bb_disk s0)"
    have cp: "(c, p) \<in> {(2, 1), (3, 2), (1 - bb_newest s0, 0)}" using c by auto
    have "take n ?b @ drop n (piece_at c (bb_disk s)) = piece_at c (bb_disk s) \<or> take n ?b @ drop n (piece_at c (bb_disk s)) = ?b \<or>
        opened en (piece_aad p) (take n ?b @ drop n (piece_at c (bb_disk s))) = None"
      using tears_showD[OF t(1) cp, of n "bb_draws s"] unfolding t(2) sealed_slot_seq[OF c4(2), of en "bb_draws s" "bb_seq s" "bb_hbytes s" "bb_seq s0 + 1"] .
    note opened_torn[OF this w(3) refl w(6)]
    then show "torn_slot (take 128 (drop pos before)) (take 128 (drop pos (bb_hbytes s))) (slot (opened_piece en c p d'))"
      using new old False by (auto simp: slot_def torn_slot_def)
  qed (use w new in simp_all)
qed

lemma primary_replaced:
  assumes "primary a b = (seq, newest, p)"
  shows "primary (if newest = 0 then a else None) (if newest = 0 then None else b) = (seq, newest, p)"
    "from_le (take 8 q) = seq + 1 \<Longrightarrow>
      primary (if newest = 0 then a else Some q) (if newest = 0 then Some q else b) = (seq + 1, 1 - newest, take 64 (drop 8 q))"
  using assms by (auto simp: primary_def newer_def Let_def split: option.splits if_splits)

lemma primary_of_plain:
  fixes k :: cipher_kind
  assumes "length hb = REDB_HEADER_LEN" "seq \<le> u64_max"
  defines "q \<equiv> piece_plain seq hb 0 (PIECE_LEN - overhead k)"
  shows "from_le (take 8 q) = seq" "take 64 (drop 8 q) = take 64 hb"
proof -
  obtain m where m: "PIECE_LEN - overhead k = 72 + m"
    using overhead_bound[of k] that[of "PIECE_LEN - overhead k - 72"] by (simp add: PIECE_LEN_def)
  then show "from_le (take 8 q) = seq" "take 64 (drop 8 q) = take 64 hb"
    using assms(1,2) unfolding q_def piece_plain_def m by (simp_all add: resize_to_def REDB_HEADER_LEN_def to_le_def from_le_def)
qed

lemma primary_write_any:
  fixes en s before
  defines "pr \<equiv> \<lambda>d. primary (opened_piece en 0 0 d) (opened_piece en 1 0 d)"
  assumes en: "env_ok en" "blanks_rejected en" and d: "DATA_BASE \<le> length (bb_disk s)" "length (bb_hbytes s) = REDB_HEADER_LEN"
    and n: "bb_newest s \<le> 1" "bb_seq s < u64_max" and old: "pr (bb_disk s) = (bb_seq s, bb_newest s, take 64 before)"
  obtains r k m d' seq newest where
    "primary_write en before s = (r, s\<lparr>bb_draws := k, bb_ops := m, bb_disk := d', bb_seq := seq, bb_newest := newest\<rparr>)"
    "pieces_only {1 - bb_newest s} (bb_disk s) d'" "seq \<le> bb_seq s + 1" "newest \<le> 1"
    "r = Inr () \<Longrightarrow> pr d' = (seq, newest, take 64 (bb_hbytes s))" "answers_io en \<Longrightarrow> r = Inr ()"
    "tears_show en s0 (bb_hbytes s) \<Longrightarrow> piece_at (1 - bb_newest s) (bb_disk s) = piece_at (1 - bb_newest s) (bb_disk s0) \<Longrightarrow>
      bb_seq s = bb_seq s0 \<Longrightarrow> bb_newest s = bb_newest s0 \<Longrightarrow> snd (snd (pr d')) \<in> {take 64 before, take 64 (bb_hbytes s)}"
proof (cases "take 64 before = take 64 (bb_hbytes s)")
  case True
  show ?thesis
    by (rule that[of "Inr ()" "bb_newest s" "bb_seq s" "bb_disk s" "bb_ops s" "bb_draws s"])
      (use True old n(1) in \<open>simp_all add: primary_write_def pieces_only_refl\<close>)
next
  case False
  define c where "c = 1 - bb_newest s"
  define s1 where "s1 = s\<lparr>bb_seq := bb_seq s + 1\<rparr>"
  have c: "c < 4" "c = 0 \<longleftrightarrow> bb_newest s \<noteq> 0" "c \<le> 1" using n(1) by (auto simp: c_def)
  have s1: "bb_seq s1 = bb_seq s + 1" "bb_hbytes s1 = bb_hbytes s" "bb_disk s1 = bb_disk s" "bb_draws s1 = bb_draws s" by (simp_all add: s1_def)
  let ?plain = "piece_plain (bb_seq s + 1) (bb_hbytes s) 0 (PIECE_LEN - overhead (en_kind en))" and ?b = "sealed_piece en (bb_draws s) 0 (bb_seq s + 1) (bb_hbytes s)"
  obtain r n d' where w: "write_piece en c 0 s1 = (r, s1\<lparr>bb_draws := bb_draws s + 1, bb_ops := bb_ops s1 + 1, bb_disk := d'\<rparr>)"
    "pieces_only {c} (bb_disk s) d'" "piece_at c d' = take n ?b @ drop n (piece_at c (bb_disk s))"
    "r = Inr () \<Longrightarrow> opened_piece en c 0 d' = Some ?plain" "answers_io en \<Longrightarrow> r = Inr ()"
    "piece_at c d' = ?b \<Longrightarrow> opened_piece en c 0 d' = Some ?plain"
    using write_piece_any[OF en c(1), of s1 0, unfolded s1, OF d(1)] by blast
  have plain: "from_le (take 8 ?plain) = bb_seq s + 1" "take 64 (drop 8 ?plain) = take 64 (bb_hbytes s)"
    using primary_of_plain[OF d(2), of "bb_seq s + 1" "en_kind en"] n(2) by simp_all
  have other: "opened_piece en (bb_newest s) 0 d' = opened_piece en (bb_newest s) 0 (bb_disk s)"
    using n(1) by (intro pieces_only_opened[OF w(2)]) (simp_all add: c_def, arith)
  have two: "pr d' = primary (if bb_newest s = 0 then opened_piece en 0 0 (bb_disk s) else opened_piece en c 0 d')
      (if bb_newest s = 0 then opened_piece en c 0 d' else opened_piece en 1 0 (bb_disk s))"
    using other n(1) c(2,3) by (cases "bb_newest s = 0") (auto simp: pr_def c_def le_Suc_eq)
  have new: "pr d' = (bb_seq s + 1, c, take 64 (bb_hbytes s))" if "opened_piece en c 0 d' = Some ?plain"
    using primary_replaced(2)[OF old[unfolded pr_def] plain(1)] unfolding two that plain(2) c_def[symmetric] .
  have gone: "pr d' = pr (bb_disk s)" if "opened_piece en c 0 d' = None \<or> opened_piece en c 0 d' = opened_piece en c 0 (bb_disk s)"
    using that
  proof
    assume "opened_piece en c 0 d' = None"
    then show ?thesis using primary_replaced(1)[OF old[unfolded pr_def]] unfolding two old by (simp only:)
  next
    assume "opened_piece en c 0 d' = opened_piece en c 0 (bb_disk s)"
    then show ?thesis using two n(1) c(2,3) by (cases "bb_newest s = 0") (auto simp: pr_def c_def le_Suc_eq)
  qed
  have step: "primary_write en before s = (r, s\<lparr>bb_draws := bb_draws s + 1, bb_ops := bb_ops s + 1, bb_disk := d', bb_seq := bb_seq s + 1,
      bb_newest := if r = Inr () then c else bb_newest s\<rparr>)"
  proof -
    have "primary_write en before s = abind (write_piece en c 0) (\<lambda>_. update (\<lambda>s. s\<lparr>bb_newest := c\<rparr>)) s1"
      using False by (simp add: primary_write_def Let_def c_def s1_def)
    then show ?thesis using w(1) by (cases r) (auto simp: abind_def s1_def)
  qed
  show ?thesis
  proof (rule that[OF step])
    assume t: "tears_show en s0 (bb_hbytes s)" "piece_at (1 - bb_newest s) (bb_disk s) = piece_at (1 - bb_newest s) (bb_disk s0)"
      "bb_seq s = bb_seq s0" "bb_newest s = bb_newest s0"
    have cp: "(c, 0) \<in> {(2, 1), (3, 2), (1 - bb_newest s0, 0)}" using t(4) by (simp add: c_def)
    have "take n ?b @ drop n (piece_at c (bb_disk s)) = piece_at c (bb_disk s) \<or> take n ?b @ drop n (piece_at c (bb_disk s)) = ?b \<or>
        opened en (piece_aad 0) (take n ?b @ drop n (piece_at c (bb_disk s))) = None"
      using tears_showD[OF t(1) cp, of n "bb_draws s"] unfolding t(2)[folded c_def] t(3) .
    note opened_torn[OF this w(3) refl w(6)]
    then show "snd (snd (pr d')) \<in> {take 64 before, take 64 (bb_hbytes s)}" using new gone old by auto
  qed (use w(2,4,5) new n(1) c(3) in \<open>simp_all add: c_def\<close>)
qed

section \<open>A whole header write\<close>

definition hdr_ok :: "env \<Rightarrow> block_backend \<Rightarrow> bool" where
  "hdr_ok en s \<longleftrightarrow> loaded en (bb_disk s) = (bb_seq s, bb_newest s, bb_hbytes s)"

text \<open>The header found after a write that may have stopped: the first slot was being written, or the second, or both are new.\<close>

definition recoverable :: "bytes \<Rightarrow> bytes \<Rightarrow> bytes \<Rightarrow> bool" where
  "recoverable old new hb \<longleftrightarrow>
     (let top = take 64; one = (\<lambda>h. take 128 (drop 64 h)); two = (\<lambda>h. take 128 (drop 192 h)) in
      top hb = top old \<and> torn_slot (one old) (one new) (one hb) \<and> two hb = two old
      \<or> top hb = top old \<and> one hb = one new \<and> torn_slot (two old) (two new) (two hb)
      \<or> (top hb = top old \<or> top hb = top new) \<and> one hb = one new \<and> two hb = two new)"

lemma loaded_parts:
  assumes "env_ok en" "DATA_BASE \<le> length d"
  shows "loaded en d = (seq, newest, hb) \<longleftrightarrow> primary (opened_piece en 0 0 d) (opened_piece en 1 0 d) = (seq, newest, take 64 hb) \<and>
    slot (opened_piece en 2 1 d) = take 128 (drop 64 hb) \<and> slot (opened_piece en 3 2 d) = take 128 (drop 192 hb) \<and> length hb = REDB_HEADER_LEN"
proof -
  obtain q w p where p: "primary (opened_piece en 0 0 d) (opened_piece en 1 0 d) = (q, w, p)" by (cases "primary (opened_piece en 0 0 d) (opened_piece en 1 0 d)")
  note len = length_primary[OF assms p] length_slot[OF assms(1) _ assms(2), of 2 1] length_slot[OF assms(1) _ assms(2), of 3 2]
  have cut: "hb = take 64 hb @ take 128 (drop 64 hb) @ take 128 (drop 192 hb)" if "length hb = REDB_HEADER_LEN"
  proof -
    have "drop 64 hb = take 128 (drop 64 hb) @ drop 192 hb" using append_take_drop_id[of 128 "drop 64 hb"] by simp
    moreover have "take 128 (drop 192 hb) = drop 192 hb" using that by (simp add: REDB_HEADER_LEN_def)
    ultimately show ?thesis using append_take_drop_id[of 64 hb] by simp
  qed
  show ?thesis
  proof
    assume "loaded en d = (seq, newest, hb)"
    then show "primary (opened_piece en 0 0 d) (opened_piece en 1 0 d) = (seq, newest, take 64 hb) \<and>
      slot (opened_piece en 2 1 d) = take 128 (drop 64 hb) \<and> slot (opened_piece en 3 2 d) = take 128 (drop 192 hb) \<and> length hb = REDB_HEADER_LEN"
      using p len by (auto simp: loaded_def REDB_HEADER_LEN_def)
  next
    assume a: "primary (opened_piece en 0 0 d) (opened_piece en 1 0 d) = (seq, newest, take 64 hb) \<and>
      slot (opened_piece en 2 1 d) = take 128 (drop 64 hb) \<and> slot (opened_piece en 3 2 d) = take 128 (drop 192 hb) \<and> length hb = REDB_HEADER_LEN"
    then have "loaded en d = (seq, newest, take 64 hb @ take 128 (drop 64 hb) @ take 128 (drop 192 hb))" by (simp add: loaded_def)
    then show "loaded en d = (seq, newest, hb)" using cut a by metis
  qed
qed

text \<open>The three writes of a header write, whatever the file answers.\<close>

lemma header_pieces_any:
  fixes en s before
  defines "act \<equiv> abind (slot_write en before 64 2 1) (\<lambda>_. abind (slot_write en before 192 3 2) (\<lambda>_. primary_write en before))"
  assumes en: "env_ok en" "blanks_rejected en" and d: "DATA_BASE \<le> length (bb_disk s)" "length (bb_hbytes s) = REDB_HEADER_LEN"
    and n: "bb_newest s \<le> 1" "bb_seq s < u64_max" and old: "loaded en (bb_disk s) = (bb_seq s, bb_newest s, before)"
  obtains r k m d' seq newest where
    "act s = (r, s\<lparr>bb_draws := k, bb_ops := m, bb_disk := d', bb_seq := seq, bb_newest := newest\<rparr>)"
    "pieces_only UNIV (bb_disk s) d'" "seq \<le> bb_seq s + 1" "newest \<le> 1"
    "r = Inr () \<Longrightarrow> loaded en d' = (seq, newest, bb_hbytes s)" "answers_io en \<Longrightarrow> r = Inr ()"
    "tears_show en s (bb_hbytes s) \<Longrightarrow> recoverable before (bb_hbytes s) (snd (snd (loaded en d')))"
proof -
  let ?new = "bb_hbytes s" and ?pr = "\<lambda>d. primary (opened_piece en 0 0 d) (opened_piece en 1 0 d)" and ?d = "bb_disk s"
  note o = iffD1[OF loaded_parts[OF en(1) d(1)] old]
  have mem: "(2, 1, 64) \<in> {(2, 1, 64), (3, 2, 192::nat)}" "(3, 2, 192) \<in> {(2, 1, 64), (3, 2, 192::nat)}" by simp_all
  have oo: "slot (opened_piece en 2 1 ?d) = take 128 (drop 64 before)" using o by simp
  obtain r1 k1 m1 d1 where w1: "slot_write en before 64 2 1 s = (r1, s\<lparr>bb_draws := k1, bb_ops := m1, bb_disk := d1\<rparr>)" "pieces_only {2} ?d d1"
    "r1 = Inr () \<Longrightarrow> slot (opened_piece en 2 1 d1) = take 128 (drop 64 ?new)" "answers_io en \<Longrightarrow> r1 = Inr ()"
    "tears_show en s ?new \<Longrightarrow> torn_slot (take 128 (drop 64 before)) (take 128 (drop 64 ?new)) (slot (opened_piece en 2 1 d1))"
    by (rule slot_write_any[OF en d mem(1) oo, where ?s0.0 = s]) (erule that; simp)
  define s1 where "s1 = s\<lparr>bb_draws := k1, bb_ops := m1, bb_disk := d1\<rparr>"
  have s1: "bb_disk s1 = d1" "bb_hbytes s1 = ?new" "bb_seq s1 = bb_seq s" "bb_newest s1 = bb_newest s" by (simp_all add: s1_def)
  have l1: "DATA_BASE \<le> length d1" using w1(2) d(1) by (simp add: pieces_only_def)
  have p1: "?pr d1 = ?pr ?d" "slot (opened_piece en 3 2 d1) = take 128 (drop 192 before)" "piece_at 3 d1 = piece_at 3 ?d"
    using w1(2) o by (simp_all add: pieces_only_opened[OF w1(2)]) (simp add: pieces_only_def)
  obtain r2 k2 m2 d2 where w2: "slot_write en before 192 3 2 s1 = (r2, s1\<lparr>bb_draws := k2, bb_ops := m2, bb_disk := d2\<rparr>)" "pieces_only {3} d1 d2"
    "r2 = Inr () \<Longrightarrow> slot (opened_piece en 3 2 d2) = take 128 (drop 192 ?new)" "answers_io en \<Longrightarrow> r2 = Inr ()"
    "tears_show en s ?new \<Longrightarrow> torn_slot (take 128 (drop 192 before)) (take 128 (drop 192 ?new)) (slot (opened_piece en 3 2 d2))"
    by (rule slot_write_any[OF en, of s1 3 2 192 before s, unfolded s1, OF l1 d(2) mem(2) p1(2)]) (erule that; simp add: p1(3))
  define s2 where "s2 = s1\<lparr>bb_draws := k2, bb_ops := m2, bb_disk := d2\<rparr>"
  have s2: "bb_disk s2 = d2" "bb_hbytes s2 = ?new" "bb_seq s2 = bb_seq s" "bb_newest s2 = bb_newest s" by (simp_all add: s1_def s2_def)
  have l2: "DATA_BASE \<le> length d2" using w2(2) l1 by (simp add: pieces_only_def)
  have p2: "?pr d2 = (bb_seq s, bb_newest s, take 64 before)" "slot (opened_piece en 2 1 d2) = slot (opened_piece en 2 1 d1)"
    using p1 o by (simp_all add: pieces_only_opened[OF w2(2)])
  have pa: "piece_at (1 - bb_newest s) d2 = piece_at (1 - bb_newest s) ?d" using w1(2) w2(2) by (simp add: pieces_only_def)
  obtain r3 k3 m3 d3 seq newest where w3: "primary_write en before s2 = (r3, s2\<lparr>bb_draws := k3, bb_ops := m3, bb_disk := d3, bb_seq := seq, bb_newest := newest\<rparr>)"
    "pieces_only {1 - bb_newest s} d2 d3" "seq \<le> bb_seq s + 1" "newest \<le> 1"
    "r3 = Inr () \<Longrightarrow> ?pr d3 = (seq, newest, take 64 ?new)" "answers_io en \<Longrightarrow> r3 = Inr ()"
    "tears_show en s ?new \<Longrightarrow> snd (snd (?pr d3)) \<in> {take 64 before, take 64 ?new}"
    by (rule primary_write_any[OF en, of s2 before s, unfolded s2, OF l2 d(2) n p2(1)]) (erule that; simp add: pa[unfolded One_nat_def])
  have l3: "DATA_BASE \<le> length d3" using w3(2) l2 by (simp add: pieces_only_def)
  have p3: "slot (opened_piece en 2 1 d3) = slot (opened_piece en 2 1 d2)" "slot (opened_piece en 3 2 d3) = slot (opened_piece en 3 2 d2)"
    by (simp_all add: pieces_only_opened[OF w3(2)])
  have only: "pieces_only UNIV ?d d1" "pieces_only UNIV ?d d2" "pieces_only UNIV ?d d3" using w1(2) w2(2) w3(2) by (auto simp: pieces_only_def)
  have parts: "\<exists>q w hb. loaded en d' = (q, w, hb) \<and> take 64 hb = snd (snd (?pr d')) \<and>
      take 128 (drop 64 hb) = slot (opened_piece en 2 1 d') \<and> take 128 (drop 192 hb) = slot (opened_piece en 3 2 d')" if "DATA_BASE \<le> length d'" for d'
    using loaded_parts[OF en(1) that] by (metis prod.collapse snd_conv)
  have r: "act s = (case r1 of Inl e \<Rightarrow> (Inl e, s1) | Inr _ \<Rightarrow> (case r2 of Inl e \<Rightarrow> (Inl e, s2) | Inr _ \<Rightarrow>
      (r3, s2\<lparr>bb_draws := k3, bb_ops := m3, bb_disk := d3, bb_seq := seq, bb_newest := newest\<rparr>)))"
    using w1(1) w2(1) w3(1) by (simp add: act_def abind_def s1_def[symmetric] s2_def[symmetric] split: sum.split)
  consider (one) e where "r1 = Inl e" | (two) e where "r1 = Inr ()" "r2 = Inl e" | (three) "r1 = Inr ()" "r2 = Inr ()"
    by (metis old.sum.exhaust old.unit.exhaust)
  then show ?thesis
  proof cases
    case one
    show ?thesis
    proof (rule that[of "Inl e" "bb_newest s" "bb_seq s" d1 m1 k1])
      assume t: "tears_show en s ?new"
      show "recoverable before ?new (snd (snd (loaded en d1)))" using parts[OF l1] w1(5)[OF t] p1 o by (auto simp: recoverable_def)
    qed (use one r only n w1(4) in \<open>simp_all add: s1_def\<close>)
  next
    case two
    show ?thesis
    proof (rule that[of "Inl e" "bb_newest s" "bb_seq s" d2 m2 k2])
      assume t: "tears_show en s ?new"
      show "recoverable before ?new (snd (snd (loaded en d2)))" using parts[OF l2] w2(5)[OF t] w1(3)[OF two(1)] p2 by (auto simp: recoverable_def)
    qed (use two r only n w2(4) in \<open>simp_all add: s2_def s1_def\<close>)
  next
    case three
    show ?thesis
    proof (rule that[of r3 newest seq d3 m3 k3])
      show "loaded en d3 = (seq, newest, ?new)" if "r3 = Inr ()"
        using loaded_parts[OF en(1) l3] w3(5)[OF that] p3 p2(2) w1(3)[OF three(1)] w2(3)[OF three(2)] d(2) by simp
      assume t: "tears_show en s ?new"
      show "recoverable before ?new (snd (snd (loaded en d3)))"
        using parts[OF l3] w3(7)[OF t] p3 p2(2) w1(3)[OF three(1)] w2(3)[OF three(2)] by (auto simp: recoverable_def)
    qed (use three r only w3(3,4,6) in \<open>simp_all add: s2_def s1_def\<close>)
  qed
qed

text \<open>The header bytes after a write into the header page.\<close>

definition header_with :: "nat \<Rightarrow> bytes \<Rightarrow> bytes \<Rightarrow> bytes" where
  "header_with off data hb = (let n = min (length data) (REDB_HEADER_LEN - off) in if 0 < n then put_header_part off (take n data) hb else hb)"

definition unused_touched :: "nat \<Rightarrow> bytes \<Rightarrow> bool" where
  "unused_touched off data \<longleftrightarrow> list_ex (\<lambda>b. b \<noteq> 0) (drop (min (length data) (REDB_HEADER_LEN - off)) data)"

lemma length_header_with: "length hb = REDB_HEADER_LEN \<Longrightarrow> length (header_with off data hb) = REDB_HEADER_LEN"
  by (auto simp: header_with_def put_header_part_def Let_def)

lemma nth_put_at:
  "off + length data \<le> length d \<Longrightarrow> i < length d \<Longrightarrow> put_at off data d ! i = (if off \<le> i \<and> i < off + length data then data ! (i - off) else d ! i)"
  by (auto simp: put_at_inside nth_append)

lemma header_put:
  assumes "length hb = REDB_HEADER_LEN" "\<not> unused_touched off data" "off + length data \<le> PAGE"
  shows "header_with off data hb @ replicate (PAGE - REDB_HEADER_LEN) 0 = put_at off data (hb @ replicate (PAGE - REDB_HEADER_LEN) 0)"
    (is "?l = ?r")
proof (rule nth_equalityI)
  let ?n = "min (length data) (REDB_HEADER_LEN - off)"
  have p: "REDB_HEADER_LEN \<le> PAGE" by (simp add: REDB_HEADER_LEN_def PAGE_def)
  have len: "length ?l = PAGE" "length ?r = PAGE" using length_header_with[OF assms(1)] assms(1,3) p by (simp_all add: length_put_at)
  then show "length ?l = length ?r" by simp
  fix i assume "i < length ?l"
  then have i: "i < PAGE" using len by simp
  have z: "data ! j = 0" if "?n \<le> j" "j < length data" for j
  proof -
    have "drop ?n data ! (j - ?n) \<in> set (drop ?n data)" using that by (intro nth_mem) simp
    then show ?thesis using assms(2) that by (auto simp: unused_touched_def list_ex_iff)
  qed
  have r: "?r ! i = (if off \<le> i \<and> i < off + length data then data ! (i - off) else (hb @ replicate (PAGE - REDB_HEADER_LEN) 0) ! i)"
    using assms(1,3) i p by (intro nth_put_at) simp_all
  have l: "header_with off data hb ! i = (if off \<le> i \<and> i < off + ?n then data ! (i - off) else hb ! i)" if "i < REDB_HEADER_LEN"
    using assms(1) that by (auto simp: header_with_def Let_def put_header_part_def nth_append)
  show "?l ! i = ?r ! i"
  proof (cases "i < REDB_HEADER_LEN")
    case True
    have "i < off + ?n \<longleftrightarrow> i < off + length data" using True by (auto simp: min_def)
    then show ?thesis using True l r length_header_with[OF assms(1)] assms(1) by (simp add: nth_append)
  next
    case False
    then have "data ! (i - off) = 0" if "off \<le> i" "i < off + length data" using that by (intro z) auto
    then show ?thesis using False r i length_header_with[OF assms(1)] assms(1) by (auto simp: nth_append)
  qed
qed

lemma write_header_range_any:
  fixes s :: block_backend and off data
  defines "new \<equiv> header_with off data (bb_hbytes s)"
  assumes en: "env_ok en" "blanks_rejected en" "\<not> en_read_only en" and d: "DATA_BASE \<le> length (bb_disk s)"
    and hdr: "hdr_ok en s" "bb_seq s < u64_max" "\<not> unused_touched off data"
  obtains r k m d' seq newest where
    "write_header_range en off data s = (r, s\<lparr>bb_hbytes := new, bb_draws := k, bb_ops := m, bb_disk := d', bb_seq := seq, bb_newest := newest\<rparr>)"
    "pieces_only UNIV (bb_disk s) d'" "seq \<le> bb_seq s + 1" "newest \<le> 1"
    "r = Inr () \<Longrightarrow> loaded en d' = (seq, newest, new)" "answers_io en \<Longrightarrow> r = Inr ()"
    "tears_show en s new \<Longrightarrow> recoverable (bb_hbytes s) new (snd (snd (loaded en d')))"
proof -
  let ?before = "bb_hbytes s"
  define s1 where "s1 = s\<lparr>bb_hbytes := new\<rparr>"
  have old: "loaded en (bb_disk s) = (bb_seq s, bb_newest s, ?before)" using hdr(1) by (simp add: hdr_ok_def)
  note o = iffD1[OF loaded_parts[OF en(1) d] old]
  have n: "bb_newest s \<le> 1" using length_primary(2)[OF en(1) d] o by blast
  have len: "length new = REDB_HEADER_LEN" using length_header_with o by (simp add: new_def)
  have s1: "bb_disk s1 = bb_disk s" "bb_hbytes s1 = new" "bb_seq s1 = bb_seq s" "bb_newest s1 = bb_newest s" by (simp_all add: s1_def)
  have act: "write_header_range en off data s =
      abind (slot_write en ?before 64 2 1) (\<lambda>_. abind (slot_write en ?before 192 3 2) (\<lambda>_. primary_write en ?before)) s1"
    using hdr(3) en(3) by (auto simp: write_header_range_def Let_def unused_touched_def s1_def new_def header_with_def)
  have tears: "tears_show en s1 new = tears_show en s new" by (simp add: tears_show_def s1)
  show ?thesis
    by (rule header_pieces_any[OF en(1,2), of s1 ?before, unfolded s1, OF d len n hdr(2) old, folded act])
      (rule that, simp_all add: s1_def tears[unfolded s1_def])
qed

end
