(* ===== verification/Block_File.thy ===== *)
theory Block_File
  imports Block_Header
begin

text \<open>
  The encrypted file layer is a plain file. \<open>plain_step\<close> says what each operation does to the bytes redb sees; every operation of the layer,
  and closing the file and opening it again, gives the same answer and leaves a file with the content of that plain file.
\<close>

section \<open>What every step keeps\<close>

definition good :: "env \<Rightarrow> block_backend \<Rightarrow> bool" where
  "good en s \<longleftrightarrow> sound en s \<and> (bb_header_area s \<longrightarrow> hdr_ok en s)"

definition writable :: "env \<Rightarrow> bool" where
  "writable en \<longleftrightarrow> env_ok en \<and> answers_io en \<and> blanks_rejected en \<and> \<not> en_read_only en"

lemma writableD: "writable en \<Longrightarrow> env_ok en" "writable en \<Longrightarrow> answers_io en" "writable en \<Longrightarrow> blanks_rejected en" "writable en \<Longrightarrow> \<not> en_read_only en"
  by (simp_all add: writable_def)

lemma piece_at_take: "c < 4 \<Longrightarrow> take DATA_BASE d' = take DATA_BASE d \<Longrightarrow> piece_at c d' = piece_at c d"
proof -
  assume c: "c < 4" and t: "take DATA_BASE d' = take DATA_BASE d"
  have "piece_at c x = take PIECE_LEN (drop (piece_offset c) (take DATA_BASE x))" for x
    using piece_bounds(1)[OF c] by (simp add: piece_at_def drop_take)
  then show ?thesis using t by simp
qed

lemma loaded_take: "take DATA_BASE d' = take DATA_BASE d \<Longrightarrow> loaded en d' = loaded en d"
  by (simp add: loaded_def opened_piece_def piece_at_take[of _ d' d])

lemma kept_hdr_ok: "kept s s' \<Longrightarrow> hdr_ok en s' = hdr_ok en s"
  using loaded_take[of "bb_disk s'" "bb_disk s" en] by (auto simp: kept_def hdr_ok_def)

lemma kept_good: "good en s \<Longrightarrow> kept s s' \<Longrightarrow> sound en s' \<Longrightarrow> good en s'"
  using kept_hdr_ok[of s s' en] by (auto simp: good_def kept_def)

lemma sound_disk: "sound en s \<Longrightarrow> bb_header_area s \<Longrightarrow> DATA_BASE \<le> length (bb_disk s)"
  by (auto simp: sound_def blocks_ok_def block_offset_def)

section \<open>Writing the header page\<close>

lemma header_written:
  fixes k m seq :: nat
  assumes s: "sound en s" "bb_header_area s" and w: "pieces_only UNIV (bb_disk s) d'" "length new = REDB_HEADER_LEN" "newest \<le> 1"
  defines "t \<equiv> s\<lparr>bb_hbytes := new, bb_draws := k, bb_ops := m, bb_disk := d', bb_seq := seq, bb_newest := newest\<rparr>"
  shows "sound en t" "content en t = new @ drop REDB_HEADER_LEN (content en s)"
proof -
  have "block_at (en_kind en) i d' = block_at (en_kind en) i (bb_disk s)" for i
  proof -
    have "block_at k i d = take (stride k) (drop (i * stride k) (drop DATA_BASE d))" for k d by (simp add: block_at_def block_offset_def add.commute)
    then show ?thesis using w(1) unfolding pieces_only_def by (simp only:)
  qed
  then have dp: "disk_page en d' i = disk_page en (bb_disk s) i" for i by (simp add: disk_page_def)
  have "blocks_ok en d' (page_count s)" using s w(1) dp by (simp add: sound_def blocks_ok_def pieces_only_def)
  then show "sound en t" using s w(2,3) by (simp add: sound_def t_def page_count_def)
  have "page en t = page en s" using dp by (auto simp: fun_eq_iff page_def t_def split: option.splits)
  then show "content en t = new @ drop REDB_HEADER_LEN (content en s)" using s by (simp add: content_def t_def page_count_def sound_def)
qed

lemma write_header_writes:
  assumes en: "writable en" and s: "good en s" "bb_header_area s" "bb_seq s < u64_max" and o: "\<not> unused_touched off data" "off + length data \<le> PAGE"
  shows "\<exists>s'. write_header_range en off data s = (Inr (), s') \<and> good en s' \<and> content en s' = put_at off data (content en s) \<and>
    bb_seq s' \<le> bb_seq s + 1 \<and> bb_data_len s' = bb_data_len s \<and> bb_header_area s'"
proof -
  note e = writableD[OF en]
  have so: "sound en s" and h: "hdr_ok en s" using s by (simp_all add: good_def)
  let ?new = "header_with off data (bb_hbytes s)"
  have hb: "length (bb_hbytes s) = REDB_HEADER_LEN" using so by (simp add: sound_def)
  note len = length_header_with[OF hb, of off data]
  obtain r k m d' seq newest where w: "write_header_range en off data s = (r, s\<lparr>bb_hbytes := ?new, bb_draws := k, bb_ops := m, bb_disk := d', bb_seq := seq, bb_newest := newest\<rparr>)"
    "pieces_only UNIV (bb_disk s) d'" "seq \<le> bb_seq s + 1" "newest \<le> 1" "r = Inr () \<Longrightarrow> loaded en d' = (seq, newest, ?new)" "r = Inr ()"
    by (rule write_header_range_any[OF e(1,3,4) sound_disk[OF so s(2)] h s(3) o(1)]) (erule that; simp add: e(2))
  let ?t = "s\<lparr>bb_hbytes := ?new, bb_draws := k, bb_ops := m, bb_disk := d', bb_seq := seq, bb_newest := newest\<rparr>"
  note t = header_written[OF so s(2) w(2) len w(4), where k = k and m = m and seq = seq]
  let ?z = "replicate (PAGE - REDB_HEADER_LEN) 0" and ?P = "concat (map (page en s) [0..<page_count s])"
  have c: "content en s = (bb_hbytes s @ ?z) @ ?P" using s(2) by (simp add: content_def)
  have "content en ?t = (?new @ ?z) @ ?P" using t(2) c hb by simp
  also have "\<dots> = put_at off data (bb_hbytes s @ ?z) @ ?P" using header_put[OF hb o] by simp
  also have "\<dots> = put_at off data (content en s)" using c hb o(2) by (simp add: put_at_def REDB_HEADER_LEN_def PAGE_def)
  finally have "content en ?t = put_at off data (content en s)" .
  moreover have "good en ?t" using t(1) w(5)[OF w(6)] by (simp add: good_def hdr_ok_def)
  ultimately show ?thesis using w(1,3,6) s(2) by auto
qed

section \<open>A write anywhere\<close>

text \<open>What an operation of a plain file answers and makes of its bytes.\<close>

definition plain_write :: "nat \<Rightarrow> bytes \<Rightarrow> bytes \<Rightarrow> (io_error + unit) \<times> bytes" where
  "plain_write off data c =
     (let n = min (LOGICAL_HEADER - off) (length data) in
      if data = [] then (Inr (), c)
      else if length c < off + length data then (Inl (bad_input ''write past the end''), c)
      else if unused_touched off (take n data) then (Inl (bad_input ''write into the unused part of redb's header page''), c)
      else if n < length data \<and> ((off + n) mod PAGE \<noteq> 0 \<or> (length data - n) mod PAGE \<noteq> 0)
      then (Inl (bad_input ''write is not aligned to whole pages''), put_at off (take n data) c)
      else (Inr (), put_at off data c))"

lemma put_at_Nil: "off \<le> length d \<Longrightarrow> put_at off [] d = d"
  by (simp add: put_at_inside)

lemma sound_whole_pages: "sound en s \<Longrightarrow> bb_header_area s \<Longrightarrow> backend_len s = LOGICAL_HEADER + page_count s * PAGE"
  by (auto simp: sound_def backend_len_def page_count_def)

lemma rest_writes:
  assumes en: "writable en" and s: "good en s" "bb_header_area s"
    and o: "LOGICAL_HEADER \<le> pos" "pos mod PAGE = 0" "length rest mod PAGE = 0" "pos + length rest \<le> backend_len s"
  shows "\<exists>s'. (if en_parallel en then stage_pages en ((pos - LOGICAL_HEADER) div PAGE) rest else write_blocks en ((pos - LOGICAL_HEADER) div PAGE) rest) s = (Inr (), s') \<and>
    good en s' \<and> content en s' = put_at pos rest (content en s) \<and> bb_seq s' = bb_seq s"
proof -
  note e = writableD[OF en]
  have so: "sound en s" using s by (simp add: good_def)
  define f where "f = (pos - LOGICAL_HEADER) div PAGE"
  have "(pos - LOGICAL_HEADER) mod PAGE = 0" using o(1,2) by (simp add: LOGICAL_HEADER_def mod_if)
  then have f: "pos = LOGICAL_HEADER + f * PAGE" using o(1) div_mult_mod_eq[of "pos - LOGICAL_HEADER" PAGE] by (simp add: f_def)
  have l: "length rest = length rest div PAGE * PAGE" using o(3) div_mult_mod_eq[of "length rest" PAGE] by simp
  have "(f + length rest div PAGE) * PAGE \<le> page_count s * PAGE" using o(4) f l sound_whole_pages[OF so s(2)] by (simp add: add_mult_distrib)
  then have "f + length rest div PAGE \<le> page_count s" by simp
  then obtain s' where "(if en_parallel en then stage_pages en f rest else write_blocks en f rest) s = (Inr (), s')" "sound en s'" "kept s s'"
    "content en s' = put_at pos rest (content en s)" using page_write[OF e(1,2,4) so s(2) o(3)] f by blast
  then show ?thesis using kept_good[OF s(1)] by (auto simp: f_def kept_def)
qed

lemma head_writes:
  assumes en: "writable en" and s: "good en s" "bb_seq s < u64_max" "bb_header_area s" and o: "off < LOGICAL_HEADER \<Longrightarrow> off + n \<le> PAGE" "length head = n" "off \<le> backend_len s"
    and n: "n = 0 \<or> off < LOGICAL_HEADER"
  shows "\<exists>s'. (if off < LOGICAL_HEADER then abind (drain en) (\<lambda>_. write_header_range en off head) else ret ()) s =
      (if unused_touched off head then Inl (bad_input ''write into the unused part of redb's header page'') else Inr (), s') \<and> good en s' \<and>
    content en s' = (if unused_touched off head then content en s else put_at off head (content en s)) \<and> bb_seq s' \<le> bb_seq s + 1 \<and>
    bb_header_area s' \<and> backend_len s' = backend_len s"
proof (cases "off < LOGICAL_HEADER")
  case True
  have so: "sound en s" using s by (simp add: good_def)
  obtain s1 where s1: "drain en s = (Inr (), s1)" "sound en s1" "kept s s1" "content en s1 = content en s"
    using drain_keeps[OF writableD(1,2)[OF en] so] by blast
  have g: "good en s1" "bb_header_area s1" "bb_seq s1 = bb_seq s" using kept_good[OF s(1) s1(3,2)] s1(3) s(3) by (simp_all add: kept_def)
  have bl: "backend_len s1 = backend_len s" using s1(3) by (simp add: backend_len_def kept_def)
  have act: "(if off < LOGICAL_HEADER then abind (drain en) (\<lambda>_. write_header_range en off head) else ret ()) s = write_header_range en off head s1"
    using True abind_Inr[where m = "drain en", OF s1(1)] by simp
  show ?thesis
  proof (cases "unused_touched off head")
    case un: True
    then have "write_header_range en off head s1 = (Inl (bad_input ''write into the unused part of redb's header page''), s1)"
      unfolding write_header_range_def Let_def unused_touched_def by simp
    then show ?thesis unfolding act using un g s1(4) bl by auto
  next
    case False
    then obtain s2 where s2: "write_header_range en off head s1 = (Inr (), s2)" "good en s2" "content en s2 = put_at off head (content en s1)"
      "bb_seq s2 \<le> bb_seq s1 + 1" "bb_data_len s2 = bb_data_len s1" "bb_header_area s2"
      using write_header_writes[OF en g(1,2) _ False] s(2) g(3) o(1)[OF True] o(2) by auto
    have "backend_len s2 = backend_len s" using s2(5,6) g(2) bl by (simp add: backend_len_def)
    then show ?thesis unfolding act using False s2 s1(4) g(3) by simp
  qed
next
  case False
  then have "head = []" using n o(2) by simp
  moreover from this have "\<not> unused_touched off head" by (simp add: unused_touched_def)
  ultimately show ?thesis using False s o(3) length_content[of en s] by (simp add: put_at_Nil good_def)
qed

lemma backend_write_cases:
  assumes "data \<noteq> []" "off + length data \<le> backend_len s"
  defines "n \<equiv> min (LOGICAL_HEADER - off) (length data)"
  shows "backend_write en off data s = abind (if off < LOGICAL_HEADER then abind (drain en) (\<lambda>_. write_header_range en off (take n data)) else ret ()) (\<lambda>_.
      if n = length data then ret ()
      else if (off + n - LOGICAL_HEADER) mod PAGE \<noteq> 0 \<or> length (drop n data) mod PAGE \<noteq> 0 then fail (bad_input ''write is not aligned to whole pages'')
      else (if en_parallel en then stage_pages en ((off + n - LOGICAL_HEADER) div PAGE) (drop n data)
            else write_blocks en ((off + n - LOGICAL_HEADER) div PAGE) (drop n data))) s"
proof -
  have nn: "(if off < LOGICAL_HEADER then min (LOGICAL_HEADER - off) (length data) else 0) = n" by (auto simp: n_def)
  have l: "\<not> backend_len s < off + length data" using assms(2) by simp
  show ?thesis unfolding backend_write_def Let_def nn if_not_P[OF l] if_not_P[OF assms(1)] by (rule refl)
qed

lemma plain_write_cases:
  assumes "data \<noteq> []" "off + length data \<le> length c"
  defines "n \<equiv> min (LOGICAL_HEADER - off) (length data)"
  shows "plain_write off data c =
    (if unused_touched off (take n data) then (Inl (bad_input ''write into the unused part of redb's header page''), c)
     else if n < length data \<and> ((off + n) mod PAGE \<noteq> 0 \<or> (length data - n) mod PAGE \<noteq> 0)
     then (Inl (bad_input ''write is not aligned to whole pages''), put_at off (take n data) c)
     else (Inr (), put_at off data c))"
proof -
  have l: "\<not> length c < off + length data" using assms(2) by simp
  show ?thesis unfolding plain_write_def Let_def n_def if_not_P[OF l] if_not_P[OF assms(1)] by (rule refl)
qed

lemma backend_write_writes:
  assumes en: "writable en" and s: "good en s" "bb_seq s < u64_max"
  shows "\<exists>s'. backend_write en off data s = (fst (plain_write off data (content en s)), s') \<and> good en s' \<and>
    content en s' = snd (plain_write off data (content en s)) \<and> bb_seq s' \<le> bb_seq s + 1"
proof -
  have so: "sound en s" using s by (simp add: good_def)
  note lc = length_content[OF so]
  consider "data = []" | "data \<noteq> []" "backend_len s < off + length data" | (in_range) "data \<noteq> []" "off + length data \<le> backend_len s" by linarith
  then show ?thesis
  proof cases
    case in_range
    let ?c = "content en s"
    define n where "n = min (LOGICAL_HEADER - off) (length data)"
    have area: "bb_header_area s" using in_range by (auto simp: backend_len_def split: if_splits)
    have hn: "off < LOGICAL_HEADER \<Longrightarrow> off + n \<le> PAGE" "length (take n data) = n" "off \<le> backend_len s" "n = 0 \<or> off < LOGICAL_HEADER"
      using in_range(2) by (auto simp: n_def LOGICAL_HEADER_def)
    note bw = backend_write_cases[OF in_range, folded n_def] and pw = plain_write_cases[of data off ?c, folded n_def, unfolded lc, OF in_range]
    obtain s1 where s1: "(if off < LOGICAL_HEADER then abind (drain en) (\<lambda>_. write_header_range en off (take n data)) else ret ()) s =
        (if unused_touched off (take n data) then Inl (bad_input ''write into the unused part of redb's header page'') else Inr (), s1)" "good en s1"
      "content en s1 = (if unused_touched off (take n data) then ?c else put_at off (take n data) ?c)" "bb_seq s1 \<le> bb_seq s + 1"
      "bb_header_area s1" "backend_len s1 = backend_len s"
      using head_writes[OF en s area hn] by blast
    have d: "put_at off data ?c = put_at (off + n) (drop n data) (put_at off (take n data) ?c)"
      using put_at_append[of off ?c "take n data" "drop n data"] hn(2,3) lc by simp
    consider (un) "unused_touched off (take n data)" | (all) "\<not> unused_touched off (take n data)" "n = length data"
      | (more) "\<not> unused_touched off (take n data)" "n < length data" using hn(2) by fastforce
    then show ?thesis
    proof cases
      case un
      then show ?thesis using bw pw s1 by (simp add: abind_def)
    next
      case all
      then show ?thesis using bw pw s1 by (simp add: abind_def)
    next
      case more
      then have pos: "LOGICAL_HEADER \<le> off + n" by (auto simp: n_def)
      then have m: "(off + n - LOGICAL_HEADER) mod PAGE = (off + n) mod PAGE" by (simp add: LOGICAL_HEADER_def mod_if)
      show ?thesis
      proof (cases "(off + n) mod PAGE \<noteq> 0 \<or> (length data - n) mod PAGE \<noteq> 0")
        case True
        then show ?thesis using bw pw s1 more m by (auto simp: abind_def)
      next
        case False
        then obtain s2 where "(if en_parallel en then stage_pages en ((off + n - LOGICAL_HEADER) div PAGE) (drop n data)
            else write_blocks en ((off + n - LOGICAL_HEADER) div PAGE) (drop n data)) s1 = (Inr (), s2)" "good en s2"
          "content en s2 = put_at (off + n) (drop n data) (content en s1)" "bb_seq s2 = bb_seq s1"
          using rest_writes[OF en s1(2,5) pos, of "drop n data"] more in_range(2) s1(6) by auto
        then show ?thesis using bw pw s1 more m False d by (simp add: abind_def)
      qed
    qed
  qed (use s lc in \<open>simp_all add: backend_write_def plain_write_def Let_def exI[of _ s]\<close>)
qed

section \<open>Growing\<close>

text \<open>Blocks written one after the other at the end of the file, over a torn block there.\<close>

definition appended :: "env \<Rightarrow> bytes \<Rightarrow> nat \<Rightarrow> bytes list \<Rightarrow> bytes \<Rightarrow> bool" where
  "appended en d n ps d' \<longleftrightarrow> blocks_ok en d' (n + length ps) \<and> (\<forall>i < n. disk_page en d' i = disk_page en d i) \<and>
     (\<forall>i < length ps. disk_page en d' (n + i) = Some (ps ! i)) \<and> take DATA_BASE d' = take DATA_BASE d \<and>
     length d' = (if ps = [] then length d else block_offset (en_kind en) (n + length ps))"

lemma appended_Nil: "blocks_ok en d n \<Longrightarrow> appended en d n [] d"
  by (simp add: appended_def)

lemma appended_trans:
  assumes a: "appended en d n ps d'" and b: "appended en d' (n + length ps) qs d''"
  shows "appended en d n (ps @ qs) d''"
proof -
  have "disk_page en d'' (n + i) = Some ((ps @ qs) ! i)" if "i < length (ps @ qs)" for i
  proof (cases "i < length ps")
    case True
    then show ?thesis using a b by (simp add: appended_def nth_append)
  next
    case False
    then have i: "i - length ps < length qs" using that by simp
    have "\<forall>i < length qs. disk_page en d'' (n + length ps + i) = Some (qs ! i)" using b by (simp add: appended_def)
    from this[rule_format, OF i] have "disk_page en d'' (n + length ps + (i - length ps)) = Some (qs ! (i - length ps))" .
    then show ?thesis using False by (simp add: nth_append)
  qed
  then show ?thesis using a b by (auto simp: appended_def add.assoc)
qed

lemma append_one:
  assumes b: "blocks_ok en d n" "sealed_as en (n, p) blk" "length p = PAGE"
  shows "appended en d n [p] (put_at (block_offset (en_kind en) n) blk d)"
proof -
  let ?k = "en_kind en" and ?d = "put_at (block_offset (en_kind en) n) blk d"
  have l: "block_offset ?k n \<le> length d" "length blk = stride ?k" "length d < block_offset ?k (Suc n)" using b by (simp_all add: blocks_ok_def sealed_as_def stride_def)
  have len: "length ?d = block_offset ?k (Suc n)" using l length_put_at[OF l(1), of blk] by (simp add: block_offset_Suc)
  have dp: "disk_page en ?d i = (if i = n then Some p else disk_page en d i)" for i
    using block_at_put[OF l(1,2)] b(2) by (simp add: disk_page_def sealed_as_def)
  have "\<exists>q. disk_page en ?d i = Some q \<and> length q = PAGE" if "i < Suc n" for i
    using that b(1,3) dp[of i] by (cases "i = n") (simp_all add: blocks_ok_def)
  moreover have "take DATA_BASE ?d = take DATA_BASE d" using slice_before[OF l(1), of 0 DATA_BASE blk] by (simp add: block_offset_def)
  ultimately show ?thesis using dp len by (simp add: appended_def blocks_ok_def block_offset_Suc)
qed

lemma append_blocks:
  "blocks_ok en d n \<Longrightarrow> list_all2 (sealed_as en) (numbered_pages n ps) bs \<Longrightarrow> \<forall>p \<in> set ps. length p = PAGE \<Longrightarrow>
    appended en d n ps (store_blocks (en_kind en) (zip (map fst (numbered_pages n ps)) bs) d)"
proof (induction ps arbitrary: n d bs)
  case Nil
  then show ?case by (simp add: numbered_pages_def appended_Nil)
next
  case (Cons p ps)
  have num: "numbered_pages n (p # ps) = (n, p) # numbered_pages (Suc n) ps" by (simp add: numbered_pages_def upt_conv_Cons del: upt_Suc)
  obtain b cs where bs: "bs = b # cs" "sealed_as en (n, p) b" "list_all2 (sealed_as en) (numbered_pages (Suc n) ps) cs"
    using Cons.prems(2) unfolding num list_all2_Cons1 by blast
  note one = append_one[OF Cons.prems(1) bs(2)]
  let ?d = "put_at (block_offset (en_kind en) n) b d"
  have o: "appended en d n [p] ?d" using one Cons.prems(3) by simp
  have "appended en ?d (n + length [p]) ps (store_blocks (en_kind en) (zip (map fst (numbered_pages (Suc n) ps)) cs) ?d)"
    using Cons.IH[of ?d "Suc n" cs] o bs(3) Cons.prems(3) by (simp add: appended_def)
  from appended_trans[OF o this] show ?case using num bs(1) by simp
qed

lemma pages_of_zeros: "pages_of (replicate (k * PAGE) 0) = replicate k (replicate PAGE 0)"
proof (rule nth_equalityI)
  fix i assume "i < length (pages_of (replicate (k * PAGE) (0::u8)))"
  then have i: "i < k" by simp
  then have "Suc i * PAGE \<le> k * PAGE" by (intro mult_le_mono1) simp
  then have "PAGE \<le> k * PAGE - i * PAGE" by simp
  then show "pages_of (replicate (k * PAGE) 0) ! i = replicate k (replicate PAGE 0) ! i" using i by (simp add: nth_pages_of min_def)
qed simp

lemma zeros_written:
  assumes en: "writable en" and b: "blocks_ok en (bb_disk s) n"
  shows "\<exists>k m d'. write_blocks en n (replicate (c * PAGE) 0) s = (Inr (), s\<lparr>bb_draws := k, bb_ops := m, bb_disk := d'\<rparr>) \<and>
    appended en (bb_disk s) n (replicate c (replicate PAGE 0)) d'"
proof -
  have o: "block_offset (en_kind en) n \<le> length (bb_disk s)" using b by (simp add: blocks_ok_def)
  obtain bs k m where w: "write_blocks en n (replicate (c * PAGE) 0) s = (Inr (), s\<lparr>bb_draws := k, bb_ops := m,
      bb_disk := store_blocks (en_kind en) (zip (map fst (numbered_pages n (replicate c (replicate PAGE 0)))) bs) (bb_disk s)\<rparr>)"
    "list_all2 (sealed_as en) (numbered_pages n (replicate c (replicate PAGE 0))) bs"
    using write_blocks_seals[OF writableD(1,2,4)[OF en] o, of "replicate (c * PAGE) 0"] unfolding pages_of_zeros by blast
  have "appended en (bb_disk s) n (replicate c (replicate PAGE 0)) (store_blocks (en_kind en) (zip (map fst (numbered_pages n (replicate c (replicate PAGE 0)))) bs) (bb_disk s))"
    by (rule append_blocks[OF b w(2)]) simp
  then show ?thesis using w(1) by blast
qed

lemma fill_loop_fills:
  "writable en \<Longrightarrow> blocks_ok en (bb_disk s) pos \<Longrightarrow> pos \<le> end_at \<Longrightarrow>
    \<exists>k m d'. fill_loop en shape pos end_at s = (Inr (), s\<lparr>bb_draws := k, bb_ops := m, bb_disk := d'\<rparr>) \<and>
      appended en (bb_disk s) pos (replicate (end_at - pos) (replicate PAGE 0)) d'"
proof (induction en shape pos end_at arbitrary: s rule: fill_loop.induct)
  case (1 en shape pos end_at)
  show ?case
  proof (cases "pos < end_at")
    case True
    define stop where "stop = next_valid shape (min (pos + FILL_BATCH) end_at) end_at"
    have st: "pos \<le> stop" "stop \<le> end_at"
      using next_valid_bounds[where shape = shape and stop = "min (pos + FILL_BATCH) end_at" and end_at = end_at] True by (simp_all add: stop_def)
    obtain k m d1 where w: "write_blocks en pos (replicate ((stop - pos) * PAGE) 0) s = (Inr (), s\<lparr>bb_draws := k, bb_ops := m, bb_disk := d1\<rparr>)"
      "appended en (bb_disk s) pos (replicate (stop - pos) (replicate PAGE 0)) d1" using zeros_written[OF 1(2,3)] by blast
    let ?s = "s\<lparr>bb_draws := k, bb_ops := m, bb_disk := d1\<rparr>"
    have b: "blocks_ok en (bb_disk ?s) stop" using w(2) st(1) by (simp add: appended_def)
    obtain k' m' d' where f: "fill_loop en shape stop end_at ?s = (Inr (), ?s\<lparr>bb_draws := k', bb_ops := m', bb_disk := d'\<rparr>)"
      "appended en d1 stop (replicate (end_at - stop) (replicate PAGE 0)) d'" using 1(1)[OF True stop_def 1(2) b st(2)] by auto
    have a: "appended en (bb_disk s) pos (replicate (end_at - pos) (replicate PAGE 0)) d'"
      using appended_trans[OF w(2), of "replicate (end_at - stop) (replicate PAGE 0)" d'] f(2) st by (simp flip: replicate_add)
    have "fill_loop en shape pos end_at s = (Inr (), s\<lparr>bb_draws := k', bb_ops := m', bb_disk := d'\<rparr>)"
      using True w(1) f(1) by (subst fill_loop.simps) (simp add: stop_def[symmetric] abind_def Let_def)
    then show ?thesis using a by blast
  next
    case False
    then have "fill_loop en shape pos end_at s = (Inr (), s\<lparr>bb_draws := bb_draws s, bb_ops := bb_ops s, bb_disk := bb_disk s\<rparr>)"
      by (subst fill_loop.simps) simp
    then show ?thesis using False 1(3,4) appended_Nil[OF 1(3)] by (metis diff_is_0_eq' replicate_0 not_less)
  qed
qed

section \<open>Changing the length\<close>

definition grow_error :: "bytes \<Rightarrow> io_error option" where
  "grow_error c = (let hb = take REDB_HEADER_LEN c in
     if list_all (\<lambda>b. b = 0) hb
     then (if PAGE < length c then Some (bad_input ''the header page of the database file cannot be read, so the file was not grown'') else None)
     else if region_shape_of hb = None
     then Some (bad_input ''the header page of the database file is not in the form this version knows, so the file was not grown'') else None)"

definition plain_set_len :: "nat \<Rightarrow> bytes \<Rightarrow> (io_error + unit) \<times> bytes" where
  "plain_set_len len c =
     (if len \<noteq> 0 \<and> (len < PAGE \<or> len mod PAGE \<noteq> 0) then (Inl (bad_input ''length is not a whole number of pages''), c)
      else case (if length c < len then grow_error c else None) of
        Some e \<Rightarrow> (Inl e, c)
      | None \<Rightarrow> (Inr (), take len c @ replicate (len - length c) 0))"

text \<open>The header area of a new file: noise, which opens to nothing.\<close>

lemma noise_piece:
  assumes "blanks_rejected en" "en_rnd en i PIECES_LEN = Some noise" "length noise = PIECES_LEN" "length d = FILE_HEADER_LEN" "c < 4"
  shows "opened_piece en c p (d @ noise) = None"
proof -
  have "piece_at c (d @ noise) = take PIECE_LEN (drop (c * PIECE_LEN) noise)" using assms(4) by (simp add: piece_at_def piece_offset_def)
  then show ?thesis using assms(1,2) by (auto simp: opened_piece_def blanks_rejected_def)
qed

lemma ensured:
  assumes en: "writable en" and s: "good en s" "bb_pending s = []"
  shows "\<exists>t. ensure_header_area en s = (Inr (), t) \<and> good en t \<and> bb_header_area t \<and> bb_pending t = [] \<and> bb_data_len t = bb_data_len s \<and>
    bb_seq t \<le> bb_seq s \<and> content en t = (if bb_header_area s then content en s else replicate PAGE 0)"
proof (cases "bb_header_area s")
  case True
  then have "DATA_BASE \<le> length (bb_disk s)" using s sound_disk by (auto simp: good_def)
  then have "ensure_header_area en s = (Inr (), s\<lparr>bb_ops := bb_ops s + 1\<rparr>)"
    using file_calls(4)[OF writableD(2)[OF en]] by (simp add: ensure_header_area_def abind_def)
  then show ?thesis using True s by (auto simp: good_def hdr_ok_def)
next
  case False
  note e = writableD[OF en]
  let ?d = "bb_disk s"
  have l: "length ?d < DATA_BASE" "bb_data_len s = 0" using s False by (auto simp: good_def sound_def)
  define d1 where "d1 = take DATA_BASE ?d @ replicate (DATA_BASE - length ?d) 0"
  have d1: "length d1 = DATA_BASE" using l by (simp add: d1_def)
  obtain noise where noise: "en_rnd en (bb_draws s) PIECES_LEN = Some noise" "length noise = PIECES_LEN" using e(1) unfolding env_ok_def by blast
  define d2 where "d2 = take FILE_HEADER_LEN d1 @ noise"
  have d2: "put_at FILE_HEADER_LEN noise d1 = d2" "length d2 = DATA_BASE" using d1 noise(2) by (simp_all add: put_at_def d2_def DATA_BASE_def)
  define t where "t = s\<lparr>bb_ops := bb_ops s + 3, bb_draws := bb_draws s + 1, bb_disk := d2, bb_header_area := True,
    bb_hbytes := replicate REDB_HEADER_LEN 0, bb_seq := 0, bb_newest := 0\<rparr>"
  have run: "ensure_header_area en s = (Inr (), t)"
    unfolding ensure_header_area_def init_pieces_def random_bytes_def
    using file_calls(1,3,4)[OF e(2)] l(1) noise(1) d2(1) by (simp add: abind_def Let_def t_def d1_def)
  have none: "opened_piece en c p d2 = None" if "c < 4" for c p
    unfolding d2_def by (rule noise_piece[OF e(3) noise _ that]) (use d1 in \<open>simp add: DATA_BASE_def\<close>)
  have ld: "loaded en d2 = (0, 0, replicate 64 0 @ replicate 128 0 @ replicate 128 0)"
    by (simp add: loaded_def primary_def newer_def slot_def none del: append_replicate_commute)
  have "hdr_ok en t" unfolding hdr_ok_def t_def using ld by (simp add: REDB_HEADER_LEN_def flip: replicate_add)
  moreover have "sound en t" using l(2) s(2) d2(2) by (simp add: sound_def t_def page_count_def blocks_ok_def block_offset_def)
  moreover have "content en t = replicate PAGE 0" using l(2) by (simp add: content_def t_def page_count_def REDB_HEADER_LEN_def PAGE_def flip: replicate_add)
  ultimately show ?thesis using run False s(2) by (auto simp: good_def t_def)
qed

lemma grown:
  assumes en: "writable en" and s: "good en s" "bb_header_area s" "bb_pending s = []" and n: "page_count s < n"
  shows "case grow_error (content en s) of
      Some e \<Rightarrow> grow en (bb_data_len s) (n * PAGE) (block_offset (en_kind en) n) s = (Inl e, s)
    | None \<Rightarrow> \<exists>t. grow en (bb_data_len s) (n * PAGE) (block_offset (en_kind en) n) s = (Inr (), t) \<and> good en (t\<lparr>bb_data_len := n * PAGE\<rparr>) \<and>
        bb_seq t = bb_seq s \<and> content en (t\<lparr>bb_data_len := n * PAGE\<rparr>) = content en s @ replicate ((n - page_count s) * PAGE) 0"
proof -
  note e = writableD[OF en]
  have so: "sound en s" using s by (simp add: good_def)
  have hb: "length (bb_hbytes s) = REDB_HEADER_LEN" and b: "blocks_ok en (bb_disk s) (page_count s)" using so s(2) by (simp_all add: sound_def)
  have tk: "take REDB_HEADER_LEN (content en s) = bb_hbytes s" using s(2) hb by (simp add: content_def)
  have "length (content en s) = PAGE + page_count s * PAGE" using length_content[OF so] sound_whole_pages[OF so s(2)] by (simp add: LOGICAL_HEADER_def)
  then have big: "PAGE < length (content en s) \<longleftrightarrow> 0 < page_count s" by simp
  have fst0: "bb_data_len s div PAGE = page_count s" "n * PAGE div PAGE = n" by (simp_all add: page_count_def)
  have fl: "fill en (page_count s) n s = (case grow_error (content en s) of Some e \<Rightarrow> (Inl e, s)
      | None \<Rightarrow> fill_loop en (if list_all (\<lambda>b. b = 0) (bb_hbytes s) then None else region_shape_of (bb_hbytes s)) (page_count s) n s)"
    unfolding fill_def region_shape_def grow_error_def Let_def tk big by (simp add: abind_def split: option.split)
  show ?thesis
  proof (cases "grow_error (content en s)")
    case (Some x)
    then show ?thesis using fl by (simp add: grow_def abind_def fst0)
  next
    case None
    obtain k m d' where f: "fill en (page_count s) n s = (Inr (), s\<lparr>bb_draws := k, bb_ops := m, bb_disk := d'\<rparr>)"
      "appended en (bb_disk s) (page_count s) (replicate (n - page_count s) (replicate PAGE 0)) d'"
      using fill_loop_fills[OF en b, of n] n fl None by fastforce
    have ld: "length d' = block_offset (en_kind en) n" using f(2) n by (simp add: appended_def)
    define t where "t = s\<lparr>bb_draws := k, bb_ops := m + 1, bb_disk := d'\<rparr>"
    have run: "grow en (bb_data_len s) (n * PAGE) (block_offset (en_kind en) n) s = (Inr (), t)"
      using f(1) ld file_calls(4)[OF e(2)] by (simp add: grow_def abind_def fst0 t_def)
    let ?t = "t\<lparr>bb_data_len := n * PAGE\<rparr>"
    have td: "take DATA_BASE d' = take DATA_BASE (bb_disk s)" using f(2) by (simp add: appended_def)
    have bo: "blocks_ok en d' n" using f(2) n by (simp add: appended_def)
    have "sound en ?t" using so s(2,3) bo by (simp add: sound_def t_def page_count_def)
    moreover have "hdr_ok en ?t" using s loaded_take[OF td, of en] by (simp add: good_def hdr_ok_def t_def)
    ultimately have g: "good en ?t" by (simp add: good_def)
    have pg: "page en ?t i = (if i < page_count s then page en s i else replicate PAGE 0)" if "i < n" for i
    proof (cases "i < page_count s")
      case True
      then show ?thesis using f(2) s(3) by (simp add: page_def t_def appended_def)
    next
      case False
      then have i: "i - page_count s < length (replicate (n - page_count s) (replicate PAGE (0::u8)))" using that by simp
      have "\<forall>i < length (replicate (n - page_count s) (replicate PAGE (0::u8))). disk_page en d' (page_count s + i) = Some (replicate (n - page_count s) (replicate PAGE 0) ! i)"
        using f(2) by (simp add: appended_def)
      from this[rule_format, OF i] show ?thesis using False i s(3) by (simp add: page_def t_def)
    qed
    have u: "[0..<n] = [0..<page_count s] @ [page_count s..<n]" using n upt_add_eq_append[of 0 "page_count s" "n - page_count s"] by simp
    have "map (page en ?t) [page_count s..<n] = replicate (n - page_count s) (replicate PAGE 0)" by (rule nth_equalityI) (simp_all add: pg)
    moreover have "map (page en ?t) [0..<page_count s] = map (page en s) [0..<page_count s]" using n by (simp add: pg)
    moreover have "concat (replicate k (replicate PAGE (0::u8))) = replicate (k * PAGE) 0" for k by (induction k) (simp_all add: replicate_add)
    ultimately have "concat (map (page en ?t) [0..<n]) = concat (map (page en s) [0..<page_count s]) @ replicate ((n - page_count s) * PAGE) 0"
      unfolding u map_append concat_append by (simp only:)
    moreover have "bb_hbytes ?t = bb_hbytes s" "bb_header_area ?t = bb_header_area s" "page_count ?t = n" by (simp_all add: t_def page_count_def)
    ultimately have "content en ?t = content en s @ replicate ((n - page_count s) * PAGE) 0"
      using s(2) unfolding content_def by (simp only: if_True append_assoc)
    then show ?thesis using None run g by (auto simp: t_def)
  qed
qed

lemma shrunk:
  assumes en: "writable en" and s: "good en s" "bb_header_area s" "bb_pending s = []" and n: "n \<le> page_count s"
  shows "\<exists>t. file_set_len en (block_offset (en_kind en) n) s = (Inr (), t) \<and> good en (t\<lparr>bb_data_len := n * PAGE\<rparr>) \<and> bb_seq t = bb_seq s \<and>
    content en (t\<lparr>bb_data_len := n * PAGE\<rparr>) = take (PAGE + n * PAGE) (content en s)"
proof -
  let ?k = "en_kind en" and ?d = "bb_disk s"
  have so: "sound en s" using s by (simp add: good_def)
  have b: "blocks_ok en ?d (page_count s)" using so s(2) by (simp add: sound_def)
  have le: "block_offset ?k n \<le> length ?d" using b n by (simp add: blocks_ok_def block_offset_def) (meson add_leE le_trans mult_le_mono1 add_le_cancel_left)
  define d' where "d' = take (block_offset ?k n) ?d"
  define t where "t = s\<lparr>bb_ops := bb_ops s + 1, bb_disk := d'\<rparr>"
  have run: "file_set_len en (block_offset ?k n) s = (Inr (), t)" using file_calls(3)[OF writableD(2)[OF en]] le by (simp add: t_def d'_def)
  have at: "block_at ?k i d' = block_at ?k i ?d" if "i < n" for i
    using block_offset_mono[OF that, of ?k] by (simp add: block_at_def d'_def drop_take min_def)
  have ld: "length d' = block_offset ?k n" using le by (simp add: d'_def)
  have bo: "blocks_ok en d' n" using b n at ld by (simp add: blocks_ok_def disk_page_def block_offset_Suc)
  have td: "take DATA_BASE d' = take DATA_BASE ?d" by (simp add: d'_def block_offset_def min_def)
  let ?t = "t\<lparr>bb_data_len := n * PAGE\<rparr>"
  have "sound en ?t" using so s(2,3) bo by (simp add: sound_def t_def page_count_def)
  moreover have "hdr_ok en ?t" using s loaded_take[OF td, of en] by (simp add: good_def hdr_ok_def t_def)
  ultimately have g: "good en ?t" by (simp add: good_def)
  have pg: "map (page en ?t) [0..<n] = map (page en s) [0..<n]" using at s(3) by (simp add: page_def t_def disk_page_def)
  have u: "[0..<page_count s] = [0..<n] @ [n..<page_count s]" using n upt_add_eq_append[of 0 n "page_count s - n"] by simp
  have len: "length (concat (map (page en s) [0..<n])) = n * PAGE" using length_pages[of 0 n "page en s" PAGE] page_length[OF so s(2)] n by simp
  have h: "length (bb_hbytes s @ replicate (PAGE - REDB_HEADER_LEN) 0) = PAGE" using so by (simp add: sound_def REDB_HEADER_LEN_def PAGE_def)
  have "bb_hbytes ?t = bb_hbytes s" "bb_header_area ?t" "page_count ?t = n" using s(2) by (simp_all add: t_def page_count_def)
  then have "content en ?t = (bb_hbytes s @ replicate (PAGE - REDB_HEADER_LEN) 0) @ concat (map (page en s) [0..<n])"
    using pg unfolding content_def by (simp only: if_True append_assoc)
  also have "\<dots> = take (PAGE + n * PAGE) ((bb_hbytes s @ replicate (PAGE - REDB_HEADER_LEN) 0) @ concat (map (page en s) [0..<page_count s]))"
    unfolding u map_append concat_append using h len by simp
  also have "\<dots> = take (PAGE + n * PAGE) (content en s)" using s(2) by (simp add: content_def)
  finally show ?thesis using run g by (auto simp: t_def)
qed

lemma physical_of: "physical_len k len = (if len = 0 then Some FILE_HEADER_LEN else if len < PAGE \<or> len mod PAGE \<noteq> 0 then None
    else Some (block_offset k ((len - PAGE) div PAGE)))"
  by (simp add: physical_len_def LOGICAL_HEADER_def block_offset_def)

lemma set_len_to_pages:
  assumes en: "writable en" and s: "good en s" "bb_pending s = []" and len: "PAGE \<le> len" "len mod PAGE = 0"
  defines "n \<equiv> (len - PAGE) div PAGE"
  shows "\<exists>t. abind (ensure_header_area en) (\<lambda>_. abind (if bb_data_len s < len - LOGICAL_HEADER then grow en (bb_data_len s) (len - LOGICAL_HEADER) (block_offset (en_kind en) n)
        else if len - LOGICAL_HEADER < bb_data_len s then file_set_len en (block_offset (en_kind en) n) else ret ()) (\<lambda>_.
        update (\<lambda>s. s\<lparr>bb_data_len := len - LOGICAL_HEADER\<rparr>))) s = (fst (plain_set_len len (content en s)), t) \<and> good en t \<and>
    content en t = snd (plain_set_len len (content en s)) \<and> bb_seq t \<le> bb_seq s"
proof -
  let ?c = "content en s"
  have so: "sound en s" using s by (simp add: good_def)
  have nl: "len - LOGICAL_HEADER = n * PAGE" "len = PAGE + n * PAGE"
  proof -
    have "(len - PAGE) mod PAGE = 0" using len by (simp add: mod_if)
    then show "len - LOGICAL_HEADER = n * PAGE" "len = PAGE + n * PAGE"
      using div_mult_mod_eq[of "len - PAGE" PAGE] len(1) by (simp_all add: n_def LOGICAL_HEADER_def)
  qed
  obtain t where t: "ensure_header_area en s = (Inr (), t)" "good en t" "bb_header_area t" "bb_pending t = []" "bb_data_len t = bb_data_len s"
    "bb_seq t \<le> bb_seq s" "content en t = (if bb_header_area s then ?c else replicate PAGE 0)" using ensured[OF en s] by blast
  have so': "sound en t" using t(2) by (simp add: good_def)
  have pc: "bb_data_len s = page_count t * PAGE" using so' t(5) by (auto simp: sound_def page_count_def)
  have lt: "length (content en t) = PAGE + page_count t * PAGE" using length_content[OF so'] sound_whole_pages[OF so' t(3)] by (simp add: LOGICAL_HEADER_def)
  have emp: "?c = []" "page_count t = 0" if "\<not> bb_header_area s" using that so t(5) by (auto simp: content_def sound_def page_count_def)
  have z: "content en t = take PAGE ?c @ replicate (PAGE - length ?c) 0 @ drop PAGE ?c" using t(7) emp(1) lt by (cases "bb_header_area s") auto
  have ge: "grow_error (content en t) = grow_error ?c"
  proof (cases "bb_header_area s")
    case False
    have "\<not> list_ex (\<lambda>b. b \<noteq> 0) (replicate PAGE (0::u8))" by (simp add: list_ex_iff)
    then show ?thesis using False t(7) emp(1) by (auto simp: grow_error_def Let_def list_all_iff dest: in_set_takeD)
  qed (use t(7) in simp)
  have plain: "plain_set_len len ?c = (case (if length ?c < len then grow_error ?c else None) of Some e \<Rightarrow> (Inl e, ?c)
      | None \<Rightarrow> (Inr (), take len ?c @ replicate (len - length ?c) 0))" unfolding plain_set_len_def using len by simp
  consider (grow) "page_count t < n" | (shrink) "n < page_count t" | (same) "n = page_count t" by linarith
  then show ?thesis
  proof cases
    case grow
    then have lc: "length ?c < len" using lt nl(2) t(7) emp(1) by (cases "bb_header_area s") auto
    show ?thesis
    proof (cases "grow_error ?c")
      case None
      then obtain u where u: "grow en (bb_data_len t) (n * PAGE) (block_offset (en_kind en) n) t = (Inr (), u)" "good en (u\<lparr>bb_data_len := n * PAGE\<rparr>)"
        "bb_seq u = bb_seq t" "content en (u\<lparr>bb_data_len := n * PAGE\<rparr>) = content en t @ replicate ((n - page_count t) * PAGE) 0"
        using grown[OF en t(2,3,4) grow] ge by auto
      have "content en t @ replicate ((n - page_count t) * PAGE) 0 = take len ?c @ replicate (len - length ?c) 0"
        using lc lt nl(2) t(7) emp by (cases "bb_header_area s") (auto simp: diff_mult_distrib simp flip: replicate_add)
      then show ?thesis using t(1,5,6) u grow pc nl None lc plain by (simp add: abind_def)
    next
      case (Some e)
      have "grow_error [] = None" by (simp add: grow_error_def Let_def)
      then have "bb_header_area s" using emp(1) Some by fastforce
      then show ?thesis using grown[OF en t(2,3,4) grow] Some ge t grow pc nl lc plain by (auto simp: abind_def)
    qed
  next
    case shrink
    then obtain u where u: "file_set_len en (block_offset (en_kind en) n) t = (Inr (), u)" "good en (u\<lparr>bb_data_len := n * PAGE\<rparr>)" "bb_seq u = bb_seq t"
      "content en (u\<lparr>bb_data_len := n * PAGE\<rparr>) = take (PAGE + n * PAGE) (content en t)" using shrunk[OF en t(2,3,4), of n] by auto
    have "bb_header_area s" using shrink emp(2) by fastforce
    moreover from this have "\<not> length ?c < len" using lt nl(2) shrink t(7) by simp
    ultimately show ?thesis using t u shrink pc nl plain by (simp add: abind_def)
  next
    case same
    have "t\<lparr>bb_data_len := page_count t * PAGE\<rparr> = t\<lparr>bb_data_len := bb_data_len t\<rparr>" using t(5) pc by simp
    also have "\<dots> = t" by simp
    finally have tt: "t\<lparr>bb_data_len := page_count t * PAGE\<rparr> = t" .
    have "content en t = take len ?c @ replicate (len - length ?c) 0" using same lt nl(2) t(7) emp(1) by (cases "bb_header_area s") auto
    moreover have "(if length ?c < len then grow_error ?c else None) = None"
      using same lt nl(2) t(7) emp(1) by (cases "bb_header_area s") (auto simp: grow_error_def)
    ultimately show ?thesis using t(1,2,5,6) same pc nl plain by (simp add: abind_def tt)
  qed
qed

lemma set_len_sets:
  assumes en: "writable en" and s: "good en s"
  shows "\<exists>t. set_len en len s = (fst (plain_set_len len (content en s)), t) \<and> good en t \<and> content en t = snd (plain_set_len len (content en s)) \<and> bb_seq t \<le> bb_seq s"
proof -
  note e = writableD[OF en]
  have so: "sound en s" using s by (simp add: good_def)
  obtain s1 where s1: "drain en s = (Inr (), s1)" "sound en s1" "kept s s1" "content en s1 = content en s" "bb_pending s1 = []" using drain_keeps[OF e(1,2) so] by blast
  have g: "good en s1" "bb_seq s1 = bb_seq s" using kept_good[OF s s1(3,2)] s1(3) by (simp_all add: kept_def)
  consider (bad_input) "len \<noteq> 0" "len < PAGE \<or> len mod PAGE \<noteq> 0" | (zero) "len = 0" | (pages) "PAGE \<le> len" "len mod PAGE = 0" "len \<noteq> 0" by fastforce
  then show ?thesis
  proof cases
    case bad_input
    then show ?thesis using e(4) s by (simp add: set_len_def physical_of plain_set_len_def)
  next
    case zero
    let ?t = "s1\<lparr>bb_data_len := 0, bb_ops := bb_ops s1 + 1, bb_disk := take FILE_HEADER_LEN (bb_disk s1) @ replicate (FILE_HEADER_LEN - length (bb_disk s1)) 0, bb_header_area := False\<rparr>"
    have fb: "\<not> DATA_BASE \<le> FILE_HEADER_LEN" by (simp add: DATA_BASE_def FILE_HEADER_LEN_def PIECES_LEN_def PIECE_LEN_def)
    have "set_len en len s = (Inr (), ?t)"
      using zero e(4) s1(1) file_calls(3)[OF e(2)] fb by (simp add: set_len_def physical_of abind_def)
    moreover have "good en ?t" using s1(2,5) fb by (simp add: good_def sound_def page_count_def)
    ultimately show ?thesis using zero g(2) by (auto simp: plain_set_len_def content_def)
  next
    case pages
    then have "set_len en len s = abind (ensure_header_area en) (\<lambda>_. abind (if bb_data_len s1 < len - LOGICAL_HEADER then grow en (bb_data_len s1) (len - LOGICAL_HEADER) (block_offset (en_kind en) ((len - PAGE) div PAGE))
        else if len - LOGICAL_HEADER < bb_data_len s1 then file_set_len en (block_offset (en_kind en) ((len - PAGE) div PAGE)) else ret ()) (\<lambda>_.
        update (\<lambda>s. s\<lparr>bb_data_len := len - LOGICAL_HEADER\<rparr>))) s1"
      using e(4) by (simp add: set_len_def physical_of abind_Inr[where m = "drain en", OF s1(1)] Let_def)
    then show ?thesis using set_len_to_pages[OF en g(1) s1(5) pages(1,2)] s1(4) g(2) by simp
  qed
qed

section \<open>Opening again\<close>

lemma whole_blocks:
  assumes "blocks_ok en d n"
  shows "DATA_BASE \<le> length d" "logical_len (en_kind en) (length d) - LOGICAL_HEADER = n * PAGE"
proof -
  let ?w = "stride (en_kind en)"
  have b: "DATA_BASE + n * ?w \<le> length d" "length d < DATA_BASE + Suc n * ?w" using assms by (simp_all add: blocks_ok_def block_offset_def)
  then show "DATA_BASE \<le> length d" by simp
  have "(length d - DATA_BASE) div ?w = n" using b by (intro div_nat_eqI) (simp_all add: mult.commute)
  then show "logical_len (en_kind en) (length d) - LOGICAL_HEADER = n * PAGE" using b by (simp add: logical_len_def)
qed

lemma with_tuning_loads:
  assumes en: "env_ok en" "answers_io en" and d: "DATA_BASE \<le> length d"
  shows "\<exists>m. with_tuning en d = (Inr (), \<lparr>bb_disk = d, bb_ops = m, bb_draws = 0, bb_data_len = logical_len (en_kind en) (length d) - LOGICAL_HEADER, bb_header_area = True,
    bb_hbytes = snd (snd (loaded en d)), bb_seq = fst (loaded en d), bb_newest = fst (snd (loaded en d)), bb_pending = []\<rparr>)"
proof -
  let ?s = "\<lparr>bb_disk = d, bb_ops = 1, bb_draws = 0, bb_data_len = logical_len (en_kind en) (length d) - LOGICAL_HEADER, bb_header_area = True,
    bb_hbytes = replicate REDB_HEADER_LEN 0, bb_seq = 0, bb_newest = 0, bb_pending = []\<rparr>"
  have w: "with_tuning en d = load_header en ?s" using file_calls(4)[OF en(2)] d by (simp add: with_tuning_def abind_def)
  show ?thesis using load_header_loads[OF en, of ?s] d unfolding w by auto
qed

lemma with_tuning_new:
  assumes "answers_io en" "length d < DATA_BASE"
  shows "with_tuning en d = (Inr (), \<lparr>bb_disk = d, bb_ops = 1, bb_draws = 0, bb_data_len = 0, bb_header_area = False,
    bb_hbytes = replicate REDB_HEADER_LEN 0, bb_seq = 0, bb_newest = 0, bb_pending = []\<rparr>)"
  using file_calls(4)[OF assms(1)] assms(2) by (simp add: with_tuning_def abind_def logical_len_def)

lemma reopened:
  assumes en: "writable en" and s: "good en s" "bb_pending s = []"
  shows "\<exists>t. with_tuning en (bb_disk s) = (Inr (), t) \<and> good en t \<and> content en t = content en s \<and> bb_seq t \<le> bb_seq s"
proof (cases "bb_header_area s")
  case True
  note e = writableD[OF en]
  have so: "sound en s" "hdr_ok en s" using s True by (auto simp: good_def)
  have b: "blocks_ok en (bb_disk s) (page_count s)" using so True by (simp add: sound_def)
  have dl: "bb_data_len s = page_count s * PAGE" using so by (auto simp: sound_def page_count_def)
  have "s\<lparr>bb_ops := m, bb_draws := 0\<rparr> = \<lparr>bb_disk = bb_disk s, bb_ops = m, bb_draws = 0, bb_data_len = bb_data_len s, bb_header_area = True,
      bb_hbytes = bb_hbytes s, bb_seq = bb_seq s, bb_newest = bb_newest s, bb_pending = []\<rparr>" for m
    using True s(2) by (cases s) simp
  then obtain m where t: "with_tuning en (bb_disk s) = (Inr (), s\<lparr>bb_ops := m, bb_draws := 0\<rparr>)"
    using with_tuning_loads[OF e(1,2) whole_blocks(1)[OF b]] so(2) dl whole_blocks(2)[OF b] by (auto simp: hdr_ok_def)
  show ?thesis using t s by (auto simp: good_def hdr_ok_def)
next
  case False
  then have "length (bb_disk s) < DATA_BASE" "bb_data_len s = 0" using s by (auto simp: good_def sound_def)
  then show ?thesis using with_tuning_new[OF writableD(2)[OF en]] False
    by (auto simp: good_def sound_def page_count_def content_def)
qed

section \<open>Sequences of operations\<close>

datatype file_op = FRead nat nat | FWrite nat bytes | FSetLen nat | FSync | FReopen

fun layer_step :: "env \<Rightarrow> file_op \<Rightarrow> bytes act" where
  "layer_step en (FRead off n) = backend_read en off n"
| "layer_step en (FWrite off data) = abind (backend_write en off data) (\<lambda>_. ret [])"
| "layer_step en (FSetLen len) = abind (set_len en len) (\<lambda>_. ret [])"
| "layer_step en FSync = abind (sync_data en) (\<lambda>_. ret [])"
| "layer_step en FReopen = abind (backend_close en) (\<lambda>_ s. map_prod (map_sum id (\<lambda>_. [])) id (with_tuning en (bb_disk s)))"

fun plain_step :: "file_op \<Rightarrow> bytes \<Rightarrow> (io_error + bytes) \<times> bytes" where
  "plain_step (FRead off n) c =
     (if n = 0 then Inr [] else if length c < off + n then Inl UnexpectedEof else Inr (take n (drop off c)), c)"
| "plain_step (FWrite off data) c = map_prod (map_sum id (\<lambda>_. [])) id (plain_write off data c)"
| "plain_step (FSetLen len) c = map_prod (map_sum id (\<lambda>_. [])) id (plain_set_len len c)"
| "plain_step FSync c = (Inr [], c)"
| "plain_step FReopen c = (Inr [], c)"

fun run_steps :: "('op \<Rightarrow> 's \<Rightarrow> 'r \<times> 's) \<Rightarrow> 'op list \<Rightarrow> 's \<Rightarrow> 'r list \<times> 's" where
  "run_steps step [] s = ([], s)"
| "run_steps step (op # ops) s = (case step op s of (r, s') \<Rightarrow> (case run_steps step ops s' of (rs, t) \<Rightarrow> (r # rs, t)))"

text \<open>A simulation: a concrete step answers as the abstract one does on what it shows, while \<open>ok n\<close> leaves room for \<open>n\<close> steps.\<close>

locale file_simulation =
  fixes lstep :: "'op \<Rightarrow> 's \<Rightarrow> 'r \<times> 's"
    and pstep :: "'op \<Rightarrow> 'c \<Rightarrow> 'r \<times> 'c"
    and ok :: "nat \<Rightarrow> 's \<Rightarrow> bool"
    and view :: "'s \<Rightarrow> 'c"
  assumes step: "ok (Suc n) s \<Longrightarrow> \<exists>t. lstep op s = (fst (pstep op (view s)), t) \<and> ok n t \<and> view t = snd (pstep op (view s))"
begin

lemma run_simulates:
  "ok (length ops) s \<Longrightarrow> fst (run_steps lstep ops s) = fst (run_steps pstep ops (view s)) \<and> ok 0 (snd (run_steps lstep ops s)) \<and>
    view (snd (run_steps lstep ops s)) = snd (run_steps pstep ops (view s))"
proof (induction ops arbitrary: s)
  case (Cons op ops)
  obtain t where t: "lstep op s = (fst (pstep op (view s)), t)" "ok (length ops) t" "view t = snd (pstep op (view s))"
    using step[of "length ops" s op] Cons.prems by auto
  show ?case using Cons.IH[OF t(2)] t(1,3) by (auto simp: split_beta)
qed simp

end

lemma abind_done: "m s = (r, s') \<Longrightarrow> abind m (\<lambda>_. ret []) s = (map_sum id (\<lambda>_. []) r, s')"
  by (cases r) (simp_all add: abind_def)

lemma layer_step_plain:
  assumes en: "writable en" and s: "good en s" "bb_seq s < u64_max"
  shows "\<exists>t. layer_step en op s = (fst (plain_step op (content en s)), t) \<and> good en t \<and> content en t = snd (plain_step op (content en s)) \<and> bb_seq t \<le> bb_seq s + 1"
proof -
  note e = writableD[OF en]
  have so: "sound en s" using s by (simp add: good_def)
  obtain s1 where s1: "drain en s = (Inr (), s1)" "sound en s1" "kept s s1" "content en s1 = content en s" "bb_pending s1 = []" using drain_keeps[OF e(1,2) so] by blast
  have g: "good en s1" "bb_seq s1 = bb_seq s" using kept_good[OF s(1) s1(3,2)] s1(3) by (simp_all add: kept_def)
  show ?thesis
  proof (cases op)
    case (FRead off n)
    show ?thesis
    proof (cases "off + n \<le> backend_len s")
      case True
      then obtain t where t: "backend_read en off n s = (Inr (take n (drop off (content en s))), t)" "sound en t" "kept s t" "content en t = content en s"
        using backend_read_reads[OF e(1,2) so] by blast
      then show ?thesis using FRead True length_content[OF so] kept_good[OF s(1) t(3,2)] by (auto simp: kept_def)
    next
      case False
      then show ?thesis using FRead s length_content[OF so] by (auto simp: backend_read_def)
    qed
  next
    case (FWrite off data)
    obtain t where "backend_write en off data s = (fst (plain_write off data (content en s)), t)" "good en t"
      "content en t = snd (plain_write off data (content en s))" "bb_seq t \<le> bb_seq s + 1" using backend_write_writes[OF en s] by blast
    then show ?thesis using FWrite by (simp add: abind_done[of "backend_write en off data"])
  next
    case (FSetLen len)
    obtain t where "set_len en len s = (fst (plain_set_len len (content en s)), t)" "good en t"
      "content en t = snd (plain_set_len len (content en s))" "bb_seq t \<le> bb_seq s" using set_len_sets[OF en s(1)] by blast
    then show ?thesis using FSetLen by (simp add: abind_done[of "set_len en len"])
  next
    case FSync
    then show ?thesis using s1 g file_calls(5)[OF e(2)] by (simp add: sync_data_def abind_def good_def hdr_ok_def)
  next
    case FReopen
    let ?s = "s1\<lparr>bb_ops := bb_ops s1 + 1\<rparr>"
    have c: "backend_close en s = (Inr (), ?s)" using s1(1) e(2) by (simp add: backend_close_def file_close_def answers_io_def Let_def)
    have gs: "good en ?s" "bb_pending ?s = []" using g(1) s1(5) by (simp_all add: good_def hdr_ok_def)
    obtain t where "with_tuning en (bb_disk ?s) = (Inr (), t)" "good en t" "content en t = content en ?s" "bb_seq t \<le> bb_seq ?s"
      using reopened[OF en gs] by blast
    then show ?thesis using FReopen c s1(4) g(2) by (simp add: abind_def)
  qed
qed

text \<open>Steps of the layer follow steps of the plain file, as long as there is room for as many header writes.\<close>

interpretation layer: file_simulation "layer_step en" plain_step "\<lambda>n s. writable en \<and> good en s \<and> bb_seq s + n \<le> u64_max" "content en" for en
proof
  fix n s op
  assume s: "writable en \<and> good en s \<and> bb_seq s + Suc n \<le> u64_max"
  then obtain t where "layer_step en op s = (fst (plain_step op (content en s)), t)" "good en t" "content en t = snd (plain_step op (content en s))"
    "bb_seq t \<le> bb_seq s + 1" using layer_step_plain[of en s op] by auto
  then show "\<exists>t. layer_step en op s = (fst (plain_step op (content en s)), t) \<and> (writable en \<and> good en t \<and> bb_seq t + n \<le> u64_max) \<and>
    content en t = snd (plain_step op (content en s))" using s by auto
qed

end
