(* ===== verification/Block_Safety.thy ===== *)
theory Block_Safety
  imports Block_File
begin

text \<open>
  What the encrypted file layer promises: it is a plain file to redb; a header write that stops anywhere leaves a header redb can recover
  from, and never one that makes live a page that is not in the file; a file opened for inspection is not changed; and a block that does
  not open is never read as data.
\<close>

section \<open>Header writes that stop\<close>

text \<open>The same file when it answers every call.\<close>

definition calm :: "env \<Rightarrow> env" where
  "calm en = en\<lparr>en_io := \<lambda>_. Done\<rparr>"

lemma calm_simps [simp]:
  "en_kind (calm en) = en_kind en" "en_lib (calm en) = en_lib en" "en_rnd (calm en) = en_rnd en" "en_read_only (calm en) = en_read_only en"
  "en_parallel (calm en) = en_parallel en" "answers_io (calm en)" "env_ok (calm en) = env_ok en"
  by (simp_all add: calm_def answers_io_def env_ok_def)

lemma calm_opened [simp]: "disk_page (calm en) = disk_page en" "opened_piece (calm en) = opened_piece en" "loaded (calm en) = loaded en" "page (calm en) = page en"
proof -
  show d: "disk_page (calm en) = disk_page en" and o: "opened_piece (calm en) = opened_piece en" by (simp_all add: fun_eq_iff disk_page_def opened_piece_def)
  show "loaded (calm en) = loaded en" "page (calm en) = page en" by (simp_all add: fun_eq_iff loaded_def page_def d o split: option.split)
qed

lemma calm_sound [simp]: "sound (calm en) = sound en" "content (calm en) = content en"
  by (simp_all add: fun_eq_iff sound_def blocks_ok_def content_def)

lemma calm_seal [simp]: "seal_into (calm en) = seal_into en" "seal_pages (calm en) = seal_pages en"
proof -
  show s: "seal_into (calm en) = seal_into en" by (simp add: fun_eq_iff seal_into_def random_bytes_def)
  have "seal_pages (calm en) es = seal_pages en es" for es by (induction es) (auto simp: s)
  then show "seal_pages (calm en) = seal_pages en" by (simp add: fun_eq_iff)
qed

text \<open>A step that answers does what it does on a file that always answers.\<close>

lemma calm_file_write: "file_write en off data s = (Inr (), s') \<Longrightarrow> file_write (calm en) off data s = (Inr (), s')"
  by (auto simp: file_write_def calm_def Let_def split: io_answer.splits)

lemma calm_write_runs: "write_runs en es s = (Inr (), s') \<Longrightarrow> write_runs (calm en) es s = (Inr (), s')"
proof (induction en es arbitrary: s rule: write_runs.induct)
  case (2 en i b es)
  obtain run rest where sr: "split_run (WRITE_CHUNK - 1) i es = (run, rest)" by (cases "split_run (WRITE_CHUNK - 1) i es")
  obtain r s1 where w: "file_write en (block_offset (en_kind en) i) (concat (b # map snd run)) s = (r, s1)" by fastforce
  then have "r = Inr ()" "write_runs en rest s1 = (Inr (), s')" using 2(2) sr by (cases r; simp add: abind_def)+
  then show ?case using calm_file_write[of en] w 2(1)[OF sr[symmetric] refl] sr by (simp add: abind_def)
qed simp

lemma calm_drain: "drain en s = (Inr (), s') \<Longrightarrow> drain (calm en) s = (Inr (), s')"
  by (auto simp: drain_def abind_def Let_def calm_write_runs split: if_splits sum.splits prod.splits)

text \<open>Draining writes nothing before the first block.\<close>

definition blocks_only :: "block_backend \<Rightarrow> block_backend \<Rightarrow> bool" where
  "blocks_only s s' \<longleftrightarrow> take DATA_BASE (bb_disk s') = take DATA_BASE (bb_disk s) \<and> DATA_BASE \<le> length (bb_disk s') \<and> bb_hbytes s' = bb_hbytes s \<and>
     bb_seq s' = bb_seq s \<and> bb_newest s' = bb_newest s \<and> bb_header_area s' = bb_header_area s \<and> bb_data_len s' = bb_data_len s"

lemma file_write_blocks_only:
  assumes "DATA_BASE \<le> length (bb_disk s)" "DATA_BASE \<le> off"
  shows "blocks_only s (snd (file_write en off data s))"
proof -
  have "take DATA_BASE (put_at off b (bb_disk s)) = take DATA_BASE (bb_disk s)" "DATA_BASE \<le> length (put_at off b (bb_disk s))" for b
    using assms by (simp_all add: put_at_def)
  then show ?thesis by (simp add: file_write_def Let_def blocks_only_def split: io_answer.split)
qed

lemma blocks_only_trans: "blocks_only s t \<Longrightarrow> blocks_only t u \<Longrightarrow> blocks_only s u"
  by (simp add: blocks_only_def)

lemma write_runs_blocks_only: "DATA_BASE \<le> length (bb_disk s) \<Longrightarrow> blocks_only s (snd (write_runs en es s))"
proof (induction en es arbitrary: s rule: write_runs.induct)
  case (2 en i b es)
  obtain run rest where sr: "split_run (WRITE_CHUNK - 1) i es = (run, rest)" by (cases "split_run (WRITE_CHUNK - 1) i es")
  obtain r s1 where w: "file_write en (block_offset (en_kind en) i) (concat (b # map snd run)) s = (r, s1)" by fastforce
  have one: "blocks_only s s1" using file_write_blocks_only[OF 2(2), of "block_offset (en_kind en) i" en "concat (b # map snd run)"] w
    by (simp add: block_offset_def)
  then have "DATA_BASE \<le> length (bb_disk s1)" by (simp add: blocks_only_def)
  from 2(1)[OF sr[symmetric] refl this] show ?case using one w sr by (cases r) (auto simp: abind_def intro: blocks_only_trans)
qed (simp add: blocks_only_def)

lemma seal_pages_blocks_only: "DATA_BASE \<le> length (bb_disk s) \<Longrightarrow> blocks_only s (snd (seal_pages en es s))"
proof (induction en es arbitrary: s rule: seal_pages.induct)
  case (2 en i p ps)
  obtain r s1 where w: "seal_into en ''sealing a block failed'' (block_aad i) p (stride (en_kind en)) s = (r, s1)" by fastforce
  have one: "blocks_only s s1" using w 2(2) by (auto simp: seal_into_def random_bytes_def abind_def Let_def blocks_only_def split: option.splits)
  then have "DATA_BASE \<le> length (bb_disk s1)" by (simp add: blocks_only_def)
  from 2(1)[OF this] show ?case using one w by (cases r) (auto simp: abind_def split: prod.split sum.split intro: blocks_only_trans)
qed (simp add: blocks_only_def)

lemma drain_blocks_only:
  assumes "DATA_BASE \<le> length (bb_disk s)"
  shows "blocks_only s (snd (drain en s))"
proof (cases "bb_pending s = []")
  case True
  then show ?thesis using assms by (simp add: drain_def blocks_only_def)
next
  case False
  obtain r s1 where q: "seal_pages en (bb_pending s) s = (r, s1)" by fastforce
  have one: "blocks_only s s1" using seal_pages_blocks_only[OF assms, of en "bb_pending s"] q by simp
  then have l: "DATA_BASE \<le> length (bb_disk s1)" by (simp add: blocks_only_def)
  show ?thesis
  proof (cases r)
    case (Inl e)
    then show ?thesis using False q one by (simp add: drain_def abind_def)
  next
    case (Inr bs)
    let ?z = "zip (map fst (bb_pending s)) bs"
    obtain x s2 where w: "write_runs en ?z s1 = (x, s2)" by fastforce
    then have "blocks_only s s2" using write_runs_blocks_only[OF l, of en ?z] one by (auto intro: blocks_only_trans)
    then show ?thesis using False q Inr w by (cases x) (simp_all add: drain_def abind_def blocks_only_def Let_def)
  qed
qed

text \<open>A write into the header page, through the staged pages before it, whatever the file answers.\<close>

lemma header_write_any:
  fixes s :: block_backend and off data
  defines "new \<equiv> header_with off data (bb_hbytes s)"
  assumes en: "env_ok en" "blanks_rejected en" "\<not> en_read_only en" and s: "good en s" "bb_header_area s" "bb_seq s < u64_max"
    and o: "data \<noteq> []" "off + length data \<le> PAGE" "\<not> unused_touched off data" and t: "tears_show en s new" and w: "backend_write en off data s = (r, s')"
  shows "DATA_BASE \<le> length (bb_disk s')" "take FILE_HEADER_LEN (bb_disk s') = take FILE_HEADER_LEN (bb_disk s)"
    "snd (snd (loaded en (bb_disk s'))) = bb_hbytes s \<and> r \<noteq> Inr () \<or>
     (\<forall>i < page_count s. disk_page en (bb_disk s') i = Some (page en s i)) \<and> recoverable (bb_hbytes s) new (snd (snd (loaded en (bb_disk s')))) \<and>
     (r = Inr () \<longrightarrow> snd (snd (loaded en (bb_disk s'))) = new)"
proof -
  have so: "sound en s" and h: "hdr_ok en s" using s by (simp_all add: good_def)
  have bl: "off + length data \<le> backend_len s" using o(2) s(2) by (simp add: backend_len_def LOGICAL_HEADER_def)
  have lt: "off < LOGICAL_HEADER" using o(1,2) by (cases data) (simp_all add: LOGICAL_HEADER_def)
  have mn: "min (LOGICAL_HEADER - off) (length data) = length data" using o(2) by (simp add: LOGICAL_HEADER_def)
  have bw: "backend_write en off data s = abind (abind (drain en) (\<lambda>_. write_header_range en off data)) (\<lambda>_. ret ()) s"
    using backend_write_cases[OF o(1) bl] lt unfolding mn by simp
  obtain x s1 where d: "drain en s = (x, s1)" by fastforce
  have b: "blocks_only s s1" using drain_blocks_only[OF sound_disk[OF so s(2)], of en] d by simp
  have l1: "loaded en (bb_disk s1) = (bb_seq s, bb_newest s, bb_hbytes s)"
    using loaded_take[of "bb_disk s1" "bb_disk s" en] b h by (simp add: blocks_only_def hdr_ok_def)
  have f1: "take FILE_HEADER_LEN (bb_disk s1) = take FILE_HEADER_LEN (bb_disk s)"
  proof -
    have "take FILE_HEADER_LEN x = take FILE_HEADER_LEN (take DATA_BASE x)" for x :: bytes by (simp add: DATA_BASE_def min_def)
    then show ?thesis using b unfolding blocks_only_def by metis
  qed
  have "DATA_BASE \<le> length (bb_disk s') \<and> take FILE_HEADER_LEN (bb_disk s') = take FILE_HEADER_LEN (bb_disk s) \<and>
    (snd (snd (loaded en (bb_disk s'))) = bb_hbytes s \<and> r \<noteq> Inr () \<or>
     (\<forall>i < page_count s. disk_page en (bb_disk s') i = Some (page en s i)) \<and> recoverable (bb_hbytes s) new (snd (snd (loaded en (bb_disk s')))) \<and>
     (r = Inr () \<longrightarrow> snd (snd (loaded en (bb_disk s'))) = new))"
  proof (cases x)
    case (Inl e)
    then have "s' = s1" "r = Inl e" using bw w d by (simp_all add: abind_def)
    then show ?thesis using b l1 f1 by (simp add: blocks_only_def)
  next
    case (Inr u)
    then have d': "drain (calm en) s = (Inr (), s1)" using calm_drain d by simp
    have c: "env_ok (calm en)" "answers_io (calm en)" "sound (calm en) s" using en(1) so by simp_all
    obtain s2 where "drain (calm en) s = (Inr (), s2)" "sound (calm en) s2" "kept s s2" "bb_pending s2 = []" "\<forall>i < page_count s. page (calm en) s2 i = page (calm en) s i"
      using drain_keeps[OF c] by blast
    then have k: "sound en s1" "kept s s1" "\<forall>i < page_count s. page en s1 i = page en s i" "bb_pending s1 = []" using d' by simp_all
    have s1: "good en s1" "bb_header_area s1" "bb_seq s1 = bb_seq s" "bb_newest s1 = bb_newest s" "bb_hbytes s1 = bb_hbytes s" "page_count s1 = page_count s"
      using kept_good[OF s(1) k(2,1)] k(2) s(2) by (simp_all add: kept_def page_count_def)
    have pt: "piece_at c (bb_disk s1) = piece_at c (bb_disk s)" if "c < 4" for c using k(2) by (intro piece_at_take[OF that]) (simp add: kept_def)
    have t1: "tears_show en s1 new" using t unfolding tears_show_def by (simp add: s1 pt)
    have hd1: "hdr_ok en s1" using s1 by (simp add: good_def)
    obtain r' ka m d'' seq newest where wr: "write_header_range en off data s1 = (r', s1\<lparr>bb_hbytes := new, bb_draws := ka, bb_ops := m, bb_disk := d'', bb_seq := seq, bb_newest := newest\<rparr>)"
      "pieces_only UNIV (bb_disk s1) d''" "r' = Inr () \<Longrightarrow> loaded en d'' = (seq, newest, new)" "recoverable (bb_hbytes s) new (snd (snd (loaded en d'')))"
      by (rule write_header_range_any[OF en sound_disk[OF k(1) s1(2)] hd1 _ o(3)]) (use s(3) s1(3) t1 s1(5) in \<open>auto simp: new_def intro: that\<close>)
    have fin: "bb_disk s' = d''" "r = r'" using bw w d Inr wr(1) by (cases r'; auto simp: abind_def)+
    have blk: "block_at (en_kind en) i d'' = block_at (en_kind en) i (bb_disk s1)" for i
    proof -
      have "block_at k i d = take (stride k) (drop (i * stride k) (drop DATA_BASE d))" for k d by (simp add: block_at_def block_offset_def add.commute)
      then show ?thesis using wr(2) unfolding pieces_only_def by (simp only:)
    qed
    have "disk_page en d'' i = Some (page en s i)" if i: "i < page_count s" for i
    proof -
      have "blocks_ok en (bb_disk s1) (page_count s)" using k(1) s1(2,6) by (simp add: sound_def)
      then have "disk_page en (bb_disk s1) i = Some (page en s1 i)" using i k(4) by (auto simp: blocks_ok_def page_def)
      moreover have "page en s1 i = page en s i" using k(3) i by blast
      ultimately show ?thesis using blk by (simp add: disk_page_def)
    qed
    moreover have "DATA_BASE \<le> length d''" "take FILE_HEADER_LEN d'' = take FILE_HEADER_LEN (bb_disk s)"
      using wr(2) f1 b by (simp_all add: pieces_only_def blocks_only_def)
    ultimately show ?thesis using fin wr(3,4) by auto
  qed
  then show "DATA_BASE \<le> length (bb_disk s')" "take FILE_HEADER_LEN (bb_disk s') = take FILE_HEADER_LEN (bb_disk s)"
    "snd (snd (loaded en (bb_disk s'))) = bb_hbytes s \<and> r \<noteq> Inr () \<or>
     (\<forall>i < page_count s. disk_page en (bb_disk s') i = Some (page en s i)) \<and> recoverable (bb_hbytes s) new (snd (snd (loaded en (bb_disk s')))) \<and>
     (r = Inr () \<longrightarrow> snd (snd (loaded en (bb_disk s'))) = new)" by blast+
qed

section \<open>Inspection\<close>

text \<open>A step that leaves the file as it is and stages nothing.\<close>

definition keeps :: "'a act \<Rightarrow> bool" where
  "keeps m \<longleftrightarrow> (\<forall>s. bb_pending s = [] \<longrightarrow> bb_disk (snd (m s)) = bb_disk s \<and> bb_pending (snd (m s)) = [])"

lemma keeps_bind: "keeps m \<Longrightarrow> (\<And>a. keeps (f a)) \<Longrightarrow> keeps (abind m f)"
  unfolding keeps_def abind_def by (auto split: prod.splits sum.splits)

lemma keeps_update: "(\<And>s. bb_disk (f s) = bb_disk s \<and> bb_pending (f s) = bb_pending s) \<Longrightarrow> keeps (update f)"
  by (simp add: keeps_def)

lemma keeps_basic: "keeps (ret a)" "keeps (fail e)" "keeps (file_len en)" "keeps (file_read en off n)" "keeps (file_sync en)" "keeps (file_close en)"
  by (simp_all add: keeps_def file_len_def file_read_def file_sync_def file_close_def Let_def split: io_answer.split)

lemma keeps_if: "(b \<Longrightarrow> keeps m) \<Longrightarrow> (\<not> b \<Longrightarrow> keeps n) \<Longrightarrow> keeps (if b then m else n)"
  by simp

lemma keeps_guarded: "keeps m \<Longrightarrow> keeps (\<lambda>s. if b then ret x s else if c s then fail e s else m s)"
  by (simp add: keeps_def)

lemma keeps_pair: "keeps (\<lambda>s. (r s, s))"
  by (simp add: keeps_def)

lemma keeps_drain: "keeps (drain en)"
  by (simp add: keeps_def drain_def)

lemma keeps_refused: "en_read_only en \<Longrightarrow> keeps (write_blocks en first plain)" "en_read_only en \<Longrightarrow> keeps (stage_pages en first plain)"
  by (simp_all add: write_blocks_def stage_pages_def refuse_if_read_only_def keeps_basic)

lemma keeps_load_header: "keeps (load_header en)"
proof -
  have "keeps (read_piece en c p)" for c p
    unfolding read_piece_def by (auto intro!: keeps_bind keeps_basic keeps_if split: option.split)
  then have t: "keeps (try_piece en c p)" for c p
    unfolding keeps_def try_piece_def by (auto split: prod.splits sum.splits option.splits) (metis snd_conv)+
  show ?thesis unfolding load_header_def
    by (intro keeps_bind t keeps_update) (auto split: option.split)
qed

lemma keeps_read: "keeps (backend_read en off n)"
proof -
  have f: "keeps (abind (file_read en a b) (\<lambda>buf s. (g buf, s)))" for a b and g :: "bytes \<Rightarrow> io_error + bytes"
    by (intro keeps_bind keeps_basic keeps_pair)
  have p: "keeps (read_pages en pos want)" for pos want
    unfolding keeps_def
  proof (intro allI impI)
    fix s :: block_backend assume "bb_pending s = []"
    then show "bb_disk (snd (read_pages en pos want s)) = bb_disk s \<and> bb_pending (snd (read_pages en pos want s)) = []"
      using f unfolding keeps_def read_pages_def Let_def by simp
  qed
  let ?n = "if off < LOGICAL_HEADER then min (LOGICAL_HEADER - off) n else 0"
  let ?head = "\<lambda>s. map (\<lambda>i. header_byte (bb_hbytes s) (off + i)) [0..<?n]"
  define m where "m = (\<lambda>s. if ?n = n then ret (?head s) s else abind (read_pages en (off + ?n) (n - ?n)) (\<lambda>rest. ret (?head s @ rest)) s)"
  have "keeps (abind (read_pages en pos want) (\<lambda>rest. ret (h @ rest)))" for pos want h by (intro keeps_bind p keeps_basic)
  then have "keeps m" unfolding m_def keeps_def by (simp only: act_simps snd_conv split: if_split) blast
  moreover have "backend_read en off n = (\<lambda>s. if n = 0 then ret [] s else if backend_len s < off + n then fail UnexpectedEof s else m s)"
    unfolding backend_read_def Let_def m_def by (rule refl)
  ultimately show ?thesis using keeps_guarded by simp
qed

lemma keeps_write: "en_read_only en \<Longrightarrow> keeps (backend_write en off data)"
proof -
  assume ro: "en_read_only en"
  have h: "keeps (write_header_range en a b)" for a b using ro by (auto simp: keeps_def write_header_range_def Let_def)
  let ?n = "if off < LOGICAL_HEADER then min (LOGICAL_HEADER - off) (length data) else 0"
  let ?rel = "off + ?n - LOGICAL_HEADER" and ?rest = "drop ?n data"
  define m where "m = abind (if off < LOGICAL_HEADER then abind (drain en) (\<lambda>_. write_header_range en off (take ?n data)) else ret ()) (\<lambda>_.
      if ?n = length data then ret ()
      else if ?rel mod PAGE \<noteq> 0 \<or> length ?rest mod PAGE \<noteq> 0 then fail (bad_input ''write is not aligned to whole pages'')
      else if en_parallel en then stage_pages en (?rel div PAGE) ?rest else write_blocks en (?rel div PAGE) ?rest)"
  have "keeps m" unfolding m_def by (intro keeps_bind keeps_if keeps_drain h keeps_basic keeps_refused ro)
  moreover have "backend_write en off data = (\<lambda>s. if data = [] then ret () s else if backend_len s < off + length data then fail (bad_input ''write past the end'') s else m s)"
    unfolding backend_write_def Let_def m_def by (rule refl)
  ultimately show ?thesis using keeps_guarded by simp
qed

lemma keeps_set_len: "en_read_only en \<Longrightarrow> keeps (set_len en len)"
  unfolding set_len_def refuse_if_read_only_def by (auto intro!: keeps_bind keeps_basic keeps_if)

lemma keeps_with_tuning: "bb_disk (snd (with_tuning en d)) = d \<and> bb_pending (snd (with_tuning en d)) = []"
proof -
  have "keeps (abind (file_len en) (\<lambda>physical. abind (update (\<lambda>s. s\<lparr>bb_header_area := DATA_BASE \<le> physical, bb_data_len := logical_len (en_kind en) physical - LOGICAL_HEADER\<rparr>))
      (\<lambda>_. if DATA_BASE \<le> physical then load_header en else ret ())))"
    by (intro keeps_bind keeps_basic keeps_update keeps_if keeps_load_header) simp
  then show ?thesis unfolding with_tuning_def keeps_def by simp
qed

lemma keeps_close: "keeps (backend_close en)"
  unfolding keeps_def backend_close_def using keeps_drain[of en] keeps_basic(6)[of en]
  by (auto simp: keeps_def split: prod.split) (metis snd_conv)+

lemma keeps_layer_step: "en_read_only en \<Longrightarrow> keeps (layer_step en op)"
proof (cases op)
  case FReopen
  have "keeps (\<lambda>s. map_prod (map_sum id (\<lambda>_. [])) id (with_tuning en (bb_disk s)))" using keeps_with_tuning[of en] by (simp add: keeps_def)
  then show ?thesis using FReopen by (auto intro!: keeps_bind keeps_close)
qed (auto simp: sync_data_def intro!: keeps_bind keeps_read keeps_write keeps_set_len keeps_drain keeps_basic)

lemma run_keeps: "en_read_only en \<Longrightarrow> bb_pending s = [] \<Longrightarrow> bb_disk (snd (run_steps (layer_step en) ops s)) = bb_disk s"
proof (induction ops arbitrary: s)
  case (Cons op ops)
  obtain r t where t: "layer_step en op s = (r, t)" by fastforce
  then have "bb_disk t = bb_disk s" "bb_pending t = []" using keeps_layer_step[OF Cons.prems(1), of op] Cons.prems(2) unfolding keeps_def by (metis snd_conv)+
  then show ?case using Cons.IH[OF Cons.prems(1), of t] t by (simp add: split_beta)
qed simp

section \<open>Blocks that do not open\<close>

lemma copy_blocks_refuses:
  "\<forall>i \<in> {first..<j}. opened en (block_aad i) (b i) \<noteq> None \<Longrightarrow> opened en (block_aad j) (b j) = None \<Longrightarrow> first \<le> j \<Longrightarrow> j < first + count \<Longrightarrow>
    copy_blocks en first skip want (map b [first..<first + count]) = Inl (TamperData (Some j))"
proof (induction count arbitrary: first skip want)
  case (Suc count)
  have u: "[first..<first + Suc count] = first # [Suc first..<Suc first + count]" by (simp add: upt_conv_Cons del: upt_Suc)
  show ?case
  proof (cases "first = j")
    case True
    then show ?thesis using Suc.prems(2) unfolding u by simp
  next
    case False
    then obtain p where "opened en (block_aad first) (b first) = Some p" using Suc.prems(1,3) by fastforce
    moreover have "copy_blocks en (Suc first) 0 w (map b [Suc first..<Suc first + count]) = Inl (TamperData (Some j))" for w
      using Suc.IH[of "Suc first" 0 w] Suc.prems False by simp
    ultimately show ?thesis unfolding u by (simp add: Let_def)
  qed
qed simp

section \<open>A sample cipher\<close>

text \<open>A cipher for the witnesses: the text is stored as it is, the tag repeats the successor of the first byte of the nonce.\<close>

definition sample_lib :: aead_lib where
  "sample_lib = \<lparr>encrypt_detached = \<lambda>nonce aad plain. Some (plain, replicate TAG_LEN (hd nonce + 1)),
     decrypt_detached = \<lambda>nonce aad ct tag. if tag = replicate TAG_LEN (hd nonce + 1) then Some ct else None\<rparr>"

definition sample_env :: env where
  "sample_env = \<lparr>en_kind = Aes256Gcm, en_lib = sample_lib, en_rnd = \<lambda>i n. Some (replicate n (if n = 12 then 1 else 0)),
     en_io = \<lambda>_. Done, en_read_only = False, en_parallel = True\<rparr>"

definition sample_blocks :: block_backend where
  "sample_blocks = \<lparr>bb_disk = replicate 4096 0, bb_ops = 0, bb_draws = 0, bb_data_len = 0, bb_header_area = True,
     bb_hbytes = replicate REDB_HEADER_LEN 0, bb_seq = 0, bb_newest = 0, bb_pending = []\<rparr>"

text \<open>The same file, whose second call stops after a hundred bytes.\<close>

definition sample_stop :: env where
  "sample_stop = sample_env\<lparr>en_io := \<lambda>i. if i = 1 then Broken 100 else Done\<rparr>"

lemma sample_lib_ok: "lib_ok k sample_lib"
  by (auto simp: lib_ok_def sample_lib_def split: if_splits)

lemma sample_opened_zeros:
  assumes "48 \<le> n"
  shows "open_in_place Aes256Gcm sample_lib aad (replicate n 0) = None"
proof -
  have "replicate TAG_LEN (0::u8) \<noteq> replicate TAG_LEN 1" by (simp add: TAG_LEN_def)
  moreover have "hd (replicate 12 (0::u8)) = 0" by (simp add: hd_replicate)
  moreover have "n - (n - TAG_LEN) = TAG_LEN" "min n 12 = 12" using assms by (simp_all add: TAG_LEN_def)
  ultimately show ?thesis using assms by (simp add: open_in_place_def sample_lib_def Let_def min.commute)
qed

lemma sample_ok: "env_ok sample_env" "blanks_rejected sample_env" "writable sample_env" "env_ok sample_stop" "blanks_rejected sample_stop"
proof -
  show e: "env_ok sample_env" "env_ok sample_stop" using sample_lib_ok by (simp_all add: env_ok_def sample_env_def sample_stop_def)
  have z: "open_in_place Aes256Gcm sample_lib (piece_aad p) (replicate PIECE_LEN 0) = None" for p by (rule sample_opened_zeros) (simp add: PIECE_LEN_def)
  have y: "open_in_place Aes256Gcm sample_lib (piece_aad p) (take PIECE_LEN (drop (c * PIECE_LEN) (replicate PIECES_LEN 0))) = None" for c p
  proof (cases "c < 4")
    case True
    then have "Suc c * PIECE_LEN \<le> 4 * PIECE_LEN" by (intro mult_le_mono1) simp
    then have "PIECE_LEN \<le> PIECES_LEN - c * PIECE_LEN" unfolding PIECES_LEN_def mult_Suc by linarith
    then show ?thesis using z by (simp add: min_def)
  next
    case False
    then have "PIECES_LEN - c * PIECE_LEN = 0" by (simp add: PIECES_LEN_def)
    then show ?thesis by (simp add: open_in_place_def TAG_LEN_def)
  qed
  have "PIECES_LEN \<noteq> 12" by (simp add: PIECES_LEN_def PIECE_LEN_def)
  then show b: "blanks_rejected sample_env" "blanks_rejected sample_stop" using z y by (auto simp: blanks_rejected_def sample_env_def sample_stop_def)
  show "writable sample_env" using e b by (simp add: writable_def answers_io_def sample_env_def)
qed

lemma sample_pieces: "c < 4 \<Longrightarrow> piece_at c (replicate 4096 0) = replicate PIECE_LEN 0"
  by (simp add: piece_at_def piece_offset_def PIECE_LEN_def FILE_HEADER_LEN_def min_def)

lemma sample_good: "good sample_stop sample_blocks"
proof -
  have "opened_piece sample_stop c p (replicate 4096 0) = None" if "c < 4" for c p
    using sample_pieces[OF that] by (simp add: opened_piece_def list_all_iff)
  then have "loaded sample_stop (replicate 4096 0) = (0, 0, replicate 64 0 @ replicate 128 0 @ replicate 128 0)"
    by (simp add: loaded_def primary_def newer_def slot_def)
  then have "hdr_ok sample_stop sample_blocks" unfolding hdr_ok_def sample_blocks_def by (simp add: REDB_HEADER_LEN_def flip: replicate_add)
  moreover have "sound sample_stop sample_blocks"
    by (simp add: sound_def sample_blocks_def page_count_def blocks_ok_def block_offset_def DATA_BASE_def FILE_HEADER_LEN_def PIECES_LEN_def PIECE_LEN_def stride_def PAGE_def)
  ultimately show ?thesis by (simp add: good_def)
qed

lemma sample_tears: "tears_show sample_stop sample_blocks hb"
proof -
  have "let b = sealed_piece sample_stop i p q hb; torn = take n b @ drop n (replicate PIECE_LEN 0)
    in torn = replicate PIECE_LEN 0 \<or> torn = b \<or> opened sample_stop (piece_aad p) torn = None" for i p q n
  proof -
    define plain where "plain = piece_plain q hb p (PIECE_LEN - overhead Aes256Gcm)"
    define b where "b = sealed_piece sample_stop i p q hb"
    define torn where "torn = take n b @ drop n (replicate PIECE_LEN (0::u8))"
    have pl: "length plain = 484" by (simp add: plain_def length_piece_plain PIECE_LEN_def overhead_def TAG_LEN_def)
    have b: "b = replicate 12 1 @ plain @ replicate TAG_LEN 2"
      using pl by (simp add: b_def sealed_piece_def sample_stop_def sample_env_def seal_into_with_def sample_lib_def plain_def[unfolded PIECE_LEN_def, symmetric] hd_replicate TAG_LEN_def PIECE_LEN_def)
    have lb: "length b = PIECE_LEN" using b pl by (simp add: TAG_LEN_def PIECE_LEN_def)
    consider "n = 0" | "PIECE_LEN \<le> n" | (mid) "0 < n" "n < PIECE_LEN" by linarith
    then have "torn = replicate PIECE_LEN 0 \<or> torn = b \<or> opened sample_stop (piece_aad p) torn = None"
    proof cases
      case mid
      have lt: "length torn = 512" using lb mid by (simp add: torn_def PIECE_LEN_def)
      have h: "hd (take 12 torn) = 1" using mid b by (cases n) (simp_all add: torn_def)
      have "last torn = 0" using mid by (simp add: torn_def)
      then have "last (drop 496 torn) = 0" using lt by (simp add: last_drop)
      moreover have "last (replicate TAG_LEN (2::u8)) = 2" "(2::u8) \<noteq> 0" by (simp_all add: TAG_LEN_def)
      ultimately have "drop 496 torn \<noteq> replicate TAG_LEN 2" by metis
      then show ?thesis using h lt by (simp add: open_in_place_def sample_stop_def sample_env_def sample_lib_def TAG_LEN_def)
    qed (use lb in \<open>simp_all add: torn_def\<close>)
    then show ?thesis by (simp add: Let_def torn_def b_def)
  qed
  then show ?thesis unfolding tears_show_def by (simp add: sample_blocks_def sample_pieces)
qed

section \<open>The promises\<close>

text \<open>C5. From a file that holds only the file header, any sequence of reads, writes, changes of length, syncs and reopenings of the encrypted
  layer gives the answers, errors included, that a plain file gives, and leaves its content: whether pages are staged or not, whichever
  cipher. The ciphers open what they sealed, the file and the random source answer, and neither a zero piece nor the random filling of a new
  header area opens.\<close>

theorem block_file_refines:
  assumes "writable en" "length ops \<le> u64_max" "length d = FILE_HEADER_LEN" "with_tuning en d = (Inr (), s)"
  shows "fst (run_steps (layer_step en) ops s) = fst (run_steps plain_step ops []) \<and>
    content en (snd (run_steps (layer_step en) ops s)) = snd (run_steps plain_step ops [])"
proof -
  have l: "length d < DATA_BASE" using assms(3) by (simp add: DATA_BASE_def PIECES_LEN_def PIECE_LEN_def)
  have s: "s = \<lparr>bb_disk = d, bb_ops = 1, bb_draws = 0, bb_data_len = 0, bb_header_area = False,
    bb_hbytes = replicate REDB_HEADER_LEN 0, bb_seq = 0, bb_newest = 0, bb_pending = []\<rparr>"
    using with_tuning_new[OF writableD(2)[OF assms(1)] l] assms(4) by simp
  have "good en s" "content en s = []" using l by (simp_all add: s good_def sound_def page_count_def content_def)
  then show ?thesis using layer.run_simulates[where en = en and ops = ops and s = s] assms(1,2) by (simp add: s)
qed

text \<open>At a concrete input: the page written before the file was closed is read after it was opened again.\<close>

theorem block_file_refines_witness:
  "fst (run_steps (layer_step sample_env) [FSetLen 8192, FWrite 4096 (replicate 4096 7), FReopen, FRead 5000 2]
     (snd (with_tuning sample_env (replicate 2048 0)))) = [Inr [], Inr [], Inr [], Inr [7, 7]]"
proof -
  let ?ops = "[FSetLen 8192, FWrite 4096 (replicate 4096 7), FReopen, FRead 5000 2]"
  let ?s = "snd (with_tuning sample_env (replicate 2048 0))"
  have w: "with_tuning sample_env (replicate 2048 0) = (Inr (), ?s)"
    using with_tuning_new[OF writableD(2)[OF sample_ok(3)], of "replicate 2048 0"]
    by (simp add: DATA_BASE_def FILE_HEADER_LEN_def PIECES_LEN_def PIECE_LEN_def)
  have a: "plain_set_len 8192 [] = (Inr (), replicate 8192 0)" by (simp add: plain_set_len_def grow_error_def PAGE_def Let_def)
  have b: "plain_write 4096 (replicate 4096 7) (replicate 8192 0) = (Inr (), replicate 4096 0 @ replicate 4096 7)"
    by (simp add: plain_write_def Let_def LOGICAL_HEADER_def PAGE_def unused_touched_def put_at_def)
  have c: "take 2 (drop 5000 (replicate 4096 0 @ replicate 4096 (7::u8))) = [7, 7]" by (simp add: numeral_2_eq_2)
  have "fst (run_steps plain_step ?ops []) = [Inr [], Inr [], Inr [], Inr [7, 7]]" using c by (simp add: a b)
  then show ?thesis using block_file_refines[OF sample_ok(3) _ _ w, of ?ops] by (simp add: FILE_HEADER_LEN_def u64_max_def)
qed

text \<open>C6. A write into redb's header page that stops anywhere, at the staged pages before it or inside any of its sealed pieces, leaves a file that
  opens. Either the header is the one from before the write, or every page redb had written is in the file and the header is one redb
  recovers from: the first part is the old or the new one, the new one only with both commit slots new, and at most one slot, one that
  was being changed, is lost. When the write reports success the header is the new one. The bytes of the file header stay as they are.
  A piece of which only a part was stored is taken not to open.\<close>

theorem header_write_recovers:
  assumes "env_ok en" "blanks_rejected en" "\<not> en_read_only en" "good en s" "bb_header_area s" "bb_seq s < u64_max"
    "data \<noteq> []" "off + length data \<le> PAGE" "\<not> unused_touched off data" "tears_show en s (header_with off data (bb_hbytes s))"
    "backend_write en off data s = (r, s')"
  shows "\<exists>t. with_tuning (calm en) (bb_disk s') = (Inr (), t) \<and> take FILE_HEADER_LEN (bb_disk s') = take FILE_HEADER_LEN (bb_disk s) \<and>
    (bb_hbytes t = bb_hbytes s \<and> r \<noteq> Inr () \<or>
     (\<forall>i < page_count s. disk_page en (bb_disk s') i = Some (page en s i)) \<and> recoverable (bb_hbytes s) (header_with off data (bb_hbytes s)) (bb_hbytes t) \<and>
     (r = Inr () \<longrightarrow> bb_hbytes t = header_with off data (bb_hbytes s)))"
proof -
  note any = header_write_any[OF assms]
  obtain t where "with_tuning (calm en) (bb_disk s') = (Inr (), t)" "bb_hbytes t = snd (snd (loaded en (bb_disk s')))"
    using with_tuning_loads[of "calm en" "bb_disk s'"] assms(1) any(1) by auto
  then show ?thesis using any(2,3) by auto
qed

text \<open>At a concrete input: a write over all three parts of the header that stops inside the second slot.\<close>

theorem header_write_recovers_witness:
  "\<exists>t. with_tuning (calm sample_stop) (bb_disk (snd (backend_write sample_stop 0 (replicate 200 5) sample_blocks))) = (Inr (), t) \<and>
    (bb_hbytes t = bb_hbytes sample_blocks \<or> recoverable (bb_hbytes sample_blocks) (header_with 0 (replicate 200 5) (bb_hbytes sample_blocks)) (bb_hbytes t))"
proof -
  have "bb_header_area sample_blocks" "bb_seq sample_blocks < u64_max" "\<not> en_read_only sample_stop" "replicate 200 (5::u8) \<noteq> []"
    "0 + length (replicate 200 (5::u8)) \<le> PAGE" "\<not> unused_touched 0 (replicate 200 5)"
    by (simp_all add: sample_blocks_def u64_max_def sample_stop_def sample_env_def PAGE_def unused_touched_def REDB_HEADER_LEN_def)
  from header_write_recovers[OF sample_ok(4,5) this(3) sample_good this(1,2,4,5,6) sample_tears,
      of "fst (backend_write sample_stop 0 (replicate 200 5) sample_blocks)" "snd (backend_write sample_stop 0 (replicate 200 5) sample_blocks)"]
  show ?thesis by auto
qed

text \<open>C36. A file opened for inspection is left byte for byte as it was by every sequence of operations, writes and changes of length included,
  whatever the file answers.\<close>

theorem read_only_unchanged:
  assumes "en_read_only en" "with_tuning en d = (r, s)"
  shows "bb_disk (snd (run_steps (layer_step en) ops s)) = d"
  using run_keeps[OF assms(1), of s ops] keeps_with_tuning[of en d] assms(2) by simp

text \<open>At a concrete input: a header write, a truncation and a reopening.\<close>

theorem read_only_unchanged_witness:
  "bb_disk (snd (run_steps (layer_step (sample_env\<lparr>en_read_only := True\<rparr>)) [FWrite 0 [1], FSetLen 0, FReopen]
    (snd (with_tuning (sample_env\<lparr>en_read_only := True\<rparr>) (replicate 5000 3))))) = replicate 5000 3"
  by (rule read_only_unchanged[where r = "fst (with_tuning (sample_env\<lparr>en_read_only := True\<rparr>) (replicate 5000 3))"]) (simp_all add: sample_env_def)

text \<open>C35. A read of pages that are not staged, of which one does not open at its own number, gives no data: it fails, naming the first such
  block. The number is part of what is authenticated.\<close>

theorem tampered_block_refused:
  fixes off len
  defines "first \<equiv> (off - LOGICAL_HEADER) div PAGE" and "last_page \<equiv> (off - LOGICAL_HEADER + len - 1) div PAGE"
  assumes "answers_io en" "LOGICAL_HEADER \<le> off" "0 < len" "off + len \<le> backend_len s" "block_offset (en_kind en) (last_page + 1) \<le> length (bb_disk s)"
    and "\<forall>i \<in> {first..last_page}. tbl_get (bb_pending s) i = None"
    and "first \<le> j" "j \<le> last_page" "disk_page en (bb_disk s) j = None" "\<forall>i \<in> {first..<j}. disk_page en (bb_disk s) i \<noteq> None"
  shows "backend_read en off len s = (Inl (TamperData (Some j)), s\<lparr>bb_ops := bb_ops s + 1\<rparr>)"
proof -
  let ?k = "en_kind en" and ?skip = "(off - LOGICAL_HEADER) mod PAGE"
  define count where "count = last_page - first + 1"
  let ?file = "abind (file_read en (block_offset ?k first) (count * stride ?k)) (\<lambda>buf s.
      (copy_blocks en first ?skip len (blocks_of (stride ?k) count buf), s))"
  have r: "first + count = last_page + 1" "j < first + count" using assms(9,10) by (simp_all add: count_def)
  have "block_offset ?k first + count * stride ?k = block_offset ?k (first + count)" by (simp add: block_offset_def algebra_simps)
  then have l: "block_offset ?k first + count * stride ?k \<le> length (bb_disk s)" using assms(7) r(1) by simp
  have "copy_blocks en first ?skip len (map (\<lambda>i. block_at ?k i (bb_disk s)) [first..<first + count]) = Inl (TamperData (Some j))"
    by (rule copy_blocks_refuses) (use assms(9,11,12) r(2) in \<open>simp_all add: disk_page_def\<close>)
  then have f: "?file s = (Inl (TamperData (Some j)), s\<lparr>bb_ops := bb_ops s + 1\<rparr>)" using file_calls(2)[OF assms(3) l] by (simp add: abind_def blocks_of_disk)
  have none: "\<not> list_ex (\<lambda>b. tbl_get (bb_pending s) b \<noteq> None) [first..<first + count]" "tbl_get (bb_pending s) first = None"
    using assms(8,9,10) unfolding r(1) by (auto simp: list_ex_iff)
  have "read_pages en off len s = ?file s"
    unfolding read_pages_def Let_def first_def[symmetric] last_page_def[symmetric] count_def[symmetric] using none by simp
  then show ?thesis using f assms(4,5,6) by (simp add: backend_read_def abind_def)
qed

text \<open>At a concrete input: a block of zeros.\<close>

theorem tampered_block_refused_witness:
  "fst (backend_read sample_env 4100 10 (sample_blocks\<lparr>bb_disk := replicate 9000 0, bb_data_len := 4096\<rparr>)) = Inl (TamperData (Some 0))"
proof -
  let ?s = "sample_blocks\<lparr>bb_disk := replicate 9000 0, bb_data_len := 4096\<rparr>"
  have z: "disk_page sample_env (replicate 9000 0) 0 = None"
    using sample_opened_zeros[of 4124 "block_aad 0"]
    by (simp add: disk_page_def block_at_def sample_env_def block_offset_def DATA_BASE_def FILE_HEADER_LEN_def PIECES_LEN_def PIECE_LEN_def stride_def PAGE_def overhead_def TAG_LEN_def)
  have "backend_read sample_env 4100 10 ?s = (Inl (TamperData (Some 0)), ?s\<lparr>bb_ops := bb_ops ?s + 1\<rparr>)"
    by (rule tampered_block_refused) (use z in \<open>simp_all add: answers_io_def sample_env_def sample_blocks_def LOGICAL_HEADER_def PAGE_def backend_len_def
      block_offset_def DATA_BASE_def FILE_HEADER_LEN_def PIECES_LEN_def PIECE_LEN_def stride_def overhead_def TAG_LEN_def\<close>)
  then show ?thesis by simp
qed

end
